(* ===== verification/TFS_Prelude.thy ===== *)
theory TFS_Prelude
  imports Main
begin

text \<open>
  Shared vocabulary of the development: the outcome of a C statement (a value and the next
  state, or the fault that ends the execution), sequencing, machine integers, bytes and C
  strings, and the memory of a character array.

  Bytes are \<^typ>\<open>char\<close> (256 values).  A pointer to a C string is modelled by the list of the
  bytes that can be read from it on, terminator included; running off the end of that list is
  the fault \<open>OutOfBounds\<close>, never a value.
\<close>

named_theorems exec_simps \<open>one-step execution rules of the sequencing combinators\<close>
named_theorems lock_simps \<open>execution of the lock wrappers\<close>
named_theorems wf_simps \<open>facts a well-formed state gives\<close>

section \<open>Faults and sequencing\<close>

text \<open>
  What can end an execution before it returns: \<open>Panic\<close> is \<open>ALWAYS_ASSERT\<close>/\<open>PANIC\<close> (abort),
  \<open>ExitFailure\<close> is \<open>exit(1)\<close> of a wrapper, \<open>Deadlock\<close> is waiting for a lock this very
  execution holds, \<open>Diverges\<close> is a recursion that never returns, and the others are undefined
  behaviour of C that the model refuses to give a value (\<open>LockMisuse\<close> is releasing a lock that
  is not held, destroying one that is held, and using one that was destroyed; \<open>Indeterminate\<close> is
  using a pointer that was never set or that points to an object of another type).
\<close>

datatype fault =
    Panic string
  | ExitFailure
  | OutOfBounds
  | DivideByZero
  | SignedOverflow
  | Deadlock
  | LockMisuse
  | Diverges
  | Indeterminate

type_synonym 'a res = "fault + 'a"
type_synonym ('s, 'a) oper = "'s \<Rightarrow> fault + 'a \<times> 's"

definition ret :: "'a \<Rightarrow> ('s, 'a) oper" where
  "ret a s = Inr (a, s)"

definition fail :: "fault \<Rightarrow> ('s, 'a) oper" where
  "fail e s = Inl e"

definition gets :: "('s \<Rightarrow> 'a) \<Rightarrow> ('s, 'a) oper" where
  "gets f s = Inr (f s, s)"

definition modify :: "('s \<Rightarrow> 's) \<Rightarrow> ('s, unit) oper" where
  "modify f s = Inr ((), f s)"

definition lift :: "'a res \<Rightarrow> ('s, 'a) oper" where
  "lift r s = (case r of Inl e \<Rightarrow> Inl e | Inr a \<Rightarrow> Inr (a, s))"

text \<open>Call \<open>m\<close> and continue with its result; a fault of \<open>m\<close> ends the execution.\<close>

definition call :: "('s, 'a) oper \<Rightarrow> ('a \<Rightarrow> ('s, 'b) oper) \<Rightarrow> ('s, 'b) oper" where
  "call m k s = (case m s of Inl e \<Rightarrow> Inl e | Inr (a, t) \<Rightarrow> k a t)"

text \<open>A block of statements, then what follows it.\<close>

fun block :: "('s, unit) oper list \<Rightarrow> ('s, 'a) oper \<Rightarrow> ('s, 'a) oper" where
  "block [] k = k"
| "block (m # ms) k = call m (\<lambda>_. block ms k)"

text \<open>\<open>ALWAYS_ASSERT(c, msg)\<close> of \<open>fs/betterassert.h\<close>, which aborts the program.\<close>

definition always_assert :: "bool \<Rightarrow> string \<Rightarrow> ('s, unit) oper" where
  "always_assert c msg = (if c then ret () else fail (Panic msg))"

lemma ret_exec [exec_simps]: "ret a s = Inr (a, s)"
  by (simp add: ret_def)

lemma fail_exec [exec_simps]: "fail e s = Inl e"
  by (simp add: fail_def)

lemma gets_exec [exec_simps]: "gets f s = Inr (f s, s)"
  by (simp add: gets_def)

lemma modify_exec [exec_simps]: "modify f s = Inr ((), f s)"
  by (simp add: modify_def)

lemma lift_Inr [exec_simps]: "lift (Inr a) s = Inr (a, s)"
  by (simp add: lift_def)

lemma lift_Inl [exec_simps]: "lift (Inl e) s = Inl e"
  by (simp add: lift_def)

lemma always_assert_exec [exec_simps]:
  "always_assert c msg s = (if c then Inr ((), s) else Inl (Panic msg))"
  by (simp add: always_assert_def exec_simps)

lemma call_Inr [exec_simps]: "m s = Inr (a, t) \<Longrightarrow> call m k s = k a t"
  by (simp add: call_def)

lemma call_Inl [exec_simps]: "m s = Inl e \<Longrightarrow> call m k s = Inl e"
  by (simp add: call_def)

text \<open>The statements without a condition, directly under \<open>call\<close>.\<close>

lemma call_ret [exec_simps]: "call (ret a) k s = k a s"
  by (simp add: call_def ret_def)

lemma call_fail [exec_simps]: "call (fail e) k s = Inl e"
  by (simp add: call_def fail_def)

lemma call_gets [exec_simps]: "call (gets f) k s = k (f s) s"
  by (simp add: call_def gets_def)

lemma call_modify [exec_simps]: "call (modify f) k s = k () (f s)"
  by (simp add: call_def modify_def)

lemma call_lift_Inr [exec_simps]: "call (lift (Inr a)) k s = k a s"
  by (simp add: call_def lift_def)

lemma call_lift_Inl [exec_simps]: "call (lift (Inl e)) k s = Inl e"
  by (simp add: call_def lift_def)

lemma call_eq_InrE:
  assumes "call m k s = Inr r"
  obtains a t where "m s = Inr (a, t)" "k a t = Inr r"
  using assms by (auto simp: call_def split: sum.splits prod.splits)

lemma call_if [exec_simps]:
  "call (\<lambda>s. if c s then m s else n s) k s = (if c s then call m k s else call n k s)"
  by (simp add: call_def)

section \<open>Machine integers\<close>

text \<open>
  \<open>size_t\<close> is a natural number below \<open>2 ^ 64\<close>; its operations wrap around.  A signed \<open>int\<close> is
  an \<^typ>\<open>int\<close>; \<open>to_int\<close> is the conversion of a \<open>size_t\<close> to \<open>int\<close>.
\<close>

abbreviation size_mod :: nat where
  "size_mod \<equiv> 18446744073709551616"

definition size_add :: "nat \<Rightarrow> nat \<Rightarrow> nat" where
  "size_add a b = (a + b) mod size_mod"

definition size_sub :: "nat \<Rightarrow> nat \<Rightarrow> nat" where
  "size_sub a b = (a + (size_mod - b mod size_mod)) mod size_mod"

definition size_mul :: "nat \<Rightarrow> nat \<Rightarrow> nat" where
  "size_mul a b = (a * b) mod size_mod"

definition to_int :: "nat \<Rightarrow> int" where
  "to_int n = (int n + 2147483648) mod 4294967296 - 2147483648"

text \<open>\<open>i + 1\<close> on an \<open>int\<close>: overflow of a signed integer is undefined behaviour.\<close>

definition int_succ :: "int \<Rightarrow> int res" where
  "int_succ i = (if i = 2147483647 then Inl SignedOverflow else Inr (i + 1))"

lemma size_add_small [simp]: "a + b < size_mod \<Longrightarrow> size_add a b = a + b"
  by (simp add: size_add_def)

lemma size_sub_small [simp]: "b \<le> a \<Longrightarrow> a < size_mod \<Longrightarrow> size_sub a b = a - b"
proof -
  assume ba: "b \<le> a" and a: "a < size_mod"
  then have "a + (size_mod - b mod size_mod) = (a - b) + size_mod"
    by simp
  then show ?thesis
    using a by (simp add: size_sub_def)
qed

lemma size_sub_wrap: "a < b \<Longrightarrow> b < size_mod \<Longrightarrow> size_sub a b = size_mod - (b - a)"
  by (simp add: size_sub_def)

lemma size_mul_small [simp]: "a * b < size_mod \<Longrightarrow> size_mul a b = a * b"
  by (simp add: size_mul_def)

lemma to_int_small [simp]: "n < 2147483648 \<Longrightarrow> to_int n = int n"
  by (simp add: to_int_def)

section \<open>Arrays indexed by an int\<close>

definition array_get :: "'a list \<Rightarrow> int \<Rightarrow> 'a res" where
  "array_get xs i = (if 0 \<le> i \<and> i < int (length xs) then Inr (xs ! nat i) else Inl OutOfBounds)"

definition array_set :: "'a list \<Rightarrow> int \<Rightarrow> 'a \<Rightarrow> 'a list res" where
  "array_set xs i v =
     (if 0 \<le> i \<and> i < int (length xs) then Inr (xs[nat i := v]) else Inl OutOfBounds)"

lemma array_get_in [simp]: "0 \<le> i \<Longrightarrow> i < int (length xs) \<Longrightarrow> array_get xs i = Inr (xs ! nat i)"
  by (simp add: array_get_def)

lemma array_set_in [simp]:
  "0 \<le> i \<Longrightarrow> i < int (length xs) \<Longrightarrow> array_set xs i v = Inr (xs[nat i := v])"
  by (simp add: array_set_def)

section \<open>Bytes and C strings\<close>

abbreviation NUL :: char where
  "NUL \<equiv> CHR 0x00"

text \<open>A string argument of an API function: \<open>None\<close> is the NULL pointer.\<close>

type_synonym cstr = "string option"

fun cmem :: "cstr \<Rightarrow> char list" where
  "cmem None = []"
| "cmem (Some s) = s @ [NUL]"

fun c_strlen :: "char list \<Rightarrow> nat res" where
  "c_strlen [] = Inl OutOfBounds"
| "c_strlen (c # cs) =
     (if c = NUL then Inr 0
      else case c_strlen cs of Inl e \<Rightarrow> Inl e | Inr n \<Rightarrow> Inr (Suc n))"

text \<open>\<open>strcmp(p, q) == 0\<close>: reads both strings up to the first difference or terminator.\<close>

fun c_streq :: "char list \<Rightarrow> char list \<Rightarrow> bool res" where
  "c_streq (a # as) (b # bs) =
     (if a \<noteq> b then Inr False else if a = NUL then Inr True else c_streq as bs)"
| "c_streq _ _ = Inl OutOfBounds"

text \<open>\<open>strncmp(p, q, n) == 0\<close>.\<close>

fun c_strneq :: "nat \<Rightarrow> char list \<Rightarrow> char list \<Rightarrow> bool res" where
  "c_strneq n (a # as) (b # bs) =
     (if n = 0 then Inr True
      else if a \<noteq> b then Inr False
      else if a = NUL then Inr True
      else c_strneq (n - 1) as bs)"
| "c_strneq n _ _ = (if n = 0 then Inr True else Inl OutOfBounds)"

text \<open>The bytes \<open>strncpy(dst, src, n)\<close> stores: the string cut at \<open>n\<close>, padded with zeros.\<close>

fun c_strncpy :: "nat \<Rightarrow> char list \<Rightarrow> char list res" where
  "c_strncpy n [] = (if n = 0 then Inr [] else Inl OutOfBounds)"
| "c_strncpy n (c # cs) =
     (if n = 0 then Inr []
      else if c = NUL then Inr (replicate n NUL)
      else case c_strncpy (n - 1) cs of Inl e \<Rightarrow> Inl e | Inr bs \<Rightarrow> Inr (c # bs))"

text \<open>The bytes \<open>strcpy\<close> stores: the string with its terminator.\<close>

fun c_strcpy :: "char list \<Rightarrow> char list res" where
  "c_strcpy [] = Inl OutOfBounds"
| "c_strcpy (c # cs) =
     (if c = NUL then Inr [NUL]
      else case c_strcpy cs of Inl e \<Rightarrow> Inl e | Inr bs \<Rightarrow> Inr (c # bs))"

text \<open>\<open>memchr(p, 0, n)\<close>: the distance to the first zero byte among the first \<open>n\<close>.\<close>

fun c_memchr0 :: "nat \<Rightarrow> char list \<Rightarrow> nat option res" where
  "c_memchr0 n [] = (if n = 0 then Inr None else Inl OutOfBounds)"
| "c_memchr0 n (c # cs) =
     (if n = 0 then Inr None
      else if c = NUL then Inr (Some 0)
      else case c_memchr0 (n - 1) cs of Inl e \<Rightarrow> Inl e | Inr r \<Rightarrow> Inr (map_option Suc r))"

text \<open>The string a pointer denotes: the bytes before the terminator.\<close>

definition c_string :: "char list \<Rightarrow> string" where
  "c_string p = takeWhile (\<lambda>c. c \<noteq> NUL) p"

lemma c_string_term [simp]: "NUL \<notin> set u \<Longrightarrow> c_string (u @ NUL # r) = u"
proof -
  assume "NUL \<notin> set u"
  then have "\<And>c. c \<in> set u \<Longrightarrow> c \<noteq> NUL" by auto
  then show ?thesis by (simp add: c_string_def)
qed

lemma c_string_no_NUL: "NUL \<notin> set (c_string p)"
  by (auto simp: c_string_def dest: set_takeWhileD)

lemma c_string_split:
  "NUL \<in> set p \<Longrightarrow> \<exists>r. p = c_string p @ NUL # r"
proof (induction p)
  case Nil
  then show ?case by simp
next
  case (Cons c p)
  then show ?case by (cases "c = NUL") (auto simp: c_string_def)
qed

lemma c_strlen_term: "NUL \<notin> set u \<Longrightarrow> c_strlen (u @ NUL # r) = Inr (length u)"
  by (induction u) auto

lemma c_streq_term:
  "NUL \<notin> set u \<Longrightarrow> NUL \<notin> set v \<Longrightarrow> c_streq (u @ NUL # r) (v @ NUL # q) = Inr (u = v)"
proof (induction u arbitrary: v)
  case Nil
  then show ?case by (cases v) auto
next
  case (Cons a u)
  then show ?case by (cases v) auto
qed

text \<open>
  A terminated string shorter than the bound against any bytes: what matters is that the
  bytes are long enough to be compared.
\<close>

lemma c_strneq_term:
  "NUL \<notin> set u \<Longrightarrow> length u < n \<Longrightarrow> NUL \<in> set p \<or> length u < length p \<Longrightarrow>
   c_strneq n (u @ NUL # r) p = Inr (u = c_string p)"
proof (induction u arbitrary: n p)
  case Nil
  then show ?case by (cases p) (auto simp: c_string_def)
next
  case (Cons a u)
  show ?case
  proof (cases p)
    case Nil
    with Cons.prems show ?thesis by simp
  next
    case p: (Cons b q)
    show ?thesis
    proof (cases "a = b")
      case False
      with p Cons.prems show ?thesis by (auto simp: c_string_def)
    next
      case True
      have "c_strneq (n - 1) (u @ NUL # r) q = Inr (u = c_string q)"
        using Cons.prems p True by (intro Cons.IH) auto
      with True p Cons.prems show ?thesis by (auto simp: c_string_def)
    qed
  qed
qed

lemma c_strncpy_term:
  "NUL \<notin> set u \<Longrightarrow> length u \<le> n \<Longrightarrow>
   c_strncpy n (u @ NUL # r) = Inr (u @ replicate (n - length u) NUL)"
proof (induction u arbitrary: n)
  case Nil
  then show ?case by (cases n) auto
next
  case (Cons a u)
  then show ?case by (cases n) auto
qed

lemma c_strcpy_term: "NUL \<notin> set u \<Longrightarrow> c_strcpy (u @ NUL # r) = Inr (u @ [NUL])"
  by (induction u) auto

lemma c_memchr0_None: "n \<le> length p \<Longrightarrow> NUL \<notin> set (take n p) \<Longrightarrow> c_memchr0 n p = Inr None"
proof (induction p arbitrary: n)
  case Nil
  then show ?case by simp
next
  case (Cons c p)
  then show ?case by (cases n) auto
qed

lemma c_memchr0_Some:
  "NUL \<notin> set u \<Longrightarrow> length u < n \<Longrightarrow> c_memchr0 n (u @ NUL # r) = Inr (Some (length u))"
proof (induction u arbitrary: n)
  case Nil
  then show ?case by (cases n) auto
next
  case (Cons a u)
  then show ?case by (cases n) auto
qed

section \<open>Little-endian encodings\<close>

fun le_bytes :: "nat \<Rightarrow> nat \<Rightarrow> char list" where
  "le_bytes 0 v = []"
| "le_bytes (Suc k) v = char_of (v mod 256) # le_bytes k (v div 256)"

fun le_val :: "char list \<Rightarrow> nat" where
  "le_val [] = 0"
| "le_val (c # cs) = of_char c + 256 * le_val cs"

lemma length_le_bytes [simp]: "length (le_bytes k v) = k"
  by (induction k arbitrary: v) auto

lemma le_val_le_bytes: "le_val (le_bytes k v) = v mod 256 ^ k"
proof (induction k arbitrary: v)
  case 0
  then show ?case by simp
next
  case (Suc k)
  have "v mod (256 * 256 ^ k) = 256 * (v div 256 mod 256 ^ k) + v mod 256"
    by (rule mod_mult2_eq)
  then show ?case by (simp add: Suc)
qed

lemma le_val_bound: "le_val cs < 256 ^ length cs"
proof (induction cs)
  case Nil
  then show ?case by simp
next
  case (Cons c cs)
  have "of_char c < (256::nat)" by simp
  moreover have "256 * Suc (le_val cs) \<le> 256 * 256 ^ length cs"
    using Cons by (intro mult_le_mono2) simp
  ultimately show ?case
    by (simp only: le_val.simps length_Cons power_Suc mult_Suc_right)
qed

text \<open>The four bytes of an \<open>int\<close>, two's complement.\<close>

definition int_enc :: "int \<Rightarrow> char list" where
  "int_enc i = le_bytes 4 (nat (i mod 4294967296))"

definition int_dec :: "char list \<Rightarrow> int" where
  "int_dec cs = to_int (le_val cs)"

definition is_int32 :: "int \<Rightarrow> bool" where
  "is_int32 i \<longleftrightarrow> - 2147483648 \<le> i \<and> i < 2147483648"

lemma length_int_enc [simp]: "length (int_enc i) = 4"
  by (simp add: int_enc_def)

lemma int_dec_enc [simp]: "is_int32 i \<Longrightarrow> int_dec (int_enc i) = i"
proof -
  assume i: "is_int32 i"
  have "nat (i mod 4294967296) < 256 ^ 4"
    by (simp add: nat_less_iff)
  then have v: "le_val (int_enc i) = nat (i mod 4294967296)"
    by (simp add: int_enc_def le_val_le_bytes)
  have "(i mod 4294967296 + 2147483648) mod 4294967296 = (i + 2147483648) mod 4294967296"
    by (simp add: mod_add_left_eq)
  also have "\<dots> = i + 2147483648"
    using i by (simp add: is_int32_def)
  finally show ?thesis
    by (simp add: int_dec_def to_int_def v)
qed

section \<open>Memory of a character array\<close>

text \<open>
  The array \<open>fs_data\<close> is a function from offsets to bytes together with the number of bytes
  allocated; every access is checked against that number.
\<close>

type_synonym memory = "nat \<Rightarrow> char"

definition slice :: "memory \<Rightarrow> nat \<Rightarrow> nat \<Rightarrow> char list" where
  "slice m a n = map m [a ..< a + n]"

definition store :: "memory \<Rightarrow> nat \<Rightarrow> char list \<Rightarrow> memory" where
  "store m a bs = (\<lambda>x. if a \<le> x \<and> x < a + length bs then bs ! (x - a) else m x)"

lemma length_slice [simp]: "length (slice m a n) = n"
  by (simp add: slice_def)

lemma nth_slice [simp]: "k < n \<Longrightarrow> slice m a n ! k = m (a + k)"
  by (simp add: slice_def)

lemma slice_0 [simp]: "slice m a 0 = []"
  by (simp add: slice_def)

lemma slice_Suc: "slice m a (Suc n) = m a # slice m (Suc a) n"
  by (simp add: slice_def upt_conv_Cons del: upt_Suc)

lemma slice_add: "slice m a (n + k) = slice m a n @ slice m (a + n) k"
  by (intro nth_equalityI) (auto simp: nth_append)

lemma take_slice [simp]: "take k (slice m a n) = slice m a (min k n)"
  by (intro nth_equalityI) auto

lemma drop_slice [simp]: "drop k (slice m a n) = slice m (a + k) (n - k)"
  by (intro nth_equalityI) (auto simp: add.assoc)

lemma slice_cong: "(\<And>k. k < n \<Longrightarrow> m (a + k) = m' (a + k)) \<Longrightarrow> slice m a n = slice m' a n"
  by (intro nth_equalityI) auto

lemma slice_store_same [simp]: "n = length bs \<Longrightarrow> slice (store m a bs) a n = bs"
  by (intro nth_equalityI) (auto simp: store_def)

lemma slice_store_other:
  "b + n \<le> a \<or> a + length bs \<le> b \<Longrightarrow> slice (store m a bs) b n = slice m b n"
  by (intro nth_equalityI) (auto simp: store_def)

lemma store_outside: "x < a \<or> a + length bs \<le> x \<Longrightarrow> store m a bs x = m x"
  by (auto simp: store_def)

lemma slice_store_within:
  assumes "k + length bs \<le> n"
  shows "slice (store m (a + k) bs) a n =
    slice m a k @ bs @ slice m (a + k + length bs) (n - (k + length bs))"
proof (rule nth_equalityI)
  show "length (slice (store m (a + k) bs) a n) =
    length (slice m a k @ bs @ slice m (a + k + length bs) (n - (k + length bs)))"
    using assms by simp
next
  fix i
  assume "i < length (slice (store m (a + k) bs) a n)"
  then have i: "i < n" by simp
  consider "i < k" | "k \<le> i" "i < k + length bs" | "k + length bs \<le> i" by linarith
  then show "slice (store m (a + k) bs) a n ! i =
    (slice m a k @ bs @ slice m (a + k + length bs) (n - (k + length bs))) ! i"
  proof cases
    case 1
    then show ?thesis using i by (simp add: nth_append store_def)
  next
    case 2
    then have "i - k < length bs" by linarith
    with 2 show ?thesis using i by (simp add: nth_append store_def)
  next
    case 3
    then have "a + k + length bs + (i - k - length bs) = a + i" and "\<not> i - k < length bs"
      by linarith+
    with 3 show ?thesis using i by (simp add: nth_append store_def)
  qed
qed

section \<open>List facts\<close>

text \<open>The first index whose element satisfies \<open>P\<close>: what a search loop finds.\<close>

fun first_index :: "('a \<Rightarrow> bool) \<Rightarrow> 'a list \<Rightarrow> nat option" where
  "first_index P [] = None"
| "first_index P (x # xs) = (if P x then Some 0 else map_option Suc (first_index P xs))"

lemma first_index_None: "first_index P xs = None \<longleftrightarrow> (\<forall>x \<in> set xs. \<not> P x)"
  by (induction xs) auto

lemma first_index_SomeD:
  "first_index P xs = Some i \<Longrightarrow> i < length xs \<and> P (xs ! i) \<and> (\<forall>j < i. \<not> P (xs ! j))"
proof (induction xs arbitrary: i)
  case Nil
  then show ?case by simp
next
  case (Cons x xs)
  show ?case
  proof (cases "P x")
    case True
    with Cons.prems show ?thesis by simp
  next
    case False
    with Cons.prems obtain k where k: "first_index P xs = Some k" "i = Suc k" by auto
    from Cons.IH [OF k(1)] k(2) False show ?thesis
      by (auto simp: nth_Cons split: nat.splits)
  qed
qed

lemma first_index_ex: "x \<in> set xs \<Longrightarrow> P x \<Longrightarrow> \<exists>i. first_index P xs = Some i"
  by (cases "first_index P xs") (auto simp: first_index_None)

lemma first_index_SomeI:
  "i < length xs \<Longrightarrow> P (xs ! i) \<Longrightarrow> (\<And>j. j < i \<Longrightarrow> \<not> P (xs ! j)) \<Longrightarrow> first_index P xs = Some i"
proof (induction xs arbitrary: i)
  case Nil
  then show ?case by simp
next
  case (Cons x xs)
  show ?case
  proof (cases i)
    case 0
    with Cons.prems show ?thesis by simp
  next
    case (Suc k)
    have "\<not> P x" using Cons.prems(3) [of 0] Suc by simp
    moreover have "first_index P xs = Some k"
    proof (rule Cons.IH)
      show "k < length xs" and "P (xs ! k)" using Cons.prems Suc by simp_all
      show "\<not> P (xs ! j)" if "j < k" for j using Cons.prems(3) [of "Suc j"] that Suc by simp
    qed
    ultimately show ?thesis using Suc by simp
  qed
qed

lemma nth_update: "xs[i := v] ! j = (if i = j \<and> j < length xs then v else xs ! j)"
  by (cases "i < length xs") (auto simp: nth_list_update list_update_beyond)

lemma count_list_le_length: "count_list xs x \<le> length xs"
  by (induction xs) auto

lemma count_list_update:
  "i < length xs \<Longrightarrow>
   count_list (xs[i := v]) x + of_bool (xs ! i = x) = count_list xs x + of_bool (v = x)"
proof (induction xs arbitrary: i)
  case Nil
  then show ?case by simp
next
  case (Cons y ys)
  show ?case
  proof (cases i)
    case 0
    then show ?thesis by simp
  next
    case (Suc j)
    with Cons.prems have "j < length ys" by simp
    from Cons.IH [OF this] Suc show ?thesis by simp
  qed
qed

lemma count_list_pos: "x \<in> set xs \<Longrightarrow> 0 < count_list xs x"
  by (induction xs) auto

lemma count_list_zero: "count_list xs x = 0 \<Longrightarrow> x \<notin> set xs"
  by (induction xs) (auto split: if_splits)

end
