(* ===== verification/FS_State.thy ===== *)
theory FS_State
  imports TFS_Prelude
begin

text \<open>
  \<open>fs/state.h\<close> and \<open>fs/state.c\<close>: the tables of the file system, the read-write locks that
  guard them, and the operations of the lower layer, in the order of the source.

  The globals of \<open>state.c\<close> are the record \<open>tfs_state\<close>.  A heap array is a list (empty while the
  pointer is NULL); \<open>fs_data\<close> is byte memory of \<open>fs_data_size\<close> bytes, in which directory
  entries are laid out as the C structure \<open>dir_entry_t\<close> (40 bytes of name, 4 bytes of inumber).
  A pointer to an inode or to an open file entry is its index; a pointer into \<open>fs_data\<close> is its
  offset.  The pointers the source tests against NULL after \<open>inode_get\<close> and \<open>data_block_get\<close>
  are addresses of array elements and never NULL, so these tests have no branch here.
  \<open>insert_delay\<close> changes nothing and is left out; the modulus \<open>% BLOCK_SIZE\<close> that decides
  when it is called can trap and is kept.
\<close>

section \<open>Data\<close>

definition ROOT_DIR_INUM :: int where
  "ROOT_DIR_INUM = 0"

definition MAX_FILE_NAME :: nat where
  "MAX_FILE_NAME = 40"

record tfs_params =
  max_inode_count :: nat
  max_block_count :: nat
  max_open_files_count :: nat
  block_size :: nat

datatype inode_type = T_FILE | T_DIRECTORY | T_SOFT_LINK

record inode =
  i_node_type :: inode_type
  i_size :: nat
  i_data_block :: int
  i_count :: int

datatype allocation_state = FREE | TAKEN

record open_file_entry =
  of_inumber :: int
  of_offset :: nat

datatype rwlock = Unlocked | ReadLocked nat | WriteLocked | Destroyed

text \<open>The locks of \<open>state.c\<close>, by the array or global they live in.\<close>

datatype lock_id =
    L_inode int
  | L_inode_table
  | L_data_table
  | L_dir_table
  | L_file int
  | L_file_table

record tfs_state =
  fs_params :: tfs_params
  inode_table_set :: bool
  inode_table :: "inode list"
  freeinode_ts :: "allocation_state list"
  lock_inode_len :: nat
  fs_data :: memory
  fs_data_size :: nat
  free_blocks :: "allocation_state list"
  lock_file_len :: nat
  open_file_table :: "open_file_entry list"
  free_open_file_entries :: "allocation_state list"
  locks :: "lock_id \<Rightarrow> rwlock"

type_synonym 'a fsop = "(tfs_state, 'a) oper"

abbreviation INODE_TABLE_SIZE :: "tfs_state \<Rightarrow> nat" where
  "INODE_TABLE_SIZE s \<equiv> max_inode_count (fs_params s)"

abbreviation DATA_BLOCKS :: "tfs_state \<Rightarrow> nat" where
  "DATA_BLOCKS s \<equiv> max_block_count (fs_params s)"

abbreviation MAX_OPEN_FILES :: "tfs_state \<Rightarrow> nat" where
  "MAX_OPEN_FILES s \<equiv> max_open_files_count (fs_params s)"

abbreviation BLOCK_SIZE :: "tfs_state \<Rightarrow> nat" where
  "BLOCK_SIZE s \<equiv> block_size (fs_params s)"

text \<open>\<open>sizeof(dir_entry_t)\<close> is 44: the name, then the inumber at offset 40.\<close>

definition MAX_DIR_ENTRIES :: "tfs_state \<Rightarrow> nat" where
  "MAX_DIR_ENTRIES s = BLOCK_SIZE s div 44"

definition valid_inumber :: "tfs_state \<Rightarrow> int \<Rightarrow> bool" where
  "valid_inumber s inumber \<longleftrightarrow> 0 \<le> inumber \<and> inumber < int (INODE_TABLE_SIZE s)"

definition valid_block_number :: "tfs_state \<Rightarrow> int \<Rightarrow> bool" where
  "valid_block_number s block_number \<longleftrightarrow> 0 \<le> block_number \<and> block_number < int (DATA_BLOCKS s)"

definition valid_file_handle :: "tfs_state \<Rightarrow> int \<Rightarrow> bool" where
  "valid_file_handle s file_handle \<longleftrightarrow> 0 \<le> file_handle \<and> file_handle < int (MAX_OPEN_FILES s)"

definition state_block_size :: "nat fsop" where
  "state_block_size = gets BLOCK_SIZE"

section \<open>The lock wrappers\<close>

text \<open>
  One execution is followed: a lock it holds itself for writing (or wants for writing while it
  holds it at all) is never granted, and \<open>pthread_rwlock_*\<close> either blocks or reports
  \<open>EDEADLK\<close>, on which the wrapper exits.  Both are the fault \<open>Deadlock\<close>.  The elements of
  \<open>lock_inode\<close> and \<open>lock_file\<close> exist only inside the arrays.
\<close>

fun lock_exists :: "tfs_state \<Rightarrow> lock_id \<Rightarrow> bool" where
  "lock_exists s (L_inode i) = (0 \<le> i \<and> i < int (lock_inode_len s))"
| "lock_exists s (L_file i) = (0 \<le> i \<and> i < int (lock_file_len s))"
| "lock_exists s _ = True"

definition set_lock :: "lock_id \<Rightarrow> rwlock \<Rightarrow> tfs_state \<Rightarrow> tfs_state" where
  "set_lock l v s = s\<lparr>locks := (locks s)(l := v)\<rparr>"

definition my_r_lock :: "lock_id \<Rightarrow> unit fsop" where
  "my_r_lock l s =
     (if \<not> lock_exists s l then Inl OutOfBounds
      else case locks s l of
        Unlocked \<Rightarrow> Inr ((), set_lock l (ReadLocked 1) s)
      | ReadLocked n \<Rightarrow> Inr ((), set_lock l (ReadLocked (Suc n)) s)
      | WriteLocked \<Rightarrow> Inl Deadlock
      | Destroyed \<Rightarrow> Inl LockMisuse)"

definition my_w_lock :: "lock_id \<Rightarrow> unit fsop" where
  "my_w_lock l s =
     (if \<not> lock_exists s l then Inl OutOfBounds
      else case locks s l of
        Unlocked \<Rightarrow> Inr ((), set_lock l WriteLocked s)
      | ReadLocked n \<Rightarrow> Inl Deadlock
      | WriteLocked \<Rightarrow> Inl Deadlock
      | Destroyed \<Rightarrow> Inl LockMisuse)"

definition my_unlock :: "lock_id \<Rightarrow> unit fsop" where
  "my_unlock l s =
     (if \<not> lock_exists s l then Inl OutOfBounds
      else case locks s l of
        Unlocked \<Rightarrow> Inl LockMisuse
      | ReadLocked n \<Rightarrow> Inr ((), set_lock l (if n \<le> 1 then Unlocked else ReadLocked (n - 1)) s)
      | WriteLocked \<Rightarrow> Inr ((), set_lock l Unlocked s)
      | Destroyed \<Rightarrow> Inl LockMisuse)"

definition rwlock_init :: "lock_id \<Rightarrow> unit fsop" where
  "rwlock_init l s =
     (if lock_exists s l then Inr ((), set_lock l Unlocked s) else Inl OutOfBounds)"

definition rwlock_destroy :: "lock_id \<Rightarrow> unit fsop" where
  "rwlock_destroy l s =
     (if \<not> lock_exists s l then Inl OutOfBounds
      else if locks s l = Unlocked then Inr ((), set_lock l Destroyed s)
      else Inl LockMisuse)"

section \<open>Access to the tables and to the data blocks\<close>

definition read_inode :: "int \<Rightarrow> inode fsop" where
  "read_inode p = call (gets inode_table) (\<lambda>t. lift (array_get t p))"

definition upd_inode :: "int \<Rightarrow> (inode \<Rightarrow> inode) \<Rightarrow> unit fsop" where
  "upd_inode p f =
     call (read_inode p) (\<lambda>nd.
     modify (\<lambda>s. s\<lparr>inode_table := (inode_table s)[nat p := f nd]\<rparr>))"

definition read_file :: "int \<Rightarrow> open_file_entry fsop" where
  "read_file p = call (gets open_file_table) (\<lambda>t. lift (array_get t p))"

definition upd_file :: "int \<Rightarrow> (open_file_entry \<Rightarrow> open_file_entry) \<Rightarrow> unit fsop" where
  "upd_file p f =
     call (read_file p) (\<lambda>fe.
     modify (\<lambda>s. s\<lparr>open_file_table := (open_file_table s)[nat p := f fe]\<rparr>))"

definition set_freeinode :: "int \<Rightarrow> allocation_state \<Rightarrow> unit fsop" where
  "set_freeinode i v =
     call (gets freeinode_ts) (\<lambda>t. call (lift (array_set t i v)) (\<lambda>t'.
     modify (\<lambda>s. s\<lparr>freeinode_ts := t'\<rparr>)))"

definition set_free_block :: "int \<Rightarrow> allocation_state \<Rightarrow> unit fsop" where
  "set_free_block i v =
     call (gets free_blocks) (\<lambda>t. call (lift (array_set t i v)) (\<lambda>t'.
     modify (\<lambda>s. s\<lparr>free_blocks := t'\<rparr>)))"

definition set_free_file :: "int \<Rightarrow> allocation_state \<Rightarrow> unit fsop" where
  "set_free_file i v =
     call (gets free_open_file_entries) (\<lambda>t. call (lift (array_set t i v)) (\<lambda>t'.
     modify (\<lambda>s. s\<lparr>free_open_file_entries := t'\<rparr>)))"

text \<open>The bytes that can be read from address \<open>a\<close> on.\<close>

definition mem_from :: "nat \<Rightarrow> tfs_state \<Rightarrow> char list" where
  "mem_from a s = slice (fs_data s) a (fs_data_size s - a)"

definition mem_read :: "nat \<Rightarrow> nat \<Rightarrow> char list fsop" where
  "mem_read a n s =
     (if a + n \<le> fs_data_size s then Inr (slice (fs_data s) a n, s) else Inl OutOfBounds)"

definition mem_write :: "nat \<Rightarrow> char list \<Rightarrow> unit fsop" where
  "mem_write a bs s =
     (if a + length bs \<le> fs_data_size s
      then Inr ((), s\<lparr>fs_data := store (fs_data s) a bs\<rparr>) else Inl OutOfBounds)"

text \<open>\<open>dir_entry[i].d_name\<close> and \<open>dir_entry[i].d_inumber\<close> of the array at \<open>base\<close>.\<close>

definition d_name_addr :: "nat \<Rightarrow> nat \<Rightarrow> nat" where
  "d_name_addr base i = base + 44 * i"

definition d_inumber_addr :: "nat \<Rightarrow> nat \<Rightarrow> nat" where
  "d_inumber_addr base i = base + 44 * i + 40"

definition read_d_inumber :: "nat \<Rightarrow> nat \<Rightarrow> int fsop" where
  "read_d_inumber base i = call (mem_read (d_inumber_addr base i) 4) (\<lambda>bs. ret (int_dec bs))"

definition write_d_inumber :: "nat \<Rightarrow> nat \<Rightarrow> int \<Rightarrow> unit fsop" where
  "write_d_inumber base i v = mem_write (d_inumber_addr base i) (int_enc v)"

definition write_d_name :: "nat \<Rightarrow> nat \<Rightarrow> char list \<Rightarrow> unit fsop" where
  "write_d_name base i bs = mem_write (d_name_addr base i) bs"

text \<open>The loops \<open>for (i = 0; i < n; i++) if (xs[i] == FREE) ...\<close>: the first free slot.\<close>

function scan_free :: "allocation_state list \<Rightarrow> nat \<Rightarrow> nat \<Rightarrow> nat option res" where
  "scan_free xs i n =
     (if i < n then
        if i < length xs then
          if xs ! i = FREE then Inr (Some i) else scan_free xs (Suc i) n
        else Inl OutOfBounds
      else Inr None)"
  by pat_completeness auto
termination
  by (relation "measure (\<lambda>(xs, i, n). n - i)") auto

declare scan_free.simps [simp del]

text \<open>\<open>i * sizeof(allocation_state_t) % BLOCK_SIZE\<close> in the first iteration of a scan.\<close>

definition storage_delay :: "nat \<Rightarrow> unit fsop" where
  "storage_delay n s = (if 0 < n \<and> BLOCK_SIZE s = 0 then Inl DivideByZero else Inr ((), s))"

section \<open>Initialisation\<close>

text \<open>
  What the heap gives: which of the eight \<open>malloc\<close> calls succeed, and the indeterminate
  contents of the memory they return.  \<open>malloc_len n sz\<close> is the number of elements of size
  \<open>sz\<close> in the result of \<open>malloc(n * sz)\<close>, whose argument wraps around.
\<close>

datatype malloc_site =
    A_inode_table | A_lock_inode | A_freeinode_ts | A_fs_data | A_free_blocks
  | A_open_file_table | A_lock_file | A_free_open_file_entries

record heap =
  granted :: "malloc_site \<Rightarrow> bool"
  raw_inode :: "nat \<Rightarrow> inode"
  raw_byte :: memory
  raw_open_file :: "nat \<Rightarrow> open_file_entry"

definition malloc_len :: "nat \<Rightarrow> nat \<Rightarrow> nat" where
  "malloc_len n sz = size_mul n sz div sz"

definition malloc_array :: "bool \<Rightarrow> nat \<Rightarrow> nat \<Rightarrow> (nat \<Rightarrow> 'a) \<Rightarrow> 'a list" where
  "malloc_array ok n sz g = (if ok then map g [0 ..< malloc_len n sz] else [])"

definition mallocs :: "heap \<Rightarrow> tfs_state \<Rightarrow> tfs_state" where
  "mallocs h s = s\<lparr>
     inode_table_set := granted h A_inode_table,
     inode_table := malloc_array (granted h A_inode_table) (INODE_TABLE_SIZE s) 24 (raw_inode h),
     lock_inode_len :=
       (if granted h A_lock_inode then malloc_len (INODE_TABLE_SIZE s) 56 else 0),
     freeinode_ts := malloc_array (granted h A_freeinode_ts) (INODE_TABLE_SIZE s) 4 (\<lambda>_. TAKEN),
     fs_data := raw_byte h,
     fs_data_size :=
       (if granted h A_fs_data then size_mul (DATA_BLOCKS s) (BLOCK_SIZE s) else 0),
     free_blocks := malloc_array (granted h A_free_blocks) (DATA_BLOCKS s) 4 (\<lambda>_. TAKEN),
     open_file_table :=
       malloc_array (granted h A_open_file_table) (MAX_OPEN_FILES s) 16 (raw_open_file h),
     lock_file_len := (if granted h A_lock_file then malloc_len (MAX_OPEN_FILES s) 56 else 0),
     free_open_file_entries :=
       malloc_array (granted h A_free_open_file_entries) (MAX_OPEN_FILES s) 4 (\<lambda>_. TAKEN)\<rparr>"

text \<open>
  The allocation flags the loops overwrite are \<open>TAKEN\<close> above, a value nothing reads.  The two
  lock arrays are not among the pointers that are checked.
\<close>

definition state_init :: "heap \<Rightarrow> tfs_params \<Rightarrow> int fsop" where
  "state_init h params =
     block [modify (\<lambda>s. s\<lparr>fs_params := params\<rparr>)] (
     call (gets inode_table_set) (\<lambda>initialized.
     if initialized then ret (- 1)
     else
       block [modify (mallocs h)] (
       if \<not> granted h A_inode_table \<or> \<not> granted h A_freeinode_ts \<or> \<not> granted h A_fs_data \<or>
          \<not> granted h A_free_blocks \<or> \<not> granted h A_open_file_table \<or>
          \<not> granted h A_free_open_file_entries
       then ret (- 1)
       else
         block (map (\<lambda>i. set_freeinode (int i) FREE) [0 ..< max_inode_count params]) (
         block (map (\<lambda>i. set_free_block (int i) FREE) [0 ..< max_block_count params]) (
         block (map (\<lambda>i. set_free_file (int i) FREE) [0 ..< max_open_files_count params]) (
         block (map (\<lambda>i. rwlock_init (L_inode (int i))) [0 ..< max_inode_count params]) (
         block (map (\<lambda>i. rwlock_init (L_file (int i))) [0 ..< max_open_files_count params]) (
         ret 0))))))))"

definition state_destroy :: "int fsop" where
  "state_destroy =
     call (gets fs_params) (\<lambda>params.
     block (map (\<lambda>i. rwlock_destroy (L_inode (int i))) [0 ..< max_inode_count params]) (
     block (map (\<lambda>i. rwlock_destroy (L_file (int i))) [0 ..< max_open_files_count params]) (
     block
       [rwlock_destroy L_inode_table,
        rwlock_destroy L_dir_table,
        rwlock_destroy L_data_table,
        rwlock_destroy L_file_table,
        modify (\<lambda>s. s\<lparr>lock_file_len := 0, inode_table_set := False, inode_table := [],
          lock_inode_len := 0, freeinode_ts := [], fs_data_size := 0, free_blocks := [],
          open_file_table := [], free_open_file_entries := []\<rparr>)]
       (ret 0))))"

section \<open>Data blocks\<close>

definition data_block_alloc :: "int fsop" where
  "data_block_alloc =
     block [my_w_lock L_data_table] (
     call (gets DATA_BLOCKS) (\<lambda>n.
     block [storage_delay n] (
     call (gets free_blocks) (\<lambda>xs. call (lift (scan_free xs 0 n)) (\<lambda>r.
     case r of
       Some i \<Rightarrow> block [set_free_block (int i) TAKEN, my_unlock L_data_table] (ret (to_int i))
     | None \<Rightarrow> block [my_unlock L_data_table] (ret (- 1)))))))"

definition data_block_free :: "int \<Rightarrow> unit fsop" where
  "data_block_free block_number =
     block [my_w_lock L_data_table] (
     call (gets (\<lambda>s. valid_block_number s block_number)) (\<lambda>valid.
     block
       [always_assert valid ''data_block_free: invalid block number'',
        set_free_block block_number FREE,
        my_unlock L_data_table]
       (ret ())))"

definition data_block_get :: "int \<Rightarrow> nat fsop" where
  "data_block_get block_number =
     block [my_r_lock L_data_table] (
     call (gets (\<lambda>s. valid_block_number s block_number)) (\<lambda>valid.
     block
       [always_assert valid ''data_block_get: invalid block number'',
        my_unlock L_data_table]
       (gets (\<lambda>s. size_mul (nat block_number) (BLOCK_SIZE s)))))"

section \<open>Inodes\<close>

definition inode_alloc :: "int fsop" where
  "inode_alloc =
     block [my_w_lock L_inode_table] (
     call (gets INODE_TABLE_SIZE) (\<lambda>n.
     block [storage_delay n] (
     call (gets freeinode_ts) (\<lambda>xs. call (lift (scan_free xs 0 n)) (\<lambda>r.
     case r of
       Some i \<Rightarrow> block [set_freeinode (int i) TAKEN, my_unlock L_inode_table] (ret (to_int i))
     | None \<Rightarrow> block [my_unlock L_inode_table] (ret (- 1)))))))"

definition inode_delete :: "int \<Rightarrow> unit fsop" where
  "inode_delete inumber =
     block [my_w_lock L_inode_table] (
     call (gets (\<lambda>s. valid_inumber s inumber)) (\<lambda>valid.
     block [always_assert valid ''inode_delete: invalid inumber''] (
     call (gets freeinode_ts) (\<lambda>ts. call (lift (array_get ts inumber)) (\<lambda>st.
     block [always_assert (st = TAKEN) ''inode_delete: inode already freed''] (
     call (read_inode inumber) (\<lambda>nd.
     block
       [if 0 < i_size nd then data_block_free (i_data_block nd) else ret (),
        set_freeinode inumber FREE,
        my_unlock L_inode_table]
       (ret ()))))))))"

definition inode_create :: "inode_type \<Rightarrow> int fsop" where
  "inode_create i_type =
     call inode_alloc (\<lambda>inumber.
     if inumber = - 1 then ret (- 1)
     else
       block [upd_inode inumber (\<lambda>nd. nd\<lparr>i_node_type := i_type\<rparr>)] (
       case i_type of
         T_DIRECTORY \<Rightarrow>
           call data_block_alloc (\<lambda>b.
           if b = - 1 then
             block
               [upd_inode inumber (\<lambda>nd. nd\<lparr>i_size := 0, i_data_block := - 1\<rparr>),
                inode_delete inumber]
               (ret (- 1))
           else
             call (gets BLOCK_SIZE) (\<lambda>bs.
             block [upd_inode inumber (\<lambda>nd. nd\<lparr>i_size := bs, i_data_block := b\<rparr>)] (
             call (data_block_get b) (\<lambda>dir_entry.
             call (gets MAX_DIR_ENTRIES) (\<lambda>n.
             block (map (\<lambda>i. write_d_inumber dir_entry i (- 1)) [0 ..< n]) (
             ret inumber))))))
       | T_FILE \<Rightarrow>
           block [upd_inode inumber (\<lambda>nd. nd\<lparr>i_size := 0, i_data_block := - 1, i_count := 1\<rparr>)]
             (ret inumber)
       | T_SOFT_LINK \<Rightarrow>
           call data_block_alloc (\<lambda>b.
           if b = - 1 then
             block
               [upd_inode inumber (\<lambda>nd. nd\<lparr>i_size := 0, i_data_block := - 1\<rparr>),
                inode_delete inumber]
               (ret (- 1))
           else
             block
               [upd_inode inumber
                 (\<lambda>nd. nd\<lparr>i_count := 1, i_size := MAX_FILE_NAME, i_data_block := b\<rparr>)]
               (ret inumber))))"

text \<open>The result is the index of the inode, standing for its address.\<close>

definition inode_get :: "int \<Rightarrow> int fsop" where
  "inode_get inumber =
     call (gets (\<lambda>s. valid_inumber s inumber)) (\<lambda>valid.
     block
       [always_assert valid ''inode_get: invalid inumber'',
        my_r_lock L_inode_table,
        my_unlock L_inode_table]
       (ret inumber))"

section \<open>Directory entries\<close>

text \<open>
  \<open>clear_dir_entry\<close> compares names only: an entry counts as a match whatever its
  \<open>d_inumber\<close> is.
\<close>

function clear_loop :: "nat \<Rightarrow> char list \<Rightarrow> nat \<Rightarrow> nat \<Rightarrow> int fsop" where
  "clear_loop dir_entry sub_name i n =
     (if i < n then
        call (gets (mem_from (d_name_addr dir_entry i))) (\<lambda>d_name.
        call (lift (c_streq d_name sub_name)) (\<lambda>eq.
        if eq then
          block
            [write_d_inumber dir_entry i (- 1),
             write_d_name dir_entry i (replicate MAX_FILE_NAME NUL)]
            (ret 0)
        else clear_loop dir_entry sub_name (Suc i) n))
      else ret (- 1))"
  by pat_completeness auto
termination
  by (relation "measure (\<lambda>(a, nm, i, n). n - i)") auto

declare clear_loop.simps [simp del]

definition clear_dir_entry :: "int \<Rightarrow> char list \<Rightarrow> int fsop" where
  "clear_dir_entry inode sub_name =
     block [my_w_lock L_dir_table] (
     call (read_inode inode) (\<lambda>nd.
     if i_node_type nd \<noteq> T_DIRECTORY then block [my_unlock L_dir_table] (ret (- 1))
     else
       call (data_block_get (i_data_block nd)) (\<lambda>dir_entry.
       call (gets MAX_DIR_ENTRIES) (\<lambda>n.
       call (clear_loop dir_entry sub_name 0 n) (\<lambda>r.
       block [my_unlock L_dir_table] (ret r))))))"

function add_loop :: "nat \<Rightarrow> char list \<Rightarrow> int \<Rightarrow> nat \<Rightarrow> nat \<Rightarrow> int fsop" where
  "add_loop dir_entry sub_name sub_inumber i n =
     (if i < n then
        call (read_d_inumber dir_entry i) (\<lambda>d.
        if d = - 1 then
          call (lift (c_strncpy (MAX_FILE_NAME - 1) sub_name)) (\<lambda>nm.
          block
            [write_d_inumber dir_entry i sub_inumber,
             write_d_name dir_entry i nm,
             mem_write (d_name_addr dir_entry i + (MAX_FILE_NAME - 1)) [NUL]]
            (ret 0))
        else add_loop dir_entry sub_name sub_inumber (Suc i) n)
      else ret (- 1))"
  by pat_completeness auto
termination
  by (relation "measure (\<lambda>(a, nm, d, i, n). n - i)") auto

declare add_loop.simps [simp del]

definition add_dir_entry :: "int \<Rightarrow> char list \<Rightarrow> int \<Rightarrow> int fsop" where
  "add_dir_entry inode sub_name sub_inumber =
     block [my_w_lock L_dir_table] (
     call (lift (c_strlen sub_name)) (\<lambda>len.
     if len = 0 \<or> MAX_FILE_NAME - 1 < len then block [my_unlock L_dir_table] (ret (- 1))
     else
       call (read_inode inode) (\<lambda>nd.
       if i_node_type nd \<noteq> T_DIRECTORY then block [my_unlock L_dir_table] (ret (- 1))
       else
         call (data_block_get (i_data_block nd)) (\<lambda>dir_entry.
         call (gets MAX_DIR_ENTRIES) (\<lambda>n.
         call (add_loop dir_entry sub_name sub_inumber 0 n) (\<lambda>r.
         block [my_unlock L_dir_table] (ret r)))))))"

function find_loop :: "nat \<Rightarrow> char list \<Rightarrow> nat \<Rightarrow> nat \<Rightarrow> int fsop" where
  "find_loop dir_entry sub_name i n =
     (if i < n then
        call (read_d_inumber dir_entry i) (\<lambda>d.
        if d = - 1 then find_loop dir_entry sub_name (Suc i) n
        else
          call (gets (mem_from (d_name_addr dir_entry i))) (\<lambda>d_name.
          call (lift (c_strneq MAX_FILE_NAME d_name sub_name)) (\<lambda>eq.
          if eq then ret d else find_loop dir_entry sub_name (Suc i) n)))
      else ret (- 1))"
  by pat_completeness auto
termination
  by (relation "measure (\<lambda>(a, nm, i, n). n - i)") auto

declare find_loop.simps [simp del]

definition find_in_dir :: "int \<Rightarrow> char list \<Rightarrow> int fsop" where
  "find_in_dir inode sub_name =
     block [my_r_lock L_dir_table] (
     call (read_inode inode) (\<lambda>nd.
     if i_node_type nd \<noteq> T_DIRECTORY then block [my_unlock L_dir_table] (ret (- 1))
     else
       call (data_block_get (i_data_block nd)) (\<lambda>dir_entry.
       call (gets MAX_DIR_ENTRIES) (\<lambda>n.
       call (find_loop dir_entry sub_name 0 n) (\<lambda>sub_inumber.
       block [my_unlock L_dir_table] (ret sub_inumber))))))"

section \<open>The open file table\<close>

definition add_to_open_file_table :: "int \<Rightarrow> nat \<Rightarrow> int fsop" where
  "add_to_open_file_table inumber offset =
     block [my_w_lock L_file_table] (
     call (gets MAX_OPEN_FILES) (\<lambda>n.
     call (gets free_open_file_entries) (\<lambda>xs. call (lift (scan_free xs 0 n)) (\<lambda>r.
     case r of
       Some i \<Rightarrow>
         block
           [set_free_file (int i) TAKEN,
            upd_file (int i) (\<lambda>fe. fe\<lparr>of_inumber := inumber\<rparr>),
            upd_file (int i) (\<lambda>fe. fe\<lparr>of_offset := offset\<rparr>),
            my_unlock L_file_table]
           (ret (int i))
     | None \<Rightarrow> block [my_unlock L_file_table] (ret (- 1))))))"

definition remove_from_open_file_table :: "int \<Rightarrow> unit fsop" where
  "remove_from_open_file_table fhandle =
     block [my_w_lock L_file_table] (
     call (gets (\<lambda>s. valid_file_handle s fhandle)) (\<lambda>valid.
     block
       [always_assert valid ''remove_from_open_file_table: file handle must be valid''] (
     call (gets free_open_file_entries) (\<lambda>xs. call (lift (array_get xs fhandle)) (\<lambda>st.
     block
       [always_assert (st = TAKEN) ''remove_from_open_file_table: file handle must be taken'',
        set_free_file fhandle FREE,
        my_unlock L_file_table]
       (ret ()))))))"

text \<open>\<open>None\<close> is the NULL result; otherwise the index of the entry, standing for its address.\<close>

definition get_open_file_entry :: "int \<Rightarrow> int option fsop" where
  "get_open_file_entry fhandle =
     block [my_r_lock L_file_table] (
     call (gets (\<lambda>s. valid_file_handle s fhandle)) (\<lambda>valid.
     if \<not> valid then block [my_unlock L_file_table] (ret None)
     else
       call (gets free_open_file_entries) (\<lambda>xs. call (lift (array_get xs fhandle)) (\<lambda>st.
       if st \<noteq> TAKEN then block [my_unlock L_file_table] (ret None)
       else block [my_unlock L_file_table] (ret (Some fhandle))))))"

section \<open>Symbolic links\<close>

text \<open>
  \<open>get_path_recursive\<close> follows a chain of symbolic links, which the file system does not keep
  from being circular: \<open>None\<close> is a recursion that never returns.
\<close>

partial_function (option) get_path_loop ::
    "int \<Rightarrow> tfs_state \<Rightarrow> (fault + int \<times> tfs_state) option" where
  "get_path_loop inumber s =
     (if inumber = - 1 then Some (ret (- 1) s)
      else
        case call (inode_get inumber) read_inode s of
          Inl e \<Rightarrow> Some (Inl e)
        | Inr (nd, s1) \<Rightarrow>
            if i_node_type nd \<noteq> T_SOFT_LINK then Some (ret inumber s1)
            else
              case call (data_block_get (i_data_block nd)) (\<lambda>a.
                   call (inode_get ROOT_DIR_INUM) (\<lambda>root.
                   call (gets (mem_from (Suc a))) (find_in_dir root))) s1 of
                Inl e \<Rightarrow> Some (Inl e)
              | Inr (inum, s2) \<Rightarrow> get_path_loop inum s2)"

declare get_path_loop.simps [code]

definition get_path_recursive :: "int \<Rightarrow> int fsop" where
  "get_path_recursive inumber s =
     (case get_path_loop inumber s of None \<Rightarrow> Inl Diverges | Some r \<Rightarrow> r)"

end
