(* ===== verification/FS_Operations.thy ===== *)
theory FS_Operations
  imports FS_State "HOL-Library.Word"
begin

unbundle bit_operations_syntax

text \<open>
  \<open>fs/operations.h\<close> and \<open>fs/operations.c\<close>: the API of the file system, each function with
  the locks it takes, in the order of the source.  A \<open>char const *\<close> argument is a \<open>cstr\<close>
  (\<open>None\<close> is NULL), and \<open>p + 1\<close> is the tail of the bytes it points to.
\<close>

section \<open>Parameters and modes\<close>

definition tfs_default_params :: tfs_params where
  "tfs_default_params =
     \<lparr>max_inode_count = 64, max_block_count = 1024, max_open_files_count = 16,
      block_size = 1024\<rparr>"

type_synonym tfs_file_mode = "32 word"

definition TFS_O_CREAT :: tfs_file_mode where "TFS_O_CREAT = 1"
definition TFS_O_TRUNC :: tfs_file_mode where "TFS_O_TRUNC = 2"
definition TFS_O_APPEND :: tfs_file_mode where "TFS_O_APPEND = 4"

definition has_mode :: "tfs_file_mode \<Rightarrow> tfs_file_mode \<Rightarrow> bool" where
  "has_mode mode flag \<longleftrightarrow> mode AND flag \<noteq> 0"

text \<open>The conversion of a \<open>size_t\<close> to \<open>ssize_t\<close>.\<close>

definition to_ssize :: "nat \<Rightarrow> int" where
  "to_ssize n =
     (int n + 9223372036854775808) mod 18446744073709551616 - 9223372036854775808"

lemma to_ssize_small [simp]: "n < 9223372036854775808 \<Longrightarrow> to_ssize n = int n"
  by (simp add: to_ssize_def)

section \<open>Start and stop\<close>

definition tfs_init :: "heap \<Rightarrow> tfs_params option \<Rightarrow> int fsop" where
  "tfs_init h params_ptr =
     call (state_init h (case params_ptr of Some p \<Rightarrow> p | None \<Rightarrow> tfs_default_params)) (\<lambda>r.
     if r \<noteq> 0 then ret (- 1)
     else
       call (inode_create T_DIRECTORY) (\<lambda>root.
       if root \<noteq> ROOT_DIR_INUM then ret (- 1) else ret 0))"

definition tfs_destroy :: "int fsop" where
  "tfs_destroy = call state_destroy (\<lambda>r. if r \<noteq> 0 then ret (- 1) else ret 0)"

section \<open>Path names\<close>

definition valid_pathname :: "cstr \<Rightarrow> bool res" where
  "valid_pathname name =
     (case name of
        None \<Rightarrow> Inr False
      | Some _ \<Rightarrow>
          (case c_strlen (cmem name) of
             Inl e \<Rightarrow> Inl e
           | Inr n \<Rightarrow> Inr (1 < n \<and> hd (cmem name) = CHR ''/'')))"

definition tfs_lookup :: "cstr \<Rightarrow> int \<Rightarrow> int fsop" where
  "tfs_lookup name root_inode =
     call (lift (valid_pathname name)) (\<lambda>valid.
     if \<not> valid then ret (- 1) else find_in_dir root_inode (tl (cmem name)))"

section \<open>Opening and closing\<close>

text \<open>The end of \<open>tfs_open\<close> for a file that exists, with the lock of \<open>inum\<close> held.\<close>

definition open_existing :: "int \<Rightarrow> tfs_file_mode \<Rightarrow> int fsop" where
  "open_existing inum mode =
     call (read_inode inum) (\<lambda>nd.
     block
       [if has_mode mode TFS_O_TRUNC \<and> 0 < i_size nd
        then block [data_block_free (i_data_block nd),
                    upd_inode inum (\<lambda>nd. nd\<lparr>i_size := 0\<rparr>)] (ret ())
        else ret ()] (
     call (read_inode inum) (\<lambda>nd'.
     block [my_unlock (L_inode inum)]
       (add_to_open_file_table inum (if has_mode mode TFS_O_APPEND then i_size nd' else 0)))))"

definition tfs_open :: "cstr \<Rightarrow> tfs_file_mode \<Rightarrow> int fsop" where
  "tfs_open name mode =
     call (lift (valid_pathname name)) (\<lambda>valid.
     if \<not> valid then ret (- 1)
     else
       call (inode_get ROOT_DIR_INUM) (\<lambda>root_dir_inode.
       call (tfs_lookup name root_dir_inode) (\<lambda>inum.
       if 0 \<le> inum then
         block [my_w_lock (L_inode inum)] (
         call (inode_get inum) (\<lambda>inode.
         call (read_inode inode) (\<lambda>nd.
         if i_node_type nd = T_SOFT_LINK then
           call (get_path_recursive inum) (\<lambda>inum'.
           block [my_unlock (L_inode inum)] (
           if inum' = - 1 then ret (- 1)
           else
             block [my_r_lock (L_inode inum')] (
             call (inode_get inum') (\<lambda>inode'.
             open_existing inode' mode))))
         else open_existing inode mode)))
       else if has_mode mode TFS_O_CREAT then
         call (inode_create T_FILE) (\<lambda>inum.
         if inum = - 1 then ret (- 1)
         else
           call (add_dir_entry root_dir_inode (tl (cmem name)) inum) (\<lambda>r.
           if r = - 1 then block [inode_delete inum] (ret (- 1))
           else add_to_open_file_table inum 0))
       else ret (- 1))))"

definition tfs_close :: "int \<Rightarrow> int fsop" where
  "tfs_close fhandle =
     call (get_open_file_entry fhandle) (\<lambda>file.
     case file of
       None \<Rightarrow> ret (- 1)
     | Some _ \<Rightarrow>
         block
           [my_w_lock (L_file fhandle),
            remove_from_open_file_table fhandle,
            my_unlock (L_file fhandle)]
           (ret 0))"

section \<open>Links\<close>

definition tfs_sym_link :: "cstr \<Rightarrow> cstr \<Rightarrow> int fsop" where
  "tfs_sym_link target link_name =
     call (inode_get ROOT_DIR_INUM) (\<lambda>root_dir_inode.
     call (tfs_lookup target root_dir_inode) (\<lambda>inumber_target.
     if inumber_target = - 1 then ret (- 1)
     else
       block [my_r_lock (L_inode inumber_target)] (
       call (inode_create T_SOFT_LINK) (\<lambda>inumber.
       if inumber = - 1 then block [my_unlock (L_inode inumber_target)] (ret (- 1))
       else
         block [my_w_lock (L_inode inumber)] (
         call (inode_get inumber) (\<lambda>inode.
         call (read_inode inode) (\<lambda>nd.
         call (data_block_get (i_data_block nd)) (\<lambda>blk.
         call (lift (c_strcpy (cmem target))) (\<lambda>bs.
         block [mem_write blk bs] (
         call (add_dir_entry root_dir_inode (tl (cmem link_name)) inumber) (\<lambda>_.
         block [my_unlock (L_inode inumber_target), my_unlock (L_inode inumber)]
           (ret 0)))))))))))) "

definition tfs_link :: "cstr \<Rightarrow> cstr \<Rightarrow> int fsop" where
  "tfs_link target link_name =
     call (inode_get ROOT_DIR_INUM) (\<lambda>root_dir_inode.
     call (tfs_lookup target root_dir_inode) (\<lambda>inumber.
     if inumber = - 1 then ret (- 1)
     else
       block [my_w_lock (L_inode inumber)] (
       call (inode_get inumber) (\<lambda>inode.
       call (read_inode inode) (\<lambda>nd.
       if i_node_type nd = T_SOFT_LINK then block [my_unlock (L_inode inumber)] (ret (- 1))
       else
         call (lift (int_succ (i_count nd))) (\<lambda>c.
         block [upd_inode inode (\<lambda>nd. nd\<lparr>i_count := c\<rparr>)] (
         call (add_dir_entry root_dir_inode (tl (cmem link_name)) inumber) (\<lambda>_.
         block [my_unlock (L_inode inumber)] (ret 0)))))))))"

definition tfs_unlink :: "cstr \<Rightarrow> int fsop" where
  "tfs_unlink target =
     call (inode_get ROOT_DIR_INUM) (\<lambda>root.
     call (tfs_lookup target root) (\<lambda>inumber.
     if inumber = - 1 then ret (- 1)
     else
       block [my_w_lock (L_inode inumber)] (
       call (inode_get inumber) (\<lambda>inode.
       call (clear_dir_entry root (tl (cmem target))) (\<lambda>_.
       call (read_inode inode) (\<lambda>nd.
       block
         [if 1 < i_count nd then upd_inode inode (\<lambda>nd. nd\<lparr>i_count := i_count nd - 1\<rparr>)
          else inode_delete inumber,
          my_unlock (L_inode inumber)]
         (ret 0))))))) "

section \<open>Writing and reading\<close>

text \<open>
  \<open>buffer\<close> is the memory of the caller's buffer.  \<open>tfs_read\<close> returns, with its result, the
  bytes it copied to the caller's buffer.
\<close>

definition tfs_write :: "int \<Rightarrow> char list \<Rightarrow> nat \<Rightarrow> int fsop" where
  "tfs_write fhandle buffer len =
     call (get_open_file_entry fhandle) (\<lambda>file.
     case file of
       None \<Rightarrow> ret (- 1)
     | Some f \<Rightarrow>
         call (read_file f) (\<lambda>fe.
         block [my_w_lock (L_inode (of_inumber fe)), my_w_lock (L_file fhandle)] (
         call (inode_get (of_inumber fe)) (\<lambda>inode.
         call state_block_size (\<lambda>bs.
         let to_write = (if bs < size_add len (of_offset fe)
                         then size_sub bs (of_offset fe) else len) in
         if 0 < to_write then
           call (read_inode inode) (\<lambda>nd.
           call (if i_size nd = 0 then data_block_alloc else ret (i_data_block nd)) (\<lambda>bnum.
           if i_size nd = 0 \<and> bnum = - 1 then
             block [my_unlock (L_inode (of_inumber fe)), my_unlock (L_file fhandle)] (ret (- 1))
           else
             block [upd_inode inode (\<lambda>nd. nd\<lparr>i_data_block := bnum\<rparr>)] (
             call (data_block_get bnum) (\<lambda>blk.
             block
               [if length buffer < to_write then fail OutOfBounds else ret (),
                mem_write (blk + of_offset fe) (take to_write buffer),
                upd_file f (\<lambda>fe. fe\<lparr>of_offset := size_add (of_offset fe) to_write\<rparr>)] (
             call (read_file f) (\<lambda>fe'.
             block
               [if i_size nd < of_offset fe'
                then upd_inode inode (\<lambda>nd. nd\<lparr>i_size := of_offset fe'\<rparr>) else ret (),
                my_unlock (L_inode (of_inumber fe)),
                my_unlock (L_file fhandle)]
               (ret (to_ssize to_write))))))))
         else
           block [my_unlock (L_inode (of_inumber fe)), my_unlock (L_file fhandle)]
             (ret (to_ssize to_write)))))))"

definition tfs_read :: "int \<Rightarrow> nat \<Rightarrow> (int \<times> char list) fsop" where
  "tfs_read fhandle len =
     call (get_open_file_entry fhandle) (\<lambda>file.
     case file of
       None \<Rightarrow> ret (- 1, [])
     | Some f \<Rightarrow>
         call (read_file f) (\<lambda>fe.
         block [my_r_lock (L_inode (of_inumber fe)), my_r_lock (L_file fhandle)] (
         call (inode_get (of_inumber fe)) (\<lambda>inode.
         call (read_inode inode) (\<lambda>nd.
         let to_read = (if len < size_sub (i_size nd) (of_offset fe) then len
                        else size_sub (i_size nd) (of_offset fe)) in
         if 0 < to_read then
           call (data_block_get (i_data_block nd)) (\<lambda>blk.
           call (mem_read (blk + of_offset fe) 1) (\<lambda>c.
           block
             [if c = [NUL]
              then upd_file f (\<lambda>fe. fe\<lparr>of_offset := size_add (of_offset fe) 1\<rparr>) else ret ()] (
           call (read_file f) (\<lambda>fe'.
           call (gets (mem_from (blk + of_offset fe'))) (\<lambda>p.
           call (lift (c_memchr0 to_read p)) (\<lambda>z.
           let n = (case z of Some k \<Rightarrow> k | None \<Rightarrow> to_read) in
           call (mem_read (blk + of_offset fe') n) (\<lambda>bytes.
           block
             [upd_file f (\<lambda>fe. fe\<lparr>of_offset := size_add (of_offset fe) n\<rparr>),
              my_unlock (L_inode (of_inumber fe)),
              my_unlock (L_file fhandle)]
             (ret (to_ssize n, bytes)))))))))
         else
           block [my_unlock (L_inode (of_inumber fe)), my_unlock (L_file fhandle)]
             (ret (to_ssize to_read, [])))))))"

section \<open>Copying a file of the host\<close>

text \<open>
  \<open>source\<close> is the contents of the host's file, \<open>None\<close> when \<open>fopen\<close> fails; \<open>fread\<close> returns
  1024 bytes while it can, then what is left.  The second component of the result tells whether
  the stream is still open when the function returns.
\<close>

function copy_loop :: "int \<Rightarrow> char list \<Rightarrow> (int \<times> bool) fsop" where
  "copy_loop outd source =
     (if source = [] then call (tfs_close outd) (\<lambda>_. ret (0, False))
      else
        call (tfs_write outd (take 1024 source) (length (take 1024 source))) (\<lambda>bytes_written.
        if bytes_written \<noteq> int (length (take 1024 source)) then ret (- 1, True)
        else copy_loop outd (drop 1024 source)))"
  by pat_completeness auto
termination
  by (relation "measure (\<lambda>(d, xs). length xs)") auto

declare copy_loop.simps [simp del]

definition tfs_copy_from_external_fs :: "char list option \<Rightarrow> cstr \<Rightarrow> (int \<times> bool) fsop" where
  "tfs_copy_from_external_fs source dest_path =
     (case source of
        None \<Rightarrow> ret (- 1, False)
      | Some contents \<Rightarrow>
          call (tfs_open dest_path (TFS_O_CREAT OR TFS_O_TRUNC)) (\<lambda>outd.
          if outd = - 1 then ret (- 1, True) else copy_loop outd contents))"

end
