(* ===== verification/FS_Tables.thy ===== *)
theory FS_Tables
  imports FS_State
begin

text \<open>
  The shape of an initialised file system, the execution of the lock wrappers on free locks,
  and the contract shared by the three tables with free lists (data blocks, inodes, open
  files): the locale \<open>slot_table\<close>, interpreted on the operations of \<open>state.c\<close>.
\<close>

section \<open>Well-formed states\<close>

text \<open>
  Parameters under which no size computation wraps around: what every caller of \<open>tfs_init\<close>
  in the repository uses.
\<close>

definition wf_params :: "tfs_params \<Rightarrow> bool" where
  "wf_params p \<longleftrightarrow>
     0 < block_size p \<and> block_size p < 9223372036854775807 \<and>
     max_inode_count p < 2147483648 \<and> max_block_count p < 2147483648 \<and>
     max_open_files_count p < 2147483648 \<and>
     max_block_count p * block_size p < size_mod"

text \<open>Every array of \<open>state.c\<close> is allocated and has the size its index checks assume.\<close>

definition tfs_wf :: "tfs_state \<Rightarrow> bool" where
  "tfs_wf s \<longleftrightarrow>
     wf_params (fs_params s) \<and> inode_table_set s \<and>
     length (inode_table s) = INODE_TABLE_SIZE s \<and>
     length (freeinode_ts s) = INODE_TABLE_SIZE s \<and>
     lock_inode_len s = INODE_TABLE_SIZE s \<and>
     fs_data_size s = DATA_BLOCKS s * BLOCK_SIZE s \<and>
     length (free_blocks s) = DATA_BLOCKS s \<and>
     length (open_file_table s) = MAX_OPEN_FILES s \<and>
     length (free_open_file_entries s) = MAX_OPEN_FILES s \<and>
     lock_file_len s = MAX_OPEN_FILES s"

definition all_unlocked :: "tfs_state \<Rightarrow> bool" where
  "all_unlocked s \<longleftrightarrow> (\<forall>l. lock_exists s l \<longrightarrow> locks s l = Unlocked)"

lemma wf_lengths [wf_simps]:
  assumes "tfs_wf s"
  shows "length (inode_table s) = INODE_TABLE_SIZE s"
    and "length (freeinode_ts s) = INODE_TABLE_SIZE s"
    and "lock_inode_len s = INODE_TABLE_SIZE s"
    and "fs_data_size s = DATA_BLOCKS s * BLOCK_SIZE s"
    and "length (free_blocks s) = DATA_BLOCKS s"
    and "length (open_file_table s) = MAX_OPEN_FILES s"
    and "length (free_open_file_entries s) = MAX_OPEN_FILES s"
    and "lock_file_len s = MAX_OPEN_FILES s"
  using assms by (simp_all add: tfs_wf_def)

lemma wf_bounds [wf_simps]:
  assumes "tfs_wf s"
  shows "0 < BLOCK_SIZE s" and "INODE_TABLE_SIZE s < 2147483648"
    and "DATA_BLOCKS s < 2147483648" and "MAX_OPEN_FILES s < 2147483648"
    and "DATA_BLOCKS s * BLOCK_SIZE s < size_mod"
    and "BLOCK_SIZE s < 9223372036854775807"
  using assms by (simp_all add: tfs_wf_def wf_params_def)

text \<open>A block lies inside \<open>fs_data\<close>, and its address does not wrap around.\<close>

lemma block_in_data:
  assumes "b < DATA_BLOCKS s"
  shows "b * BLOCK_SIZE s + BLOCK_SIZE s \<le> DATA_BLOCKS s * BLOCK_SIZE s"
proof -
  have "Suc b * BLOCK_SIZE s \<le> DATA_BLOCKS s * BLOCK_SIZE s"
    using assms by (intro mult_le_mono1) simp
  then show ?thesis by simp
qed

lemma block_addr:
  assumes "tfs_wf s" and "valid_block_number s b"
  shows "size_mul (nat b) (BLOCK_SIZE s) = nat b * BLOCK_SIZE s"
proof -
  have "nat b < DATA_BLOCKS s" using assms by (auto simp: valid_block_number_def)
  then have "nat b * BLOCK_SIZE s + BLOCK_SIZE s \<le> DATA_BLOCKS s * BLOCK_SIZE s"
    by (rule block_in_data)
  with wf_bounds(5) [OF assms(1)] show ?thesis by simp
qed

section \<open>Lock wrappers on free locks\<close>

lemma set_lock_fields [simp]:
  "fs_params (set_lock l v s) = fs_params s"
  "inode_table_set (set_lock l v s) = inode_table_set s"
  "inode_table (set_lock l v s) = inode_table s"
  "freeinode_ts (set_lock l v s) = freeinode_ts s"
  "lock_inode_len (set_lock l v s) = lock_inode_len s"
  "fs_data (set_lock l v s) = fs_data s"
  "fs_data_size (set_lock l v s) = fs_data_size s"
  "free_blocks (set_lock l v s) = free_blocks s"
  "lock_file_len (set_lock l v s) = lock_file_len s"
  "open_file_table (set_lock l v s) = open_file_table s"
  "free_open_file_entries (set_lock l v s) = free_open_file_entries s"
  "locks (set_lock l v s) = (locks s)(l := v)"
  by (simp_all add: set_lock_def)

lemma set_lock_same [simp]: "set_lock l v (set_lock l w s) = set_lock l v s"
  by (simp add: set_lock_def)

lemma set_lock_idem [simp]: "locks s l = v \<Longrightarrow> set_lock l v s = s"
  by (simp add: set_lock_def fun_upd_idem)

lemma set_lock_commute:
  "l \<noteq> k \<Longrightarrow> set_lock l v (set_lock k w s) = set_lock k w (set_lock l v s)"
  by (simp add: set_lock_def fun_upd_twist)

lemma wf_set_lock [simp]: "tfs_wf (set_lock l v s) = tfs_wf s"
  by (simp add: tfs_wf_def)

lemma lock_exists_set_lock [simp]: "lock_exists (set_lock l v s) k = lock_exists s k"
  by (cases k) simp_all

text \<open>Updates of the other fields, seen through the locks.\<close>

lemma set_lock_updates [simp]:
  "set_lock l v (s\<lparr>inode_table := x1\<rparr>) = (set_lock l v s)\<lparr>inode_table := x1\<rparr>"
  "set_lock l v (s\<lparr>freeinode_ts := x2\<rparr>) = (set_lock l v s)\<lparr>freeinode_ts := x2\<rparr>"
  "set_lock l v (s\<lparr>fs_data := x3\<rparr>) = (set_lock l v s)\<lparr>fs_data := x3\<rparr>"
  "set_lock l v (s\<lparr>free_blocks := x4\<rparr>) = (set_lock l v s)\<lparr>free_blocks := x4\<rparr>"
  "set_lock l v (s\<lparr>open_file_table := x5\<rparr>) = (set_lock l v s)\<lparr>open_file_table := x5\<rparr>"
  "set_lock l v (s\<lparr>free_open_file_entries := x6\<rparr>) =
     (set_lock l v s)\<lparr>free_open_file_entries := x6\<rparr>"
  by (simp_all add: set_lock_def)

lemma lock_exists_updates [simp]:
  "lock_exists (s\<lparr>inode_table := x1\<rparr>) k = lock_exists s k"
  "lock_exists (s\<lparr>freeinode_ts := x2\<rparr>) k = lock_exists s k"
  "lock_exists (s\<lparr>fs_data := x3\<rparr>) k = lock_exists s k"
  "lock_exists (s\<lparr>free_blocks := x4\<rparr>) k = lock_exists s k"
  "lock_exists (s\<lparr>open_file_table := x5\<rparr>) k = lock_exists s k"
  "lock_exists (s\<lparr>free_open_file_entries := x6\<rparr>) k = lock_exists s k"
  by (cases k; simp)+

lemma my_w_lock_free [lock_simps]:
  "lock_exists s l \<Longrightarrow> locks s l = Unlocked \<Longrightarrow> my_w_lock l s = Inr ((), set_lock l WriteLocked s)"
  by (simp add: my_w_lock_def)

lemma my_r_lock_free [lock_simps]:
  "lock_exists s l \<Longrightarrow> locks s l = Unlocked \<Longrightarrow>
   my_r_lock l s = Inr ((), set_lock l (ReadLocked 1) s)"
  by (simp add: my_r_lock_def)

lemma my_unlock_write [lock_simps]:
  "lock_exists s l \<Longrightarrow> locks s l = WriteLocked \<Longrightarrow> my_unlock l s = Inr ((), set_lock l Unlocked s)"
  by (simp add: my_unlock_def)

lemma my_unlock_read [lock_simps]:
  "lock_exists s l \<Longrightarrow> locks s l = ReadLocked (Suc 0) \<Longrightarrow>
   my_unlock l s = Inr ((), set_lock l Unlocked s)"
  by (simp add: my_unlock_def)

section \<open>Table accesses inside the arrays\<close>

lemma read_inode_exec [exec_simps]:
  "0 \<le> p \<Longrightarrow> p < int (length (inode_table s)) \<Longrightarrow> read_inode p s = Inr (inode_table s ! nat p, s)"
  by (simp add: read_inode_def exec_simps)

lemma upd_inode_exec [exec_simps]:
  "0 \<le> p \<Longrightarrow> p < int (length (inode_table s)) \<Longrightarrow>
   upd_inode p f s =
     Inr ((), s\<lparr>inode_table := (inode_table s)[nat p := f (inode_table s ! nat p)]\<rparr>)"
  by (simp add: upd_inode_def exec_simps)

lemma read_file_exec [exec_simps]:
  "0 \<le> p \<Longrightarrow> p < int (length (open_file_table s)) \<Longrightarrow>
   read_file p s = Inr (open_file_table s ! nat p, s)"
  by (simp add: read_file_def exec_simps)

lemma upd_file_exec [exec_simps]:
  "0 \<le> p \<Longrightarrow> p < int (length (open_file_table s)) \<Longrightarrow>
   upd_file p f s =
     Inr ((), s\<lparr>open_file_table := (open_file_table s)[nat p := f (open_file_table s ! nat p)]\<rparr>)"
  by (simp add: upd_file_def exec_simps)

lemma set_freeinode_exec [exec_simps]:
  "0 \<le> i \<Longrightarrow> i < int (length (freeinode_ts s)) \<Longrightarrow>
   set_freeinode i v s = Inr ((), s\<lparr>freeinode_ts := (freeinode_ts s)[nat i := v]\<rparr>)"
  by (simp add: set_freeinode_def exec_simps)

lemma set_free_block_exec [exec_simps]:
  "0 \<le> i \<Longrightarrow> i < int (length (free_blocks s)) \<Longrightarrow>
   set_free_block i v s = Inr ((), s\<lparr>free_blocks := (free_blocks s)[nat i := v]\<rparr>)"
  by (simp add: set_free_block_def exec_simps)

lemma set_free_file_exec [exec_simps]:
  "0 \<le> i \<Longrightarrow> i < int (length (free_open_file_entries s)) \<Longrightarrow>
   set_free_file i v s =
     Inr ((), s\<lparr>free_open_file_entries := (free_open_file_entries s)[nat i := v]\<rparr>)"
  by (simp add: set_free_file_def exec_simps)

lemma storage_delay_exec [exec_simps]: "0 < BLOCK_SIZE s \<Longrightarrow> storage_delay n s = Inr ((), s)"
  by (simp add: storage_delay_def)

lemma mem_write_exec [exec_simps]:
  "a + length bs \<le> fs_data_size s \<Longrightarrow>
   mem_write a bs s = Inr ((), s\<lparr>fs_data := store (fs_data s) a bs\<rparr>)"
  by (simp add: mem_write_def)

lemma mem_read_exec [exec_simps]:
  "a + n \<le> fs_data_size s \<Longrightarrow> mem_read a n s = Inr (slice (fs_data s) a n, s)"
  by (simp add: mem_read_def)

lemma state_block_size_exec [exec_simps]: "state_block_size s = Inr (BLOCK_SIZE s, s)"
  by (simp add: state_block_size_def exec_simps)

section \<open>The search for a free slot\<close>

definition first_free :: "allocation_state list \<Rightarrow> nat option" where
  "first_free xs = first_index (\<lambda>x. x = FREE) xs"

lemma scan_free_drop:
  "i \<le> length xs \<Longrightarrow> n = length xs \<Longrightarrow>
   scan_free xs i n = Inr (map_option (\<lambda>k. k + i) (first_free (drop i xs)))"
proof (induction xs i n rule: scan_free.induct)
  case (1 xs i n)
  show ?case
  proof (cases "i < n")
    case False
    with 1 show ?thesis by (simp add: scan_free.simps first_free_def)
  next
    case True
    then have d: "drop i xs = xs ! i # drop (Suc i) xs"
      using "1.prems" by (simp add: Cons_nth_drop_Suc)
    show ?thesis
    proof (cases "xs ! i = FREE")
      case True
      then show ?thesis
        using \<open>i < n\<close> "1.prems" d by (simp add: scan_free.simps first_free_def)
    next
      case False
      then have "scan_free xs i n = scan_free xs (Suc i) n"
        using \<open>i < n\<close> "1.prems" by (subst scan_free.simps) simp
      also have "\<dots> = Inr (map_option (\<lambda>k. k + Suc i) (first_free (drop (Suc i) xs)))"
        using "1.IH" \<open>i < n\<close> "1.prems" False by simp
      also have "\<dots> = Inr (map_option (\<lambda>k. k + i) (first_free (drop i xs)))"
        using d False by (simp add: first_free_def option.map_comp comp_def)
      finally show ?thesis .
    qed
  qed
qed

lemma scan_free_exec: "n = length xs \<Longrightarrow> scan_free xs 0 n = Inr (first_free xs)"
  by (simp add: scan_free_drop option.map_ident)

lemma first_free_Some: "first_free xs = Some i \<Longrightarrow> i < length xs \<and> xs ! i = FREE"
  unfolding first_free_def by (drule first_index_SomeD) simp

lemma first_free_None: "first_free xs = None \<longleftrightarrow> FREE \<notin> set xs"
  by (auto simp: first_free_def first_index_None)

section \<open>Data blocks\<close>

abbreviation data_ready :: "tfs_state \<Rightarrow> bool" where
  "data_ready s \<equiv> tfs_wf s \<and> locks s L_data_table = Unlocked"

lemma data_block_alloc_exec:
  assumes "data_ready s"
  shows "data_block_alloc s =
    (case first_free (free_blocks s) of
       None \<Rightarrow> Inr (- 1, s)
     | Some i \<Rightarrow> Inr (int i, s\<lparr>free_blocks := (free_blocks s)[i := TAKEN]\<rparr>))"
proof (cases "first_free (free_blocks s)")
  case None
  with assms show ?thesis
    by (simp add: data_block_alloc_def exec_simps lock_simps wf_simps scan_free_exec)
next
  case (Some i)
  then have "i < length (free_blocks s)" by (simp add: first_free_Some)
  then have "i < 2147483648" and "i < DATA_BLOCKS s"
    using assms by (simp_all add: tfs_wf_def wf_params_def)
  with assms Some show ?thesis
    by (simp add: data_block_alloc_def exec_simps lock_simps wf_simps scan_free_exec)
qed

lemma data_block_free_exec:
  assumes "data_ready s" and "valid_block_number s b"
  shows "data_block_free b s = Inr ((), s\<lparr>free_blocks := (free_blocks s)[nat b := FREE]\<rparr>)"
  using assms
  by (simp add: data_block_free_def exec_simps lock_simps wf_simps valid_block_number_def)

lemma data_block_free_invalid:
  "data_ready s \<Longrightarrow> \<not> valid_block_number s b \<Longrightarrow>
   data_block_free b s = Inl (Panic ''data_block_free: invalid block number'')"
  by (simp add: data_block_free_def exec_simps lock_simps valid_block_number_def)

lemma data_block_get_exec:
  assumes "data_ready s" and "valid_block_number s b"
  shows "data_block_get b s = Inr (nat b * BLOCK_SIZE s, s)"
  using assms block_addr [OF _ assms(2)]
  by (simp add: data_block_get_def exec_simps lock_simps valid_block_number_def)

section \<open>Inodes\<close>

lemma inode_get_exec:
  assumes "tfs_wf s" and "locks s L_inode_table = Unlocked" and "valid_inumber s i"
  shows "inode_get i s = Inr (i, s)"
  using assms by (simp add: inode_get_def exec_simps lock_simps)

lemma inode_alloc_exec:
  assumes "tfs_wf s" and "locks s L_inode_table = Unlocked"
  shows "inode_alloc s =
    (case first_free (freeinode_ts s) of
       None \<Rightarrow> Inr (- 1, s)
     | Some i \<Rightarrow> Inr (int i, s\<lparr>freeinode_ts := (freeinode_ts s)[i := TAKEN]\<rparr>))"
proof (cases "first_free (freeinode_ts s)")
  case None
  with assms show ?thesis
    by (simp add: inode_alloc_def exec_simps lock_simps wf_simps scan_free_exec)
next
  case (Some i)
  then have "i < length (freeinode_ts s)" by (simp add: first_free_Some)
  then have "i < 2147483648" and "i < INODE_TABLE_SIZE s"
    using assms by (simp_all add: tfs_wf_def wf_params_def)
  with assms Some show ?thesis
    by (simp add: inode_alloc_def exec_simps lock_simps wf_simps scan_free_exec)
qed

text \<open>The blocks \<open>inode_delete\<close> gives back: the one of the inode, if it has data.\<close>

definition freed_blocks :: "tfs_state \<Rightarrow> nat \<Rightarrow> allocation_state list" where
  "freed_blocks s i =
     (if 0 < i_size (inode_table s ! i)
      then (free_blocks s)[nat (i_data_block (inode_table s ! i)) := FREE] else free_blocks s)"

abbreviation inode_ready :: "tfs_state \<Rightarrow> bool" where
  "inode_ready s \<equiv> data_ready s \<and> locks s L_inode_table = Unlocked"

lemma inode_delete_exec:
  assumes "inode_ready s" and "i < INODE_TABLE_SIZE s" and "freeinode_ts s ! i = TAKEN"
    and "0 < i_size (inode_table s ! i) \<Longrightarrow> valid_block_number s (i_data_block (inode_table s ! i))"
  shows "inode_delete (int i) s =
    Inr ((), s\<lparr>freeinode_ts := (freeinode_ts s)[i := FREE], free_blocks := freed_blocks s i\<rparr>)"
proof -
  have db: "data_block_free b (set_lock L_inode_table WriteLocked s) =
      Inr ((), (set_lock L_inode_table WriteLocked s)\<lparr>free_blocks := (free_blocks s)[nat b := FREE]\<rparr>)"
    if "valid_block_number s b" for b
    using data_block_free_exec [of "set_lock L_inode_table WriteLocked s" b] assms(1) that
    by (simp add: valid_block_number_def)
  show ?thesis
    using assms
    by (cases "0 < i_size (inode_table s ! i)")
      (simp_all add: inode_delete_def exec_simps lock_simps wf_simps valid_inumber_def db
        freed_blocks_def)
qed

lemma inode_create_file_exec:
  assumes "tfs_wf s" and "locks s L_inode_table = Unlocked"
  shows "inode_create T_FILE s =
    (case first_free (freeinode_ts s) of
       None \<Rightarrow> Inr (- 1, s)
     | Some i \<Rightarrow> Inr (int i, s\<lparr>freeinode_ts := (freeinode_ts s)[i := TAKEN],
         inode_table := (inode_table s)[i := (inode_table s ! i)
           \<lparr>i_node_type := T_FILE, i_size := 0, i_data_block := - 1, i_count := 1\<rparr>]\<rparr>))"
proof (cases "first_free (freeinode_ts s)")
  case None
  with assms show ?thesis by (simp add: inode_create_def inode_alloc_exec exec_simps)
next
  case (Some i)
  then have "i < length (freeinode_ts s)" by (simp add: first_free_Some)
  with assms have "i < length (inode_table s)" by (simp add: wf_simps)
  with assms Some show ?thesis
    by (simp add: inode_create_def inode_alloc_exec exec_simps)
qed

lemma inode_create_soft_link_exec:
  assumes "inode_ready s"
  shows "inode_create T_SOFT_LINK s =
    (case first_free (freeinode_ts s) of
       None \<Rightarrow> Inr (- 1, s)
     | Some i \<Rightarrow>
        (case first_free (free_blocks s) of
           None \<Rightarrow> Inr (- 1, s\<lparr>freeinode_ts := (freeinode_ts s)[i := FREE],
             inode_table := (inode_table s)[i := (inode_table s ! i)
               \<lparr>i_node_type := T_SOFT_LINK, i_size := 0, i_data_block := - 1\<rparr>]\<rparr>)
         | Some b \<Rightarrow> Inr (int i, s\<lparr>freeinode_ts := (freeinode_ts s)[i := TAKEN],
             free_blocks := (free_blocks s)[b := TAKEN],
             inode_table := (inode_table s)[i := (inode_table s ! i)
               \<lparr>i_node_type := T_SOFT_LINK, i_count := 1, i_size := 40,
                i_data_block := int b\<rparr>]\<rparr>)))"
proof (cases "first_free (freeinode_ts s)")
  case None
  with assms show ?thesis by (simp add: inode_create_def inode_alloc_exec exec_simps)
next
  case (Some i)
  then have i: "i < length (freeinode_ts s)" by (simp add: first_free_Some)
  with assms have it: "i < length (inode_table s)" by (simp add: wf_simps)
  let ?nd = "(inode_table s ! i)\<lparr>i_node_type := T_SOFT_LINK\<rparr>"
  let ?s1 = "s\<lparr>freeinode_ts := (freeinode_ts s)[i := TAKEN], inode_table := (inode_table s)[i := ?nd]\<rparr>"
  have r1: "data_ready ?s1" using assms by (simp add: tfs_wf_def)
  show ?thesis
  proof (cases "first_free (free_blocks s)")
    case (Some b)
    with assms it \<open>first_free (freeinode_ts s) = Some i\<close> data_block_alloc_exec [OF r1] show ?thesis
      by (simp add: inode_create_def inode_alloc_exec exec_simps MAX_FILE_NAME_def)
  next
    case None
    let ?s2 = "s\<lparr>freeinode_ts := (freeinode_ts s)[i := TAKEN],
      inode_table := (inode_table s)[i := ?nd\<lparr>i_size := 0, i_data_block := - 1\<rparr>]\<rparr>"
    have "inode_delete (int i) ?s2 = Inr ((), ?s2\<lparr>freeinode_ts := (freeinode_ts ?s2)[i := FREE],
        free_blocks := freed_blocks ?s2 i\<rparr>)"
      using assms i it by (intro inode_delete_exec) (auto simp: tfs_wf_def)
    with assms it None \<open>first_free (freeinode_ts s) = Some i\<close> data_block_alloc_exec [OF r1]
    show ?thesis
      by (simp add: inode_create_def inode_alloc_exec exec_simps freed_blocks_def)
  qed
qed

section \<open>Open files\<close>

lemma add_to_open_file_table_exec:
  assumes "tfs_wf s" and "locks s L_file_table = Unlocked"
  shows "add_to_open_file_table inumber offset s =
    (case first_free (free_open_file_entries s) of
       None \<Rightarrow> Inr (- 1, s)
     | Some i \<Rightarrow> Inr (int i, s\<lparr>
         free_open_file_entries := (free_open_file_entries s)[i := TAKEN],
         open_file_table := (open_file_table s)[i := (open_file_table s ! i)
           \<lparr>of_inumber := inumber, of_offset := offset\<rparr>]\<rparr>))"
proof (cases "first_free (free_open_file_entries s)")
  case None
  with assms show ?thesis
    by (simp add: add_to_open_file_table_def exec_simps lock_simps wf_simps scan_free_exec)
next
  case (Some i)
  then have "i < length (free_open_file_entries s)" by (simp add: first_free_Some)
  with assms have "i < MAX_OPEN_FILES s" by (simp add: wf_simps)
  with assms Some show ?thesis
    by (simp add: add_to_open_file_table_def exec_simps lock_simps wf_simps scan_free_exec)
qed

lemma remove_from_open_file_table_exec:
  assumes "tfs_wf s" and "locks s L_file_table = Unlocked"
    and "h < MAX_OPEN_FILES s" and "free_open_file_entries s ! h = TAKEN"
  shows "remove_from_open_file_table (int h) s =
    Inr ((), s\<lparr>free_open_file_entries := (free_open_file_entries s)[h := FREE]\<rparr>)"
  using assms
  by (simp add: remove_from_open_file_table_def exec_simps lock_simps wf_simps
      valid_file_handle_def)

text \<open>A handle is open when its entry is taken; anything else is a NULL entry.\<close>

definition is_open :: "tfs_state \<Rightarrow> int \<Rightarrow> bool" where
  "is_open s h \<longleftrightarrow> valid_file_handle s h \<and> free_open_file_entries s ! nat h = TAKEN"

lemma get_open_file_entry_exec:
  assumes "tfs_wf s" and "locks s L_file_table = Unlocked"
  shows "get_open_file_entry h s = Inr (if is_open s h then Some h else None, s)"
  using assms
  by (simp add: get_open_file_entry_def exec_simps lock_simps wf_simps valid_file_handle_def
      is_open_def)

section \<open>The contract of a table with a free list\<close>

text \<open>
  Three tables hand out slots: data blocks, inodes and open files.  What their clients rely on
  is the same: the lowest free slot is taken, \<open>-1\<close> means that the table is full and leaves the
  state alone, and a release frees exactly its slot.
\<close>

locale slot_table =
  fixes ready :: "'s \<Rightarrow> bool"
    and slots :: "'s \<Rightarrow> allocation_state list"
    and alloc :: "('s, int) oper"
    and release :: "int \<Rightarrow> ('s, unit) oper"
  assumes alloc_full: "ready s \<Longrightarrow> first_free (slots s) = None \<Longrightarrow> alloc s = Inr (- 1, s)"
    and alloc_free: "ready s \<Longrightarrow> first_free (slots s) = Some i \<Longrightarrow>
      \<exists>t. alloc s = Inr (int i, t) \<and> ready t \<and> slots t = (slots s)[i := TAKEN]"
    and release_taken: "ready s \<Longrightarrow> i < length (slots s) \<Longrightarrow> slots s ! i = TAKEN \<Longrightarrow>
      \<exists>t. release (int i) s = Inr ((), t) \<and> ready t \<and> slots t = (slots s)[i := FREE]"
begin

text \<open>An allocation never faults, and fails exactly when no slot is free.\<close>

lemma alloc_returns: "ready s \<Longrightarrow> \<exists>r t. alloc s = Inr (r, t) \<and> ready t"
  by (cases "first_free (slots s)") (auto dest: alloc_full alloc_free)

lemma alloc_fails_iff:
  assumes "ready s" and "alloc s = Inr (r, t)"
  shows "r = - 1 \<longleftrightarrow> FREE \<notin> set (slots s)"
proof (cases "first_free (slots s)")
  case None
  with assms alloc_full [of s] show ?thesis by (simp add: first_free_None)
next
  case (Some i)
  with assms alloc_free [of s i] have "r = int i" by auto
  moreover have "FREE \<in> set (slots s)"
    using first_free_Some [OF Some] by (metis nth_mem)
  ultimately show ?thesis by simp
qed

lemma alloc_result:
  assumes "ready s" and "alloc s = Inr (r, t)" and "r \<noteq> - 1"
  shows "\<exists>i. r = int i \<and> i < length (slots s) \<and> slots s ! i = FREE \<and>
    slots t = (slots s)[i := TAKEN] \<and> ready t"
proof (cases "first_free (slots s)")
  case None
  with assms alloc_full [of s] show ?thesis by simp
next
  case (Some i)
  with assms alloc_free [of s i] first_free_Some [OF Some] show ?thesis by auto
qed

text \<open>A slot stays with its owner: the next allocation returns another one.\<close>

lemma alloc_twice_distinct:
  assumes "ready s" and a: "alloc s = Inr (r, t)" "r \<noteq> - 1" and b: "alloc t = Inr (q, u)"
  shows "q \<noteq> r"
proof (cases "q = - 1")
  case True
  with a show ?thesis by simp
next
  case False
  from alloc_result [OF assms(1) a] obtain i where
    i: "r = int i" "i < length (slots s)" "slots t = (slots s)[i := TAKEN]" "ready t" by blast
  from alloc_result [OF i(4) b False] obtain j where
    "q = int j" "j < length (slots t)" "slots t ! j = FREE" by blast
  with i show ?thesis by (cases "i = j") auto
qed

text \<open>What was allocated can be released, and the slot is then free again.\<close>

lemma alloc_release:
  assumes "ready s" and "alloc s = Inr (r, t)" and "r \<noteq> - 1"
  shows "\<exists>u. release r t = Inr ((), u) \<and> ready u \<and> slots u = slots s"
proof -
  from alloc_result [OF assms] obtain i where
    i: "r = int i" "i < length (slots s)" "slots s ! i = FREE"
      "slots t = (slots s)[i := TAKEN]" "ready t" by blast
  then have "i < length (slots t)" and "slots t ! i = TAKEN" by simp_all
  from release_taken [OF i(5) this] i show ?thesis by (auto simp: list_update_same_conv)
qed

text \<open>After a release the table is not full.\<close>

lemma release_alloc:
  assumes "ready s" and "i < length (slots s)" and "slots s ! i = TAKEN"
    and "release (int i) s = Inr ((), t)"
  shows "\<exists>r u. alloc t = Inr (r, u) \<and> 0 \<le> r \<and> r \<le> int i"
proof -
  from release_taken [OF assms(1-3)] assms(4) have
    t: "ready t" "slots t = (slots s)[i := FREE]" by auto
  have "FREE \<in> set (slots t)" using t(2) assms(2) by (auto intro: set_update_memI)
  then obtain k where k: "first_free (slots t) = Some k"
    using first_index_ex [of FREE "slots t" "\<lambda>x. x = FREE"] by (auto simp: first_free_def)
  have "k \<le> i"
  proof (rule ccontr)
    assume "\<not> k \<le> i"
    then have "slots t ! i \<noteq> FREE"
      using first_index_SomeD [of "\<lambda>x. x = FREE" "slots t" k] k by (simp add: first_free_def)
    then show False using t(2) assms(2) by simp
  qed
  with alloc_free [OF t(1) k] show ?thesis by auto
qed

end

text \<open>The data blocks.\<close>

interpretation blk: slot_table data_ready free_blocks data_block_alloc data_block_free
proof unfold_locales
  fix s i
  assume s: "data_ready s"
  show "data_block_alloc s = Inr (- 1, s)" if "first_free (free_blocks s) = None"
    using s that by (simp add: data_block_alloc_exec)
  show "\<exists>t. data_block_alloc s = Inr (int i, t) \<and> data_ready t \<and>
      free_blocks t = (free_blocks s)[i := TAKEN]" if "first_free (free_blocks s) = Some i"
    using s that by (simp add: data_block_alloc_exec tfs_wf_def)
  show "\<exists>t. data_block_free (int i) s = Inr ((), t) \<and> data_ready t \<and>
      free_blocks t = (free_blocks s)[i := FREE]" if "i < length (free_blocks s)"
    using s that by (simp add: data_block_free_exec valid_block_number_def tfs_wf_def)
qed

text \<open>
  The inodes: a regular file is created, an inode is deleted.  A release must find the data
  block of its inode valid, so readiness asks that of every taken inode.
\<close>

definition sized_valid :: "tfs_state \<Rightarrow> bool" where
  "sized_valid s \<longleftrightarrow> (\<forall>i < INODE_TABLE_SIZE s. freeinode_ts s ! i = TAKEN \<longrightarrow>
     0 < i_size (inode_table s ! i) \<longrightarrow> valid_block_number s (i_data_block (inode_table s ! i)))"

interpretation ino: slot_table "\<lambda>s. inode_ready s \<and> sized_valid s" freeinode_ts
  "inode_create T_FILE" inode_delete
proof unfold_locales
  fix s i
  assume s: "inode_ready s \<and> sized_valid s"
  show "inode_create T_FILE s = Inr (- 1, s)" if "first_free (freeinode_ts s) = None"
    using s that by (simp add: inode_create_file_exec)
  show "\<exists>t. inode_create T_FILE s = Inr (int i, t) \<and> (inode_ready t \<and> sized_valid t) \<and>
      freeinode_ts t = (freeinode_ts s)[i := TAKEN]" if "first_free (freeinode_ts s) = Some i"
    using s that first_free_Some [OF that]
    by (auto simp: inode_create_file_exec tfs_wf_def sized_valid_def valid_block_number_def
        nth_update)
  show "\<exists>t. inode_delete (int i) s = Inr ((), t) \<and> (inode_ready t \<and> sized_valid t) \<and>
      freeinode_ts t = (freeinode_ts s)[i := FREE]"
    if "i < length (freeinode_ts s)" "freeinode_ts s ! i = TAKEN"
  proof -
    have "i < INODE_TABLE_SIZE s" using s that by (simp add: wf_simps)
    then have "inode_delete (int i) s = Inr ((), s\<lparr>freeinode_ts := (freeinode_ts s)[i := FREE],
        free_blocks := freed_blocks s i\<rparr>)"
      using s that by (intro inode_delete_exec) (auto simp: sized_valid_def)
    then show ?thesis
      using s that by (auto simp: tfs_wf_def sized_valid_def valid_block_number_def nth_update
          freed_blocks_def)
  qed
qed

text \<open>The open files, for any inode and initial offset.\<close>

interpretation ofl: slot_table "\<lambda>s. tfs_wf s \<and> locks s L_file_table = Unlocked"
  free_open_file_entries "add_to_open_file_table inumber offset" remove_from_open_file_table
  for inumber offset
proof unfold_locales
  fix s i
  assume s: "tfs_wf s \<and> locks s L_file_table = Unlocked"
  show "add_to_open_file_table inumber offset s = Inr (- 1, s)"
    if "first_free (free_open_file_entries s) = None"
    using s that by (simp add: add_to_open_file_table_exec)
  show "\<exists>t. add_to_open_file_table inumber offset s = Inr (int i, t) \<and>
      (tfs_wf t \<and> locks t L_file_table = Unlocked) \<and>
      free_open_file_entries t = (free_open_file_entries s)[i := TAKEN]"
    if "first_free (free_open_file_entries s) = Some i"
    using s that by (simp add: add_to_open_file_table_exec tfs_wf_def)
  show "\<exists>t. remove_from_open_file_table (int i) s = Inr ((), t) \<and>
      (tfs_wf t \<and> locks t L_file_table = Unlocked) \<and>
      free_open_file_entries t = (free_open_file_entries s)[i := FREE]"
    if "i < length (free_open_file_entries s)" "free_open_file_entries s ! i = TAKEN"
    using s that by (simp add: remove_from_open_file_table_exec wf_simps) (simp add: tfs_wf_def)
qed

end
