(* ===== verification/FS_Directory.thy ===== *)
theory FS_Directory
  imports FS_Tables
begin

text \<open>
  The directory block as a list of entries: the view of its bytes as names and inumbers, the
  effect of the three loops of \<open>state.c\<close> on that list, and the contract of a directory (the
  locale \<open>name_table\<close>), interpreted on \<open>find_in_dir\<close>, \<open>add_dir_entry\<close> and \<open>clear_dir_entry\<close>.
\<close>

section \<open>The entries of a directory block\<close>

type_synonym entry = "string \<times> int"

definition dent :: "memory \<Rightarrow> nat \<Rightarrow> nat \<Rightarrow> entry" where
  "dent m a i =
     (c_string (slice m (d_name_addr a i) 40), int_dec (slice m (d_inumber_addr a i) 4))"

definition dents :: "memory \<Rightarrow> nat \<Rightarrow> nat \<Rightarrow> entry list" where
  "dents m a n = map (dent m a) [0 ..< n]"

text \<open>Every name is terminated inside its 40 bytes.\<close>

definition terminated :: "memory \<Rightarrow> nat \<Rightarrow> nat \<Rightarrow> bool" where
  "terminated m a n \<longleftrightarrow> (\<forall>i < n. NUL \<in> set (slice m (d_name_addr a i) 40))"

lemma length_dents [simp]: "length (dents m a n) = n"
  by (simp add: dents_def)

lemma nth_dents [simp]: "i < n \<Longrightarrow> dents m a n ! i = dent m a i"
  by (simp add: dents_def)

lemma drop_dents: "i < n \<Longrightarrow> drop i (dents m a n) = dent m a i # drop (Suc i) (dents m a n)"
  by (simp add: Cons_nth_drop_Suc [symmetric])

lemma dent_name_short: "NUL \<in> set (slice m (d_name_addr a i) 40) \<Longrightarrow> length (fst (dent m a i)) < 40"
proof -
  assume "NUL \<in> set (slice m (d_name_addr a i) 40)"
  then obtain r where "slice m (d_name_addr a i) 40 = c_string (slice m (d_name_addr a i) 40) @ NUL # r"
    using c_string_split by blast
  then have "length (c_string (slice m (d_name_addr a i) 40)) + length (NUL # r) = 40"
    by (metis length_append length_slice)
  then show ?thesis by (simp add: dent_def)
qed

lemma dent_name_no_NUL: "NUL \<notin> set (fst (dent m a i))"
  by (simp add: dent_def c_string_no_NUL)

lemma mem_from_split:
  "a + k \<le> fs_data_size s \<Longrightarrow>
   mem_from a s = slice (fs_data s) a k @ slice (fs_data s) (a + k) (fs_data_size s - (a + k))"
  using slice_add [of "fs_data s" a k "fs_data_size s - (a + k)"] by (simp add: mem_from_def)

lemma mem_from_name:
  assumes "d_name_addr a i + 40 \<le> fs_data_size s"
    and "NUL \<in> set (slice (fs_data s) (d_name_addr a i) 40)"
  shows "\<exists>r. mem_from (d_name_addr a i) s = fst (dent (fs_data s) a i) @ NUL # r"
proof -
  from c_string_split [OF assms(2)] obtain r where
    "slice (fs_data s) (d_name_addr a i) 40 = fst (dent (fs_data s) a i) @ NUL # r"
    by (auto simp: dent_def)
  with mem_from_split [OF assms(1)] show ?thesis by simp
qed

lemma entry_bounds:
  assumes "i < n" and "a + 44 * n \<le> M"
  shows "d_name_addr a i + 40 \<le> M" and "d_inumber_addr a i + 4 \<le> M"
  using assms by (simp_all add: d_name_addr_def d_inumber_addr_def)

lemma read_d_inumber_exec:
  "d_inumber_addr a i + 4 \<le> fs_data_size s \<Longrightarrow>
   read_d_inumber a i s = Inr (snd (dent (fs_data s) a i), s)"
  by (simp add: read_d_inumber_def exec_simps dent_def)

section \<open>Lookup\<close>

text \<open>The first used entry of that name; \<open>-1\<close> if there is none.\<close>

fun dir_find :: "entry list \<Rightarrow> string \<Rightarrow> int" where
  "dir_find [] v = - 1"
| "dir_find (e # es) v = (if snd e \<noteq> - 1 \<and> fst e = v then snd e else dir_find es v)"

text \<open>Bytes a lookup can compare with a name: terminated, or at least 40 of them.\<close>

definition comparable :: "char list \<Rightarrow> bool" where
  "comparable p \<longleftrightarrow> NUL \<in> set p \<or> 40 \<le> length p"

lemma find_loop_drop:
  assumes "a + 44 * n \<le> fs_data_size s" and "terminated (fs_data s) a n" and "comparable p"
    and "i \<le> n"
  shows "find_loop a p i n s = Inr (dir_find (drop i (dents (fs_data s) a n)) (c_string p), s)"
  using assms(4)
proof (induction "n - i" arbitrary: i)
  case 0
  then show ?case by (simp add: find_loop.simps exec_simps)
next
  case (Suc k)
  then have i: "i < n" by simp
  let ?e = "dent (fs_data s) a i"
  have nul: "NUL \<in> set (slice (fs_data s) (d_name_addr a i) 40)"
    using assms(2) i by (simp add: terminated_def)
  note b = entry_bounds [OF i assms(1)]
  obtain r where r: "mem_from (d_name_addr a i) s = fst ?e @ NUL # r"
    using mem_from_name [OF b(1) nul] by blast
  have eq: "c_strneq MAX_FILE_NAME (fst ?e @ NUL # r) p = Inr (fst ?e = c_string p)"
    using dent_name_short [OF nul] dent_name_no_NUL assms(3)
    by (intro c_strneq_term) (auto simp: MAX_FILE_NAME_def comparable_def)
  have IH: "find_loop a p (Suc i) n s =
      Inr (dir_find (drop (Suc i) (dents (fs_data s) a n)) (c_string p), s)"
    using Suc i by (intro Suc.hyps(1)) simp_all
  show ?case
    by (subst find_loop.simps)
      (simp add: i read_d_inumber_exec [OF b(2)] exec_simps r eq IH drop_dents)
qed

lemmas find_loop_exec = find_loop_drop [where i = 0, simplified]

section \<open>Insertion\<close>

definition put_dent :: "memory \<Rightarrow> nat \<Rightarrow> nat \<Rightarrow> string \<Rightarrow> int \<Rightarrow> memory" where
  "put_dent m a i v d =
     store (store (store m (d_inumber_addr a i) (int_enc d))
       (d_name_addr a i) (v @ replicate (39 - length v) NUL)) (d_name_addr a i + 39) [NUL]"

definition valid_name :: "string \<Rightarrow> bool" where
  "valid_name v \<longleftrightarrow> v \<noteq> [] \<and> length v \<le> 39 \<and> NUL \<notin> set v"

lemma c_string_pad: "NUL \<notin> set v \<Longrightarrow> c_string (v @ replicate (Suc k) NUL) = v"
  by simp

lemma put_dent_name:
  assumes "length v \<le> 39"
  shows "slice (put_dent m a i v d) (d_name_addr a i) 40 = v @ replicate (40 - length v) NUL"
proof -
  let ?n = "d_name_addr a i"
  let ?m = "store (store m (d_inumber_addr a i) (int_enc d)) ?n (v @ replicate (39 - length v) NUL)"
  have "slice (store ?m (?n + 39) [NUL]) ?n 40 = slice ?m ?n 39 @ [NUL]"
    using slice_store_within [of 39 "[NUL]" 40 ?m ?n] by simp
  also have "slice ?m ?n 39 = v @ replicate (39 - length v) NUL"
    using assms by simp
  also have "(v @ replicate (39 - length v) NUL) @ [NUL] = v @ replicate (40 - length v) NUL"
    using assms by (simp add: replicate_append_same Suc_diff_le flip: replicate_Suc)
  finally show ?thesis by (simp add: put_dent_def)
qed

lemma put_dent_inumber:
  "length v \<le> 39 \<Longrightarrow> slice (put_dent m a i v d) (d_inumber_addr a i) 4 = int_enc d"
  by (simp add: put_dent_def slice_store_other d_name_addr_def d_inumber_addr_def)

lemma put_dent_outside:
  assumes "length v \<le> 39" and "x < a + 44 * i \<or> a + 44 * i + 44 \<le> x"
  shows "put_dent m a i v d x = m x"
  using assms by (auto simp: put_dent_def store_outside d_name_addr_def d_inumber_addr_def)

text \<open>An entry other than the one that was written.\<close>

lemma entry_disjoint:
  fixes i j :: nat
  assumes "i \<noteq> j"
  shows "44 * j + 44 \<le> 44 * i \<or> 44 * i + 44 \<le> 44 * j"
  using assms by linarith

lemma put_dent_other:
  assumes "length v \<le> 39" and "i \<noteq> j"
  shows "slice (put_dent m a i v d) (d_name_addr a j) 40 = slice m (d_name_addr a j) 40"
    and "slice (put_dent m a i v d) (d_inumber_addr a j) 4 = slice m (d_inumber_addr a j) 4"
  using entry_disjoint [OF assms(2)]
  by (intro slice_cong put_dent_outside [OF assms(1)];
      auto simp: d_name_addr_def d_inumber_addr_def)+

lemma dents_put:
  assumes "i < n" and "valid_name v" and "is_int32 d"
  shows "dents (put_dent m a i v d) a n = (dents m a n)[i := (v, d)]"
proof (rule nth_equalityI)
  show "length (dents (put_dent m a i v d) a n) = length ((dents m a n)[i := (v, d)])" by simp
next
  fix j
  assume "j < length (dents (put_dent m a i v d) a n)"
  then have j: "j < n" by simp
  have v: "length v \<le> 39" "NUL \<notin> set v" using assms(2) by (simp_all add: valid_name_def)
  show "dents (put_dent m a i v d) a n ! j = (dents m a n)[i := (v, d)] ! j"
  proof (cases "i = j")
    case True
    obtain k where "40 - length v = Suc k" using v(1) by (cases "40 - length v") auto
    with c_string_pad [OF v(2)] True j v assms(3) show ?thesis
      by (simp add: dent_def put_dent_name put_dent_inumber)
  next
    case False
    with j v put_dent_other [OF v(1) False] show ?thesis by (simp add: dent_def)
  qed
qed

lemma terminated_put:
  assumes "terminated m a n" and "length v \<le> 39"
  shows "terminated (put_dent m a i v d) a n"
  unfolding terminated_def
proof (intro allI impI)
  fix j
  assume "j < n"
  show "NUL \<in> set (slice (put_dent m a i v d) (d_name_addr a j) 40)"
  proof (cases "i = j")
    case True
    with assms(2) show ?thesis by (simp add: put_dent_name)
  next
    case False
    with assms \<open>j < n\<close> show ?thesis by (simp add: put_dent_other terminated_def)
  qed
qed

lemma add_loop_drop:
  assumes "a + 44 * n \<le> fs_data_size s" and "valid_name v" and "i \<le> n"
  shows "add_loop a (v @ NUL # r) d i n s =
    (case first_index (\<lambda>e. snd e = - 1) (drop i (dents (fs_data s) a n)) of
       None \<Rightarrow> Inr (- 1, s)
     | Some k \<Rightarrow> Inr (0, s\<lparr>fs_data := put_dent (fs_data s) a (k + i) v d\<rparr>))"
  using assms(3)
proof (induction "n - i" arbitrary: i)
  case 0
  then show ?case by (simp add: add_loop.simps exec_simps)
next
  case (Suc k)
  then have i: "i < n" by simp
  note b = entry_bounds [OF i assms(1)]
  have nm: "c_strncpy (MAX_FILE_NAME - 1) (v @ NUL # r) = Inr (v @ replicate (39 - length v) NUL)"
    using assms(2) by (simp add: MAX_FILE_NAME_def c_strncpy_term valid_name_def)
  have IH: "add_loop a (v @ NUL # r) d (Suc i) n s =
    (case first_index (\<lambda>e. snd e = - 1) (drop (Suc i) (dents (fs_data s) a n)) of
       None \<Rightarrow> Inr (- 1, s)
     | Some k \<Rightarrow> Inr (0, s\<lparr>fs_data := put_dent (fs_data s) a (k + Suc i) v d\<rparr>))"
    using Suc i by (intro Suc.hyps(1)) simp_all
  show ?case
  proof (cases "snd (dent (fs_data s) a i) = - 1")
    case True
    then show ?thesis
      using i b assms(2) nm
      by (subst add_loop.simps)
        (simp add: read_d_inumber_exec exec_simps drop_dents write_d_inumber_def write_d_name_def
          put_dent_def valid_name_def MAX_FILE_NAME_def)
  next
    case False
    then show ?thesis
      using i b IH
      by (subst add_loop.simps)
        (simp add: read_d_inumber_exec exec_simps drop_dents split: option.split)
  qed
qed

lemma add_loop_exec:
  assumes "a + 44 * n \<le> fs_data_size s" and "valid_name v"
  shows "add_loop a (v @ NUL # r) d 0 n s =
    (case first_index (\<lambda>e. snd e = - 1) (dents (fs_data s) a n) of
       None \<Rightarrow> Inr (- 1, s)
     | Some k \<Rightarrow> Inr (0, s\<lparr>fs_data := put_dent (fs_data s) a k v d\<rparr>))"
  using add_loop_drop [OF assms, of 0 r d] by (simp cong: option.case_cong)

section \<open>Removal\<close>

definition wipe_dent :: "memory \<Rightarrow> nat \<Rightarrow> nat \<Rightarrow> memory" where
  "wipe_dent m a i =
     store (store m (d_inumber_addr a i) (int_enc (- 1))) (d_name_addr a i) (replicate 40 NUL)"

lemma wipe_dent_outside:
  "x < a + 44 * i \<or> a + 44 * i + 44 \<le> x \<Longrightarrow> wipe_dent m a i x = m x"
  by (auto simp: wipe_dent_def store_outside d_name_addr_def d_inumber_addr_def)

lemma wipe_dent_other:
  assumes "i \<noteq> j"
  shows "slice (wipe_dent m a i) (d_name_addr a j) 40 = slice m (d_name_addr a j) 40"
    and "slice (wipe_dent m a i) (d_inumber_addr a j) 4 = slice m (d_inumber_addr a j) 4"
  using entry_disjoint [OF assms]
  by (intro slice_cong wipe_dent_outside; auto simp: d_name_addr_def d_inumber_addr_def)+

lemma wipe_dent_same:
  "slice (wipe_dent m a i) (d_name_addr a i) 40 = replicate 40 NUL"
  "slice (wipe_dent m a i) (d_inumber_addr a i) 4 = int_enc (- 1)"
  by (simp_all add: wipe_dent_def slice_store_other d_name_addr_def d_inumber_addr_def)

lemma is_int32_minus1 [simp]: "is_int32 (- 1)"
  by (simp add: is_int32_def)

lemma dents_wipe:
  assumes "i < n"
  shows "dents (wipe_dent m a i) a n = (dents m a n)[i := ([], - 1)]"
proof (rule nth_equalityI)
  show "length (dents (wipe_dent m a i) a n) = length ((dents m a n)[i := ([], - 1)])" by simp
next
  fix j
  assume "j < length (dents (wipe_dent m a i) a n)"
  then have j: "j < n" by simp
  show "dents (wipe_dent m a i) a n ! j = (dents m a n)[i := ([], - 1)] ! j"
  proof (cases "i = j")
    case True
    then show ?thesis
      using j by (simp add: dent_def wipe_dent_same) (simp add: c_string_def numeral_eq_Suc)
  next
    case False
    with j show ?thesis by (simp add: dent_def wipe_dent_other)
  qed
qed

lemma terminated_wipe:
  assumes "terminated m a n"
  shows "terminated (wipe_dent m a i) a n"
  unfolding terminated_def
proof (intro allI impI)
  fix j
  assume "j < n"
  show "NUL \<in> set (slice (wipe_dent m a i) (d_name_addr a j) 40)"
    using assms \<open>j < n\<close> by (cases "i = j") (simp_all add: wipe_dent_same wipe_dent_other terminated_def)
qed

lemma clear_loop_drop:
  assumes "a + 44 * n \<le> fs_data_size s" and "terminated (fs_data s) a n"
    and "NUL \<notin> set v" and "i \<le> n"
  shows "clear_loop a (v @ NUL # r) i n s =
    (case first_index (\<lambda>e. fst e = v) (drop i (dents (fs_data s) a n)) of
       None \<Rightarrow> Inr (- 1, s)
     | Some k \<Rightarrow> Inr (0, s\<lparr>fs_data := wipe_dent (fs_data s) a (k + i)\<rparr>))"
  using assms(4)
proof (induction "n - i" arbitrary: i)
  case 0
  then show ?case by (simp add: clear_loop.simps exec_simps)
next
  case (Suc k)
  then have i: "i < n" by simp
  let ?e = "dent (fs_data s) a i"
  have nul: "NUL \<in> set (slice (fs_data s) (d_name_addr a i) 40)"
    using assms(2) i by (simp add: terminated_def)
  note b = entry_bounds [OF i assms(1)]
  obtain q where q: "mem_from (d_name_addr a i) s = fst ?e @ NUL # q"
    using mem_from_name [OF b(1) nul] by blast
  have eq: "c_streq (fst ?e @ NUL # q) (v @ NUL # r) = Inr (fst ?e = v)"
    using dent_name_no_NUL assms(3) by (intro c_streq_term) auto
  have IH: "clear_loop a (v @ NUL # r) (Suc i) n s =
    (case first_index (\<lambda>e. fst e = v) (drop (Suc i) (dents (fs_data s) a n)) of
       None \<Rightarrow> Inr (- 1, s)
     | Some k \<Rightarrow> Inr (0, s\<lparr>fs_data := wipe_dent (fs_data s) a (k + Suc i)\<rparr>))"
    using Suc i by (intro Suc.hyps(1)) simp_all
  show ?case
    using i b IH eq
    by (subst clear_loop.simps)
      (simp add: exec_simps q drop_dents write_d_inumber_def write_d_name_def wipe_dent_def
        MAX_FILE_NAME_def split: option.split)
qed

lemma clear_loop_exec:
  assumes "a + 44 * n \<le> fs_data_size s" and "terminated (fs_data s) a n" and "NUL \<notin> set v"
  shows "clear_loop a (v @ NUL # r) 0 n s =
    (case first_index (\<lambda>e. fst e = v) (dents (fs_data s) a n) of
       None \<Rightarrow> Inr (- 1, s)
     | Some k \<Rightarrow> Inr (0, s\<lparr>fs_data := wipe_dent (fs_data s) a k\<rparr>))"
  using clear_loop_drop [OF assms, of 0 r] by (simp cong: option.case_cong)

section \<open>The root directory\<close>

definition root_base :: "tfs_state \<Rightarrow> nat" where
  "root_base s = nat (i_data_block (inode_table s ! 0)) * BLOCK_SIZE s"

definition root_dents :: "tfs_state \<Rightarrow> entry list" where
  "root_dents s = dents (fs_data s) (root_base s) (MAX_DIR_ENTRIES s)"

definition root_ok :: "tfs_state \<Rightarrow> bool" where
  "root_ok s \<longleftrightarrow>
     0 < INODE_TABLE_SIZE s \<and> freeinode_ts s ! 0 = TAKEN \<and>
     i_node_type (inode_table s ! 0) = T_DIRECTORY \<and>
     valid_block_number s (i_data_block (inode_table s ! 0)) \<and>
     free_blocks s ! nat (i_data_block (inode_table s ! 0)) = TAKEN \<and>
     0 < i_size (inode_table s ! 0) \<and>
     terminated (fs_data s) (root_base s) (MAX_DIR_ENTRIES s)"

abbreviation dir_ready :: "tfs_state \<Rightarrow> bool" where
  "dir_ready s \<equiv> data_ready s \<and> locks s L_dir_table = Unlocked \<and> root_ok s"

lemma root_in_data:
  assumes "tfs_wf s" and "root_ok s"
  shows "root_base s + 44 * MAX_DIR_ENTRIES s \<le> fs_data_size s"
proof -
  let ?b = "nat (i_data_block (inode_table s ! 0))"
  have "?b < DATA_BLOCKS s" using assms(2) by (auto simp: root_ok_def valid_block_number_def)
  from block_in_data [OF this] have "root_base s + BLOCK_SIZE s \<le> fs_data_size s"
    using assms(1) by (simp add: root_base_def wf_simps)
  moreover have "44 * MAX_DIR_ENTRIES s \<le> BLOCK_SIZE s" by (simp add: MAX_DIR_ENTRIES_def)
  ultimately show ?thesis by linarith
qed

lemma root_inode_exec:
  assumes "tfs_wf s" and "root_ok s"
  shows "read_inode ROOT_DIR_INUM s = Inr (inode_table s ! 0, s)"
  using assms by (simp add: exec_simps ROOT_DIR_INUM_def root_ok_def wf_simps)

lemma root_get_exec:
  assumes "data_ready s" and "root_ok s"
  shows "data_block_get (i_data_block (inode_table s ! 0)) s = Inr (root_base s, s)"
  using assms by (simp add: data_block_get_exec root_ok_def root_base_def)

lemma MAX_DIR_ENTRIES_set_lock [simp]: "MAX_DIR_ENTRIES (set_lock l v s) = MAX_DIR_ENTRIES s"
  by (simp add: MAX_DIR_ENTRIES_def)

lemma root_set_lock [simp]:
  "root_base (set_lock l v s) = root_base s"
  "root_dents (set_lock l v s) = root_dents s"
  "root_ok (set_lock l v s) = root_ok s"
  by (simp_all add: root_base_def root_dents_def root_ok_def valid_block_number_def)

lemma find_in_dir_exec:
  assumes "dir_ready s" and "comparable p"
  shows "find_in_dir ROOT_DIR_INUM p s = Inr (dir_find (root_dents s) (c_string p), s)"
proof -
  let ?s = "set_lock L_dir_table (ReadLocked 1) s"
  have wf: "tfs_wf ?s" and ok: "root_ok ?s" and dr: "data_ready ?s" using assms(1) by simp_all
  have loop: "find_loop (root_base s) p 0 (MAX_DIR_ENTRIES s) ?s =
      Inr (dir_find (root_dents s) (c_string p), ?s)"
    using find_loop_exec [of "root_base s" "MAX_DIR_ENTRIES s" ?s p] root_in_data [OF wf ok]
      assms by (simp add: root_ok_def root_dents_def)
  show ?thesis
    using assms root_inode_exec [OF wf ok] root_get_exec [OF dr ok] loop
    by (simp add: find_in_dir_def exec_simps lock_simps root_ok_def)
qed

lemma add_dir_entry_exec:
  assumes "dir_ready s" and "valid_name v"
  shows "add_dir_entry ROOT_DIR_INUM (v @ NUL # r) d s =
    (case first_index (\<lambda>e. snd e = - 1) (root_dents s) of
       None \<Rightarrow> Inr (- 1, s)
     | Some k \<Rightarrow> Inr (0, s\<lparr>fs_data := put_dent (fs_data s) (root_base s) k v d\<rparr>))"
proof -
  let ?s = "set_lock L_dir_table WriteLocked s"
  have wf: "tfs_wf ?s" and ok: "root_ok ?s" and dr: "data_ready ?s" using assms(1) by simp_all
  note loop = add_loop_exec [of "root_base s" "MAX_DIR_ENTRIES s" ?s v r d]
  show ?thesis
    using assms root_inode_exec [OF wf ok] root_get_exec [OF dr ok] loop root_in_data [OF wf ok]
    by (auto simp: add_dir_entry_def exec_simps lock_simps root_ok_def root_dents_def valid_name_def
        c_strlen_term MAX_FILE_NAME_def split: option.split)
qed

lemma add_dir_entry_invalid:
  assumes "dir_ready s" and "NUL \<notin> set v" and "\<not> valid_name v"
  shows "add_dir_entry ROOT_DIR_INUM (v @ NUL # r) d s = Inr (- 1, s)"
  using assms
  by (auto simp: add_dir_entry_def exec_simps lock_simps valid_name_def c_strlen_term
      MAX_FILE_NAME_def)

lemma clear_dir_entry_exec:
  assumes "dir_ready s" and "NUL \<notin> set v"
  shows "clear_dir_entry ROOT_DIR_INUM (v @ NUL # r) s =
    (case first_index (\<lambda>e. fst e = v) (root_dents s) of
       None \<Rightarrow> Inr (- 1, s)
     | Some k \<Rightarrow> Inr (0, s\<lparr>fs_data := wipe_dent (fs_data s) (root_base s) k\<rparr>))"
proof -
  let ?s = "set_lock L_dir_table WriteLocked s"
  have wf: "tfs_wf ?s" and ok: "root_ok ?s" and dr: "data_ready ?s" using assms(1) by simp_all
  note loop = clear_loop_exec [of "root_base s" "MAX_DIR_ENTRIES s" ?s v r]
  show ?thesis
    using assms root_inode_exec [OF wf ok] root_get_exec [OF dr ok] loop root_in_data [OF wf ok]
    by (auto simp: clear_dir_entry_def exec_simps lock_simps root_ok_def root_dents_def
        split: option.split)
qed

text \<open>In a directory without entries nothing is compared.\<close>

lemma find_in_dir_no_entries:
  assumes "dir_ready s" and "MAX_DIR_ENTRIES s = 0"
  shows "find_in_dir ROOT_DIR_INUM p s = Inr (- 1, s)"
proof -
  let ?s = "set_lock L_dir_table (ReadLocked 1) s"
  have wf: "tfs_wf ?s" and ok: "root_ok ?s" and dr: "data_ready ?s" using assms(1) by simp_all
  show ?thesis
    using assms root_inode_exec [OF wf ok] root_get_exec [OF dr ok]
    by (simp add: find_in_dir_def exec_simps lock_simps root_ok_def find_loop.simps)
qed

text \<open>What writing an entry does to the directory and to readiness.\<close>

lemma MAX_DIR_ENTRIES_fs_data [simp]: "MAX_DIR_ENTRIES (s\<lparr>fs_data := m\<rparr>) = MAX_DIR_ENTRIES s"
  by (simp add: MAX_DIR_ENTRIES_def)

lemma root_base_fs_data [simp]: "root_base (s\<lparr>fs_data := m\<rparr>) = root_base s"
  by (simp add: root_base_def)

lemma root_dents_put:
  assumes "k < MAX_DIR_ENTRIES s" and "valid_name v" and "is_int32 d"
  shows "root_dents (s\<lparr>fs_data := put_dent (fs_data s) (root_base s) k v d\<rparr>) =
    (root_dents s)[k := (v, d)]"
  using assms by (simp add: root_dents_def dents_put)

lemma root_dents_wipe:
  "k < MAX_DIR_ENTRIES s \<Longrightarrow>
   root_dents (s\<lparr>fs_data := wipe_dent (fs_data s) (root_base s) k\<rparr>) = (root_dents s)[k := ([], - 1)]"
  by (simp add: root_dents_def dents_wipe)

lemma root_ok_put:
  "root_ok s \<Longrightarrow> valid_name v \<Longrightarrow>
   root_ok (s\<lparr>fs_data := put_dent (fs_data s) (root_base s) k v d\<rparr>)"
  by (simp add: root_ok_def terminated_put valid_block_number_def valid_name_def)

lemma root_ok_wipe:
  "root_ok s \<Longrightarrow> root_ok (s\<lparr>fs_data := wipe_dent (fs_data s) (root_base s) k\<rparr>)"
  by (simp add: root_ok_def terminated_wipe valid_block_number_def)

lemma tfs_wf_fs_data [simp]: "tfs_wf (s\<lparr>fs_data := m\<rparr>) = tfs_wf s"
  by (simp add: tfs_wf_def)

lemma length_root_dents [simp]: "length (root_dents s) = MAX_DIR_ENTRIES s"
  by (simp add: root_dents_def)

section \<open>The contract of a directory\<close>

text \<open>
  What the API relies on, whatever the layout: lookup returns the first used entry of a name,
  an insertion fills the first unused entry, a removal resets the first entry of that name.
\<close>

locale name_table =
  fixes ready :: "'s \<Rightarrow> bool"
    and ents :: "'s \<Rightarrow> entry list"
    and find :: "char list \<Rightarrow> ('s, int) oper"
    and add :: "char list \<Rightarrow> int \<Rightarrow> ('s, int) oper"
    and clear :: "char list \<Rightarrow> ('s, int) oper"
  assumes find_law: "ready s \<Longrightarrow> comparable p \<Longrightarrow> find p s = Inr (dir_find (ents s) (c_string p), s)"
    and add_full: "ready s \<Longrightarrow> valid_name v \<Longrightarrow> first_index (\<lambda>e. snd e = - 1) (ents s) = None \<Longrightarrow>
      add (v @ [NUL]) d s = Inr (- 1, s)"
    and add_law: "ready s \<Longrightarrow> valid_name v \<Longrightarrow> is_int32 d \<Longrightarrow>
      first_index (\<lambda>e. snd e = - 1) (ents s) = Some k \<Longrightarrow>
      \<exists>t. add (v @ [NUL]) d s = Inr (0, t) \<and> ready t \<and> ents t = (ents s)[k := (v, d)]"
    and clear_law: "ready s \<Longrightarrow> NUL \<notin> set v \<Longrightarrow> first_index (\<lambda>e. fst e = v) (ents s) = Some k \<Longrightarrow>
      \<exists>t. clear (v @ [NUL]) s = Inr (0, t) \<and> ready t \<and> ents t = (ents s)[k := ([], - 1)]"
begin

text \<open>An insertion succeeds exactly while the directory has an unused entry.\<close>

lemma add_result:
  assumes "ready s" and "valid_name v" and "is_int32 d"
  shows "\<exists>r t. add (v @ [NUL]) d s = Inr (r, t) \<and> ready t \<and>
    (r = - 1 \<and> t = s \<and> - 1 \<notin> snd ` set (ents s) \<or>
     r = 0 \<and> (\<exists>k < length (ents s). snd (ents s ! k) = - 1 \<and> ents t = (ents s)[k := (v, d)]))"
proof (cases "first_index (\<lambda>e. snd e = - 1) (ents s)")
  case None
  with add_full [OF assms(1,2) None] assms(1) show ?thesis by (auto simp: first_index_None)
next
  case (Some k)
  with add_law [OF assms Some] first_index_SomeD [OF Some] show ?thesis by auto
qed

end

interpretation root: name_table dir_ready root_dents "find_in_dir ROOT_DIR_INUM"
  "add_dir_entry ROOT_DIR_INUM" "clear_dir_entry ROOT_DIR_INUM"
proof unfold_locales
  fix s :: tfs_state and v p d k
  assume s: "dir_ready s"
  show "find_in_dir ROOT_DIR_INUM p s = Inr (dir_find (root_dents s) (c_string p), s)"
    if "comparable p"
    using s that by (rule find_in_dir_exec)
  show "add_dir_entry ROOT_DIR_INUM (v @ [NUL]) d s = Inr (- 1, s)"
    if "valid_name v" "first_index (\<lambda>e. snd e = - 1) (root_dents s) = None"
    using add_dir_entry_exec [OF s that(1), of "[]" d] that by simp
  show "\<exists>t. add_dir_entry ROOT_DIR_INUM (v @ [NUL]) d s = Inr (0, t) \<and> dir_ready t \<and>
      root_dents t = (root_dents s)[k := (v, d)]"
    if "valid_name v" "is_int32 d" "first_index (\<lambda>e. snd e = - 1) (root_dents s) = Some k"
    using add_dir_entry_exec [OF s that(1), of "[]" d] s that first_index_SomeD [OF that(3)]
    by (simp add: root_dents_put root_ok_put)
  show "\<exists>t. clear_dir_entry ROOT_DIR_INUM (v @ [NUL]) s = Inr (0, t) \<and> dir_ready t \<and>
      root_dents t = (root_dents s)[k := ([], - 1)]"
    if "NUL \<notin> set v" "first_index (\<lambda>e. fst e = v) (root_dents s) = Some k"
    using clear_dir_entry_exec [OF s that(1), of "[]"] s that first_index_SomeD [OF that(2)]
    by (simp add: root_dents_wipe root_ok_wipe)
qed

end
