(* ===== verification/FS_Invariant.thy ===== *)
theory FS_Invariant
  imports FS_Directory
begin

text \<open>
  The invariant that ties the tables of the file system together, one conjunct per concern,
  and its preservation by every kind of update the API makes.  Nothing here depends on locks.
\<close>

section \<open>Lookup in a list of entries\<close>

lemma dir_find_member: "dir_find es v = d \<Longrightarrow> d \<noteq> - 1 \<Longrightarrow> (v, d) \<in> set es"
  by (induction es) (auto split: if_splits)

lemma dir_find_None: "dir_find es v = - 1 \<longleftrightarrow> (\<forall>e \<in> set es. fst e = v \<longrightarrow> snd e = - 1)"
  by (induction es) auto

lemma dir_find_put_other:
  "k < length es \<Longrightarrow> snd (es ! k) = - 1 \<Longrightarrow> w \<noteq> v \<Longrightarrow> dir_find (es[k := (v, d)]) w = dir_find es w"
  by (induction es arbitrary: k) (auto split: nat.splits)

lemma dir_find_put_new:
  "k < length es \<Longrightarrow> d \<noteq> - 1 \<Longrightarrow> dir_find es v = - 1 \<Longrightarrow> dir_find (es[k := (v, d)]) v = d"
proof (induction es arbitrary: k)
  case Nil
  then show ?case by simp
next
  case (Cons e es)
  then show ?case by (cases k) (auto split: if_splits)
qed

lemma dir_find_put_old:
  "k < length es \<Longrightarrow> snd (es ! k) = - 1 \<Longrightarrow> dir_find es v \<noteq> - 1 \<Longrightarrow>
   first_index (\<lambda>e. snd e \<noteq> - 1 \<and> fst e = v) es = Some j \<Longrightarrow> j < k \<Longrightarrow>
   dir_find (es[k := (v, d)]) v = dir_find es v"
proof (induction es arbitrary: k j)
  case Nil
  then show ?case by simp
next
  case (Cons e es)
  then show ?case by (cases k) (auto split: if_splits)
qed

lemma dir_find_wipe_other:
  "k < length es \<Longrightarrow> fst (es ! k) \<noteq> w \<Longrightarrow> dir_find (es[k := ([], - 1)]) w = dir_find es w"
proof (induction es arbitrary: k)
  case Nil
  then show ?case by simp
next
  case (Cons e es)
  then show ?case by (cases k) auto
qed

text \<open>Unused entries carry no name: then the first entry of a name is the one lookup finds.\<close>

definition clean :: "entry list \<Rightarrow> bool" where
  "clean es \<longleftrightarrow> (\<forall>e \<in> set es. snd e = - 1 \<longrightarrow> fst e = [])"

lemma first_name_found:
  "clean es \<Longrightarrow> v \<noteq> [] \<Longrightarrow> first_index (\<lambda>e. fst e = v) es = Some k \<Longrightarrow> snd (es ! k) = dir_find es v"
proof (induction es arbitrary: k)
  case Nil
  then show ?case by simp
next
  case (Cons e es)
  then show ?case by (auto simp: clean_def split: if_splits)
qed

lemma found_has_index:
  "dir_find es v \<noteq> - 1 \<Longrightarrow> \<exists>k. first_index (\<lambda>e. fst e = v) es = Some k"
proof -
  assume "dir_find es v \<noteq> - 1"
  then have "(v, dir_find es v) \<in> set es" by (simp add: dir_find_member)
  then show ?thesis by (rule first_index_ex) simp
qed

section \<open>The invariant\<close>

text \<open>Inode \<open>i\<close> holds data block \<open>i_data_block\<close>.\<close>

definition holds_block :: "tfs_state \<Rightarrow> nat \<Rightarrow> bool" where
  "holds_block s i \<longleftrightarrow>
     i < INODE_TABLE_SIZE s \<and> freeinode_ts s ! i = TAKEN \<and> 0 < i_size (inode_table s ! i)"

abbreviation block_of :: "tfs_state \<Rightarrow> nat \<Rightarrow> int" where
  "block_of s i \<equiv> i_data_block (inode_table s ! i)"

text \<open>
  A used entry names a taken inode other than the root; an unused one has an empty name.
\<close>

definition entry_ok :: "tfs_state \<Rightarrow> entry \<Rightarrow> bool" where
  "entry_ok s e \<longleftrightarrow>
     (if snd e = - 1 then fst e = []
      else fst e \<noteq> [] \<and> 0 < snd e \<and> snd e < int (INODE_TABLE_SIZE s) \<and>
        freeinode_ts s ! nat (snd e) = TAKEN)"

definition entries_inv :: "tfs_state \<Rightarrow> bool" where
  "entries_inv s \<longleftrightarrow> (\<forall>e \<in> set (root_dents s). entry_ok s e)"

text \<open>No inode has more entries than its link count says.\<close>

definition links :: "tfs_state \<Rightarrow> nat \<Rightarrow> nat" where
  "links s i = count_list (map snd (root_dents s)) (int i)"

definition links_inv :: "tfs_state \<Rightarrow> bool" where
  "links_inv s \<longleftrightarrow> (\<forall>i. 0 < i \<longrightarrow> i < INODE_TABLE_SIZE s \<longrightarrow> freeinode_ts s ! i = TAKEN \<longrightarrow>
     int (links s i) \<le> i_count (inode_table s ! i))"

text \<open>The blocks of the inodes are valid, taken and not shared; a symbolic link has one.\<close>

definition blocks_inv :: "tfs_state \<Rightarrow> bool" where
  "blocks_inv s \<longleftrightarrow>
     (\<forall>i. holds_block s i \<longrightarrow>
        valid_block_number s (block_of s i) \<and> free_blocks s ! nat (block_of s i) = TAKEN) \<and>
     (\<forall>i j. holds_block s i \<longrightarrow> holds_block s j \<longrightarrow> i \<noteq> j \<longrightarrow> block_of s i \<noteq> block_of s j)"

definition sizes_inv :: "tfs_state \<Rightarrow> bool" where
  "sizes_inv s \<longleftrightarrow> (\<forall>i < INODE_TABLE_SIZE s. freeinode_ts s ! i = TAKEN \<longrightarrow>
     i_size (inode_table s ! i) \<le> BLOCK_SIZE s \<and>
     (i_node_type (inode_table s ! i) = T_SOFT_LINK \<longrightarrow> 0 < i_size (inode_table s ! i)))"

text \<open>
  An open handle names an inode that was created as a file.  It may have been deleted since
  (the API does not look at open handles when it deletes), so its block, if it has one, need
  not be its own any more; but it is never the block of the root directory.
\<close>

definition handle_ok :: "tfs_state \<Rightarrow> open_file_entry \<Rightarrow> bool" where
  "handle_ok s fe \<longleftrightarrow>
     0 < of_inumber fe \<and> of_inumber fe < int (INODE_TABLE_SIZE s) \<and>
     (0 < i_size (inode_table s ! nat (of_inumber fe)) \<longrightarrow>
        valid_block_number s (block_of s (nat (of_inumber fe))) \<and>
        block_of s (nat (of_inumber fe)) \<noteq> block_of s 0)"

definition handles_inv :: "tfs_state \<Rightarrow> bool" where
  "handles_inv s \<longleftrightarrow> (\<forall>h < MAX_OPEN_FILES s. free_open_file_entries s ! h = TAKEN \<longrightarrow>
     handle_ok s (open_file_table s ! h))"

definition fs_inv :: "tfs_state \<Rightarrow> bool" where
  "fs_inv s \<longleftrightarrow>
     tfs_wf s \<and> root_ok s \<and> entries_inv s \<and> links_inv s \<and> blocks_inv s \<and> sizes_inv s \<and>
     handles_inv s"

lemmas inv_defs = entries_inv_def links_inv_def blocks_inv_def sizes_inv_def handles_inv_def

lemma fs_invD:
  assumes "fs_inv s"
  shows "tfs_wf s" "root_ok s" "entries_inv s" "links_inv s" "blocks_inv s" "sizes_inv s"
    "handles_inv s"
  using assms by (simp_all add: fs_inv_def)

lemma fs_invI [intro?]:
  "tfs_wf s \<Longrightarrow> root_ok s \<Longrightarrow> entries_inv s \<Longrightarrow> links_inv s \<Longrightarrow> blocks_inv s \<Longrightarrow> sizes_inv s \<Longrightarrow>
   handles_inv s \<Longrightarrow> fs_inv s"
  by (simp add: fs_inv_def)

lemma fs_inv_set_lock [simp]: "fs_inv (set_lock l v s) = fs_inv s"
  by (simp add: fs_inv_def inv_defs entry_ok_def links_def holds_block_def handle_ok_def
      valid_block_number_def)

lemma holds_root: "root_ok s \<Longrightarrow> holds_block s 0"
  by (simp add: root_ok_def holds_block_def)

lemma block_of_not_root:
  "blocks_inv s \<Longrightarrow> root_ok s \<Longrightarrow> holds_block s i \<Longrightarrow> i \<noteq> 0 \<Longrightarrow> block_of s i \<noteq> block_of s 0"
  using holds_root by (auto simp: blocks_inv_def)

lemma entries_clean: "entries_inv s \<Longrightarrow> clean (root_dents s)"
  by (auto simp: entries_inv_def clean_def entry_ok_def)

lemma links_zero:
  assumes "entries_inv s" and "freeinode_ts s ! i = FREE"
  shows "links s i = 0"
proof (rule ccontr)
  assume "links s i \<noteq> 0"
  then have "int i \<in> set (map snd (root_dents s))"
    by (auto simp: links_def count_list_0_iff)
  with assms show False by (fastforce simp: entries_inv_def entry_ok_def)
qed

section \<open>Preservation by updates\<close>

text \<open>An update that does not touch the directory block keeps the entries.\<close>

lemma root_dents_cong:
  assumes "fs_params t = fs_params s" and "inode_table t ! 0 = inode_table s ! 0"
    and "\<And>x. root_base s \<le> x \<Longrightarrow> x < root_base s + BLOCK_SIZE s \<Longrightarrow> fs_data t x = fs_data s x"
  shows "root_base t = root_base s" and "root_dents t = root_dents s"
    and "terminated (fs_data t) (root_base t) (MAX_DIR_ENTRIES t) =
         terminated (fs_data s) (root_base s) (MAX_DIR_ENTRIES s)"
proof -
  show base: "root_base t = root_base s" using assms by (simp add: root_base_def)
  have n: "MAX_DIR_ENTRIES t = MAX_DIR_ENTRIES s" using assms by (simp add: MAX_DIR_ENTRIES_def)
  have "44 * i + 44 \<le> BLOCK_SIZE s" if "i < MAX_DIR_ENTRIES s" for i
    using that by (simp add: MAX_DIR_ENTRIES_def)
  then have sl: "slice (fs_data t) (d_name_addr (root_base s) i) 40 =
        slice (fs_data s) (d_name_addr (root_base s) i) 40 \<and>
      slice (fs_data t) (d_inumber_addr (root_base s) i) 4 =
        slice (fs_data s) (d_inumber_addr (root_base s) i) 4"
    if "i < MAX_DIR_ENTRIES s" for i
    using that by (intro conjI slice_cong assms(3)) (fastforce simp: d_name_addr_def d_inumber_addr_def)+
  then show "root_dents t = root_dents s"
    by (auto simp: root_dents_def dents_def dent_def base n)
  show "terminated (fs_data t) (root_base t) (MAX_DIR_ENTRIES t) =
      terminated (fs_data s) (root_base s) (MAX_DIR_ENTRIES s)"
    using sl by (auto simp: terminated_def base n)
qed

text \<open>Two different blocks do not overlap.\<close>

lemma block_disjoint:
  fixes a b B x :: nat
  assumes "a \<noteq> b" and "a * B \<le> x" and "x < a * B + B"
  shows "x < b * B \<or> b * B + B \<le> x"
proof (cases "a < b")
  case True
  then have "Suc a * B \<le> b * B" by (intro mult_le_mono1) simp
  with assms show ?thesis by simp
next
  case False
  with assms have "Suc b * B \<le> a * B" by (intro mult_le_mono1) simp
  with assms show ?thesis by simp
qed

text \<open>
  The root inode stays what it is under any update of other inodes; its block stays taken as
  long as nobody frees it.
\<close>

lemma root_ok_frame:
  assumes "root_ok s" and "fs_params t = fs_params s" and "inode_table t ! 0 = inode_table s ! 0"
    and "\<And>x. root_base s \<le> x \<Longrightarrow> x < root_base s + BLOCK_SIZE s \<Longrightarrow> fs_data t x = fs_data s x"
    and "freeinode_ts t ! 0 = TAKEN" and "free_blocks t ! nat (block_of s 0) = TAKEN"
  shows "root_ok t"
  using assms root_dents_cong(3) [OF assms(2-4)] by (simp add: root_ok_def valid_block_number_def)

lemma inv_inode_nonroot:
  assumes "root_ok s" and "freeinode_ts s ! i = FREE"
  shows "i \<noteq> 0"
  using assms by (metis allocation_state.distinct(1) root_ok_def)

text \<open>
  An update of inode tables, free lists and open files alone (\<open>fs_data\<close> and the root inode
  stay): the conjuncts about entries depend only on which inodes are taken.
\<close>

lemma entries_inv_frame:
  assumes "entries_inv s" and "fs_params t = fs_params s" and "root_dents t = root_dents s"
    and "\<And>e. e \<in> set (root_dents s) \<Longrightarrow> snd e \<noteq> - 1 \<Longrightarrow> freeinode_ts t ! nat (snd e) = TAKEN"
  shows "entries_inv t"
  using assms by (auto simp: entries_inv_def entry_ok_def)

subsection \<open>One inode, its status and the free blocks\<close>

text \<open>
  The one update behind creation, deletion, truncation, writing and counting links: inode
  \<open>i\<close> gets the contents \<open>nd\<close> and the status \<open>st\<close>, and the free list of the blocks changes to
  \<open>fb\<close>.  The premises say what the caller has to check about the new block and size.
\<close>

lemma inv_upd_inode:
  assumes inv: "fs_inv s" and i: "0 < i" "i < INODE_TABLE_SIZE s"
    and t: "t = s\<lparr>freeinode_ts := (freeinode_ts s)[i := st], free_blocks := fb,
      inode_table := (inode_table s)[i := nd]\<rparr>"
    and len: "length fb = DATA_BLOCKS s"
    and cnt: "st = TAKEN \<Longrightarrow> int (links s i) \<le> i_count nd"
    and free: "st = FREE \<Longrightarrow> links s i = 0"
    and others: "\<And>j. j \<noteq> i \<Longrightarrow> holds_block s j \<Longrightarrow> fb ! nat (block_of s j) = TAKEN"
    and valid: "0 < i_size nd \<Longrightarrow>
      valid_block_number s (i_data_block nd) \<and> i_data_block nd \<noteq> block_of s 0"
    and own: "st = TAKEN \<Longrightarrow> 0 < i_size nd \<Longrightarrow> fb ! nat (i_data_block nd) = TAKEN \<and>
      (\<forall>j. j \<noteq> i \<longrightarrow> holds_block s j \<longrightarrow> block_of s j \<noteq> i_data_block nd)"
    and size: "st = TAKEN \<Longrightarrow>
      i_size nd \<le> BLOCK_SIZE s \<and> (i_node_type nd = T_SOFT_LINK \<longrightarrow> 0 < i_size nd)"
  shows "fs_inv t"
proof
  note w = fs_invD [OF inv]
  have l: "i < length (freeinode_ts s)" "i < length (inode_table s)"
    using i w(1) by (simp_all add: wf_simps)
  have p: "fs_params t = fs_params s" by (simp add: t)
  have vb: "valid_block_number t x = valid_block_number s x" for x
    by (simp add: valid_block_number_def p)
  have fr: "freeinode_ts t ! j = (if j = i then st else freeinode_ts s ! j)" for j
    using l by (simp add: t nth_update)
  have it: "inode_table t ! j = (if j = i then nd else inode_table s ! j)" for j
    using l by (simp add: t nth_update)
  have h: "holds_block t j \<longleftrightarrow> (if j = i then st = TAKEN \<and> 0 < i_size nd else holds_block s j)" for j
    using i by (auto simp: holds_block_def p fr it)
  show "tfs_wf t" using w(1) len by (simp add: t tfs_wf_def)
  show "root_ok t"
    by (rule root_ok_frame [OF w(2)])
      (use w(2) i others [OF _ holds_root [OF w(2)]] in \<open>auto simp: t nth_update root_ok_def\<close>)
  have d: "root_dents t = root_dents s"
    by (rule root_dents_cong) (use i in \<open>simp_all add: t\<close>)
  have "freeinode_ts t ! nat (snd e) = TAKEN" if "e \<in> set (root_dents s)" "snd e \<noteq> - 1" for e
  proof (cases "nat (snd e) = i \<and> st = FREE")
    case True
    have "0 < snd e" using w(3) that by (auto simp: entries_inv_def entry_ok_def)
    with True have "int i \<in> snd ` set (root_dents s)" using that(1) by (metis image_eqI int_nat_eq less_imp_le)
    with free True show ?thesis by (simp add: links_def count_list_0_iff)
  next
    case False
    then show ?thesis
      using w(3) that by (cases st) (auto simp: fr entries_inv_def entry_ok_def)
  qed
  then show "entries_inv t" by (intro entries_inv_frame [OF w(3) p d])
  show "links_inv t"
    using w(4) cnt by (auto simp: links_inv_def links_def d p fr it)
  show "blocks_inv t"
    unfolding blocks_inv_def
  proof (intro conjI allI impI)
    fix j
    assume j: "holds_block t j"
    show "valid_block_number t (block_of t j)"
      using j h [of j] valid w(5) by (auto simp: blocks_inv_def vb it split: if_splits)
    show "free_blocks t ! nat (block_of t j) = TAKEN"
      using j h [of j] own others [of j] by (auto simp: t nth_update l split: if_splits)
  next
    fix j k
    assume "holds_block t j" "holds_block t k" "j \<noteq> k"
    then show "block_of t j \<noteq> block_of t k"
      using h [of j] h [of k] own w(5) by (auto simp: blocks_inv_def it split: if_splits)
  qed
  show "sizes_inv t" using w(6) size by (auto simp: sizes_inv_def p fr it)
  have "handle_ok t fe" if "handle_ok s fe" for fe
    using that valid i by (auto simp: handle_ok_def vb p it)
  then show "handles_inv t" using w(7) by (simp add: handles_inv_def t)
qed

subsection \<open>The bytes of the data blocks\<close>

lemma inv_upd_data:
  assumes inv: "fs_inv s" and t: "t = s\<lparr>fs_data := m\<rparr>"
    and ok: "root_ok t"
    and ents: "\<And>e. e \<in> set (root_dents t) \<Longrightarrow> entry_ok s e"
    and lnk: "\<And>i. 0 < i \<Longrightarrow> i < INODE_TABLE_SIZE s \<Longrightarrow> freeinode_ts s ! i = TAKEN \<Longrightarrow>
      int (links t i) \<le> i_count (inode_table s ! i)"
  shows "fs_inv t"
proof
  note w = fs_invD [OF inv]
  show "tfs_wf t" using w(1) by (simp add: t)
  show "root_ok t" by (rule ok)
  show "entries_inv t" using ents by (simp add: entries_inv_def entry_ok_def t)
  show "links_inv t" using lnk by (simp add: links_inv_def t)
  have vb: "valid_block_number t x = valid_block_number s x" for x
    by (simp add: valid_block_number_def t)
  show "blocks_inv t" using w(5) by (simp add: blocks_inv_def holds_block_def vb) (simp add: t)
  show "sizes_inv t" using w(6) by (simp add: sizes_inv_def t)
  show "handles_inv t" using w(7) by (simp add: handles_inv_def handle_ok_def vb) (simp add: t)
qed

lemma links_update:
  assumes "k < MAX_DIR_ENTRIES s" and "root_dents t = (root_dents s)[k := e]"
  shows "links t i + of_bool (snd (root_dents s ! k) = int i) = links s i + of_bool (snd e = int i)"
  using count_list_update [of k "map snd (root_dents s)" "snd e" "int i"] assms
  by (simp add: links_def map_update)

text \<open>A new entry \<open>(v, d)\<close> in an unused slot, for an inode with a link count to spare.\<close>

lemma inv_put_entry:
  assumes inv: "fs_inv s" and k: "k < MAX_DIR_ENTRIES s" "snd (root_dents s ! k) = - 1"
    and v: "valid_name v" and d: "0 < d" "d < INODE_TABLE_SIZE s" "freeinode_ts s ! d = TAKEN"
    and c: "int (links s d) < i_count (inode_table s ! d)"
    and t: "t = s\<lparr>fs_data := put_dent (fs_data s) (root_base s) k v (int d)\<rparr>"
  shows "fs_inv t"
proof (rule inv_upd_data [OF inv t])
  note w = fs_invD [OF inv]
  have "int d < 2147483648" using d(2) wf_bounds(2) [OF w(1)] by linarith
  then have rd: "root_dents t = (root_dents s)[k := (v, int d)]"
    unfolding t using k(1) v by (intro root_dents_put) (simp_all add: is_int32_def)
  show "root_ok t" using w(2) v by (simp add: t root_ok_put)
  show "entry_ok s e" if "e \<in> set (root_dents t)" for e
  proof -
    from that rd have "e \<in> insert (v, int d) (set (root_dents s))"
      using set_update_subset_insert [of "root_dents s" k] by auto
    then show ?thesis
      using w(3) v d by (auto simp: entries_inv_def entry_ok_def valid_name_def)
  qed
  show "int (links t i) \<le> i_count (inode_table s ! i)"
    if "0 < i" "i < INODE_TABLE_SIZE s" "freeinode_ts s ! i = TAKEN" for i
    using links_update [OF k(1) rd, of i] k(2) c w(4) that
    by (auto simp: links_inv_def split: if_splits)
qed

text \<open>An entry is reset; the inode it named has one entry less.\<close>

lemma inv_wipe_entry:
  assumes inv: "fs_inv s" and k: "k < MAX_DIR_ENTRIES s"
    and t: "t = s\<lparr>fs_data := wipe_dent (fs_data s) (root_base s) k\<rparr>"
  shows "fs_inv t"
    and "0 \<le> snd (root_dents s ! k) \<Longrightarrow> links s (nat (snd (root_dents s ! k))) =
      Suc (links t (nat (snd (root_dents s ! k))))"
proof -
  note w = fs_invD [OF inv]
  have rd: "root_dents t = (root_dents s)[k := ([], - 1)]"
    unfolding t by (rule root_dents_wipe [OF k])
  note lu = links_update [OF k rd]
  show "fs_inv t"
  proof (rule inv_upd_data [OF inv t])
    show "root_ok t" using w(2) by (simp add: t root_ok_wipe)
    show "entry_ok s e" if "e \<in> set (root_dents t)" for e
    proof -
      from that rd have "e \<in> insert ([], - 1) (set (root_dents s))"
        using set_update_subset_insert [of "root_dents s" k] by auto
      then show ?thesis using w(3) by (auto simp: entries_inv_def entry_ok_def)
    qed
    show "int (links t i) \<le> i_count (inode_table s ! i)"
      if "0 < i" "i < INODE_TABLE_SIZE s" "freeinode_ts s ! i = TAKEN" for i
    proof -
      have "links t i \<le> links s i" using lu [of i] by simp
      moreover have "int (links s i) \<le> i_count (inode_table s ! i)"
        using w(4) that by (simp add: links_inv_def)
      ultimately show ?thesis by linarith
    qed
  qed
  show "links s (nat (snd (root_dents s ! k))) = Suc (links t (nat (snd (root_dents s ! k))))"
    if "0 \<le> snd (root_dents s ! k)"
    using lu [of "nat (snd (root_dents s ! k))"] that by simp
qed

text \<open>Bytes written inside a block other than the root's.\<close>

lemma inv_write_block:
  assumes inv: "fs_inv s" and b: "0 \<le> b" "b \<noteq> block_of s 0"
    and off: "off + length bs \<le> BLOCK_SIZE s"
    and t: "t = s\<lparr>fs_data := store (fs_data s) (nat b * BLOCK_SIZE s + off) bs\<rparr>"
  shows "fs_inv t" and "root_dents t = root_dents s"
proof -
  note w = fs_invD [OF inv]
  have "nat b \<noteq> nat (block_of s 0)"
    using b w(2) by (auto simp: root_ok_def valid_block_number_def)
  then have same: "fs_data t x = fs_data s x"
    if "root_base s \<le> x" "x < root_base s + BLOCK_SIZE s" for x
    using block_disjoint [of "nat (block_of s 0)" "nat b" "BLOCK_SIZE s" x] that off
    by (auto simp: t store_def root_base_def)
  show d: "root_dents t = root_dents s"
    by (rule root_dents_cong(2)) (use same in \<open>simp_all add: t\<close>)
  show "fs_inv t"
  proof (rule inv_upd_data [OF inv t])
    show "root_ok t"
      by (rule root_ok_frame [OF w(2)]) (use w(2) same in \<open>simp_all add: t root_ok_def\<close>)
    show "entry_ok s e" if "e \<in> set (root_dents t)" for e
      using w(3) that d by (simp add: entries_inv_def)
    show "int (links t i) \<le> i_count (inode_table s ! i)"
      if "0 < i" "i < INODE_TABLE_SIZE s" "freeinode_ts s ! i = TAKEN" for i
      using w(4) that d by (simp add: links_inv_def links_def)
  qed
qed

subsection \<open>The open file table\<close>

lemma inv_upd_open:
  assumes inv: "fs_inv s"
    and t: "t = s\<lparr>free_open_file_entries := fo, open_file_table := oft\<rparr>"
    and len: "length fo = MAX_OPEN_FILES s" "length oft = MAX_OPEN_FILES s"
    and ok: "\<And>h. h < MAX_OPEN_FILES s \<Longrightarrow> fo ! h = TAKEN \<Longrightarrow> handle_ok s (oft ! h)"
  shows "fs_inv t" and "root_dents t = root_dents s"
proof -
  note w = fs_invD [OF inv]
  show d: "root_dents t = root_dents s" by (rule root_dents_cong) (simp_all add: t)
  have vb: "valid_block_number t x = valid_block_number s x" for x
    by (simp add: valid_block_number_def t)
  show "fs_inv t"
  proof
    show "tfs_wf t" using w(1) len by (simp add: t tfs_wf_def)
    show "root_ok t"
      by (rule root_ok_frame [OF w(2)]) (use w(2) in \<open>simp_all add: t root_ok_def\<close>)
    show "entries_inv t" using w(3) by (simp add: entries_inv_def entry_ok_def d) (simp add: t)
    show "links_inv t" using w(4) by (simp add: links_inv_def links_def d) (simp add: t)
    show "blocks_inv t" using w(5) by (simp add: blocks_inv_def holds_block_def vb) (simp add: t)
    show "sizes_inv t" using w(6) by (simp add: sizes_inv_def t)
    show "handles_inv t" using ok by (simp add: handles_inv_def handle_ok_def vb) (simp add: t)
  qed
qed

end
