(* ===== verification/FS_Paths.thy ===== *)
theory FS_Paths
  imports FS_Operations FS_Invariant "HOL-Library.While_Combinator"
begin

text \<open>
  Path names and the resolution of symbolic links: \<open>valid_pathname\<close>, \<open>tfs_lookup\<close> and
  \<open>get_path_recursive\<close> as functions of the directory entries.  The recursion is the loop
  \<open>while (is a link) inumber = target\<close>, and returns exactly when the chain of links ends.
\<close>

section \<open>Idle file systems\<close>

text \<open>No lock is held (between two calls of the API).\<close>

definition idle :: "tfs_state \<Rightarrow> bool" where
  "idle s \<longleftrightarrow> (\<forall>l. locks s l = Unlocked)"

lemma idleD [simp]: "idle s \<Longrightarrow> locks s l = Unlocked"
  by (simp add: idle_def)

lemma idle_dir_ready: "fs_inv s \<Longrightarrow> idle s \<Longrightarrow> dir_ready s \<and> inode_ready s"
  by (simp add: fs_inv_def)

text \<open>The locks of one inode and one file held, the others free.\<close>

lemma ready_set_lock:
  "dir_ready s \<Longrightarrow> l \<noteq> L_data_table \<Longrightarrow> l \<noteq> L_dir_table \<Longrightarrow> dir_ready (set_lock l v s)"
  "inode_ready s \<Longrightarrow> l \<noteq> L_data_table \<Longrightarrow> l \<noteq> L_inode_table \<Longrightarrow> inode_ready (set_lock l v s)"
  by simp_all

section \<open>Path names\<close>

text \<open>The bytes of a C string argument: no terminator inside.\<close>

definition c_ok :: "cstr \<Rightarrow> bool" where
  "c_ok p \<longleftrightarrow> (case p of None \<Rightarrow> True | Some v \<Rightarrow> NUL \<notin> set v)"

text \<open>The entry a path name stands for: what follows its slash.\<close>

definition path_entry :: "cstr \<Rightarrow> string option" where
  "path_entry p =
     (case p of None \<Rightarrow> None
      | Some v \<Rightarrow> if 1 < length v \<and> hd v = CHR ''/'' then Some (tl v) else None)"

definition lookup :: "tfs_state \<Rightarrow> cstr \<Rightarrow> int" where
  "lookup s p = (case path_entry p of None \<Rightarrow> - 1 | Some v \<Rightarrow> dir_find (root_dents s) v)"

lemma valid_pathname_exec:
  "c_ok p \<Longrightarrow> valid_pathname p = Inr (path_entry p \<noteq> None)"
proof (cases p)
  case (Some v)
  assume "c_ok p"
  with Some have "c_strlen (v @ NUL # []) = Inr (length v)"
    by (intro c_strlen_term) (simp add: c_ok_def)
  then show ?thesis
    using Some by (cases v) (auto simp: valid_pathname_def path_entry_def)
qed (simp add: valid_pathname_def path_entry_def)

lemma path_entry_tail:
  "path_entry p = Some v \<Longrightarrow> tl (cmem p) = v @ [NUL]"
  by (cases "the p") (auto simp: path_entry_def split: option.splits if_splits)

lemma path_entry_nonempty: "path_entry p = Some v \<Longrightarrow> v \<noteq> []"
  by (cases "the p") (auto simp: path_entry_def split: option.splits if_splits)

lemma path_entry_no_NUL: "path_entry p = Some v \<Longrightarrow> c_ok p \<Longrightarrow> NUL \<notin> set v"
  by (cases "the p") (auto simp: path_entry_def c_ok_def split: option.splits if_splits)

lemma comparable_term [simp]: "comparable (v @ NUL # r)"
  by (simp add: comparable_def)

lemma tfs_lookup_exec:
  assumes "dir_ready s" and "c_ok p"
  shows "tfs_lookup p ROOT_DIR_INUM s = Inr (lookup s p, s)"
proof (cases "path_entry p")
  case None
  with assms show ?thesis
    by (simp add: tfs_lookup_def valid_pathname_exec exec_simps lookup_def)
next
  case (Some v)
  have "c_string (v @ [NUL]) = v" using path_entry_no_NUL [OF Some assms(2)] by simp
  with assms Some show ?thesis
    by (simp add: tfs_lookup_def valid_pathname_exec exec_simps lookup_def path_entry_tail
        find_in_dir_exec)
qed

lemma lookup_inode:
  assumes "entries_inv s" and "lookup s p \<noteq> - 1"
  shows "0 < lookup s p" and "lookup s p < int (INODE_TABLE_SIZE s)"
    and "freeinode_ts s ! nat (lookup s p) = TAKEN"
proof -
  from assms(2) obtain v where v: "path_entry p = Some v"
    by (auto simp: lookup_def split: option.splits)
  with assms(2) have "(v, lookup s p) \<in> set (root_dents s)"
    by (simp add: lookup_def dir_find_member)
  with assms show "0 < lookup s p" and "lookup s p < int (INODE_TABLE_SIZE s)"
    and "freeinode_ts s ! nat (lookup s p) = TAKEN"
    by (auto simp: entries_inv_def entry_ok_def)
qed

lemma lookup_set_lock [simp]: "lookup (set_lock l v s) p = lookup s p"
  by (simp add: lookup_def split: option.split)

section \<open>Symbolic links\<close>

definition is_link :: "tfs_state \<Rightarrow> int \<Rightarrow> bool" where
  "is_link s i \<longleftrightarrow> i \<noteq> - 1 \<and> i_node_type (inode_table s ! nat i) = T_SOFT_LINK"

text \<open>The inode a link leads to: the entry named by the text of its block, less the slash.\<close>

definition link_next :: "tfs_state \<Rightarrow> int \<Rightarrow> int" where
  "link_next s i =
     dir_find (root_dents s)
       (c_string (mem_from (Suc (nat (block_of s (nat i)) * BLOCK_SIZE s)) s))"

definition resolve :: "tfs_state \<Rightarrow> int \<Rightarrow> int option" where
  "resolve s i = while_option (is_link s) (link_next s) i"

definition used_inode :: "tfs_state \<Rightarrow> int \<Rightarrow> bool" where
  "used_inode s i \<longleftrightarrow>
     0 < i \<and> i < int (INODE_TABLE_SIZE s) \<and> freeinode_ts s ! nat i = TAKEN"

lemma dir_find_used:
  "entries_inv s \<Longrightarrow> dir_find (root_dents s) v = - 1 \<or> used_inode s (dir_find (root_dents s) v)"
proof (cases "dir_find (root_dents s) v = - 1")
  case False
  assume "entries_inv s"
  moreover have "(v, dir_find (root_dents s) v) \<in> set (root_dents s)"
    using False by (simp add: dir_find_member)
  ultimately have "entry_ok s (v, dir_find (root_dents s) v)" by (auto simp: entries_inv_def)
  with False show ?thesis by (simp add: entry_ok_def used_inode_def)
qed simp

lemma link_next_used: "entries_inv s \<Longrightarrow> link_next s i = - 1 \<or> used_inode s (link_next s i)"
  unfolding link_next_def by (rule dir_find_used)

lemma resolve_unfold:
  "resolve s i = (if is_link s i then resolve s (link_next s i) else Some i)"
  unfolding resolve_def by (subst while_option_unfold) simp

lemma resolve_result:
  assumes "entries_inv s" and "resolve s i = Some j" and "i = - 1 \<or> used_inode s i"
  shows "\<not> is_link s j" and "j = - 1 \<or> used_inode s j"
proof -
  show "\<not> is_link s j" using assms(2) unfolding resolve_def by (rule while_option_stop)
  have "(\<lambda>i. i = - 1 \<or> used_inode s i) j"
    by (rule while_option_rule [OF _ assms(2) [unfolded resolve_def]])
      (use assms link_next_used in auto)
  then show "j = - 1 \<or> used_inode s j" .
qed

abbreviation path_ready :: "tfs_state \<Rightarrow> bool" where
  "path_ready s \<equiv> dir_ready s \<and> inode_ready s \<and> fs_inv s"

lemma used_link_block:
  assumes "fs_inv s" and "used_inode s i" and "is_link s i"
  shows "holds_block s (nat i)" and "valid_block_number s (block_of s (nat i))"
proof -
  note w = fs_invD [OF assms(1)]
  have "nat i < INODE_TABLE_SIZE s" using assms(2) by (auto simp: used_inode_def)
  with assms w(6) show h: "holds_block s (nat i)"
    by (simp add: holds_block_def used_inode_def is_link_def sizes_inv_def)
  with w(5) show "valid_block_number s (block_of s (nat i))" by (simp add: blocks_inv_def)
qed

text \<open>One round of the recursion.\<close>

lemma get_path_step:
  assumes "path_ready s" and "used_inode s i"
  shows "call (inode_get i) read_inode s = Inr (inode_table s ! nat i, s)"
    and "is_link s i \<Longrightarrow> call (data_block_get (block_of s (nat i))) (\<lambda>a.
      call (inode_get ROOT_DIR_INUM) (\<lambda>root.
      call (gets (mem_from (Suc a))) (find_in_dir root))) s = Inr (link_next s i, s)"
proof -
  have wf: "tfs_wf s" using assms(1) by simp
  have v: "valid_inumber s i" "valid_inumber s ROOT_DIR_INUM"
    using assms by (auto simp: used_inode_def valid_inumber_def ROOT_DIR_INUM_def)
  then show "call (inode_get i) read_inode s = Inr (inode_table s ! nat i, s)"
    using assms by (simp add: inode_get_exec exec_simps valid_inumber_def wf_simps)
  assume l: "is_link s i"
  from assms l have "fs_inv s" "used_inode s i" "is_link s i" by simp_all
  then have b: "valid_block_number s (block_of s (nat i))" by (rule used_link_block(2))
  let ?a = "nat (block_of s (nat i)) * BLOCK_SIZE s"
  have "find_in_dir ROOT_DIR_INUM (mem_from (Suc ?a) s) s = Inr (link_next s i, s)"
  proof (cases "MAX_DIR_ENTRIES s = 0")
    case True
    then have "link_next s i = - 1" by (simp add: link_next_def root_dents_def dents_def)
    with True assms(1) show ?thesis by (simp add: find_in_dir_no_entries)
  next
    case False
    then have "44 \<le> BLOCK_SIZE s" by (simp add: MAX_DIR_ENTRIES_def)
    moreover have "?a + BLOCK_SIZE s \<le> fs_data_size s"
      using block_in_data [of "nat (block_of s (nat i))" s] b wf
      by (simp add: valid_block_number_def wf_simps nat_less_iff)
    ultimately have "40 \<le> fs_data_size s - Suc ?a" by linarith
    then have "comparable (mem_from (Suc ?a) s)"
      by (simp add: comparable_def mem_from_def)
    with assms(1) show ?thesis by (simp add: find_in_dir_exec link_next_def)
  qed
  then show "call (data_block_get (block_of s (nat i))) (\<lambda>a.
      call (inode_get ROOT_DIR_INUM) (\<lambda>root.
      call (gets (mem_from (Suc a))) (find_in_dir root))) s = Inr (link_next s i, s)"
    using assms b v by (simp add: data_block_get_exec inode_get_exec exec_simps)
qed

lemma get_path_loop_unfold:
  assumes "path_ready s" and "i = - 1 \<or> used_inode s i"
  shows "get_path_loop i s =
    (if is_link s i then get_path_loop (link_next s i) s else Some (Inr (i, s)))"
proof (cases "i = - 1")
  case True
  then show ?thesis by (subst get_path_loop.simps) (simp add: exec_simps is_link_def)
next
  case False
  with assms have u: "used_inode s i" by simp
  note st = get_path_step [OF assms(1) u]
  show ?thesis
    using False st by (subst get_path_loop.simps) (simp add: exec_simps is_link_def)
qed

lemma get_path_loop_Some:
  assumes "path_ready s" and "resolve s i = Some j" and "i = - 1 \<or> used_inode s i"
  shows "get_path_loop i s = Some (Inr (j, s))"
proof -
  let ?P = "\<lambda>k. (k = - 1 \<or> used_inode s k) \<and> get_path_loop i s = get_path_loop k s"
  have "?P j"
  proof (rule while_option_rule [where P = ?P, OF _ assms(2) [unfolded resolve_def]])
    show "?P i" using assms(3) by simp
    show "?P (link_next s k)" if "?P k" and "is_link s k" for k
      using that get_path_loop_unfold [OF assms(1), of k] link_next_used [of s k] assms(1)
      by (auto dest: fs_invD)
  qed
  moreover have "\<not> is_link s j"
    using assms(1,3) by (intro resolve_result(1) [OF _ assms(2)]) (auto dest: fs_invD)
  ultimately show ?thesis using get_path_loop_unfold [OF assms(1), of j] by simp
qed

text \<open>If the recursion returns, the chain of links ends: no fixpoint answers for a cycle.\<close>

lemma get_path_loop_returns:
  assumes "get_path_loop i s = Some r" and "path_ready s" and "i = - 1 \<or> used_inode s i"
  shows "\<exists>j. resolve s i = Some j"
proof -
  let ?P = "\<lambda>i t r. t = s \<longrightarrow> (i = - 1 \<or> used_inode s i) \<longrightarrow> (\<exists>j. resolve s i = Some j)"
  have "?P i s r"
  proof (rule get_path_loop.raw_induct [where P = ?P, OF _ assms(1)], intro impI)
    fix f i t r
    assume IH: "\<And>i t r. f i t = Some r \<Longrightarrow> ?P i t r" and ts: "t = s"
      and u: "i = - 1 \<or> used_inode s i"
      and eq: "(if i = - 1 then Some (ret (- 1) t)
        else case call (inode_get i) read_inode t of
            Inl e \<Rightarrow> Some (Inl e)
          | Inr (nd, s1) \<Rightarrow>
              if i_node_type nd \<noteq> T_SOFT_LINK then Some (ret i s1)
              else case call (data_block_get (i_data_block nd)) (\<lambda>a.
                     call (inode_get ROOT_DIR_INUM) (\<lambda>root.
                     call (gets (mem_from (Suc a))) (find_in_dir root))) s1 of
                  Inl e \<Rightarrow> Some (Inl e)
                | Inr (inum, s2) \<Rightarrow> f inum s2) = Some r"
    show "\<exists>j. resolve s i = Some j"
    proof (cases "is_link s i")
      case False
      then show ?thesis by (subst resolve_unfold) simp
    next
      case True
      with u have u': "used_inode s i" "i \<noteq> - 1" by (auto simp: is_link_def)
      have "f (link_next s i) s = Some r"
        using eq True u' get_path_step [OF assms(2) u'(1)] ts by (simp add: is_link_def)
      then have "?P (link_next s i) s r" by (rule IH)
      moreover have "entries_inv s" using assms(2) by (simp add: fs_inv_def)
      ultimately have "\<exists>j. resolve s (link_next s i) = Some j"
        using link_next_used [of s i] by simp
      with True show ?thesis by (subst resolve_unfold) simp
    qed
  qed
  with assms(3) show ?thesis by simp
qed

text \<open>The recursion is the loop over the links: same result, same divergence.\<close>

lemma get_path_recursive_exec:
  assumes "path_ready s" and "i = - 1 \<or> used_inode s i"
  shows "get_path_recursive i s =
    (case resolve s i of None \<Rightarrow> Inl Diverges | Some j \<Rightarrow> Inr (j, s))"
proof (cases "resolve s i")
  case (Some j)
  with get_path_loop_Some [OF assms(1) Some assms(2)] show ?thesis
    by (simp add: get_path_recursive_def)
next
  case None
  have "get_path_loop i s = None"
  proof (rule ccontr)
    assume "get_path_loop i s \<noteq> None"
    then obtain r where "get_path_loop i s = Some r" by blast
    from get_path_loop_returns [OF this assms] None show False by simp
  qed
  with None show ?thesis by (simp add: get_path_recursive_def)
qed

lemma resolve_set_lock [simp]: "resolve (set_lock l v s) i = resolve s i"
proof -
  have "is_link (set_lock l v s) = is_link s" and "link_next (set_lock l v s) = link_next s"
    by (auto simp: is_link_def link_next_def mem_from_def fun_eq_iff)
  then show ?thesis by (simp add: resolve_def)
qed

end
