(* ===== verification/FS_Api.thy ===== *)
theory FS_Api
  imports FS_Paths
begin

text \<open>
  Every function of the API on a state that satisfies the invariant and holds no lock: what it
  returns and the state it leaves, then that it keeps the invariant and releases every lock it
  took.
\<close>

section \<open>What the API functions share\<close>

lemma root_inumber_valid: "root_ok s \<Longrightarrow> valid_inumber s ROOT_DIR_INUM"
  by (simp add: root_ok_def valid_inumber_def ROOT_DIR_INUM_def)

lemma inode_get_root:
  "fs_inv s \<Longrightarrow> locks s L_inode_table = Unlocked \<Longrightarrow>
   inode_get ROOT_DIR_INUM s = Inr (ROOT_DIR_INUM, s)"
  by (simp add: inode_get_exec root_inumber_valid fs_inv_def)

lemma used_valid: "used_inode s i \<Longrightarrow> valid_inumber s i"
  by (simp add: used_inode_def valid_inumber_def)

lemma used_lock_exists: "tfs_wf s \<Longrightarrow> used_inode s i \<Longrightarrow> lock_exists s (L_inode i)"
  by (simp add: used_inode_def wf_simps)

lemma used_in_table: "tfs_wf s \<Longrightarrow> used_inode s i \<Longrightarrow> 0 \<le> i \<and> i < int (length (inode_table s))"
  by (simp add: used_inode_def wf_simps)

lemma lookup_used: "fs_inv s \<Longrightarrow> lookup s p \<noteq> - 1 \<Longrightarrow> used_inode s (lookup s p)"
  using lookup_inode [of s p] by (simp add: used_inode_def fs_inv_def)

lemma used_set_lock [simp]: "used_inode (set_lock l v s) i = used_inode s i"
  by (simp add: used_inode_def)

lemma idle_updates [simp]:
  "idle (s\<lparr>inode_table := x1\<rparr>) = idle s"
  "idle (s\<lparr>freeinode_ts := x2\<rparr>) = idle s"
  "idle (s\<lparr>fs_data := x3\<rparr>) = idle s"
  "idle (s\<lparr>free_blocks := x4\<rparr>) = idle s"
  "idle (s\<lparr>open_file_table := x5\<rparr>) = idle s"
  "idle (s\<lparr>free_open_file_entries := x6\<rparr>) = idle s"
  by (simp_all add: idle_def)

section \<open>Closing\<close>

lemma tfs_close_exec:
  assumes "fs_inv s" and "idle s"
  shows "tfs_close h s =
    (if is_open s h
     then Inr (0, s\<lparr>free_open_file_entries := (free_open_file_entries s)[nat h := FREE]\<rparr>)
     else Inr (- 1, s))"
proof -
  have wf: "tfs_wf s" using assms by (simp add: fs_inv_def)
  have rm: "remove_from_open_file_table h (set_lock (L_file h) WriteLocked s) =
      Inr ((), (set_lock (L_file h) WriteLocked s)
        \<lparr>free_open_file_entries := (free_open_file_entries s)[nat h := FREE]\<rparr>)" if "is_open s h"
    using remove_from_open_file_table_exec [of "set_lock (L_file h) WriteLocked s" "nat h"]
      assms wf that by (simp add: is_open_def valid_file_handle_def nat_less_iff)
  show ?thesis
    using assms wf rm
    by (simp add: tfs_close_def get_open_file_entry_exec exec_simps lock_simps is_open_def
        valid_file_handle_def wf_simps)
qed

lemma inv_close:
  assumes "fs_inv s"
  shows "fs_inv (s\<lparr>free_open_file_entries := (free_open_file_entries s)[h := FREE]\<rparr>)"
    and "root_dents (s\<lparr>free_open_file_entries := (free_open_file_entries s)[h := FREE]\<rparr>) = root_dents s"
proof -
  note w = fs_invD [OF assms]
  let ?fo = "(free_open_file_entries s)[h := FREE]"
  let ?t = "s\<lparr>free_open_file_entries := ?fo\<rparr>"
  have t: "?t = s\<lparr>free_open_file_entries := ?fo, open_file_table := open_file_table s\<rparr>" by simp
  have ok: "handle_ok s (open_file_table s ! j)" if "j < MAX_OPEN_FILES s" "?fo ! j = TAKEN" for j
    using w(7) that by (auto simp: handles_inv_def nth_update split: if_splits)
  have len: "length ?fo = MAX_OPEN_FILES s" "length (open_file_table s) = MAX_OPEN_FILES s"
    using w(1) by (simp_all add: wf_simps)
  show "fs_inv ?t" by (rule inv_upd_open(1) [OF assms t len ok])
  show "root_dents ?t = root_dents s" by (rule inv_upd_open(2) [OF assms t len ok])
qed

section \<open>Unlinking\<close>

definition unlinked :: "tfs_state \<Rightarrow> nat \<Rightarrow> nat \<Rightarrow> tfs_state" where
  "unlinked s i k =
     (let s1 = s\<lparr>fs_data := wipe_dent (fs_data s) (root_base s) k\<rparr> in
      if 1 < i_count (inode_table s ! i)
      then s1\<lparr>inode_table := (inode_table s)[i := (inode_table s ! i)
        \<lparr>i_count := i_count (inode_table s ! i) - 1\<rparr>]\<rparr>
      else s1\<lparr>freeinode_ts := (freeinode_ts s)[i := FREE], free_blocks := freed_blocks s i\<rparr>)"

lemma freed_blocks_fs_data [simp]: "freed_blocks (s\<lparr>fs_data := m\<rparr>) i = freed_blocks s i"
  by (simp add: freed_blocks_def)

lemma freed_blocks_set_lock [simp]: "freed_blocks (set_lock l v s) i = freed_blocks s i"
  by (simp add: freed_blocks_def)

lemma tfs_unlink_missing:
  assumes "fs_inv s" and "idle s" and "c_ok p" and "lookup s p = - 1"
  shows "tfs_unlink p s = Inr (- 1, s)"
  using assms idle_dir_ready [OF assms(1,2)]
  by (simp add: tfs_unlink_def inode_get_root exec_simps tfs_lookup_exec)

lemma tfs_unlink_exec:
  assumes inv: "fs_inv s" and "idle s" and "c_ok p" and found: "lookup s p \<noteq> - 1"
  shows "\<exists>v k. path_entry p = Some v \<and> first_index (\<lambda>e. fst e = v) (root_dents s) = Some k \<and>
    snd (root_dents s ! k) = lookup s p \<and>
    tfs_unlink p s = Inr (0, unlinked s (nat (lookup s p)) k)"
proof -
  note w = fs_invD [OF inv]
  from found obtain v where v: "path_entry p = Some v"
    by (auto simp: lookup_def split: option.splits)
  with found have fnd: "dir_find (root_dents s) v \<noteq> - 1" and i: "lookup s p = dir_find (root_dents s) v"
    by (simp_all add: lookup_def)
  from found_has_index [OF fnd] obtain k where
    k: "first_index (\<lambda>e. fst e = v) (root_dents s) = Some k" by blast
  have snd_k: "snd (root_dents s ! k) = lookup s p"
    using first_name_found [OF entries_clean [OF w(3)] path_entry_nonempty [OF v] k] i by simp
  define i where "i = lookup s p"
  have u: "used_inode s i" using lookup_used [OF inv found] by (simp add: i_def)
  define s1 where "s1 = set_lock (L_inode i) WriteLocked s"
  have rdy: "dir_ready s1" "inode_ready s1" "fs_inv s1"
    using idle_dir_ready [OF inv assms(2)] inv by (simp_all add: s1_def)
  have clear: "clear_dir_entry ROOT_DIR_INUM (v @ [NUL]) s1 =
      Inr (0, s1\<lparr>fs_data := wipe_dent (fs_data s) (root_base s) k\<rparr>)"
    using clear_dir_entry_exec [OF rdy(1) path_entry_no_NUL [OF v assms(3)], of "[]"] k
    by (simp add: s1_def)
  let ?s2 = "s1\<lparr>fs_data := wipe_dent (fs_data s) (root_base s) k\<rparr>"
  have del: "inode_delete i ?s2 = Inr ((), ?s2\<lparr>freeinode_ts := (freeinode_ts s)[nat i := FREE],
      free_blocks := freed_blocks s (nat i)\<rparr>)"
  proof -
    have "inode_delete (int (nat i)) ?s2 = Inr ((), ?s2\<lparr>
        freeinode_ts := (freeinode_ts ?s2)[nat i := FREE], free_blocks := freed_blocks ?s2 (nat i)\<rparr>)"
    proof (rule inode_delete_exec)
      show "valid_block_number ?s2 (i_data_block (inode_table ?s2 ! nat i))"
        if "0 < i_size (inode_table ?s2 ! nat i)"
        using that w(5) u
        by (auto simp: blocks_inv_def holds_block_def s1_def used_inode_def valid_block_number_def
            nat_less_iff)
    qed (use rdy u in \<open>auto simp: s1_def used_inode_def nat_less_iff\<close>)
    then show ?thesis using u by (simp add: used_inode_def s1_def)
  qed
  have "tfs_unlink p s = Inr (0, unlinked s (nat i) k)"
    using found u idle_dir_ready [OF inv assms(2)] w(1) inv assms(2,3) clear del
      used_valid [OF u] used_lock_exists [OF w(1) u] used_in_table [OF w(1) u]
    by (simp add: tfs_unlink_def inode_get_root inode_get_exec exec_simps tfs_lookup_exec
        lock_simps path_entry_tail [OF v] unlinked_def Let_def flip: i_def)
       (simp add: s1_def valid_inumber_def inode_get_exec exec_simps lock_simps)
  with v k snd_k show ?thesis by (auto simp: i_def)
qed

text \<open>A deleted inode takes its own block with it and no other one.\<close>

lemma freed_blocks_others:
  assumes "blocks_inv s" and "holds_block s j" and "j \<noteq> i"
    and "i < INODE_TABLE_SIZE s" and "freeinode_ts s ! i = TAKEN"
  shows "freed_blocks s i ! nat (block_of s j) = TAKEN"
proof (cases "0 < i_size (inode_table s ! i)")
  case True
  with assms have i: "holds_block s i" by (simp add: holds_block_def)
  with assms have "block_of s i \<noteq> block_of s j" "0 \<le> block_of s i" "0 \<le> block_of s j"
    by (auto simp: blocks_inv_def valid_block_number_def)
  then have "nat (block_of s i) \<noteq> nat (block_of s j)" by simp
  with True assms show ?thesis by (simp add: freed_blocks_def nth_update blocks_inv_def)
next
  case False
  with assms show ?thesis by (simp add: freed_blocks_def blocks_inv_def)
qed

lemma length_freed_blocks [simp]: "length (freed_blocks s i) = length (free_blocks s)"
  by (simp add: freed_blocks_def)

lemma inv_delete:
  assumes inv: "fs_inv s" and i: "0 < i" "i < INODE_TABLE_SIZE s" "freeinode_ts s ! i = TAKEN"
    and l: "links s i = 0"
    and t: "t = s\<lparr>freeinode_ts := (freeinode_ts s)[i := FREE], free_blocks := freed_blocks s i\<rparr>"
  shows "fs_inv t"
proof (rule inv_upd_inode [OF inv i(1,2), where st = FREE and fb = "freed_blocks s i"
      and nd = "inode_table s ! i"])
  note w = fs_invD [OF inv]
  show "t = s\<lparr>freeinode_ts := (freeinode_ts s)[i := FREE], free_blocks := freed_blocks s i,
      inode_table := (inode_table s)[i := inode_table s ! i]\<rparr>" by (simp add: t)
  show "length (freed_blocks s i) = DATA_BLOCKS s" using w(1) by (simp add: wf_simps)
  show "freed_blocks s i ! nat (block_of s j) = TAKEN" if "j \<noteq> i" "holds_block s j" for j
    using freed_blocks_others [OF w(5) that(2,1) i(2,3)] .
  show "valid_block_number s (block_of s i) \<and> block_of s i \<noteq> block_of s 0"
    if "0 < i_size (inode_table s ! i)"
  proof -
    have "holds_block s i" using that i by (simp add: holds_block_def)
    then show ?thesis using w(5) block_of_not_root [OF w(5,2)] i(1) by (auto simp: blocks_inv_def)
  qed
qed (use l in simp_all)

lemma inv_set_count:
  assumes inv: "fs_inv s" and i: "0 < i" "i < INODE_TABLE_SIZE s" "freeinode_ts s ! i = TAKEN"
    and c: "int (links s i) \<le> c"
    and t: "t = s\<lparr>inode_table := (inode_table s)[i := (inode_table s ! i)\<lparr>i_count := c\<rparr>]\<rparr>"
  shows "fs_inv t"
proof (rule inv_upd_inode [OF inv i(1,2), where st = TAKEN and fb = "free_blocks s"
      and nd = "(inode_table s ! i)\<lparr>i_count := c\<rparr>"])
  note w = fs_invD [OF inv]
  have h: "holds_block s i" if "0 < i_size (inode_table s ! i)"
    using that i by (simp add: holds_block_def)
  show "t = s\<lparr>freeinode_ts := (freeinode_ts s)[i := TAKEN], free_blocks := free_blocks s,
      inode_table := (inode_table s)[i := (inode_table s ! i)\<lparr>i_count := c\<rparr>]\<rparr>"
    using list_update_id [of "freeinode_ts s" i] i(3) by (simp add: t)
  show "length (free_blocks s) = DATA_BLOCKS s" using w(1) by (simp add: wf_simps)
  show "int (links s i) \<le> i_count ((inode_table s ! i)\<lparr>i_count := c\<rparr>)" using c by simp
  show "free_blocks s ! nat (block_of s j) = TAKEN" if "holds_block s j" for j
    using that w(5) by (simp add: blocks_inv_def)
  show "valid_block_number s (i_data_block ((inode_table s ! i)\<lparr>i_count := c\<rparr>)) \<and>
      i_data_block ((inode_table s ! i)\<lparr>i_count := c\<rparr>) \<noteq> block_of s 0"
    if "0 < i_size ((inode_table s ! i)\<lparr>i_count := c\<rparr>)"
    using that h block_of_not_root [OF w(5,2)] i(1) w(5) by (auto simp: blocks_inv_def)
  show "free_blocks s ! nat (i_data_block ((inode_table s ! i)\<lparr>i_count := c\<rparr>)) = TAKEN \<and>
      (\<forall>j. j \<noteq> i \<longrightarrow> holds_block s j \<longrightarrow>
        block_of s j \<noteq> i_data_block ((inode_table s ! i)\<lparr>i_count := c\<rparr>))"
    if "0 < i_size ((inode_table s ! i)\<lparr>i_count := c\<rparr>)"
    using that h w(5) by (auto simp: blocks_inv_def)
  show "i_size ((inode_table s ! i)\<lparr>i_count := c\<rparr>) \<le> BLOCK_SIZE s \<and>
      (i_node_type ((inode_table s ! i)\<lparr>i_count := c\<rparr>) = T_SOFT_LINK \<longrightarrow>
       0 < i_size ((inode_table s ! i)\<lparr>i_count := c\<rparr>))"
    using w(6) i by (simp add: sizes_inv_def)
qed simp

lemma inv_unlinked:
  assumes inv: "fs_inv s" and k: "k < MAX_DIR_ENTRIES s" "snd (root_dents s ! k) = int i"
    and i: "used_inode s (int i)"
  shows "fs_inv (unlinked s i k)"
proof -
  note w = fs_invD [OF inv]
  let ?s1 = "s\<lparr>fs_data := wipe_dent (fs_data s) (root_base s) k\<rparr>"
  have inv1: "fs_inv ?s1" by (rule inv_wipe_entry(1) [OF inv k(1) refl])
  have l1: "links s i = Suc (links ?s1 i)"
    using inv_wipe_entry(2) [OF inv k(1) refl] k(2) by simp
  have i': "0 < i" "i < INODE_TABLE_SIZE s" "freeinode_ts s ! i = TAKEN"
    using i by (simp_all add: used_inode_def)
  have c: "int (links s i) \<le> i_count (inode_table s ! i)"
    using w(4) i' by (simp add: links_inv_def)
  show ?thesis
  proof (cases "1 < i_count (inode_table s ! i)")
    case True
    show ?thesis
      by (rule inv_set_count [OF inv1, of i "i_count (inode_table s ! i) - 1"])
        (use True i' c l1 in \<open>simp_all add: unlinked_def\<close>)
  next
    case False
    show ?thesis
      by (rule inv_delete [OF inv1, of i]) (use False i' c l1 in \<open>simp_all add: unlinked_def\<close>)
  qed
qed

lemma tfs_unlink_inv:
  assumes "fs_inv s" and "idle s" and "c_ok p"
  shows "\<exists>r t. tfs_unlink p s = Inr (r, t) \<and> fs_inv t \<and> idle t"
proof (cases "lookup s p = - 1")
  case True
  with assms tfs_unlink_missing show ?thesis by blast
next
  case False
  from tfs_unlink_exec [OF assms False] obtain v k where
    k: "first_index (\<lambda>e. fst e = v) (root_dents s) = Some k" "snd (root_dents s ! k) = lookup s p"
    and ex: "tfs_unlink p s = Inr (0, unlinked s (nat (lookup s p)) k)" by blast
  have u: "used_inode s (lookup s p)" using assms(1) False by (rule lookup_used)
  then have "int (nat (lookup s p)) = lookup s p" by (simp add: used_inode_def)
  then have "fs_inv (unlinked s (nat (lookup s p)) k)"
    using assms(1) u k first_index_SomeD [OF k(1)] by (intro inv_unlinked) simp_all
  moreover have "idle (unlinked s (nat (lookup s p)) k)"
    using assms(2) by (simp add: unlinked_def Let_def)
  ultimately show ?thesis using ex by blast
qed

section \<open>Adding an entry for a link or a new file\<close>

text \<open>The first unused entry is filled; a full directory stays as it is.\<close>

definition entry_added :: "tfs_state \<Rightarrow> string \<Rightarrow> int \<Rightarrow> tfs_state" where
  "entry_added s v d =
     (case first_index (\<lambda>e. snd e = - 1) (root_dents s) of
        None \<Rightarrow> s
      | Some k \<Rightarrow> s\<lparr>fs_data := put_dent (fs_data s) (root_base s) k v d\<rparr>)"

lemma entry_added_idle [simp]: "idle (entry_added s v d) = idle s"
  by (simp add: entry_added_def split: option.split)

lemma inv_entry_added:
  assumes inv: "fs_inv s" and "valid_name v" and d: "used_inode s (int d)"
    and "int (links s d) < i_count (inode_table s ! d)"
  shows "fs_inv (entry_added s v (int d))"
proof (cases "first_index (\<lambda>e. snd e = - 1) (root_dents s)")
  case None
  with inv show ?thesis by (simp add: entry_added_def)
next
  case (Some k)
  with first_index_SomeD [OF Some] assms inv_put_entry [OF inv, of k v d] show ?thesis
    by (simp add: entry_added_def used_inode_def)
qed

text \<open>A link name: something before the name proper (the slash), which the code skips.\<close>

definition link_entry :: "cstr \<Rightarrow> string option" where
  "link_entry p = (case p of Some (c # v) \<Rightarrow> Some v | _ \<Rightarrow> None)"

lemma link_entry_tail: "link_entry p = Some v \<Longrightarrow> tl (cmem p) = v @ [NUL]"
  by (auto simp: link_entry_def split: option.splits list.splits)

lemma link_entry_no_NUL: "link_entry p = Some v \<Longrightarrow> c_ok p \<Longrightarrow> NUL \<notin> set v"
  by (auto simp: link_entry_def c_ok_def split: option.splits list.splits)

lemma link_entry_None: "link_entry p = None \<Longrightarrow> tl (cmem p) = []"
  by (auto simp: link_entry_def split: option.splits list.splits)

lemma path_is_link_entry: "path_entry p = Some v \<Longrightarrow> link_entry p = Some v"
  by (auto simp: path_entry_def link_entry_def split: option.splits list.splits if_splits)

definition link_added :: "tfs_state \<Rightarrow> string \<Rightarrow> int \<Rightarrow> tfs_state" where
  "link_added s v d = (if valid_name v then entry_added s v d else s)"

definition link_result :: "tfs_state \<Rightarrow> string \<Rightarrow> int" where
  "link_result s v =
     (if valid_name v \<and> - 1 \<in> snd ` set (root_dents s) then 0 else - 1)"

lemma add_link_exec:
  assumes "dir_ready s" and "NUL \<notin> set v"
  shows "add_dir_entry ROOT_DIR_INUM (v @ [NUL]) d s = Inr (link_result s v, link_added s v d)"
proof (cases "valid_name v")
  case False
  with add_dir_entry_invalid [OF assms False, of "[]"] show ?thesis
    by (simp add: link_result_def link_added_def)
next
  case True
  show ?thesis
  proof (cases "first_index (\<lambda>e. snd e = - 1) (root_dents s)")
    case None
    then have "- 1 \<notin> snd ` set (root_dents s)" by (auto simp: first_index_None)
    with True None add_dir_entry_exec [OF assms(1) True, of "[]" d] show ?thesis
      by (simp add: link_result_def link_added_def entry_added_def)
  next
    case (Some k)
    with first_index_SomeD [OF Some] have "- 1 \<in> snd ` set (root_dents s)"
      by (metis imageI length_root_dents nth_mem)
    with True Some add_dir_entry_exec [OF assms(1) True, of "[]" d] show ?thesis
      by (simp add: link_result_def link_added_def entry_added_def)
  qed
qed

lemma add_link_fault:
  assumes "dir_ready s"
  shows "add_dir_entry ROOT_DIR_INUM [] d s = Inl OutOfBounds"
  using assms by (simp add: add_dir_entry_def exec_simps lock_simps)

end
