(* ===== verification/FS_Links.thy ===== *)
theory FS_Links
  imports FS_Api
begin

text \<open>
  Hard and symbolic links.  Both functions ignore what \<open>add_dir_entry\<close> returns: when the name
  is not valid or the directory is full they still answer 0, and the count they raised or the
  inode they created stays behind without an entry.
\<close>

section \<open>Hard links\<close>

lemma used_inodeE:
  assumes "used_inode s d"
  obtains i where "d = int i" "0 < i" "i < INODE_TABLE_SIZE s" "freeinode_ts s ! i = TAKEN"
proof
  show "d = int (nat d)" "0 < nat d" "nat d < INODE_TABLE_SIZE s" "freeinode_ts s ! nat d = TAKEN"
    using assms by (simp_all add: used_inode_def nat_less_iff)
qed

definition counted :: "tfs_state \<Rightarrow> nat \<Rightarrow> tfs_state" where
  "counted s i = s\<lparr>inode_table := (inode_table s)[i := (inode_table s ! i)
     \<lparr>i_count := i_count (inode_table s ! i) + 1\<rparr>]\<rparr>"

lemma tfs_link_missing:
  assumes "fs_inv s" and "idle s" and "c_ok p" and "lookup s p = - 1"
  shows "tfs_link p q s = Inr (- 1, s)"
  using assms idle_dir_ready [OF assms(1,2)]
  by (simp add: tfs_link_def inode_get_root exec_simps tfs_lookup_exec)

lemma inv_counted:
  assumes inv: "fs_inv s" and u: "used_inode s (int i)"
  shows "fs_inv (counted s i)"
proof (rule inv_set_count [OF inv])
  show "0 < i" and "i < INODE_TABLE_SIZE s" and "freeinode_ts s ! i = TAKEN"
    using u by (simp_all add: used_inode_def)
  then have "int (links s i) \<le> i_count (inode_table s ! i)"
    using fs_invD(4) [OF inv] by (simp add: links_inv_def)
  then show "int (links s i) \<le> i_count (inode_table s ! i) + 1" by simp
qed (simp add: counted_def)

lemma tfs_link_soft:
  assumes inv: "fs_inv s" and "idle s" and "c_ok p" and found: "lookup s p \<noteq> - 1"
    and soft: "is_link s (lookup s p)"
  shows "tfs_link p q s = Inr (- 1, s)"
proof -
  have u: "used_inode s (lookup s p)" using inv found by (rule lookup_used)
  show ?thesis
    using assms u idle_dir_ready [OF inv assms(2)] fs_invD(1) [OF inv]
      used_valid [OF u] used_lock_exists [OF _ u] used_in_table [OF _ u]
    by (simp add: tfs_link_def inode_get_root inode_get_exec exec_simps tfs_lookup_exec
        lock_simps is_link_def valid_inumber_def)
qed

lemma set_lock_entry_added [simp]:
  "set_lock l w (entry_added s v d) = entry_added (set_lock l w s) v d"
  by (simp add: entry_added_def split: option.split)

lemma set_lock_link_added [simp]:
  "set_lock l w (link_added s v d) = link_added (set_lock l w s) v d"
  by (simp add: link_added_def)

lemma set_lock_counted [simp]: "set_lock l w (counted s i) = counted (set_lock l w s) i"
  by (simp add: counted_def)

lemma counted_fields [simp]:
  "locks (counted s i) = locks s"
  "fs_params (counted s i) = fs_params s"
  "fs_data (counted s i) = fs_data s"
  "freeinode_ts (counted s i) = freeinode_ts s"
  "lock_inode_len (counted s i) = lock_inode_len s"
  "lock_file_len (counted s i) = lock_file_len s"
  "fs_data_size (counted s i) = fs_data_size s"
  "lock_exists (counted s i) l = lock_exists s l"
  "idle (counted s i) = idle s"
  by (simp_all add: counted_def)

lemma entry_added_fields [simp]:
  "locks (entry_added s v d) = locks s"
  "inode_table (entry_added s v d) = inode_table s"
  "freeinode_ts (entry_added s v d) = freeinode_ts s"
  "free_blocks (entry_added s v d) = free_blocks s"
  "open_file_table (entry_added s v d) = open_file_table s"
  "free_open_file_entries (entry_added s v d) = free_open_file_entries s"
  "fs_params (entry_added s v d) = fs_params s"
  "lock_inode_len (entry_added s v d) = lock_inode_len s"
  "lock_file_len (entry_added s v d) = lock_file_len s"
  "fs_data_size (entry_added s v d) = fs_data_size s"
  "lock_exists (entry_added s v d) l = lock_exists s l"
  by (simp_all add: entry_added_def split: option.split)

lemma link_added_fields [simp]:
  "locks (link_added s v d) = locks s"
  "inode_table (link_added s v d) = inode_table s"
  "freeinode_ts (link_added s v d) = freeinode_ts s"
  "free_blocks (link_added s v d) = free_blocks s"
  "open_file_table (link_added s v d) = open_file_table s"
  "free_open_file_entries (link_added s v d) = free_open_file_entries s"
  "fs_params (link_added s v d) = fs_params s"
  "lock_inode_len (link_added s v d) = lock_inode_len s"
  "lock_file_len (link_added s v d) = lock_file_len s"
  "fs_data_size (link_added s v d) = fs_data_size s"
  "lock_exists (link_added s v d) l = lock_exists s l"
  "idle (link_added s v d) = idle s"
  by (simp_all add: link_added_def)

lemma tfs_link_exec:
  assumes inv: "fs_inv s" and "idle s" and "c_ok p" and found: "lookup s p \<noteq> - 1"
    and hard: "\<not> is_link s (lookup s p)"
    and cnt: "i_count (inode_table s ! nat (lookup s p)) < 2147483647"
    and q: "c_ok q" "link_entry q = Some v"
  shows "tfs_link p q s =
    Inr (0, link_added (counted s (nat (lookup s p))) v (lookup s p))"
proof -
  define i where "i = lookup s p"
  have u: "used_inode s i" using lookup_used [OF inv found] by (simp add: i_def)
  have wf: "tfs_wf s" using inv by (rule fs_invD)
  let ?s1 = "set_lock (L_inode i) WriteLocked s"
  have inv1: "fs_inv (counted ?s1 (nat i))"
    by (rule inv_counted) (use inv u in \<open>simp_all add: used_inode_def\<close>)
  have rdy: "dir_ready (counted ?s1 (nat i))"
    using fs_invD(1,2) [OF inv1] assms(2) by simp
  have add: "add_dir_entry ROOT_DIR_INUM (v @ [NUL]) i (counted ?s1 (nat i)) =
      Inr (link_result (counted ?s1 (nat i)) v, link_added (counted ?s1 (nat i)) v i)"
    using rdy link_entry_no_NUL [OF q(2,1)] by (rule add_link_exec)
  have cs: "?s1\<lparr>inode_table := (inode_table s)[nat i := (inode_table s ! nat i)
      \<lparr>i_count := i_count (inode_table s ! nat i) + 1\<rparr>]\<rparr> = counted ?s1 (nat i)"
    by (simp add: counted_def)
  have ty: "i_node_type (inode_table s ! nat i) \<noteq> T_SOFT_LINK"
    using hard found by (simp add: is_link_def i_def)
  have sc: "int_succ (i_count (inode_table s ! nat i)) =
      Inr (i_count (inode_table s ! nat i) + 1)"
    using cnt by (simp add: int_succ_def i_def)
  have "tfs_link p q s = Inr (0, link_added (counted s (nat i)) v i)"
    using assms(2,3) found u idle_dir_ready [OF inv assms(2)] wf ty sc add cs inv
      used_valid [OF u] used_lock_exists [OF wf u] used_in_table [OF wf u] link_entry_tail [OF q(2)]
    by (simp add: tfs_link_def inode_get_root inode_get_exec exec_simps tfs_lookup_exec
        lock_simps valid_inumber_def i_def [symmetric])
  then show ?thesis by (simp add: i_def)
qed

lemma inv_link_added:
  assumes "fs_inv s" and "used_inode s (int d)"
    and "int (links s d) < i_count (inode_table s ! d)"
  shows "fs_inv (link_added s v (int d))"
proof (cases "valid_name v")
  case True
  have "fs_inv (entry_added s v (int d))" by (rule inv_entry_added [OF assms(1) True assms(2,3)])
  with True show ?thesis by (simp only: link_added_def if_True)
next
  case False
  with assms(1) show ?thesis by (simp only: link_added_def if_False)
qed

lemma inv_linked:
  assumes inv: "fs_inv s" and u: "used_inode s (int i)"
  shows "fs_inv (link_added (counted s i) v (int i))"
proof (rule inv_link_added [OF inv_counted [OF assms]])
  from u have i: "0 < i" "i < INODE_TABLE_SIZE s" "freeinode_ts s ! i = TAKEN"
    by (simp_all add: used_inode_def)
  then show "used_inode (counted s i) (int i)" by (simp add: used_inode_def)
  have "int (links s i) \<le> i_count (inode_table s ! i)"
    using fs_invD(4) [OF inv] i by (simp add: links_inv_def)
  moreover have "links (counted s i) i = links s i"
    using i root_dents_cong(2) [of "counted s i" s] by (simp add: links_def counted_def)
  moreover have "i < length (inode_table s)" using fs_invD(1) [OF inv] i(2) by (simp add: wf_simps)
  ultimately show "int (links (counted s i) i) < i_count (inode_table (counted s i) ! i)"
    by (simp add: counted_def)
qed

lemma tfs_link_inv:
  assumes inv: "fs_inv s" and idle: "idle s" and ok: "c_ok p" "c_ok q" "link_entry q \<noteq> None"
    and cnt: "\<And>i. i < INODE_TABLE_SIZE s \<Longrightarrow> i_count (inode_table s ! i) < 2147483647"
  shows "\<exists>r t. tfs_link p q s = Inr (r, t) \<and> fs_inv t \<and> idle t"
proof (cases "lookup s p = - 1 \<or> is_link s (lookup s p)")
  case True
  then have "tfs_link p q s = Inr (- 1, s)"
    using tfs_link_missing [OF inv idle ok(1)] tfs_link_soft [OF inv idle ok(1)]
    by (cases "lookup s p = - 1") simp_all
  with inv idle show ?thesis by simp
next
  case False
  from ok obtain v where v: "link_entry q = Some v" by blast
  have u: "used_inode s (lookup s p)" using inv False by (intro lookup_used) simp_all
  then obtain i where i: "lookup s p = int i" "0 < i" "i < INODE_TABLE_SIZE s"
      "freeinode_ts s ! i = TAKEN" by (rule used_inodeE)
  have ex: "tfs_link p q s = Inr (0, link_added (counted s i) v (int i))"
    using tfs_link_exec [OF inv idle ok(1) _ _ _ ok(2) v] False i cnt [OF i(3)] by simp
  have "fs_inv (link_added (counted s i) v (int i))" using inv u i(1) by (intro inv_linked) simp_all
  with ex idle show ?thesis by simp
qed

section \<open>Fresh inodes and blocks\<close>

lemma fresh_inode:
  assumes "fs_inv s" and "first_free (freeinode_ts s) = Some i"
  shows "0 < i" and "i < INODE_TABLE_SIZE s" and "freeinode_ts s ! i = FREE" and "links s i = 0"
proof -
  note w = fs_invD [OF assms(1)]
  show f: "freeinode_ts s ! i = FREE" and "i < INODE_TABLE_SIZE s"
    using first_free_Some [OF assms(2)] w(1) by (simp_all add: wf_simps)
  show "0 < i" using inv_inode_nonroot [OF w(2) f] by simp
  show "links s i = 0" using w(3) f by (rule links_zero)
qed

lemma fresh_block:
  assumes "fs_inv s" and "first_free (free_blocks s) = Some b"
  shows "valid_block_number s (int b)" and "b < length (free_blocks s)" and "int b \<noteq> block_of s 0"
    and "holds_block s j \<Longrightarrow> block_of s j \<noteq> int b"
    and "holds_block s j \<Longrightarrow> (free_blocks s)[b := TAKEN] ! nat (block_of s j) = TAKEN"
proof -
  note w = fs_invD [OF assms(1)]
  have b: "b < length (free_blocks s)" "free_blocks s ! b = FREE"
    using first_free_Some [OF assms(2)] by simp_all
  then show "b < length (free_blocks s)" "valid_block_number s (int b)"
    using w(1) by (simp_all add: valid_block_number_def wf_simps)
  show t: "(free_blocks s)[b := TAKEN] ! nat (block_of s j) = TAKEN" if "holds_block s j" for j
    using that w(5) by (simp add: blocks_inv_def nth_update)
  show n: "block_of s j \<noteq> int b" if "holds_block s j" for j
  proof
    assume "block_of s j = int b"
    with that w(5) have "free_blocks s ! nat (int b) = TAKEN" by (metis blocks_inv_def)
    with b(2) show False by simp
  qed
  show "int b \<noteq> block_of s 0" using n [OF holds_root [OF w(2)]] by simp
qed

section \<open>Symbolic links\<close>

text \<open>The inode and the block of a new link, which holds the path of its target.\<close>

definition sym_created :: "tfs_state \<Rightarrow> nat \<Rightarrow> nat \<Rightarrow> string \<Rightarrow> tfs_state" where
  "sym_created s i b path =
     s\<lparr>freeinode_ts := (freeinode_ts s)[i := TAKEN], free_blocks := (free_blocks s)[b := TAKEN],
       inode_table := (inode_table s)[i := (inode_table s ! i)
         \<lparr>i_node_type := T_SOFT_LINK, i_count := 1, i_size := 40, i_data_block := int b\<rparr>],
       fs_data := store (fs_data s) (b * BLOCK_SIZE s) (path @ [NUL])\<rparr>"

text \<open>What is left of a link for which there is no block: a free inode with other contents.\<close>

definition sym_failed :: "tfs_state \<Rightarrow> nat \<Rightarrow> tfs_state" where
  "sym_failed s i = s\<lparr>freeinode_ts := (freeinode_ts s)[i := FREE],
     inode_table := (inode_table s)[i := (inode_table s ! i)
       \<lparr>i_node_type := T_SOFT_LINK, i_size := 0, i_data_block := - 1\<rparr>]\<rparr>"

lemma set_lock_sym [simp]:
  "set_lock l w (sym_created s i b path) = sym_created (set_lock l w s) i b path"
  "set_lock l w (sym_failed s i) = sym_failed (set_lock l w s) i"
  by (simp_all add: sym_created_def sym_failed_def)

lemma sym_fields [simp]:
  "locks (sym_created s i b path) = locks s"
  "locks (sym_failed s i) = locks s"
  "fs_params (sym_created s i b path) = fs_params s"
  "lock_inode_len (sym_created s i b path) = lock_inode_len s"
  "idle (sym_created s i b path) = idle s"
  "idle (sym_failed s i) = idle s"
  by (simp_all add: sym_created_def sym_failed_def)

lemma inv_sym_failed:
  assumes inv: "fs_inv s" and i: "first_free (freeinode_ts s) = Some i"
  shows "fs_inv (sym_failed s i)"
proof (rule inv_upd_inode [OF inv fresh_inode(1,2) [OF inv i]])
  note w = fs_invD [OF inv]
  show "sym_failed s i = s\<lparr>freeinode_ts := (freeinode_ts s)[i := FREE],
      free_blocks := free_blocks s, inode_table := (inode_table s)[i := (inode_table s ! i)
       \<lparr>i_node_type := T_SOFT_LINK, i_size := 0, i_data_block := - 1\<rparr>]\<rparr>"
    by (simp add: sym_failed_def)
  show "length (free_blocks s) = DATA_BLOCKS s" using w(1) by (simp add: wf_simps)
  show "links s i = 0" by (rule fresh_inode(4) [OF inv i])
  show "free_blocks s ! nat (block_of s j) = TAKEN" if "holds_block s j" for j
    using that w(5) by (simp add: blocks_inv_def)
qed simp_all

lemma inv_sym_created:
  assumes inv: "fs_inv s" and i: "first_free (freeinode_ts s) = Some i"
    and b: "first_free (free_blocks s) = Some b"
    and B: "44 \<le> BLOCK_SIZE s" and len: "length path \<le> 40"
  shows "fs_inv (sym_created s i b path)"
    and "root_dents (sym_created s i b path) = root_dents s"
proof -
  note w = fs_invD [OF inv] and fi = fresh_inode [OF inv i] and fb = fresh_block [OF inv b]
  let ?nd = "(inode_table s ! i)
    \<lparr>i_node_type := T_SOFT_LINK, i_count := 1, i_size := 40, i_data_block := int b\<rparr>"
  let ?s1 = "s\<lparr>freeinode_ts := (freeinode_ts s)[i := TAKEN],
    free_blocks := (free_blocks s)[b := TAKEN], inode_table := (inode_table s)[i := ?nd]\<rparr>"
  have inv1: "fs_inv ?s1"
  proof (rule inv_upd_inode [OF inv fi(1,2) refl])
    show "length ((free_blocks s)[b := TAKEN]) = DATA_BLOCKS s" using w(1) by (simp add: wf_simps)
    show "(free_blocks s)[b := TAKEN] ! nat (block_of s j) = TAKEN" if "holds_block s j" for j
      using that by (rule fb(5))
    show "(free_blocks s)[b := TAKEN] ! nat (i_data_block ?nd) = TAKEN \<and>
        (\<forall>j. j \<noteq> i \<longrightarrow> holds_block s j \<longrightarrow> block_of s j \<noteq> i_data_block ?nd)"
      using fb(2,4) by simp
    show "i_size ?nd \<le> BLOCK_SIZE s \<and> (i_node_type ?nd = T_SOFT_LINK \<longrightarrow> 0 < i_size ?nd)"
      using B by simp
    show "valid_block_number s (i_data_block ?nd) \<and> i_data_block ?nd \<noteq> block_of s 0"
      using fb(1,3) by simp
    show "int (links s i) \<le> i_count ?nd" using fi(4) by simp
  qed simp
  have t: "sym_created s i b path = ?s1\<lparr>fs_data :=
      store (fs_data ?s1) (nat (int b) * BLOCK_SIZE ?s1 + 0) (path @ [NUL])\<rparr>"
    by (simp add: sym_created_def)
  have off: "0 + length (path @ [NUL]) \<le> BLOCK_SIZE ?s1" using B len by simp
  have nb: "int b \<noteq> block_of ?s1 0" using fb(3) fi(1) by simp
  show "fs_inv (sym_created s i b path)"
    by (rule inv_write_block(1) [OF inv1 _ nb off t]) simp
  have "root_dents (sym_created s i b path) = root_dents ?s1"
    by (rule inv_write_block(2) [OF inv1 _ nb off t]) simp
  also have "\<dots> = root_dents s"
    by (rule root_dents_cong(2)) (use fi(1) in simp_all)
  finally show "root_dents (sym_created s i b path) = root_dents s" .
qed

lemma tfs_sym_link_missing:
  assumes "fs_inv s" and "idle s" and "c_ok p" and "lookup s p = - 1"
  shows "tfs_sym_link p q s = Inr (- 1, s)"
  using assms idle_dir_ready [OF assms(1,2)]
  by (simp add: tfs_sym_link_def inode_get_root exec_simps tfs_lookup_exec)

lemma tfs_sym_link_no_space:
  assumes inv: "fs_inv s" and "idle s" and "c_ok p" and found: "lookup s p \<noteq> - 1"
  shows "first_free (freeinode_ts s) = None \<Longrightarrow> tfs_sym_link p q s = Inr (- 1, s)"
    and "first_free (freeinode_ts s) = Some i \<Longrightarrow> first_free (free_blocks s) = None \<Longrightarrow>
      tfs_sym_link p q s = Inr (- 1, sym_failed s i)"
proof -
  have u: "used_inode s (lookup s p)" using inv found by (rule lookup_used)
  have wf: "tfs_wf s" using inv by (rule fs_invD)
  define s1 where "s1 = set_lock (L_inode (lookup s p)) (ReadLocked 1) s"
  have rdy: "inode_ready s1" using wf assms(2) by (simp add: s1_def)
  note cr = inode_create_soft_link_exec [OF rdy]
  show "tfs_sym_link p q s = Inr (- 1, s)" if "first_free (freeinode_ts s) = None"
    using assms that u idle_dir_ready [OF inv assms(2)] used_lock_exists [OF wf u] cr
    by (simp add: tfs_sym_link_def inode_get_root exec_simps tfs_lookup_exec lock_simps s1_def)
  show "tfs_sym_link p q s = Inr (- 1, sym_failed s i)"
    if "first_free (freeinode_ts s) = Some i" "first_free (free_blocks s) = None"
    using assms that u idle_dir_ready [OF inv assms(2)] used_lock_exists [OF wf u] cr
    by (simp add: tfs_sym_link_def inode_get_root exec_simps tfs_lookup_exec lock_simps s1_def
        sym_failed_def)
qed

text \<open>The path of a file that exists fits the block of the link.\<close>

lemma found_path_fits:
  assumes inv: "fs_inv s" and "lookup s p \<noteq> - 1"
  obtains path where "p = Some path" "length path \<le> 40" "44 \<le> BLOCK_SIZE s"
proof -
  from assms(2) obtain path where p: "p = Some path" "1 < length path"
      "dir_find (root_dents s) (tl path) \<noteq> - 1"
    by (auto simp: lookup_def path_entry_def split: option.splits if_splits)
  from found_has_index [OF p(3)] obtain k where
    k: "first_index (\<lambda>e. fst e = tl path) (root_dents s) = Some k" by blast
  from first_index_SomeD [OF k] have n: "k < MAX_DIR_ENTRIES s" "fst (root_dents s ! k) = tl path"
    by simp_all
  then have "NUL \<in> set (TFS_Prelude.slice (fs_data s) (d_name_addr (root_base s) k) 40)"
    using fs_invD(2) [OF inv] by (simp add: root_ok_def terminated_def)
  from dent_name_short [OF this] n have "length (tl path) < 40"
    by (simp add: root_dents_def)
  then have "length path \<le> 40" by simp
  moreover have "0 < MAX_DIR_ENTRIES s" using n(1) by simp
  then have "44 \<le> BLOCK_SIZE s"
    by (cases "BLOCK_SIZE s < 44") (simp_all add: MAX_DIR_ENTRIES_def)
  ultimately show ?thesis using p(1) that by blast
qed

lemma tfs_sym_link_exec:
  assumes inv: "fs_inv s" and idle: "idle s" and p: "c_ok p" "lookup s p \<noteq> - 1" "p = Some path"
    and i: "first_free (freeinode_ts s) = Some i" and b: "first_free (free_blocks s) = Some b"
    and q: "c_ok q" "link_entry q = Some v"
  shows "tfs_sym_link p q s = Inr (0, link_added (sym_created s i b path) v (int i))"
proof -
  define d where "d = lookup s p"
  have wf: "tfs_wf s" using inv by (rule fs_invD)
  have u: "used_inode s d" using lookup_used [OF inv p(2)] by (simp add: d_def)
  note fi = fresh_inode [OF inv i] and fb = fresh_block [OF inv b]
  have ne: "d \<noteq> int i" using u fi(3) by (auto simp: used_inode_def)
  define s1 where "s1 = set_lock (L_inode d) (ReadLocked 1) s"
  define s2 where "s2 = s1\<lparr>freeinode_ts := (freeinode_ts s)[i := TAKEN],
    free_blocks := (free_blocks s)[b := TAKEN],
    inode_table := (inode_table s)[i := (inode_table s ! i)
      \<lparr>i_node_type := T_SOFT_LINK, i_count := 1, i_size := 40, i_data_block := int b\<rparr>]\<rparr>"
  define s3 where "s3 = set_lock (L_inode (int i)) WriteLocked s2"
  define s4 where "s4 = set_lock (L_inode (int i)) WriteLocked (sym_created s1 i b path)"
  from found_path_fits [OF inv p(2)] p(3) have len: "length path \<le> 40" "44 \<le> BLOCK_SIZE s"
    by auto
  have inv1: "fs_inv s1" using inv by (simp add: s1_def)
  have "fs_inv (sym_created s1 i b path)"
    by (rule inv_sym_created(1) [OF inv1]) (use i b len in \<open>simp_all add: s1_def\<close>)
  then have inv4: "fs_inv s4" by (simp add: s4_def del: set_lock_sym)
  have rdy4: "dir_ready s4" using fs_invD(1,2) [OF inv4] idle by (simp add: s4_def s1_def)
  have create: "inode_create T_SOFT_LINK s1 = Inr (int i, s2)"
    using inode_create_soft_link_exec [of s1] wf idle i b by (simp add: s1_def s2_def)
  have wf3: "tfs_wf s3" using wf by (simp add: s3_def s2_def s1_def tfs_wf_def)
  have it: "i < length (inode_table s)" using fi(2) wf by (simp add: wf_simps)
  have lock: "my_w_lock (L_inode (int i)) s2 = Inr ((), s3)"
    using ne idle fi(2) wf by (simp add: lock_simps s3_def s2_def s1_def wf_simps)
  have get: "inode_get (int i) s3 = Inr (int i, s3)"
    by (rule inode_get_exec [OF wf3])
      (use idle fi(2) in \<open>simp_all add: s3_def s2_def s1_def valid_inumber_def\<close>)
  have nd: "read_inode (int i) s3 = Inr ((inode_table s ! i)
      \<lparr>i_node_type := T_SOFT_LINK, i_count := 1, i_size := 40, i_data_block := int b\<rparr>, s3)"
    using it by (simp add: exec_simps s3_def s2_def)
  have blk: "data_block_get (int b) s3 = Inr (b * BLOCK_SIZE s, s3)"
    using data_block_get_exec [of s3 "int b"] wf3 idle fb(1)
    by (simp add: s3_def s2_def s1_def valid_block_number_def)
  have "c_strcpy (cmem p) = Inr (path @ [NUL])"
    using p c_strcpy_term [of path "[]"] by (simp add: c_ok_def)
  moreover have "b * BLOCK_SIZE s + BLOCK_SIZE s \<le> fs_data_size s"
    using block_in_data [of b s] fb(1) wf by (simp add: wf_simps valid_block_number_def)
  then have "mem_write (b * BLOCK_SIZE s) (path @ [NUL]) s3 = Inr ((), s4)"
    using len by (simp add: exec_simps s4_def s3_def s2_def s1_def sym_created_def)
  moreover have "add_dir_entry ROOT_DIR_INUM (v @ [NUL]) (int i) s4 =
      Inr (link_result s4 v, link_added s4 v (int i))"
    using rdy4 link_entry_no_NUL [OF q(2,1)] by (rule add_link_exec)
  moreover have "my_unlock (L_inode d) (link_added s4 v (int i)) =
      Inr ((), set_lock (L_inode d) Unlocked (link_added s4 v (int i)))"
    using ne used_lock_exists [OF wf u] by (simp add: lock_simps s4_def s1_def sym_created_def)
  moreover have "my_unlock (L_inode (int i)) (set_lock (L_inode d) Unlocked (link_added s4 v (int i))) =
      Inr ((), link_added (sym_created s i b path) v (int i))"
    using ne idle fi(2) wf
    by (simp add: lock_simps s4_def s1_def wf_simps set_lock_commute [of "L_inode d"])
  moreover have "my_r_lock (L_inode d) s = Inr ((), s1)"
    using used_lock_exists [OF wf u] idle by (simp add: lock_simps s1_def)
  ultimately show ?thesis
    using p(1,2) inv idle idle_dir_ready [OF inv idle] link_entry_tail [OF q(2)] create lock get
      nd blk
    by (simp add: tfs_sym_link_def inode_get_root exec_simps tfs_lookup_exec d_def [symmetric])
qed

lemma sym_created_entry_room:
  assumes inv: "fs_inv s" and i: "first_free (freeinode_ts s) = Some i"
    and "root_dents (sym_created s i b path) = root_dents s"
  shows "used_inode (sym_created s i b path) (int i)"
    and "int (links (sym_created s i b path) i) < i_count (inode_table (sym_created s i b path) ! i)"
proof -
  note fi = fresh_inode [OF inv i]
  have "i < length (inode_table s)" "i < length (freeinode_ts s)"
    using fi(2) fs_invD(1) [OF inv] by (simp_all add: wf_simps)
  then show "used_inode (sym_created s i b path) (int i)"
    and "int (links (sym_created s i b path) i) < i_count (inode_table (sym_created s i b path) ! i)"
    using fi assms(3) by (simp_all add: used_inode_def links_def) (simp_all add: sym_created_def)
qed

lemma tfs_sym_link_inv:
  assumes inv: "fs_inv s" and idle: "idle s" and ok: "c_ok p" "c_ok q" "link_entry q \<noteq> None"
  shows "\<exists>r t. tfs_sym_link p q s = Inr (r, t) \<and> fs_inv t \<and> idle t"
proof (cases "lookup s p = - 1 \<or> first_free (freeinode_ts s) = None")
  case True
  then have "tfs_sym_link p q s = Inr (- 1, s)"
    using tfs_sym_link_missing [OF inv idle ok(1)] tfs_sym_link_no_space(1) [OF inv idle ok(1)]
    by (cases "lookup s p = - 1") simp_all
  with inv idle show ?thesis by simp
next
  case False
  then have found: "lookup s p \<noteq> - 1" by simp
  from False obtain i where i: "first_free (freeinode_ts s) = Some i" by blast
  show ?thesis
  proof (cases "first_free (free_blocks s)")
    case None
    from tfs_sym_link_no_space(2) [OF inv idle ok(1) found i None] inv_sym_failed [OF inv i] idle
    show ?thesis by simp
  next
    case (Some b)
    from ok obtain v where v: "link_entry q = Some v" by blast
    from found_path_fits [OF inv found] obtain path where
      path: "p = Some path" "length path \<le> 40" "44 \<le> BLOCK_SIZE s" by blast
    note inv1 = inv_sym_created [OF inv i Some path(3,2)]
    have "fs_inv (link_added (sym_created s i b path) v (int i))"
      by (rule inv_link_added [OF inv1(1) sym_created_entry_room [OF inv i inv1(2)]])
    with tfs_sym_link_exec [OF inv idle ok(1) found path(1) i Some ok(2) v] idle show ?thesis
      by simp
  qed
qed

end
