(* ===== verification/FS_Open.thy ===== *)
theory FS_Open
  imports FS_Links
begin

text \<open>
  \<open>tfs_open\<close>, case by case: an existing file (directly or through symbolic links), a new file,
  and the failures, each with the state it leaves.
\<close>

section \<open>Opening a file that exists\<close>

definition truncated :: "tfs_state \<Rightarrow> nat \<Rightarrow> tfs_file_mode \<Rightarrow> tfs_state" where
  "truncated s i mode =
     (if has_mode mode TFS_O_TRUNC \<and> 0 < i_size (inode_table s ! i)
      then s\<lparr>free_blocks := (free_blocks s)[nat (block_of s i) := FREE],
        inode_table := (inode_table s)[i := (inode_table s ! i)\<lparr>i_size := 0\<rparr>]\<rparr>
      else s)"

definition start_offset :: "tfs_state \<Rightarrow> nat \<Rightarrow> tfs_file_mode \<Rightarrow> nat" where
  "start_offset s i mode =
     (if has_mode mode TFS_O_APPEND then i_size (inode_table (truncated s i mode) ! i) else 0)"

definition opened :: "tfs_state \<Rightarrow> nat \<Rightarrow> nat \<Rightarrow> int \<times> tfs_state" where
  "opened s i off =
     (case first_free (free_open_file_entries s) of
        None \<Rightarrow> (- 1, s)
      | Some h \<Rightarrow> (int h, s\<lparr>free_open_file_entries := (free_open_file_entries s)[h := TAKEN],
          open_file_table := (open_file_table s)[h := (open_file_table s ! h)
            \<lparr>of_inumber := int i, of_offset := off\<rparr>]\<rparr>))"

lemma set_lock_truncated [simp]:
  "set_lock l w (truncated s i mode) = truncated (set_lock l w s) i mode"
  by (simp add: truncated_def)

lemma truncated_fields [simp]:
  "locks (truncated s i mode) = locks s"
  "fs_params (truncated s i mode) = fs_params s"
  "fs_data (truncated s i mode) = fs_data s"
  "freeinode_ts (truncated s i mode) = freeinode_ts s"
  "lock_inode_len (truncated s i mode) = lock_inode_len s"
  "open_file_table (truncated s i mode) = open_file_table s"
  "free_open_file_entries (truncated s i mode) = free_open_file_entries s"
  "idle (truncated s i mode) = idle s"
  by (simp_all add: truncated_def)

lemma start_offset_set_lock [simp]: "start_offset (set_lock l w s) i mode = start_offset s i mode"
  by (simp add: start_offset_def truncated_def)

lemma idle_opened [simp]: "idle (snd (opened s i off)) = idle s"
  by (simp add: opened_def split: option.split)

lemma inv_truncated:
  assumes inv: "fs_inv s" and u: "used_inode s (int i)" and f: "\<not> is_link s (int i)"
  shows "fs_inv (truncated s i mode)"
proof (cases "has_mode mode TFS_O_TRUNC \<and> 0 < i_size (inode_table s ! i)")
  case False
  with inv show ?thesis by (simp only: truncated_def if_False)
next
  case True
  note w = fs_invD [OF inv]
  have i: "0 < i" "i < INODE_TABLE_SIZE s" "freeinode_ts s ! i = TAKEN"
    using u by (simp_all add: used_inode_def)
  have h: "holds_block s i" using True i by (simp add: holds_block_def)
  let ?nd = "(inode_table s ! i)\<lparr>i_size := 0\<rparr>"
  let ?fb = "(free_blocks s)[nat (block_of s i) := FREE]"
  show ?thesis
  proof (rule inv_upd_inode [OF inv i(1,2)])
    show "truncated s i mode = s\<lparr>freeinode_ts := (freeinode_ts s)[i := TAKEN],
        free_blocks := ?fb, inode_table := (inode_table s)[i := ?nd]\<rparr>"
      using True list_update_id [of "freeinode_ts s" i] i(3) by (simp add: truncated_def)
    show "length ?fb = DATA_BLOCKS s" using w(1) by (simp add: wf_simps)
    show "int (links s i) \<le> i_count ?nd" using w(4) i by (simp add: links_inv_def)
    show "?fb ! nat (block_of s j) = TAKEN" if "j \<noteq> i" "holds_block s j" for j
      using freed_blocks_others [OF w(5) that(2,1) i(2,3)] True by (simp add: freed_blocks_def)
    show "i_size ?nd \<le> BLOCK_SIZE s \<and> (i_node_type ?nd = T_SOFT_LINK \<longrightarrow> 0 < i_size ?nd)"
      using f by (simp add: is_link_def)
  qed simp_all
qed

lemma inv_opened:
  assumes inv: "fs_inv s" and u: "used_inode s (int i)"
  shows "fs_inv (snd (opened s i off))"
proof (cases "first_free (free_open_file_entries s)")
  case None
  with inv show ?thesis by (simp add: opened_def)
next
  case (Some h)
  note w = fs_invD [OF inv]
  have i: "0 < i" "i < INODE_TABLE_SIZE s" "freeinode_ts s ! i = TAKEN"
    using u by (simp_all add: used_inode_def)
  have new: "handle_ok s ((open_file_table s ! h)\<lparr>of_inumber := int i, of_offset := off\<rparr>)"
  proof -
    have "valid_block_number s (block_of s i) \<and> block_of s i \<noteq> block_of s 0"
      if "0 < i_size (inode_table s ! i)"
    proof -
      have "holds_block s i" using that i by (simp add: holds_block_def)
      then show ?thesis using w(5) block_of_not_root [OF w(5,2)] i(1) by (simp add: blocks_inv_def)
    qed
    then show ?thesis using i by (simp add: handle_ok_def)
  qed
  have "fs_inv (s\<lparr>free_open_file_entries := (free_open_file_entries s)[h := TAKEN],
      open_file_table := (open_file_table s)[h := (open_file_table s ! h)
        \<lparr>of_inumber := int i, of_offset := off\<rparr>]\<rparr>)"
    by (rule inv_upd_open(1) [OF inv refl])
      (use w(1,7) new in \<open>auto simp: wf_simps handles_inv_def nth_update\<close>)
  with Some show ?thesis by (simp add: opened_def)
qed

lemma opened_exec:
  assumes "tfs_wf s" and "locks s L_file_table = Unlocked"
  shows "add_to_open_file_table (int i) off s = Inr (opened s i off)"
  using add_to_open_file_table_exec [OF assms] by (simp add: opened_def split: option.split)

lemma wf_truncated [simp]: "tfs_wf (truncated s i mode) = tfs_wf s"
  by (simp add: truncated_def tfs_wf_def)

lemma truncated_size:
  "i < length (inode_table s) \<Longrightarrow> i_size (inode_table (truncated s i mode) ! i) =
    (if has_mode mode TFS_O_TRUNC then 0 else i_size (inode_table s ! i))"
  by (simp add: truncated_def)

lemma open_existing_exec:
  assumes inv: "fs_inv s" and idle: "idle s" and u: "used_inode s (int i)"
    and v: "v = WriteLocked \<or> v = ReadLocked (Suc 0)"
  shows "open_existing (int i) mode (set_lock (L_inode (int i)) v s) =
    Inr (opened (truncated s i mode) i (start_offset s i mode))"
proof -
  define s1 where "s1 = set_lock (L_inode (int i)) v s"
  have wf: "tfs_wf s" using inv by (rule fs_invD)
  have i: "i < INODE_TABLE_SIZE s" "freeinode_ts s ! i = TAKEN"
    using u by (simp_all add: used_inode_def)
  have it: "i < length (inode_table s)" using i wf by (simp add: wf_simps)
  have free: "data_block_free (block_of s i) s1 =
      Inr ((), s1\<lparr>free_blocks := (free_blocks s)[nat (block_of s i) := FREE]\<rparr>)"
    if "0 < i_size (inode_table s ! i)"
  proof -
    have "holds_block s i" using that i by (simp add: holds_block_def)
    then have "valid_block_number s1 (block_of s i)"
      using fs_invD(5) [OF inv] by (simp add: blocks_inv_def s1_def valid_block_number_def)
    from data_block_free_exec [OF _ this] wf idle show ?thesis by (simp add: s1_def)
  qed
  have trunc: "(if has_mode mode TFS_O_TRUNC \<and> 0 < i_size (inode_table s ! i)
        then block [data_block_free (block_of s i),
                    upd_inode (int i) (\<lambda>nd. nd\<lparr>i_size := 0\<rparr>)] (ret ())
        else ret ()) s1 = Inr ((), truncated s1 i mode)"
    using free it by (simp add: exec_simps truncated_def s1_def)
  have "my_unlock (L_inode (int i)) (truncated s1 i mode) = Inr ((), truncated s i mode)"
    using v i(1) wf idle by (auto simp: lock_simps s1_def wf_simps)
  moreover have "add_to_open_file_table (int i) off (truncated s i mode) =
      Inr (opened (truncated s i mode) i off)" for off
    by (rule opened_exec) (use wf idle in simp_all)
  moreover have "read_inode (int i) s1 = Inr (inode_table s ! i, s1)"
    using it by (simp add: exec_simps s1_def)
  moreover have "read_inode (int i) (truncated s1 i mode) =
      Inr (inode_table (truncated s1 i mode) ! i, truncated s1 i mode)"
    using it by (simp add: exec_simps s1_def truncated_def)
  moreover have "i_size (inode_table (truncated s1 i mode) ! i) =
      i_size (inode_table (truncated s i mode) ! i)"
    using it by (simp add: truncated_size s1_def)
  ultimately show ?thesis
    using trunc by (simp add: open_existing_def exec_simps start_offset_def flip: s1_def)
qed

text \<open>The file a path leads to: the entry, or where its chain of symbolic links ends.\<close>

lemma tfs_open_existing_exec:
  assumes inv: "fs_inv s" and idle: "idle s" and p: "c_ok p" "lookup s p \<noteq> - 1"
    and r: "resolve s (lookup s p) = Some (int i)"
  shows "tfs_open p mode s = Inr (opened (truncated s i mode) i (start_offset s i mode))"
proof -
  define d where "d = lookup s p"
  have wf: "tfs_wf s" using inv by (rule fs_invD)
  have u: "used_inode s d" using lookup_used [OF inv p(2)] by (simp add: d_def)
  have d: "0 \<le> d" "d \<noteq> - 1" using u by (simp_all add: used_inode_def)
  have v: "path_entry p \<noteq> None" using p(2) by (auto simp: lookup_def split: option.splits)
  have ui: "used_inode s (int i)"
    using resolve_result(2) [OF fs_invD(3) [OF inv] r] u by (auto simp: d_def)
  let ?s1 = "set_lock (L_inode d) WriteLocked s"
  have rdy: "path_ready ?s1" using inv wf idle idle_dir_ready [OF inv idle] by simp
  have start: "tfs_open p mode s =
      call (inode_get d) (\<lambda>inode. call (read_inode inode) (\<lambda>nd.
      if i_node_type nd = T_SOFT_LINK then
        call (get_path_recursive d) (\<lambda>inum'. block [my_unlock (L_inode d)] (
        if inum' = - 1 then ret (- 1)
        else block [my_r_lock (L_inode inum')] (call (inode_get inum') (\<lambda>inode'.
          open_existing inode' mode))))
      else open_existing inode mode)) ?s1"
    using p(1) v d inv idle idle_dir_ready [OF inv idle] used_lock_exists [OF wf u]
    by (simp add: tfs_open_def valid_pathname_exec inode_get_root exec_simps tfs_lookup_exec
        lock_simps d_def [symmetric])
  have gd: "inode_get d ?s1 = Inr (d, ?s1)"
    using used_valid [OF u] wf idle by (intro inode_get_exec) (simp_all add: valid_inumber_def)
  have rd: "read_inode d ?s1 = Inr (inode_table s ! nat d, ?s1)"
    using used_in_table [OF wf u] by (simp add: exec_simps)
  show ?thesis
  proof (cases "is_link s d")
    case False
    with r have "d = int i" by (simp add: d_def [symmetric] resolve_unfold [of s d])
    with False d(2) show ?thesis
      using open_existing_exec [OF inv idle ui, of WriteLocked mode] start gd rd
      by (simp add: exec_simps is_link_def)
  next
    case True
    have path: "get_path_recursive d ?s1 = Inr (int i, ?s1)"
      using get_path_recursive_exec [OF rdy, of d] u r by (simp add: d_def)
    have gi: "inode_get (int i) (set_lock (L_inode (int i)) (ReadLocked (Suc 0)) s) =
        Inr (int i, set_lock (L_inode (int i)) (ReadLocked (Suc 0)) s)"
      using used_valid [OF ui] wf idle by (intro inode_get_exec) (simp_all add: valid_inumber_def)
    from True d(2) show ?thesis
      using open_existing_exec [OF inv idle ui, of "ReadLocked (Suc 0)" mode] start gd rd path gi
        used_lock_exists [OF wf u] used_lock_exists [OF wf ui] idle
      by (simp add: exec_simps is_link_def lock_simps)
  qed
qed

text \<open>The failures on a name that exists, and the chain that never ends.\<close>

lemma tfs_open_link_ends:
  assumes inv: "fs_inv s" and idle: "idle s" and p: "c_ok p" "lookup s p \<noteq> - 1"
  shows "resolve s (lookup s p) = Some (- 1) \<Longrightarrow> tfs_open p mode s = Inr (- 1, s)"
    and "resolve s (lookup s p) = None \<Longrightarrow> tfs_open p mode s = Inl Diverges"
proof -
  define d where "d = lookup s p"
  have wf: "tfs_wf s" using inv by (rule fs_invD)
  have u: "used_inode s d" using lookup_used [OF inv p(2)] by (simp add: d_def)
  have d: "0 \<le> d" "d \<noteq> - 1" using u by (simp_all add: used_inode_def)
  have v: "path_entry p \<noteq> None" using p(2) by (auto simp: lookup_def split: option.splits)
  let ?s1 = "set_lock (L_inode d) WriteLocked s"
  have rdy: "path_ready ?s1" using inv wf idle idle_dir_ready [OF inv idle] by simp
  have gd: "inode_get d ?s1 = Inr (d, ?s1)"
    using used_valid [OF u] wf idle by (intro inode_get_exec) (simp_all add: valid_inumber_def)
  have rd: "read_inode d ?s1 = Inr (inode_table s ! nat d, ?s1)"
    using used_in_table [OF wf u] by (simp add: exec_simps)
  have path: "get_path_recursive d ?s1 =
      (case resolve s d of None \<Rightarrow> Inl Diverges | Some j \<Rightarrow> Inr (j, ?s1))"
    using get_path_recursive_exec [OF rdy, of d] u by simp
  have l: "is_link s d" if "resolve s d \<noteq> Some d"
    using that by (subst (asm) resolve_unfold) (auto split: if_splits)
  have l': "i_node_type (inode_table s ! nat d) = T_SOFT_LINK" if "resolve s d \<noteq> Some d"
    using l [OF that] by (simp add: is_link_def)
  show "tfs_open p mode s = Inr (- 1, s)" if "resolve s (lookup s p) = Some (- 1)"
    using that p(1) v d inv idle idle_dir_ready [OF inv idle] used_lock_exists [OF wf u] gd rd path l'
    by (simp add: tfs_open_def valid_pathname_exec inode_get_root exec_simps tfs_lookup_exec
        lock_simps d_def [symmetric])
  show "tfs_open p mode s = Inl Diverges" if "resolve s (lookup s p) = None"
    using that p(1) v d inv idle idle_dir_ready [OF inv idle] used_lock_exists [OF wf u] gd rd path l'
    by (simp add: tfs_open_def valid_pathname_exec inode_get_root exec_simps tfs_lookup_exec
        lock_simps d_def [symmetric])
qed

lemma tfs_open_invalid:
  assumes "c_ok p" and "path_entry p = None"
  shows "tfs_open p mode s = Inr (- 1, s)"
  using assms by (simp add: tfs_open_def valid_pathname_exec exec_simps)

lemma tfs_open_absent:
  assumes "fs_inv s" and "idle s" and "c_ok p" and "lookup s p = - 1"
    and "\<not> has_mode mode TFS_O_CREAT \<or> first_free (freeinode_ts s) = None"
  shows "tfs_open p mode s = Inr (- 1, s)"
proof (cases "path_entry p")
  case None
  with assms show ?thesis by (simp add: tfs_open_invalid)
next
  case (Some v)
  with assms idle_dir_ready [OF assms(1,2)] inode_create_file_exec [of s] show ?thesis
    by (auto simp: tfs_open_def valid_pathname_exec inode_get_root exec_simps tfs_lookup_exec)
qed

section \<open>Creating a file\<close>

definition file_inode :: "tfs_state \<Rightarrow> nat \<Rightarrow> allocation_state \<Rightarrow> tfs_state" where
  "file_inode s i st = s\<lparr>freeinode_ts := (freeinode_ts s)[i := st],
     inode_table := (inode_table s)[i := (inode_table s ! i)
       \<lparr>i_node_type := T_FILE, i_size := 0, i_data_block := - 1, i_count := 1\<rparr>]\<rparr>"

lemma file_inode_fields [simp]:
  "locks (file_inode s i st) = locks s"
  "fs_params (file_inode s i st) = fs_params s"
  "fs_data (file_inode s i st) = fs_data s"
  "free_blocks (file_inode s i st) = free_blocks s"
  "open_file_table (file_inode s i st) = open_file_table s"
  "free_open_file_entries (file_inode s i st) = free_open_file_entries s"
  "idle (file_inode s i st) = idle s"
  by (simp_all add: file_inode_def)

lemma inv_file_inode:
  assumes inv: "fs_inv s" and i: "first_free (freeinode_ts s) = Some i"
  shows "fs_inv (file_inode s i st)" and "root_dents (file_inode s i st) = root_dents s"
proof -
  note w = fs_invD [OF inv] and fi = fresh_inode [OF inv i]
  show "fs_inv (file_inode s i st)"
  proof (rule inv_upd_inode [OF inv fi(1,2)])
    show "file_inode s i st = s\<lparr>freeinode_ts := (freeinode_ts s)[i := st],
        free_blocks := free_blocks s, inode_table := (inode_table s)[i := (inode_table s ! i)
         \<lparr>i_node_type := T_FILE, i_size := 0, i_data_block := - 1, i_count := 1\<rparr>]\<rparr>"
      by (simp add: file_inode_def)
    show "length (free_blocks s) = DATA_BLOCKS s" using w(1) by (simp add: wf_simps)
    show "links s i = 0" by (rule fi(4))
    show "free_blocks s ! nat (block_of s j) = TAKEN" if "holds_block s j" for j
      using that w(5) by (simp add: blocks_inv_def)
  qed (simp_all add: fi(4))
  show "root_dents (file_inode s i st) = root_dents s"
    by (rule root_dents_cong(2)) (use fi(1) in \<open>simp_all add: file_inode_def\<close>)
qed

lemma file_inode_used:
  assumes "fs_inv s" and "first_free (freeinode_ts s) = Some i"
  shows "used_inode (file_inode s i TAKEN) (int i)"
    and "i_size (inode_table (file_inode s i TAKEN) ! i) = 0"
    and "i_count (inode_table (file_inode s i TAKEN) ! i) = 1"
    and "\<not> is_link (file_inode s i TAKEN) (int i)"
    and "links (file_inode s i TAKEN) i = 0"
proof -
  note fi = fresh_inode [OF assms]
  have "i < length (inode_table s)" "i < length (freeinode_ts s)"
    using fi(2) fs_invD(1) [OF assms(1)] by (simp_all add: wf_simps)
  then show "used_inode (file_inode s i TAKEN) (int i)"
    and "i_size (inode_table (file_inode s i TAKEN) ! i) = 0"
    and "i_count (inode_table (file_inode s i TAKEN) ! i) = 1"
    and "\<not> is_link (file_inode s i TAKEN) (int i)"
    using fi(1,2) by (simp_all add: used_inode_def is_link_def) (simp_all add: file_inode_def)
  show "links (file_inode s i TAKEN) i = 0"
    using fi(4) inv_file_inode(2) [OF assms] by (simp add: links_def)
qed

lemma tfs_open_create_exec:
  assumes inv: "fs_inv s" and idle: "idle s" and p: "c_ok p" "path_entry p = Some v"
    and absent: "lookup s p = - 1" and m: "has_mode mode TFS_O_CREAT"
    and i: "first_free (freeinode_ts s) = Some i"
  shows "tfs_open p mode s =
    (if link_result s v = 0 then Inr (opened (link_added (file_inode s i TAKEN) v (int i)) i 0)
     else Inr (- 1, file_inode s i FREE))"
proof -
  note fi = fresh_inode [OF inv i] and fu = file_inode_used [OF inv i]
  let ?t = "file_inode s i TAKEN"
  have wf: "tfs_wf s" using inv by (rule fs_invD)
  note inv1 = inv_file_inode [OF inv i, of TAKEN]
  have rdy: "dir_ready ?t" using fs_invD(1,2) [OF inv1(1)] idle by simp
  have create: "inode_create T_FILE s = Inr (int i, ?t)"
    using inode_create_file_exec [of s] wf idle i by (simp add: file_inode_def)
  have lr: "link_result ?t v = link_result s v" by (simp add: link_result_def inv1(2))
  have add: "add_dir_entry ROOT_DIR_INUM (v @ [NUL]) (int i) ?t =
      Inr (link_result s v, link_added ?t v (int i))"
    using add_link_exec [OF rdy path_entry_no_NUL [OF p(2,1)], of "int i"] lr by simp
  have same: "link_added ?t v (int i) = ?t" if "link_result s v \<noteq> 0"
    using that inv1(2)
    by (auto simp: link_result_def link_added_def entry_added_def split: option.splits if_splits
        dest!: first_index_SomeD) (metis imageI length_root_dents nth_mem inv1(2))
  have del: "inode_delete (int i) ?t = Inr ((), file_inode s i FREE)"
  proof -
    have "inode_delete (int i) ?t = Inr ((), ?t\<lparr>freeinode_ts := (freeinode_ts ?t)[i := FREE],
        free_blocks := freed_blocks ?t i\<rparr>)"
      by (rule inode_delete_exec)
        (use fs_invD(1) [OF inv1(1)] idle fi(2) fu(1,2) in \<open>simp_all add: used_inode_def\<close>)
    then show ?thesis using fu(2) by (simp add: freed_blocks_def) (simp add: file_inode_def)
  qed
  have "tfs_wf (link_added ?t v (int i))"
    by (rule fs_invD(1) [OF inv_link_added [OF inv1(1) fu(1)]]) (simp add: fu(3,5))
  then have opn: "add_to_open_file_table (int i) 0 (link_added ?t v (int i)) =
      Inr (opened (link_added ?t v (int i)) i 0)"
    using idle by (intro opened_exec) simp_all
  have r: "link_result s v = 0 \<or> link_result s v = - 1" by (simp add: link_result_def)
  show ?thesis
    using p absent m inv idle idle_dir_ready [OF inv idle] create add same del opn r
      path_entry_tail [OF p(2)]
    by (auto simp: tfs_open_def valid_pathname_exec inode_get_root exec_simps tfs_lookup_exec)
qed

lemma used_link_added [simp]: "used_inode (link_added s v d) i = used_inode s i"
  by (simp add: used_inode_def)

lemma used_truncated [simp]: "used_inode (truncated s j mode) i = used_inode s i"
  by (simp add: used_inode_def)

lemma tfs_open_inv:
  assumes inv: "fs_inv s" and idle: "idle s" and p: "c_ok p"
    and ends: "lookup s p \<noteq> - 1 \<Longrightarrow> resolve s (lookup s p) \<noteq> None"
  shows "\<exists>r t. tfs_open p mode s = Inr (r, t) \<and> fs_inv t \<and> idle t"
proof (cases "lookup s p = - 1")
  case False
  from ends [OF this] obtain j where j: "resolve s (lookup s p) = Some j" by blast
  have u: "used_inode s (lookup s p)" using inv False by (rule lookup_used)
  note rr = resolve_result [OF fs_invD(3) [OF inv] j]
  show ?thesis
  proof (cases "j = - 1")
    case True
    with j tfs_open_link_ends(1) [OF inv idle p False, of mode] inv idle show ?thesis by simp
  next
    case ne: False
    then have uj: "used_inode s j" using rr(2) u by simp
    then obtain i where i: "j = int i" by (rule used_inodeE)
    have "\<not> is_link s (int i)" using rr(1) u i by simp
    then have "fs_inv (truncated s i mode)" using inv uj i by (intro inv_truncated) simp_all
    then have "fs_inv (snd (opened (truncated s i mode) i (start_offset s i mode)))"
      using uj i by (intro inv_opened) simp_all
    moreover have "idle (snd (opened (truncated s i mode) i (start_offset s i mode)))"
      using idle by simp
    ultimately show ?thesis
      using tfs_open_existing_exec [OF inv idle p False, of i mode] j i
      by (metis prod.collapse)
  qed
next
  case absent: True
  show ?thesis
  proof (cases "path_entry p = None \<or> \<not> has_mode mode TFS_O_CREAT \<or>
      first_free (freeinode_ts s) = None")
    case True
    then have "tfs_open p mode s = Inr (- 1, s)"
      using tfs_open_invalid [OF p] tfs_open_absent [OF inv idle p absent]
      by (cases "path_entry p = None") auto
    with inv idle show ?thesis by simp
  next
    case False
    then obtain v i where v: "path_entry p = Some v" "has_mode mode TFS_O_CREAT"
        "first_free (freeinode_ts s) = Some i" by auto
    note ex = tfs_open_create_exec [OF inv idle p v(1) absent v(2,3)]
    note i1 = inv_file_inode(1) [OF inv v(3)] and fu = file_inode_used [OF inv v(3)]
    show ?thesis
    proof (cases "link_result s v = 0")
      case False
      with ex i1 [of FREE] idle show ?thesis by simp
    next
      case True
      have "fs_inv (link_added (file_inode s i TAKEN) v (int i))"
        by (rule inv_link_added [OF i1 fu(1)]) (simp add: fu(3,5))
      then have "fs_inv (snd (opened (link_added (file_inode s i TAKEN) v (int i)) i 0))"
        using fu(1) by (intro inv_opened) simp_all
      moreover have "idle (snd (opened (link_added (file_inode s i TAKEN) v (int i)) i 0))"
        using idle by simp
      ultimately show ?thesis using ex True by (metis prod.collapse)
    qed
  qed
qed

end
