(* ===== verification/FS_Data.thy ===== *)
theory FS_Data
  imports FS_Open
begin

text \<open>
  \<open>tfs_write\<close>, \<open>tfs_read\<close> and \<open>tfs_copy_from_external_fs\<close>: the bytes they move, where the
  offset of the handle stands afterwards, and the invariant.  The hypotheses on the offset are
  what the code does not check: an offset past the end of the block (or, for reading, past the
  end of the file) makes \<open>BLOCK_SIZE - of_offset\<close> (\<open>i_size - of_offset\<close>) wrap around.
\<close>

section \<open>Writing\<close>

abbreviation handle :: "tfs_state \<Rightarrow> nat \<Rightarrow> open_file_entry" where
  "handle s h \<equiv> open_file_table s ! h"

text \<open>The inode and the offset behind a handle.\<close>

definition file_of :: "tfs_state \<Rightarrow> nat \<Rightarrow> nat" where
  "file_of s h = nat (of_inumber (handle s h))"

definition offset_of :: "tfs_state \<Rightarrow> nat \<Rightarrow> nat" where
  "offset_of s h = of_offset (handle s h)"

lemma handle_set_lock [simp]:
  "file_of (set_lock l v s) h = file_of s h" "offset_of (set_lock l v s) h = offset_of s h"
  by (simp_all add: file_of_def offset_of_def)

definition written :: "tfs_state \<Rightarrow> nat \<Rightarrow> allocation_state list \<Rightarrow> nat \<Rightarrow> char list \<Rightarrow> tfs_state" where
  "written s h fb b bs = s\<lparr>free_blocks := fb,
     inode_table := (inode_table s)[file_of s h := (inode_table s ! file_of s h)
       \<lparr>i_data_block := int b,
        i_size := max (i_size (inode_table s ! file_of s h)) (offset_of s h + length bs)\<rparr>],
     fs_data := store (fs_data s) (b * BLOCK_SIZE s + offset_of s h) bs,
     open_file_table := (open_file_table s)[h := (handle s h)
       \<lparr>of_offset := offset_of s h + length bs\<rparr>]\<rparr>"

lemma written_fields [simp]:
  "locks (written s h fb b bs) = locks s"
  "fs_params (written s h fb b bs) = fs_params s"
  "freeinode_ts (written s h fb b bs) = freeinode_ts s"
  "free_open_file_entries (written s h fb b bs) = free_open_file_entries s"
  "lock_inode_len (written s h fb b bs) = lock_inode_len s"
  "lock_file_len (written s h fb b bs) = lock_file_len s"
  "idle (written s h fb b bs) = idle s"
  by (simp_all add: written_def)

lemma set_lock_written [simp]:
  "set_lock l v (written s h fb b bs) = written (set_lock l v s) h fb b bs"
  by (simp add: written_def)

text \<open>The block a write goes to, and the free list after it was found.\<close>

definition write_block :: "tfs_state \<Rightarrow> nat \<Rightarrow> (nat \<times> allocation_state list) option" where
  "write_block s i =
     (if i_size (inode_table s ! i) = 0
      then map_option (\<lambda>b. (b, (free_blocks s)[b := TAKEN])) (first_free (free_blocks s))
      else Some (nat (block_of s i), free_blocks s))"

lemma open_handle:
  assumes "fs_inv s" and "is_open s (int h)"
  shows "h < MAX_OPEN_FILES s" and "h < length (open_file_table s)"
    and "of_inumber (handle s h) = int (file_of s h)"
    and "0 < file_of s h" and "file_of s h < INODE_TABLE_SIZE s"
    and "file_of s h < length (inode_table s)"
    and "0 < i_size (inode_table s ! file_of s h) \<Longrightarrow>
      valid_block_number s (block_of s (file_of s h)) \<and> block_of s (file_of s h) \<noteq> block_of s 0"
proof -
  note w = fs_invD [OF assms(1)]
  show h: "h < MAX_OPEN_FILES s" using assms(2) by (simp add: is_open_def valid_file_handle_def)
  then show "h < length (open_file_table s)" using w(1) by (simp add: wf_simps)
  have ok: "handle_ok s (handle s h)" using w(7) h assms(2) by (simp add: handles_inv_def is_open_def)
  then show "of_inumber (handle s h) = int (file_of s h)" "0 < file_of s h"
    and i: "file_of s h < INODE_TABLE_SIZE s"
    and "0 < i_size (inode_table s ! file_of s h) \<Longrightarrow>
      valid_block_number s (block_of s (file_of s h)) \<and> block_of s (file_of s h) \<noteq> block_of s 0"
    by (simp_all add: handle_ok_def file_of_def nat_less_iff)
  show "file_of s h < length (inode_table s)" using i w(1) by (simp add: wf_simps)
qed

lemma write_block_valid:
  assumes "fs_inv s" and "is_open s (int h)" and "write_block s (file_of s h) = Some (b, fb)"
  shows "valid_block_number s (int b)" and "int b \<noteq> block_of s 0" and "length fb = DATA_BLOCKS s"
    and "holds_block s j \<Longrightarrow> fb ! nat (block_of s j) = TAKEN"
    and "holds_block s j \<Longrightarrow> freeinode_ts s ! file_of s h = TAKEN \<Longrightarrow> j \<noteq> file_of s h \<Longrightarrow>
      block_of s j \<noteq> int b"
    and "freeinode_ts s ! file_of s h = TAKEN \<Longrightarrow> fb ! b = TAKEN"
proof -
  note w = fs_invD [OF assms(1)] and oh = open_handle [OF assms(1,2)]
  let ?i = "file_of s h"
  have "valid_block_number s (int b) \<and> int b \<noteq> block_of s 0 \<and> length fb = DATA_BLOCKS s \<and>
      (holds_block s j \<longrightarrow> fb ! nat (block_of s j) = TAKEN) \<and>
      (holds_block s j \<longrightarrow> freeinode_ts s ! ?i = TAKEN \<longrightarrow> j \<noteq> ?i \<longrightarrow> block_of s j \<noteq> int b) \<and>
      (freeinode_ts s ! ?i = TAKEN \<longrightarrow> fb ! b = TAKEN)" for j
  proof (cases "i_size (inode_table s ! ?i) = 0")
    case True
    with assms(3) have b: "first_free (free_blocks s) = Some b" "fb = (free_blocks s)[b := TAKEN]"
      by (auto simp: write_block_def)
    from fresh_block [OF assms(1) b(1)] b(2) w(1) show ?thesis by (simp add: wf_simps)
  next
    case False
    with assms(3) oh(7) have b: "int b = block_of s ?i" "fb = free_blocks s"
      by (auto simp: write_block_def valid_block_number_def)
    have "holds_block s ?i" if "freeinode_ts s ! ?i = TAKEN"
      using that False oh(5) by (simp add: holds_block_def)
    then have "freeinode_ts s ! ?i = TAKEN \<longrightarrow> fb ! nat (block_of s ?i) = TAKEN"
      and "freeinode_ts s ! ?i = TAKEN \<longrightarrow> holds_block s j \<longrightarrow> j \<noteq> ?i \<longrightarrow>
        block_of s j \<noteq> block_of s ?i"
      using w(5) b by (auto simp: blocks_inv_def)
    moreover have "nat (block_of s ?i) = b" by (simp flip: b(1))
    ultimately show ?thesis
      using False oh(7) w(1,5) b by (simp add: wf_simps blocks_inv_def)
  qed
  then show "valid_block_number s (int b)" "int b \<noteq> block_of s 0" "length fb = DATA_BLOCKS s"
    and "holds_block s j \<Longrightarrow> fb ! nat (block_of s j) = TAKEN"
    and "holds_block s j \<Longrightarrow> freeinode_ts s ! file_of s h = TAKEN \<Longrightarrow> j \<noteq> file_of s h \<Longrightarrow>
      block_of s j \<noteq> int b"
    and "freeinode_ts s ! file_of s h = TAKEN \<Longrightarrow> fb ! b = TAKEN"
    by blast+
qed

lemma tfs_write_closed:
  assumes "fs_inv s" and "idle s" and "\<not> is_open s h"
  shows "tfs_write h buffer len s = Inr (- 1, s)"
  using assms fs_invD(1) [OF assms(1)]
  by (simp add: tfs_write_def get_open_file_entry_exec exec_simps)

text \<open>What every write to an open file starts with: both locks, then the amount to write.\<close>

definition write_amount :: "tfs_state \<Rightarrow> nat \<Rightarrow> nat \<Rightarrow> nat" where
  "write_amount s h len = min len (BLOCK_SIZE s - offset_of s h)"

lemma write_amount_code:
  assumes "tfs_wf s" and "offset_of s h \<le> BLOCK_SIZE s" and "len + offset_of s h < size_mod"
  shows "(if BLOCK_SIZE s < size_add len (offset_of s h)
    then size_sub (BLOCK_SIZE s) (offset_of s h) else len) = write_amount s h len"
  using assms wf_bounds(6) [OF assms(1)] by (auto simp: write_amount_def)

text \<open>The state in which a read or a write works: the locks of the inode and of the handle are held.\<close>

definition both_locked :: "rwlock \<Rightarrow> nat \<Rightarrow> tfs_state \<Rightarrow> tfs_state" where
  "both_locked m h s = set_lock (L_file (int h)) m (set_lock (L_inode (int (file_of s h))) m s)"

lemma both_locked_fields [simp]:
  "fs_params (both_locked m h s) = fs_params s" "fs_data (both_locked m h s) = fs_data s"
  "free_blocks (both_locked m h s) = free_blocks s" "inode_table (both_locked m h s) = inode_table s"
  "freeinode_ts (both_locked m h s) = freeinode_ts s" "open_file_table (both_locked m h s) = open_file_table s"
  "free_open_file_entries (both_locked m h s) = free_open_file_entries s"
  "fs_data_size (both_locked m h s) = fs_data_size s" "inode_table_set (both_locked m h s) = inode_table_set s"
  "lock_inode_len (both_locked m h s) = lock_inode_len s" "lock_file_len (both_locked m h s) = lock_file_len s" "tfs_wf (both_locked m h s) = tfs_wf s"
  "file_of (both_locked m h s) k = file_of s k" "offset_of (both_locked m h s) k = offset_of s k"
  by (simp_all add: both_locked_def)

lemma both_locked_exec:
  assumes inv: "fs_inv s" and idle: "idle s" and op: "is_open s (int h)"
  shows "block [my_w_lock (L_inode (int (file_of s h))), my_w_lock (L_file (int h))] k s =
      k (both_locked WriteLocked h s)"
    and "block [my_r_lock (L_inode (int (file_of s h))), my_r_lock (L_file (int h))] k s =
      k (both_locked (ReadLocked (Suc 0)) h s)"
    and "inode_get (int (file_of s h)) (both_locked m h s) = Inr (int (file_of s h), both_locked m h s)"
    and "read_inode (int (file_of s h)) (both_locked m h s) = Inr (inode_table s ! file_of s h, both_locked m h s)"
proof -
  have wf: "tfs_wf s" using inv by (rule fs_invD)
  note oh = open_handle [OF inv op]
  have le: "lock_exists s (L_inode (int (file_of s h)))" "lock_exists s (L_file (int h))"
    using oh(1,5) wf by (simp_all add: wf_simps)
  then show "block [my_w_lock (L_inode (int (file_of s h))), my_w_lock (L_file (int h))] k s =
      k (both_locked WriteLocked h s)"
    and "block [my_r_lock (L_inode (int (file_of s h))), my_r_lock (L_file (int h))] k s =
      k (both_locked (ReadLocked (Suc 0)) h s)"
    using idle by (simp_all add: exec_simps lock_simps both_locked_def)
  have "locks (both_locked m h s) L_inode_table = Unlocked" using idle by (simp add: both_locked_def)
  then show "inode_get (int (file_of s h)) (both_locked m h s) = Inr (int (file_of s h), both_locked m h s)"
    by (intro inode_get_exec) (use wf oh(5) in \<open>simp_all add: valid_inumber_def\<close>)
  show "read_inode (int (file_of s h)) (both_locked m h s) = Inr (inode_table s ! file_of s h, both_locked m h s)"
    using oh(6) by (simp add: exec_simps)
qed

lemma unlock_both:
  assumes "tfs_wf t" and "idle t" and "h < MAX_OPEN_FILES t" and "i < INODE_TABLE_SIZE t" and "file_of t h = i"
    and "m = WriteLocked \<or> m = ReadLocked (Suc 0)"
  shows "my_unlock (L_inode (int i)) (both_locked m h t) =
      Inr ((), set_lock (L_inode (int i)) Unlocked (both_locked m h t))"
    and "my_unlock (L_file (int h)) (set_lock (L_inode (int i)) Unlocked (both_locked m h t)) = Inr ((), t)"
    and "block [my_unlock (L_inode (int i)), my_unlock (L_file (int h))] (ret r) (both_locked m h t) = Inr (r, t)"
proof -
  have "lock_exists t (L_inode (int i))" "lock_exists t (L_file (int h))" using assms by (simp_all add: wf_simps)
  then show *: "my_unlock (L_inode (int i)) (both_locked m h t) =
      Inr ((), set_lock (L_inode (int i)) Unlocked (both_locked m h t))"
    "my_unlock (L_file (int h)) (set_lock (L_inode (int i)) Unlocked (both_locked m h t)) = Inr ((), t)"
    using assms by (auto simp: lock_simps both_locked_def set_lock_commute)
  show "block [my_unlock (L_inode (int i)), my_unlock (L_file (int h))] (ret r) (both_locked m h t) = Inr (r, t)"
    by (simp add: exec_simps *)
qed

lemma written_open:
  "file_of (written s h fb b bs) k = file_of s k"
  "both_locked m h (written s h fb b bs) = written (both_locked m h s) h fb b bs"
proof -
  have f: "file_of (written s h fb b bs) k = file_of s k" for k
    by (cases "h < length (open_file_table s)"; cases "k = h") (simp_all add: written_def file_of_def list_update_beyond)
  show "both_locked m h (written s h fb b bs) = written (both_locked m h s) h fb b bs"
    by (simp add: both_locked_def f)
  show "file_of (written s h fb b bs) k = file_of s k" by (rule f)
qed

lemma inv_written:
  assumes inv: "fs_inv s" and op: "is_open s (int h)"
    and wb: "write_block s (file_of s h) = Some (b, fb)"
    and off: "offset_of s h + length bs \<le> BLOCK_SIZE s"
  shows "fs_inv (written s h fb b bs)" and "root_dents (written s h fb b bs) = root_dents s"
proof -
  note w = fs_invD [OF inv] and oh = open_handle [OF inv op] and wv = write_block_valid [OF inv op wb]
  define i where "i = file_of s h"
  define nd where "nd = inode_table s ! i"
  define nd' where "nd' = nd\<lparr>i_data_block := int b, i_size := max (i_size nd) (offset_of s h + length bs)\<rparr>"
  define s1 where "s1 = s\<lparr>freeinode_ts := (freeinode_ts s)[i := freeinode_ts s ! i],
    free_blocks := fb, inode_table := (inode_table s)[i := nd']\<rparr>"
  have inv1: "fs_inv s1"
  proof (rule inv_upd_inode [OF inv _ _ s1_def])
    show "0 < i" "i < INODE_TABLE_SIZE s" "length fb = DATA_BLOCKS s"
      using oh wv by (simp_all add: i_def)
    show "int (links s i) \<le> i_count nd'" if "freeinode_ts s ! i = TAKEN"
      using w(4) that oh by (simp add: links_inv_def nd'_def nd_def i_def)
    show "links s i = 0" if "freeinode_ts s ! i = FREE" using w(3) that by (rule links_zero)
    show "fb ! nat (block_of s j) = TAKEN" if "holds_block s j" for j using that by (rule wv(4))
    show "valid_block_number s (i_data_block nd') \<and> i_data_block nd' \<noteq> block_of s 0"
      using wv(1,2) by (simp add: nd'_def)
    show "fb ! nat (i_data_block nd') = TAKEN \<and>
        (\<forall>j. j \<noteq> i \<longrightarrow> holds_block s j \<longrightarrow> block_of s j \<noteq> i_data_block nd')"
      if "freeinode_ts s ! i = TAKEN"
      using that wv(5,6) by (simp add: nd'_def i_def)
    show "i_size nd' \<le> BLOCK_SIZE s \<and> (i_node_type nd' = T_SOFT_LINK \<longrightarrow> 0 < i_size nd')"
      if "freeinode_ts s ! i = TAKEN"
      using that w(6) oh off by (auto simp: sizes_inv_def nd'_def nd_def i_def max_def)
  qed
  define s2 where "s2 = s1\<lparr>fs_data := store (fs_data s1) (nat (int b) * BLOCK_SIZE s1 + offset_of s h) bs\<rparr>"
  have b1: "int b \<noteq> block_of s1 0" using wv(2) oh by (simp add: s1_def i_def)
  have o1: "offset_of s h + length bs \<le> BLOCK_SIZE s1" using off by (simp add: s1_def)
  have inv2: "fs_inv s2" by (rule inv_write_block(1) [OF inv1 _ b1 o1 s2_def]) simp
  have rd2: "root_dents s2 = root_dents s1"
    by (rule inv_write_block(2) [OF inv1 _ b1 o1 s2_def]) simp
  have rd1: "root_dents s1 = root_dents s"
    by (rule root_dents_cong(2)) (use oh in \<open>simp_all add: s1_def i_def\<close>)
  let ?oft = "(open_file_table s)[h := (handle s h)\<lparr>of_offset := offset_of s h + length bs\<rparr>]"
  have t: "written s h fb b bs =
      s2\<lparr>free_open_file_entries := free_open_file_entries s2, open_file_table := ?oft\<rparr>"
    using list_update_id [of "freeinode_ts s" i]
    by (simp add: written_def s2_def s1_def nd'_def nd_def i_def)
  have len: "length (free_open_file_entries s2) = MAX_OPEN_FILES s2" "length ?oft = MAX_OPEN_FILES s2"
    using w(1) by (simp_all add: s2_def s1_def wf_simps)
  have ok: "handle_ok s2 (?oft ! k)"
    if "k < MAX_OPEN_FILES s2" "free_open_file_entries s2 ! k = TAKEN" for k
  proof -
    have "handle_ok s2 (open_file_table s2 ! k)"
      using fs_invD(7) [OF inv2] that by (simp add: handles_inv_def)
    then show ?thesis by (simp add: nth_update handle_ok_def valid_block_number_def) (simp add: s2_def s1_def)
  qed
  show "fs_inv (written s h fb b bs)" by (rule inv_upd_open(1) [OF inv2 t len ok])
  show "root_dents (written s h fb b bs) = root_dents s"
    using inv_upd_open(2) [OF inv2 t len ok] rd1 rd2 by simp
qed

text \<open>What a write of \<open>n\<close> bytes does under the locks.\<close>

definition write_tail :: "nat \<Rightarrow> nat \<Rightarrow> char list \<Rightarrow> nat \<Rightarrow> nat \<Rightarrow> int fsop" where
  "write_tail h i buffer off n =
     call (read_inode (int i)) (\<lambda>nd.
     call (if i_size nd = 0 then data_block_alloc else ret (i_data_block nd)) (\<lambda>bnum.
     if i_size nd = 0 \<and> bnum = - 1 then
       block [my_unlock (L_inode (int i)), my_unlock (L_file (int h))] (ret (- 1))
     else
       block [upd_inode (int i) (\<lambda>nd. nd\<lparr>i_data_block := bnum\<rparr>)] (
       call (data_block_get bnum) (\<lambda>blk.
       block
         [if length buffer < n then fail OutOfBounds else ret (),
          mem_write (blk + off) (take n buffer),
          upd_file (int h) (\<lambda>fe. fe\<lparr>of_offset := size_add (of_offset fe) n\<rparr>)] (
       call (read_file (int h)) (\<lambda>fe'.
       block
         [if i_size nd < of_offset fe'
          then upd_inode (int i) (\<lambda>nd. nd\<lparr>i_size := of_offset fe'\<rparr>) else ret (),
          my_unlock (L_inode (int i)),
          my_unlock (L_file (int h))]
         (ret (to_ssize n))))))))"

lemma tfs_write_start:
  assumes inv: "fs_inv s" and idle: "idle s" and op: "is_open s (int h)"
    and off: "offset_of s h \<le> BLOCK_SIZE s" and small: "len + offset_of s h < size_mod"
  shows "tfs_write (int h) buffer len s =
    (if write_amount s h len = 0 then Inr (0, s)
     else write_tail h (file_of s h) buffer (offset_of s h) (write_amount s h len) (both_locked WriteLocked h s))"
proof -
  define i where "i = file_of s h"
  define n where "n = write_amount s h len"
  define s1 where "s1 = both_locked WriteLocked h s"
  have wf: "tfs_wf s" using inv by (rule fs_invD)
  note oh = open_handle [OF inv op, folded i_def] and bl = both_locked_exec [OF inv idle op, folded i_def s1_def]
  have oo: "of_offset (handle s h) = offset_of s h" by (simp add: offset_of_def)
  have rf: "read_file (int h) s = Inr (handle s h, s)" using oh(2) by (simp add: exec_simps)
  have get: "inode_get (int i) s1 = Inr (int i, s1)"
    unfolding s1_def i_def by (rule both_locked_exec(3) [OF inv idle op])
  have amount: "(if BLOCK_SIZE s1 < size_add len (of_offset (handle s h))
      then size_sub (BLOCK_SIZE s1) (of_offset (handle s h)) else len) = n"
    using write_amount_code [OF wf off small] by (simp add: n_def oo s1_def cong del: if_weak_cong)
  have rel: "block [my_unlock (L_inode (int i)), my_unlock (L_file (int h))] (ret r) s1 = Inr (r, s)" for r :: int
    unfolding s1_def by (rule unlock_both(3) [OF wf idle oh(1,5) i_def [symmetric] disjI1 [OF refl]])
  have "tfs_write (int h) buffer len s =
    (if n = 0 then Inr (0, s) else write_tail h i buffer (of_offset (handle s h)) n s1)"
    using op wf idle rf amount oh(3) get rel
    by (cases "n = 0")
      (simp_all add: bl(1) tfs_write_def get_open_file_entry_exec exec_simps Let_def write_tail_def
        del: block.simps cong: if_cong)
  then show ?thesis by (simp add: i_def n_def s1_def oo)
qed

lemma write_tail_exec:
  assumes inv: "fs_inv s" and idle: "idle s" and op: "is_open s (int h)"
    and n: "n \<noteq> 0" "offset_of s h + n \<le> BLOCK_SIZE s" "n \<le> length buffer"
  shows "write_tail h (file_of s h) buffer (offset_of s h) n (both_locked WriteLocked h s) =
    (case write_block s (file_of s h) of
       None \<Rightarrow> Inr (- 1, s)
     | Some (b, fb) \<Rightarrow> Inr (int n, written s h fb b (take n buffer)))"
proof -
  define i where "i = file_of s h"
  define nd where "nd = inode_table s ! i"
  define s1 where "s1 = both_locked WriteLocked h s"
  have wf: "tfs_wf s" using inv by (rule fs_invD)
  note oh = open_handle [OF inv op, folded i_def]
  have ri: "read_inode (int i) s1 = Inr (nd, s1)"
    using both_locked_exec(4) [OF inv idle op] by (simp add: s1_def nd_def i_def)
  have free: "locks s1 L_data_table = Unlocked" using idle by (simp add: s1_def both_locked_def)
  have alloc: "(if i_size nd = 0 then data_block_alloc else ret (i_data_block nd)) s1 =
      (case write_block s i of None \<Rightarrow> Inr (- 1, s1)
       | Some (b, fb) \<Rightarrow> Inr (int b, s1\<lparr>free_blocks := fb\<rparr>))"
    using data_block_alloc_exec [of s1] wf free oh(7)
    by (auto simp: write_block_def exec_simps nd_def s1_def valid_block_number_def split: option.split)
  show ?thesis
  proof (cases "write_block s i")
    case None
    then have "i_size nd = 0" by (simp add: write_block_def nd_def split: if_splits)
    with None alloc ri unlock_both(3) [OF wf idle oh(1,5) i_def [symmetric] disjI1 [OF refl], of "- 1"] show ?thesis
      by (simp add: write_tail_def i_def [symmetric] s1_def [symmetric] exec_simps del: block.simps)
  next
    case (Some r)
    then obtain b fb where wb: "write_block s i = Some (b, fb)" by (cases r) simp
    note wv = write_block_valid [OF inv op wb [unfolded i_def]]
    let ?off = "offset_of s h" and ?bs = "take n buffer"
    define s2 where "s2 = s1\<lparr>free_blocks := fb, inode_table := (inode_table s)[i := nd\<lparr>i_data_block := int b\<rparr>]\<rparr>"
    define s3 where "s3 = s2\<lparr>fs_data := store (fs_data s) (b * BLOCK_SIZE s + ?off) ?bs,
      open_file_table := (open_file_table s)[h := (handle s h)\<lparr>of_offset := ?off + n\<rparr>]\<rparr>"
    define s4 where "s4 = both_locked WriteLocked h (written s h fb b ?bs)"
    have up: "upd_inode (int i) (\<lambda>nd. nd\<lparr>i_data_block := int b\<rparr>) (s1\<lparr>free_blocks := fb\<rparr>) = Inr ((), s2)"
      using oh(6) by (simp add: exec_simps s1_def s2_def nd_def)
    have "data_ready s2" using wf free wv(3) by (simp add: s1_def s2_def tfs_wf_def)
    then have gb: "data_block_get (int b) s2 = Inr (b * BLOCK_SIZE s, s2)"
      using data_block_get_exec [of s2 "int b"] wv(1) by (simp add: s1_def s2_def valid_block_number_def)
    have "b * BLOCK_SIZE s + BLOCK_SIZE s \<le> fs_data_size s"
      using block_in_data [of b s] wv(1) wf by (simp add: wf_simps valid_block_number_def)
    then have mw: "mem_write (b * BLOCK_SIZE s + ?off) ?bs s2 =
        Inr ((), s2\<lparr>fs_data := store (fs_data s) (b * BLOCK_SIZE s + ?off) ?bs\<rparr>)"
      using n by (simp add: exec_simps s1_def s2_def)
    have uf: "upd_file (int h) (\<lambda>fe. fe\<lparr>of_offset := size_add (of_offset fe) n\<rparr>)
        (s2\<lparr>fs_data := store (fs_data s) (b * BLOCK_SIZE s + ?off) ?bs\<rparr>) = Inr ((), s3)"
      using oh(2) n wf_bounds(6) [OF wf] by (simp add: exec_simps s1_def s2_def s3_def offset_of_def)
    have rf: "read_file (int h) s3 = Inr ((handle s h)\<lparr>of_offset := ?off + n\<rparr>, s3)"
      using oh(2) by (simp add: exec_simps s3_def)
    have s4: "s4 = written s1 h fb b ?bs" by (simp add: s4_def s1_def written_open)
    have us: "upd_inode (int i) (\<lambda>nd. nd\<lparr>i_size := ?off + n\<rparr>) s3 = Inr ((), s4)" if "i_size nd < ?off + n"
      using oh(6) n that by (simp add: exec_simps s4 s3_def s2_def s1_def nd_def i_def) (simp add: written_def max_def)
    have us': "s3 = s4" if "\<not> i_size nd < ?off + n"
      using oh(6) n that by (simp add: s4 s3_def s2_def s1_def nd_def i_def written_def max_def)
    have ul: "my_unlock (L_inode (int i)) s4 = Inr ((), set_lock (L_inode (int i)) Unlocked s4)"
      "my_unlock (L_file (int h)) (set_lock (L_inode (int i)) Unlocked s4) = Inr ((), written s h fb b ?bs)"
    proof -
      let ?t = "written s h fb b ?bs"
      have t: "tfs_wf ?t" "idle ?t" "h < MAX_OPEN_FILES ?t" "i < INODE_TABLE_SIZE ?t" "file_of ?t h = i"
        using fs_invD(1) [OF inv_written(1) [OF inv op wb [unfolded i_def]], of ?bs] oh(1,5) idle n by (simp_all add: i_def written_open)
      show "my_unlock (L_inode (int i)) s4 = Inr ((), set_lock (L_inode (int i)) Unlocked s4)"
        "my_unlock (L_file (int h)) (set_lock (L_inode (int i)) Unlocked s4) = Inr ((), ?t)"
        unfolding s4_def by (rule unlock_both(1,2) [OF t disjI1 [OF refl]])+
    qed
    have "to_ssize n = int n" using n wf_bounds(6) [OF wf] by (intro to_ssize_small) simp
    with n(3) wb ri alloc up gb mw uf rf us us' ul show ?thesis
      by (simp add: write_tail_def exec_simps i_def [symmetric] s1_def [symmetric])
  qed
qed

lemma tfs_write_exec:
  assumes inv: "fs_inv s" and idle: "idle s" and op: "is_open s (int h)"
    and off: "offset_of s h \<le> BLOCK_SIZE s" and small: "len + offset_of s h < size_mod"
    and buf: "len \<le> length buffer"
  shows "tfs_write (int h) buffer len s =
    (if write_amount s h len = 0 then Inr (0, s)
     else case write_block s (file_of s h) of
       None \<Rightarrow> Inr (- 1, s)
     | Some (b, fb) \<Rightarrow> Inr (int (write_amount s h len),
         written s h fb b (take (write_amount s h len) buffer)))"
proof (cases "write_amount s h len = 0")
  case True
  then show ?thesis by (simp add: tfs_write_start [OF inv idle op off small])
next
  case False
  have "offset_of s h + write_amount s h len \<le> BLOCK_SIZE s" "write_amount s h len \<le> length buffer"
    using off buf by (simp_all add: write_amount_def)
  from write_tail_exec [OF inv idle op False this] False show ?thesis
    by (simp add: tfs_write_start [OF inv idle op off small])
qed

lemma tfs_write_inv:
  assumes inv: "fs_inv s" and idle: "idle s" and op: "is_open s (int h)"
    and off: "offset_of s h \<le> BLOCK_SIZE s" and small: "len + offset_of s h < size_mod"
    and buf: "len \<le> length buffer"
  shows "\<exists>r t. tfs_write (int h) buffer len s = Inr (r, t) \<and> fs_inv t \<and> idle t"
proof (cases "write_amount s h len = 0 \<or> write_block s (file_of s h) = None")
  case True
  with tfs_write_exec [OF assms] inv idle show ?thesis by auto
next
  case False
  then obtain b fb where wb: "write_block s (file_of s h) = Some (b, fb)" by auto
  have "fs_inv (written s h fb b (take (write_amount s h len) buffer))"
    by (rule inv_written(1) [OF inv op wb]) (use off in \<open>simp add: write_amount_def\<close>)
  with tfs_write_exec [OF assms] False wb idle show ?thesis by simp
qed

section \<open>Reading\<close>

lemma c_memchr0_take:
  "n \<le> length p \<Longrightarrow>
   c_memchr0 n p = Inr (if NUL \<in> set (take n p) then Some (length (c_string (take n p))) else None)"
proof (induction p arbitrary: n)
  case Nil
  then show ?case by simp
next
  case (Cons c p)
  show ?case
  proof (cases n)
    case 0
    then show ?thesis by simp
  next
    case (Suc m)
    with Cons show ?thesis by (auto simp: c_string_def)
  qed
qed

lemma c_string_all: "NUL \<notin> set p \<Longrightarrow> c_string p = p"
  unfolding c_string_def by (subst takeWhile_eq_all_conv) auto

lemma c_string_prefix: "take (length (c_string p)) p = c_string p"
  unfolding c_string_def by (rule takeWhile_eq_take [symmetric])

lemma length_c_string_le: "length (c_string p) \<le> length p"
  unfolding c_string_def by (rule length_takeWhile_le)

text \<open>
  Where a read starts: a zero byte at the offset is skipped, but the number of bytes to read was
  fixed before.
\<close>

definition read_base :: "tfs_state \<Rightarrow> nat \<Rightarrow> nat" where
  "read_base s h = nat (block_of s (file_of s h)) * BLOCK_SIZE s"

definition read_start :: "tfs_state \<Rightarrow> nat \<Rightarrow> nat" where
  "read_start s h =
     (if fs_data s (read_base s h + offset_of s h) = NUL then Suc (offset_of s h) else offset_of s h)"

definition read_amount :: "tfs_state \<Rightarrow> nat \<Rightarrow> nat \<Rightarrow> nat" where
  "read_amount s h len = min len (i_size (inode_table s ! file_of s h) - offset_of s h)"

definition read_bytes :: "tfs_state \<Rightarrow> nat \<Rightarrow> nat \<Rightarrow> string" where
  "read_bytes s h len =
     c_string (TFS_Prelude.slice (fs_data s) (read_base s h + read_start s h) (read_amount s h len))"

definition advanced :: "tfs_state \<Rightarrow> nat \<Rightarrow> nat \<Rightarrow> tfs_state" where
  "advanced s h off = s\<lparr>open_file_table := (open_file_table s)[h := (handle s h)\<lparr>of_offset := off\<rparr>]\<rparr>"

lemma advanced_fields [simp]:
  "locks (advanced s h off) = locks s"
  "lock_inode_len (advanced s h off) = lock_inode_len s"
  "lock_file_len (advanced s h off) = lock_file_len s"
  "fs_data (advanced s h off) = fs_data s"
  "fs_data_size (advanced s h off) = fs_data_size s"
  "inode_table (advanced s h off) = inode_table s"
  "idle (advanced s h off) = idle s"
  by (simp_all add: advanced_def)

lemma set_lock_advanced [simp]:
  "set_lock l v (advanced s h off) = advanced (set_lock l v s) h off"
  by (simp add: advanced_def)

lemma inv_advanced:
  assumes inv: "fs_inv s"
  shows "fs_inv (advanced s h off)" and "root_dents (advanced s h off) = root_dents s"
proof -
  note w = fs_invD [OF inv]
  let ?oft = "(open_file_table s)[h := (handle s h)\<lparr>of_offset := off\<rparr>]"
  have t: "advanced s h off = s\<lparr>free_open_file_entries := free_open_file_entries s,
      open_file_table := ?oft\<rparr>" by (simp add: advanced_def)
  have len: "length (free_open_file_entries s) = MAX_OPEN_FILES s" "length ?oft = MAX_OPEN_FILES s"
    using w(1) by (simp_all add: wf_simps)
  have ok: "handle_ok s (?oft ! k)"
    if "k < MAX_OPEN_FILES s" "free_open_file_entries s ! k = TAKEN" for k
  proof -
    have "handle_ok s (handle s k)" using w(7) that by (simp add: handles_inv_def)
    then show ?thesis by (simp add: nth_update handle_ok_def)
  qed
  show "fs_inv (advanced s h off)" by (rule inv_upd_open(1) [OF inv t len ok])
  show "root_dents (advanced s h off) = root_dents s" by (rule inv_upd_open(2) [OF inv t len ok])
qed

lemma advanced_same [simp]: "advanced s h (offset_of s h) = s"
proof -
  have "(handle s h)\<lparr>of_offset := offset_of s h\<rparr> = handle s h" by (simp add: offset_of_def)
  then show ?thesis by (simp only: advanced_def list_update_id) simp
qed

lemma advanced_twice [simp]: "advanced (advanced s h a) h b = advanced s h b"
  by (cases "h < length (open_file_table s)") (simp_all add: advanced_def list_update_beyond)

lemma read_set_lock [simp]:
  "read_base (set_lock l v s) h = read_base s h"
  "read_start (set_lock l v s) h = read_start s h"
  "read_amount (set_lock l v s) h len = read_amount s h len"
  "read_bytes (set_lock l v s) h len = read_bytes s h len"
  by (simp_all add: read_base_def read_start_def read_amount_def read_bytes_def)

lemma tfs_read_closed:
  assumes "fs_inv s" and "idle s" and "\<not> is_open s h"
  shows "tfs_read h len s = Inr ((- 1, []), s)"
  using assms fs_invD(1) [OF assms(1)]
  by (simp add: tfs_read_def get_open_file_entry_exec exec_simps)

lemma advanced_open:
  "file_of (advanced s h off) k = file_of s k"
  "both_locked m h (advanced s h off) = advanced (both_locked m h s) h off"
  "read_base (both_locked m h s) k = read_base s k" "read_start (both_locked m h s) k = read_start s k"
proof -
  have f: "file_of (advanced s h off) k = file_of s k" for k
    by (cases "h < length (open_file_table s)"; cases "k = h") (simp_all add: advanced_def file_of_def list_update_beyond)
  show "both_locked m h (advanced s h off) = advanced (both_locked m h s) h off"
    by (simp add: both_locked_def f)
  show "file_of (advanced s h off) k = file_of s k" by (rule f)
qed (simp_all add: both_locked_def)

text \<open>The length of the string that is read, as the code finds it.\<close>

lemma memchr_length:
  assumes "n \<le> length p"
  obtains z where "c_memchr0 n p = Inr z" "(case z of Some k \<Rightarrow> k | None \<Rightarrow> n) = length (c_string (take n p))"
    "length (c_string (take n p)) \<le> n"
proof (rule that)
  show "c_memchr0 n p = Inr (if NUL \<in> set (take n p) then Some (length (c_string (take n p))) else None)"
    by (rule c_memchr0_take [OF assms])
  show "(case (if NUL \<in> set (take n p) then Some (length (c_string (take n p))) else None) of Some k \<Rightarrow> k | None \<Rightarrow> n) =
      length (c_string (take n p))"
    using c_string_all [of "take n p"] assms by simp
  show "length (c_string (take n p)) \<le> n" using length_c_string_le [of "take n p"] assms by simp
qed

text \<open>What a read of at most \<open>n\<close> bytes does under the locks.\<close>

definition read_tail :: "nat \<Rightarrow> nat \<Rightarrow> int \<Rightarrow> nat \<Rightarrow> nat \<Rightarrow> (int \<times> char list) fsop" where
  "read_tail h i bnum off to_read =
     call (data_block_get bnum) (\<lambda>blk.
     call (mem_read (blk + off) 1) (\<lambda>c.
     block [if c = [NUL]
       then upd_file (int h) (\<lambda>fe. fe\<lparr>of_offset := size_add (of_offset fe) 1\<rparr>) else ret ()] (
     call (read_file (int h)) (\<lambda>fe'.
     call (gets (mem_from (blk + of_offset fe'))) (\<lambda>p.
     call (lift (c_memchr0 to_read p)) (\<lambda>z.
     let n = (case z of Some k \<Rightarrow> k | None \<Rightarrow> to_read) in
     call (mem_read (blk + of_offset fe') n) (\<lambda>bytes.
     block
       [upd_file (int h) (\<lambda>fe. fe\<lparr>of_offset := size_add (of_offset fe) n\<rparr>),
        my_unlock (L_inode (int i)), my_unlock (L_file (int h))]
       (ret (to_ssize n, bytes)))))))))"

lemma tfs_read_start:
  assumes inv: "fs_inv s" and idle: "idle s" and op: "is_open s (int h)"
    and off: "offset_of s h \<le> i_size (inode_table s ! file_of s h)"
    and sz: "i_size (inode_table s ! file_of s h) \<le> BLOCK_SIZE s"
  shows "tfs_read (int h) len s =
    (if read_amount s h len = 0 then Inr ((0, []), s)
     else read_tail h (file_of s h) (i_data_block (inode_table s ! file_of s h)) (offset_of s h) (read_amount s h len)
       (both_locked (ReadLocked (Suc 0)) h s))"
proof -
  define i where "i = file_of s h"
  define n where "n = read_amount s h len"
  define nd where "nd = inode_table s ! i"
  define s1 where "s1 = both_locked (ReadLocked (Suc 0)) h s"
  have wf: "tfs_wf s" using inv by (rule fs_invD)
  note oh = open_handle [OF inv op, folded i_def] and bl = both_locked_exec [OF inv idle op, folded i_def s1_def]
  have oo: "of_offset (handle s h) = offset_of s h" by (simp add: offset_of_def)
  have rf: "read_file (int h) s = Inr (handle s h, s)" using oh(2) by (simp add: exec_simps)
  have get: "inode_get (int i) s1 = Inr (int i, s1)" "read_inode (int i) s1 = Inr (nd, s1)"
    unfolding s1_def i_def nd_def by (rule both_locked_exec(3,4) [OF inv idle op])+
  have amount: "(if len < size_sub (i_size nd) (of_offset (handle s h)) then len
      else size_sub (i_size nd) (of_offset (handle s h))) = n"
    using off sz wf_bounds(6) [OF wf] by (simp add: n_def oo read_amount_def nd_def i_def min_def cong del: if_weak_cong)
  have rel: "block [my_unlock (L_inode (int i)), my_unlock (L_file (int h))] (ret r) s1 = Inr (r, s)" for r :: "int \<times> char list"
    unfolding s1_def by (rule unlock_both(3) [OF wf idle oh(1,5) i_def [symmetric] disjI2 [OF refl]])
  have "tfs_read (int h) len s =
    (let m = (if len < size_sub (i_size nd) (of_offset (handle s h)) then len
        else size_sub (i_size nd) (of_offset (handle s h))) in
     if 0 < m then read_tail h i (i_data_block nd) (of_offset (handle s h)) m
     else block [my_unlock (L_inode (int i)), my_unlock (L_file (int h))] (ret (to_ssize m, []))) s1"
    using op wf idle rf oh(3) get
    by (simp add: bl(2) tfs_read_def get_open_file_entry_exec exec_simps read_tail_def Let_def
        del: block.simps cong: if_cong split del: if_split)
  also have "\<dots> = (if n = 0 then Inr ((0, []), s) else read_tail h i (i_data_block nd) (offset_of s h) n s1)"
    using rel by (simp only: amount Let_def) (simp add: oo)
  finally show ?thesis by (simp add: i_def n_def nd_def s1_def)
qed

text \<open>A zero byte at the offset is skipped.\<close>

lemma skip_zero:
  assumes "h < length (open_file_table s)" and "Suc (offset_of s h) < size_mod"
  shows "(if [fs_data s (read_base s h + offset_of s h)] = [NUL]
    then upd_file (int h) (\<lambda>fe. fe\<lparr>of_offset := size_add (of_offset fe) 1\<rparr>) else ret ()) s =
    Inr ((), advanced s h (read_start s h))"
proof (cases "fs_data s (read_base s h + offset_of s h) = NUL")
  case True
  with assms show ?thesis by (simp add: exec_simps read_start_def offset_of_def) (simp add: advanced_def)
next
  case False
  then have "advanced s h (read_start s h) = s" by (simp add: read_start_def del: advanced_fields)
  with False show ?thesis by (simp add: exec_simps)
qed

lemma read_tail_exec:
  assumes inv: "fs_inv s" and idle: "idle s" and op: "is_open s (int h)" and n: "n \<noteq> 0"
    and off: "offset_of s h + n \<le> BLOCK_SIZE s" and sz: "0 < i_size (inode_table s ! file_of s h)"
    and fit: "read_base s h + read_start s h + n \<le> fs_data_size s"
    and bs: "bs = c_string (TFS_Prelude.slice (fs_data s) (read_base s h + read_start s h) n)"
  shows "read_tail h (file_of s h) (i_data_block (inode_table s ! file_of s h)) (offset_of s h) n
      (both_locked (ReadLocked (Suc 0)) h s) =
    Inr ((int (length bs), bs), advanced s h (read_start s h + length bs))"
proof -
  define i where "i = file_of s h"
  define s1 where "s1 = both_locked (ReadLocked (Suc 0)) h s"
  define a where "a = read_start s h"
  let ?base = "read_base s h" and ?bnum = "i_data_block (inode_table s ! file_of s h)"
  have wf: "tfs_wf s" using inv by (rule fs_invD)
  note oh = open_handle [OF inv op] and bb = wf_bounds(6) [OF wf]
  have "locks s1 L_data_table = Unlocked" using idle by (simp add: s1_def both_locked_def)
  then have gb: "data_block_get ?bnum s1 = Inr (?base, s1)"
    using data_block_get_exec [of s1 ?bnum] wf oh(7) [OF sz] by (simp add: s1_def valid_block_number_def read_base_def)
  have first: "mem_read (?base + offset_of s h) 1 s1 = Inr ([fs_data s (?base + offset_of s h)], s1)"
    using fit n by (simp add: exec_simps s1_def slice_Suc read_start_def split: if_splits)
  have as: "a \<le> Suc (offset_of s h)" by (simp add: a_def read_start_def)
  have "Suc (offset_of s h) < size_mod" using off n bb by simp
  with skip_zero [of h s1] oh(2)
  have skip: "(if [fs_data s (?base + offset_of s h)] = [NUL]
      then upd_file (int h) (\<lambda>fe. fe\<lparr>of_offset := size_add (of_offset fe) 1\<rparr>) else ret ()) s1 = Inr ((), advanced s1 h a)"
    by (simp add: s1_def a_def advanced_open)
  have rf: "read_file (int h) (advanced s1 h a) = Inr ((handle s h)\<lparr>of_offset := a\<rparr>, advanced s1 h a)"
    using oh(2) by (simp add: exec_simps advanced_def s1_def)
  define p where "p = mem_from (?base + a) (advanced s1 h a)"
  have tp: "take n p = TFS_Prelude.slice (fs_data s) (?base + a) n" and lp: "n \<le> length p"
    using fit by (auto simp: p_def mem_from_def a_def s1_def min_def)
  have bs: "bs = c_string (take n p)" by (simp only: tp) (simp add: bs a_def)
  from memchr_length [OF lp, folded bs] obtain z where
    z: "c_memchr0 n p = Inr z" "(case z of Some k \<Rightarrow> k | None \<Rightarrow> n) = length bs" "length bs \<le> n" by blast
  have mr: "mem_read (?base + a) (length bs) (advanced s1 h a) = Inr (bs, advanced s1 h a)"
  proof -
    have "TFS_Prelude.slice (fs_data s) (?base + a) (length bs) = bs"
      using c_string_prefix [of "take n p", folded bs] z(3) unfolding tp by (simp add: min_def)
    then show ?thesis using fit z(3) by (simp add: exec_simps s1_def a_def)
  qed
  have up: "upd_file (int h) (\<lambda>fe. fe\<lparr>of_offset := size_add (of_offset fe) (length bs)\<rparr>)
      (advanced s1 h a) = Inr ((), advanced s1 h (a + length bs))"
    using as z(3) off bb oh(2) by (simp add: exec_simps advanced_def s1_def)
  have ul: "my_unlock (L_inode (int i)) (advanced s1 h x) = Inr ((), set_lock (L_inode (int i)) Unlocked (advanced s1 h x))"
    "my_unlock (L_file (int h)) (set_lock (L_inode (int i)) Unlocked (advanced s1 h x)) = Inr ((), advanced s h x)" for x
  proof -
    have t: "tfs_wf (advanced s h x)" "idle (advanced s h x)" "h < MAX_OPEN_FILES (advanced s h x)"
      "i < INODE_TABLE_SIZE (advanced s h x)" "file_of (advanced s h x) h = i"
      using fs_invD(1) [OF inv_advanced(1) [OF inv]] idle oh(1,5) by (simp_all add: i_def advanced_open, simp_all add: advanced_def)
    from unlock_both(1,2) [OF t disjI2 [OF refl]]
    show "my_unlock (L_inode (int i)) (advanced s1 h x) = Inr ((), set_lock (L_inode (int i)) Unlocked (advanced s1 h x))"
      "my_unlock (L_file (int h)) (set_lock (L_inode (int i)) Unlocked (advanced s1 h x)) = Inr ((), advanced s h x)"
      by (simp_all add: s1_def advanced_open del: set_lock_advanced)
  qed
  have "to_ssize (length bs) = int (length bs)" using z(3) off bb by (intro to_ssize_small) simp
  with gb first skip rf z mr up ul show ?thesis
    by (simp add: read_tail_def exec_simps Let_def gets_def lift_def p_def [symmetric] i_def [symmetric]
      s1_def [symmetric] a_def [symmetric])
qed

lemma tfs_read_exec:
  assumes inv: "fs_inv s" and idle: "idle s" and op: "is_open s (int h)"
    and off: "offset_of s h \<le> i_size (inode_table s ! file_of s h)"
    and sz: "i_size (inode_table s ! file_of s h) \<le> BLOCK_SIZE s"
    and fit: "read_amount s h len \<noteq> 0 \<Longrightarrow>
      read_base s h + read_start s h + read_amount s h len \<le> fs_data_size s"
  shows "tfs_read (int h) len s =
    (if read_amount s h len = 0 then Inr ((0, []), s)
     else Inr ((int (length (read_bytes s h len)), read_bytes s h len),
       advanced s h (read_start s h + length (read_bytes s h len))))"
proof (cases "read_amount s h len = 0")
  case True
  then show ?thesis by (simp add: tfs_read_start [OF inv idle op off sz])
next
  case False
  then have "offset_of s h + read_amount s h len \<le> BLOCK_SIZE s" "0 < i_size (inode_table s ! file_of s h)"
    using off sz by (auto simp: read_amount_def)
  from read_tail_exec [OF inv idle op False this fit [OF False] read_bytes_def] False show ?thesis
    by (simp add: tfs_read_start [OF inv idle op off sz])
qed

end
