(* ===== verification/FS_Init.thy ===== *)
theory FS_Init
  imports FS_Data
begin

text \<open>
  \<open>tfs_init\<close> and \<open>tfs_destroy\<close>: the state the first call builds satisfies the invariant, a
  second call does harm, and a state that was destroyed cannot be initialised again.
\<close>

section \<open>Loops over an array\<close>

lemma block_append: "block (ms @ ns) k = block ms (block ns k)"
  by (induction ms) simp_all

text \<open>A loop whose body always succeeds is the iteration of its effect.\<close>

lemma block_loop:
  assumes "\<And>i t. i < n \<Longrightarrow> P i t \<Longrightarrow> f i t = Inr ((), g i t) \<and> P (Suc i) (g i t)" and "P 0 s"
  shows "block (map f [0 ..< n]) k s = k (fold g [0 ..< n] s) \<and> P n (fold g [0 ..< n] s)"
  using assms
proof (induction n arbitrary: k)
  case 0
  then show ?case by simp
next
  case (Suc n)
  let ?t = "fold g [0 ..< n] s"
  have ih: "block (map f [0 ..< n]) (block [f n] k) s = block [f n] k ?t \<and> P n ?t"
    by (rule Suc.IH) (use Suc.prems in simp_all)
  from Suc.prems(1) [of n ?t] ih show ?case
    by (simp add: block_append call_Inr)
qed

text \<open>Setting the elements of a list one by one.\<close>

lemma take_update_drop:
  "i < length xs \<Longrightarrow> (replicate i v @ drop i xs)[i := v] = v # replicate i v @ drop (Suc i) xs"
proof -
  assume "i < length xs"
  then have "drop i xs = xs ! i # drop (Suc i) xs" by (simp add: Cons_nth_drop_Suc)
  then show ?thesis by (simp add: list_update_append replicate_app_Cons_same)
qed

lemma freeinode_loop:
  assumes "n = length (freeinode_ts s)"
  shows "block (map (\<lambda>i. set_freeinode (int i) v) [0 ..< n]) k s = k (s\<lparr>freeinode_ts := replicate n v\<rparr>)"
proof -
  let ?P = "\<lambda>i t. t = s\<lparr>freeinode_ts := replicate i v @ drop i (freeinode_ts s)\<rparr>"
  let ?g = "\<lambda>i t. t\<lparr>freeinode_ts := (freeinode_ts t)[i := v]\<rparr>"
  have "block (map (\<lambda>i. set_freeinode (int i) v) [0 ..< n]) k s = k (fold ?g [0 ..< n] s) \<and>
      ?P n (fold ?g [0 ..< n] s)"
    by (rule block_loop) (use assms in \<open>simp_all add: exec_simps take_update_drop\<close>)
  with assms show ?thesis by simp
qed

lemma free_block_loop:
  assumes "n = length (free_blocks s)"
  shows "block (map (\<lambda>i. set_free_block (int i) v) [0 ..< n]) k s = k (s\<lparr>free_blocks := replicate n v\<rparr>)"
proof -
  let ?P = "\<lambda>i t. t = s\<lparr>free_blocks := replicate i v @ drop i (free_blocks s)\<rparr>"
  let ?g = "\<lambda>i t. t\<lparr>free_blocks := (free_blocks t)[i := v]\<rparr>"
  have "block (map (\<lambda>i. set_free_block (int i) v) [0 ..< n]) k s = k (fold ?g [0 ..< n] s) \<and>
      ?P n (fold ?g [0 ..< n] s)"
    by (rule block_loop) (use assms in \<open>simp_all add: exec_simps take_update_drop\<close>)
  with assms show ?thesis by simp
qed

lemma free_file_loop:
  assumes "n = length (free_open_file_entries s)"
  shows "block (map (\<lambda>i. set_free_file (int i) v) [0 ..< n]) k s =
    k (s\<lparr>free_open_file_entries := replicate n v\<rparr>)"
proof -
  let ?P = "\<lambda>i t. t = s\<lparr>free_open_file_entries := replicate i v @ drop i (free_open_file_entries s)\<rparr>"
  let ?g = "\<lambda>i t. t\<lparr>free_open_file_entries := (free_open_file_entries t)[i := v]\<rparr>"
  have "block (map (\<lambda>i. set_free_file (int i) v) [0 ..< n]) k s = k (fold ?g [0 ..< n] s) \<and>
      ?P n (fold ?g [0 ..< n] s)"
    by (rule block_loop) (use assms in \<open>simp_all add: exec_simps take_update_drop\<close>)
  with assms show ?thesis by simp
qed

text \<open>Initialising locks that are not held changes nothing.\<close>

lemma rwlock_loop:
  assumes "idle s" and "\<And>i. i < n \<Longrightarrow> lock_exists s (c i)"
  shows "block (map (\<lambda>i. rwlock_init (c i)) [0 ..< n]) k s = k s"
proof -
  have "block (map (\<lambda>i. rwlock_init (c i)) [0 ..< n]) k s = k (fold (\<lambda>i t. t) [0 ..< n] s) \<and>
      fold (\<lambda>i t. t) [0 ..< n] s = s"
    by (rule block_loop [where P = "\<lambda>i t. t = s"]) (use assms in \<open>simp_all add: rwlock_init_def\<close>)
  then show ?thesis by simp
qed

section \<open>state_init\<close>

definition all_granted :: "heap \<Rightarrow> bool" where
  "all_granted h \<longleftrightarrow> (\<forall>m. granted h m)"

definition fresh_state :: "heap \<Rightarrow> tfs_params \<Rightarrow> tfs_state \<Rightarrow> tfs_state" where
  "fresh_state h p s = s\<lparr>fs_params := p, inode_table_set := True,
     inode_table := map (raw_inode h) [0 ..< max_inode_count p],
     freeinode_ts := replicate (max_inode_count p) FREE,
     lock_inode_len := max_inode_count p,
     fs_data := raw_byte h,
     fs_data_size := max_block_count p * block_size p,
     free_blocks := replicate (max_block_count p) FREE,
     lock_file_len := max_open_files_count p,
     open_file_table := map (raw_open_file h) [0 ..< max_open_files_count p],
     free_open_file_entries := replicate (max_open_files_count p) FREE\<rparr>"

lemma malloc_len_exact: "n < 2147483648 \<Longrightarrow> 0 < sz \<Longrightarrow> sz \<le> 56 \<Longrightarrow> malloc_len n sz = n"
proof -
  assume n: "n < 2147483648" and sz: "0 < sz" "sz \<le> 56"
  have "n * sz \<le> 2147483648 * 56" using n sz by (intro mult_le_mono) simp_all
  then show ?thesis using sz by (simp add: malloc_len_def)
qed

lemma idle_fresh [simp]: "idle (fresh_state h p s) = idle s"
  by (simp add: idle_def fresh_state_def)

lemma fresh_fields [simp]:
  "fs_params (fresh_state h p s) = p"
  "inode_table_set (fresh_state h p s) = True"
  "inode_table (fresh_state h p s) = map (raw_inode h) [0 ..< max_inode_count p]"
  "freeinode_ts (fresh_state h p s) = replicate (max_inode_count p) FREE"
  "lock_inode_len (fresh_state h p s) = max_inode_count p"
  "fs_data (fresh_state h p s) = raw_byte h"
  "fs_data_size (fresh_state h p s) = max_block_count p * block_size p"
  "free_blocks (fresh_state h p s) = replicate (max_block_count p) FREE"
  "lock_file_len (fresh_state h p s) = max_open_files_count p"
  "open_file_table (fresh_state h p s) = map (raw_open_file h) [0 ..< max_open_files_count p]"
  "free_open_file_entries (fresh_state h p s) = replicate (max_open_files_count p) FREE"
  by (simp_all add: fresh_state_def)

lemma state_init_exec:
  assumes "\<not> inode_table_set s" and "idle s" and p: "wf_params p" and "all_granted h"
  shows "state_init h p s = Inr (0, fresh_state h p s)"
proof -
  note b = p [unfolded wf_params_def]
  have ml: "malloc_len (max_inode_count p) sz = max_inode_count p"
    "malloc_len (max_block_count p) sz = max_block_count p"
    "malloc_len (max_open_files_count p) sz = max_open_files_count p"
    if "0 < sz" "sz \<le> 56" for sz
    using b that by (simp_all add: malloc_len_exact)
  have mul: "size_mul (max_block_count p) (block_size p) = max_block_count p * block_size p"
    using b by simp
  define s1 where "s1 = mallocs h (s\<lparr>fs_params := p\<rparr>)"
  have s1: "length (freeinode_ts s1) = max_inode_count p" "length (free_blocks s1) = max_block_count p"
    "length (free_open_file_entries s1) = max_open_files_count p"
    "lock_inode_len s1 = max_inode_count p" "lock_file_len s1 = max_open_files_count p"
    "idle s1"
    using assms ml by (simp_all add: s1_def mallocs_def malloc_array_def all_granted_def idle_def)
  have "state_init h p s =
      block (map (\<lambda>i. set_freeinode (int i) FREE) [0 ..< max_inode_count p]) (
      block (map (\<lambda>i. set_free_block (int i) FREE) [0 ..< max_block_count p]) (
      block (map (\<lambda>i. set_free_file (int i) FREE) [0 ..< max_open_files_count p]) (
      block (map (\<lambda>i. rwlock_init (L_inode (int i))) [0 ..< max_inode_count p]) (
      block (map (\<lambda>i. rwlock_init (L_file (int i))) [0 ..< max_open_files_count p]) (
      ret 0))))) s1"
    using assms by (simp add: state_init_def exec_simps all_granted_def s1_def)
  also have "\<dots> = Inr (0, fresh_state h p s)"
    using s1 ml mul assms
    by (simp add: freeinode_loop free_block_loop free_file_loop rwlock_loop exec_simps)
      (simp add: s1_def mallocs_def fresh_state_def malloc_array_def all_granted_def)
  finally show ?thesis .
qed

section \<open>The root directory\<close>

text \<open>The loop of \<open>inode_create\<close> that marks every entry of the new directory as unused.\<close>

definition cleared :: "memory \<Rightarrow> nat \<Rightarrow> memory" where
  "cleared m n = fold (\<lambda>i m. store m (d_inumber_addr 0 i) (int_enc (- 1))) [0 ..< n] m"

lemma cleared_Suc: "cleared m (Suc n) = store (cleared m n) (d_inumber_addr 0 n) (int_enc (- 1))"
  by (simp add: cleared_def)

lemma cleared_outside: "44 * n \<le> x \<Longrightarrow> cleared m n x = m x"
proof (induction n)
  case 0
  then show ?case by (simp add: cleared_def)
next
  case (Suc n)
  then show ?case by (simp add: cleared_Suc store_outside d_inumber_addr_def)
qed

lemma cleared_name [simp]:
  "TFS_Prelude.slice (cleared m n) (d_name_addr 0 k) 40 = TFS_Prelude.slice m (d_name_addr 0 k) 40"
proof (induction n)
  case 0
  then show ?case by (simp add: cleared_def)
next
  case (Suc n)
  have "d_name_addr 0 k + 40 \<le> d_inumber_addr 0 n \<or>
      d_inumber_addr 0 n + length (int_enc (- 1)) \<le> d_name_addr 0 k"
    by (simp add: d_name_addr_def d_inumber_addr_def) presburger
  then have "TFS_Prelude.slice (cleared m (Suc n)) (d_name_addr 0 k) 40 =
      TFS_Prelude.slice (cleared m n) (d_name_addr 0 k) 40"
    unfolding cleared_Suc by (rule slice_store_other)
  with Suc show ?case by simp
qed

lemma cleared_inumber:
  "k < n \<Longrightarrow> TFS_Prelude.slice (cleared m n) (d_inumber_addr 0 k) 4 = int_enc (- 1)"
proof (induction n)
  case 0
  then show ?case by simp
next
  case (Suc n)
  show ?case
  proof (cases "k = n")
    case True
    then show ?thesis by (simp add: cleared_Suc)
  next
    case False
    then have "d_inumber_addr 0 k + 4 \<le> d_inumber_addr 0 n \<or>
        d_inumber_addr 0 n + length (int_enc (- 1)) \<le> d_inumber_addr 0 k"
      using Suc.prems by (simp add: d_inumber_addr_def)
    then have "TFS_Prelude.slice (cleared m (Suc n)) (d_inumber_addr 0 k) 4 =
        TFS_Prelude.slice (cleared m n) (d_inumber_addr 0 k) 4"
      unfolding cleared_Suc by (rule slice_store_other)
    with Suc False show ?thesis by simp
  qed
qed

text \<open>The names in the memory of the first block start out empty.\<close>

definition blank_names :: "heap \<Rightarrow> tfs_params \<Rightarrow> bool" where
  "blank_names h p \<longleftrightarrow> (\<forall>i < block_size p div 44. raw_byte h (44 * i) = NUL)"

definition init_state :: "heap \<Rightarrow> tfs_params \<Rightarrow> tfs_state \<Rightarrow> tfs_state" where
  "init_state h p s = (fresh_state h p s)
     \<lparr>freeinode_ts := (replicate (max_inode_count p) FREE)[0 := TAKEN],
      free_blocks := (replicate (max_block_count p) FREE)[0 := TAKEN],
      inode_table := (map (raw_inode h) [0 ..< max_inode_count p])[0 := (raw_inode h 0)
        \<lparr>i_node_type := T_DIRECTORY, i_size := block_size p, i_data_block := 0\<rparr>],
      fs_data := cleared (raw_byte h) (block_size p div 44)\<rparr>"

lemma first_free_replicate: "0 < n \<Longrightarrow> first_free (replicate n FREE) = Some 0"
  by (cases n) (simp_all add: first_free_def)

lemma clear_entries_loop:
  assumes "44 * n \<le> fs_data_size s"
  shows "block (map (\<lambda>i. write_d_inumber 0 i (- 1)) [0 ..< n]) k s =
    k (s\<lparr>fs_data := cleared (fs_data s) n\<rparr>)"
proof -
  let ?P = "\<lambda>i t. t = s\<lparr>fs_data := cleared (fs_data s) i\<rparr>"
  let ?g = "\<lambda>i t. t\<lparr>fs_data := store (fs_data t) (d_inumber_addr 0 i) (int_enc (- 1))\<rparr>"
  have "block (map (\<lambda>i. write_d_inumber 0 i (- 1)) [0 ..< n]) k s = k (fold ?g [0 ..< n] s) \<and>
      ?P n (fold ?g [0 ..< n] s)"
  proof (rule block_loop)
    show "?P 0 s" by (simp add: cleared_def)
    show "write_d_inumber 0 i (- 1) t = Inr ((), ?g i t) \<and> ?P (Suc i) (?g i t)"
      if "i < n" and "?P i t" for i t
    proof -
      have "d_inumber_addr 0 i + 4 \<le> fs_data_size t"
        using that assms by (simp add: d_inumber_addr_def)
      with that show ?thesis by (simp add: write_d_inumber_def exec_simps cleared_Suc)
    qed
  qed
  then show ?thesis by simp
qed

lemma tfs_init_exec:
  assumes "\<not> inode_table_set s" and "idle s" and p: "wf_params p" and "all_granted h"
    and pos: "0 < max_inode_count p" "0 < max_block_count p"
  shows "tfs_init h (Some p) s = Inr (0, init_state h p s)"
proof -
  note b = p [unfolded wf_params_def]
  let ?s1 = "fresh_state h p s"
  let ?s2 = "?s1\<lparr>freeinode_ts := (replicate (max_inode_count p) FREE)[0 := TAKEN],
    inode_table := (map (raw_inode h) [0 ..< max_inode_count p])[0 := (raw_inode h 0)
      \<lparr>i_node_type := T_DIRECTORY\<rparr>]\<rparr>"
  let ?s3 = "?s2\<lparr>free_blocks := (replicate (max_block_count p) FREE)[0 := TAKEN],
    inode_table := (map (raw_inode h) [0 ..< max_inode_count p])[0 := (raw_inode h 0)
      \<lparr>i_node_type := T_DIRECTORY, i_size := block_size p, i_data_block := 0\<rparr>]\<rparr>"
  have wf: "tfs_wf ?s1" using p by (simp add: tfs_wf_def)
  have wf2: "tfs_wf ?s2" using p by (simp add: tfs_wf_def)
  have wf3: "tfs_wf ?s3" using p by (simp add: tfs_wf_def)
  have l: "idle ?s2" "idle ?s3" "idle ?s1" using assms(2) by simp_all
  have a: "inode_alloc ?s1 = Inr (0, ?s1\<lparr>freeinode_ts := (replicate (max_inode_count p) FREE)[0 := TAKEN]\<rparr>)"
    using inode_alloc_exec [OF wf] l(3) pos first_free_replicate [of "max_inode_count p"]
    by simp
  have d: "data_block_alloc ?s2 = Inr (0, ?s2\<lparr>free_blocks := (replicate (max_block_count p) FREE)[0 := TAKEN]\<rparr>)"
    using data_block_alloc_exec [of ?s2] wf2 l(1) pos first_free_replicate [of "max_block_count p"]
    by simp
  have g: "data_block_get 0 ?s3 = Inr (0, ?s3)"
    using data_block_get_exec [of ?s3 0] wf3 l(2) pos
    by (simp add: valid_block_number_def)
  have "44 * (block_size p div 44) \<le> block_size p" by simp
  also have "\<dots> \<le> max_block_count p * block_size p" using pos by simp
  finally have sz: "44 * (block_size p div 44) \<le> fs_data_size ?s3" by simp
  have "inode_create T_DIRECTORY ?s1 = Inr (0, init_state h p s)"
    using a d g clear_entries_loop [OF sz, of "ret 0"] pos
    by (simp add: inode_create_def exec_simps MAX_DIR_ENTRIES_def init_state_def)
  then show ?thesis
    using state_init_exec [OF assms(1-4)]
    by (simp add: tfs_init_def exec_simps ROOT_DIR_INUM_def)
qed

lemma init_fields [simp]:
  "fs_params (init_state h p s) = p"
  "inode_table_set (init_state h p s) = True"
  "inode_table (init_state h p s) = (map (raw_inode h) [0 ..< max_inode_count p])[0 := (raw_inode h 0)
     \<lparr>i_node_type := T_DIRECTORY, i_size := block_size p, i_data_block := 0\<rparr>]"
  "freeinode_ts (init_state h p s) = (replicate (max_inode_count p) FREE)[0 := TAKEN]"
  "lock_inode_len (init_state h p s) = max_inode_count p"
  "fs_data (init_state h p s) = cleared (raw_byte h) (block_size p div 44)"
  "fs_data_size (init_state h p s) = max_block_count p * block_size p"
  "free_blocks (init_state h p s) = (replicate (max_block_count p) FREE)[0 := TAKEN]"
  "lock_file_len (init_state h p s) = max_open_files_count p"
  "open_file_table (init_state h p s) = map (raw_open_file h) [0 ..< max_open_files_count p]"
  "free_open_file_entries (init_state h p s) = replicate (max_open_files_count p) FREE"
  "idle (init_state h p s) = idle s"
  by (simp_all add: init_state_def)

lemma init_taken: "i < n \<Longrightarrow> (replicate n FREE)[0 := TAKEN] ! i = TAKEN \<longleftrightarrow> i = 0"
  by (auto simp: nth_update)

lemma blank_name:
  assumes "blank_names h p" and "k < block_size p div 44"
  shows "c_string (TFS_Prelude.slice (raw_byte h) (d_name_addr 0 k) 40) = []"
    and "NUL \<in> set (TFS_Prelude.slice (raw_byte h) (d_name_addr 0 k) 40)"
proof -
  have "raw_byte h (44 * k) = NUL" using assms by (simp add: blank_names_def)
  moreover have "TFS_Prelude.slice (raw_byte h) (d_name_addr 0 k) 40 =
      raw_byte h (44 * k) # TFS_Prelude.slice (raw_byte h) (Suc (44 * k)) 39"
    using slice_Suc [of "raw_byte h" "d_name_addr 0 k" 39] by (simp add: d_name_addr_def)
  ultimately show "c_string (TFS_Prelude.slice (raw_byte h) (d_name_addr 0 k) 40) = []"
    and "NUL \<in> set (TFS_Prelude.slice (raw_byte h) (d_name_addr 0 k) 40)"
    by (simp_all add: c_string_def)
qed

lemma root_dents_init:
  assumes "blank_names h p" and "0 < max_inode_count p"
  shows "root_dents (init_state h p s) = replicate (block_size p div 44) ([], - 1)"
proof (rule nth_equalityI)
  fix k
  assume "k < length (root_dents (init_state h p s))"
  then have k: "k < block_size p div 44" by (simp add: MAX_DIR_ENTRIES_def)
  have base: "root_base (init_state h p s) = 0" using assms(2) by (simp add: root_base_def)
  show "root_dents (init_state h p s) ! k = replicate (block_size p div 44) ([], - 1) ! k"
    using k blank_name(1) [OF assms(1) k] cleared_inumber [OF k]
    by (simp add: root_dents_def MAX_DIR_ENTRIES_def base dent_def)
qed (simp add: MAX_DIR_ENTRIES_def)

lemma init_inv:
  assumes p: "wf_params p" and blank: "blank_names h p"
    and pos: "0 < max_inode_count p" "0 < max_block_count p"
  shows "fs_inv (init_state h p s)"
proof
  let ?t = "init_state h p s"
  have base: "root_base ?t = 0" using pos by (simp add: root_base_def)
  have h: "holds_block ?t i \<longleftrightarrow> i = 0" for i
    using pos p by (auto simp: holds_block_def init_taken wf_params_def)
  show "tfs_wf ?t" using p by (simp add: tfs_wf_def)
  show "root_ok ?t"
    using pos p blank_name(2) [OF blank]
    by (simp add: root_ok_def valid_block_number_def terminated_def base MAX_DIR_ENTRIES_def
        wf_params_def)
  show "entries_inv ?t"
    using root_dents_init [OF blank pos(1)] by (simp add: entries_inv_def entry_ok_def)
  show "links_inv ?t" by (auto simp: links_inv_def init_taken)
  show "blocks_inv ?t" using pos by (auto simp: blocks_inv_def h valid_block_number_def)
  show "sizes_inv ?t" using pos by (auto simp: sizes_inv_def init_taken)
  show "handles_inv ?t" by (simp add: handles_inv_def)
qed

section \<open>Initialising twice, and after tfs_destroy\<close>

text \<open>\<open>state_init\<close> stores the new parameters before it looks whether there is a state already.\<close>

lemma tfs_init_again:
  assumes "inode_table_set s"
  shows "tfs_init h (Some p) s = Inr (- 1, s\<lparr>fs_params := p\<rparr>)"
proof -
  have "state_init h p s = Inr (- 1, s\<lparr>fs_params := p\<rparr>)"
    using assms by (simp add: state_init_def exec_simps)
  then show ?thesis by (simp add: tfs_init_def exec_simps)
qed

definition destroyed :: "tfs_state \<Rightarrow> tfs_state" where
  "destroyed s = s\<lparr>locks := (\<lambda>l. if lock_exists s l then Destroyed else locks s l),
     lock_file_len := 0, inode_table_set := False, inode_table := [], lock_inode_len := 0,
     freeinode_ts := [], fs_data_size := 0, free_blocks := [], open_file_table := [],
     free_open_file_entries := []\<rparr>"

lemma destroy_inode_locks:
  assumes "idle s" and "n \<le> lock_inode_len s"
  shows "block (map (\<lambda>i. rwlock_destroy (L_inode (int i))) [0 ..< n]) k s =
    k (s\<lparr>locks := (\<lambda>l. if \<exists>i<n. l = L_inode (int i) then Destroyed else locks s l)\<rparr>)"
proof -
  let ?P = "\<lambda>m t. t = s\<lparr>locks := (\<lambda>l. if \<exists>i<m. l = L_inode (int i) then Destroyed else locks s l)\<rparr>"
  let ?g = "\<lambda>i t. set_lock (L_inode (int i)) Destroyed t"
  have "block (map (\<lambda>i. rwlock_destroy (L_inode (int i))) [0 ..< n]) k s = k (fold ?g [0 ..< n] s) \<and>
      ?P n (fold ?g [0 ..< n] s)"
  proof (rule block_loop)
    show "?P 0 s" by simp
    show "rwlock_destroy (L_inode (int i)) t = Inr ((), ?g i t) \<and> ?P (Suc i) (?g i t)"
      if "i < n" and t: "?P i t" for i t
    proof -
      have "(\<lambda>l. if \<exists>j<i. l = L_inode (int j) then Destroyed else locks s l)(L_inode (int i) := Destroyed) =
          (\<lambda>l. if \<exists>j<Suc i. l = L_inode (int j) then Destroyed else locks s l)"
        by (auto simp: fun_eq_iff less_Suc_eq)
      with that assms show ?thesis by (simp add: rwlock_destroy_def set_lock_def)
    qed
  qed
  then show ?thesis by simp
qed

lemma destroy_file_locks:
  assumes "\<And>i. i < n \<Longrightarrow> locks s (L_file (int i)) = Unlocked" and "n \<le> lock_file_len s"
  shows "block (map (\<lambda>i. rwlock_destroy (L_file (int i))) [0 ..< n]) k s =
    k (s\<lparr>locks := (\<lambda>l. if \<exists>i<n. l = L_file (int i) then Destroyed else locks s l)\<rparr>)"
proof -
  let ?P = "\<lambda>m t. t = s\<lparr>locks := (\<lambda>l. if \<exists>i<m. l = L_file (int i) then Destroyed else locks s l)\<rparr>"
  let ?g = "\<lambda>i t. set_lock (L_file (int i)) Destroyed t"
  have "block (map (\<lambda>i. rwlock_destroy (L_file (int i))) [0 ..< n]) k s = k (fold ?g [0 ..< n] s) \<and>
      ?P n (fold ?g [0 ..< n] s)"
  proof (rule block_loop)
    show "?P 0 s" by simp
    show "rwlock_destroy (L_file (int i)) t = Inr ((), ?g i t) \<and> ?P (Suc i) (?g i t)"
      if "i < n" and t: "?P i t" for i t
    proof -
      have "(\<lambda>l. if \<exists>j<i. l = L_file (int j) then Destroyed else locks s l)(L_file (int i) := Destroyed) =
          (\<lambda>l. if \<exists>j<Suc i. l = L_file (int j) then Destroyed else locks s l)"
        by (auto simp: fun_eq_iff less_Suc_eq)
      with that assms show ?thesis by (simp add: rwlock_destroy_def set_lock_def)
    qed
  qed
  then show ?thesis by simp
qed

lemma tfs_destroy_exec:
  assumes "tfs_wf s" and "idle s"
  shows "tfs_destroy s = Inr (0, destroyed s)"
proof -
  let ?l1 = "\<lambda>l. if \<exists>i<INODE_TABLE_SIZE s. l = L_inode (int i) then Destroyed else locks s l"
  let ?l2 = "\<lambda>l. if \<exists>i<MAX_OPEN_FILES s. l = L_file (int i) then Destroyed else ?l1 l"
  have l: "(((?l2(L_inode_table := Destroyed))(L_dir_table := Destroyed))(L_data_table := Destroyed))
      (L_file_table := Destroyed) = (\<lambda>l. if lock_exists s l then Destroyed else locks s l)"
  proof
    fix l
    show "((((?l2(L_inode_table := Destroyed))(L_dir_table := Destroyed))(L_data_table := Destroyed))
      (L_file_table := Destroyed)) l = (if lock_exists s l then Destroyed else locks s l)"
    proof (cases l)
      case (L_inode d)
      then show ?thesis
        using assms(1) zero_le_imp_eq_int [of d] by (auto simp: wf_simps; blast)
    next
      case (L_file d)
      then show ?thesis
        using assms(1) zero_le_imp_eq_int [of d] by (auto simp: wf_simps; blast)
    qed simp_all
  qed
  have "state_destroy s = Inr (0, destroyed s)"
    using assms l
    by (simp add: state_destroy_def exec_simps destroy_inode_locks destroy_file_locks wf_simps
        rwlock_destroy_def set_lock_def destroyed_def cong: if_cong)
  then show ?thesis by (simp add: tfs_destroy_def exec_simps)
qed

text \<open>
  The four table locks are initialised statically and never again: after \<open>tfs_destroy\<close> the
  next \<open>tfs_init\<close> takes a destroyed lock.
\<close>

lemma state_init_locks:
  assumes "\<not> inode_table_set s" and "wf_params p" and "all_granted h"
  shows "\<exists>t. state_init h p s = Inr (0, t) \<and> locks t L_inode_table = locks s L_inode_table"
proof -
  note b = assms(2) [unfolded wf_params_def]
  have ml: "malloc_len (max_inode_count p) sz = max_inode_count p"
    "malloc_len (max_block_count p) sz = max_block_count p"
    "malloc_len (max_open_files_count p) sz = max_open_files_count p"
    if "0 < sz" "sz \<le> 56" for sz
    using b that by (simp_all add: malloc_len_exact)
  define s1 where "s1 = mallocs h (s\<lparr>fs_params := p\<rparr>)"
  have s1: "length (freeinode_ts s1) = max_inode_count p" "length (free_blocks s1) = max_block_count p"
    "length (free_open_file_entries s1) = max_open_files_count p"
    "lock_inode_len s1 = max_inode_count p" "lock_file_len s1 = max_open_files_count p"
    "locks s1 = locks s"
    using assms ml by (simp_all add: s1_def mallocs_def malloc_array_def all_granted_def)
  define s2 where "s2 = s1\<lparr>freeinode_ts := replicate (max_inode_count p) FREE,
    free_blocks := replicate (max_block_count p) FREE,
    free_open_file_entries := replicate (max_open_files_count p) FREE\<rparr>"
  have e: "lock_exists t = lock_exists s1" if "lock_inode_len t = lock_inode_len s1"
    "lock_file_len t = lock_file_len s1" for t
  proof
    show "lock_exists t l = lock_exists s1 l" for l using that by (cases l) simp_all
  qed
  let ?Q = "\<lambda>t. lock_inode_len t = max_inode_count p \<and> lock_file_len t = max_open_files_count p \<and>
    locks t L_inode_table = locks s L_inode_table"
  let ?gi = "\<lambda>i. set_lock (L_inode (int i)) Unlocked" and ?gf = "\<lambda>i. set_lock (L_file (int i)) Unlocked"
  have i: "block (map (\<lambda>i. rwlock_init (L_inode (int i))) [0 ..< max_inode_count p]) k t =
      k (fold ?gi [0 ..< max_inode_count p] t) \<and> ?Q (fold ?gi [0 ..< max_inode_count p] t)"
    if "?Q t" for k :: "int fsop" and t
    by (rule block_loop [where P = "\<lambda>_. ?Q"]) (use that in \<open>simp_all add: rwlock_init_def\<close>)
  have f: "block (map (\<lambda>i. rwlock_init (L_file (int i))) [0 ..< max_open_files_count p]) k t =
      k (fold ?gf [0 ..< max_open_files_count p] t) \<and> ?Q (fold ?gf [0 ..< max_open_files_count p] t)"
    if "?Q t" for k :: "int fsop" and t
    by (rule block_loop [where P = "\<lambda>_. ?Q"]) (use that in \<open>simp_all add: rwlock_init_def\<close>)
  have q: "?Q s2" using s1 by (simp add: s2_def)
  have "state_init h p s =
      block (map (\<lambda>i. rwlock_init (L_inode (int i))) [0 ..< max_inode_count p]) (
      block (map (\<lambda>i. rwlock_init (L_file (int i))) [0 ..< max_open_files_count p]) (ret 0)) s2"
    using assms s1
    by (simp add: state_init_def exec_simps all_granted_def freeinode_loop free_block_loop
        free_file_loop s2_def flip: s1_def)
  with i [OF q] f show ?thesis by (simp add: exec_simps)
qed

lemma tfs_init_after_destroy:
  assumes "tfs_wf s" and "idle s" and "wf_params p" and "all_granted h"
  shows "tfs_init h (Some p) (destroyed s) = Inl LockMisuse"
proof -
  have "\<not> inode_table_set (destroyed s)" by (simp add: destroyed_def)
  from state_init_locks [OF this assms(3,4)] obtain t where
    t: "state_init h p (destroyed s) = Inr (0, t)" "locks t L_inode_table = Destroyed"
    by (auto simp: destroyed_def)
  then have "my_w_lock L_inode_table t = Inl LockMisuse" by (simp add: my_w_lock_def)
  then have "inode_create T_DIRECTORY t = Inl LockMisuse"
    by (simp add: inode_create_def inode_alloc_def exec_simps)
  with t show ?thesis by (simp add: tfs_init_def exec_simps)
qed

end
