(* ===== verification/FS_Contents.thy ===== *)
theory FS_Contents
  imports FS_Init
begin

text \<open>
  The bytes of each file, and which operations change whose: the contents of an inode as a
  list, the effect of a write on the file it goes to, and the frame of every operation on the
  others.  It rests on the blocks of different inodes being disjoint.
\<close>

definition contents :: "tfs_state \<Rightarrow> nat \<Rightarrow> char list" where
  "contents s i =
     (if i_size (inode_table s ! i) = 0 then []
      else TFS_Prelude.slice (fs_data s) (nat (block_of s i) * BLOCK_SIZE s)
        (i_size (inode_table s ! i)))"

lemma length_contents [simp]: "length (contents s i) = i_size (inode_table s ! i)"
  by (simp add: contents_def)

lemma contents_set_lock [simp]: "contents (set_lock l v s) i = contents s i"
  by (simp add: contents_def)

text \<open>A file keeps its contents when its inode stays and its bytes stay.\<close>

lemma contents_cong:
  assumes "inode_table t ! i = inode_table s ! i" and "fs_params t = fs_params s"
    and "\<And>x. 0 < i_size (inode_table s ! i) \<Longrightarrow> nat (block_of s i) * BLOCK_SIZE s \<le> x \<Longrightarrow>
      x < nat (block_of s i) * BLOCK_SIZE s + i_size (inode_table s ! i) \<Longrightarrow>
      fs_data t x = fs_data s x"
  shows "contents t i = contents s i"
proof (cases "0 < i_size (inode_table s ! i)")
  case True
  then have "TFS_Prelude.slice (fs_data t) (nat (block_of s i) * BLOCK_SIZE s) (i_size (inode_table s ! i)) =
      TFS_Prelude.slice (fs_data s) (nat (block_of s i) * BLOCK_SIZE s) (i_size (inode_table s ! i))"
    by (intro slice_cong assms(3)) simp_all
  with assms show ?thesis by (simp add: contents_def)
next
  case False
  with assms show ?thesis by (simp add: contents_def)
qed

text \<open>A write inside another block.\<close>

lemma contents_store:
  assumes inv: "fs_inv s" and i: "freeinode_ts s ! i = TAKEN" "i < INODE_TABLE_SIZE s"
    and b: "0 \<le> b" "holds_block s i \<Longrightarrow> b \<noteq> block_of s i" and off: "off + length bs \<le> BLOCK_SIZE s"
    and t: "inode_table t ! i = inode_table s ! i" "fs_params t = fs_params s"
    and d: "\<And>x. x < nat b * BLOCK_SIZE s + off \<or> nat b * BLOCK_SIZE s + off + length bs \<le> x \<Longrightarrow>
      fs_data t x = fs_data s x"
  shows "contents t i = contents s i"
proof (rule contents_cong [OF t])
  fix x
  assume sz: "0 < i_size (inode_table s ! i)" and x: "nat (block_of s i) * BLOCK_SIZE s \<le> x"
    "x < nat (block_of s i) * BLOCK_SIZE s + i_size (inode_table s ! i)"
  have h: "holds_block s i" using i sz by (simp add: holds_block_def)
  then have "0 \<le> block_of s i" using fs_invD(5) [OF inv]
    by (simp add: blocks_inv_def valid_block_number_def)
  with b h have ne: "nat (block_of s i) \<noteq> nat b" by (simp add: nat_eq_iff2)
  have "i_size (inode_table s ! i) \<le> BLOCK_SIZE s"
    using fs_invD(6) [OF inv] i by (simp add: sizes_inv_def)
  then have "x < nat b * BLOCK_SIZE s \<or> nat b * BLOCK_SIZE s + BLOCK_SIZE s \<le> x"
    using block_disjoint [OF ne, of "BLOCK_SIZE s" x] x by linarith
  then show "fs_data t x = fs_data s x" using off by (intro d) linarith
qed

text \<open>The root directory's block is nobody else's, so its entries are nobody's contents.\<close>

lemma root_base_block: "root_base s = nat (block_of s 0) * BLOCK_SIZE s"
  by (simp add: root_base_def)

lemma entry_in_block: "k < MAX_DIR_ENTRIES s \<Longrightarrow> 44 * k + 44 \<le> BLOCK_SIZE s"
  by (simp add: MAX_DIR_ENTRIES_def)

lemma contents_dir_update:
  assumes inv: "fs_inv s" and i: "freeinode_ts s ! i = TAKEN" "0 < i" "i < INODE_TABLE_SIZE s"
    and k: "k < MAX_DIR_ENTRIES s" and t: "t = s\<lparr>fs_data := m\<rparr>"
    and m: "\<And>x. x < root_base s + 44 * k \<or> root_base s + 44 * k + 44 \<le> x \<Longrightarrow> m x = fs_data s x"
  shows "contents t i = contents s i"
proof (rule contents_cong)
  note w = fs_invD [OF inv]
  fix x
  assume sz: "0 < i_size (inode_table s ! i)" and x: "nat (block_of s i) * BLOCK_SIZE s \<le> x"
    "x < nat (block_of s i) * BLOCK_SIZE s + i_size (inode_table s ! i)"
  have h: "holds_block s i" using i sz by (simp add: holds_block_def)
  then have "block_of s i \<noteq> block_of s 0" using i(2) block_of_not_root [OF w(5,2)] by simp
  moreover have "0 \<le> block_of s i" "0 \<le> block_of s 0"
    using w(2,5) h by (simp_all add: blocks_inv_def valid_block_number_def root_ok_def)
  ultimately have ne: "nat (block_of s i) \<noteq> nat (block_of s 0)" by (simp add: nat_eq_iff2)
  have "i_size (inode_table s ! i) \<le> BLOCK_SIZE s" using w(6) i by (simp add: sizes_inv_def)
  then have "x < root_base s \<or> root_base s + BLOCK_SIZE s \<le> x"
    using block_disjoint [OF ne, of "BLOCK_SIZE s" x] x by (simp add: root_base_block)
  then have "m x = fs_data s x" using entry_in_block [OF k] by (intro m) linarith
  then show "fs_data t x = fs_data s x" by (simp add: t)
qed (simp_all add: t)

lemma contents_entry_added [simp]:
  assumes "fs_inv s" and "freeinode_ts s ! i = TAKEN" and "0 < i" and "i < INODE_TABLE_SIZE s"
    and v: "valid_name v"
  shows "contents (entry_added s v d) i = contents s i"
proof (cases "first_index (\<lambda>e. snd e = - 1) (root_dents s)")
  case None
  then show ?thesis by (simp add: entry_added_def)
next
  case (Some k)
  then have k: "k < MAX_DIR_ENTRIES s" using first_index_SomeD [OF Some] by simp
  show ?thesis
  proof (rule contents_dir_update [OF assms(1-4) k])
    show "entry_added s v d = s\<lparr>fs_data := put_dent (fs_data s) (root_base s) k v d\<rparr>"
      using Some by (simp add: entry_added_def)
    show "put_dent (fs_data s) (root_base s) k v d x = fs_data s x"
      if "x < root_base s + 44 * k \<or> root_base s + 44 * k + 44 \<le> x" for x
      using put_dent_outside [of v x "root_base s" k "fs_data s" d] that v
      by (auto simp: valid_name_def)
  qed
qed

lemma contents_link_added [simp]:
  assumes "fs_inv s" and "freeinode_ts s ! i = TAKEN" and "0 < i" and "i < INODE_TABLE_SIZE s"
  shows "contents (link_added s v d) i = contents s i"
  using contents_entry_added [OF assms, of v d] by (cases "valid_name v") (simp_all add: link_added_def)

text \<open>Unlinking a name leaves the contents of every file that survives.\<close>

lemma contents_unlinked:
  assumes inv: "fs_inv s" and i: "freeinode_ts s ! i = TAKEN" "0 < i" "i < INODE_TABLE_SIZE s"
    and k: "k < MAX_DIR_ENTRIES s"
  shows "contents (unlinked s j k) i = contents s i"
proof -
  have "contents (s\<lparr>fs_data := wipe_dent (fs_data s) (root_base s) k\<rparr>) i = contents s i"
    by (rule contents_dir_update [OF inv i k refl]) (rule wipe_dent_outside)
  moreover have "inode_table (unlinked s j k) ! i = inode_table s ! i \<or>
      (inode_table (unlinked s j k) ! i = (inode_table s ! i)\<lparr>i_count := i_count (inode_table s ! i) - 1\<rparr>)"
    by (auto simp: unlinked_def Let_def nth_update)
  ultimately show ?thesis
    by (auto simp: contents_def unlinked_def Let_def nth_update)
qed

section \<open>Writing\<close>

lemma written_inode:
  assumes "fs_inv s" and "is_open s (int h)"
  shows "inode_table (written s h fb b bs) ! file_of s h = (inode_table s ! file_of s h)
    \<lparr>i_data_block := int b,
     i_size := max (i_size (inode_table s ! file_of s h)) (offset_of s h + length bs)\<rparr>"
    and "j \<noteq> file_of s h \<Longrightarrow> inode_table (written s h fb b bs) ! j = inode_table s ! j"
  using open_handle(6) [OF assms] by (simp_all add: written_def)

text \<open>The file a write goes to: what was there, overwritten from the offset on.\<close>

lemma contents_written:
  assumes inv: "fs_inv s" and op: "is_open s (int h)"
    and wb: "write_block s (file_of s h) = Some (b, fb)"
    and off: "offset_of s h \<le> i_size (inode_table s ! file_of s h)" and ne: "bs \<noteq> []"
  shows "contents (written s h fb b bs) (file_of s h) =
    take (offset_of s h) (contents s (file_of s h)) @ bs @
    drop (offset_of s h + length bs) (contents s (file_of s h))"
proof -
  let ?i = "file_of s h" and ?o = "offset_of s h"
  define n where "n = i_size (inode_table s ! ?i)"
  let ?a = "b * BLOCK_SIZE s"
  have c: "contents (written s h fb b bs) ?i =
      TFS_Prelude.slice (store (fs_data s) (?a + ?o) bs) ?a (max n (?o + length bs))"
    using ne written_inode(1) [OF inv op, of fb b bs]
    by (simp add: contents_def n_def) (simp add: written_def)
  also have "\<dots> = TFS_Prelude.slice (fs_data s) ?a ?o @ bs @
      TFS_Prelude.slice (fs_data s) (?a + ?o + length bs) (max n (?o + length bs) - (?o + length bs))"
    by (rule slice_store_within) simp
  also have "max n (?o + length bs) - (?o + length bs) = n - (?o + length bs)" by simp
  finally have eq: "contents (written s h fb b bs) ?i = TFS_Prelude.slice (fs_data s) ?a ?o @ bs @
      TFS_Prelude.slice (fs_data s) (?a + ?o + length bs) (n - (?o + length bs))" .
  show ?thesis
  proof (cases "n = 0")
    case True
    with off eq show ?thesis by (simp add: n_def contents_def)
  next
    case False
    then have "b = nat (block_of s ?i)" using wb by (simp add: write_block_def n_def)
    then have "contents s ?i = TFS_Prelude.slice (fs_data s) ?a n"
      using False by (simp add: contents_def n_def)
    with eq off show ?thesis by (simp add: n_def min_def add.assoc)
  qed
qed

text \<open>Every other file that exists keeps its contents, provided the handle is not stale.\<close>

lemma contents_written_other:
  assumes inv: "fs_inv s" and op: "is_open s (int h)"
    and live: "freeinode_ts s ! file_of s h = TAKEN"
    and wb: "write_block s (file_of s h) = Some (b, fb)"
    and off: "offset_of s h + length bs \<le> BLOCK_SIZE s"
    and i: "freeinode_ts s ! i = TAKEN" "i < INODE_TABLE_SIZE s" "i \<noteq> file_of s h"
  shows "contents (written s h fb b bs) i = contents s i"
proof (rule contents_store [OF inv i(1,2) _ _ off])
  show "(0::int) \<le> int b" by simp
  show "int b \<noteq> block_of s i" if "holds_block s i"
    using write_block_valid(5) [OF inv op wb that live i(3)] by simp
  show "inode_table (written s h fb b bs) ! i = inode_table s ! i"
    using written_inode(2) [OF inv op i(3)] by simp
  show "fs_data (written s h fb b bs) x = fs_data s x"
    if "x < nat (int b) * BLOCK_SIZE s + offset_of s h \<or>
      nat (int b) * BLOCK_SIZE s + offset_of s h + length bs \<le> x" for x
    using that by (simp add: written_def store_outside)
qed simp

section \<open>Reading\<close>

text \<open>
  What a read returns, in terms of the contents: the string that starts at the offset, cut at
  the length asked for, when the byte there is not a zero.
\<close>

lemma read_bytes_contents:
  assumes off: "offset_of s h < i_size (inode_table s ! file_of s h)"
    and nz: "contents s (file_of s h) ! offset_of s h \<noteq> NUL"
  shows "read_start s h = offset_of s h"
    and "read_bytes s h len = c_string (take len (drop (offset_of s h) (contents s (file_of s h))))"
proof -
  let ?i = "file_of s h" and ?o = "offset_of s h"
  have c: "contents s ?i = TFS_Prelude.slice (fs_data s) (read_base s h) (i_size (inode_table s ! ?i))"
    using off by (simp add: contents_def read_base_def)
  with nz off show st: "read_start s h = ?o" by (simp add: read_start_def)
  show "read_bytes s h len = c_string (take len (drop ?o (contents s ?i)))"
    by (simp add: read_bytes_def st c read_amount_def)
qed

text \<open>
  A zero byte at the offset is skipped; the rest of the contents is read, and, when the length
  allows it, one byte past the end.
\<close>

lemma read_bytes_after_NUL:
  assumes off: "Suc (offset_of s h) \<le> i_size (inode_table s ! file_of s h)"
    and z: "contents s (file_of s h) ! offset_of s h = NUL"
    and len: "len < i_size (inode_table s ! file_of s h) - offset_of s h"
  shows "read_start s h = Suc (offset_of s h)"
    and "read_bytes s h len =
      c_string (take len (drop (Suc (offset_of s h)) (contents s (file_of s h))))"
proof -
  let ?i = "file_of s h" and ?o = "offset_of s h"
  have c: "contents s ?i = TFS_Prelude.slice (fs_data s) (read_base s h) (i_size (inode_table s ! ?i))"
    using off by (simp add: contents_def read_base_def)
  with z off show st: "read_start s h = Suc ?o" by (simp add: read_start_def)
  show "read_bytes s h len = c_string (take len (drop (Suc ?o) (contents s ?i)))"
    using len by (auto simp: read_bytes_def st c read_amount_def min_def)
qed

end
