(* ===== verification/FS_Reach.thy ===== *)
theory FS_Reach
  imports FS_Contents
begin

text \<open>
  Copying a file of the host, and the whole API as one step relation: the calls, which calls
  have defined behaviour, and the states that calls lead to from an initialised file system.
\<close>

section \<open>Copying\<close>

lemma offset_written:
  assumes "fs_inv s" and "is_open s (int h)"
  shows "offset_of (written s h fb b bs) h = offset_of s h + length bs"
    and "file_of (written s h fb b bs) h = file_of s h"
    and "is_open (written s h fb b bs) d = is_open s d"
  using open_handle(2) [OF assms]
  by (simp_all add: offset_of_def file_of_def is_open_def valid_file_handle_def)
    (simp_all add: written_def offset_of_def)

lemma tfs_write_effect:
  assumes inv: "fs_inv s" and idle: "idle s" and op: "is_open s (int h)"
    and off: "offset_of s h \<le> BLOCK_SIZE s" and small: "len + offset_of s h < size_mod"
    and buf: "len \<le> length buffer"
  shows "\<exists>r t. tfs_write (int h) buffer len s = Inr (r, t) \<and> fs_inv t \<and> idle t \<and>
    is_open t (int h) \<and> offset_of t h \<le> BLOCK_SIZE t"
proof (cases "write_amount s h len = 0 \<or> write_block s (file_of s h) = None")
  case True
  with tfs_write_exec [OF assms] assms show ?thesis by auto
next
  case False
  then obtain b fb where wb: "write_block s (file_of s h) = Some (b, fb)" by auto
  let ?bs = "take (write_amount s h len) buffer"
  have n: "offset_of s h + length ?bs \<le> BLOCK_SIZE s" using off by (simp add: write_amount_def)
  have "fs_inv (written s h fb b ?bs)" by (rule inv_written(1) [OF inv op wb n])
  with tfs_write_exec [OF assms] False wb idle op n offset_written [OF inv op] show ?thesis
    by simp
qed

lemma tfs_write_all:
  assumes "fs_inv s" and "idle s" and "is_open s (int h)"
    and "offset_of s h \<le> BLOCK_SIZE s" and "length bs + offset_of s h < size_mod"
    and "write_amount s h (length bs) = length bs" and "bs \<noteq> []"
    and "write_block s (file_of s h) = Some (b, fb)"
  shows "tfs_write (int h) bs (length bs) s = Inr (int (length bs), written s h fb b bs)"
  using tfs_write_exec [OF assms(1-5) order_refl] assms(6-8) by simp

lemma copy_loop_inv:
  assumes "fs_inv s" and "idle s" and "is_open s (int h)" and "offset_of s h \<le> BLOCK_SIZE s"
  shows "\<exists>r t. copy_loop (int h) src s = Inr (r, t) \<and> fs_inv t \<and> idle t"
  using assms
proof (induction src arbitrary: s rule: length_induct)
  case (1 src)
  show ?case
  proof (cases "src = []")
    case True
    have "fs_inv (s\<lparr>free_open_file_entries := (free_open_file_entries s)[h := FREE]\<rparr>)"
      using 1(2) by (rule inv_close(1))
    moreover have "copy_loop (int h) [] s = Inr ((0, False),
        s\<lparr>free_open_file_entries := (free_open_file_entries s)[h := FREE]\<rparr>)"
      using 1(4) tfs_close_exec [OF 1(2,3), of "int h"]
      by (simp add: copy_loop.simps [of _ "[]"] exec_simps)
    moreover have "idle (s\<lparr>free_open_file_entries := (free_open_file_entries s)[h := FREE]\<rparr>)"
      using 1(3) by simp
    ultimately show ?thesis using True by blast
  next
    case False
    let ?c = "take 1024 src"
    have b: "BLOCK_SIZE s < 9223372036854775807" using fs_invD(1) [OF 1(2)] by (rule wf_bounds)
    then have small: "length ?c + offset_of s h < size_mod" using 1(5) by simp
    from tfs_write_effect [OF 1(2-5) small order_refl] obtain r t where
      t: "tfs_write (int h) ?c (length ?c) s = Inr (r, t)" "fs_inv t" "idle t" "is_open t (int h)"
        "offset_of t h \<le> BLOCK_SIZE t" by blast
    have "length (drop 1024 src) < length src" using False by simp
    then have "\<exists>r u. copy_loop (int h) (drop 1024 src) t = Inr (r, u) \<and> fs_inv u \<and> idle u"
      using 1(1) t(2-5) by blast
    then show ?thesis
      using t False by (subst copy_loop.simps) (auto simp: exec_simps)
  qed
qed

text \<open>A host file that fits one block is copied whole, chunk by chunk, and both ends are closed.\<close>

lemma copy_loop_copies:
  assumes "fs_inv s" and "idle s" and "is_open s (int h)"
    and "offset_of s h = i_size (inode_table s ! file_of s h)"
    and "offset_of s h + length src \<le> BLOCK_SIZE s"
    and "src \<noteq> [] \<Longrightarrow> write_block s (file_of s h) \<noteq> None"
  shows "\<exists>t. copy_loop (int h) src s = Inr ((0, False), t) \<and>
    contents t (file_of s h) = contents s (file_of s h) @ src \<and> root_dents t = root_dents s \<and>
    \<not> is_open t (int h)"
  using assms
proof (induction src arbitrary: s rule: length_induct)
  case (1 src)
  note inv = 1(2) and idle = 1(3) and op = 1(4) and off = 1(5) and fit = 1(6)
  show ?case
  proof (cases "src = []")
    case True
    let ?t = "s\<lparr>free_open_file_entries := (free_open_file_entries s)[h := FREE]\<rparr>"
    have "contents ?t (file_of s h) = contents s (file_of s h)" by (simp add: contents_def)
    moreover have "h < length (free_open_file_entries s)"
      using open_handle(1) [OF inv op] fs_invD(1) [OF inv] by (simp add: wf_simps)
    then have "\<not> is_open ?t (int h)" by (simp add: is_open_def)
    ultimately show ?thesis
      using True op tfs_close_exec [OF inv idle, of "int h"] inv_close(2) [OF inv, of h]
      by (simp add: copy_loop.simps [of _ "[]"] exec_simps)
  next
    case False
    let ?c = "take 1024 src" and ?i = "file_of s h"
    have b: "BLOCK_SIZE s < 9223372036854775807" using fs_invD(1) [OF inv] by (rule wf_bounds)
    have le: "offset_of s h \<le> BLOCK_SIZE s" using fit by simp
    then have small: "length ?c + offset_of s h < size_mod" using b by simp
    from 1(7) False obtain bb fb where wb: "write_block s ?i = Some (bb, fb)" by auto
    have amount: "write_amount s h (length ?c) = length ?c" using fit by (simp add: write_amount_def)
    let ?t = "written s h fb bb ?c"
    have cne: "?c \<noteq> []" using False by simp
    have w: "tfs_write (int h) ?c (length ?c) s = Inr (int (length ?c), ?t)"
      by (rule tfs_write_all [OF inv idle op le small amount cne wb])
    have fitc: "offset_of s h + length ?c \<le> BLOCK_SIZE s" using fit by simp
    note iw = inv_written [OF inv op wb fitc] and ow = offset_written [OF inv op, of fb bb ?c]
    have size: "i_size (inode_table ?t ! ?i) = offset_of s h + length ?c"
      using written_inode(1) [OF inv op, of fb bb ?c] off by simp
    have c: "contents ?t ?i = contents s ?i @ ?c"
      using contents_written [OF inv op wb _ cne] off by simp
    have "length (drop 1024 src) < length src" using False by simp
    moreover have "offset_of ?t h = i_size (inode_table ?t ! file_of ?t h)"
      using size ow by simp
    moreover have "offset_of ?t h + length (drop 1024 src) \<le> BLOCK_SIZE ?t"
      using fit ow by (cases "length src \<le> 1024") simp_all
    moreover have "write_block ?t (file_of ?t h) \<noteq> None"
      using size ow cne by (auto simp: write_block_def min_def split: if_splits)
    ultimately have "\<exists>u. copy_loop (int h) (drop 1024 src) ?t = Inr ((0, False), u) \<and>
        contents u (file_of ?t h) = contents ?t (file_of ?t h) @ drop 1024 src \<and>
        root_dents u = root_dents ?t \<and> \<not> is_open u (int h)"
      using 1(1) iw(1) idle op ow(3) by simp
    then obtain u where u: "copy_loop (int h) (drop 1024 src) ?t = Inr ((0, False), u)"
        "contents u ?i = contents s ?i @ src" "root_dents u = root_dents s" "\<not> is_open u (int h)"
      using c ow(2) iw(2) by (metis append.assoc append_take_drop_id)
    then show ?thesis
      using w False by (subst copy_loop.simps) (simp add: exec_simps)
  qed
qed

section \<open>What tfs_open returns\<close>

lemma opened_handle:
  assumes "tfs_wf s" and "fst (opened s i off) \<noteq> - 1"
  obtains h where "fst (opened s i off) = int h" "is_open (snd (opened s i off)) (int h)"
    "offset_of (snd (opened s i off)) h = off" "file_of (snd (opened s i off)) h = i"
    "first_free (free_open_file_entries s) = Some h"
proof -
  from assms(2) obtain h where h: "first_free (free_open_file_entries s) = Some h"
    by (auto simp: opened_def split: option.splits)
  then have "h < length (free_open_file_entries s)" by (simp add: first_free_Some)
  with assms(1) have "h < length (open_file_table s)" "h < MAX_OPEN_FILES s"
      "h < length (free_open_file_entries s)"
    by (simp_all add: wf_simps)
  with h have "fst (opened s i off) = int h" "is_open (snd (opened s i off)) (int h)"
    "offset_of (snd (opened s i off)) h = off" "file_of (snd (opened s i off)) h = i"
    by (simp_all add: opened_def is_open_def valid_file_handle_def offset_of_def file_of_def)
  with h show ?thesis using that by blast
qed

lemma opened_params [simp]:
  "fs_params (snd (opened s i off)) = fs_params s"
  "inode_table (snd (opened s i off)) = inode_table s"
  "freeinode_ts (snd (opened s i off)) = freeinode_ts s"
  "fs_data (snd (opened s i off)) = fs_data s"
  "free_blocks (snd (opened s i off)) = free_blocks s"
  by (simp_all add: opened_def split: option.split)

text \<open>Nothing but the file tables differs: handles are as they were.\<close>

definition same_open :: "tfs_state \<Rightarrow> tfs_state \<Rightarrow> bool" where
  "same_open s t \<longleftrightarrow> fs_params t = fs_params s \<and> open_file_table t = open_file_table s \<and>
     free_open_file_entries t = free_open_file_entries s"

lemma same_open_refl [simp]: "same_open s s"
  by (simp add: same_open_def)

text \<open>\<open>tfs_open\<close> fails, or makes a handle in a state that differs from the first one in its files only.\<close>

lemma tfs_open_cases:
  assumes inv: "fs_inv s" and idle: "idle s" and p: "c_ok p"
    and op: "tfs_open p mode s = Inr (r, t)"
  shows "r = - 1 \<and> same_open s t \<or>
    (\<exists>u i off. (r, t) = opened u i off \<and> r \<noteq> - 1 \<and> tfs_wf u \<and> off \<le> BLOCK_SIZE u \<and> same_open s u)"
proof (cases "lookup s p = - 1")
  case False
  obtain j where j: "resolve s (lookup s p) = Some j"
    using tfs_open_link_ends(2) [OF inv idle p False, of mode] op by fastforce
  show ?thesis
  proof (cases "j = - 1")
    case True
    with tfs_open_link_ends(1) [OF inv idle p False, of mode] op j show ?thesis by simp
  next
    case jn: False
    have "used_inode s j"
      using resolve_result(2) [OF fs_invD(3) [OF inv] j] lookup_used [OF inv False] jn by simp
    then obtain i where i: "j = int i" "i < INODE_TABLE_SIZE s" "freeinode_ts s ! i = TAKEN"
      by (rule used_inodeE)
    let ?u = "truncated s i mode" and ?off = "start_offset s i mode"
    have "i_size (inode_table s ! i) \<le> BLOCK_SIZE s"
      using fs_invD(6) [OF inv] i by (simp add: sizes_inv_def)
    moreover have "i < length (inode_table s)" using i fs_invD(1) [OF inv] by (simp add: wf_simps)
    ultimately have off: "?off \<le> BLOCK_SIZE ?u" by (simp add: start_offset_def truncated_size)
    have rt: "(r, t) = opened ?u i ?off"
      using tfs_open_existing_exec [OF inv idle p False, of i mode] j i op by simp
    have so: "same_open s ?u" by (simp add: same_open_def)
    show ?thesis
    proof (cases "r = - 1")
      case True
      with rt so show ?thesis by (auto simp: opened_def split: option.splits)
    next
      case False
      with rt off so wf_truncated fs_invD(1) [OF inv] show ?thesis by blast
    qed
  qed
next
  case absent: True
  show ?thesis
  proof (cases "path_entry p = None \<or> \<not> has_mode mode TFS_O_CREAT \<or> first_free (freeinode_ts s) = None")
    case True
    then have "tfs_open p mode s = Inr (- 1, s)"
      using tfs_open_invalid [OF p] tfs_open_absent [OF inv idle p absent] by (cases "path_entry p = None") auto
    with op show ?thesis by simp
  next
    case False
    then obtain w i where w: "path_entry p = Some w" "has_mode mode TFS_O_CREAT"
        "first_free (freeinode_ts s) = Some i" by auto
    let ?u = "link_added (file_inode s i TAKEN) w (int i)"
    note fu = file_inode_used [OF inv w(3)]
    have "fs_inv ?u"
      by (rule inv_link_added [OF inv_file_inode(1) [OF inv w(3)] fu(1)]) (simp add: fu(3,5))
    then have wf: "tfs_wf ?u" by (rule fs_invD)
    have so: "same_open s ?u" "same_open s (file_inode s i FREE)" by (simp_all add: same_open_def)
    have rt: "(r, t) = (if link_result s w = 0 then opened ?u i 0 else (- 1, file_inode s i FREE))"
      using op tfs_open_create_exec [OF inv idle p w(1) absent w(2,3)] by (simp split: if_splits)
    show ?thesis
    proof (cases "r = - 1")
      case True
      with rt so show ?thesis by (auto simp: opened_def split: if_splits option.splits)
    next
      case False
      with rt have "(r, t) = opened ?u i 0" by (simp split: if_splits)
      with False wf so show ?thesis by blast
    qed
  qed
qed

text \<open>A handle that is returned is open, and its offset lies within the block.\<close>

lemma tfs_open_handle:
  assumes inv: "fs_inv s" and idle: "idle s" and p: "c_ok p"
    and ends: "lookup s p \<noteq> - 1 \<Longrightarrow> resolve s (lookup s p) \<noteq> None"
  shows "\<exists>r t. tfs_open p mode s = Inr (r, t) \<and> fs_inv t \<and> idle t \<and>
    (r = - 1 \<or> (\<exists>h. r = int h \<and> is_open t (int h) \<and> offset_of t h \<le> BLOCK_SIZE t))"
proof -
  from tfs_open_inv [OF assms] obtain r t where
    rt: "tfs_open p mode s = Inr (r, t)" "fs_inv t" "idle t" by blast
  have "\<exists>h. r = int h \<and> is_open t (int h) \<and> offset_of t h \<le> BLOCK_SIZE t" if ne: "r \<noteq> - 1"
  proof -
    from tfs_open_cases [OF inv idle p rt(1)] ne obtain u i off where
      u: "(r, t) = opened u i off" "tfs_wf u" "off \<le> BLOCK_SIZE u" by blast
    then have eq: "r = fst (opened u i off)" "t = snd (opened u i off)" by (simp_all flip: u(1))
    from ne eq obtain h where "r = int h" "is_open t (int h)" "offset_of t h = off"
      using opened_handle [OF u(2), of i off] by metis
    then show ?thesis using u(3) eq(2) by auto
  qed
  with rt show ?thesis by blast
qed

section \<open>Sequences of calls\<close>

datatype api_call =
    Open cstr tfs_file_mode
  | Close int
  | Write int "char list" nat
  | Read int nat
  | Link cstr cstr
  | Sym_link cstr cstr
  | Unlink cstr
  | Copy "char list option" cstr

fun run :: "api_call \<Rightarrow> int fsop" where
  "run (Open name mode) = tfs_open name mode"
| "run (Close fhandle) = tfs_close fhandle"
| "run (Write fhandle buffer len) = tfs_write fhandle buffer len"
| "run (Read fhandle len) = call (tfs_read fhandle len) (\<lambda>r. ret (fst r))"
| "run (Link target link_name) = tfs_link target link_name"
| "run (Sym_link target link_name) = tfs_sym_link target link_name"
| "run (Unlink target) = tfs_unlink target"
| "run (Copy source dest_path) = call (tfs_copy_from_external_fs source dest_path) (\<lambda>r. ret (fst r))"

text \<open>
  When the code has defined behaviour.  What it does not check itself: strings are terminated,
  a chain of symbolic links ends, a link name has a first character, a link count does not
  overflow, the caller's buffer is as long as it says, and no offset lies past the end of the
  data (after a truncation through another handle, or after a read that skipped a final zero).
\<close>

definition chain_ends :: "tfs_state \<Rightarrow> cstr \<Rightarrow> bool" where
  "chain_ends s p \<longleftrightarrow> (lookup s p = - 1 \<or> resolve s (lookup s p) \<noteq> None)"

definition write_defined :: "tfs_state \<Rightarrow> nat \<Rightarrow> char list \<Rightarrow> nat \<Rightarrow> bool" where
  "write_defined s h buffer len \<longleftrightarrow>
     offset_of s h \<le> BLOCK_SIZE s \<and> len + offset_of s h < size_mod \<and> len \<le> length buffer"

definition read_defined :: "tfs_state \<Rightarrow> nat \<Rightarrow> nat \<Rightarrow> bool" where
  "read_defined s h len \<longleftrightarrow>
     offset_of s h \<le> i_size (inode_table s ! file_of s h) \<and>
     i_size (inode_table s ! file_of s h) \<le> BLOCK_SIZE s \<and>
     (read_amount s h len \<noteq> 0 \<longrightarrow>
        read_base s h + read_start s h + read_amount s h len \<le> fs_data_size s)"

fun call_defined :: "tfs_state \<Rightarrow> api_call \<Rightarrow> bool" where
  "call_defined s (Open p mode) = (c_ok p \<and> chain_ends s p)"
| "call_defined s (Close h) = True"
| "call_defined s (Write h buffer len) = (is_open s h \<longrightarrow> write_defined s (nat h) buffer len)"
| "call_defined s (Read h len) = (is_open s h \<longrightarrow> read_defined s (nat h) len)"
| "call_defined s (Link p q) = (c_ok p \<and> c_ok q \<and> link_entry q \<noteq> None \<and>
     (\<forall>nd \<in> set (inode_table s). i_count nd < 2147483647))"
| "call_defined s (Sym_link p q) = (c_ok p \<and> c_ok q \<and> link_entry q \<noteq> None)"
| "call_defined s (Unlink p) = c_ok p"
| "call_defined s (Copy src p) = (c_ok p \<and> chain_ends s p)"

lemma is_open_nat:
  assumes "is_open s h"
  obtains n where "h = int n"
  using assms zero_le_imp_eq_int [of h] by (auto simp: is_open_def valid_file_handle_def)

lemma tfs_read_inv:
  assumes inv: "fs_inv s" and idle: "idle s" and d: "is_open s h \<Longrightarrow> read_defined s (nat h) len"
  shows "\<exists>r t. tfs_read h len s = Inr (r, t) \<and> fs_inv t \<and> idle t"
proof (cases "is_open s h")
  case False
  with tfs_read_closed [OF inv idle] inv idle show ?thesis by auto
next
  case True
  then obtain n where n: "h = int n" by (rule is_open_nat)
  have rd: "read_defined s n len" using d [OF True] n by simp
  have "tfs_read h len s = (if read_amount s n len = 0 then Inr ((0, []), s)
     else Inr ((int (length (read_bytes s n len)), read_bytes s n len),
       advanced s n (read_start s n + length (read_bytes s n len))))"
    using True rd unfolding n read_defined_def by (intro tfs_read_exec [OF inv idle]) simp_all
  then show ?thesis using inv_advanced(1) [OF inv] inv idle by auto
qed

lemma tfs_copy_inv:
  assumes inv: "fs_inv s" and idle: "idle s" and p: "c_ok p" "chain_ends s p"
  shows "\<exists>r t. tfs_copy_from_external_fs src p s = Inr (r, t) \<and> fs_inv t \<and> idle t"
proof (cases src)
  case None
  then have "tfs_copy_from_external_fs src p s = Inr ((- 1, False), s)"
    by (simp add: tfs_copy_from_external_fs_def exec_simps)
  with inv idle show ?thesis by blast
next
  case (Some xs)
  have "lookup s p \<noteq> - 1 \<Longrightarrow> resolve s (lookup s p) \<noteq> None" using p(2) by (simp add: chain_ends_def)
  from tfs_open_handle [OF inv idle p(1) this, of "TFS_O_CREAT OR TFS_O_TRUNC"] obtain r t where
    t: "tfs_open p (TFS_O_CREAT OR TFS_O_TRUNC) s = Inr (r, t)" "fs_inv t" "idle t"
      "r = - 1 \<or> (\<exists>h. r = int h \<and> is_open t (int h) \<and> offset_of t h \<le> BLOCK_SIZE t)" by blast
  show ?thesis
  proof (cases "r = - 1")
    case True
    with t(1) Some have "tfs_copy_from_external_fs src p s = Inr ((- 1, True), t)"
      by (simp add: tfs_copy_from_external_fs_def exec_simps)
    with t(2,3) show ?thesis by blast
  next
    case False
    with t(4) obtain h where h: "r = int h" "is_open t (int h)" "offset_of t h \<le> BLOCK_SIZE t" by blast
    from copy_loop_inv [OF t(2,3) h(2,3), of xs] show ?thesis
      using Some t(1) h(1) by (simp add: tfs_copy_from_external_fs_def exec_simps)
  qed
qed

text \<open>One call: it returns, keeps the invariant, and releases every lock.\<close>

lemma call_progress:
  assumes inv: "fs_inv s" and idle: "idle s" and d: "call_defined s c"
  shows "\<exists>r t. run c s = Inr (r, t) \<and> fs_inv t \<and> idle t"
proof (cases c)
  case (Open p mode)
  with d tfs_open_inv [OF inv idle, of p mode] show ?thesis by (auto simp: chain_ends_def)
next
  case (Close h)
  with tfs_close_exec [OF inv idle, of h] inv_close(1) [OF inv] inv idle show ?thesis by simp
next
  case (Write h buffer len)
  show ?thesis
  proof (cases "is_open s h")
    case False
    with Write tfs_write_closed [OF inv idle] inv idle show ?thesis by simp
  next
    case True
    then obtain n where n: "h = int n" by (rule is_open_nat)
    with True d Write have wd: "write_defined s n buffer len" by simp
    from tfs_write_inv [OF inv idle, of n len buffer] True wd n Write show ?thesis
      by (simp add: write_defined_def)
  qed
next
  case (Read h len)
  from tfs_read_inv [OF inv idle, of h len] d Read obtain r t where
    "tfs_read h len s = Inr (r, t)" "fs_inv t" "idle t" by auto
  with Read show ?thesis by (simp add: exec_simps)
next
  case (Link p q)
  have cnt: "i_count (inode_table s ! i) < 2147483647" if "i < INODE_TABLE_SIZE s" for i
    using d Link that fs_invD(1) [OF inv] by (simp add: wf_simps)
  from d Link have "c_ok p" "c_ok q" "link_entry q \<noteq> None" by simp_all
  from tfs_link_inv [OF inv idle this cnt] Link show ?thesis by simp
next
  case (Sym_link p q)
  with d tfs_sym_link_inv [OF inv idle, of p q] show ?thesis by simp
next
  case (Unlink p)
  with d tfs_unlink_inv [OF inv idle, of p] show ?thesis by simp
next
  case (Copy src p)
  with d have "c_ok p" "chain_ends s p" by simp_all
  from tfs_copy_inv [OF inv idle this, of src] obtain r t where
    "tfs_copy_from_external_fs src p s = Inr (r, t)" "fs_inv t" "idle t" by blast
  with Copy show ?thesis by (simp add: exec_simps)
qed

text \<open>The state of the globals when the program starts, and what is reached from there.\<close>

definition boot :: tfs_state where
  "boot = \<lparr>fs_params = \<lparr>max_inode_count = 0, max_block_count = 0, max_open_files_count = 0,
       block_size = 0\<rparr>,
     inode_table_set = False, inode_table = [], freeinode_ts = [], lock_inode_len = 0,
     fs_data = (\<lambda>_. NUL), fs_data_size = 0, free_blocks = [], lock_file_len = 0,
     open_file_table = [], free_open_file_entries = [], locks = (\<lambda>_. Unlocked)\<rparr>"

inductive reachable :: "tfs_state \<Rightarrow> bool" where
  init: "wf_params p \<Longrightarrow> 0 < max_inode_count p \<Longrightarrow> 0 < max_block_count p \<Longrightarrow> all_granted h \<Longrightarrow>
    blank_names h p \<Longrightarrow> tfs_init h (Some p) boot = Inr (0, s) \<Longrightarrow> reachable s"
| step: "reachable s \<Longrightarrow> call_defined s c \<Longrightarrow> run c s = Inr (r, t) \<Longrightarrow> reachable t"

inductive_cases reachableE: "reachable s"

lemma idle_boot [simp]: "idle boot"
  by (simp add: boot_def idle_def)

lemma boot_not_set [simp]: "\<not> inode_table_set boot"
  by (simp add: boot_def)

lemma boot_init:
  assumes "wf_params p" and "0 < max_inode_count p" and "0 < max_block_count p"
    and "all_granted h" and "tfs_init h (Some p) boot = Inr (0, s)"
  shows "s = init_state h p boot"
  using tfs_init_exec [of boot p h] assms by simp

lemma reachable_inv: "reachable s \<Longrightarrow> fs_inv s \<and> idle s"
proof (induction rule: reachable.induct)
  case (init p h s)
  have "s = init_state h p boot" using init by (intro boot_init)
  with init_inv [of p h boot] init show ?case by simp
next
  case (step s c r t)
  with call_progress [of s c] show ?case by auto
qed

end
