(* ===== verification/FS_Names.thy ===== *)
theory FS_Names
  imports FS_Reach "HOL-Library.Multiset"
begin

text \<open>
  The name space: what each operation does to the names that can be looked up, the abstract
  directory (a map from names to inodes) it refines, and where symbolic links lead.
\<close>

section \<open>The abstract directory\<close>

text \<open>A directory maps names to inodes; \<open>-1\<close> is a name that is not there.\<close>

definition names :: "tfs_state \<Rightarrow> string \<Rightarrow> nat option" where
  "names s v =
     (let d = dir_find (root_dents s) v in if d = - 1 then None else Some (nat d))"

lemma lookup_names:
  assumes "fs_inv s"
  shows "lookup s p = (case path_entry p of None \<Rightarrow> - 1
    | Some v \<Rightarrow> (case names s v of None \<Rightarrow> - 1 | Some i \<Rightarrow> int i))"
proof (cases "path_entry p")
  case None
  then show ?thesis by (simp add: lookup_def)
next
  case (Some v)
  have "dir_find (root_dents s) v = - 1 \<or> used_inode s (dir_find (root_dents s) v)"
    using fs_invD(3) [OF assms] by (rule dir_find_used)
  with Some show ?thesis by (auto simp: lookup_def names_def Let_def used_inode_def)
qed

lemma names_cong: "root_dents t = root_dents s \<Longrightarrow> names t = names s"
  by (simp add: names_def fun_eq_iff)

lemma names_used:
  assumes "fs_inv s" and "names s v = Some i"
  shows "used_inode s (int i)"
proof -
  have d: "dir_find (root_dents s) v = - 1 \<or> used_inode s (dir_find (root_dents s) v)"
    using fs_invD(3) [OF assms(1)] by (rule dir_find_used)
  with assms(2) show ?thesis by (auto simp: names_def Let_def used_inode_def split: if_splits)
qed

section \<open>Adding an entry\<close>

lemma root_dents_entry_added:
  assumes "first_index (\<lambda>e. snd e = - 1) (root_dents s) = Some k" and "valid_name v"
    and "is_int32 d"
  shows "root_dents (entry_added s v d) = (root_dents s)[k := (v, d)]"
  using assms first_index_SomeD [OF assms(1)] by (simp add: entry_added_def root_dents_put)

text \<open>A new name is added; every other name stays.\<close>

lemma names_link_added:
  assumes room: "link_result s v = 0" and new: "names s v = None" and d: "d < 2147483648"
  shows "names (link_added s v (int d)) = (names s)(v \<mapsto> d)"
proof -
  from room have v: "valid_name v" and free: "- 1 \<in> snd ` set (root_dents s)"
    by (auto simp: link_result_def split: if_splits)
  then obtain k where k: "first_index (\<lambda>e. snd e = - 1) (root_dents s) = Some k"
    by (cases "first_index (\<lambda>e. snd e = - 1) (root_dents s)") (auto simp: first_index_None)
  note kd = first_index_SomeD [OF k]
  have r: "root_dents (link_added s v (int d)) = (root_dents s)[k := (v, int d)]"
    using root_dents_entry_added [OF k v, of "int d"] d v by (simp add: link_added_def is_int32_def)
  have miss: "dir_find (root_dents s) v = - 1" using new by (simp add: names_def Let_def split: if_splits)
  show ?thesis
  proof
    fix w
    show "names (link_added s v (int d)) w = ((names s)(v \<mapsto> d)) w"
    proof (cases "w = v")
      case True
      with dir_find_put_new [of k "root_dents s" "int d" v] kd miss r show ?thesis
        by (simp add: names_def)
    next
      case False
      with dir_find_put_other [of k "root_dents s" w v "int d"] kd r show ?thesis
        by (simp add: names_def)
    qed
  qed
qed

text \<open>
  A name that exists keeps its inode: the code adds a second entry for it, which lookup may or
  may not see first.
\<close>

lemma names_link_added_others:
  assumes "w \<noteq> v" and "d < 2147483648"
  shows "names (link_added s v (int d)) w = names s w"
proof (cases "valid_name v")
  case v: True
  show ?thesis
  proof (cases "first_index (\<lambda>e. snd e = - 1) (root_dents s)")
    case None
    with v show ?thesis by (simp add: link_added_def entry_added_def)
  next
    case (Some k)
    note kd = first_index_SomeD [OF Some]
    have "root_dents (link_added s v (int d)) = (root_dents s)[k := (v, int d)]"
      using root_dents_entry_added [OF Some v, of "int d"] assms(2) v
      by (simp add: link_added_def is_int32_def)
    with dir_find_put_other [of k "root_dents s" w v "int d"] kd assms(1) show ?thesis
      by (simp add: names_def)
  qed
qed (simp add: link_added_def)

section \<open>Removing an entry\<close>

lemma root_dents_unlinked:
  assumes "fs_inv s" and "k < MAX_DIR_ENTRIES s" and "0 < i"
  shows "root_dents (unlinked s i k) = (root_dents s)[k := ([], - 1)]"
proof -
  let ?s1 = "s\<lparr>fs_data := wipe_dent (fs_data s) (root_base s) k\<rparr>"
  have "root_dents (unlinked s i k) = root_dents ?s1"
    by (rule root_dents_cong(2)) (use assms(3) in \<open>auto simp: unlinked_def Let_def\<close>)
  also have "\<dots> = (root_dents s)[k := ([], - 1)]" using assms(2) by (rule root_dents_wipe)
  finally show ?thesis .
qed

lemma names_unlinked_others:
  assumes "fs_inv s" and "first_index (\<lambda>e. fst e = v) (root_dents s) = Some k" and "0 < i"
    and "w \<noteq> v"
  shows "names (unlinked s i k) w = names s w"
proof -
  note kd = first_index_SomeD [OF assms(2)]
  have k: "k < MAX_DIR_ENTRIES s" using kd by simp
  have "root_dents (unlinked s i k) = (root_dents s)[k := ([], - 1)]"
    using assms(1) k assms(3) by (rule root_dents_unlinked)
  with dir_find_wipe_other [of k "root_dents s" w] kd assms(4) show ?thesis
    by (simp add: names_def)
qed

text \<open>The name is gone when it had one entry only.\<close>

definition unique_names :: "tfs_state \<Rightarrow> bool" where
  "unique_names s \<longleftrightarrow> distinct (filter (\<lambda>v. v \<noteq> []) (map fst (root_dents s)))"

lemma unique_entry:
  "distinct (filter (\<lambda>v. v \<noteq> []) (map fst es)) \<Longrightarrow> i < length es \<Longrightarrow> j < length es \<Longrightarrow>
   fst (es ! i) = v \<Longrightarrow> fst (es ! j) = v \<Longrightarrow> v \<noteq> [] \<Longrightarrow> i = j"
proof (induction es arbitrary: i j)
  case Nil
  then show ?case by simp
next
  case (Cons e es)
  have out: "v \<notin> fst ` set es" if "fst e = v" using Cons.prems that by auto
  have d: "distinct (filter (\<lambda>v. v \<noteq> []) (map fst es))" using Cons.prems by (auto split: if_splits)
  show ?case
  proof (cases i)
    case i: 0
    show ?thesis
    proof (cases j)
      case (Suc j')
      with Cons.prems have "v \<in> fst ` set es" by (auto simp: image_iff intro: bexI [of _ "es ! j'"])
      with i out Cons.prems show ?thesis by simp
    qed (simp add: i)
  next
    case i: (Suc i')
    show ?thesis
    proof (cases j)
      case 0
      from i Cons.prems have "v \<in> fst ` set es" by (auto simp: image_iff intro: bexI [of _ "es ! i'"])
      with 0 out Cons.prems show ?thesis by simp
    next
      case (Suc j')
      with i Cons.prems Cons.IH [OF d, of i' j'] show ?thesis by simp
    qed
  qed
qed

lemma names_unlinked:
  assumes inv: "fs_inv s" and u: "unique_names s" and v: "v \<noteq> []"
    and k: "first_index (\<lambda>e. fst e = v) (root_dents s) = Some k" and "0 < i"
  shows "names (unlinked s i k) = (names s)(v := None)"
proof
  fix w
  note kd = first_index_SomeD [OF k]
  show "names (unlinked s i k) w = ((names s)(v := None)) w"
  proof (cases "w = v")
    case False
    then show ?thesis using names_unlinked_others [OF inv k assms(5)] by simp
  next
    case True
    have k': "k < MAX_DIR_ENTRIES s" using kd by simp
    have r: "root_dents (unlinked s i k) = (root_dents s)[k := ([], - 1)]"
      using inv k' assms(5) by (rule root_dents_unlinked)
    have "\<forall>e \<in> set ((root_dents s)[k := ([], - 1)]). fst e \<noteq> v"
    proof
      fix e
      assume "e \<in> set ((root_dents s)[k := ([], - 1)])"
      then obtain j where j: "j < length (root_dents s)" "e = (root_dents s)[k := ([], - 1)] ! j"
        by (auto simp: in_set_conv_nth)
      show "fst e \<noteq> v"
      proof (cases "j = k")
        case True
        then show ?thesis using j v kd by simp
      next
        case False
        have "fst (root_dents s ! j) \<noteq> v"
        proof
          assume "fst (root_dents s ! j) = v"
          with unique_entry [OF u [unfolded unique_names_def] j(1), of k v] kd v False
          show False by simp
        qed
        then show ?thesis using j False by simp
      qed
    qed
    then have "dir_find ((root_dents s)[k := ([], - 1)]) v = - 1" by (auto simp: dir_find_None)
    with True r show ?thesis by (simp add: names_def)
  qed
qed

section \<open>Names with several entries\<close>

text \<open>The inodes of all entries of a name, in the order of the directory; lookup sees the first one.\<close>

definition entries_of :: "tfs_state \<Rightarrow> string \<Rightarrow> int list" where
  "entries_of s v = map snd (filter (\<lambda>e. fst e = v) (root_dents s))"

lemma dir_find_filter:
  "\<forall>e \<in> set es. fst e = v \<longrightarrow> snd e \<noteq> - 1 \<Longrightarrow>
    dir_find es v = (case filter (\<lambda>e. fst e = v) es of [] \<Rightarrow> - 1 | e # _ \<Rightarrow> snd e)"
  by (induction es) auto

lemma names_entries:
  assumes "fs_inv s" and "v \<noteq> []"
  shows "names s v = (case entries_of s v of [] \<Rightarrow> None | d # _ \<Rightarrow> Some (nat d))"
proof -
  have c: "\<forall>e \<in> set (root_dents s). fst e = v \<longrightarrow> snd e \<noteq> - 1"
    using entries_clean [OF fs_invD(3) [OF assms(1)]] assms(2) by (auto simp: clean_def)
  show ?thesis
  proof (cases "filter (\<lambda>e. fst e = v) (root_dents s)")
    case Nil
    with dir_find_filter [OF c] show ?thesis by (simp add: names_def entries_of_def)
  next
    case (Cons e es)
    then have "e \<in> set (filter (\<lambda>e. fst e = v) (root_dents s))" by simp
    with c have "snd e \<noteq> - 1" by auto
    with dir_find_filter [OF c] Cons show ?thesis by (simp add: names_def entries_of_def)
  qed
qed

lemma filter_wipe_first:
  "first_index P es = Some k \<Longrightarrow> \<not> P x \<Longrightarrow> filter P (es[k := x]) = tl (filter P es)"
  by (induction es arbitrary: k) (auto split: if_splits option.splits)

lemma filter_put:
  "k < length es \<Longrightarrow> \<not> P (es ! k) \<Longrightarrow> P x \<Longrightarrow>
    mset (filter P (es[k := x])) = add_mset x (mset (filter P es))"
proof (induction es arbitrary: k)
  case (Cons e es)
  then show ?case by (cases k) auto
qed simp

lemma entries_unlinked:
  assumes "fs_inv s" and "first_index (\<lambda>e. fst e = v) (root_dents s) = Some k" and "0 < i" and "v \<noteq> []"
  shows "entries_of (unlinked s i k) v = tl (entries_of s v)"
proof -
  have k: "k < MAX_DIR_ENTRIES s" using first_index_SomeD [OF assms(2)] by simp
  show ?thesis
    using filter_wipe_first [OF assms(2), of "([], - 1)"] assms(4)
    by (simp add: entries_of_def root_dents_unlinked [OF assms(1) k assms(3)] map_tl)
qed

text \<open>An entry is added whether the name exists or not.\<close>

lemma entries_link_added:
  assumes inv: "fs_inv s" and room: "link_result s v = 0" and d: "d < 2147483648"
  shows "mset (entries_of (link_added s v (int d)) v) = add_mset (int d) (mset (entries_of s v))"
proof -
  from room have v: "valid_name v" and free: "- 1 \<in> snd ` set (root_dents s)"
    by (auto simp: link_result_def split: if_splits)
  then obtain k where k: "first_index (\<lambda>e. snd e = - 1) (root_dents s) = Some k"
    by (cases "first_index (\<lambda>e. snd e = - 1) (root_dents s)") (auto simp: first_index_None)
  note kd = first_index_SomeD [OF k]
  have r: "root_dents (link_added s v (int d)) = (root_dents s)[k := (v, int d)]"
    using root_dents_entry_added [OF k v, of "int d"] d v by (simp add: link_added_def is_int32_def)
  have "root_dents s ! k \<in> set (root_dents s)" using kd by simp
  then have "fst (root_dents s ! k) \<noteq> v"
    using entries_clean [OF fs_invD(3) [OF inv]] kd v by (auto simp: clean_def valid_name_def)
  with filter_put [of k "root_dents s" "\<lambda>e. fst e = v" "(v, int d)"] kd show ?thesis
    by (simp add: entries_of_def r)
qed

section \<open>Where a new symbolic link leads\<close>

text \<open>A new entry does not touch any block but the root's.\<close>

lemma entry_added_block:
  assumes inv: "fs_inv s" and v: "valid_name v" and b: "nat b \<noteq> nat (block_of s 0)"
    and x: "nat b * BLOCK_SIZE s \<le> x" "x < nat b * BLOCK_SIZE s + BLOCK_SIZE s"
  shows "fs_data (entry_added s v d) x = fs_data s x"
proof (cases "first_index (\<lambda>e. snd e = - 1) (root_dents s)")
  case None
  then show ?thesis by (simp add: entry_added_def)
next
  case (Some k)
  then have k: "44 * k + 44 \<le> BLOCK_SIZE s"
    using first_index_SomeD [OF Some] by (intro entry_in_block) simp
  have "x < root_base s \<or> root_base s + BLOCK_SIZE s \<le> x"
    using block_disjoint [OF b, of "BLOCK_SIZE s" x] x by (simp add: root_base_block)
  then have "put_dent (fs_data s) (root_base s) k v d x = fs_data s x"
    using v k by (intro put_dent_outside) (auto simp: valid_name_def)
  with Some show ?thesis by (simp add: entry_added_def)
qed

lemma sym_link_text:
  assumes inv: "fs_inv s" and i: "first_free (freeinode_ts s) = Some i"
    and b: "first_free (free_blocks s) = Some b" and B: "44 \<le> BLOCK_SIZE s"
    and path: "length path \<le> 40" "path \<noteq> []" "NUL \<notin> set path"
    and t_def: "t = link_added (sym_created s i b path) v (int i)"
  shows "is_link t (int i)" and "link_next t (int i) = dir_find (root_dents t) (tl path)"
proof -
  let ?u = "sym_created s i b path"
  let ?a = "b * BLOCK_SIZE s" and ?n = "length (tl path)"
  note fi = fresh_inode [OF inv i] and fb = fresh_block [OF inv b]
  have wf: "tfs_wf s" using inv by (rule fs_invD)
  have it: "i < length (inode_table s)" using fi(2) wf by (simp add: wf_simps)
  have nd: "inode_table t ! i = (inode_table s ! i)
      \<lparr>i_node_type := T_SOFT_LINK, i_count := 1, i_size := 40, i_data_block := int b\<rparr>"
    using it by (simp add: t_def) (simp add: sym_created_def)
  then show "is_link t (int i)" by (simp add: is_link_def)
  have inv1: "fs_inv ?u" by (rule inv_sym_created(1) [OF inv i b B path(1)])
  have root: "block_of ?u 0 = block_of s 0" using fi(1) by (simp add: sym_created_def)
  have "0 \<le> block_of s 0" using fs_invD(2) [OF inv] by (simp add: root_ok_def valid_block_number_def)
  then have ne: "nat (int b) \<noteq> nat (block_of ?u 0)" using fb(3) root by (simp add: nat_eq_iff2)
  have "fs_data t x = fs_data ?u x" if "?a \<le> x" "x < ?a + BLOCK_SIZE s" for x
    using entry_added_block [OF inv1 _ ne, of v x "int i"] that
    by (simp add: t_def link_added_def sym_created_def)
  then have "TFS_Prelude.slice (fs_data t) ?a (Suc (length path)) =
      TFS_Prelude.slice (fs_data ?u) ?a (Suc (length path))"
    using path(1) B by (intro slice_cong) simp
  also have "\<dots> = path @ [NUL]" by (simp add: sym_created_def)
  finally have "TFS_Prelude.slice (fs_data t) (Suc ?a) (length path) = tl path @ [NUL]"
    using path(2) by (cases path) (simp_all add: slice_Suc)
  then have pre: "TFS_Prelude.slice (fs_data t) (Suc ?a) (Suc ?n) = tl path @ [NUL]"
    using path(2) by simp
  have size: "fs_data_size t = fs_data_size s" "fs_params t = fs_params s"
    by (simp_all add: t_def sym_created_def)
  have "b < DATA_BLOCKS s" using fb(1) by (simp add: valid_block_number_def)
  then have "?a + BLOCK_SIZE s \<le> fs_data_size s" using block_in_data [of b s] wf by (simp add: wf_simps)
  then obtain m where m: "fs_data_size s - Suc ?a = Suc ?n + m"
    using path(1,2) B by (intro that [of "fs_data_size s - Suc ?a - Suc ?n"]) simp
  have "mem_from (Suc ?a) t = (tl path @ [NUL]) @ TFS_Prelude.slice (fs_data t) (Suc ?a + Suc ?n) m"
    by (simp only: mem_from_def size m slice_add pre)
  moreover have "NUL \<notin> set (tl path)" using path(2,3) by (cases path) auto
  ultimately have "c_string (mem_from (Suc ?a) t) = tl path" by simp
  then show "link_next t (int i) = dir_find (root_dents t) (tl path)"
    by (simp add: link_next_def nd size)
qed

end
