(* ===== verification/FS_Runs.thy ===== *)
theory FS_Runs
  imports FS_Names FS_Reach
begin

text \<open>
  The calls of the API on their successful branches, as the clients of the file system use them:
  what is returned, what the new state holds, and that the invariant, the absence of locks and the
  other handles survive.
\<close>

section \<open>Creating\<close>

lemma names_lookup_None:
  "path_entry p = Some v \<Longrightarrow> lookup s p = - 1 \<Longrightarrow> names s v = None"
  by (simp add: lookup_def names_def)

lemma contents_file_inode:
  "j \<noteq> i \<Longrightarrow> contents (file_inode s i st) j = contents s j"
  by (rule contents_cong) (simp_all add: file_inode_def)

lemma contents_opened [simp]: "contents (snd (opened s i off)) j = contents s j"
  by (rule contents_cong) simp_all

lemma root_dents_opened [simp]: "root_dents (snd (opened s i off)) = root_dents s"
  by (rule root_dents_cong(2)) (simp_all add: opened_def split: option.split)

lemma names_opened [simp]: "names (snd (opened s i off)) = names s"
  by (rule names_cong) simp

lemma is_open_fresh:
  assumes "first_free (free_open_file_entries s) = Some h"
  shows "\<not> is_open s (int h)"
  using first_free_Some [OF assms] by (simp add: is_open_def)

lemma first_free_ex: "FREE \<in> set xs \<Longrightarrow> \<exists>i. first_free xs = Some i"
  using first_free_None [of xs] by (cases "first_free xs") simp_all

text \<open>Two states with the same open files, apart from the handle \<open>h\<close>.\<close>

definition same_handles :: "nat \<Rightarrow> tfs_state \<Rightarrow> tfs_state \<Rightarrow> bool" where
  "same_handles h s t \<longleftrightarrow> (\<forall>d. d \<noteq> h \<longrightarrow>
     is_open t (int d) = is_open s (int d) \<and> offset_of t d = offset_of s d \<and> file_of t d = file_of s d)"

lemma same_handlesI:
  assumes "fs_params t = fs_params s"
    and "\<And>d. d \<noteq> h \<Longrightarrow> free_open_file_entries t ! d = free_open_file_entries s ! d"
    and "\<And>d. d \<noteq> h \<Longrightarrow> open_file_table t ! d = open_file_table s ! d"
  shows "same_handles h s t"
  using assms by (simp add: same_handles_def is_open_def offset_of_def file_of_def valid_file_handle_def)

lemma same_handlesD:
  assumes "same_handles h s t" and "d \<noteq> h"
  shows "is_open t (int d) = is_open s (int d)" "offset_of t d = offset_of s d"
    "file_of t d = file_of s d"
  using assms by (simp_all add: same_handles_def)

lemma open_create_run:
  assumes inv: "fs_inv s" and idle: "idle s" and p: "c_ok p" "path_entry p = Some v"
    and v: "valid_name v" and absent: "lookup s p = - 1" and mode: "has_mode mode TFS_O_CREAT"
    and room: "FREE \<in> set (freeinode_ts s)" "- 1 \<in> snd ` set (root_dents s)"
      "FREE \<in> set (free_open_file_entries s)"
  shows "\<exists>h i t. tfs_open p mode s = Inr (int h, t) \<and> \<not> is_open s (int h) \<and> is_open t (int h) \<and>
    file_of t h = i \<and> offset_of t h = 0 \<and> freeinode_ts s ! i = FREE \<and> freeinode_ts t ! i = TAKEN \<and>
    contents t i = [] \<and> names t = (names s)(v \<mapsto> i) \<and>
    (\<forall>j. used_inode s (int j) \<longrightarrow> contents t j = contents s j) \<and>
    fs_inv t \<and> idle t \<and> same_handles h s t \<and> free_blocks t = free_blocks s"
proof -
  from room obtain i h where i: "first_free (freeinode_ts s) = Some i"
    and h: "first_free (free_open_file_entries s) = Some h" using first_free_ex by metis
  let ?u = "file_inode s i TAKEN"
  let ?l = "link_added ?u v (int i)"
  let ?t = "snd (opened ?l i 0)"
  note fi = fresh_inode [OF inv i] and fu = file_inode_used [OF inv i]
  note iu = inv_file_inode [OF inv i, of TAKEN]
  have r: "link_result s v = 0" using v room(2) by (simp add: link_result_def)
  have il: "fs_inv ?l" by (rule inv_link_added [OF iu(1) fu(1)]) (simp add: fu(3,5))
  have "fst (opened ?l i 0) = int h" using h by (simp add: opened_def)
  then have ex: "tfs_open p mode s = Inr (int h, ?t)"
    using tfs_open_create_exec [OF inv idle p absent mode i] r by (simp add: prod_eq_iff)
  have "fst (opened ?l i 0) \<noteq> - 1" using h by (simp add: opened_def)
  from opened_handle [OF fs_invD(1) [OF il] this] h
  have hd: "is_open ?t (int h)" "offset_of ?t h = 0" "file_of ?t h = i" by auto
  have small: "i < 2147483648" using fi(2) fs_invD(1) [OF inv] wf_bounds(2) [of s] by simp
  have nm: "names ?t = (names s)(v \<mapsto> i)"
    using names_link_added [of ?u v i] r small iu(2) names_lookup_None [OF p(2) absent]
      names_cong [OF iu(2)] by (simp add: link_result_def)
  have ci: "contents ?t i = []"
    using fu(2) by (simp add: contents_def)
  have cj: "contents ?t j = contents s j" if "used_inode s (int j)" for j
  proof -
    have ne: "j \<noteq> i" using that fi(3) by (auto simp: used_inode_def)
    have "0 < j" "j < INODE_TABLE_SIZE ?u" "freeinode_ts ?u ! j = TAKEN"
      using that ne by (simp_all add: used_inode_def) (simp add: file_inode_def)
    with iu(1) show ?thesis using contents_file_inode [OF ne] by simp
  qed
  have ft: "freeinode_ts ?t ! i = TAKEN" using fu(1) by (simp add: used_inode_def)
  have it: "fs_inv ?t \<and> idle ?t"
    using tfs_open_inv [OF inv idle p(1), of mode] absent ex by auto
  have sh: "same_handles h s ?t"
    by (rule same_handlesI) (use h in \<open>auto simp: opened_def file_inode_def link_added_def nth_update
      entry_added_def split: option.split if_splits\<close>)
  have fb: "free_blocks ?t = free_blocks s"
    by (simp add: opened_def file_inode_def link_added_def entry_added_def split: option.split)
  from ex hd nm ci cj fi(3) ft it sh fb is_open_fresh [OF h] show ?thesis by blast
qed

text \<open>When \<open>tfs_open\<close> fails to create a file, and what it leaves then.\<close>

definition has_room :: "tfs_state \<Rightarrow> cstr \<Rightarrow> bool" where
  "has_room s p \<longleftrightarrow> lookup s p = - 1 \<and> FREE \<in> set (freeinode_ts s) \<and>
     (case path_entry p of None \<Rightarrow> False | Some v \<Rightarrow> link_result s v = 0)"

lemma modes [simp]:
  "has_mode TFS_O_CREAT TFS_O_CREAT" "\<not> has_mode TFS_O_CREAT TFS_O_TRUNC"
  "\<not> has_mode TFS_O_CREAT TFS_O_APPEND" "\<not> has_mode TFS_O_TRUNC TFS_O_CREAT"
  "has_mode TFS_O_TRUNC TFS_O_TRUNC" "\<not> has_mode TFS_O_TRUNC TFS_O_APPEND"
  "has_mode TFS_O_APPEND TFS_O_APPEND" "\<not> has_mode TFS_O_APPEND TFS_O_CREAT"
  "\<not> has_mode TFS_O_APPEND TFS_O_TRUNC" "\<not> has_mode 0 m"
  by (simp_all add: has_mode_def TFS_O_CREAT_def TFS_O_TRUNC_def TFS_O_APPEND_def)

lemma open_fails:
  assumes inv: "fs_inv s" and idle: "idle s" and p: "c_ok p" and f: "tfs_open p TFS_O_CREAT s = Inr (- 1, t)"
  shows "(if has_room s p
      then FREE \<notin> set (free_open_file_entries s) \<and> (\<exists>v i. path_entry p = Some v \<and>
        names t = (names s)(v \<mapsto> i) \<and> contents t i = [])
      else names t = names s) \<and> (\<forall>j. used_inode s (int j) \<longrightarrow> contents t j = contents s j)"
proof (cases "has_room s p")
  case True
  then obtain v i where v: "path_entry p = Some v" "lookup s p = - 1" "link_result s v = 0"
    and i: "first_free (freeinode_ts s) = Some i"
    using first_free_ex by (fastforce simp: has_room_def split: option.splits)
  let ?u = "file_inode s i TAKEN"
  let ?l = "link_added ?u v (int i)"
  note fi = fresh_inode [OF inv i] and fu = file_inode_used [OF inv i] and iu = inv_file_inode [OF inv i, of TAKEN]
  have "opened ?l i 0 = (- 1, t)"
    using tfs_open_create_exec [OF inv idle p v(1,2) _ i, of TFS_O_CREAT] v(3) f by simp
  then have t: "t = ?l" and full: "FREE \<notin> set (free_open_file_entries s)"
    using first_free_None [of "free_open_file_entries s"] by (auto simp: opened_def split: option.splits)
  have "i < 2147483648" using fi(2) fs_invD(1) [OF inv] wf_bounds(2) [of s] by simp
  then have nm: "names ?l = (names s)(v \<mapsto> i)"
    using names_link_added [of ?u v i] v(3) iu(2) names_lookup_None [OF v(1,2)] names_cong [OF iu(2)]
    by (simp add: link_result_def)
  have "contents ?l j = contents s j" if "used_inode s (int j)" for j
  proof -
    have ne: "j \<noteq> i" using that fi(3) by (auto simp: used_inode_def)
    have "0 < j" "j < INODE_TABLE_SIZE ?u" "freeinode_ts ?u ! j = TAKEN"
      using that ne by (simp_all add: used_inode_def) (simp add: file_inode_def)
    with iu(1) show ?thesis using contents_file_inode [OF ne] by simp
  qed
  moreover have "contents ?l i = []" using fu(2) by (simp add: contents_def)
  ultimately show ?thesis using True t full nm v(1) by auto
next
  case False
  have "names t = names s \<and> (\<forall>j. used_inode s (int j) \<longrightarrow> contents t j = contents s j)"
  proof (cases "lookup s p = - 1")
    case found: False
    then obtain j where j: "resolve s (lookup s p) = Some j"
      using tfs_open_link_ends(2) [OF inv idle p, of TFS_O_CREAT] f by fastforce
    show ?thesis
    proof (cases "j = - 1")
      case True
      with tfs_open_link_ends(1) [OF inv idle p found, of TFS_O_CREAT] f j show ?thesis by simp
    next
      case jn: False
      have "used_inode s j"
        using resolve_result(2) [OF fs_invD(3) [OF inv] j] lookup_used [OF inv found] jn by simp
      then obtain i where i: "j = int i" by (rule used_inodeE)
      have "opened (truncated s i TFS_O_CREAT) i (start_offset s i TFS_O_CREAT) = (- 1, t)"
        using tfs_open_existing_exec [OF inv idle p found, of i TFS_O_CREAT] j i f by simp
      then have "t = s" by (auto simp: opened_def truncated_def split: option.splits)
      then show ?thesis by simp
    qed
  next
    case absent: True
    show ?thesis
    proof (cases "path_entry p = None \<or> first_free (freeinode_ts s) = None")
      case True
      then have "tfs_open p TFS_O_CREAT s = Inr (- 1, s)"
        using tfs_open_invalid [OF p] tfs_open_absent [OF inv idle p absent] by auto
      with f show ?thesis by simp
    next
      case False
      then obtain v i where v: "path_entry p = Some v" and i: "first_free (freeinode_ts s) = Some i" by auto
      have "FREE \<in> set (freeinode_ts s)" using first_free_Some [OF i] by (metis nth_mem)
      then have "link_result s v \<noteq> 0" using \<open>\<not> has_room s p\<close> absent v by (auto simp: has_room_def)
      with tfs_open_create_exec [OF inv idle p v absent _ i, of TFS_O_CREAT] f have t: "t = file_inode s i FREE" by simp
      have "contents t j = contents s j" if "used_inode s (int j)" for j
        unfolding t by (rule contents_file_inode) (use that fresh_inode(3) [OF inv i] in \<open>auto simp: used_inode_def\<close>)
      then show ?thesis using names_cong [OF inv_file_inode(2) [OF inv i, of FREE]] t by simp
    qed
  qed
  with False show ?thesis by simp
qed

section \<open>Closing\<close>

lemma close_run:
  assumes inv: "fs_inv s" and idle: "idle s" and op: "is_open s (int h)"
  shows "\<exists>t. tfs_close (int h) s = Inr (0, t) \<and> fs_inv t \<and> idle t \<and> names t = names s \<and>
    (\<forall>j. contents t j = contents s j) \<and> same_handles h s t \<and> \<not> is_open t (int h) \<and>
    freeinode_ts t = freeinode_ts s \<and> fs_params t = fs_params s \<and> free_blocks t = free_blocks s \<and>
    fs_data t = fs_data s \<and> inode_table t = inode_table s \<and> FREE \<in> set (free_open_file_entries t)"
proof -
  let ?t = "s\<lparr>free_open_file_entries := (free_open_file_entries s)[h := FREE]\<rparr>"
  have "names ?t = names s" by (rule names_cong) (rule root_dents_cong(2), simp_all)
  moreover have "contents ?t j = contents s j" for j by (rule contents_cong) simp_all
  moreover have "same_handles h s ?t" by (rule same_handlesI) simp_all
  moreover have "h < length (free_open_file_entries s)"
    using op fs_invD(1) [OF inv] by (simp add: is_open_def valid_file_handle_def wf_simps)
  then have "\<not> is_open ?t (int h)" "FREE \<in> set (free_open_file_entries ?t)"
    by (simp_all add: is_open_def set_update_memI)
  moreover have "idle ?t" using idle by (simp add: idle_def)
  ultimately show ?thesis
    using tfs_close_exec [OF inv idle, of "int h"] op inv_close(1) [OF inv] by simp
qed

section \<open>Removing\<close>

lemma unlinked_inode:
  assumes inv: "fs_inv s" and u: "used_inode s (int i)"
  shows "i_count (inode_table s ! i) \<le> 1 \<Longrightarrow> freeinode_ts (unlinked s i k) ! i = FREE"
    and "i_count (inode_table s ! i) \<le> 1 \<Longrightarrow> 0 < i_size (inode_table s ! i) \<Longrightarrow>
      free_blocks (unlinked s i k) ! nat (block_of s i) = FREE"
    and "1 < i_count (inode_table s ! i) \<Longrightarrow> freeinode_ts (unlinked s i k) = freeinode_ts s \<and>
      free_blocks (unlinked s i k) = free_blocks s \<and>
      i_count (inode_table (unlinked s i k) ! i) = i_count (inode_table s ! i) - 1"
    and "j \<noteq> i \<Longrightarrow> freeinode_ts (unlinked s i k) ! j = freeinode_ts s ! j"
proof -
  note w = fs_invD [OF inv]
  have i: "i < length (freeinode_ts s)" "i < length (inode_table s)"
    using u w(1) by (simp_all add: used_inode_def wf_simps)
  have b: "nat (block_of s i) < length (free_blocks s)" if "0 < i_size (inode_table s ! i)"
  proof -
    have "holds_block s i" using u that by (simp add: holds_block_def used_inode_def)
    then show ?thesis using w(1,5)
      by (simp add: blocks_inv_def valid_block_number_def wf_simps nat_less_iff)
  qed
  show "freeinode_ts (unlinked s i k) ! i = FREE" if "i_count (inode_table s ! i) \<le> 1"
    using i that by (simp add: unlinked_def Let_def)
  show "free_blocks (unlinked s i k) ! nat (block_of s i) = FREE"
    if "i_count (inode_table s ! i) \<le> 1" "0 < i_size (inode_table s ! i)"
    using b that by (simp add: unlinked_def Let_def freed_blocks_def)
  show "freeinode_ts (unlinked s i k) = freeinode_ts s \<and>
      free_blocks (unlinked s i k) = free_blocks s \<and>
      i_count (inode_table (unlinked s i k) ! i) = i_count (inode_table s ! i) - 1"
    if "1 < i_count (inode_table s ! i)"
    using i that by (simp add: unlinked_def Let_def)
  show "freeinode_ts (unlinked s i k) ! j = freeinode_ts s ! j" if "j \<noteq> i"
    using that by (simp add: unlinked_def Let_def)
qed

lemma unlink_entries:
  assumes inv: "fs_inv s" and idle: "idle s" and p: "c_ok p" "path_entry p = Some v" and i: "lookup s p = int i"
  shows "\<exists>k. tfs_unlink p s = Inr (0, unlinked s i k) \<and> k < MAX_DIR_ENTRIES s \<and> used_inode s (int i) \<and>
    entries_of (unlinked s i k) v = tl (entries_of s v) \<and>
    (\<forall>w. w \<noteq> v \<longrightarrow> names (unlinked s i k) w = names s w) \<and> fs_inv (unlinked s i k)"
proof -
  have f: "lookup s p \<noteq> - 1" using i by simp
  have used: "used_inode s (int i)" using lookup_used [OF inv f] i by simp
  from tfs_unlink_exec [OF inv idle p(1) f] p(2) i obtain k where
    k: "first_index (\<lambda>e. fst e = v) (root_dents s) = Some k" "tfs_unlink p s = Inr (0, unlinked s i k)"
    by auto
  have "0 < i" using used by (simp add: used_inode_def)
  with entries_unlinked [OF inv k(1) _ path_entry_nonempty [OF p(2)]] names_unlinked_others [OF inv k(1)]
    tfs_unlink_inv [OF inv idle p(1)] k first_index_SomeD [OF k(1)] used show ?thesis by auto
qed

lemma unlink_run:
  assumes inv: "fs_inv s" and idle: "idle s" and p: "c_ok p" "path_entry p = Some v"
    and i: "lookup s p = int i" and u: "unique_names s"
  shows "\<exists>k. tfs_unlink p s = Inr (0, unlinked s i k) \<and> k < MAX_DIR_ENTRIES s \<and> used_inode s (int i) \<and>
    names (unlinked s i k) = (names s)(v := None)"
proof -
  have f: "lookup s p \<noteq> - 1" using i by simp
  have used: "used_inode s (int i)" using lookup_used [OF inv f] i by simp
  from tfs_unlink_exec [OF inv idle p(1) f] p(2) i obtain k where
    k: "first_index (\<lambda>e. fst e = v) (root_dents s) = Some k" "tfs_unlink p s = Inr (0, unlinked s i k)"
    by auto
  have "0 < i" using used by (simp add: used_inode_def)
  from names_unlinked [OF inv u path_entry_nonempty [OF p(2)] k(1) this]
  show ?thesis using k first_index_SomeD [OF k(1)] used by auto
qed

section \<open>Opening\<close>

lemma contents_truncated:
  "i < length (inode_table s) \<Longrightarrow> contents (truncated s i mode) j =
    (if j = i \<and> has_mode mode TFS_O_TRUNC then [] else contents s j)"
  by (auto simp: contents_def truncated_def nth_update)

lemma open_existing_run:
  assumes inv: "fs_inv s" and idle: "idle s" and p: "c_ok p" "lookup s p \<noteq> - 1"
    and r: "resolve s (lookup s p) = Some (int i)"
    and room: "FREE \<in> set (free_open_file_entries s)"
  shows "\<exists>h t. tfs_open p mode s = Inr (int h, t) \<and> \<not> is_open s (int h) \<and> is_open t (int h) \<and>
    file_of t h = i \<and> names t = names s \<and>
    contents t i = (if has_mode mode TFS_O_TRUNC then [] else contents s i) \<and>
    offset_of t h = (if has_mode mode TFS_O_APPEND then length (contents t i) else 0) \<and>
    (has_mode mode TFS_O_TRUNC \<longrightarrow> contents s i \<noteq> [] \<longrightarrow>
      free_blocks t ! nat (block_of s i) = FREE) \<and>
    (\<forall>j. j \<noteq> i \<longrightarrow> contents t j = contents s j) \<and>
    fs_inv t \<and> idle t \<and> same_handles h s t \<and> freeinode_ts t = freeinode_ts s \<and>
    used_inode s (int i) \<and> fs_params t = fs_params s \<and>
    (\<not> has_mode mode TFS_O_TRUNC \<longrightarrow> free_blocks t = free_blocks s \<and> fs_data t = fs_data s \<and>
      inode_table t = inode_table s)"
proof -
  from room obtain h where h: "first_free (free_open_file_entries s) = Some h"
    using first_free_ex by blast
  have ui: "used_inode s (int i)"
    using resolve_result(2) [OF fs_invD(3) [OF inv] r] lookup_used [OF inv p(2)] by simp
  have wf: "tfs_wf s" using inv by (rule fs_invD)
  have i: "0 < i" "i < length (inode_table s)" "freeinode_ts s ! i = TAKEN" "i < INODE_TABLE_SIZE s"
    using ui wf by (simp_all add: used_inode_def wf_simps)
  let ?u = "truncated s i mode"
  let ?off = "start_offset s i mode"
  let ?t = "snd (opened ?u i ?off)"
  have ne: "fst (opened ?u i ?off) \<noteq> - 1" using h by (simp add: opened_def)
  from opened_handle [OF _ ne] wf h have
    hd: "fst (opened ?u i ?off) = int h" "is_open ?t (int h)" "offset_of ?t h = ?off"
      "file_of ?t h = i" by auto
  have ex: "tfs_open p mode s = Inr (int h, ?t)"
    using tfs_open_existing_exec [OF inv idle p r, of mode] hd(1) by (simp add: prod_eq_iff)
  have "root_dents ?u = root_dents s"
    by (rule root_dents_cong(2)) (use i(1) in \<open>simp_all add: truncated_def\<close>)
  then have nm: "names ?t = names s" using names_cong [of ?u s] by simp
  have off: "?off = (if has_mode mode TFS_O_APPEND then length (contents ?t i) else 0)"
    by (simp add: start_offset_def)
  have fb: "free_blocks ?t ! nat (block_of s i) = FREE"
    if "has_mode mode TFS_O_TRUNC" "contents s i \<noteq> []"
  proof -
    have sz: "0 < i_size (inode_table s ! i)" using that(2) by (auto simp: contents_def split: if_splits)
    then have "holds_block s i" using i by (simp add: holds_block_def)
    then have "nat (block_of s i) < length (free_blocks s)"
      using fs_invD(5) [OF inv] wf by (simp add: blocks_inv_def valid_block_number_def wf_simps nat_less_iff)
    with sz that(1) show ?thesis by (simp add: truncated_def)
  qed
  have c: "contents ?t j = (if j = i \<and> has_mode mode TFS_O_TRUNC then [] else contents s j)" for j
    using contents_truncated [OF i(2), of mode j] by simp
  have it: "fs_inv ?t \<and> idle ?t"
    using tfs_open_inv [OF inv idle p(1), of mode] r ex by auto
  have sh: "same_handles h s ?t"
    by (rule same_handlesI) (use h in \<open>auto simp: opened_def truncated_def nth_update\<close>)
  have fi: "freeinode_ts ?t = freeinode_ts s" by (simp add: truncated_def)
  have same: "fs_params ?t = fs_params s" "\<not> has_mode mode TFS_O_TRUNC \<longrightarrow>
      free_blocks ?t = free_blocks s \<and> fs_data ?t = fs_data s \<and> inode_table ?t = inode_table s"
    by (simp_all add: truncated_def)
  show ?thesis
    using ex hd nm off fb c it sh fi ui same is_open_fresh [OF h] by (intro exI [of _ h] exI [of _ ?t]) simp
qed

section \<open>Writing\<close>

text \<open>The bytes of the block of a file behind its contents are zero; for an empty file, those of the
  block it will get.\<close>

definition blank_after :: "tfs_state \<Rightarrow> nat \<Rightarrow> bool" where
  "blank_after s i \<longleftrightarrow> (\<forall>b fb x. write_block s i = Some (b, fb) \<longrightarrow> i_size (inode_table s ! i) \<le> x \<longrightarrow>
     x < BLOCK_SIZE s \<longrightarrow> fs_data s (b * BLOCK_SIZE s + x) = NUL)"

lemma blank_after_cong:
  assumes "inode_table t = inode_table s" and "fs_data t = fs_data s" and "fs_params t = fs_params s"
    and "free_blocks t = free_blocks s"
  shows "blank_after t i = blank_after s i"
  using assms by (simp add: blank_after_def write_block_def)

lemma blank_after_written:
  assumes inv: "fs_inv s" and op: "is_open s (int h)"
    and wb: "write_block s (file_of s h) = Some (b, fb)"
    and off: "offset_of s h = i_size (inode_table s ! file_of s h)" and ne: "bs \<noteq> []"
    and z: "blank_after s (file_of s h)"
  shows "blank_after (written s h fb b bs) (file_of s h)"
proof -
  let ?t = "written s h fb b bs" and ?i = "file_of s h"
  note wi = written_inode(1) [OF inv op, of fb b bs]
  have sz: "i_size (inode_table ?t ! ?i) = offset_of s h + length bs" using wi off by simp
  have wt: "write_block ?t ?i = Some (b, free_blocks ?t)"
    using wi sz ne by (simp add: write_block_def)
  have "fs_data ?t (b * BLOCK_SIZE s + x) = NUL"
    if "offset_of s h + length bs \<le> x" "x < BLOCK_SIZE s" for x
  proof -
    have "fs_data ?t (b * BLOCK_SIZE s + x) = fs_data s (b * BLOCK_SIZE s + x)"
      using that by (simp add: written_def store_outside)
    also have "\<dots> = NUL" using z wb off that by (simp add: blank_after_def)
    finally show ?thesis .
  qed
  with wt sz show ?thesis by (simp add: blank_after_def)
qed

text \<open>The byte that follows the contents of a file in its block.\<close>

lemma blank_after_byte:
  assumes "blank_after s (file_of s h)" and "contents s (file_of s h) \<noteq> []"
    and "length (contents s (file_of s h)) < BLOCK_SIZE s"
  shows "fs_data s (nat (block_of s (file_of s h)) * BLOCK_SIZE s + length (contents s (file_of s h))) = NUL"
proof -
  have "i_size (inode_table s ! file_of s h) \<noteq> 0" using assms(2) by (simp add: contents_def split: if_splits)
  then show ?thesis using assms(1,3) by (simp add: blank_after_def write_block_def)
qed

lemma write_run:
  assumes inv: "fs_inv s" and idle: "idle s" and op: "is_open s (int h)"
    and live: "freeinode_ts s ! file_of s h = TAKEN"
    and off: "offset_of s h \<le> length (contents s (file_of s h))"
    and len: "len \<le> length buffer" "len + offset_of s h < size_mod"
    and room: "contents s (file_of s h) \<noteq> [] \<or> FREE \<in> set (free_blocks s)"
    and n: "n = min len (BLOCK_SIZE s - offset_of s h)"
  shows "\<exists>t. tfs_write (int h) buffer len s = Inr (int n, t) \<and>
    contents t (file_of s h) = take (offset_of s h) (contents s (file_of s h)) @ take n buffer @
      drop (offset_of s h + n) (contents s (file_of s h)) \<and>
    offset_of t h = offset_of s h + n \<and> file_of t h = file_of s h \<and> names t = names s \<and>
    (\<forall>j. used_inode s (int j) \<longrightarrow> j \<noteq> file_of s h \<longrightarrow> contents t j = contents s j) \<and>
    fs_inv t \<and> idle t \<and> same_handles h s t \<and> is_open t (int h) \<and> freeinode_ts t = freeinode_ts s \<and>
    fs_params t = fs_params s \<and>
    (offset_of s h = length (contents s (file_of s h)) \<longrightarrow> blank_after s (file_of s h) \<longrightarrow>
      blank_after t (file_of s h))"
proof -
  note oh = open_handle [OF inv op]
  have sz: "length (contents s (file_of s h)) \<le> BLOCK_SIZE s"
    using fs_invD(6) [OF inv] live oh(5) by (simp add: sizes_inv_def)
  with off have ob: "offset_of s h \<le> BLOCK_SIZE s" by simp
  have n': "write_amount s h len = n" by (simp add: write_amount_def n)
  note ex = tfs_write_exec [OF inv idle op ob len(2,1), unfolded n']
  show ?thesis
  proof (cases "n = 0")
    case True
    with ex off inv idle op show ?thesis by (simp add: same_handles_def)
  next
    case False
    have "write_block s (file_of s h) \<noteq> None"
      using room first_free_ex [of "free_blocks s"] by (auto simp: write_block_def contents_def)
    then obtain b fb where wb: "write_block s (file_of s h) = Some (b, fb)" by auto
    let ?bs = "take n buffer"
    let ?t = "written s h fb b ?bs"
    have lb: "length ?bs = n" and bne: "?bs \<noteq> []" using len(1) n False by auto
    have fit: "offset_of s h + length ?bs \<le> BLOCK_SIZE s" using ob lb n by simp
    have "contents ?t j = contents s j" if "used_inode s (int j)" "j \<noteq> file_of s h" for j
      using that by (intro contents_written_other [OF inv op live wb fit]) (simp_all add: used_inode_def)
    moreover have "names ?t = names s"
      by (rule names_cong) (rule inv_written(2) [OF inv op wb fit])
    moreover have "contents ?t (file_of s h) = take (offset_of s h) (contents s (file_of s h)) @ ?bs @
        drop (offset_of s h + n) (contents s (file_of s h))"
      using contents_written [OF inv op wb _ bne] off lb by simp
    moreover have "same_handles h s ?t"
      by (rule same_handlesI) (simp_all add: written_def)
    moreover have "freeinode_ts ?t = freeinode_ts s" "fs_params ?t = fs_params s"
      by (simp_all add: written_def)
    moreover have "fs_inv ?t" by (rule inv_written(1) [OF inv op wb fit])
    moreover have "idle ?t" using idle by simp
    moreover have "offset_of s h = length (contents s (file_of s h)) \<longrightarrow> blank_after s (file_of s h) \<longrightarrow>
        blank_after ?t (file_of s h)"
      using blank_after_written [OF inv op wb _ bne] by simp
    ultimately show ?thesis
      using ex False wb offset_written [OF inv op, of fb b ?bs] lb op by simp
  qed
qed

section \<open>Reading\<close>

lemma read_fits:
  assumes inv: "fs_inv s" and op: "is_open s (int h)"
    and pos: "0 < i_size (inode_table s ! file_of s h)"
    and fit: "read_start s h + read_amount s h len \<le> BLOCK_SIZE s"
  shows "read_base s h + read_start s h + read_amount s h len \<le> fs_data_size s"
proof -
  have vb: "valid_block_number s (block_of s (file_of s h))"
    using open_handle(7) [OF inv op pos] by simp
  then have "nat (block_of s (file_of s h)) < DATA_BLOCKS s" by (auto simp: valid_block_number_def)
  then have "read_base s h + BLOCK_SIZE s \<le> fs_data_size s"
    using block_in_data fs_invD(1) [OF inv] by (simp add: read_base_def wf_simps)
  with fit show ?thesis by simp
qed

lemma contents_advanced [simp]: "contents (advanced s h off) j = contents s j"
  by (rule contents_cong) (simp_all add: advanced_def)

lemma advanced_handle:
  assumes "fs_inv s" and "is_open s (int h)"
  shows "offset_of (advanced s h off) h = off" and "file_of (advanced s h off) h = file_of s h"
    and "is_open (advanced s h off) d = is_open s d"
    and "freeinode_ts (advanced s h off) = freeinode_ts s"
    and "fs_params (advanced s h off) = fs_params s"
  using open_handle(2) [OF assms]
  by (simp_all add: advanced_def offset_of_def file_of_def is_open_def valid_file_handle_def)

lemma names_advanced [simp]: "names (advanced s h off) = names s"
  by (rule names_cong, rule root_dents_cong(2)) (simp_all add: advanced_def)

text \<open>A read that does not start at a zero byte.\<close>

lemma read_string_exec:
  assumes inv: "fs_inv s" and idle: "idle s" and op: "is_open s (int h)"
    and live: "freeinode_ts s ! file_of s h = TAKEN"
    and r: "r = c_string (take len (drop (offset_of s h) (contents s (file_of s h))))"
    and off: "offset_of s h \<le> length (contents s (file_of s h))"
    and nz: "offset_of s h < length (contents s (file_of s h)) \<Longrightarrow>
      contents s (file_of s h) ! offset_of s h \<noteq> NUL"
  shows "tfs_read (int h) len s = Inr ((int (length r), r),
    if read_amount s h len = 0 then s else advanced s h (offset_of s h + length r))"
proof -
  note oh = open_handle [OF inv op]
  have sz: "i_size (inode_table s ! file_of s h) \<le> BLOCK_SIZE s"
    using fs_invD(6) [OF inv] live oh(5) by (simp add: sizes_inv_def)
  show ?thesis
  proof (cases "read_amount s h len = 0")
    case True
    then have "take len (drop (offset_of s h) (contents s (file_of s h))) = []"
      by (simp add: read_amount_def min_def split: if_splits)
    with r have "r = []" by (simp add: c_string_def)
    with tfs_read_exec [OF inv idle op _ sz, of len] off True show ?thesis by simp
  next
    case False
    then have lt: "offset_of s h < i_size (inode_table s ! file_of s h)"
      by (auto simp: read_amount_def)
    with nz have st: "read_start s h = offset_of s h" and bs: "read_bytes s h len = r"
      using read_bytes_contents [OF lt] r by simp_all
    have "read_start s h + read_amount s h len \<le> BLOCK_SIZE s"
      using st sz lt by (simp add: read_amount_def)
    from read_fits [OF inv op _ this] lt
    have "read_base s h + read_start s h + read_amount s h len \<le> fs_data_size s" by simp
    with tfs_read_exec [OF inv idle op _ sz, of len] lt False st bs show ?thesis by simp
  qed
qed

text \<open>A read of one message, at its first byte or at the zero byte that ends the one before.\<close>

lemma c_string_cut: "NUL \<notin> set m \<Longrightarrow> length m \<le> n \<Longrightarrow> c_string (take n (m @ NUL # r)) = m"
proof (cases "n - length m")
  case 0
  assume "NUL \<notin> set m" "length m \<le> n"
  with 0 show ?thesis by (simp add: c_string_all)
next
  case (Suc k)
  assume "NUL \<notin> set m" "length m \<le> n"
  with Suc show ?thesis by simp
qed

lemma read_message:
  assumes inv: "fs_inv s" and idle: "idle s" and op: "is_open s (int h)"
    and live: "freeinode_ts s ! file_of s h = TAKEN"
    and c: "contents s (file_of s h) = xs @ m @ NUL # rest"
    and m: "m \<noteq> []" "NUL \<notin> set m" "length m \<le> len"
    and fit: "length (contents s (file_of s h)) < BLOCK_SIZE s"
    and off: "offset_of s h = length xs \<or> Suc (offset_of s h) = length xs \<and> last xs = NUL"
  shows "tfs_read (int h) len s =
    Inr ((int (length m), m), advanced s h (length xs + length m))"
proof -
  let ?i = "file_of s h" and ?o = "offset_of s h"
  define n where "n = i_size (inode_table s ! ?i)"
  have n: "n = length xs + length m + 1 + length rest" using c by (simp add: n_def flip: length_contents)
  have lt: "?o < n" using off n by auto
  have cs: "TFS_Prelude.slice (fs_data s) (read_base s h) n = xs @ m @ NUL # rest"
    using c lt by (simp add: contents_def read_base_def n_def split: if_splits)
  have byte: "fs_data s (read_base s h + k) = (xs @ m @ NUL # rest) ! k" if "k < n" for k
    using arg_cong [OF cs, of "\<lambda>l. l ! k"] that by simp
  have st: "read_start s h = length xs"
  proof (cases "?o = length xs")
    case True
    have "m ! 0 \<noteq> NUL" using m(1,2) by (cases m) auto
    with True m(1) byte [OF lt] show ?thesis by (simp add: read_start_def nth_append)
  next
    case False
    with off have o: "Suc ?o = length xs" "last xs = NUL" by auto
    then have "xs ! ?o = NUL" using last_conv_nth [of xs] by (cases xs) auto
    with o byte [OF lt] show ?thesis by (simp add: read_start_def nth_append)
  qed
  have tail: "TFS_Prelude.slice (fs_data s) (read_base s h + length xs) (n - length xs) = m @ NUL # rest"
    using arg_cong [OF cs, of "drop (length xs)"] by simp
  define a where "a = read_amount s h len"
  have a: "length m \<le> a" "a \<le> Suc (n - length xs)"
    using off n m(3) by (auto simp: a_def read_amount_def n_def [symmetric])
  have "c_string (TFS_Prelude.slice (fs_data s) (read_base s h + length xs) a) = m"
  proof (cases "a \<le> n - length xs")
    case True
    then have "TFS_Prelude.slice (fs_data s) (read_base s h + length xs) a = take a (m @ NUL # rest)"
      using arg_cong [OF tail, of "take a"] by (simp add: min_def)
    with c_string_cut [OF m(2) a(1)] show ?thesis by simp
  next
    case False
    with a(2) have "a = (n - length xs) + 1" by simp
    then have "TFS_Prelude.slice (fs_data s) (read_base s h + length xs) a = (m @ NUL # rest) @
        TFS_Prelude.slice (fs_data s) (read_base s h + length xs + (n - length xs)) 1"
      by (simp only: slice_add tail)
    with m(2) show ?thesis by simp
  qed
  then have bs: "read_bytes s h len = m" by (simp add: read_bytes_def st a_def)
  have ns: "n < BLOCK_SIZE s" using fit by (simp add: n_def)
  have "read_start s h + read_amount s h len \<le> BLOCK_SIZE s"
    using a(2) ns n by (simp add: st flip: a_def)
  from read_fits [OF inv op _ this] lt
  have "read_base s h + read_start s h + read_amount s h len \<le> fs_data_size s" by (simp add: n_def)
  moreover have "a \<noteq> 0" using a(1) m(1) by (cases m) auto
  ultimately show ?thesis
    using tfs_read_exec [OF inv idle op, of len] lt ns bs st by (simp add: n_def a_def)
qed

end
