(* ===== verification/FS_Demo.thy ===== *)
theory FS_Demo
  imports FS_Runs
begin

text \<open>
  A small file system, built by the calls of the API, on which the theorems about the API are
  instantiated: four inodes, three blocks of 88 bytes (two directory entries each) and two open
  files, on a zeroed heap.
\<close>

definition demo_params :: tfs_params where
  "demo_params = \<lparr>max_inode_count = 4, max_block_count = 3, max_open_files_count = 2,
     block_size = 88\<rparr>"

definition demo_heap :: heap where
  "demo_heap = \<lparr>granted = (\<lambda>_. True),
     raw_inode = (\<lambda>_. \<lparr>i_node_type = T_FILE, i_size = 0, i_data_block = 0, i_count = 0\<rparr>),
     raw_byte = (\<lambda>_. NUL), raw_open_file = (\<lambda>_. \<lparr>of_inumber = 0, of_offset = 0\<rparr>)\<rparr>"

definition path_a :: cstr where "path_a = Some ''/a''"
definition path_b :: cstr where "path_b = Some ''/b''"

definition demo0 :: tfs_state where
  "demo0 = init_state demo_heap demo_params boot"

text \<open>After \<open>tfs_open("/a", TFS_O_CREAT)\<close>, which returns the handle 0.\<close>

definition demo1 :: tfs_state where
  "demo1 = snd (opened (link_added (file_inode demo0 1 TAKEN) ''a'' 1) 1 0)"

lemma demo_params_ok: "wf_params demo_params" "0 < max_inode_count demo_params"
  "0 < max_block_count demo_params" "all_granted demo_heap" "blank_names demo_heap demo_params"
  by (simp_all add: demo_params_def demo_heap_def wf_params_def all_granted_def blank_names_def)

lemma demo0_init: "tfs_init demo_heap (Some demo_params) boot = Inr (0, demo0)"
  unfolding demo0_def
  by (rule tfs_init_exec) (simp_all add: demo_params_ok)

lemma demo0_reachable: "reachable demo0"
  using demo_params_ok demo0_init by (rule reachable.init)

lemma demo0_inv: "fs_inv demo0" "idle demo0"
  using reachable_inv [OF demo0_reachable] by simp_all

lemma upt_4: "[0 ..< 4] = [0, 1, 2, 3 :: nat]"
  by (simp add: upt_rec)

lemma demo0_fields:
  "fs_params demo0 = demo_params"
  "freeinode_ts demo0 = [TAKEN, FREE, FREE, FREE]"
  "free_blocks demo0 = [TAKEN, FREE, FREE]"
  "free_open_file_entries demo0 = [FREE, FREE]"
  "open_file_table demo0 = [\<lparr>of_inumber = 0, of_offset = 0\<rparr>, \<lparr>of_inumber = 0, of_offset = 0\<rparr>]"
  "inode_table demo0 =
    [\<lparr>i_node_type = T_DIRECTORY, i_size = 88, i_data_block = 0, i_count = 0\<rparr>,
     \<lparr>i_node_type = T_FILE, i_size = 0, i_data_block = 0, i_count = 0\<rparr>,
     \<lparr>i_node_type = T_FILE, i_size = 0, i_data_block = 0, i_count = 0\<rparr>,
     \<lparr>i_node_type = T_FILE, i_size = 0, i_data_block = 0, i_count = 0\<rparr>]"
  by (simp_all add: demo0_def demo_params_def demo_heap_def upt_4 numeral_eq_Suc)

lemma demo0_dents: "root_dents demo0 = [([], - 1), ([], - 1)]"
proof -
  have "root_dents demo0 = replicate (block_size demo_params div 44) ([], - 1)"
    unfolding demo0_def by (rule root_dents_init) (simp_all add: demo_params_ok)
  also have "block_size demo_params div 44 = Suc (Suc 0)" by (simp add: demo_params_def)
  finally show ?thesis by simp
qed

lemma demo_names [simp]:
  "path_entry path_a = Some ''a''" "path_entry path_b = Some ''b''" "c_ok path_a" "c_ok path_b"
  "link_entry path_a = Some ''a''" "link_entry path_b = Some ''b''"
  "valid_name ''a''" "valid_name ''b''"
  by (simp_all add: path_a_def path_b_def path_entry_def c_ok_def link_entry_def valid_name_def)

lemma demo1_open: "tfs_open path_a TFS_O_CREAT demo0 = Inr (0, demo1)"
proof -
  have ff: "first_free (freeinode_ts demo0) = Some 1" by (simp add: demo0_fields first_free_def)
  have "lookup demo0 path_a = - 1" by (simp add: lookup_def demo0_dents)
  moreover have "link_result demo0 ''a'' = 0" by (simp add: link_result_def demo0_dents)
  ultimately have "tfs_open path_a TFS_O_CREAT demo0 =
      Inr (opened (link_added (file_inode demo0 1 TAKEN) ''a'' (int 1)) 1 0)"
    using tfs_open_create_exec [OF demo0_inv, of path_a "''a''" TFS_O_CREAT 1] ff by simp
  then show ?thesis
    by (simp add: demo1_def opened_def demo0_fields first_free_def)
qed

lemma demo1_reachable: "reachable demo1"
  by (rule reachable.step [OF demo0_reachable, of "Open path_a TFS_O_CREAT"])
    (simp_all add: demo1_open chain_ends_def lookup_def demo0_dents)

lemma demo1_inv: "fs_inv demo1" "idle demo1"
  using reachable_inv [OF demo1_reachable] by simp_all

lemma demo1_fields:
  "fs_params demo1 = demo_params"
  "freeinode_ts demo1 = [TAKEN, TAKEN, FREE, FREE]"
  "free_blocks demo1 = [TAKEN, FREE, FREE]"
  "free_open_file_entries demo1 = [TAKEN, FREE]"
  "open_file_table demo1 = [\<lparr>of_inumber = 1, of_offset = 0\<rparr>, \<lparr>of_inumber = 0, of_offset = 0\<rparr>]"
  "inode_table demo1 =
    [\<lparr>i_node_type = T_DIRECTORY, i_size = 88, i_data_block = 0, i_count = 0\<rparr>,
     \<lparr>i_node_type = T_FILE, i_size = 0, i_data_block = - 1, i_count = 1\<rparr>,
     \<lparr>i_node_type = T_FILE, i_size = 0, i_data_block = 0, i_count = 0\<rparr>,
     \<lparr>i_node_type = T_FILE, i_size = 0, i_data_block = 0, i_count = 0\<rparr>]"
  by (simp_all add: demo1_def opened_def first_free_def demo0_fields)
    (simp_all add: file_inode_def demo0_fields)

text \<open>The entries after a link was added, and after an update that keeps the directory.\<close>

lemma link_added_dents:
  assumes "root_dents s = es" and "first_index (\<lambda>e. snd e = - 1) es = Some k" and "valid_name v"
    and "is_int32 d"
  shows "root_dents (link_added s v d) = es[k := (v, d)]"
  using assms root_dents_entry_added [of s k v d] by (simp add: link_added_def)

lemma demo1_dents: "root_dents demo1 = [(''a'', 1), ([], - 1)]"
proof -
  have "first_free (freeinode_ts demo0) = Some 1" by (simp add: demo0_fields first_free_def)
  then have "root_dents (file_inode demo0 1 TAKEN) = [([], - 1), ([], - 1)]"
    using inv_file_inode(2) [OF demo0_inv(1)] demo0_dents by simp
  then show ?thesis
    by (simp add: demo1_def link_added_dents [where k = 0] is_int32_def)
qed

text \<open>After \<open>tfs_write(0, "hi", 2)\<close>.\<close>

definition demo2 :: tfs_state where
  "demo2 = written demo1 0 [TAKEN, TAKEN, FREE] 1 ''hi''"

lemma demo1_handle: "is_open demo1 0" "file_of demo1 0 = Suc 0" "offset_of demo1 0 = 0"
  by (simp_all add: is_open_def valid_file_handle_def file_of_def offset_of_def demo1_fields
      demo_params_def)

lemma demo1_block: "write_block demo1 (Suc 0) = Some (Suc 0, [TAKEN, TAKEN, FREE])"
  by (simp add: write_block_def demo1_fields first_free_def)

lemma demo2_write: "tfs_write 0 ''hi'' 2 demo1 = Inr (2, demo2)"
proof -
  have "tfs_write (int 0) ''hi'' 2 demo1 = (if write_amount demo1 0 2 = 0 then Inr (0, demo1)
     else case write_block demo1 (file_of demo1 0) of
       None \<Rightarrow> Inr (- 1, demo1)
     | Some (b, fb) \<Rightarrow> Inr (int (write_amount demo1 0 2),
         written demo1 0 fb b (take (write_amount demo1 0 2) ''hi'')))"
    by (rule tfs_write_exec [OF demo1_inv]) (simp_all add: demo1_handle)
  moreover have "write_amount demo1 0 2 = 2"
    by (simp add: write_amount_def demo1_handle demo1_fields demo_params_def)
  ultimately show ?thesis by (simp add: demo1_handle demo1_block demo2_def)
qed

lemma demo2_reachable: "reachable demo2"
proof (rule reachable.step [OF demo1_reachable])
  show "call_defined demo1 (Write 0 ''hi'' 2)"
    by (simp add: write_defined_def demo1_handle)
  show "run (Write 0 ''hi'' 2) demo1 = Inr (2, demo2)" by (simp add: demo2_write)
qed

lemma demo2_inv: "fs_inv demo2" "idle demo2"
  using reachable_inv [OF demo2_reachable] by simp_all

lemma demo2_fields:
  "fs_params demo2 = demo_params"
  "freeinode_ts demo2 = [TAKEN, TAKEN, FREE, FREE]"
  "free_blocks demo2 = [TAKEN, TAKEN, FREE]"
  "free_open_file_entries demo2 = [TAKEN, FREE]"
  "open_file_table demo2 = [\<lparr>of_inumber = 1, of_offset = 2\<rparr>, \<lparr>of_inumber = 0, of_offset = 0\<rparr>]"
  "inode_table demo2 =
    [\<lparr>i_node_type = T_DIRECTORY, i_size = 88, i_data_block = 0, i_count = 0\<rparr>,
     \<lparr>i_node_type = T_FILE, i_size = 2, i_data_block = 1, i_count = 1\<rparr>,
     \<lparr>i_node_type = T_FILE, i_size = 0, i_data_block = 0, i_count = 0\<rparr>,
     \<lparr>i_node_type = T_FILE, i_size = 0, i_data_block = 0, i_count = 0\<rparr>]"
  by (simp_all add: demo2_def demo1_fields)
    (simp_all add: written_def demo1_fields file_of_def offset_of_def)

lemma demo2_dents: "root_dents demo2 = [(''a'', 1), ([], - 1)]"
  unfolding demo2_def
  using inv_written(2) [OF demo1_inv(1), of 0 1 "[TAKEN, TAKEN, FREE]" "''hi''"]
  by (simp add: demo1_handle demo1_block demo1_dents demo1_fields demo_params_def)

lemma demo2_contents: "contents demo2 (Suc 0) = ''hi''"
  unfolding demo2_def
proof -
  have "contents demo1 (Suc 0) = []" by (simp add: contents_def demo1_fields)
  then show "contents (written demo1 0 [TAKEN, TAKEN, FREE] 1 ''hi'') (Suc 0) = ''hi''"
    using contents_written [OF demo1_inv(1), of 0 1 "[TAKEN, TAKEN, FREE]" "''hi''"]
    by (simp add: demo1_handle demo1_block)
qed

lemma demo2_handle: "is_open demo2 0" "file_of demo2 0 = Suc 0" "offset_of demo2 0 = 2"
  by (simp_all add: is_open_def valid_file_handle_def file_of_def offset_of_def demo2_fields
      demo_params_def)

text \<open>After \<open>tfs_link("/a", "/b")\<close>, and instead of it after \<open>tfs_sym_link("/a", "/b")\<close>.\<close>

definition demo3 :: tfs_state where
  "demo3 = link_added (counted demo2 1) ''b'' 1"

definition demo4 :: tfs_state where
  "demo4 = link_added (sym_created demo2 2 2 ''/a'') ''b'' 2"

lemma demo2_lookup:
  "lookup demo2 path_a = 1" "lookup demo2 path_b = - 1"
  by (simp_all add: lookup_def demo2_dents)

lemma demo3_link: "tfs_link path_a path_b demo2 = Inr (0, demo3)"
  using tfs_link_exec [OF demo2_inv, of path_a path_b "''b''"]
  by (simp add: demo2_lookup is_link_def demo2_fields demo3_def)

lemma demo3_reachable: "reachable demo3"
proof (rule reachable.step [OF demo2_reachable])
  show "call_defined demo2 (Link path_a path_b)" by (simp add: demo2_fields)
  show "run (Link path_a path_b) demo2 = Inr (0, demo3)" by (simp add: demo3_link)
qed

lemma demo3_inv: "fs_inv demo3" "idle demo3"
  using reachable_inv [OF demo3_reachable] by simp_all

lemma demo3_fields:
  "fs_params demo3 = demo_params"
  "freeinode_ts demo3 = [TAKEN, TAKEN, FREE, FREE]"
  "free_blocks demo3 = [TAKEN, TAKEN, FREE]"
  "free_open_file_entries demo3 = [TAKEN, FREE]"
  "inode_table demo3 =
    [\<lparr>i_node_type = T_DIRECTORY, i_size = 88, i_data_block = 0, i_count = 0\<rparr>,
     \<lparr>i_node_type = T_FILE, i_size = 2, i_data_block = 1, i_count = 2\<rparr>,
     \<lparr>i_node_type = T_FILE, i_size = 0, i_data_block = 0, i_count = 0\<rparr>,
     \<lparr>i_node_type = T_FILE, i_size = 0, i_data_block = 0, i_count = 0\<rparr>]"
  by (simp_all add: demo3_def demo2_fields) (simp_all add: counted_def demo2_fields)

lemma demo3_dents: "root_dents demo3 = [(''a'', 1), (''b'', 1)]"
proof -
  have "root_dents (counted demo2 1) = [(''a'', 1), ([], - 1)]"
    using root_dents_cong(2) [of "counted demo2 1" demo2] demo2_dents
    by (simp add: counted_def)
  then show ?thesis
    by (simp add: demo3_def link_added_dents [where k = 1] is_int32_def)
qed

lemma demo4_sym_link: "tfs_sym_link path_a path_b demo2 = Inr (0, demo4)"
proof -
  have "tfs_sym_link path_a path_b demo2 =
      Inr (0, link_added (sym_created demo2 2 2 ''/a'') ''b'' (int 2))"
    by (rule tfs_sym_link_exec [OF demo2_inv demo_names(3) _ path_a_def _ _ demo_names(4,6)])
      (simp_all add: demo2_lookup first_free_def demo2_fields)
  then show ?thesis by (simp add: demo4_def)
qed

lemma demo4_reachable: "reachable demo4"
proof (rule reachable.step [OF demo2_reachable])
  show "call_defined demo2 (Sym_link path_a path_b)" by simp
  show "run (Sym_link path_a path_b) demo2 = Inr (0, demo4)" by (simp add: demo4_sym_link)
qed

lemma demo4_inv: "fs_inv demo4" "idle demo4"
  using reachable_inv [OF demo4_reachable] by simp_all

text \<open>After another \<open>tfs_open("/a", 0)\<close>: handle 1, at the beginning of the file.\<close>

definition demo5 :: tfs_state where
  "demo5 = snd (opened demo2 1 0)"

lemma demo5_open: "tfs_open path_a 0 demo2 = Inr (1, demo5)"
proof -
  have "resolve demo2 (lookup demo2 path_a) = Some (int 1)"
    by (subst resolve_unfold) (simp add: demo2_lookup is_link_def demo2_fields)
  from tfs_open_existing_exec [OF demo2_inv _ _ this, of 0] demo2_lookup show ?thesis
    by (simp add: demo5_def truncated_def start_offset_def opened_def demo2_fields first_free_def)
qed

lemma demo5_reachable: "reachable demo5"
proof (rule reachable.step [OF demo2_reachable])
  have "resolve demo2 1 = Some 1" by (subst resolve_unfold) (simp add: is_link_def demo2_fields)
  then show "call_defined demo2 (Open path_a 0)" by (simp add: chain_ends_def demo2_lookup)
  show "run (Open path_a 0) demo2 = Inr (1, demo5)" by (simp add: demo5_open)
qed

lemma demo5_inv: "fs_inv demo5" "idle demo5"
  using reachable_inv [OF demo5_reachable] by simp_all

lemma demo5_handle: "is_open demo5 1" "file_of demo5 (Suc 0) = Suc 0" "offset_of demo5 (Suc 0) = 0"
  by (simp_all add: demo5_def opened_def demo2_fields first_free_def is_open_def
      valid_file_handle_def file_of_def offset_of_def demo_params_def)

lemma demo5_contents: "contents demo5 (Suc 0) = ''hi''"
proof -
  have "contents demo5 (Suc 0) = contents demo2 (Suc 0)"
    by (rule contents_cong) (simp_all add: demo5_def)
  with demo2_contents show ?thesis by simp
qed

text \<open>A file of two messages, with a handle at its beginning.\<close>

definition demo_messages :: string where
  "demo_messages = [CHR ''h'', CHR ''i'', NUL, CHR ''o'', CHR ''k'', NUL]"

definition demo6 :: tfs_state where
  "demo6 = snd (opened (written demo1 0 [TAKEN, TAKEN, FREE] 1 demo_messages) 1 0)"

lemma demo6_facts:
  shows "fs_inv demo6" "idle demo6" "is_open demo6 1" "file_of demo6 (Suc 0) = Suc 0"
    "offset_of demo6 (Suc 0) = 0" "freeinode_ts demo6 = [TAKEN, TAKEN, FREE, FREE]"
    "fs_params demo6 = demo_params" "contents demo6 (Suc 0) = demo_messages"
proof -
  let ?w = "written demo1 0 [TAKEN, TAKEN, FREE] 1 demo_messages"
  have op: "is_open demo1 (int 0)" by (simp add: demo1_handle)
  have wb: "write_block demo1 (file_of demo1 0) = Some (1, [TAKEN, TAKEN, FREE])"
    by (simp add: demo1_handle demo1_block)
  have fit: "offset_of demo1 0 + length demo_messages \<le> BLOCK_SIZE demo1"
    by (simp add: demo1_handle demo_messages_def demo1_fields demo_params_def)
  have iw: "fs_inv ?w" by (rule inv_written(1) [OF demo1_inv(1) op wb fit])
  have it: "inode_table ?w ! Suc 0 = \<lparr>i_node_type = T_FILE, i_size = 6, i_data_block = 1, i_count = 1\<rparr>"
    by (simp add: written_def demo1_handle demo1_fields demo_messages_def)
  have u: "used_inode ?w (int 1)" by (simp add: used_inode_def demo1_fields demo_params_def)
  show "fs_inv demo6" unfolding demo6_def by (rule inv_opened [OF iw u])
  show "idle demo6" using demo1_inv(2) by (simp add: demo6_def)
  show "freeinode_ts demo6 = [TAKEN, TAKEN, FREE, FREE]" "fs_params demo6 = demo_params"
    by (simp_all add: demo6_def demo1_fields)
  have o: "open_file_table ?w = [\<lparr>of_inumber = 1, of_offset = 6\<rparr>, \<lparr>of_inumber = 0, of_offset = 0\<rparr>]"
    by (simp add: written_def demo1_fields demo1_handle demo_messages_def)
  show "is_open demo6 1" "file_of demo6 (Suc 0) = Suc 0" "offset_of demo6 (Suc 0) = 0"
    using o by (simp_all add: demo6_def opened_def demo1_fields first_free_def is_open_def
      valid_file_handle_def file_of_def offset_of_def demo_params_def)
  have "contents demo1 (Suc 0) = []" by (simp add: contents_def demo1_fields)
  then have "contents ?w (file_of demo1 0) = demo_messages"
    using contents_written [OF demo1_inv(1) op wb, of demo_messages]
    by (simp add: demo1_handle demo_messages_def)
  moreover have "contents demo6 (Suc 0) = contents ?w (Suc 0)"
    by (rule contents_cong) (simp_all add: demo6_def)
  ultimately show "contents demo6 (Suc 0) = demo_messages" by (simp add: demo1_handle)
qed

text \<open>
  The same file in a block whose other bytes are not zero, and the handle at the file's last
  byte.
\<close>

definition demo7 :: tfs_state where
  "demo7 = advanced (demo6\<lparr>fs_data := store (fs_data demo6) (1 * BLOCK_SIZE demo6 + 6) ''z''\<rparr>) 1 5"

lemma demo6_inode:
  "inode_table demo6 ! Suc 0 = \<lparr>i_node_type = T_FILE, i_size = 6, i_data_block = 1, i_count = 1\<rparr>"
  "i_data_block (inode_table demo6 ! 0) = 0"
  by (simp_all add: demo6_def written_def demo1_handle demo1_fields demo_messages_def)

lemma demo7_facts:
  shows "fs_inv demo7" "idle demo7" "is_open demo7 1" "file_of demo7 (Suc 0) = Suc 0"
    "offset_of demo7 (Suc 0) = 5" "fs_params demo7 = demo_params"
    "contents demo7 (Suc 0) = demo_messages"
    "fs_data demo7 (read_base demo7 (Suc 0) + 6) = CHR ''z''"
proof -
  let ?u = "demo6\<lparr>fs_data := store (fs_data demo6) (nat 1 * BLOCK_SIZE demo6 + 6) ''z''\<rparr>"
  have iu: "fs_inv ?u"
    by (rule inv_write_block(1) [OF demo6_facts(1) _ _ _ refl])
      (simp_all add: demo6_inode demo6_facts demo_params_def)
  have t: "demo7 = advanced ?u 1 5" by (simp add: demo7_def)
  show "fs_inv demo7" unfolding t using iu by (rule inv_advanced(1))
  show "idle demo7" using demo6_facts(2) by (simp add: t)
  show "fs_params demo7 = demo_params" using demo6_facts(7) by (simp add: t advanced_def)
  have l: "Suc 0 < length (open_file_table demo6)"
    using fs_invD(1) [OF demo6_facts(1)] demo6_facts(7) by (simp add: wf_simps demo_params_def)
  show "is_open demo7 1" "offset_of demo7 (Suc 0) = 5" "file_of demo7 (Suc 0) = Suc 0"
    using demo6_facts(3,4) l
    by (simp_all add: t advanced_def is_open_def valid_file_handle_def offset_of_def file_of_def)
  have f: "file_of demo7 (Suc 0) = Suc 0" by fact
  have "contents demo7 (Suc 0) = contents demo6 (Suc 0)"
  proof (rule contents_cong)
    fix x
    assume "nat (block_of demo6 (Suc 0)) * BLOCK_SIZE demo6 \<le> x"
      "x < nat (block_of demo6 (Suc 0)) * BLOCK_SIZE demo6 + i_size (inode_table demo6 ! Suc 0)"
    then show "fs_data demo7 x = fs_data demo6 x"
      by (simp add: t demo6_inode store_outside)
  qed (simp_all add: t, simp add: advanced_def)
  then show "contents demo7 (Suc 0) = demo_messages" using demo6_facts(8) by simp
  show "fs_data demo7 (read_base demo7 (Suc 0) + 6) = CHR ''z''"
    using f by (simp add: read_base_def) (simp add: t demo6_inode advanced_def store_def)
qed

end
