(* ===== verification/FS_Correct.thy ===== *)
theory FS_Correct
  imports FS_Demo
begin

text \<open>
  The correctness of the API of the file system: each theorem states what a call returns and
  what it does to the names, the contents of the files and the allocation tables, for any state
  that satisfies the invariant; each is followed by its instance on the small file system.
\<close>

section \<open>Safety\<close>

text \<open>C1: From any state that calls of the API lead to, every further call whose behaviour is
  defined returns: it does not panic, does not wait for a lock it holds and does not access an
  array out of bounds; it leaves a state that satisfies the invariant and holds no lock.\<close>

theorem api_call_safe:
  assumes "reachable s" and "call_defined s c"
  shows "\<exists>r t. run c s = Inr (r, t) \<and> fs_inv t \<and> idle t"
  using assms reachable_inv [of s] call_progress [of s c] by simp

theorem api_call_safe_witness:
  "reachable demo2 \<and> call_defined demo2 (Unlink path_a) \<and>
   (\<exists>r t. run (Unlink path_a) demo2 = Inr (r, t) \<and> fs_inv t \<and> idle t)"
  using api_call_safe [of demo2 "Unlink path_a"] by (simp add: demo2_reachable)

section \<open>Creating a file\<close>

text \<open>C14: Opening a name that does not exist with \<open>TFS_O_CREAT\<close> returns a handle that was not
  open, at offset 0 of an empty file in an inode that was free; exactly that name is added to the
  directory, and the files that existed keep their contents.  It needs a free inode, an unused
  directory entry, a free slot of the open file table and a name of at most 39 characters.\<close>

theorem tfs_open_creates:
  assumes inv: "fs_inv s" and idle: "idle s" and p: "c_ok p" "path_entry p = Some v"
    and v: "valid_name v" and absent: "lookup s p = - 1" and mode: "has_mode mode TFS_O_CREAT"
    and room: "FREE \<in> set (freeinode_ts s)" "- 1 \<in> snd ` set (root_dents s)"
      "FREE \<in> set (free_open_file_entries s)"
  shows "\<exists>h i t. tfs_open p mode s = Inr (int h, t) \<and> \<not> is_open s (int h) \<and> is_open t (int h) \<and>
    file_of t h = i \<and> offset_of t h = 0 \<and> freeinode_ts s ! i = FREE \<and> freeinode_ts t ! i = TAKEN \<and>
    contents t i = [] \<and> names t = (names s)(v \<mapsto> i) \<and>
    (\<forall>j. used_inode s (int j) \<longrightarrow> contents t j = contents s j)"
  using open_create_run [OF assms] by blast

theorem tfs_open_creates_witness:
  "\<exists>h i t. tfs_open path_b TFS_O_CREAT demo2 = Inr (int h, t) \<and> \<not> is_open demo2 (int h) \<and>
    is_open t (int h) \<and> file_of t h = i \<and> offset_of t h = 0 \<and> freeinode_ts demo2 ! i = FREE \<and>
    freeinode_ts t ! i = TAKEN \<and> contents t i = [] \<and> names t = (names demo2)(''b'' \<mapsto> i) \<and>
    (\<forall>j. used_inode demo2 (int j) \<longrightarrow> contents t j = contents demo2 j)"
  by (rule tfs_open_creates [OF demo2_inv])
    (simp_all add: lookup_def demo2_dents demo2_fields)

section \<open>Removing a name\<close>

text \<open>C21: Unlinking a name of a file that has no further link frees the inode of the file and its data
  block, leaves no name that leads to them, and leaves the contents of every other file and every other
  name alone.  Of the name itself the first entry is removed: the name is gone if it had one entry only,
  and leads where its next entry leads if \<open>tfs_link\<close> gave it more.\<close>

theorem tfs_unlink_last:
  assumes inv: "fs_inv s" and idle: "idle s" and p: "c_ok p" "path_entry p = Some v"
    and i: "lookup s p = int i" and last: "i_count (inode_table s ! i) \<le> 1"
  shows "\<exists>t. tfs_unlink p s = Inr (0, t) \<and> entries_of t v = tl (entries_of s v) \<and>
    names t = (names s)(v := (case tl (entries_of s v) of [] \<Rightarrow> None | d # _ \<Rightarrow> Some (nat d))) \<and>
    freeinode_ts t ! i = FREE \<and> (\<forall>w. names t w \<noteq> Some i) \<and>
    (0 < i_size (inode_table s ! i) \<longrightarrow> free_blocks t ! nat (block_of s i) = FREE) \<and>
    (\<forall>j. used_inode s (int j) \<longrightarrow> j \<noteq> i \<longrightarrow> used_inode t (int j) \<and> contents t j = contents s j)"
proof -
  from unlink_entries [OF inv idle p i] obtain k where
    k: "tfs_unlink p s = Inr (0, unlinked s i k)" "k < MAX_DIR_ENTRIES s" "used_inode s (int i)"
      "entries_of (unlinked s i k) v = tl (entries_of s v)"
      "\<And>w. w \<noteq> v \<Longrightarrow> names (unlinked s i k) w = names s w" "fs_inv (unlinked s i k)" by blast
  let ?t = "unlinked s i k"
  note ui = unlinked_inode [OF inv k(3), where k = k]
  have nm: "names ?t = (names s)(v := (case tl (entries_of s v) of [] \<Rightarrow> None | d # _ \<Rightarrow> Some (nat d)))"
    using names_entries [OF k(6) path_entry_nonempty [OF p(2)]] k(4,5) by (simp add: fun_eq_iff)
  have gone: "names ?t w \<noteq> Some i" for w
    using names_used [OF k(6), of w i] ui(1) [OF last] by (auto simp: used_inode_def)
  have "used_inode ?t (int j) \<and> contents ?t j = contents s j" if "used_inode s (int j)" "j \<noteq> i" for j
  proof -
    have j: "0 < j" "j < INODE_TABLE_SIZE s" "freeinode_ts s ! j = TAKEN"
      using that(1) by (simp_all add: used_inode_def)
    have "fs_params ?t = fs_params s" by (simp add: unlinked_def Let_def)
    with j ui(4) [OF that(2)] contents_unlinked [OF inv j(3,1,2) k(2)] show ?thesis
      by (simp add: used_inode_def)
  qed
  with k(1,4) nm gone ui(1) [OF last] ui(2) [OF last] show ?thesis by (intro exI [of _ ?t]) simp
qed

theorem tfs_unlink_last_witness:
  "\<exists>t. tfs_unlink path_a demo2 = Inr (0, t) \<and> names t = (names demo2)(''a'' := None) \<and>
    freeinode_ts t ! 1 = FREE \<and> free_blocks t ! 1 = FREE"
  using tfs_unlink_last [OF demo2_inv, of path_a "''a''" 1]
  by (auto simp: lookup_def demo2_dents demo2_fields entries_of_def)

section \<open>Hard links\<close>

lemma names_counted:
  assumes "0 < i"
  shows "names (counted s i) = names s" and "link_result (counted s i) v = link_result s v"
proof -
  have d: "root_dents (counted s i) = root_dents s"
    by (rule root_dents_cong(2)) (use assms in \<open>simp_all add: counted_def\<close>)
  then show "names (counted s i) = names s" by (rule names_cong)
  show "link_result (counted s i) v = link_result s v" using d by (simp add: link_result_def)
qed

lemma entries_counted: "0 < i \<Longrightarrow> entries_of (counted s i) v = entries_of s v"
  unfolding entries_of_def by (subst root_dents_cong(2) [of "counted s i" s]) (simp_all add: counted_def)

lemma contents_counted: "contents (counted s i) j = contents s j"
  by (cases "i < length (inode_table s)")
    (auto simp: contents_def counted_def nth_update list_update_beyond)

text \<open>A hard link gives the file of the first name a second name: the same inode, one more in
  its link count, every other name and the contents of all files as they were.\<close>

theorem tfs_link_shares:
  assumes inv: "fs_inv s" and idle: "idle s" and p: "c_ok p" "lookup s p = int i"
    and hard: "\<not> is_link s (int i)" and cnt: "i_count (inode_table s ! i) < 2147483647"
    and q: "c_ok q" "path_entry q = Some v" "valid_name v" "lookup s q = - 1"
    and room: "- 1 \<in> snd ` set (root_dents s)"
  shows "\<exists>t. tfs_link p q s = Inr (0, t) \<and> names t = (names s)(v \<mapsto> i) \<and>
    i_count (inode_table t ! i) = i_count (inode_table s ! i) + 1 \<and>
    (\<forall>j. used_inode s (int j) \<longrightarrow> contents t j = contents s j)"
proof -
  have f: "lookup s p \<noteq> - 1" using p(2) by simp
  have u: "used_inode s (int i)" using lookup_used [OF inv f] p(2) by simp
  have i: "0 < i" "i < INODE_TABLE_SIZE s" using u by (simp_all add: used_inode_def)
  have ic: "fs_inv (counted s i)" using inv u by (rule inv_counted)
  let ?t = "link_added (counted s i) v (int i)"
  have ex: "tfs_link p q s = Inr (0, ?t)"
    using tfs_link_exec [OF inv idle p(1) f _ _ q(1) path_is_link_entry [OF q(2)]] p(2) hard cnt
    by simp
  have "i < 2147483648" using i(2) wf_bounds(2) [OF fs_invD(1) [OF inv]] by simp
  moreover have "link_result s v = 0" using q(3) room by (simp add: link_result_def)
  ultimately have nm: "names ?t = (names s)(v \<mapsto> i)"
    using names_link_added [of "counted s i" v i] names_counted [OF i(1), of s]
      names_lookup_None [OF q(2,4)] by simp
  have "i < length (inode_table s)" using i(2) fs_invD(1) [OF inv] by (simp add: wf_simps)
  then have c: "i_count (inode_table ?t ! i) = i_count (inode_table s ! i) + 1"
    by (simp add: counted_def)
  have "contents ?t j = contents s j" if "used_inode s (int j)" for j
    using that contents_link_added [OF ic, of j] by (simp add: used_inode_def contents_counted)
  with ex nm c show ?thesis by blast
qed

theorem tfs_link_shares_witness:
  "\<exists>t. tfs_link path_a path_b demo2 = Inr (0, t) \<and> names t = (names demo2)(''b'' \<mapsto> 1) \<and>
    i_count (inode_table t ! 1) = i_count (inode_table demo2 ! 1) + 1 \<and>
    (\<forall>j. used_inode demo2 (int j) \<longrightarrow> contents t j = contents demo2 j)"
  by (rule tfs_link_shares [OF demo2_inv])
    (simp_all add: lookup_def demo2_dents demo2_fields is_link_def)

text \<open>C28: \<open>tfs_link\<close> does not look whether the new name exists: on a name that leads to a file already
  it adds a second entry of that name and answers 0.  The name then has one entry more, for the
  inode of the other file, and unlinking it does not remove it: the name still leads to a file.\<close>

theorem tfs_link_duplicates_name:
  assumes inv: "fs_inv s" and idle: "idle s" and p: "c_ok p" "lookup s p = int i"
    and hard: "\<not> is_link s (int i)" and cnt: "i_count (inode_table s ! i) < 2147483647"
    and q: "c_ok q" "path_entry q = Some v" "valid_name v" "names s v \<noteq> None"
    and room: "- 1 \<in> snd ` set (root_dents s)"
  shows "\<exists>t u. tfs_link p q s = Inr (0, t) \<and>
    mset (entries_of t v) = add_mset (int i) (mset (entries_of s v)) \<and>
    tfs_unlink q t = Inr (0, u) \<and> entries_of u v = tl (entries_of t v) \<and> names u v \<noteq> None"
proof -
  have f: "lookup s p \<noteq> - 1" using p(2) by simp
  have u: "used_inode s (int i)" using lookup_used [OF inv f] p(2) by simp
  have i: "0 < i" "i < INODE_TABLE_SIZE s" using u by (simp_all add: used_inode_def)
  note nc = names_counted [OF i(1), of s]
  let ?c = "counted s i" let ?t = "link_added ?c v (int i)"
  have ex: "tfs_link p q s = Inr (0, ?t)"
    using tfs_link_exec [OF inv idle p(1) f _ _ q(1) path_is_link_entry [OF q(2)]] p(2) hard cnt by simp
  have t: "fs_inv ?t" "idle ?t" using inv_linked [OF inv u] idle by simp_all
  have "i < 2147483648" using i(2) wf_bounds(2) [OF fs_invD(1) [OF inv]] by simp
  moreover have "link_result s v = 0" using q(3) room by (simp add: link_result_def)
  then have "link_result ?c v = 0" by (simp only: nc(2))
  ultimately have m: "mset (entries_of ?t v) = add_mset (int i) (mset (entries_of s v))"
    using entries_link_added [OF inv_counted [OF inv u]] entries_counted [OF i(1)] by simp
  have ne: "v \<noteq> []" by (rule path_entry_nonempty [OF q(2)])
  have old: "entries_of s v \<noteq> []" using q(4) names_entries [OF inv ne] by auto
  obtain d e ds where e: "entries_of ?t v = d # e # ds"
  proof -
    have "length (entries_of ?t v) = Suc (length (entries_of s v))"
      using arg_cong [OF m, of size] by simp
    with old that show ?thesis by (cases "entries_of ?t v"; cases "tl (entries_of ?t v)") auto
  qed
  have "names ?t v = Some (nat d)" using names_entries [OF t(1) ne] e by simp
  then have "lookup ?t q = int (nat d)" by (simp add: lookup_names [OF t(1)] q(2))
  from unlink_entries [OF t q(1,2) this] obtain k where
    k: "tfs_unlink q ?t = Inr (0, unlinked ?t (nat d) k)" "entries_of (unlinked ?t (nat d) k) v = e # ds"
      "fs_inv (unlinked ?t (nat d) k)" using e by auto
  from names_entries [OF k(3) ne] k(2) have "names (unlinked ?t (nat d) k) v = Some (nat e)" by simp
  with ex m k(1,2) e show ?thesis by (intro exI [of _ ?t] exI [of _ "unlinked ?t (nat d) k"]) simp
qed

theorem tfs_link_duplicates_name_witness:
  "\<exists>t u. tfs_link path_a path_a demo2 = Inr (0, t) \<and> mset (entries_of t ''a'') = {#1, 1#} \<and>
    tfs_unlink path_a t = Inr (0, u) \<and> names u ''a'' \<noteq> None"
proof -
  have "\<exists>t u. tfs_link path_a path_a demo2 = Inr (0, t) \<and>
      mset (entries_of t ''a'') = add_mset (int 1) (mset (entries_of demo2 ''a'')) \<and>
      tfs_unlink path_a t = Inr (0, u) \<and> entries_of u ''a'' = tl (entries_of t ''a'') \<and> names u ''a'' \<noteq> None"
    by (rule tfs_link_duplicates_name [OF demo2_inv])
      (simp_all add: lookup_def names_def demo2_dents demo2_fields is_link_def)
  moreover have "entries_of demo2 ''a'' = [1]" by (simp add: entries_of_def demo2_dents)
  ultimately show ?thesis by auto
qed

text \<open>C27: After a hard link was made the first name can be unlinked: the file stays reachable under
  the second name, with its contents, its inode and its block.  No name may have more than one entry.\<close>

theorem tfs_unlink_keeps_linked:
  assumes inv: "fs_inv s" and idle: "idle s" and p: "c_ok p" "path_entry p = Some v"
    and i: "lookup s p = int i" and u: "unique_names s"
    and more: "1 < i_count (inode_table s ! i)" and other: "names s w = Some i" "w \<noteq> v"
  shows "\<exists>t. tfs_unlink p s = Inr (0, t) \<and> names t v = None \<and> names t w = Some i \<and>
    used_inode t (int i) \<and> contents t i = contents s i \<and>
    i_count (inode_table t ! i) = i_count (inode_table s ! i) - 1 \<and> free_blocks t = free_blocks s"
proof -
  from unlink_run [OF inv idle p i u] obtain k where
    k: "tfs_unlink p s = Inr (0, unlinked s i k)" "k < MAX_DIR_ENTRIES s" "used_inode s (int i)"
      "names (unlinked s i k) = (names s)(v := None)" by blast
  note ui = unlinked_inode(3) [OF inv k(3) more, where k = k]
  have j: "0 < i" "i < INODE_TABLE_SIZE s" "freeinode_ts s ! i = TAKEN"
    using k(3) by (simp_all add: used_inode_def)
  have "fs_params (unlinked s i k) = fs_params s" by (simp add: unlinked_def Let_def)
  with j ui have "used_inode (unlinked s i k) (int i)" by (simp add: used_inode_def)
  with k ui other contents_unlinked [OF inv j(3,1,2) k(2)] show ?thesis by simp
qed

theorem tfs_unlink_keeps_linked_witness:
  "\<exists>t. tfs_unlink path_a demo3 = Inr (0, t) \<and> names t ''a'' = None \<and> names t ''b'' = Some 1 \<and>
    used_inode t (int 1) \<and> contents t 1 = contents demo3 1 \<and>
    i_count (inode_table t ! 1) = i_count (inode_table demo3 ! 1) - 1 \<and>
    free_blocks t = free_blocks demo3"
  by (rule tfs_unlink_keeps_linked [OF demo3_inv])
    (simp_all add: lookup_def names_def demo3_dents demo3_fields unique_names_def)

text \<open>\<open>tfs_link\<close> ignores whether the entry was added: on a full directory (or a name that is
  too long) it still returns 0, adds no name, and leaves the link count one too high, so that no
  later unlinking frees the inode.\<close>

theorem tfs_link_full_directory:
  assumes inv: "fs_inv s" and idle: "idle s" and p: "c_ok p" "lookup s p = int i"
    and hard: "\<not> is_link s (int i)" and cnt: "i_count (inode_table s ! i) < 2147483647"
    and q: "c_ok q" "path_entry q = Some v"
    and no: "\<not> valid_name v \<or> - 1 \<notin> snd ` set (root_dents s)"
  shows "\<exists>t. tfs_link p q s = Inr (0, t) \<and> names t = names s \<and>
    i_count (inode_table t ! i) = i_count (inode_table s ! i) + 1"
proof -
  have f: "lookup s p \<noteq> - 1" using p(2) by simp
  have u: "used_inode s (int i)" using lookup_used [OF inv f] p(2) by simp
  have i: "0 < i" "i < length (inode_table s)"
    using u fs_invD(1) [OF inv] by (simp_all add: used_inode_def wf_simps)
  have ex: "tfs_link p q s = Inr (0, link_added (counted s i) v (int i))"
    using tfs_link_exec [OF inv idle p(1) f _ _ q(1) path_is_link_entry [OF q(2)]] p(2) hard cnt
    by simp
  have d: "root_dents (counted s i) = root_dents s"
    by (rule root_dents_cong(2)) (use i in \<open>simp_all add: counted_def\<close>)
  have "link_added (counted s i) v (int i) = counted s i"
  proof (cases "valid_name v")
    case True
    have "snd e \<noteq> - 1" if "e \<in> set (root_dents s)" for e
      using no True that by (metis imageI)
    then have "first_index (\<lambda>e. snd e = - 1) (root_dents (counted s i)) = None"
      by (simp add: first_index_None d)
    with True show ?thesis by (simp add: link_added_def entry_added_def)
  qed (simp add: link_added_def)
  with ex names_counted(1) [OF i(1), of s] i(2) show ?thesis by (simp add: counted_def)
qed

theorem tfs_link_full_directory_witness:
  "\<exists>t. tfs_link path_a (Some ''/c'') demo3 = Inr (0, t) \<and> names t = names demo3 \<and>
    i_count (inode_table t ! 1) = i_count (inode_table demo3 ! 1) + 1"
  by (rule tfs_link_full_directory [OF demo3_inv, where v = "''c''"])
    (simp_all add: lookup_def demo3_dents demo3_fields is_link_def c_ok_def path_entry_def
      path_a_def)

section \<open>Symbolic links\<close>

text \<open>A new symbolic link writes its text into a block of its own.\<close>

lemma contents_sym_created:
  assumes inv: "fs_inv s" and i: "first_free (freeinode_ts s) = Some i" and b: "first_free (free_blocks s) = Some b"
    and path: "44 \<le> BLOCK_SIZE s" "length path \<le> 40" and u: "used_inode s (int j)"
  shows "freeinode_ts (sym_created s i b path) ! j = TAKEN" and "contents (sym_created s i b path) j = contents s j"
proof -
  let ?u = "sym_created s i b path"
  have j: "0 < j" "j < INODE_TABLE_SIZE s" "freeinode_ts s ! j = TAKEN" "j \<noteq> i"
    using u fresh_inode [OF inv i] by (auto simp: used_inode_def)
  then show "freeinode_ts ?u ! j = TAKEN" by (simp add: sym_created_def)
  show "contents ?u j = contents s j"
  proof (rule contents_store [OF inv j(3,2), where b = "int b" and off = 0 and bs = "path @ [NUL]"])
    show "int b \<noteq> block_of s j" if "holds_block s j" using fresh_block(4) [OF inv b that] by simp
    show "0 + length (path @ [NUL]) \<le> BLOCK_SIZE s" using path by simp
    show "inode_table ?u ! j = inode_table s ! j" using j(4) by (simp add: sym_created_def)
    show "fs_data ?u x = fs_data s x"
      if "x < nat (int b) * BLOCK_SIZE s + 0 \<or> nat (int b) * BLOCK_SIZE s + 0 + length (path @ [NUL]) \<le> x" for x
      using that by (simp add: sym_created_def store_outside)
  qed simp_all
qed

text \<open>C29: A new symbolic link leads where its target leads: following the chain of links from the new
  name ends at the inode at which the chain from the target's name ends (or ends nowhere if that
  one does).  The name is the only one added, and every file keeps its contents.\<close>

theorem tfs_sym_link_leads_to_target:
  assumes inv: "fs_inv s" and idle: "idle s" and p: "c_ok p" "lookup s p \<noteq> - 1"
    and q: "c_ok q" "path_entry q = Some v" "valid_name v" "lookup s q = - 1"
    and room: "FREE \<in> set (freeinode_ts s)" "FREE \<in> set (free_blocks s)"
      "- 1 \<in> snd ` set (root_dents s)"
  shows "\<exists>i t. tfs_sym_link p q s = Inr (0, t) \<and> names t = (names s)(v \<mapsto> i) \<and>
    lookup t p = lookup s p \<and> lookup t q = int i \<and> resolve t (int i) = resolve t (lookup s p) \<and>
    freeinode_ts s ! i = FREE \<and> (\<forall>j. used_inode s (int j) \<longrightarrow> contents t j = contents s j)"
proof -
  from room obtain i b where i: "first_free (freeinode_ts s) = Some i"
    and b: "first_free (free_blocks s) = Some b" using first_free_ex by metis
  from found_path_fits [OF inv p(2)] obtain path where
    path: "p = Some path" "length path \<le> 40" "44 \<le> BLOCK_SIZE s" by blast
  note fi = fresh_inode [OF inv i] and iu = inv_sym_created [OF inv i b path(3,2)]
  let ?u = "sym_created s i b path"
  let ?t = "link_added ?u v (int i)"
  have ex: "tfs_sym_link p q s = Inr (0, ?t)"
    by (rule tfs_sym_link_exec [OF inv idle p path(1) i b q(1) path_is_link_entry [OF q(2)]])
  have it: "fs_inv ?t" by (rule inv_link_added [OF iu(1) sym_created_entry_room [OF inv i iu(2)]])
  have "i < 2147483648" using fi(2) wf_bounds(2) [OF fs_invD(1) [OF inv]] by simp
  moreover have "link_result ?u v = 0" using q(3) room(3) iu(2) by (simp add: link_result_def)
  ultimately have nm: "names ?t = (names s)(v \<mapsto> i)"
    using names_link_added [of ?u v i] names_lookup_None [OF q(2,4)] names_cong [OF iu(2)] by simp
  from p(2) obtain w where w: "path_entry p = Some w" by (auto simp: lookup_def split: option.splits)
  have pw: "1 < length path" "tl path = w" "NUL \<notin> set path"
    using w p(1) path(1) by (auto simp: path_entry_def c_ok_def split: if_splits)
  have wv: "w \<noteq> v" using p(2) q(2,4) w by (auto simp: lookup_def)
  have lp: "lookup ?t p = lookup s p"
    using lookup_names [OF it, of p] lookup_names [OF inv, of p] w nm wv by simp
  have lq: "lookup ?t q = int i" using lookup_names [OF it, of q] q(2) nm by simp
  have ne: "path \<noteq> []" using pw(1) by auto
  note tx = sym_link_text [OF inv i b path(3,2) ne pw(3) refl, of v]
  have "link_next ?t (int i) = lookup ?t p"
    using tx(2) w pw(2) by (simp add: lookup_def)
  then have "resolve ?t (int i) = resolve ?t (lookup s p)"
    using tx(1) lp by (subst resolve_unfold) simp
  moreover have "contents ?t j = contents s j" if "used_inode s (int j)" for j
    using contents_sym_created [OF inv i b path(3,2) that] that by (simp add: contents_link_added [OF iu(1)] used_inode_def)
  ultimately show ?thesis using ex nm lp lq fi(3) by blast
qed

theorem tfs_sym_link_leads_to_target_witness:
  "\<exists>i t. tfs_sym_link path_a path_b demo2 = Inr (0, t) \<and> names t = (names demo2)(''b'' \<mapsto> i) \<and>
    lookup t path_a = lookup demo2 path_a \<and> lookup t path_b = int i \<and>
    resolve t (int i) = resolve t (lookup demo2 path_a) \<and>
    freeinode_ts demo2 ! i = FREE \<and> (\<forall>j. used_inode demo2 (int j) \<longrightarrow> contents t j = contents demo2 j)"
  by (rule tfs_sym_link_leads_to_target [OF demo2_inv])
    (simp_all add: demo2_lookup demo2_dents demo2_fields)

section \<open>Chains of symbolic links\<close>

text \<open>The chain of links as an iteration, and how long it can be.\<close>

lemma resolve_iff: "(\<exists>j. resolve s i = Some j) \<longleftrightarrow> (\<exists>n. \<not> is_link s ((link_next s ^^ n) i))"
  by (simp add: resolve_def while_option_def)

lemma chain_used:
  assumes "entries_inv s" and "used_inode s i"
  shows "(link_next s ^^ n) i = - 1 \<or> used_inode s ((link_next s ^^ n) i)"
proof (cases n)
  case 0
  with assms show ?thesis by simp
next
  case (Suc m)
  with link_next_used [OF assms(1)] show ?thesis by simp
qed

lemma chain_bound:
  assumes "entries_inv s" and u: "used_inode s i" and ex: "\<exists>n. \<not> is_link s ((link_next s ^^ n) i)"
  shows "\<exists>n < INODE_TABLE_SIZE s. \<not> is_link s ((link_next s ^^ n) i)"
proof -
  let ?f = "\<lambda>n. (link_next s ^^ n) i"
  define m where "m = (LEAST n. \<not> is_link s (?f n))"
  have last: "\<not> is_link s (?f m)" unfolding m_def using ex by (rule LeastI_ex)
  have before: "is_link s (?f k)" if "k < m" for k
    using that not_less_Least unfolding m_def by blast
  have inj: "inj_on ?f {..< m}"
  proof (rule linorder_inj_onI)
    fix a b
    assume ab: "a < b" "b \<in> {..< m}"
    show "?f a \<noteq> ?f b"
    proof
      assume eq: "?f a = ?f b"
      have "?f (m - b + a) = (link_next s ^^ (m - b)) (?f a)" by (simp add: funpow_add)
      also have "\<dots> = ?f (m - b + b)" using eq by (simp add: funpow_add)
      also have "\<dots> = ?f m" using ab by simp
      finally have "is_link s (?f m)" using before [of "m - b + a"] ab by simp
      with last show False by simp
    qed
  qed (simp add: nat_le_linear)
  have range: "?f ` {..< m} \<subseteq> {1 ..< int (INODE_TABLE_SIZE s)}"
  proof
    fix x
    assume "x \<in> ?f ` {..< m}"
    then obtain k where k: "k < m" "x = ?f k" by auto
    have "x \<noteq> - 1" using before [OF k(1)] k(2) by (auto simp: is_link_def)
    with chain_used [OF assms(1) u, of k] k(2) show "x \<in> {1 ..< int (INODE_TABLE_SIZE s)}"
      by (simp add: used_inode_def)
  qed
  have "m = card (?f ` {..< m})" using inj by (simp add: card_image)
  also have "\<dots> \<le> card {1 ..< int (INODE_TABLE_SIZE s)}" by (rule card_mono [OF _ range]) simp
  also have "\<dots> = INODE_TABLE_SIZE s - 1" by simp
  finally have "m \<le> INODE_TABLE_SIZE s - 1" .
  moreover have "0 < INODE_TABLE_SIZE s" using u by (auto simp: used_inode_def)
  ultimately have "m < INODE_TABLE_SIZE s" by simp
  with last show ?thesis by blast
qed

text \<open>C30: Opening a path never returns exactly when its chain of symbolic links never ends, and a chain
  that ends does so within as many links as there are inodes.  So a recursion bounded by the size
  of the inode table would tell the two cases apart.\<close>

theorem tfs_open_diverges_iff:
  assumes inv: "fs_inv s" and idle: "idle s" and p: "c_ok p"
  shows "tfs_open p mode s = Inl Diverges \<longleftrightarrow>
    lookup s p \<noteq> - 1 \<and> (\<forall>n < INODE_TABLE_SIZE s. is_link s ((link_next s ^^ n) (lookup s p)))"
proof (cases "lookup s p \<noteq> - 1 \<and> resolve s (lookup s p) = None")
  case True
  then have "\<not> (\<exists>j. resolve s (lookup s p) = Some j)" by simp
  then have "\<forall>n. is_link s ((link_next s ^^ n) (lookup s p))" unfolding resolve_iff by blast
  with True tfs_open_link_ends(2) [OF inv idle p] show ?thesis by simp
next
  case False
  then have "lookup s p \<noteq> - 1 \<Longrightarrow> resolve s (lookup s p) \<noteq> None" by simp
  from tfs_open_inv [OF inv idle p this, of mode] have no: "tfs_open p mode s \<noteq> Inl Diverges" by auto
  show ?thesis
  proof (cases "lookup s p = - 1")
    case True
    with no show ?thesis by simp
  next
    case ne: False
    with False have "\<exists>j. resolve s (lookup s p) = Some j" by simp
    then have "\<exists>n. \<not> is_link s ((link_next s ^^ n) (lookup s p))" unfolding resolve_iff .
    from chain_bound [OF fs_invD(3) [OF inv] lookup_used [OF inv ne] this] no show ?thesis by blast
  qed
qed

theorem tfs_open_diverges_iff_witness:
  "tfs_open path_a 0 demo2 = Inl Diverges \<longleftrightarrow>
    lookup demo2 path_a \<noteq> - 1 \<and>
    (\<forall>n < INODE_TABLE_SIZE demo2. is_link demo2 ((link_next demo2 ^^ n) (lookup demo2 path_a)))"
  by (rule tfs_open_diverges_iff [OF demo2_inv]) simp

section \<open>Opening a file that exists\<close>

text \<open>Opening a name that exists (or leads through symbolic links to a file that does) returns a
  new handle on that file.  With \<open>TFS_O_TRUNC\<close> the file is emptied and its block freed; with
  \<open>TFS_O_APPEND\<close> the handle starts at the end, otherwise at the beginning; the names and the
  contents of all other files do not change.\<close>

theorem tfs_open_existing:
  assumes inv: "fs_inv s" and idle: "idle s" and p: "c_ok p" "lookup s p \<noteq> - 1"
    and r: "resolve s (lookup s p) = Some (int i)"
    and room: "FREE \<in> set (free_open_file_entries s)"
  shows "\<exists>h t. tfs_open p mode s = Inr (int h, t) \<and> \<not> is_open s (int h) \<and> is_open t (int h) \<and>
    file_of t h = i \<and> names t = names s \<and>
    contents t i = (if has_mode mode TFS_O_TRUNC then [] else contents s i) \<and>
    offset_of t h = (if has_mode mode TFS_O_APPEND then length (contents t i) else 0) \<and>
    (has_mode mode TFS_O_TRUNC \<longrightarrow> contents s i \<noteq> [] \<longrightarrow>
      free_blocks t ! nat (block_of s i) = FREE) \<and>
    (\<forall>j. j \<noteq> i \<longrightarrow> contents t j = contents s j)"
  using open_existing_run [OF assms] by blast

theorem tfs_open_existing_witness:
  "\<exists>h t. tfs_open path_a TFS_O_APPEND demo2 = Inr (int h, t) \<and> \<not> is_open demo2 (int h) \<and>
    is_open t (int h) \<and> file_of t h = 1 \<and> names t = names demo2 \<and>
    contents t 1 = (if has_mode TFS_O_APPEND TFS_O_TRUNC then [] else contents demo2 1) \<and>
    offset_of t h = (if has_mode TFS_O_APPEND TFS_O_APPEND then length (contents t 1) else 0) \<and>
    (has_mode TFS_O_APPEND TFS_O_TRUNC \<longrightarrow> contents demo2 1 \<noteq> [] \<longrightarrow>
      free_blocks t ! nat (block_of demo2 1) = FREE) \<and>
    (\<forall>j. j \<noteq> 1 \<longrightarrow> contents t j = contents demo2 j)"
proof (rule tfs_open_existing [OF demo2_inv])
  show "resolve demo2 (lookup demo2 path_a) = Some (int 1)"
    by (subst resolve_unfold) (simp add: demo2_lookup is_link_def demo2_fields)
qed (simp_all add: demo2_lookup demo2_fields)

section \<open>Writing and reading\<close>

text \<open>C13: A write to an open handle stores as many bytes as fit between the offset and the end of the
  block, and says how many: the file then holds what it held before the offset, the bytes written,
  and what it held after them.  The offset moves past the bytes; names and the contents of every
  other file stay as they were.\<close>

theorem tfs_write_stores:
  assumes inv: "fs_inv s" and idle: "idle s" and op: "is_open s (int h)"
    and live: "freeinode_ts s ! file_of s h = TAKEN"
    and off: "offset_of s h \<le> length (contents s (file_of s h))"
    and len: "len \<le> length buffer" "len + offset_of s h < size_mod"
    and room: "contents s (file_of s h) \<noteq> [] \<or> FREE \<in> set (free_blocks s)"
    and n: "n = min len (BLOCK_SIZE s - offset_of s h)"
  shows "\<exists>t. tfs_write (int h) buffer len s = Inr (int n, t) \<and>
    contents t (file_of s h) = take (offset_of s h) (contents s (file_of s h)) @ take n buffer @
      drop (offset_of s h + n) (contents s (file_of s h)) \<and>
    offset_of t h = offset_of s h + n \<and> file_of t h = file_of s h \<and> names t = names s \<and>
    (\<forall>j. used_inode s (int j) \<longrightarrow> j \<noteq> file_of s h \<longrightarrow> contents t j = contents s j)"
  using write_run [OF assms] by blast

theorem tfs_write_stores_witness:
  "\<exists>t. tfs_write (int 0) ''hello'' 5 demo2 = Inr (int 5, t) \<and>
    contents t (file_of demo2 0) = take (offset_of demo2 0) (contents demo2 (file_of demo2 0)) @
      take 5 ''hello'' @ drop (offset_of demo2 0 + 5) (contents demo2 (file_of demo2 0)) \<and>
    offset_of t 0 = offset_of demo2 0 + 5 \<and> file_of t 0 = file_of demo2 0 \<and> names t = names demo2 \<and>
    (\<forall>j. used_inode demo2 (int j) \<longrightarrow> j \<noteq> file_of demo2 0 \<longrightarrow> contents t j = contents demo2 j)"
  by (rule tfs_write_stores [OF demo2_inv])
    (simp_all add: demo2_handle demo2_contents demo2_fields demo_params_def)

text \<open>C20: A read from a handle whose offset is not at a zero byte returns the string that starts there:
  the bytes up to the next zero byte, the end of the file or the length asked for, whichever comes
  first.  The offset moves to the end of that string and nothing else changes; at the end of the
  file a read returns 0.\<close>

theorem tfs_read_string:
  assumes inv: "fs_inv s" and idle: "idle s" and op: "is_open s (int h)"
    and live: "freeinode_ts s ! file_of s h = TAKEN"
    and off: "offset_of s h \<le> length (contents s (file_of s h))"
    and nz: "offset_of s h < length (contents s (file_of s h)) \<Longrightarrow>
      contents s (file_of s h) ! offset_of s h \<noteq> NUL"
    and r: "r = c_string (take len (drop (offset_of s h) (contents s (file_of s h))))"
  shows "\<exists>t. tfs_read (int h) len s = Inr ((int (length r), r), t) \<and>
    offset_of t h = offset_of s h + length r \<and> file_of t h = file_of s h \<and> names t = names s \<and>
    (\<forall>j. contents t j = contents s j)"
proof -
  from read_string_exec [OF inv idle op live r off nz]
  have "tfs_read (int h) len s = Inr ((int (length r), r),
    if read_amount s h len = 0 then s else advanced s h (offset_of s h + length r))" .
  moreover have "r = []" if "read_amount s h len = 0"
    using that r by (auto simp: read_amount_def c_string_def min_def split: if_splits)
  ultimately show ?thesis using advanced_handle [OF inv op] by auto
qed

theorem tfs_read_string_witness:
  "\<exists>t. tfs_read (int 1) 10 demo5 = Inr ((int (length ''hi''), ''hi''), t) \<and>
    offset_of t 1 = offset_of demo5 1 + length ''hi'' \<and> file_of t 1 = file_of demo5 1 \<and>
    names t = names demo5 \<and> (\<forall>j. contents t j = contents demo5 j)"
  by (rule tfs_read_string [OF demo5_inv])
    (simp_all add: demo5_handle demo5_contents c_string_def, simp add: demo5_def demo2_fields)

section \<open>Files of messages\<close>


text \<open>Successive reads from one handle.\<close>

fun read_seq :: "nat \<Rightarrow> int \<Rightarrow> nat \<Rightarrow> string list fsop" where
  "read_seq 0 h len = ret []"
| "read_seq (Suc k) h len =
     call (tfs_read h len) (\<lambda>r. call (read_seq k h len) (\<lambda>ms. ret (snd r # ms)))"

lemma read_seq_messages:
  assumes "fs_inv s" and "idle s" and "is_open s (int h)"
    and "freeinode_ts s ! file_of s h = TAKEN"
    and "contents s (file_of s h) = xs @ concat (map (\<lambda>m. m @ [NUL]) ms)"
    and "\<And>m. m \<in> set ms \<Longrightarrow> m \<noteq> [] \<and> NUL \<notin> set m \<and> length m \<le> len"
    and "length (contents s (file_of s h)) < BLOCK_SIZE s"
    and "offset_of s h = length xs \<or> Suc (offset_of s h) = length xs \<and> last xs = NUL"
  shows "\<exists>t. read_seq (length ms) (int h) len s = Inr (ms, t)"
  using assms
proof (induction ms arbitrary: s xs)
  case Nil
  then show ?case by (simp add: exec_simps)
next
  case (Cons m ms)
  let ?t = "advanced s h (length xs + length m)"
  have m: "m \<noteq> []" "NUL \<notin> set m" "length m \<le> len" using Cons.prems(6) [of m] by simp_all
  have c: "contents s (file_of s h) = xs @ m @ NUL # concat (map (\<lambda>m. m @ [NUL]) ms)"
    using Cons.prems(5) by simp
  have rd: "tfs_read (int h) len s = Inr ((int (length m), m), ?t)"
    by (rule read_message [OF Cons.prems(1-4) c m Cons.prems(7,8)])
  note ah = advanced_handle [OF Cons.prems(1,3), of "length xs + length m"]
  have "\<exists>u. read_seq (length ms) (int h) len ?t = Inr (ms, u)"
  proof (rule Cons.IH [where xs = "xs @ m @ [NUL]"])
    show "fs_inv ?t" using Cons.prems(1) by (rule inv_advanced(1))
    show "contents ?t (file_of ?t h) = (xs @ m @ [NUL]) @ concat (map (\<lambda>m. m @ [NUL]) ms)"
      using c ah by simp
    show "m' \<noteq> [] \<and> NUL \<notin> set m' \<and> length m' \<le> len" if "m' \<in> set ms" for m'
      using Cons.prems(6) that by simp
  qed (use Cons.prems ah in simp_all)
  then obtain u where "read_seq (length ms) (int h) len ?t = Inr (ms, u)" by blast
  with rd show ?case by (simp add: exec_simps)
qed

text \<open>C7: A file that holds a sequence of non-empty messages, each ended by a zero byte, is read back
  one message per call: from the start of the file the successive results of \<open>tfs_read\<close> are the
  messages in the order in which they were written, as long as the length asked for covers each of
  them and the file does not fill its block.  This is how the broker stores and replays a box.\<close>

theorem messages_read_back:
  assumes "fs_inv s" and "idle s" and "is_open s (int h)"
    and "freeinode_ts s ! file_of s h = TAKEN" and "offset_of s h = 0"
    and "contents s (file_of s h) = concat (map (\<lambda>m. m @ [NUL]) ms)"
    and "\<And>m. m \<in> set ms \<Longrightarrow> m \<noteq> [] \<and> NUL \<notin> set m \<and> length m \<le> len"
    and "length (contents s (file_of s h)) < BLOCK_SIZE s"
  shows "\<exists>t. read_seq (length ms) (int h) len s = Inr (ms, t)"
  using read_seq_messages [OF assms(1-4), of "[]" ms len] assms(5-8) by simp

theorem messages_read_back_witness:
  "\<exists>t. read_seq (length [''hi'', ''ok'']) (int 1) 5 demo6 = Inr ([''hi'', ''ok''], t)"
  by (rule messages_read_back)
    (auto simp: demo6_facts demo_messages_def demo_params_def)

text \<open>C39: At a zero byte that ends the file \<open>tfs_read\<close> skips the byte but keeps the amount to read, so
  it returns a byte that lies behind the end of the file: one that does not belong to it.\<close>

theorem tfs_read_past_end:
  assumes inv: "fs_inv s" and idle: "idle s" and op: "is_open s (int h)"
    and c: "contents s (file_of s h) = xs @ [NUL]" and off: "offset_of s h = length xs"
    and fit: "Suc (length xs) < BLOCK_SIZE s"
    and after: "fs_data s (read_base s h + Suc (length xs)) = b" "b \<noteq> NUL"
  shows "\<exists>t. tfs_read (int h) 1 s = Inr ((1, [b]), t) \<and>
    offset_of t h = length (contents t (file_of t h)) + 1"
proof -
  have n: "i_size (inode_table s ! file_of s h) = Suc (length xs)"
    using c length_contents [of s "file_of s h"] by simp
  have "TFS_Prelude.slice (fs_data s) (read_base s h) (Suc (length xs)) = xs @ [NUL]"
    using c n by (simp add: contents_def read_base_def)
  from arg_cong [OF this, of "\<lambda>l. l ! length xs"]
  have "fs_data s (read_base s h + length xs) = NUL" by simp
  then have st: "read_start s h = Suc (length xs)" using off by (simp add: read_start_def)
  have a: "read_amount s h (Suc 0) = Suc 0" by (simp add: read_amount_def n off)
  have bs: "read_bytes s h (Suc 0) = [b]"
    using after by (simp add: read_bytes_def st a slice_Suc c_string_def)
  have "read_base s h + read_start s h + read_amount s h (Suc 0) \<le> fs_data_size s"
    by (rule read_fits [OF inv op]) (use st a fit n in simp_all)
  with tfs_read_exec [OF inv idle op, of "Suc 0"] fit n off a bs st
  have "tfs_read (int h) 1 s = Inr ((1, [b]), advanced s h (Suc (Suc (length xs))))" by simp
  moreover have "length (contents (advanced s h (Suc (Suc (length xs)))) (file_of s h)) = Suc (length xs)"
    using c by (simp only: contents_advanced) simp
  ultimately show ?thesis using advanced_handle [OF inv op] by simp
qed

theorem tfs_read_past_end_witness:
  "\<exists>t. tfs_read (int 1) 1 demo7 = Inr ((1, ''z''), t) \<and>
    offset_of t 1 = length (contents t (file_of t 1)) + 1"
  by (rule tfs_read_past_end [where xs = "''hi'' @ [NUL] @ ''ok''"])
    (simp_all add: demo7_facts demo_messages_def demo_params_def,
      use demo7_facts(8) in \<open>simp add: eval_nat_numeral\<close>)

section \<open>Allocation tables\<close>

text \<open>A data block that was allocated is not handed out again before it is freed, and freeing it
  restores the free list: an allocation returns \<open>-1\<close> exactly when every block is taken.\<close>

theorem data_blocks_exclusive:
  assumes "tfs_wf s" and "locks s L_data_table = Unlocked"
    and "data_block_alloc s = Inr (b, t)" and "b \<noteq> - 1" and "data_block_alloc t = Inr (c, u)"
  shows "c \<noteq> b \<and> FREE \<in> set (free_blocks s) \<and> (c = - 1 \<longleftrightarrow> FREE \<notin> set (free_blocks t)) \<and>
    (\<exists>v. data_block_free b t = Inr ((), v) \<and> free_blocks v = free_blocks s)"
proof -
  have s: "data_ready s" using assms(1,2) by simp
  have t: "data_ready t" using blk.alloc_result [OF s assms(3,4)] by blast
  show ?thesis
    using blk.alloc_twice_distinct [OF s assms(3-5)] blk.alloc_fails_iff [OF s assms(3)] assms(4)
      blk.alloc_fails_iff [OF t assms(5)] blk.alloc_release [OF s assms(3,4)] by blast
qed

theorem data_blocks_exclusive_witness:
  "(2::int) \<noteq> 1 \<and> FREE \<in> set (free_blocks demo1) \<and>
   ((2::int) = - 1 \<longleftrightarrow> FREE \<notin> set (free_blocks (demo1\<lparr>free_blocks := [TAKEN, TAKEN, FREE]\<rparr>))) \<and>
   (\<exists>v. data_block_free 1 (demo1\<lparr>free_blocks := [TAKEN, TAKEN, FREE]\<rparr>) = Inr ((), v) \<and>
     free_blocks v = free_blocks demo1)"
proof (rule data_blocks_exclusive)
  show wf: "tfs_wf demo1" and l: "locks demo1 L_data_table = Unlocked"
    using fs_invD(1) [OF demo1_inv(1)] demo1_inv(2) by simp_all
  show "data_block_alloc demo1 = Inr (1, demo1\<lparr>free_blocks := [TAKEN, TAKEN, FREE]\<rparr>)"
    using data_block_alloc_exec [of demo1] wf l by (simp add: demo1_fields first_free_def)
  have "tfs_wf (demo1\<lparr>free_blocks := [TAKEN, TAKEN, FREE]\<rparr>)"
    using wf by (simp add: tfs_wf_def demo1_fields demo_params_def)
  then show "data_block_alloc (demo1\<lparr>free_blocks := [TAKEN, TAKEN, FREE]\<rparr>) =
      Inr (2, demo1\<lparr>free_blocks := [TAKEN, TAKEN, TAKEN]\<rparr>)"
    using data_block_alloc_exec [of "demo1\<lparr>free_blocks := [TAKEN, TAKEN, FREE]\<rparr>"] l
    by (simp add: first_free_def)
qed simp

text \<open>Closing a handle invalidates it: a second close, a read and a write with it all return -1
  and change nothing, and the files and names are as before the close.\<close>

theorem tfs_close_invalidates:
  assumes inv: "fs_inv s" and idle: "idle s" and op: "is_open s h"
  shows "\<exists>t. tfs_close h s = Inr (0, t) \<and> tfs_close h t = Inr (- 1, t) \<and>
    tfs_read h len t = Inr ((- 1, []), t) \<and> tfs_write h buffer len t = Inr (- 1, t) \<and>
    names t = names s \<and> (\<forall>j. contents t j = contents s j)"
proof -
  let ?t = "s\<lparr>free_open_file_entries := (free_open_file_entries s)[nat h := FREE]\<rparr>"
  have it: "fs_inv ?t" "root_dents ?t = root_dents s" using inv_close [OF inv] by simp_all
  have l: "idle ?t" using idle by simp
  have "nat h < length (free_open_file_entries s)"
    using op fs_invD(1) [OF inv]
    by (simp add: is_open_def valid_file_handle_def wf_simps nat_less_iff)
  then have "\<not> is_open ?t h" by (simp add: is_open_def)
  then have "tfs_close h ?t = Inr (- 1, ?t)" "tfs_read h len ?t = Inr ((- 1, []), ?t)"
    "tfs_write h buffer len ?t = Inr (- 1, ?t)"
    using tfs_close_exec [OF it(1) l] tfs_read_closed [OF it(1) l] tfs_write_closed [OF it(1) l]
    by simp_all
  moreover have "tfs_close h s = Inr (0, ?t)" using tfs_close_exec [OF inv idle] op by simp
  moreover have "names ?t = names s" using it(2) by (rule names_cong)
  moreover have "contents ?t j = contents s j" for j by (rule contents_cong) simp_all
  ultimately show ?thesis by blast
qed

theorem tfs_close_invalidates_witness:
  "\<exists>t. tfs_close 0 demo2 = Inr (0, t) \<and> tfs_close 0 t = Inr (- 1, t) \<and>
    tfs_read 0 4 t = Inr ((- 1, []), t) \<and> tfs_write 0 ''abcd'' 4 t = Inr (- 1, t) \<and>
    names t = names demo2 \<and> (\<forall>j. contents t j = contents demo2 j)"
  by (rule tfs_close_invalidates [OF demo2_inv]) (simp add: demo2_handle)

section \<open>Start and stop\<close>

text \<open>\<open>tfs_init\<close> builds an empty file system: the invariant holds, no lock is held, no name can be
  looked up, no inode but the root's is taken and no handle is open.  It needs parameters whose
  sizes do not overflow, at least one inode and one block, all the memory it asks for, and name
  fields that start out empty (the code initialises only the inumbers of the entries).\<close>

theorem tfs_init_empty:
  assumes p: "wf_params p" "0 < max_inode_count p" "0 < max_block_count p"
    and h: "all_granted h" "blank_names h p"
  shows "\<exists>t. tfs_init h (Some p) boot = Inr (0, t) \<and> fs_params t = p \<and> fs_inv t \<and> idle t \<and>
    names t = Map.empty \<and> (\<forall>j. \<not> used_inode t j) \<and> (\<forall>f. \<not> is_open t f)"
proof -
  let ?t = "init_state h p boot"
  have ex: "tfs_init h (Some p) boot = Inr (0, ?t)" using p h by (intro tfs_init_exec) simp_all
  have inv: "fs_inv ?t" using p h by (intro init_inv)
  have "dir_find (replicate n ([], - 1)) v = - 1" for n :: nat and v by (induction n) simp_all
  then have nm: "names ?t = Map.empty"
    using root_dents_init [OF h(2) p(2)] by (simp add: names_def fun_eq_iff)
  have u: "\<not> used_inode ?t j" for j
    using init_taken [of "nat j" "max_inode_count p"] by (auto simp: used_inode_def nat_less_iff)
  have o: "\<not> is_open ?t f" for f
    by (auto simp: is_open_def valid_file_handle_def nat_less_iff)
  from ex inv nm u o show ?thesis by simp
qed

theorem tfs_init_empty_witness:
  "\<exists>t. tfs_init demo_heap (Some demo_params) boot = Inr (0, t) \<and> fs_params t = demo_params \<and>
    fs_inv t \<and> idle t \<and> names t = Map.empty \<and> (\<forall>j. \<not> used_inode t j) \<and> (\<forall>f. \<not> is_open t f)"
  by (rule tfs_init_empty) (rule demo_params_ok)+

text \<open>\<open>tfs_destroy\<close> succeeds between calls, but the file system cannot be started again: the
  locks of the tables, initialised once and statically, are destroyed, and the next \<open>tfs_init\<close>
  uses a destroyed lock, which is undefined behaviour.\<close>

theorem tfs_init_after_destroy_undefined:
  assumes "fs_inv s" and "idle s" and "wf_params p" and "all_granted h"
  shows "\<exists>t. tfs_destroy s = Inr (0, t) \<and> \<not> inode_table_set t \<and>
    tfs_init h (Some p) t = Inl LockMisuse"
proof -
  have wf: "tfs_wf s" using assms(1) by (rule fs_invD)
  have "\<not> inode_table_set (destroyed s)" by (simp add: destroyed_def)
  with tfs_destroy_exec [OF wf assms(2)] tfs_init_after_destroy [OF wf assms(2-4)] show ?thesis
    by blast
qed

theorem tfs_init_after_destroy_undefined_witness:
  "\<exists>t. tfs_destroy demo2 = Inr (0, t) \<and> \<not> inode_table_set t \<and>
    tfs_init demo_heap (Some demo_params) t = Inl LockMisuse"
  by (rule tfs_init_after_destroy_undefined [OF demo2_inv demo_params_ok(1,4)])

text \<open>\<open>tfs_init\<close> on a file system that is already initialised is refused, but it has replaced the
  parameters before it looked: with more inodes than the tables have, the next creation on a
  full table reads past the end of the free list.\<close>

theorem tfs_init_twice_breaks_bounds:
  assumes inv: "fs_inv s" and idle: "idle s" and full: "FREE \<notin> set (freeinode_ts s)"
    and more: "INODE_TABLE_SIZE s < max_inode_count p" and bs: "0 < block_size p"
  shows "\<exists>t. tfs_init h (Some p) s = Inr (- 1, t) \<and> inode_alloc t = Inl OutOfBounds"
proof -
  let ?t = "s\<lparr>fs_params := p\<rparr>"
  have wf: "tfs_wf s" using inv by (rule fs_invD)
  have "inode_table_set s" using wf by (simp add: tfs_wf_def)
  then have ex: "tfs_init h (Some p) s = Inr (- 1, ?t)" by (rule tfs_init_again)
  have len: "length (freeinode_ts s) < max_inode_count p" using wf more by (simp add: wf_simps)
  have scan: "scan_free (freeinode_ts s) i (max_inode_count p) = Inl OutOfBounds"
    if "i \<le> length (freeinode_ts s)" for i
    using that
  proof (induction "length (freeinode_ts s) - i" arbitrary: i)
    case 0
    then show ?case using len by (subst scan_free.simps) simp
  next
    case (Suc k)
    then have "i < length (freeinode_ts s)" by simp
    moreover from this full have "freeinode_ts s ! i \<noteq> FREE" by (metis nth_mem)
    moreover have "scan_free (freeinode_ts s) (Suc i) (max_inode_count p) = Inl OutOfBounds"
      using Suc by simp
    ultimately show ?case using len by (subst scan_free.simps) simp
  qed
  have "inode_alloc ?t = Inl OutOfBounds"
    using idle scan [of 0] bs
    by (simp add: inode_alloc_def exec_simps my_w_lock_def set_lock_def storage_delay_def idle_def)
  with ex show ?thesis by blast
qed

theorem tfs_init_twice_breaks_bounds_witness:
  "\<exists>t. tfs_init demo_heap (Some demo_params)
      (init_state demo_heap (demo_params\<lparr>max_inode_count := 1\<rparr>) boot) = Inr (- 1, t) \<and>
    inode_alloc t = Inl OutOfBounds"
proof (rule tfs_init_twice_breaks_bounds)
  show "fs_inv (init_state demo_heap (demo_params\<lparr>max_inode_count := 1\<rparr>) boot)"
    by (rule init_inv)
      (simp_all add: demo_params_def demo_heap_def wf_params_def blank_names_def)
qed (simp_all add: demo_params_def)

section \<open>Copying from the host\<close>

lemma copy_modes [simp]:
  "has_mode (TFS_O_CREAT OR TFS_O_TRUNC) TFS_O_CREAT"
  "has_mode (TFS_O_CREAT OR TFS_O_TRUNC) TFS_O_TRUNC"
  "\<not> has_mode (TFS_O_CREAT OR TFS_O_TRUNC) TFS_O_APPEND"
  by (simp_all add: has_mode_def TFS_O_CREAT_def TFS_O_TRUNC_def TFS_O_APPEND_def)

text \<open>The state in which the copy of a file to a new name starts.\<close>

lemma copy_opens_new:
  assumes inv: "fs_inv s" and idle: "idle s" and p: "c_ok p" "path_entry p = Some v"
    and v: "valid_name v" and absent: "lookup s p = - 1"
    and room: "FREE \<in> set (freeinode_ts s)" "- 1 \<in> snd ` set (root_dents s)"
      "FREE \<in> set (free_open_file_entries s)"
  shows "\<exists>h i t. tfs_open p (TFS_O_CREAT OR TFS_O_TRUNC) s = Inr (int h, t) \<and> fs_inv t \<and> idle t \<and>
    is_open t (int h) \<and> file_of t h = i \<and> offset_of t h = 0 \<and> i_size (inode_table t ! i) = 0 \<and>
    names t = (names s)(v \<mapsto> i) \<and> free_blocks t = free_blocks s \<and> fs_params t = fs_params s"
proof -
  from room obtain i h where i: "first_free (freeinode_ts s) = Some i"
    and h: "first_free (free_open_file_entries s) = Some h" using first_free_ex by metis
  let ?u = "file_inode s i TAKEN"
  let ?l = "link_added ?u v (int i)"
  let ?t = "snd (opened ?l i 0)"
  note fi = fresh_inode [OF inv i] and fu = file_inode_used [OF inv i]
  note iu = inv_file_inode [OF inv i, of TAKEN]
  have r: "link_result s v = 0" using v room(2) by (simp add: link_result_def)
  have il: "fs_inv ?l" by (rule inv_link_added [OF iu(1) fu(1)]) (simp add: fu(3,5))
  have ne: "fst (opened ?l i 0) \<noteq> - 1" using h by (simp add: opened_def)
  from opened_handle [OF fs_invD(1) [OF il] ne] h
  have hd: "fst (opened ?l i 0) = int h" "is_open ?t (int h)" "offset_of ?t h = 0" "file_of ?t h = i"
    by auto
  have ex: "tfs_open p (TFS_O_CREAT OR TFS_O_TRUNC) s = Inr (int h, ?t)"
    using tfs_open_create_exec [OF inv idle p absent _ i, of "TFS_O_CREAT OR TFS_O_TRUNC"] r hd(1)
    by (simp add: prod_eq_iff)
  have small: "i < 2147483648" using fi(2) fs_invD(1) [OF inv] wf_bounds(2) [of s] by simp
  have "names ?t = (names s)(v \<mapsto> i)"
    using names_link_added [of ?u v i] r small iu(2) names_lookup_None [OF p(2) absent]
      names_cong [OF iu(2)] by (simp add: link_result_def)
  moreover have "fs_inv ?t" using il fu(1) by (intro inv_opened) simp_all
  moreover have "idle ?t" using idle by simp
  ultimately show ?thesis using ex hd fu(2) by (intro exI [of _ h] exI [of _ i] exI [of _ ?t]) simp
qed

text \<open>A file of the host that fits one block is copied completely, whatever the number of chunks
  it is read in: the call returns 0, the new name leads to a file with exactly its bytes, and both
  the stream and the handle are closed.\<close>

theorem tfs_copy_complete:
  assumes inv: "fs_inv s" and idle: "idle s" and p: "c_ok p" "path_entry p = Some v"
    and v: "valid_name v" and absent: "lookup s p = - 1"
    and room: "FREE \<in> set (freeinode_ts s)" "- 1 \<in> snd ` set (root_dents s)"
      "FREE \<in> set (free_open_file_entries s)" "FREE \<in> set (free_blocks s)"
    and fit: "length src \<le> BLOCK_SIZE s"
  shows "\<exists>h i t. tfs_copy_from_external_fs (Some src) p s = Inr ((0, False), t) \<and>
    names t = (names s)(v \<mapsto> i) \<and> contents t i = src \<and> \<not> is_open s h \<and> \<not> is_open t h"
proof -
  from copy_opens_new [OF inv idle p v absent room(1-3)] obtain h i t where
    t: "tfs_open p (TFS_O_CREAT OR TFS_O_TRUNC) s = Inr (int h, t)" "fs_inv t" "idle t"
      "is_open t (int h)" "file_of t h = i" "offset_of t h = 0" "i_size (inode_table t ! i) = 0"
      "names t = (names s)(v \<mapsto> i)" "free_blocks t = free_blocks s" "fs_params t = fs_params s"
    by blast
  have "write_block t (file_of t h) \<noteq> None"
    using room(4) first_free_ex [of "free_blocks s"] t(9) by (auto simp: write_block_def)
  then obtain u where u: "copy_loop (int h) src t = Inr ((0, False), u)"
      "contents u i = contents t i @ src" "root_dents u = root_dents t" "\<not> is_open u (int h)"
    using copy_loop_copies [OF t(2-4), of src] t(5-7,10) fit by auto
  have "contents t i = []" using t(7) by (simp add: contents_def)
  moreover have "\<not> is_open s (int h)"
  proof -
    from tfs_open_creates [OF inv idle p v absent _ room(1-3), of "TFS_O_CREAT OR TFS_O_TRUNC"] t(1)
    show ?thesis by auto
  qed
  moreover have "tfs_copy_from_external_fs (Some src) p s = Inr ((0, False), u)"
    using t(1) u(1) by (simp add: tfs_copy_from_external_fs_def exec_simps)
  ultimately show ?thesis using u t(8) names_cong [OF u(3)] by auto
qed

theorem tfs_copy_complete_witness:
  "\<exists>h i t. tfs_copy_from_external_fs (Some ''xyz'') path_b demo2 = Inr ((0, False), t) \<and>
    names t = (names demo2)(''b'' \<mapsto> i) \<and> contents t i = ''xyz'' \<and> \<not> is_open demo2 h \<and> \<not> is_open t h"
  by (rule tfs_copy_complete [OF demo2_inv])
    (simp_all add: demo2_lookup demo2_dents demo2_fields demo_params_def)

text \<open>A loop that runs out of the block stops with both ends open.\<close>

lemma copy_loop_fails:
  assumes "fs_inv s" and "idle s" and "is_open s (int h)"
    and "offset_of s h \<le> BLOCK_SIZE s" and "BLOCK_SIZE s < offset_of s h + length src"
  shows "\<exists>t. copy_loop (int h) src s = Inr ((- 1, True), t) \<and> is_open t (int h)"
  using assms
proof (induction src arbitrary: s rule: length_induct)
  case (1 src)
  note inv = 1(2) and idle = 1(3) and op = 1(4) and le = 1(5) and big = 1(6)
  let ?c = "take 1024 src" and ?n = "write_amount s h (length (take 1024 src))"
  have ne: "src \<noteq> []" using le big by auto
  have b: "BLOCK_SIZE s < 9223372036854775807" using fs_invD(1) [OF inv] by (rule wf_bounds)
  then have small: "length ?c + offset_of s h < size_mod" using le by simp
  note ex = tfs_write_exec [OF inv idle op le small order_refl]
  show ?case
  proof (cases "?n = length ?c \<and> write_block s (file_of s h) \<noteq> None")
    case False
    have cpos: "0 < length ?c" using ne by simp
    have nle: "?n \<le> length ?c" unfolding write_amount_def by (rule min.cobounded1)
    from False obtain r t where w: "tfs_write (int h) ?c (length ?c) s = Inr (r, t)"
        "r \<noteq> int (length ?c)" "is_open t (int h)"
      using ex op offset_written(3) [OF inv op] nle cpos
      by (cases "write_block s (file_of s h)") (auto split: if_splits)
    then show ?thesis using ne by (subst copy_loop.simps) (simp add: exec_simps)
  next
    case True
    then obtain bb fb where wb: "write_block s (file_of s h) = Some (bb, fb)" by auto
    let ?t = "written s h fb bb ?c"
    have cne: "?c \<noteq> []" using ne by simp
    have w: "tfs_write (int h) ?c (length ?c) s = Inr (int (length ?c), ?t)"
      using tfs_write_all [OF inv idle op le small _ cne wb] True by simp
    have fitc: "offset_of s h + length ?c \<le> BLOCK_SIZE s"
      using True le by (simp add: write_amount_def min_def split: if_splits)
    note iw = inv_written(1) [OF inv op wb fitc] and ow = offset_written [OF inv op, of fb bb ?c]
    have "length (drop 1024 src) < length src" using ne by simp
    moreover have "offset_of ?t h \<le> BLOCK_SIZE ?t" using fitc ow(1) by simp
    moreover have "BLOCK_SIZE ?t < offset_of ?t h + length (drop 1024 src)"
      using big ow(1) by (cases "length src \<le> 1024") simp_all
    ultimately have "\<exists>u. copy_loop (int h) (drop 1024 src) ?t = Inr ((- 1, True), u) \<and> is_open u (int h)"
      using 1(1) iw idle op ow(3) by simp
    then show ?thesis using w ne by (subst copy_loop.simps) (auto simp: exec_simps)
  qed
qed

text \<open>Copying a file of the host that is longer than one block fails, and leaves behind the new
  name, the stream open and a handle open: repeating it exhausts the open file table.\<close>

theorem tfs_copy_too_long_leaks:
  assumes inv: "fs_inv s" and idle: "idle s" and p: "c_ok p" "path_entry p = Some v"
    and v: "valid_name v" and absent: "lookup s p = - 1"
    and room: "FREE \<in> set (freeinode_ts s)" "- 1 \<in> snd ` set (root_dents s)"
      "FREE \<in> set (free_open_file_entries s)"
    and big: "BLOCK_SIZE s < length src"
  shows "\<exists>h t. tfs_copy_from_external_fs (Some src) p s = Inr ((- 1, True), t) \<and>
    \<not> is_open s (int h) \<and> is_open t (int h)"
proof -
  from copy_opens_new [OF inv idle p v absent room] obtain h i t where
    t: "tfs_open p (TFS_O_CREAT OR TFS_O_TRUNC) s = Inr (int h, t)" "fs_inv t" "idle t"
      "is_open t (int h)" "offset_of t h = 0" "fs_params t = fs_params s" by blast
  from copy_loop_fails [OF t(2-4), of src] t(5,6) big obtain u where
    u: "copy_loop (int h) src t = Inr ((- 1, True), u)" "is_open u (int h)" by auto
  have "\<not> is_open s (int h)"
    using tfs_open_creates [OF inv idle p v absent _ room, of "TFS_O_CREAT OR TFS_O_TRUNC"] t(1)
    by auto
  moreover have "tfs_copy_from_external_fs (Some src) p s = Inr ((- 1, True), u)"
    using t(1) u(1) by (simp add: tfs_copy_from_external_fs_def exec_simps)
  ultimately show ?thesis using u(2) by blast
qed

theorem tfs_copy_too_long_leaks_witness:
  "\<exists>h t. tfs_copy_from_external_fs (Some (replicate 100 CHR ''x'')) path_b demo2 = Inr ((- 1, True), t) \<and>
    \<not> is_open demo2 (int h) \<and> is_open t (int h)"
  by (rule tfs_copy_too_long_leaks [OF demo2_inv, where v = "''b''"])
    (simp_all add: demo2_lookup demo2_dents demo2_fields demo_params_def)

section \<open>Handles on deleted files\<close>

text \<open>C40: Unlinking does not look at open handles.  When the last name of an open file is removed and
  its inode is the lowest free one, the next file created (under another name) gets that inode: the
  old handle is still open and then is a handle of the new file.\<close>

theorem stale_handle_reaches_new_file:
  assumes inv: "fs_inv s" and idle: "idle s" and p: "c_ok p" "path_entry p = Some v"
    and i: "lookup s p = int i" and last: "i_count (inode_table s ! i) \<le> 1"
    and lowest: "\<And>j. j < i \<Longrightarrow> freeinode_ts s ! j = TAKEN"
    and op: "is_open s (int h)" "file_of s h = i"
    and q: "c_ok q" "path_entry q = Some w" "valid_name w" "w \<noteq> v" "lookup s q = - 1"
    and room: "FREE \<in> set (free_open_file_entries s)"
  shows "\<exists>t g x. tfs_unlink p s = Inr (0, t) \<and> is_open t (int h) \<and>
    tfs_open q TFS_O_CREAT t = Inr (int g, x) \<and> g \<noteq> h \<and> is_open x (int h) \<and> file_of x h = file_of x g"
proof -
  from unlink_entries [OF inv idle p i] obtain k where
    k: "tfs_unlink p s = Inr (0, unlinked s i k)" "k < MAX_DIR_ENTRIES s" "used_inode s (int i)"
      "\<And>x. x \<noteq> v \<Longrightarrow> names (unlinked s i k) x = names s x" by blast
  let ?t = "unlinked s i k"
  have i0: "0 < i" "i < INODE_TABLE_SIZE s" using k(3) by (simp_all add: used_inode_def)
  from tfs_unlink_inv [OF inv idle p(1)] k(1) have it: "fs_inv ?t" "idle ?t" by auto
  note ui = unlinked_inode [OF inv k(3), where k = k]
  have len: "i < length (freeinode_ts ?t)"
    using i0(2) fs_invD(1) [OF it(1)] by (simp add: wf_simps) (simp add: unlinked_def Let_def)
  have ff: "first_free (freeinode_ts ?t) = Some i"
    unfolding first_free_def
  proof (rule first_index_SomeI [OF len])
    show "freeinode_ts ?t ! i = FREE" using ui(1) [OF last] .
    show "freeinode_ts ?t ! j \<noteq> FREE" if "j < i" for j
      using ui(4) [of j] lowest [OF that] that by simp
  qed
  have same: "open_file_table ?t = open_file_table s" "fs_params ?t = fs_params s"
    "free_open_file_entries ?t = free_open_file_entries s"
    by (simp_all add: unlinked_def Let_def)
  then have oh: "is_open ?t (int h)" "file_of ?t h = i"
    using op by (simp_all add: is_open_def valid_file_handle_def file_of_def)
  have absent: "lookup ?t q = - 1"
    using lookup_names [OF it(1), of q] lookup_names [OF inv, of q] k(4) q(2,4,5) by simp
  have "(root_dents ?t) ! k = ([], - 1)"
    using root_dents_unlinked [OF inv k(2) i0(1)] k(2) by simp
  moreover have "k < length (root_dents ?t)" using k(2) same(2) by (simp add: MAX_DIR_ENTRIES_def)
  ultimately have "- 1 \<in> snd ` set (root_dents ?t)" by (metis image_eqI nth_mem snd_conv)
  then have r: "link_result ?t w = 0" using q(3) by (simp add: link_result_def)
  let ?l = "link_added (file_inode ?t i TAKEN) w (int i)"
  let ?x = "snd (opened ?l i 0)"
  from room obtain g where g: "first_free (free_open_file_entries s) = Some g"
    using first_free_ex by blast
  have fu: "used_inode (file_inode ?t i TAKEN) (int i)" by (rule file_inode_used(1) [OF it(1) ff])
  have "fs_inv ?l"
    by (rule inv_link_added [OF inv_file_inode(1) [OF it(1) ff] fu])
      (simp add: file_inode_used(3,5) [OF it(1) ff])
  then have wf: "tfs_wf ?l" by (rule fs_invD)
  have ne: "fst (opened ?l i 0) \<noteq> - 1" using g same(3) by (simp add: opened_def)
  from opened_handle [OF wf ne] g same(3) have
    hd: "fst (opened ?l i 0) = int g" "file_of ?x g = i" by auto
  have ex: "tfs_open q TFS_O_CREAT ?t = Inr (int g, ?x)"
    using tfs_open_create_exec [OF it q(1,2) absent _ ff, of TFS_O_CREAT] r hd(1)
    by (simp add: prod_eq_iff)
  have gh: "g \<noteq> h" using is_open_fresh [OF g] op(1) by auto
  have "is_open ?x (int h)" "file_of ?x h = i"
    using oh gh g same(3) by (simp_all add: opened_def is_open_def valid_file_handle_def file_of_def)
  with k(1) oh(1) ex gh hd(2) show ?thesis by metis
qed

theorem stale_handle_reaches_new_file_witness:
  "\<exists>t g x. tfs_unlink path_a demo2 = Inr (0, t) \<and> is_open t (int 0) \<and>
    tfs_open path_b TFS_O_CREAT t = Inr (int g, x) \<and> g \<noteq> 0 \<and> is_open x (int 0) \<and>
    file_of x 0 = file_of x g"
  by (rule stale_handle_reaches_new_file [OF demo2_inv, where v = "''a''" and w = "''b''" and i = 1])
    (simp_all add: demo2_lookup demo2_dents demo2_fields demo2_handle)

end
