(* ===== verification/PCQ.thy ===== *)
theory PCQ
  imports TFS_Prelude
begin

text \<open>
  \<open>producer-consumer/producer-consumer.c\<close>: the bounded queue between the main loop of the broker
  and its worker threads.  This theory has the data structure: an array in which \<open>pcq_head\<close>
  never moves, the newest element is at \<open>pcq_head\<close> and the oldest at \<open>pcq_tail\<close>, so that an
  insertion shifts the whole queue by one.  It refines a first-in first-out list (the locale
  \<open>fifo\<close>, interpreted on the code's operations).

  The bodies of \<open>pcq_enqueue\<close> and \<open>pcq_dequeue\<close> between the acquisition and the release of
  \<open>pcq_current_size_lock\<close> are one operation each; the waiting around them, the other locks and
  the condition variables are in the theory \<open>PCQ_Threads\<close>.
\<close>

section \<open>Data\<close>

record 'a pc_queue =
  pcq_buffer :: "'a list"
  pcq_capacity :: nat
  pcq_current_size :: nat
  pcq_head :: nat
  pcq_tail :: nat

text \<open>
  \<open>my_malloc(sizeof(task) * capacity)\<close> allocates 16 bytes per task for an array of pointers of 8
  bytes each; \<open>raw\<close> is the indeterminate contents.  The fields \<open>pcq_current_size\<close>, \<open>pcq_head\<close>
  and \<open>pcq_tail\<close> are not initialised.  The mutexes and condition variables have no state here.
\<close>

definition pcq_create :: "bool \<Rightarrow> (nat \<Rightarrow> 'a) \<Rightarrow> nat \<Rightarrow> ('a pc_queue, int) oper" where
  "pcq_create granted raw capacity =
     block
       [modify (\<lambda>q. q\<lparr>pcq_capacity := capacity\<rparr>),
        if granted then ret () else fail ExitFailure,
        modify (\<lambda>q. q\<lparr>pcq_buffer := map raw [0 ..< size_mul 16 capacity div 8]\<rparr>)]
       (ret 0)"

text \<open>\<open>pcq_destroy\<close> frees the elements from \<open>pcq_head\<close> to \<open>pcq_tail\<close>; the result is their list.\<close>

function destroy_loop :: "'a list \<Rightarrow> nat \<Rightarrow> nat \<Rightarrow> 'a list res" where
  "destroy_loop buffer i tail =
     (if i \<le> tail then
        case array_get buffer (int i) of
          Inl e \<Rightarrow> Inl e
        | Inr x \<Rightarrow>
            (case destroy_loop buffer (Suc i) tail of Inl e \<Rightarrow> Inl e | Inr xs \<Rightarrow> Inr (x # xs))
      else Inr [])"
  by pat_completeness auto
termination
  by (relation "measure (\<lambda>(b, i, n). Suc n - i)") auto

declare destroy_loop.simps [simp del]

definition pcq_destroy :: "('a pc_queue, 'a list) oper" where
  "pcq_destroy =
     call (gets (\<lambda>q. destroy_loop (pcq_buffer q) (pcq_head q) (pcq_tail q))) (\<lambda>r.
     call (lift r) (\<lambda>freed.
     block [modify (\<lambda>q. q\<lparr>pcq_buffer := []\<rparr>)] (ret freed)))"

section \<open>The critical sections\<close>

text \<open>\<open>for (i = pcq_tail + 1; i > pcq_head; i--) buffer[i] = buffer[i - 1]\<close>.\<close>

function shift_loop :: "'a list \<Rightarrow> nat \<Rightarrow> nat \<Rightarrow> 'a list res" where
  "shift_loop buffer i head =
     (if head < i then
        case array_get buffer (int (i - 1)) of
          Inl e \<Rightarrow> Inl e
        | Inr x \<Rightarrow>
            (case array_set buffer (int i) x of
               Inl e \<Rightarrow> Inl e
             | Inr buffer' \<Rightarrow> shift_loop buffer' (i - 1) head)
      else Inr buffer)"
  by pat_completeness auto
termination
  by (relation "measure (\<lambda>(b, i, h). i)") auto

declare shift_loop.simps [simp del]

definition set_buffer :: "'a list \<Rightarrow> ('a pc_queue, unit) oper" where
  "set_buffer b = modify (\<lambda>q. q\<lparr>pcq_buffer := b\<rparr>)"

text \<open>Lines 47 to 56 of the source.\<close>

definition enqueue_section :: "'a \<Rightarrow> ('a pc_queue, unit) oper" where
  "enqueue_section elem =
     call (gets (\<lambda>q. q)) (\<lambda>q.
     call (lift (if pcq_current_size q \<noteq> 0
                 then shift_loop (pcq_buffer q) (size_add (pcq_tail q) 1) (pcq_head q)
                 else Inr (pcq_buffer q))) (\<lambda>b.
     call (lift (array_set b (int (pcq_head q)) elem)) (\<lambda>b'.
     block
       [set_buffer b',
        if pcq_current_size q \<noteq> 0 then modify (\<lambda>q. q\<lparr>pcq_tail := size_add (pcq_tail q) 1\<rparr>)
        else ret (),
        modify (\<lambda>q. q\<lparr>pcq_current_size := size_add (pcq_current_size q) 1\<rparr>)]
       (ret ()))))"

text \<open>Lines 72 to 76 of the source.\<close>

definition dequeue_section :: "('a pc_queue, 'a) oper" where
  "dequeue_section =
     call (gets (\<lambda>q. q)) (\<lambda>q.
     call (lift (array_get (pcq_buffer q) (int (pcq_tail q)))) (\<lambda>removed_task.
     block
       [if pcq_tail q \<noteq> pcq_head q then modify (\<lambda>q. q\<lparr>pcq_tail := size_sub (pcq_tail q) 1\<rparr>)
        else ret (),
        modify (\<lambda>q. q\<lparr>pcq_current_size := size_sub (pcq_current_size q) 1\<rparr>)]
       (ret removed_task)))"

section \<open>Well-formed queues and their contents\<close>

definition pcq_wf :: "'a pc_queue \<Rightarrow> bool" where
  "pcq_wf q \<longleftrightarrow>
     pcq_current_size q \<le> pcq_capacity q \<and>
     pcq_head q + pcq_capacity q \<le> length (pcq_buffer q) \<and>
     length (pcq_buffer q) < size_mod \<and>
     pcq_head q < length (pcq_buffer q) \<and>
     pcq_tail q = pcq_head q + (pcq_current_size q - 1)"

text \<open>The queue, oldest element first.\<close>

definition pcq_list :: "'a pc_queue \<Rightarrow> 'a list" where
  "pcq_list q = rev (take (pcq_current_size q) (drop (pcq_head q) (pcq_buffer q)))"

lemma length_pcq_list: "pcq_wf q \<Longrightarrow> length (pcq_list q) = pcq_current_size q"
  by (auto simp: pcq_wf_def pcq_list_def min_def)

text \<open>The shift moves the elements from \<open>head\<close> to \<open>i - 1\<close> up by one.\<close>

lemma shift_loop_exec:
  "head \<le> i \<Longrightarrow> i < length b \<Longrightarrow>
   \<exists>b'. shift_loop b i head = Inr b' \<and> length b' = length b \<and>
     (\<forall>k. head < k \<longrightarrow> k \<le> i \<longrightarrow> b' ! k = b ! (k - 1)) \<and>
     (\<forall>k. k \<le> head \<or> i < k \<longrightarrow> b' ! k = b ! k)"
proof (induction "i - head" arbitrary: i b)
  case 0
  then show ?case by (subst shift_loop.simps) simp
next
  case (Suc n)
  let ?c = "b[i := b ! (i - 1)]"
  have hi: "head < i" using Suc.hyps(2) by simp
  have "n = (i - 1) - head" using Suc.hyps(2) by simp
  moreover have "head \<le> i - 1" "i - 1 < length ?c" using hi Suc.prems by simp_all
  ultimately have "\<exists>b'. shift_loop ?c (i - 1) head = Inr b' \<and> length b' = length ?c \<and>
      (\<forall>k. head < k \<longrightarrow> k \<le> i - 1 \<longrightarrow> b' ! k = ?c ! (k - 1)) \<and>
      (\<forall>k. k \<le> head \<or> i - 1 < k \<longrightarrow> b' ! k = ?c ! k)"
    by (rule Suc.hyps(1))
  then obtain b' where
    b': "shift_loop ?c (i - 1) head = Inr b'" "length b' = length b"
      "\<And>k. head < k \<Longrightarrow> k \<le> i - 1 \<Longrightarrow> b' ! k = ?c ! (k - 1)"
      "\<And>k. k \<le> head \<or> i - 1 < k \<Longrightarrow> b' ! k = ?c ! k" unfolding length_list_update by blast
  have "nat (int i - 1) = i - 1" by simp
  then have "shift_loop b i head = Inr b'"
    using hi Suc.prems b'(1) by (subst shift_loop.simps) simp
  moreover have "b' ! k = b ! (k - 1)" if "head < k" "k \<le> i" for k
  proof (cases "k = i")
    case True
    with b'(4) [of i] hi Suc.prems show ?thesis by simp
  next
    case False
    then have "i \<noteq> k - 1" "k \<le> i - 1" using that by simp_all
    with b'(3) [OF that(1)] show ?thesis by (simp add: nth_update)
  qed
  moreover have "b' ! k = b ! k" if "k \<le> head \<or> i < k" for k
    using b'(4) [of k] that hi by (auto simp: nth_update)
  ultimately show ?case using b'(2) by blast
qed

lemma enqueue_exec:
  assumes wf: "pcq_wf q" and room: "pcq_current_size q < pcq_capacity q"
  shows "\<exists>t. enqueue_section x q = Inr ((), t) \<and> pcq_wf t \<and> pcq_list t = pcq_list q @ [x] \<and>
    pcq_current_size t = Suc (pcq_current_size q) \<and> pcq_capacity t = pcq_capacity q"
proof -
  define n h where "n = pcq_current_size q" and "h = pcq_head q"
  note w = wf [unfolded pcq_wf_def, folded n_def h_def]
  have "\<exists>b. (if n \<noteq> 0 then shift_loop (pcq_buffer q) (size_add (pcq_tail q) 1) h
      else Inr (pcq_buffer q)) = Inr b \<and> length b = length (pcq_buffer q) \<and>
      (\<forall>k < n. b ! (h + Suc k) = pcq_buffer q ! (h + k))"
  proof (cases "n = 0")
    case False
    have t: "size_add (pcq_tail q) 1 = h + n" using w room False by (simp add: n_def)
    from shift_loop_exec [of h "h + n" "pcq_buffer q"] w room obtain b where
      "shift_loop (pcq_buffer q) (h + n) h = Inr b" "length b = length (pcq_buffer q)"
      "\<forall>k. h < k \<longrightarrow> k \<le> h + n \<longrightarrow> b ! k = pcq_buffer q ! (k - 1)" by (auto simp: n_def)
    with False t show ?thesis by auto
  qed simp
  then obtain b where b: "(if n \<noteq> 0 then shift_loop (pcq_buffer q) (size_add (pcq_tail q) 1) h
      else Inr (pcq_buffer q)) = Inr b" "length b = length (pcq_buffer q)"
      "\<And>k. k < n \<Longrightarrow> b ! (h + Suc k) = pcq_buffer q ! (h + k)" by blast
  let ?b = "b[h := x]"
  let ?t = "q\<lparr>pcq_buffer := ?b, pcq_tail := h + n, pcq_current_size := Suc n\<rparr>"
  have "enqueue_section x q = Inr ((), ?t)"
    using b(1,2) w room
    by (cases "n = 0")
      (simp_all add: enqueue_section_def set_buffer_def exec_simps n_def [symmetric] h_def [symmetric])
  moreover have "pcq_wf ?t" using w room b(2) by (simp add: pcq_wf_def n_def h_def)
  moreover have "pcq_list ?t = pcq_list q @ [x]"
  proof -
    have "take (Suc n) (drop h ?b) = x # take n (drop h (pcq_buffer q))"
    proof (rule nth_equalityI)
      show "length (take (Suc n) (drop h ?b)) = length (x # take n (drop h (pcq_buffer q)))"
        using w room b(2) by (auto simp: n_def min_def)
      fix k
      assume "k < length (take (Suc n) (drop h ?b))"
      then have k: "k < Suc n" "h + k < length b" by auto
      show "take (Suc n) (drop h ?b) ! k = (x # take n (drop h (pcq_buffer q))) ! k"
        using k b(3) [of "k - 1"] b(2) by (cases k) simp_all
    qed
    then show ?thesis by (simp add: pcq_list_def n_def h_def)
  qed
  ultimately show ?thesis by (intro exI [of _ ?t]) (simp add: n_def)
qed

lemma pcq_list_Nil: "pcq_wf q \<Longrightarrow> pcq_list q = [] \<longleftrightarrow> pcq_current_size q = 0"
  using length_pcq_list [of q] by (metis length_0_conv)

lemma dequeue_exec:
  assumes wf: "pcq_wf q" and some: "0 < pcq_current_size q"
  shows "\<exists>x t. dequeue_section q = Inr (x, t) \<and> pcq_wf t \<and> pcq_list q = x # pcq_list t \<and>
    Suc (pcq_current_size t) = pcq_current_size q \<and> pcq_capacity t = pcq_capacity q"
proof -
  define h where "h = pcq_head q"
  from some obtain m where m: "pcq_current_size q = Suc m" by (cases "pcq_current_size q") simp_all
  have w: "Suc m \<le> pcq_capacity q" "h + pcq_capacity q \<le> length (pcq_buffer q)"
    "length (pcq_buffer q) < size_mod" "pcq_tail q = h + m"
    using wf m by (simp_all add: pcq_wf_def h_def)
  let ?x = "pcq_buffer q ! (h + m)"
  let ?t = "q\<lparr>pcq_tail := h + (m - 1), pcq_current_size := m\<rparr>"
  have "dequeue_section q = Inr (?x, ?t)"
    using w m by (cases "m = 0") (simp_all add: dequeue_section_def exec_simps nat_int_add h_def [symmetric])
  moreover have "pcq_wf ?t" using wf w m by (simp add: pcq_wf_def h_def)
  moreover have "pcq_list q = ?x # pcq_list ?t"
  proof -
    have "take (Suc m) (drop h (pcq_buffer q)) = take m (drop h (pcq_buffer q)) @ [?x]"
      using w by (simp add: take_Suc_conv_app_nth)
    then show ?thesis by (simp add: pcq_list_def m h_def)
  qed
  ultimately show ?thesis using m by (intro exI [of _ ?x] exI [of _ ?t]) simp
qed

section \<open>First in, first out\<close>

text \<open>Inserting the elements of a list one after the other, and removing a number of them.\<close>

fun enq_all :: "('a \<Rightarrow> ('q, unit) oper) \<Rightarrow> 'a list \<Rightarrow> ('q, unit) oper" where
  "enq_all enq [] = ret ()"
| "enq_all enq (x # xs) = call (enq x) (\<lambda>_. enq_all enq xs)"

fun deq_all :: "('q, 'a) oper \<Rightarrow> nat \<Rightarrow> ('q, 'a list) oper" where
  "deq_all deq 0 = ret []"
| "deq_all deq (Suc n) = call deq (\<lambda>x. call (deq_all deq n) (\<lambda>xs. ret (x # xs)))"

text \<open>
  What the broker relies on: an insertion appends, a removal takes the first element, and both
  are possible while the queue is not full, or not empty.
\<close>

locale fifo =
  fixes valid :: "'q \<Rightarrow> bool"
    and items :: "'q \<Rightarrow> 'a list"
    and room :: "'q \<Rightarrow> nat"
    and enq :: "'a \<Rightarrow> ('q, unit) oper"
    and deq :: "('q, 'a) oper"
  assumes enq_law: "valid q \<Longrightarrow> length (items q) < room q \<Longrightarrow>
      \<exists>t. enq x q = Inr ((), t) \<and> valid t \<and> items t = items q @ [x] \<and> room t = room q"
    and deq_law: "valid q \<Longrightarrow> items q \<noteq> [] \<Longrightarrow>
      \<exists>t. deq q = Inr (hd (items q), t) \<and> valid t \<and> items t = tl (items q) \<and> room t = room q"
begin

lemma enq_all_law:
  "valid q \<Longrightarrow> length (items q) + length xs \<le> room q \<Longrightarrow>
   \<exists>t. enq_all enq xs q = Inr ((), t) \<and> valid t \<and> items t = items q @ xs \<and> room t = room q"
proof (induction xs arbitrary: q)
  case Nil
  then show ?case by (simp add: exec_simps)
next
  case (Cons x xs)
  then obtain t where t: "enq x q = Inr ((), t)" "valid t" "items t = items q @ [x]" "room t = room q"
    using enq_law [of q x] by auto
  with Cons.IH [OF t(2)] Cons.prems(2) show ?case by (auto simp: exec_simps)
qed

lemma deq_all_law:
  "valid q \<Longrightarrow> n \<le> length (items q) \<Longrightarrow>
   \<exists>t. deq_all deq n q = Inr (take n (items q), t) \<and> valid t \<and> items t = drop n (items q) \<and>
     room t = room q"
proof (induction n arbitrary: q)
  case 0
  then show ?case by (simp add: exec_simps)
next
  case (Suc n)
  then obtain x xs where x: "items q = x # xs" by (cases "items q") simp_all
  with deq_law [OF Suc.prems(1)] obtain t where
    t: "deq q = Inr (x, t)" "valid t" "items t = xs" "room t = room q" by auto
  from Suc.IH [OF t(2)] t(3) Suc.prems(2) x obtain u where
    "deq_all deq n t = Inr (take n xs, u)" "valid u" "items u = drop n xs" "room u = room t" by auto
  with t x show ?case by (simp add: exec_simps)
qed

text \<open>Whatever was in the queue comes out first, then the new elements in their order.\<close>

lemma enq_deq_all:
  assumes "valid q" and "length (items q) + length xs \<le> room q"
  shows "\<exists>t u. enq_all enq xs q = Inr ((), t) \<and>
    deq_all deq (length (items q) + length xs) t = Inr (items q @ xs, u) \<and> items u = []"
proof -
  from enq_all_law [OF assms] obtain t where
    t: "enq_all enq xs q = Inr ((), t)" "valid t" "items t = items q @ xs" by blast
  from deq_all_law [OF t(2), of "length (items q) + length xs"] t show ?thesis by auto
qed

end

interpretation pcq: fifo pcq_wf pcq_list pcq_capacity enqueue_section dequeue_section
proof unfold_locales
  fix q :: "'a pc_queue" and x
  assume wf: "pcq_wf q"
  show "\<exists>t. enqueue_section x q = Inr ((), t) \<and> pcq_wf t \<and> pcq_list t = pcq_list q @ [x] \<and>
      pcq_capacity t = pcq_capacity q" if "length (pcq_list q) < pcq_capacity q"
    using enqueue_exec [OF wf, of x] that length_pcq_list [OF wf] by auto
  show "\<exists>t. dequeue_section q = Inr (hd (pcq_list q), t) \<and> pcq_wf t \<and>
      pcq_list t = tl (pcq_list q) \<and> pcq_capacity t = pcq_capacity q" if "pcq_list q \<noteq> []"
    using dequeue_exec [OF wf] that pcq_list_Nil [OF wf] by auto
qed

section \<open>Creation and destruction\<close>

lemma pcq_create_exec:
  assumes "0 < capacity" and "capacity < 1152921504606846976"
  shows "pcq_create True raw capacity q =
    Inr (0, q\<lparr>pcq_capacity := capacity, pcq_buffer := map raw [0 ..< 2 * capacity]\<rparr>)"
  using assms by (simp add: pcq_create_def exec_simps)

lemma pcq_create_wf:
  assumes "0 < capacity" and "capacity < 1152921504606846976"
    and "pcq_current_size q = 0" and "pcq_head q \<le> capacity" and "pcq_tail q = pcq_head q"
    and "pcq_head q < 2 * capacity"
  shows "pcq_wf (q\<lparr>pcq_capacity := capacity, pcq_buffer := map raw [0 ..< 2 * capacity]\<rparr>)"
  using assms by (simp add: pcq_wf_def)

lemma destroy_loop_exec:
  "i \<le> Suc tail \<Longrightarrow> tail < length b \<Longrightarrow>
   destroy_loop b i tail = Inr (take (Suc tail - i) (drop i b))"
proof (induction "Suc tail - i" arbitrary: i)
  case 0
  then show ?case by (subst destroy_loop.simps) simp
next
  case (Suc n)
  then have "destroy_loop b (Suc i) tail = Inr (take (Suc tail - Suc i) (drop (Suc i) b))" by simp
  moreover have "drop i b = b ! i # drop (Suc i) b" using Suc by (simp add: Cons_nth_drop_Suc)
  moreover have "Suc tail - i = Suc (tail - i)" using Suc by simp
  ultimately show ?case using Suc by (subst destroy_loop.simps) simp
qed

end
