(* ===== verification/PCQ_Threads.thy ===== *)
theory PCQ_Threads
  imports PCQ
begin

text \<open>
  \<open>pcq_enqueue\<close> and \<open>pcq_dequeue\<close> as they run in several threads: one step per line that takes
  or gives back a mutex, tests, sleeps, signals or touches the buffer.  Threads are numbered; a
  thread is inside one call at a time.  A thread that calls \<open>my_cond_wait\<close> releases its
  mutex and falls asleep in one step; it is woken by a signal or spuriously, and takes its mutex
  again before it goes on.  A signal wakes one sleeping
  thread, if there is one at that moment.
\<close>

section \<open>Locks, program counters and states\<close>

datatype pcq_lock = Pusher_lock | Popper_lock | Size_lock | Head_lock | Tail_lock

text \<open>The order in which the code takes its locks.\<close>

fun lock_rank :: "pcq_lock \<Rightarrow> nat" where
  "lock_rank Pusher_lock = 0"
| "lock_rank Popper_lock = 1"
| "lock_rank Size_lock = 2"
| "lock_rank Head_lock = 3"
| "lock_rank Tail_lock = 4"

lemma lock_rank_inj: "lock_rank l = lock_rank k \<Longrightarrow> l = k"
  by (cases l; cases k) simp_all

instantiation pcq_lock :: linorder
begin

definition less_eq_pcq_lock :: "pcq_lock \<Rightarrow> pcq_lock \<Rightarrow> bool" where
  "less_eq_pcq_lock l k = (lock_rank l \<le> lock_rank k)"

definition less_pcq_lock :: "pcq_lock \<Rightarrow> pcq_lock \<Rightarrow> bool" where
  "less_pcq_lock l k = (lock_rank l < lock_rank k)"

instance
  by standard (auto simp: less_eq_pcq_lock_def less_pcq_lock_def intro: lock_rank_inj)

end

text \<open>Where a thread is: the numbers are the lines of the source it is about to execute.\<close>

datatype 'a pc =
    Idle
  | Push_40 'a | Push_41 'a | Push_42 'a | Push_sleep 'a | Push_woken 'a | Push_45 'a | Push_46 'a
  | Push_47 'a | Push_57 | Push_58 | Push_59 | Push_60
  | Pop_65 | Pop_66 | Pop_67 | Pop_sleep | Pop_woken | Pop_70 | Pop_71 | Pop_72
  | Pop_77 'a | Pop_78 'a | Pop_79 'a | Pop_80 'a

record 'a pcq_state =
  queue :: "'a pc_queue"
  held :: "pcq_lock \<Rightarrow> nat option"
  pc :: "nat \<Rightarrow> 'a pc"

datatype 'a event = Tau | Pushed 'a | Popped 'a

definition goto :: "nat \<Rightarrow> 'a pc \<Rightarrow> 'a pcq_state \<Rightarrow> 'a pcq_state" where
  "goto i p s = s\<lparr>pc := (pc s)(i := p)\<rparr>"

definition acquire :: "nat \<Rightarrow> pcq_lock \<Rightarrow> 'a pcq_state \<Rightarrow> 'a pcq_state" where
  "acquire i l s = s\<lparr>held := (held s)(l := Some i)\<rparr>"

definition release :: "pcq_lock \<Rightarrow> 'a pcq_state \<Rightarrow> 'a pcq_state" where
  "release l s = s\<lparr>held := (held s)(l := None)\<rparr>"

definition set_queue :: "'a pc_queue \<Rightarrow> 'a pcq_state \<Rightarrow> 'a pcq_state" where
  "set_queue q s = s\<lparr>queue := q\<rparr>"

lemma pcq_state_simps [simp]:
  "queue (goto i p s) = queue s" "held (goto i p s) = held s" "pc (goto i p s) = (pc s)(i := p)"
  "queue (acquire i l s) = queue s" "held (acquire i l s) = (held s)(l := Some i)"
  "pc (acquire i l s) = pc s"
  "queue (release l s) = queue s" "held (release l s) = (held s)(l := None)"
  "pc (release l s) = pc s"
  "queue (set_queue q s) = q" "held (set_queue q s) = held s" "pc (set_queue q s) = pc s"
  by (simp_all add: goto_def acquire_def release_def set_queue_def)

section \<open>Steps\<close>

text \<open>\<open>pcq_enqueue\<close>, lines 39 to 62.\<close>

inductive push_step :: "nat \<Rightarrow> 'a pcq_state \<Rightarrow> 'a event \<Rightarrow> 'a pcq_state \<Rightarrow> bool" for i where
  push_40: "pc s i = Push_40 x \<Longrightarrow> held s Pusher_lock = None \<Longrightarrow>
    push_step i s Tau (goto i (Push_41 x) (acquire i Pusher_lock s))"
| push_41_full: "pc s i = Push_41 x \<Longrightarrow> pcq_current_size (queue s) = pcq_capacity (queue s) \<Longrightarrow>
    push_step i s Tau (goto i (Push_42 x) s)"
| push_42: "pc s i = Push_42 x \<Longrightarrow> push_step i s Tau (goto i (Push_sleep x) (release Pusher_lock s))"
| push_wake: "pc s i = Push_woken x \<Longrightarrow> held s Pusher_lock = None \<Longrightarrow>
    push_step i s Tau (goto i (Push_41 x) (acquire i Pusher_lock s))"
| push_41_room: "pc s i = Push_41 x \<Longrightarrow> pcq_current_size (queue s) \<noteq> pcq_capacity (queue s) \<Longrightarrow>
    push_step i s Tau (goto i (Push_45 x) s)"
| push_45: "pc s i = Push_45 x \<Longrightarrow> held s Size_lock = None \<Longrightarrow>
    push_step i s Tau (goto i (Push_46 x) (acquire i Size_lock s))"
| push_46: "pc s i = Push_46 x \<Longrightarrow> held s Head_lock = None \<Longrightarrow>
    push_step i s Tau (goto i (Push_47 x) (acquire i Head_lock s))"
| push_47: "pc s i = Push_47 x \<Longrightarrow> enqueue_section x (queue s) = Inr ((), q) \<Longrightarrow>
    push_step i s (Pushed x) (goto i Push_57 (set_queue q s))"
| push_57: "pc s i = Push_57 \<Longrightarrow> push_step i s Tau (goto i Push_58 (release Head_lock s))"
| push_58: "pc s i = Push_58 \<Longrightarrow> push_step i s Tau (goto i Push_59 (release Size_lock s))"
| push_59: "pc s i = Push_59 \<Longrightarrow> push_step i s Tau (goto i Push_60 (release Pusher_lock s))"
| push_60_wakes: "pc s i = Push_60 \<Longrightarrow> pc s j = Pop_sleep \<Longrightarrow>
    push_step i s Tau (goto i Idle (goto j Pop_woken s))"
| push_60_nobody: "pc s i = Push_60 \<Longrightarrow> (\<And>j. pc s j \<noteq> Pop_sleep) \<Longrightarrow>
    push_step i s Tau (goto i Idle s)"

text \<open>\<open>pcq_dequeue\<close>, lines 64 to 82.\<close>

inductive pop_step :: "nat \<Rightarrow> 'a pcq_state \<Rightarrow> 'a event \<Rightarrow> 'a pcq_state \<Rightarrow> bool" for i where
  pop_65: "pc s i = Pop_65 \<Longrightarrow> held s Popper_lock = None \<Longrightarrow>
    pop_step i s Tau (goto i Pop_66 (acquire i Popper_lock s))"
| pop_66_empty: "pc s i = Pop_66 \<Longrightarrow> pcq_current_size (queue s) = 0 \<Longrightarrow>
    pop_step i s Tau (goto i Pop_67 s)"
| pop_67: "pc s i = Pop_67 \<Longrightarrow> pop_step i s Tau (goto i Pop_sleep (release Popper_lock s))"
| pop_wake: "pc s i = Pop_woken \<Longrightarrow> held s Popper_lock = None \<Longrightarrow>
    pop_step i s Tau (goto i Pop_66 (acquire i Popper_lock s))"
| pop_66_some: "pc s i = Pop_66 \<Longrightarrow> pcq_current_size (queue s) \<noteq> 0 \<Longrightarrow>
    pop_step i s Tau (goto i Pop_70 s)"
| pop_70: "pc s i = Pop_70 \<Longrightarrow> held s Size_lock = None \<Longrightarrow>
    pop_step i s Tau (goto i Pop_71 (acquire i Size_lock s))"
| pop_71: "pc s i = Pop_71 \<Longrightarrow> held s Tail_lock = None \<Longrightarrow>
    pop_step i s Tau (goto i Pop_72 (acquire i Tail_lock s))"
| pop_72: "pc s i = Pop_72 \<Longrightarrow> dequeue_section (queue s) = Inr (x, q) \<Longrightarrow>
    pop_step i s (Popped x) (goto i (Pop_77 x) (set_queue q s))"
| pop_77: "pc s i = Pop_77 x \<Longrightarrow> pop_step i s Tau (goto i (Pop_78 x) (release Tail_lock s))"
| pop_78: "pc s i = Pop_78 x \<Longrightarrow> pop_step i s Tau (goto i (Pop_79 x) (release Size_lock s))"
| pop_79: "pc s i = Pop_79 x \<Longrightarrow> pop_step i s Tau (goto i (Pop_80 x) (release Popper_lock s))"
| pop_80_wakes: "pc s i = Pop_80 x \<Longrightarrow> pc s j = Push_sleep y \<Longrightarrow>
    pop_step i s Tau (goto i Idle (goto j (Push_woken y) s))"
| pop_80_nobody: "pc s i = Pop_80 x \<Longrightarrow> (\<And>j y. pc s j \<noteq> Push_sleep y) \<Longrightarrow>
    pop_step i s Tau (goto i Idle s)"

text \<open>Calls by the environment, spurious wake-ups, and the steps of any thread.\<close>

inductive pcq_step :: "'a pcq_state \<Rightarrow> 'a event \<Rightarrow> 'a pcq_state \<Rightarrow> bool" where
  call_push: "pc s i = Idle \<Longrightarrow> pcq_step s Tau (goto i (Push_40 x) s)"
| call_pop: "pc s i = Idle \<Longrightarrow> pcq_step s Tau (goto i Pop_65 s)"
| spurious_push: "pc s i = Push_sleep x \<Longrightarrow> pcq_step s Tau (goto i (Push_woken x) s)"
| spurious_pop: "pc s i = Pop_sleep \<Longrightarrow> pcq_step s Tau (goto i Pop_woken s)"
| push: "push_step i s e t \<Longrightarrow> pcq_step s e t"
| pop: "pop_step i s e t \<Longrightarrow> pcq_step s e t"

inductive pcq_run :: "'a pcq_state \<Rightarrow> 'a event list \<Rightarrow> 'a pcq_state \<Rightarrow> bool" where
  none: "pcq_run s [] s"
| more: "pcq_run s es t \<Longrightarrow> pcq_step t e u \<Longrightarrow> pcq_run s (es @ [e]) u"

text \<open>All threads outside the queue and no lock held.\<close>

definition pcq_start :: "'a pc_queue \<Rightarrow> 'a pcq_state" where
  "pcq_start q = \<lparr>queue = q, held = (\<lambda>_. None), pc = (\<lambda>_. Idle)\<rparr>"

section \<open>The invariant\<close>

fun holds :: "'a pc \<Rightarrow> pcq_lock set" where
  "holds (Push_41 x) = {Pusher_lock}"
| "holds (Push_42 x) = {Pusher_lock}"
| "holds (Push_45 x) = {Pusher_lock}"
| "holds (Push_46 x) = {Pusher_lock, Size_lock}"
| "holds (Push_47 x) = {Pusher_lock, Size_lock, Head_lock}"
| "holds Push_57 = {Pusher_lock, Size_lock, Head_lock}"
| "holds Push_58 = {Pusher_lock, Size_lock}"
| "holds Push_59 = {Pusher_lock}"
| "holds Pop_66 = {Popper_lock}"
| "holds Pop_67 = {Popper_lock}"
| "holds Pop_70 = {Popper_lock}"
| "holds Pop_71 = {Popper_lock, Size_lock}"
| "holds Pop_72 = {Popper_lock, Size_lock, Tail_lock}"
| "holds (Pop_77 x) = {Popper_lock, Size_lock, Tail_lock}"
| "holds (Pop_78 x) = {Popper_lock, Size_lock}"
| "holds (Pop_79 x) = {Popper_lock}"
| "holds _ = {}"

text \<open>The lock a thread waits for.\<close>

fun wants :: "'a pc \<Rightarrow> pcq_lock option" where
  "wants (Push_40 x) = Some Pusher_lock"
| "wants (Push_woken x) = Some Pusher_lock"
| "wants (Push_45 x) = Some Size_lock"
| "wants (Push_46 x) = Some Head_lock"
| "wants Pop_65 = Some Popper_lock"
| "wants Pop_woken = Some Popper_lock"
| "wants Pop_70 = Some Size_lock"
| "wants Pop_71 = Some Tail_lock"
| "wants _ = None"

text \<open>Threads that found room, and threads that found an element.\<close>

fun will_push :: "'a pc \<Rightarrow> bool" where
  "will_push (Push_45 x) = True"
| "will_push (Push_46 x) = True"
| "will_push (Push_47 x) = True"
| "will_push _ = False"

fun will_pop :: "'a pc \<Rightarrow> bool" where
  "will_pop Pop_70 = True"
| "will_pop Pop_71 = True"
| "will_pop Pop_72 = True"
| "will_pop _ = False"

definition pcq_inv :: "'a pcq_state \<Rightarrow> bool" where
  "pcq_inv s \<longleftrightarrow>
     pcq_wf (queue s) \<and>
     (\<forall>i l. held s l = Some i \<longleftrightarrow> l \<in> holds (pc s i)) \<and>
     (\<forall>i. will_push (pc s i) \<longrightarrow> pcq_current_size (queue s) < pcq_capacity (queue s)) \<and>
     (\<forall>i. will_pop (pc s i) \<longrightarrow> 0 < pcq_current_size (queue s))"

lemma pcq_invD:
  assumes "pcq_inv s"
  shows "pcq_wf (queue s)" and "held s l = Some i \<longleftrightarrow> l \<in> holds (pc s i)"
    and "will_push (pc s i) \<Longrightarrow> pcq_current_size (queue s) < pcq_capacity (queue s)"
    and "will_pop (pc s i) \<Longrightarrow> 0 < pcq_current_size (queue s)"
  using assms by (auto simp: pcq_inv_def)

lemma inv_goto:
  assumes "pcq_inv s" and "holds p = holds (pc s i)"
    and "will_push p \<Longrightarrow> pcq_current_size (queue s) < pcq_capacity (queue s)"
    and "will_pop p \<Longrightarrow> 0 < pcq_current_size (queue s)"
  shows "pcq_inv (goto i p s)"
  using assms by (auto simp: pcq_inv_def)

lemma inv_acquire:
  assumes "pcq_inv s" and "held s l = None" and "holds p = insert l (holds (pc s i))"
    and "will_push p \<Longrightarrow> will_push (pc s i)" and "will_pop p \<Longrightarrow> will_pop (pc s i)"
  shows "pcq_inv (goto i p (acquire i l s))"
proof -
  have "l \<notin> holds (pc s j)" for j using pcq_invD(2) [OF assms(1), of l j] assms(2) by simp
  with assms show ?thesis by (auto simp: pcq_inv_def)
qed

lemma inv_release:
  assumes "pcq_inv s" and "l \<in> holds (pc s i)" and "holds p = holds (pc s i) - {l}"
    and "\<not> will_push p" and "\<not> will_pop p"
  shows "pcq_inv (goto i p (release l s))"
proof -
  have "held s l = Some i" using pcq_invD(2) [OF assms(1), of l i] assms(2) by simp
  then have "l \<notin> holds (pc s j)" if "j \<noteq> i" for j
    using pcq_invD(2) [OF assms(1), of l j] that by auto
  with assms show ?thesis by (auto simp: pcq_inv_def)
qed

text \<open>Only one thread at a time is past its test on each side.\<close>

lemma will_push_holds: "will_push p \<Longrightarrow> Pusher_lock \<in> holds p"
  by (cases p) simp_all

lemma will_pop_holds: "will_pop p \<Longrightarrow> Popper_lock \<in> holds p"
  by (cases p) simp_all

lemma lock_owner_unique:
  "pcq_inv s \<Longrightarrow> l \<in> holds (pc s i) \<Longrightarrow> l \<in> holds (pc s j) \<Longrightarrow> i = j"
  using pcq_invD(2) [of s l i] pcq_invD(2) [of s l j] by simp

lemma inv_pushed:
  assumes inv: "pcq_inv s" and i: "pc s i = Push_47 x"
    and e: "enqueue_section x (queue s) = Inr ((), q)"
  shows "pcq_inv (goto i Push_57 (set_queue q s))" and "pcq_list q = pcq_list (queue s) @ [x]"
proof -
  have "pcq_current_size (queue s) < pcq_capacity (queue s)"
    using pcq_invD(3) [OF inv, of i] i by simp
  from enqueue_exec [OF pcq_invD(1) [OF inv] this, of x] e have
    q: "pcq_wf q" "pcq_list q = pcq_list (queue s) @ [x]" "0 < pcq_current_size q" by auto
  then show "pcq_list q = pcq_list (queue s) @ [x]" by simp
  have "\<not> will_push (pc s j)" if "j \<noteq> i" for j
    using lock_owner_unique [OF inv, of Pusher_lock i j] will_push_holds [of "pc s j"] i that by auto
  with q pcq_invD(2) [OF inv] i show "pcq_inv (goto i Push_57 (set_queue q s))"
    by (auto simp: pcq_inv_def)
qed

lemma inv_popped:
  assumes inv: "pcq_inv s" and i: "pc s i = Pop_72"
    and e: "dequeue_section (queue s) = Inr (x, q)"
  shows "pcq_inv (goto i (Pop_77 x) (set_queue q s))" and "pcq_list (queue s) = x # pcq_list q"
proof -
  have "0 < pcq_current_size (queue s)" using pcq_invD(4) [OF inv, of i] i by simp
  from dequeue_exec [OF pcq_invD(1) [OF inv] this] e have
    q: "pcq_wf q" "pcq_list (queue s) = x # pcq_list q"
      "Suc (pcq_current_size q) = pcq_current_size (queue s)" "pcq_capacity q = pcq_capacity (queue s)"
    by auto
  then show "pcq_list (queue s) = x # pcq_list q" by simp
  have "\<not> will_pop (pc s j)" if "j \<noteq> i" for j
    using lock_owner_unique [OF inv, of Popper_lock i j] will_pop_holds [of "pc s j"] i that by auto
  moreover have "pcq_current_size q < pcq_capacity q"
    using q(3,4) pcq_invD(1) [OF inv] by (simp add: pcq_wf_def)
  ultimately show "pcq_inv (goto i (Pop_77 x) (set_queue q s))"
    using q(1) pcq_invD(2) [OF inv] i by (auto simp: pcq_inv_def)
qed

lemma size_not_full: "pcq_wf q \<Longrightarrow> pcq_current_size q \<noteq> pcq_capacity q \<Longrightarrow>
    pcq_current_size q < pcq_capacity q"
  by (simp add: pcq_wf_def)

lemma inv_signal:
  assumes "pcq_inv s" and "holds (pc s i) = {}" and "holds (pc s j) = {}" and "holds p = {}"
    and "\<not> will_push p" and "\<not> will_pop p"
  shows "pcq_inv (goto i Idle (goto j p s))"
proof -
  have "pcq_inv (goto j p s)" using assms by (intro inv_goto) simp_all
  then show ?thesis using assms by (intro inv_goto) simp_all
qed

lemma push_step_inv: "push_step i s e t \<Longrightarrow> pcq_inv s \<Longrightarrow> pcq_inv t"
proof (induction rule: push_step.induct)
  case (push_41_room s x)
  then show ?case using size_not_full [OF pcq_invD(1)] by (intro inv_goto) simp_all
next
  case (push_47 s x q)
  then show ?case by (intro inv_pushed(1))
next
  case (push_41_full s x)
  then show ?case by (intro inv_goto) simp_all
next
  case (push_60_wakes s j)
  then show ?case by (intro inv_signal) simp_all
next
  case (push_60_nobody s)
  then show ?case by (intro inv_goto) simp_all
qed (auto intro!: inv_acquire inv_release)

lemma pop_step_inv: "pop_step i s e t \<Longrightarrow> pcq_inv s \<Longrightarrow> pcq_inv t"
proof (induction rule: pop_step.induct)
  case (pop_66_some s)
  then show ?case by (intro inv_goto) simp_all
next
  case (pop_72 s x q)
  then show ?case by (intro inv_popped(1))
next
  case (pop_66_empty s)
  then show ?case by (intro inv_goto) simp_all
next
  case (pop_80_wakes s x j y)
  then show ?case by (intro inv_signal) simp_all
next
  case (pop_80_nobody s x)
  then show ?case by (intro inv_goto) simp_all
qed (auto intro!: inv_acquire inv_release)

lemma pcq_step_inv: "pcq_step s e t \<Longrightarrow> pcq_inv s \<Longrightarrow> pcq_inv t"
proof (induction rule: pcq_step.induct)
  case (push i s e t)
  then show ?case by (rule push_step_inv)
next
  case (pop i s e t)
  then show ?case by (rule pop_step_inv)
qed (auto intro!: inv_goto)

lemma pcq_start_inv: "pcq_wf q \<Longrightarrow> pcq_inv (pcq_start q)"
  by (simp add: pcq_inv_def pcq_start_def)

section \<open>What goes in and out\<close>

fun event_in :: "'a event \<Rightarrow> 'a list" where
  "event_in (Pushed x) = [x]"
| "event_in _ = []"

fun event_out :: "'a event \<Rightarrow> 'a list" where
  "event_out (Popped x) = [x]"
| "event_out _ = []"

abbreviation pushes :: "'a event list \<Rightarrow> 'a list" where
  "pushes es \<equiv> concat (map event_in es)"

abbreviation pops :: "'a event list \<Rightarrow> 'a list" where
  "pops es \<equiv> concat (map event_out es)"

lemma push_step_items:
  "push_step i s e t \<Longrightarrow> pcq_inv s \<Longrightarrow>
   pcq_list (queue t) = pcq_list (queue s) @ event_in e \<and> event_out e = []"
  by (induction rule: push_step.induct) (simp_all add: inv_pushed(2))

lemma pop_step_items:
  "pop_step i s e t \<Longrightarrow> pcq_inv s \<Longrightarrow>
   event_out e @ pcq_list (queue t) = pcq_list (queue s) \<and> event_in e = []"
  by (induction rule: pop_step.induct) (simp_all add: inv_popped(2))

lemma pcq_step_items:
  "pcq_step s e t \<Longrightarrow> pcq_inv s \<Longrightarrow>
   event_out e @ pcq_list (queue t) = pcq_list (queue s) @ event_in e"
proof (induction rule: pcq_step.induct)
  case (push i s e t)
  then show ?case using push_step_items by fastforce
next
  case (pop i s e t)
  then show ?case using pop_step_items by fastforce
qed simp_all

lemma pcq_run_inv: "pcq_run s es t \<Longrightarrow> pcq_inv s \<Longrightarrow> pcq_inv t"
  by (induction rule: pcq_run.induct) (auto intro: pcq_step_inv)

lemma pcq_run_items:
  "pcq_run s es t \<Longrightarrow> pcq_inv s \<Longrightarrow>
   pcq_list (queue s) @ pushes es = pops es @ pcq_list (queue t)"
proof (induction rule: pcq_run.induct)
  case (none s)
  then show ?case by simp
next
  case (more s es t e u)
  have "event_out e @ pcq_list (queue u) = pcq_list (queue t) @ event_in e"
    using more.hyps(2) pcq_run_inv [OF more.hyps(1) more.prems] by (rule pcq_step_items)
  with more.IH [OF more.prems] have "(pcq_list (queue s) @ pushes es) @ event_in e =
      pops es @ event_out e @ pcq_list (queue u)" by simp
  then show ?case by simp
qed

section \<open>Lock order and progress\<close>

text \<open>Every thread takes its locks in increasing order.\<close>

lemma wants_above: "wants p = Some l \<Longrightarrow> k \<in> holds p \<Longrightarrow> k < l"
  by (cases p) (auto simp: less_pcq_lock_def)

fun asleep :: "'a pc \<Rightarrow> bool" where
  "asleep (Push_sleep x) = True"
| "asleep Pop_sleep = True"
| "asleep _ = False"

lemma holds_awake: "l \<in> holds p \<Longrightarrow> p \<noteq> Idle \<and> \<not> asleep p"
  by (cases p) simp_all

text \<open>A thread in the middle of a call can go on as soon as the lock it wants is free.\<close>

text \<open>A thread that wants a lock has a step when the lock is free; so has one that wants none and is awake.\<close>

lemma wanting_enabled:
  assumes "wants (pc s i) = Some l" and "held s l = None"
  shows "\<exists>e t. push_step i s e t \<or> pop_step i s e t"
  using assms
  by (cases "pc s i") (auto intro: push_step.push_40 push_step.push_wake push_step.push_45 push_step.push_46
    pop_step.pop_65 pop_step.pop_wake pop_step.pop_70 pop_step.pop_71)

lemma signals_enabled:
  assumes "pc s i = Push_60 \<or> (\<exists>x. pc s i = Pop_80 x)"
  shows "\<exists>e t. push_step i s e t \<or> pop_step i s e t"
  using assms
proof (elim disjE exE)
  assume "pc s i = Push_60"
  then show ?thesis
    by (cases "\<exists>j. pc s j = Pop_sleep") (blast intro: push_step.push_60_wakes push_step.push_60_nobody)+
next
  fix x assume "pc s i = Pop_80 x"
  then show ?thesis
    by (cases "\<exists>j y. pc s j = Push_sleep y") (blast intro: pop_step.pop_80_wakes pop_step.pop_80_nobody)+
qed

lemma critical_enabled:
  assumes inv: "pcq_inv s" and "pc s i = Pop_72 \<or> (\<exists>x. pc s i = Push_47 x)"
  shows "\<exists>e t. push_step i s e t \<or> pop_step i s e t"
  using assms(2)
proof (elim disjE exE)
  assume p: "pc s i = Pop_72"
  then have "0 < pcq_current_size (queue s)" using pcq_invD(4) [OF inv, of i] by simp
  from dequeue_exec [OF pcq_invD(1) [OF inv] this] p show ?thesis by (blast intro: pop_step.pop_72)
next
  fix x assume p: "pc s i = Push_47 x"
  then have "pcq_current_size (queue s) < pcq_capacity (queue s)" using pcq_invD(3) [OF inv, of i] by simp
  from enqueue_exec [OF pcq_invD(1) [OF inv] this, of x] p show ?thesis by (blast intro: push_step.push_47)
qed

lemma push_enabled:
  assumes inv: "pcq_inv s" and free: "\<And>l. wants (pc s i) = Some l \<Longrightarrow> held s l = None"
    and awake: "pc s i \<noteq> Idle" "\<not> asleep (pc s i)"
  shows "\<exists>e t. push_step i s e t \<or> pop_step i s e t"
proof (cases "wants (pc s i)")
  case (Some l)
  with free wanting_enabled show ?thesis by blast
next
  case None
  show ?thesis
  proof (cases "pc s i")
    case (Push_41 x)
    then show ?thesis
      by (cases "pcq_current_size (queue s) = pcq_capacity (queue s)")
        (blast intro: push_step.push_41_full push_step.push_41_room)+
  next
    case Pop_66
    then show ?thesis
      by (cases "pcq_current_size (queue s) = 0")
        (blast intro: pop_step.pop_66_empty pop_step.pop_66_some)+
  qed (use None awake in \<open>auto intro: signals_enabled critical_enabled [OF inv] push_step.push_42 push_step.push_57
      push_step.push_58 push_step.push_59 pop_step.pop_67 pop_step.pop_77 pop_step.pop_78 pop_step.pop_79\<close>)
qed

fun wanted_rank :: "'a pc \<Rightarrow> nat" where
  "wanted_rank p = (case wants p of None \<Rightarrow> 5 | Some l \<Rightarrow> lock_rank l)"

lemma lock_rank_bound: "lock_rank l < 5"
  by (cases l) simp_all

lemma pcq_progress:
  assumes inv: "pcq_inv s" and "pc s i \<noteq> Idle" and "\<not> asleep (pc s i)"
  shows "\<exists>j e t. push_step j s e t \<or> pop_step j s e t"
  using assms(2,3)
proof (induction "5 - wanted_rank (pc s i)" arbitrary: i rule: less_induct)
  case less
  show ?case
  proof (cases "\<exists>l j. wants (pc s i) = Some l \<and> held s l = Some j")
    case False
    then have "held s l = None" if "wants (pc s i) = Some l" for l using that by auto
    from push_enabled [OF inv this less.prems] show ?thesis by blast
  next
    case True
    then obtain l j where l: "wants (pc s i) = Some l" "held s l = Some j" by blast
    then have h: "l \<in> holds (pc s j)" using pcq_invD(2) [OF inv] by simp
    have "wanted_rank (pc s i) < wanted_rank (pc s j)"
      using l(1) lock_rank_bound [of l] wants_above [OF _ h]
      by (cases "wants (pc s j)") (simp_all add: less_pcq_lock_def)
    moreover have "wanted_rank (pc s i) < 5" using l(1) lock_rank_bound [of l] by simp
    ultimately have "5 - wanted_rank (pc s j) < 5 - wanted_rank (pc s i)" by simp
    from less.hyps [OF this] holds_awake [OF h] show ?thesis by blast
  qed
qed

end
