(* ===== verification/PCQ_Correct.thy ===== *)
theory PCQ_Correct
  imports PCQ_Threads
begin

text \<open>
  What the queue of the broker guarantees, and two behaviours of it that lose or repeat work.
\<close>

section \<open>One thread\<close>

lemma pcq_step_capacity: "pcq_step s e t \<Longrightarrow> pcq_inv s \<Longrightarrow> pcq_capacity (queue t) = pcq_capacity (queue s)"
proof (induction rule: pcq_step.induct)
  case (push i s e t)
  then show ?case
  proof (induction rule: push_step.induct)
    case (push_47 s x q)
    then have "pcq_current_size (queue s) < pcq_capacity (queue s)"
      using pcq_invD(3) [of s i] by simp
    from enqueue_exec [OF pcq_invD(1) [OF push_47(3)] this, of x] push_47(2) show ?case by auto
  qed simp_all
next
  case (pop i s e t)
  then show ?case
  proof (induction rule: pop_step.induct)
    case (pop_72 s x q)
    then have "0 < pcq_current_size (queue s)" using pcq_invD(4) [of s i] by simp
    from dequeue_exec [OF pcq_invD(1) [OF pop_72(3)] this] pop_72(2) show ?case by auto
  qed simp_all
qed simp_all

lemma pcq_run_capacity:
  "pcq_run s es t \<Longrightarrow> pcq_inv s \<Longrightarrow> pcq_capacity (queue t) = pcq_capacity (queue s)"
  by (induction rule: pcq_run.induct) (auto simp: pcq_step_capacity pcq_run_inv)

text \<open>A concrete queue with room for two tasks.\<close>

definition demo_queue :: "nat pc_queue" where
  "demo_queue = \<lparr>pcq_buffer = [0, 0, 0, 0], pcq_capacity = 2, pcq_current_size = 0,
     pcq_head = 0, pcq_tail = 0\<rparr>"

lemma demo_queue_wf: "pcq_wf demo_queue" "pcq_list demo_queue = []" "pcq_capacity demo_queue = 2"
  by (simp_all add: pcq_wf_def pcq_list_def demo_queue_def)

definition one_task :: "nat pc_queue" where
  "one_task = \<lparr>pcq_buffer = [7, 0, 0, 0], pcq_capacity = 2, pcq_current_size = Suc 0,
     pcq_head = 0, pcq_tail = 0\<rparr>"

lemma one_task_wf: "pcq_wf one_task" "pcq_list one_task = [7]" "pcq_current_size one_task = Suc 0"
  by (simp_all add: pcq_wf_def pcq_list_def one_task_def)

lemma enqueue_demo: "enqueue_section 7 demo_queue = Inr ((), one_task)"
  by (simp add: enqueue_section_def set_buffer_def exec_simps demo_queue_def one_task_def)

text \<open>Tasks leave the queue in the order they entered it: after inserting any list of tasks that
  fits, removing all tasks gives the old contents, oldest first, followed by the inserted tasks,
  and leaves the queue empty.  No insertion or removal touches the array out of bounds.\<close>

theorem pcq_first_in_first_out:
  assumes "pcq_wf q" and "length (pcq_list q) + length xs \<le> pcq_capacity q"
  shows "\<exists>t u. enq_all enqueue_section xs q = Inr ((), t) \<and>
    deq_all dequeue_section (length (pcq_list q) + length xs) t = Inr (pcq_list q @ xs, u) \<and>
    pcq_list u = []"
  using assms by (rule pcq.enq_deq_all)

theorem pcq_first_in_first_out_witness:
  "\<exists>t u. enq_all enqueue_section [3, 4] demo_queue = Inr ((), t) \<and>
    deq_all dequeue_section (length (pcq_list demo_queue) + length [3, 4 :: nat]) t =
      Inr (pcq_list demo_queue @ [3, 4], u) \<and> pcq_list u = []"
  by (rule pcq_first_in_first_out) (simp_all add: demo_queue_wf)

lemma pcq_list_rev:
  "rev (pcq_list q) = take (pcq_current_size q) (drop (pcq_head q) (pcq_buffer q))"
  by (simp add: pcq_list_def)

text \<open>Destroying a queue frees the tasks that are in it and nothing else, when it has at least
  one.\<close>

theorem pcq_destroy_frees_tasks:
  assumes wf: "pcq_wf q" and some: "pcq_list q \<noteq> []"
  shows "pcq_destroy q = Inr (rev (pcq_list q), q\<lparr>pcq_buffer := []\<rparr>)"
proof -
  from some obtain m where m: "pcq_current_size q = Suc m"
    by (cases "pcq_current_size q") (simp_all add: pcq_list_def)
  then have w: "pcq_head q + Suc m \<le> length (pcq_buffer q)" "pcq_tail q = pcq_head q + m"
    using wf by (simp_all add: pcq_wf_def)
  then have "destroy_loop (pcq_buffer q) (pcq_head q) (pcq_tail q) = Inr (rev (pcq_list q))"
    using destroy_loop_exec [of "pcq_head q" "pcq_tail q" "pcq_buffer q"] m
    by (simp add: pcq_list_rev Suc_diff_le)
  then show ?thesis by (simp add: pcq_destroy_def exec_simps)
qed

theorem pcq_destroy_frees_tasks_witness:
  "pcq_destroy one_task = Inr (rev (pcq_list one_task), one_task\<lparr>pcq_buffer := []\<rparr>)"
  by (rule pcq_destroy_frees_tasks) (simp_all add: one_task_wf)

text \<open>On an empty queue \<open>pcq_destroy\<close> still frees one slot of the array, since its loop runs
  from \<open>pcq_head\<close> to \<open>pcq_tail\<close> inclusive: after the last task was removed it frees that task,
  which belongs to whoever removed it.\<close>

theorem pcq_destroy_frees_removed_task:
  assumes wf: "pcq_wf q" and one: "pcq_list q = [x]"
  shows "\<exists>t. dequeue_section q = Inr (x, t) \<and> pcq_list t = [] \<and>
    pcq_destroy t = Inr ([x], t\<lparr>pcq_buffer := []\<rparr>)"
proof -
  have n: "pcq_current_size q = Suc 0" using length_pcq_list [OF wf] one by simp
  then have w: "pcq_head q < length (pcq_buffer q)" "pcq_tail q = pcq_head q"
    using wf by (simp_all add: pcq_wf_def)
  then have x: "pcq_buffer q ! pcq_head q = x"
    using one n by (simp add: pcq_list_def take_Suc_conv_app_nth)
  let ?t = "q\<lparr>pcq_current_size := 0\<rparr>"
  have "dequeue_section q = Inr (x, ?t)"
    using w x n by (simp add: dequeue_section_def exec_simps)
  moreover have "destroy_loop (pcq_buffer q) (pcq_head q) (pcq_head q) = Inr [x]"
    using destroy_loop_exec [of "pcq_head q" "pcq_head q" "pcq_buffer q"] w x
    by (simp add: take_Suc_conv_app_nth)
  then have "pcq_destroy ?t = Inr ([x], ?t\<lparr>pcq_buffer := []\<rparr>)"
    using w by (simp add: pcq_destroy_def exec_simps)
  ultimately show ?thesis by (intro exI [of _ ?t]) (simp add: pcq_list_def)
qed

theorem pcq_destroy_frees_removed_task_witness:
  "\<exists>t. dequeue_section one_task = Inr (7, t) \<and> pcq_list t = [] \<and>
    pcq_destroy t = Inr ([7], t\<lparr>pcq_buffer := []\<rparr>)"
  by (rule pcq_destroy_frees_removed_task) (simp_all add: one_task_wf)

section \<open>Many threads\<close>

lemma pcq_extend:
  assumes "\<exists>es. pcq_run r es s" and "pcq_step s e t"
  shows "\<exists>es. pcq_run r es t"
  using assms by (auto intro: pcq_run.more)

text \<open>A thread inserts a task without being disturbed, up to the signal.\<close>

lemma push_alone:
  assumes run: "pcq_run r es s" and idle: "pc s i = Idle"
    and free: "held s Pusher_lock = None" "held s Size_lock = None" "held s Head_lock = None"
    and room: "pcq_current_size (queue s) \<noteq> pcq_capacity (queue s)"
    and sec: "enqueue_section x (queue s) = Inr ((), q)"
  shows "\<exists>fs. pcq_run r fs (goto i Push_60 (set_queue q s))"
proof -
  let ?a = "goto i (Push_40 x) s"
  let ?b = "goto i (Push_41 x) (acquire i Pusher_lock ?a)"
  let ?c = "goto i (Push_45 x) ?b"
  let ?d = "goto i (Push_46 x) (acquire i Size_lock ?c)"
  let ?e = "goto i (Push_47 x) (acquire i Head_lock ?d)"
  let ?f = "goto i Push_57 (set_queue q ?e)"
  let ?g = "goto i Push_58 (release Head_lock ?f)"
  let ?h = "goto i Push_59 (release Size_lock ?g)"
  let ?j = "goto i Push_60 (release Pusher_lock ?h)"
  from run have "\<exists>es. pcq_run r es s" by blast
  then have "\<exists>es. pcq_run r es ?a"
    by (rule pcq_extend) (rule pcq_step.call_push, rule idle)
  then have "\<exists>es. pcq_run r es ?b"
    by (rule pcq_extend) (rule pcq_step.push [OF push_step.push_40], simp_all add: free)
  then have "\<exists>es. pcq_run r es ?c"
    by (rule pcq_extend) (rule pcq_step.push [OF push_step.push_41_room], simp_all add: room)
  then have "\<exists>es. pcq_run r es ?d"
    by (rule pcq_extend) (rule pcq_step.push [OF push_step.push_45], simp_all add: free)
  then have "\<exists>es. pcq_run r es ?e"
    by (rule pcq_extend) (rule pcq_step.push [OF push_step.push_46], simp_all add: free)
  then have "\<exists>es. pcq_run r es ?f"
    by (rule pcq_extend) (rule pcq_step.push [OF push_step.push_47], simp_all, rule sec)
  then have "\<exists>es. pcq_run r es ?g"
    by (rule pcq_extend) (rule pcq_step.push [OF push_step.push_57], simp)
  then have "\<exists>es. pcq_run r es ?h"
    by (rule pcq_extend) (rule pcq_step.push [OF push_step.push_58], simp)
  then have "\<exists>es. pcq_run r es ?j"
    by (rule pcq_extend) (rule pcq_step.push [OF push_step.push_59], simp)
  moreover have "?j = goto i Push_60 (set_queue q s)"
    using free by (intro pcq_state.equality) auto
  ultimately show ?thesis by simp
qed

text \<open>The steps of a thread that is idle or asleep: none.\<close>

lemma no_step_resting:
  "push_step i s e t \<or> pop_step i s e t \<Longrightarrow> pc s i \<noteq> Idle \<and> \<not> asleep (pc s i)"
  by (auto elim!: push_step.cases pop_step.cases)

lemma pcq_start_fields [simp]:
  "queue (pcq_start q) = q" "held (pcq_start q) l = None" "pc (pcq_start q) i = Idle"
  by (simp_all add: pcq_start_def)

text \<open>C16: Any number of threads may insert and remove at the same time: in every interleaving of
  their steps, spurious wake-ups included, the tasks removed so far, in the order of their removal,
  followed by the tasks still in the queue, are the old contents followed by the tasks inserted so
  far.  So no task is lost, repeated or overtaken, and the queue never exceeds its capacity.\<close>

theorem pcq_threads_first_in_first_out:
  assumes "pcq_wf q" and "pcq_run (pcq_start q) es t"
  shows "pcq_list q @ pushes es = pops es @ pcq_list (queue t) \<and>
    pcq_wf (queue t) \<and> length (pcq_list (queue t)) \<le> pcq_capacity q"
proof -
  note inv = pcq_start_inv [OF assms(1)]
  note run = assms(2)
  have wf: "pcq_wf (queue t)" using pcq_run_inv [OF run inv] by (rule pcq_invD(1))
  moreover have "length (pcq_list (queue t)) \<le> pcq_capacity q"
    using length_pcq_list [OF wf] wf pcq_run_capacity [OF run inv] by (simp add: pcq_wf_def)
  ultimately show ?thesis using pcq_run_items [OF run inv] by simp
qed

lemma one_push:
  "\<exists>fs. pcq_run (pcq_start demo_queue) fs
    (goto (Suc 0) Push_60 (set_queue one_task (pcq_start demo_queue)))"
  by (rule push_alone [OF pcq_run.none, where x = 7])
    (simp_all add: enqueue_demo, simp add: demo_queue_def)

theorem pcq_threads_first_in_first_out_witness:
  "\<exists>es (t :: nat pcq_state). pcq_list demo_queue @ pushes es = pops es @ pcq_list (queue t) \<and>
    pcq_wf (queue t) \<and> length (pcq_list (queue t)) \<le> pcq_capacity demo_queue"
proof -
  from one_push obtain fs where
    "pcq_run (pcq_start demo_queue) fs (goto (Suc 0) Push_60 (set_queue one_task (pcq_start demo_queue)))"
    by blast
  from pcq_threads_first_in_first_out [OF demo_queue_wf(1) this] show ?thesis by (intro exI)
qed

text \<open>C24: Both critical sections are exclusive, and whichever thread reaches one finds the condition
  it waited for still true: an insertion always has room, a removal always has a task, so neither
  faults, in any interleaving.\<close>

theorem pcq_critical_sections_safe:
  assumes "pcq_wf q" and "pcq_run (pcq_start q) es t"
  shows "(pc t i = Push_47 x \<longrightarrow>
      (\<exists>u. enqueue_section x (queue t) = Inr ((), u) \<and> pcq_list u = pcq_list (queue t) @ [x])) \<and>
    (pc t i = Pop_72 \<longrightarrow>
      (\<exists>y u. dequeue_section (queue t) = Inr (y, u) \<and> pcq_list (queue t) = y # pcq_list u)) \<and>
    (Size_lock \<in> holds (pc t i) \<longrightarrow> Size_lock \<in> holds (pc t j) \<longrightarrow> i = j)"
proof -
  have inv: "pcq_inv t" using assms(2) pcq_start_inv [OF assms(1)] by (rule pcq_run_inv)
  note wf = pcq_invD(1) [OF inv]
  have "\<exists>u. enqueue_section x (queue t) = Inr ((), u) \<and> pcq_list u = pcq_list (queue t) @ [x]"
    if "pc t i = Push_47 x"
    using enqueue_exec [OF wf, of x] pcq_invD(3) [OF inv, of i] that by auto
  moreover have "\<exists>y u. dequeue_section (queue t) = Inr (y, u) \<and> pcq_list (queue t) = y # pcq_list u"
    if "pc t i = Pop_72"
    using dequeue_exec [OF wf] pcq_invD(4) [OF inv, of i] that by auto
  ultimately show ?thesis using lock_owner_unique [OF inv] by blast
qed

lemma at_push_47:
  "\<exists>es t. pcq_run (pcq_start demo_queue) es t \<and> pc t 0 = Push_47 7"
proof -
  let ?s = "pcq_start demo_queue"
  let ?a = "goto 0 (Push_40 7) ?s"
  let ?b = "goto 0 (Push_41 7) (acquire 0 Pusher_lock ?a)"
  let ?c = "goto 0 (Push_45 7) ?b"
  let ?d = "goto 0 (Push_46 7) (acquire 0 Size_lock ?c)"
  let ?e = "goto 0 (Push_47 7) (acquire 0 Head_lock ?d)"
  have "\<exists>es. pcq_run ?s es ?s" using pcq_run.none by blast
  then have "\<exists>es. pcq_run ?s es ?a"
    by (rule pcq_extend) (rule pcq_step.call_push, simp)
  then have "\<exists>es. pcq_run ?s es ?b"
    by (rule pcq_extend) (rule pcq_step.push [OF push_step.push_40], simp_all)
  then have "\<exists>es. pcq_run ?s es ?c"
    by (rule pcq_extend) (rule pcq_step.push [OF push_step.push_41_room], simp_all add: demo_queue_def)
  then have "\<exists>es. pcq_run ?s es ?d"
    by (rule pcq_extend) (rule pcq_step.push [OF push_step.push_45], simp_all)
  then have "\<exists>es. pcq_run ?s es ?e"
    by (rule pcq_extend) (rule pcq_step.push [OF push_step.push_46], simp_all)
  moreover have "pc ?e 0 = Push_47 7" by simp
  ultimately show ?thesis by blast
qed

theorem pcq_critical_sections_safe_witness:
  "\<exists>(t :: nat pcq_state) u. pc t 0 = Push_47 7 \<and> enqueue_section 7 (queue t) = Inr ((), u) \<and>
    pcq_list u = pcq_list (queue t) @ [7 :: nat]"
proof -
  from at_push_47 obtain es t where
    t: "pcq_run (pcq_start demo_queue) es t" "pc t 0 = Push_47 7" by blast
  from pcq_critical_sections_safe [OF demo_queue_wf(1) t(1), of 0 7 0] t(2)
  have "\<exists>u. enqueue_section 7 (queue t) = Inr ((), u) \<and> pcq_list u = pcq_list (queue t) @ [7]"
    by simp
  with t(2) show ?thesis by blast
qed

text \<open>The locks of the queue are taken in one order, pusher, popper, size, head, tail: a thread
  that waits for a lock only holds smaller ones, and the holder of a lock never waits for it or a
  smaller one.\<close>

theorem pcq_lock_order:
  assumes "pcq_wf q" and "pcq_run (pcq_start q) es t"
    and "held t l = Some i" and "wants (pc t i) = Some k"
  shows "l < k"
proof -
  have "pcq_inv t" using assms(2) pcq_start_inv [OF assms(1)] by (rule pcq_run_inv)
  then have "l \<in> holds (pc t i)" using assms(3) by (simp add: pcq_invD(2))
  with assms(4) show ?thesis by (rule wants_above)
qed

text \<open>C25: The threads never deadlock: as long as some thread is inside a call and not asleep on a
  condition variable, some thread can take its next step.\<close>

theorem pcq_no_deadlock:
  assumes "pcq_wf q" and "pcq_run (pcq_start q) es t"
    and "pc t i \<noteq> Idle" and "\<not> asleep (pc t i)"
  shows "\<exists>j e u. push_step j t e u \<or> pop_step j t e u"
proof -
  have "pcq_inv t" using assms(2) pcq_start_inv [OF assms(1)] by (rule pcq_run_inv)
  from pcq_progress [OF this assms(3,4)] show ?thesis .
qed

theorem pcq_no_deadlock_witness:
  "\<exists>t :: nat pcq_state. pc t 0 = Push_47 7 \<and> (\<exists>j e u. push_step j t e u \<or> pop_step j t e u)"
proof -
  from at_push_47 obtain es t where t: "pcq_run (pcq_start demo_queue) es t" "pc t 0 = Push_47 7"
    by blast
  have "\<exists>j e u. push_step j t e u \<or> pop_step j t e u"
    by (rule pcq_no_deadlock [OF demo_queue_wf(1) t(1), of 0]) (simp_all add: t(2))
  with t(2) show ?thesis by blast
qed

text \<open>C35: A removal can sleep while there is a task for it: the test of \<open>pcq_current_size\<close> is guarded
  by the popper mutex, which \<open>pcq_enqueue\<close> never takes, so an insertion can run completely, signal
  included, between the test and the moment the thread falls asleep.  In the state reached no
  thread can move: the task waits for the next insertion or a spurious wake-up.\<close>

theorem pcq_lost_wakeup:
  assumes wf: "pcq_wf q" and empty: "pcq_list q = []" and room: "0 < pcq_capacity q"
  shows "\<exists>es t. pcq_run (pcq_start q) es t \<and> pcq_list (queue t) = [x] \<and>
    pc t 0 = Pop_sleep \<and> \<not> (\<exists>i e u. push_step i t e u \<or> pop_step i t e u)"
proof -
  let ?s = "pcq_start q"
  let ?a = "goto 0 Pop_65 ?s"
  let ?b = "goto 0 Pop_66 (acquire 0 Popper_lock ?a)"
  let ?c = "goto 0 Pop_67 ?b"
  have n: "pcq_current_size q = 0" using empty by (simp add: pcq_list_Nil [OF wf])
  from enqueue_exec [OF wf, of x] room empty n obtain r where
    r: "enqueue_section x q = Inr ((), r)" "pcq_list r = [x]" by auto
  have "\<exists>es. pcq_run ?s es ?s" using pcq_run.none by blast
  then have "\<exists>es. pcq_run ?s es ?a" by (rule pcq_extend) (rule pcq_step.call_pop, simp)
  then have "\<exists>es. pcq_run ?s es ?b"
    by (rule pcq_extend) (rule pcq_step.pop [OF pop_step.pop_65], simp_all)
  then have "\<exists>es. pcq_run ?s es ?c"
    by (rule pcq_extend) (rule pcq_step.pop [OF pop_step.pop_66_empty], simp_all add: n)
  then obtain es where "pcq_run ?s es ?c" by blast
  then have "\<exists>es. pcq_run ?s es (goto 1 Push_60 (set_queue r ?c))"
    by (rule push_alone [where x = x]) (use n room r(1) in simp_all)
  moreover have "pcq_step (goto 1 Push_60 (set_queue r ?c)) Tau
      (goto 1 Idle (goto 1 Push_60 (set_queue r ?c)))"
    by (rule pcq_step.push [OF push_step.push_60_nobody]) simp_all
  ultimately have "\<exists>es. pcq_run ?s es (goto 1 Idle (goto 1 Push_60 (set_queue r ?c)))"
    by (rule pcq_extend)
  moreover have "pcq_step (goto 1 Idle (goto 1 Push_60 (set_queue r ?c))) Tau
      (goto 0 Pop_sleep (release Popper_lock (goto 1 Idle (goto 1 Push_60 (set_queue r ?c)))))"
    by (rule pcq_step.pop [OF pop_step.pop_67]) simp_all
  ultimately have "\<exists>es. pcq_run ?s es
      (goto 0 Pop_sleep (release Popper_lock (goto 1 Idle (goto 1 Push_60 (set_queue r ?c)))))"
    by (rule pcq_extend)
  then obtain es t where t: "pcq_run ?s es t"
    "t = goto 0 Pop_sleep (release Popper_lock (goto 1 Idle (goto 1 Push_60 (set_queue r ?c))))"
    by blast
  have rest: "pc t i = Idle \<or> asleep (pc t i)" for i unfolding t(2) by simp
  then have "\<not> (\<exists>i e u. push_step i t e u \<or> pop_step i t e u)" using no_step_resting by blast
  moreover have "pcq_list (queue t) = [x]" "pc t 0 = Pop_sleep" unfolding t(2) using r(2) by simp_all
  ultimately show ?thesis using t(1) by blast
qed

theorem pcq_lost_wakeup_witness:
  "\<exists>es t. pcq_run (pcq_start demo_queue) es t \<and> pcq_list (queue t) = [7] \<and>
    pc t 0 = Pop_sleep \<and> \<not> (\<exists>i e u. push_step i t e u \<or> pop_step i t e u)"
  by (rule pcq_lost_wakeup) (simp_all add: demo_queue_wf)

text \<open>A thread that waits for the size lock while it holds the pusher lock.\<close>

theorem pcq_lock_order_witness:
  "\<exists>(t :: nat pcq_state) l k. held t l = Some 0 \<and> wants (pc t 0) = Some k \<and> l < k"
proof -
  let ?s = "pcq_start demo_queue"
  let ?a = "goto 0 (Push_40 7) ?s"
  let ?b = "goto 0 (Push_41 7) (acquire 0 Pusher_lock ?a)"
  let ?c = "goto 0 (Push_45 7) ?b"
  have "\<exists>es. pcq_run ?s es ?s" using pcq_run.none by blast
  then have "\<exists>es. pcq_run ?s es ?a" by (rule pcq_extend) (rule pcq_step.call_push, simp)
  then have "\<exists>es. pcq_run ?s es ?b"
    by (rule pcq_extend) (rule pcq_step.push [OF push_step.push_40], simp_all)
  then have "\<exists>es. pcq_run ?s es ?c"
    by (rule pcq_extend) (rule pcq_step.push [OF push_step.push_41_room], simp_all add: demo_queue_def)
  then obtain es where r: "pcq_run ?s es ?c" by blast
  have "Pusher_lock < Size_lock"
    by (rule pcq_lock_order [OF demo_queue_wf(1) r, of _ 0]) simp_all
  moreover have "held ?c Pusher_lock = Some 0" "wants (pc ?c 0) = Some Size_lock" by simp_all
  ultimately show ?thesis by blast
qed

end
