(* ===== verification/Protocol.thy ===== *)
theory Protocol
  imports TFS_Prelude "HOL-Library.Word"
begin

text \<open>
  The messages between the broker and its clients: the packed structures of \<open>utils/pipeflow.h\<close>,
  the functions of \<open>utils/writer_stc.c\<close> that lay one out in a line of \<open>MAX_LINE\<close> bytes, and
  those of \<open>utils/reader_stc.c\<close> that take a line apart.  The state of an operation here is the
  buffer; a \<open>memcpy\<close> past the end of the buffer or of its source is a fault.

  \<open>uint8_t\<close>, \<open>int32_t\<close> and \<open>uint64_t\<close> are words (\<open>int32_t\<close> read by \<open>sint\<close>); a character array is
  the list of its bytes.  The pointer \<open>request_lock\<close> of \<open>request_new_password\<close> is owned by it, so
  the request it points to is a component.
\<close>

section \<open>The structures\<close>

definition MAX_PIPE_NAME :: nat where "MAX_PIPE_NAME = 256"
definition MAX_BOX_NAME :: nat where "MAX_BOX_NAME = 32"
definition MAX_LINE :: nat where "MAX_LINE = 1029"
definition MAX_PASSWORD :: nat where "MAX_PASSWORD = 5"

lemmas max_defs = MAX_PIPE_NAME_def MAX_BOX_NAME_def MAX_LINE_def MAX_PASSWORD_def

record request =
  req_code :: "8 word"
  req_pipe_name :: "char list"
  req_box_name :: "char list"
  req_box_password :: "char list"

record messages_pipe =
  msg_code :: "8 word"
  msg_message :: "char list"

record response_manager =
  resp_code :: "8 word"
  resp_return_code :: "32 word"
  resp_error_message :: "char list"

record list_manager_response =
  lr_code :: "8 word"
  lr_last :: "8 word"
  lr_box_name :: "char list"
  lr_box_size :: "64 word"
  lr_n_pubs :: "64 word"
  lr_n_subs :: "64 word"
  lr_box_password :: "char list"

record list_manager_request =
  lq_code :: "8 word"
  lq_pipe_name :: "char list"

record request_new_password =
  np_request_lock :: request
  np_new_password :: "char list"

text \<open>What a \<open>void *\<close> points to.\<close>

datatype object =
    Request request
  | Response response_manager
  | List_response list_manager_response
  | List_request list_manager_request
  | Message messages_pipe
  | New_password request_new_password

section \<open>Bytes in a buffer\<close>

definition u8_bytes :: "8 word \<Rightarrow> char list" where
  "u8_bytes w = le_bytes 1 (unat w)"

definition u8_of :: "char list \<Rightarrow> 8 word" where
  "u8_of bs = word_of_nat (le_val bs)"

definition i32_bytes :: "32 word \<Rightarrow> char list" where
  "i32_bytes w = le_bytes 4 (unat w)"

definition i32_of :: "char list \<Rightarrow> 32 word" where
  "i32_of bs = word_of_nat (le_val bs)"

definition u64_bytes :: "64 word \<Rightarrow> char list" where
  "u64_bytes w = le_bytes 8 (unat w)"

definition u64_of :: "char list \<Rightarrow> 64 word" where
  "u64_of bs = word_of_nat (le_val bs)"

text \<open>\<open>memcpy(buffer + offset, src, n)\<close> and \<open>memcpy(dst, buffer + offset, n)\<close>.\<close>

definition put_bytes :: "nat \<Rightarrow> char list \<Rightarrow> nat \<Rightarrow> (char list, unit) oper" where
  "put_bytes offset src n b =
     (if offset + n \<le> length b \<and> n \<le> length src
      then Inr ((), take offset b @ take n src @ drop (offset + n) b)
      else Inl OutOfBounds)"

definition get_bytes :: "nat \<Rightarrow> nat \<Rightarrow> (char list, char list) oper" where
  "get_bytes offset n b =
     (if offset + n \<le> length b then Inr (take n (drop offset b), b) else Inl OutOfBounds)"

section \<open>Writers\<close>

definition writer_stc_request :: "request \<Rightarrow> (char list, unit) oper" where
  "writer_stc_request r =
     block
       [put_bytes 0 (u8_bytes (req_code r)) 1,
        put_bytes 1 (req_pipe_name r) MAX_PIPE_NAME,
        put_bytes (1 + MAX_PIPE_NAME) (req_box_name r) MAX_BOX_NAME,
        put_bytes (1 + MAX_PIPE_NAME + MAX_BOX_NAME) (req_box_password r) MAX_PASSWORD]
       (ret ())"

definition writer_stc_response_manager :: "response_manager \<Rightarrow> (char list, unit) oper" where
  "writer_stc_response_manager r =
     block
       [put_bytes 0 (u8_bytes (resp_code r)) 1,
        put_bytes 1 (i32_bytes (resp_return_code r)) 4,
        put_bytes (1 + 4) (resp_error_message r) 1024]
       (ret ())"

definition writer_stc_list_request :: "list_manager_request \<Rightarrow> (char list, unit) oper" where
  "writer_stc_list_request r =
     block
       [put_bytes 0 (u8_bytes (lq_code r)) 1,
        put_bytes 1 (lq_pipe_name r) MAX_PIPE_NAME]
       (ret ())"

definition writer_stc_list_response :: "list_manager_response \<Rightarrow> (char list, unit) oper" where
  "writer_stc_list_response r =
     block
       [put_bytes 0 (u8_bytes (lr_code r)) 1,
        put_bytes 1 (u8_bytes (lr_last r)) 1,
        put_bytes (1 + 1) (lr_box_name r) MAX_BOX_NAME,
        put_bytes (1 + 1 + MAX_BOX_NAME) (u64_bytes (lr_box_size r)) 8,
        put_bytes (1 + 1 + MAX_BOX_NAME + 8) (u64_bytes (lr_n_pubs r)) 8,
        put_bytes (1 + 1 + MAX_BOX_NAME + 8 + 8) (u64_bytes (lr_n_subs r)) 8,
        put_bytes (1 + 1 + MAX_BOX_NAME + 8 + 8 + 8) (lr_box_password r) MAX_PASSWORD]
       (ret ())"

definition writer_stc_message :: "messages_pipe \<Rightarrow> (char list, unit) oper" where
  "writer_stc_message r =
     block
       [put_bytes 0 (u8_bytes (msg_code r)) 1,
        put_bytes 1 (msg_message r) 1024]
       (ret ())"

definition writer_stc_new_password :: "request_new_password \<Rightarrow> (char list, unit) oper" where
  "writer_stc_new_password r =
     block
       [writer_stc_request (np_request_lock r),
        put_bytes (1 + MAX_PIPE_NAME + MAX_BOX_NAME + MAX_PASSWORD) (np_new_password r)
          MAX_PASSWORD]
       (ret ())"

text \<open>
  The structure a code stands for.  Casting the \<open>void *\<close> to another structure than the one it
  points to is the fault \<open>Indeterminate\<close>.
\<close>

definition writer_stc :: "object \<Rightarrow> 8 word \<Rightarrow> (char list, unit) oper" where
  "writer_stc new_request code_pipe =
     block [put_bytes 0 (replicate MAX_LINE NUL) MAX_LINE] (
     if code_pipe = 4 \<or> code_pipe = 6 \<or> code_pipe = 12 \<or> code_pipe = 14 then
       (case new_request of Response r \<Rightarrow> writer_stc_response_manager r | _ \<Rightarrow> fail Indeterminate)
     else if code_pipe = 7 then
       (case new_request of List_request r \<Rightarrow> writer_stc_list_request r | _ \<Rightarrow> fail Indeterminate)
     else if code_pipe = 8 then
       (case new_request of List_response r \<Rightarrow> writer_stc_list_response r | _ \<Rightarrow> fail Indeterminate)
     else if code_pipe = 9 \<or> code_pipe = 10 then
       (case new_request of Message r \<Rightarrow> writer_stc_message r | _ \<Rightarrow> fail Indeterminate)
     else if code_pipe = 13 then
       (case new_request of New_password r \<Rightarrow> writer_stc_new_password r | _ \<Rightarrow> fail Indeterminate)
     else
       (case new_request of Request r \<Rightarrow> writer_stc_request r | _ \<Rightarrow> fail Indeterminate))"

section \<open>Readers\<close>

text \<open>\<open>my_malloc\<close>: whether the heap can give a block of that size is up to \<open>grants\<close>.\<close>

definition my_malloc :: "(nat \<Rightarrow> bool) \<Rightarrow> nat \<Rightarrow> ('s, unit) oper" where
  "my_malloc grants n = (if grants n then ret () else fail ExitFailure)"

definition reader_stc_request :: "(nat \<Rightarrow> bool) \<Rightarrow> 8 word \<Rightarrow> (char list, request) oper" where
  "reader_stc_request grants code_pipe =
     block [my_malloc grants 294] (
     call (get_bytes 1 MAX_PIPE_NAME) (\<lambda>pipe_name.
     call (get_bytes (1 + MAX_PIPE_NAME) MAX_BOX_NAME) (\<lambda>box_name.
     call (get_bytes (1 + MAX_PIPE_NAME + MAX_BOX_NAME) MAX_PASSWORD) (\<lambda>box_password.
     ret \<lparr>req_code = code_pipe, req_pipe_name = pipe_name, req_box_name = box_name,
       req_box_password = box_password\<rparr>))))"

definition reader_stc_response_manager ::
    "(nat \<Rightarrow> bool) \<Rightarrow> 8 word \<Rightarrow> (char list, response_manager) oper" where
  "reader_stc_response_manager grants code_pipe =
     block [my_malloc grants 1029] (
     call (get_bytes 1 4) (\<lambda>return_code.
     call (get_bytes (1 + 4) 1024) (\<lambda>error_message.
     ret \<lparr>resp_code = code_pipe, resp_return_code = i32_of return_code,
       resp_error_message = error_message\<rparr>)))"

definition reader_stc_list_response ::
    "(nat \<Rightarrow> bool) \<Rightarrow> 8 word \<Rightarrow> (char list, list_manager_response) oper" where
  "reader_stc_list_response grants code_pipe =
     block [my_malloc grants 63] (
     call (get_bytes 1 1) (\<lambda>last.
     call (get_bytes (1 + 1) MAX_BOX_NAME) (\<lambda>box_name.
     call (get_bytes (1 + 1 + MAX_BOX_NAME) 8) (\<lambda>box_size.
     call (get_bytes (1 + 1 + MAX_BOX_NAME + 8) 8) (\<lambda>n_pubs.
     call (get_bytes (1 + 1 + MAX_BOX_NAME + 8 + 8) 8) (\<lambda>n_subs.
     call (get_bytes (1 + 1 + MAX_BOX_NAME + 8 + 8 + 8) MAX_PASSWORD) (\<lambda>box_password.
     ret \<lparr>lr_code = code_pipe, lr_last = u8_of last, lr_box_name = box_name,
       lr_box_size = u64_of box_size, lr_n_pubs = u64_of n_pubs, lr_n_subs = u64_of n_subs,
       lr_box_password = box_password\<rparr>)))))))"

definition reader_stc_list_request ::
    "(nat \<Rightarrow> bool) \<Rightarrow> 8 word \<Rightarrow> (char list, list_manager_request) oper" where
  "reader_stc_list_request grants code_pipe =
     block [my_malloc grants 257] (
     call (get_bytes 1 MAX_PIPE_NAME) (\<lambda>pipe_name.
     ret \<lparr>lq_code = code_pipe, lq_pipe_name = pipe_name\<rparr>))"

definition reader_stc_message :: "(nat \<Rightarrow> bool) \<Rightarrow> 8 word \<Rightarrow> (char list, messages_pipe) oper" where
  "reader_stc_message grants code_pipe =
     block [my_malloc grants 1025] (
     call (get_bytes 1 1024) (\<lambda>message.
     ret \<lparr>msg_code = code_pipe, msg_message = message\<rparr>))"

definition reader_stc_new_password ::
    "(nat \<Rightarrow> bool) \<Rightarrow> 8 word \<Rightarrow> (char list, request_new_password) oper" where
  "reader_stc_new_password grants code_pipe =
     block [my_malloc grants 16] (
     call (reader_stc_request grants code_pipe) (\<lambda>request_password_helper.
     call (get_bytes (1 + MAX_PIPE_NAME + MAX_BOX_NAME + MAX_PASSWORD) MAX_PASSWORD) (\<lambda>new_password.
     ret \<lparr>np_request_lock = request_password_helper, np_new_password = new_password\<rparr>)))"

definition reader_stc :: "(nat \<Rightarrow> bool) \<Rightarrow> (char list, object) oper" where
  "reader_stc grants =
     call (get_bytes 0 1) (\<lambda>c.
     let code_pipe = u8_of c in
     if code_pipe = 4 \<or> code_pipe = 6 \<or> code_pipe = 12 \<or> code_pipe = 14 then
       call (reader_stc_response_manager grants code_pipe) (\<lambda>r. ret (Response r))
     else if code_pipe = 7 then
       call (reader_stc_list_request grants code_pipe) (\<lambda>r. ret (List_request r))
     else if code_pipe = 8 then
       call (reader_stc_list_response grants code_pipe) (\<lambda>r. ret (List_response r))
     else if code_pipe = 9 \<or> code_pipe = 10 then
       call (reader_stc_message grants code_pipe) (\<lambda>r. ret (Message r))
     else if code_pipe = 13 then
       call (reader_stc_new_password grants code_pipe) (\<lambda>r. ret (New_password r))
     else
       call (reader_stc_request grants code_pipe) (\<lambda>r. ret (Request r)))"

section \<open>Bytes of words\<close>

lemma length_words [simp]:
  "length (u8_bytes w) = 1" "length (i32_bytes v) = 4" "length (u64_bytes u) = 8"
  by (simp_all add: u8_bytes_def i32_bytes_def u64_bytes_def)

lemma le_bytes_le_val: "le_bytes (length cs) (le_val cs) = cs"
proof (induction cs)
  case (Cons c cs)
  have "of_char c < (256 :: nat)" by simp
  then have "(of_char c + 256 * le_val cs) mod 256 = (of_char c :: nat)"
    "(of_char c + 256 * le_val cs) div 256 = le_val cs" by simp_all
  with Cons.IH show ?case by simp
qed simp

lemma words_back [simp]:
  "u8_of (u8_bytes w) = w" "i32_of (i32_bytes v) = v" "u64_of (u64_bytes u) = u"
proof -
  have "unat w < 2 ^ 8" "unat v < 2 ^ 32" "unat u < 2 ^ 64"
    using unsigned_less [of w, where ?'a = nat] unsigned_less [of v, where ?'a = nat]
      unsigned_less [of u, where ?'a = nat] by simp_all
  then show "u8_of (u8_bytes w) = w" "i32_of (i32_bytes v) = v" "u64_of (u64_bytes u) = u"
    by (simp_all add: u8_of_def u8_bytes_def i32_of_def i32_bytes_def u64_of_def u64_bytes_def
      le_val_le_bytes)
qed

lemma bytes_back [simp]:
  "length a = 1 \<Longrightarrow> u8_bytes (u8_of a) = a"
  "length b = 4 \<Longrightarrow> i32_bytes (i32_of b) = b"
  "length c = 8 \<Longrightarrow> u64_bytes (u64_of c) = c"
proof -
  have v: "le_val xs < 256 ^ length xs" "le_bytes (length xs) (le_val xs) = xs" for xs
    by (rule le_val_bound, rule le_bytes_le_val)
  show "u8_bytes (u8_of a) = a" if "length a = 1"
    using v [of a] that by (simp add: u8_of_def u8_bytes_def unat_of_nat)
  show "i32_bytes (i32_of b) = b" if "length b = 4"
    using v [of b] that by (simp add: i32_of_def i32_bytes_def unat_of_nat)
  show "u64_bytes (u64_of c) = c" if "length c = 8"
    using v [of c] that by (simp add: u64_of_def u64_bytes_def unat_of_nat)
qed

section \<open>Layouts\<close>

text \<open>A line: the bytes of a structure, and zeros up to \<open>MAX_LINE\<close>.\<close>

definition line :: "char list \<Rightarrow> char list" where
  "line xs = xs @ replicate (MAX_LINE - length xs) NUL"

lemma length_line [simp]: "length xs \<le> MAX_LINE \<Longrightarrow> length (line xs) = MAX_LINE"
  by (simp add: line_def)

lemma put_line [exec_simps]:
  "offset = length xs \<Longrightarrow> n = length src \<Longrightarrow> length xs + n \<le> MAX_LINE \<Longrightarrow>
   call (put_bytes offset src n) k (line xs) = k () (line (xs @ src))"
  by (simp add: put_bytes_def line_def call_def)

lemma put_blank:
  "length b = MAX_LINE \<Longrightarrow>
   call (put_bytes 0 (replicate MAX_LINE NUL) MAX_LINE) k b = k () (line [])"
  by (simp add: put_bytes_def line_def call_def)

lemma get_exec [exec_simps]:
  "offset + n \<le> length b \<Longrightarrow> call (get_bytes offset n) k b = k (take n (drop offset b)) b"
  by (simp add: get_bytes_def call_def)

definition request_layout :: "request \<Rightarrow> char list" where
  "request_layout r =
     u8_bytes (req_code r) @ req_pipe_name r @ req_box_name r @ req_box_password r"

fun layout :: "object \<Rightarrow> char list" where
  "layout (Request r) = request_layout r"
| "layout (Response r) =
     u8_bytes (resp_code r) @ i32_bytes (resp_return_code r) @ resp_error_message r"
| "layout (List_response r) =
     u8_bytes (lr_code r) @ u8_bytes (lr_last r) @ lr_box_name r @ u64_bytes (lr_box_size r) @
     u64_bytes (lr_n_pubs r) @ u64_bytes (lr_n_subs r) @ lr_box_password r"
| "layout (List_request r) = u8_bytes (lq_code r) @ lq_pipe_name r"
| "layout (Message r) = u8_bytes (msg_code r) @ msg_message r"
| "layout (New_password r) =
     request_layout (np_request_lock r) @ np_new_password r"

fun code_of :: "object \<Rightarrow> 8 word" where
  "code_of (Request r) = req_code r"
| "code_of (Response r) = resp_code r"
| "code_of (List_response r) = lr_code r"
| "code_of (List_request r) = lq_code r"
| "code_of (Message r) = msg_code r"
| "code_of (New_password r) = req_code (np_request_lock r)"

text \<open>The arrays have their sizes, and the code is one of those of the structure.\<close>

definition response_codes :: "8 word list" where
  "response_codes = [4, 6, 12, 14]"

definition message_codes :: "8 word list" where
  "message_codes = [9, 10]"

abbreviation request_code :: "8 word \<Rightarrow> bool" where
  "request_code c \<equiv> c \<notin> set response_codes \<and> c \<notin> set message_codes \<and> c \<noteq> 7 \<and> c \<noteq> 8 \<and> c \<noteq> 13"

definition request_sized :: "request \<Rightarrow> bool" where
  "request_sized r \<longleftrightarrow> length (req_pipe_name r) = MAX_PIPE_NAME \<and>
     length (req_box_name r) = MAX_BOX_NAME \<and> length (req_box_password r) = MAX_PASSWORD"

fun well_formed :: "object \<Rightarrow> bool" where
  "well_formed (Request r) = (request_sized r \<and> request_code (req_code r))"
| "well_formed (Response r) =
     (length (resp_error_message r) = 1024 \<and> resp_code r \<in> set response_codes)"
| "well_formed (List_response r) =
     (length (lr_box_name r) = MAX_BOX_NAME \<and> length (lr_box_password r) = MAX_PASSWORD \<and>
      lr_code r = 8)"
| "well_formed (List_request r) = (length (lq_pipe_name r) = MAX_PIPE_NAME \<and> lq_code r = 7)"
| "well_formed (Message r) = (length (msg_message r) = 1024 \<and> msg_code r \<in> set message_codes)"
| "well_formed (New_password r) =
     (request_sized (np_request_lock r) \<and> length (np_new_password r) = MAX_PASSWORD \<and>
      req_code (np_request_lock r) = 13)"

lemmas code_defs = response_codes_def message_codes_def

lemma layout_fits: "well_formed m \<Longrightarrow> length (layout m) \<le> MAX_LINE"
  by (cases m) (simp_all add: request_layout_def request_sized_def max_defs)

lemma layout_code: "take 1 (layout m) = u8_bytes (code_of m)"
  by (cases m) (simp_all add: request_layout_def)

lemma write_request:
  assumes "request_sized r"
  shows "writer_stc_request r (line []) = Inr ((), line (request_layout r))"
  using assms by (simp add: request_layout_def writer_stc_request_def request_sized_def exec_simps max_defs)

lemma call_write_request:
  "request_sized r \<Longrightarrow> call (writer_stc_request r) k (line []) = k () (line (request_layout r))"
  by (simp add: call_def write_request)

definition writer_cases :: "object \<Rightarrow> 8 word \<Rightarrow> (char list, unit) oper" where
  "writer_cases m c =
     (if c = 4 \<or> c = 6 \<or> c = 12 \<or> c = 14 then
       (case m of Response r \<Rightarrow> writer_stc_response_manager r | _ \<Rightarrow> fail Indeterminate)
     else if c = 7 then
       (case m of List_request r \<Rightarrow> writer_stc_list_request r | _ \<Rightarrow> fail Indeterminate)
     else if c = 8 then
       (case m of List_response r \<Rightarrow> writer_stc_list_response r | _ \<Rightarrow> fail Indeterminate)
     else if c = 9 \<or> c = 10 then
       (case m of Message r \<Rightarrow> writer_stc_message r | _ \<Rightarrow> fail Indeterminate)
     else if c = 13 then
       (case m of New_password r \<Rightarrow> writer_stc_new_password r | _ \<Rightarrow> fail Indeterminate)
     else
       (case m of Request r \<Rightarrow> writer_stc_request r | _ \<Rightarrow> fail Indeterminate))"

lemma writer_stc_start:
  "length b = MAX_LINE \<Longrightarrow> writer_stc m c b = writer_cases m c (line [])"
  by (simp only: writer_stc_def block.simps put_blank writer_cases_def)

lemma writer_stc_exec:
  assumes wf: "well_formed m" and b: "length b = MAX_LINE"
  shows "writer_stc m (code_of m) b = Inr ((), line (layout m))"
  unfolding writer_stc_start [OF b]
proof (cases m)
  case (Request r)
  with wf show "writer_cases m (code_of m) (line []) = Inr ((), line (layout m))"
    by (simp add: writer_cases_def code_defs write_request)
next
  case (Response r)
  with wf show "writer_cases m (code_of m) (line []) = Inr ((), line (layout m))"
    by (auto simp: writer_cases_def code_defs writer_stc_response_manager_def exec_simps max_defs)
next
  case (List_response r)
  with wf show "writer_cases m (code_of m) (line []) = Inr ((), line (layout m))"
    by (simp add: writer_cases_def writer_stc_list_response_def exec_simps max_defs)
next
  case (List_request r)
  with wf show "writer_cases m (code_of m) (line []) = Inr ((), line (layout m))"
    by (simp add: writer_cases_def writer_stc_list_request_def exec_simps max_defs)
next
  case (Message r)
  with wf show "writer_cases m (code_of m) (line []) = Inr ((), line (layout m))"
    by (auto simp: writer_cases_def code_defs writer_stc_message_def exec_simps max_defs)
next
  case (New_password r)
  with wf have r: "request_sized (np_request_lock r)" by simp
  have n: "length (request_layout (np_request_lock r)) = 294"
    using r by (simp add: request_layout_def request_sized_def max_defs)
  from New_password wf n
  show "writer_cases m (code_of m) (line []) = Inr ((), line (layout m))"
    by (simp add: writer_cases_def writer_stc_new_password_def
      call_write_request [OF r] put_line max_defs ret_exec)
qed

section \<open>What the readers return\<close>

definition reads_as_request :: "8 word \<Rightarrow> char list \<Rightarrow> request" where
  "reads_as_request c b = \<lparr>req_code = c, req_pipe_name = take 256 (drop 1 b),
     req_box_name = take 32 (drop 257 b), req_box_password = take 5 (drop 289 b)\<rparr>"

definition reads_as :: "char list \<Rightarrow> object" where
  "reads_as b =
     (let c = u8_of (take 1 b) in
      if c \<in> set response_codes then
        Response \<lparr>resp_code = c, resp_return_code = i32_of (take 4 (drop 1 b)),
          resp_error_message = take 1024 (drop 5 b)\<rparr>
      else if c = 7 then List_request \<lparr>lq_code = c, lq_pipe_name = take 256 (drop 1 b)\<rparr>
      else if c = 8 then
        List_response \<lparr>lr_code = c, lr_last = u8_of (take 1 (drop 1 b)),
          lr_box_name = take 32 (drop 2 b), lr_box_size = u64_of (take 8 (drop 34 b)),
          lr_n_pubs = u64_of (take 8 (drop 42 b)), lr_n_subs = u64_of (take 8 (drop 50 b)),
          lr_box_password = take 5 (drop 58 b)\<rparr>
      else if c \<in> set message_codes then
        Message \<lparr>msg_code = c, msg_message = take 1024 (drop 1 b)\<rparr>
      else if c = 13 then
        New_password \<lparr>np_request_lock = reads_as_request c b, np_new_password = take 5 (drop 294 b)\<rparr>
      else Request (reads_as_request c b))"

lemma my_malloc_exec [exec_simps]: "call (my_malloc (\<lambda>_. True) n) k s = k () s"
  by (simp add: my_malloc_def call_ret)

lemma read_request:
  "length b = MAX_LINE \<Longrightarrow>
   reader_stc_request (\<lambda>_. True) c b = Inr (reads_as_request c b, b)"
  by (simp add: reader_stc_request_def reads_as_request_def exec_simps max_defs)

lemma call_read_request:
  "length b = MAX_LINE \<Longrightarrow>
   call (reader_stc_request (\<lambda>_. True) c) k b = k (reads_as_request c b) b"
  by (simp add: call_def read_request)

lemma reader_stc_exec:
  assumes b: "length b = MAX_LINE"
  shows "reader_stc (\<lambda>_. True) b = Inr (reads_as b, b)"
proof -
  define c where "c = u8_of (take 1 b)"
  have "b \<noteq> []" using b by (auto simp: max_defs)
  then have g: "call (get_bytes 0 1) k b = k (take 1 b) b" for k :: "char list \<Rightarrow> (char list, object) oper"
    by (subst get_exec) (simp_all add: Suc_le_eq)
  show ?thesis
    using b unfolding reader_stc_def reads_as_def g Let_def c_def [symmetric]
    by (simp add: code_defs call_read_request [OF b]
      reader_stc_response_manager_def reader_stc_list_request_def reader_stc_list_response_def
      reader_stc_message_def reader_stc_new_password_def exec_simps max_defs numeral_2_eq_2)
qed

lemma reads_as_well_formed: "length b = MAX_LINE \<Longrightarrow> well_formed (reads_as b)"
  by (simp add: reads_as_def Let_def reads_as_request_def request_sized_def max_defs code_defs)

text \<open>A message is recovered from its line.\<close>

lemma line_take_drop:
  "k + n \<le> length xs \<Longrightarrow> take n (drop k (line xs)) = take n (drop k xs)"
  "n \<le> length xs \<Longrightarrow> take n (line xs) = take n xs"
  by (simp_all add: line_def)

lemma take_code: "take 1 (line (layout m)) = u8_bytes (code_of m)"
proof -
  have "length (take 1 (layout m)) = 1" by (simp only: layout_code length_words)
  then have "1 \<le> length (layout m)" by (cases "layout m") simp_all
  then show ?thesis using layout_code [of m] by (simp only: line_take_drop)
qed

lemma reads_as_line_request:
  assumes r: "request_sized r" and xs: "xs = request_layout r @ ys"
  shows "reads_as_request (req_code r) (line xs) = r"
proof -
  have "take 256 (drop 1 (line xs)) = req_pipe_name r" "take 32 (drop 257 (line xs)) = req_box_name r"
    "take 5 (drop 289 (line xs)) = req_box_password r"
    using r unfolding xs
    by (simp_all add: line_take_drop request_layout_def request_sized_def max_defs)
  then show ?thesis by (simp add: reads_as_request_def)
qed

lemma reads_as_line:
  assumes wf: "well_formed m"
  shows "reads_as (line (layout m)) = m"
proof (cases m)
  case (Request r)
  with wf reads_as_line_request [of r "request_layout r" "[]"] show ?thesis
    using take_code [of m] by (simp add: reads_as_def)
next
  case (New_password r)
  with wf have s: "request_sized (np_request_lock r)" "length (np_new_password r) = 5"
    by (simp_all add: max_defs)
  then have "take 5 (drop 294 (line (layout m))) = np_new_password r"
    unfolding New_password
    by (simp add: line_take_drop request_layout_def request_sized_def max_defs)
  with reads_as_line_request [OF s(1), of "layout m" "np_new_password r"] New_password wf
  show ?thesis using take_code [of m] by (simp add: reads_as_def code_defs)
next
  case (Response r)
  with wf show ?thesis using take_code [of m]
    by (simp add: reads_as_def line_take_drop)
next
  case (List_request r)
  with wf show ?thesis using take_code [of m]
    by (simp add: reads_as_def line_take_drop code_defs max_defs)
next
  case (List_response r)
  with wf show ?thesis using take_code [of m]
    by (simp add: reads_as_def line_take_drop code_defs max_defs)
next
  case (Message r)
  with wf show ?thesis using take_code [of m]
    by (auto simp: reads_as_def line_take_drop code_defs)
qed

text \<open>The layout of what was read is the beginning of the line it was read from.\<close>

lemma take_cat:
  "l = k + m \<Longrightarrow> take m (drop k b) @ take n (drop l b) = take (m + n) (drop k b)"
  "l = k + m \<Longrightarrow> take m (drop k b) @ take n (drop l b) @ r = take (m + n) (drop k b) @ r"
  by (simp_all add: take_add add.commute)

lemma take_cat_0:
  "take m b @ take n (drop m b) = take (m + n) b"
  "take m b @ take n (drop m b) @ r = take (m + n) b @ r"
  by (simp_all add: take_add)

lemma layout_reads_as:
  assumes "length b = MAX_LINE"
  shows "layout (reads_as b) = take (length (layout (reads_as b))) b"
proof -
  have n: "length (take 1 b) = 1" using assms by (simp add: max_defs)
  define c where "c = u8_of (take 1 b)"
  have c: "u8_bytes c = take 1 b" using n by (simp only: c_def bytes_back)
  then have "c = v \<Longrightarrow> u8_bytes v = take 1 b" for v by simp
  note this [of 7] this [of 8] this [of 13]
  then show ?thesis
    using assms unfolding reads_as_def Let_def c_def [symmetric]
    by (simp add: c reads_as_request_def request_layout_def take_cat take_cat_0 max_defs)
qed

section \<open>Codecs\<close>

text \<open>
  The contract between a writer and a reader of lines: the writer fills the whole line from the
  value alone, the reader accepts every line, and each undoes the other.
\<close>

locale wire_codec =
  fixes valid :: "'a \<Rightarrow> bool"
    and enc :: "'a \<Rightarrow> char list"
    and dec :: "char list \<Rightarrow> 'a"
    and wr :: "'a \<Rightarrow> (char list, unit) oper"
    and rd :: "(char list, 'a) oper"
  assumes write_law: "valid m \<Longrightarrow> length b = MAX_LINE \<Longrightarrow> wr m b = Inr ((), line (enc m))"
    and read_law: "length b = MAX_LINE \<Longrightarrow> rd b = Inr (dec b, b)"
    and fits: "valid m \<Longrightarrow> length (enc m) \<le> MAX_LINE"
    and dec_valid: "length b = MAX_LINE \<Longrightarrow> valid (dec b)"
    and dec_enc: "valid m \<Longrightarrow> dec (line (enc m)) = m"
    and enc_dec: "length b = MAX_LINE \<Longrightarrow> enc (dec b) = take (length (enc (dec b))) b"
begin

lemma write_read:
  assumes "valid m" and "length b = MAX_LINE"
  shows "\<exists>l. wr m b = Inr ((), l) \<and> length l = MAX_LINE \<and> rd l = Inr (m, l)"
  using assms by (simp add: write_law read_law fits dec_enc)

lemma read_write:
  assumes "length b = MAX_LINE" and "length b' = MAX_LINE"
  shows "\<exists>m n. rd b = Inr (m, b) \<and> valid m \<and>
    wr m b' = Inr ((), take n b @ replicate (MAX_LINE - n) NUL)"
proof -
  let ?n = "length (enc (dec b))"
  have "line (enc (dec b)) = take ?n b @ replicate (MAX_LINE - ?n) NUL"
    unfolding line_def using enc_dec [OF assms(1)] by simp
  with read_law [OF assms(1)] dec_valid [OF assms(1)] write_law [OF _ assms(2)] show ?thesis
    by (intro exI [of _ "dec b"] exI [of _ ?n]) simp
qed

lemma lines_differ:
  assumes "valid m" and "valid m'" and "line (enc m) = line (enc m')"
  shows "m = m'"
proof -
  have "m = dec (line (enc m))" using assms(1) by (rule dec_enc [symmetric])
  also have "\<dots> = dec (line (enc m'))" by (simp only: assms(3))
  also have "\<dots> = m'" using assms(2) by (rule dec_enc)
  finally show ?thesis .
qed

end

interpretation wire: wire_codec well_formed layout reads_as "\<lambda>m. writer_stc m (code_of m)"
    "reader_stc (\<lambda>_. True)"
proof unfold_locales
  show "writer_stc m (code_of m) b = Inr ((), line (layout m))"
    if "well_formed m" "length b = MAX_LINE" for m b
    using that by (rule writer_stc_exec)
  show "reader_stc (\<lambda>_. True) b = Inr (reads_as b, b)" if "length b = MAX_LINE" for b
    using that by (rule reader_stc_exec)
  show "length (layout m) \<le> MAX_LINE" if "well_formed m" for m
    using that by (rule layout_fits)
  show "well_formed (reads_as b)" if "length b = MAX_LINE" for b
    using that by (rule reads_as_well_formed)
  show "reads_as (line (layout m)) = m" if "well_formed m" for m
    using that by (rule reads_as_line)
  show "layout (reads_as b) = take (length (layout (reads_as b))) b" if "length b = MAX_LINE" for b
    using that by (rule layout_reads_as)
qed

section \<open>Properties\<close>

definition demo_request :: request where
  "demo_request = \<lparr>req_code = 3, req_pipe_name = ''/tmp/m'' @ replicate 250 NUL,
     req_box_name = ''/box'' @ replicate 28 NUL, req_box_password = ''pass'' @ [NUL]\<rparr>"

lemma demo_request_ok: "well_formed (Request demo_request)"
  by (simp add: demo_request_def request_sized_def max_defs code_defs)

text \<open>C15: Every message of the protocol survives the pipe: the writer fills a whole line, whatever was
  in the buffer, and the reader makes the same structure of it, with the same code.\<close>

theorem wire_round_trip:
  assumes "well_formed m" and "length b = MAX_LINE"
  shows "\<exists>l. writer_stc m (code_of m) b = Inr ((), l) \<and> length l = MAX_LINE \<and>
    reader_stc (\<lambda>_. True) l = Inr (m, l)"
  using assms by (rule wire.write_read)

theorem wire_round_trip_witness:
  "\<exists>l. writer_stc (Request demo_request) 3 (replicate MAX_LINE NUL) = Inr ((), l) \<and>
    length l = MAX_LINE \<and> reader_stc (\<lambda>_. True) l = Inr (Request demo_request, l)"
  using wire_round_trip [OF demo_request_ok, of "replicate MAX_LINE NUL"]
  by (simp add: demo_request_def)

text \<open>The reader accepts every line of \<open>MAX_LINE\<close> bytes without reading past its end, and what it
  returns, written again, gives back the bytes it was read from, followed by zeros: no byte that
  the reader keeps is changed, and no byte of an older buffer leaks into a new line.\<close>

theorem wire_read_total:
  assumes "length b = MAX_LINE" and "length b' = MAX_LINE"
  shows "\<exists>m n. reader_stc (\<lambda>_. True) b = Inr (m, b) \<and> well_formed m \<and>
    writer_stc m (code_of m) b' = Inr ((), take n b @ replicate (MAX_LINE - n) NUL)"
  using assms by (rule wire.read_write)

theorem wire_read_total_witness:
  "\<exists>m n. reader_stc (\<lambda>_. True) (replicate MAX_LINE NUL) = Inr (m, replicate MAX_LINE NUL) \<and>
    well_formed m \<and> writer_stc m (code_of m) (replicate MAX_LINE NUL) =
      Inr ((), take n (replicate MAX_LINE NUL) @ replicate (MAX_LINE - n) NUL)"
  by (rule wire_read_total) simp_all

end
