(* ===== verification/Broker.thy ===== *)
theory Broker
  imports Protocol FS_Operations
begin

text \<open>
  \<open>mbroker/mbroker.c\<close>: the table of boxes, the handlers of the requests, and the dispatch of the
  lines that arrive at the server pipe.  A box is an entry of the table together with the file of
  the same name in the file system.

  The state is the record \<open>broker\<close>: the globals of the source, the file system, and the log of
  what was done to the named pipes of the clients.  A handler gets the structure its \<open>void *\<close>
  points to, the number of its thread, and \<open>env\<close>: what the operating system answers and the
  indeterminate contents of fresh memory.  Between two handlers the lock of the table is free;
  each handler is one execution from its first line to its last, those of publishers and
  subscribers split at the points where they wait.
\<close>

section \<open>Data\<close>

record box =
  box_name :: "char list"
  box_lock :: bool
  n_pub :: int
  n_subs :: int
  box_free :: int
  box_size :: int
  box_password :: "char list"

datatype io =
    Opened string
  | Sent string "char list"
  | Closed string

record broker =
  server_boxes :: "box list"
  size_boxes :: nat
  thread_pool :: "int list"
  box_size_lock :: bool
  sigpipe_ignored :: bool
  ending :: bool
  tfs :: tfs_state
  pipes :: "io list"

datatype write_result = Wrote nat | Broken_pipe | Write_error

text \<open>
  \<open>can_open p\<close>: the pipe can be opened; \<open>write_answer k\<close>: the answer to the \<open>k\<close>-th \<open>write\<close> of
  the handler; \<open>can_close\<close>: closing succeeds; \<open>grants n\<close>: the heap has \<open>n\<close> bytes.  The \<open>raw\<close>
  components are the contents of memory that was not initialised.
\<close>

record env =
  can_open :: "string \<Rightarrow> bool"
  write_answer :: "nat \<Rightarrow> write_result"
  can_close :: bool
  grants :: "nat \<Rightarrow> bool"
  raw_box :: "nat \<Rightarrow> box"
  raw_entry :: list_manager_response
  raw_text :: "char list"
  raw_line :: "char list"

type_synonym 'a brop = "(broker, 'a) oper"

section \<open>Building blocks\<close>

text \<open>A character array used as a string: reading past an array without terminator is a fault.\<close>

definition c_arg :: "char list \<Rightarrow> string res" where
  "c_arg a = (if NUL \<in> set a then Inr (c_string a) else Inl OutOfBounds)"

text \<open>\<open>strcpy(dst, src)\<close> into an array.\<close>

definition strcpy_to :: "char list \<Rightarrow> char list \<Rightarrow> char list res" where
  "strcpy_to dst src =
     (case c_strcpy src of
        Inl e \<Rightarrow> Inl e
      | Inr bs \<Rightarrow> if length bs \<le> length dst then Inr (bs @ drop (length bs) dst) else Inl OutOfBounds)"

definition lock_boxes :: "unit brop" where
  "lock_boxes s =
     (if box_size_lock s then Inl Deadlock else Inr ((), s\<lparr>box_size_lock := True\<rparr>))"

definition unlock_boxes :: "unit brop" where
  "unlock_boxes s =
     (if box_size_lock s then Inr ((), s\<lparr>box_size_lock := False\<rparr>) else Inl LockMisuse)"

definition in_tfs :: "'a fsop \<Rightarrow> 'a brop" where
  "in_tfs m s = (case m (tfs s) of Inl e \<Rightarrow> Inl e | Inr (a, t) \<Rightarrow> Inr (a, s\<lparr>tfs := t\<rparr>))"

definition log_io :: "io \<Rightarrow> unit brop" where
  "log_io e = modify (\<lambda>s. s\<lparr>pipes := pipes s @ [e]\<rparr>)"

definition ignore_sigpipe :: "unit brop" where
  "ignore_sigpipe = modify (\<lambda>s. s\<lparr>sigpipe_ignored := True\<rparr>)"

text \<open>\<open>open\<close>, and \<open>my_open\<close>, which exits when it fails.\<close>

definition open_pipe :: "env \<Rightarrow> char list \<Rightarrow> bool brop" where
  "open_pipe env name =
     call (lift (c_arg name)) (\<lambda>p.
     if can_open env p then block [log_io (Opened p)] (ret True) else ret False)"

definition my_open :: "env \<Rightarrow> char list \<Rightarrow> unit brop" where
  "my_open env name = call (open_pipe env name) (\<lambda>ok. if ok then ret () else fail ExitFailure)"

definition my_close :: "env \<Rightarrow> char list \<Rightarrow> unit brop" where
  "my_close env name =
     (if can_close env then call (lift (c_arg name)) (\<lambda>p. log_io (Closed p)) else fail ExitFailure)"

text \<open>
  \<open>write\<close>: a pipe without reader raises \<open>SIGPIPE\<close>, which ends the process unless a handler was
  installed.
\<close>

definition write_pipe :: "env \<Rightarrow> nat \<Rightarrow> char list \<Rightarrow> char list \<Rightarrow> write_result brop" where
  "write_pipe env k name l =
     call (lift (c_arg name)) (\<lambda>p.
     call (gets sigpipe_ignored) (\<lambda>ign.
     case write_answer env k of
       Wrote n \<Rightarrow> block [log_io (Sent p (take n l))] (ret (Wrote n))
     | Broken_pipe \<Rightarrow> if ign then ret Broken_pipe else fail ExitFailure
     | Write_error \<Rightarrow> ret Write_error))"

text \<open>\<open>writer_stc\<close> into a buffer of the handler.\<close>

definition make_line :: "env \<Rightarrow> object \<Rightarrow> 8 word \<Rightarrow> char list brop" where
  "make_line env m c =
     lift (case writer_stc m c (raw_line env) of Inl e \<Rightarrow> Inl e | Inr (_, l) \<Rightarrow> Inr l)"

definition get_box :: "int \<Rightarrow> box brop" where
  "get_box i = call (gets server_boxes) (\<lambda>bs. lift (array_get bs i))"

definition upd_box :: "int \<Rightarrow> (box \<Rightarrow> box) \<Rightarrow> unit brop" where
  "upd_box i f =
     call (get_box i) (\<lambda>b. modify (\<lambda>s. s\<lparr>server_boxes := (server_boxes s)[nat i := f b]\<rparr>))"

text \<open>\<open>thread_pool[*index].index\<close>.\<close>

definition get_index :: "nat \<Rightarrow> int brop" where
  "get_index index = call (gets thread_pool) (\<lambda>ts. lift (array_get ts (int index)))"

definition set_index :: "nat \<Rightarrow> int \<Rightarrow> unit brop" where
  "set_index index i =
     call (gets thread_pool) (\<lambda>ts. call (lift (array_set ts (int index) i)) (\<lambda>ts'.
     modify (\<lambda>s. s\<lparr>thread_pool := ts'\<rparr>)))"

text \<open>\<open>for (i = 0; i < size_boxes; i++) if (strcmp(name, server_boxes[i].box_name) == 0) ...\<close>\<close>

function scan_boxes :: "char list \<Rightarrow> box list \<Rightarrow> nat \<Rightarrow> nat \<Rightarrow> nat option res" where
  "scan_boxes name bs i n =
     (if i < n then
        if i < length bs then
          case c_streq name (box_name (bs ! i)) of
            Inl e \<Rightarrow> Inl e
          | Inr eq \<Rightarrow> if eq then Inr (Some i) else scan_boxes name bs (Suc i) n
        else Inl OutOfBounds
      else Inr None)"
  by pat_completeness auto
termination
  by (relation "measure (\<lambda>(nm, bs, i, n). n - i)") auto

declare scan_boxes.simps [simp del]

definition find_box :: "char list \<Rightarrow> nat option brop" where
  "find_box name =
     call (gets server_boxes) (\<lambda>bs. call (gets size_boxes) (\<lambda>n. lift (scan_boxes name bs 0 n)))"

function scan_unused :: "box list \<Rightarrow> nat \<Rightarrow> nat \<Rightarrow> nat option res" where
  "scan_unused bs i n =
     (if i < n then
        if i < length bs then
          if box_free (bs ! i) = 0 then Inr (Some i) else scan_unused bs (Suc i) n
        else Inl OutOfBounds
      else Inr None)"
  by pat_completeness auto
termination
  by (relation "measure (\<lambda>(bs, i, n). n - i)") auto

declare scan_unused.simps [simp del]

definition same_password :: "nat \<Rightarrow> char list \<Rightarrow> bool brop" where
  "same_password i pw =
     call (get_box (int i)) (\<lambda>b. lift (c_streq (box_password b) pw))"

section \<open>Answers\<close>

text \<open>The messages of the source, in the bytes of its encoding.\<close>

definition msg_create_failed :: string where
  "msg_create_failed = ''Ocorreu um erro na cria'' @
     [CHR 0xC3, CHR 0xA7, CHR 0xC3, CHR 0xA3] @ ''o da caixa''"

definition msg_remove_failed :: string where
  "msg_remove_failed = ''Ocorreu um erro ao eliminar a caixa''"

definition msg_remove_password :: string where
  "msg_remove_password = ''Ocorreu um erro palavra-passe errada''"

definition msg_no_box :: string where
  "msg_no_box = ''Ocorreu um erro: n'' @ [CHR 0xC3, CHR 0xA3] @ ''o existe a box''"

definition msg_password :: string where
  "msg_password = ''Ocorreu um erro: palavra-passe errada''"

text \<open>An error answer: \<open>strcpy\<close> leaves the rest of the uninitialised array as it is.\<close>

definition error_answer :: "env \<Rightarrow> 8 word \<Rightarrow> string \<Rightarrow> object brop" where
  "error_answer env c msg =
     call (lift (strcpy_to (raw_text env) (msg @ [NUL]))) (\<lambda>t.
     ret (Response \<lparr>resp_code = c, resp_return_code = - 1, resp_error_message = t\<rparr>))"

definition ok_answer :: "8 word \<Rightarrow> object brop" where
  "ok_answer c =
     ret (Response \<lparr>resp_code = c, resp_return_code = 0, resp_error_message = replicate 1024 NUL\<rparr>)"

section \<open>Creating a box\<close>

text \<open>An entry is taken: its index is noted and the name and the password are copied.\<close>

definition take_entry :: "nat \<Rightarrow> nat \<Rightarrow> request \<Rightarrow> unit brop" where
  "take_entry index i r =
     block [set_index index (int i), upd_box (int i) (\<lambda>b. b\<lparr>box_free := 1\<rparr>)] (
     call (get_box (int i)) (\<lambda>b.
     call (lift (strcpy_to (box_name b) (req_box_name r))) (\<lambda>nm.
     block [upd_box (int i) (\<lambda>b. b\<lparr>box_name := nm\<rparr>)] (
     call (lift (strcpy_to (box_password b) (req_box_password r))) (\<lambda>pw.
     block [upd_box (int i) (\<lambda>b. b\<lparr>box_password := pw\<rparr>)] (ret ()))))))"

text \<open>The table is doubled when no entry is unused.  \<open>sizeof(box)\<close> is 144.\<close>

definition grow_boxes :: "env \<Rightarrow> nat \<Rightarrow> request \<Rightarrow> unit brop" where
  "grow_boxes env index r =
     call (gets size_boxes) (\<lambda>n.
     if \<not> grants env (size_mul (size_mul 144 2) n) then fail ExitFailure
     else if 2147483648 \<le> 2 * n then fail SignedOverflow
     else
       block
         [modify (\<lambda>s. s\<lparr>server_boxes :=
            server_boxes s @ map (\<lambda>i. (raw_box env i)\<lparr>box_free := 0, box_lock := False\<rparr>) [n ..< 2 * n]\<rparr>),
          take_entry index n r,
          modify (\<lambda>s. s\<lparr>size_boxes := 2 * n\<rparr>)]
         (ret ()))"

text \<open>An entry is given back: \<open>memset\<close> of the name and the password.\<close>

definition wipe_strings :: "box \<Rightarrow> box" where
  "wipe_strings b = b\<lparr>box_name := replicate MAX_BOX_NAME NUL,
     box_password := replicate MAX_PASSWORD NUL\<rparr>"

definition answer_and_close :: "env \<Rightarrow> char list \<Rightarrow> object \<Rightarrow> 8 word \<Rightarrow> unit brop" where
  "answer_and_close env pipe m c =
     call (make_line env m c) (\<lambda>l.
     call (write_pipe env 0 pipe l) (\<lambda>w.
     if w = Broken_pipe then ret () else my_close env pipe))"

definition process_manager_create :: "env \<Rightarrow> request \<Rightarrow> nat \<Rightarrow> unit brop" where
  "process_manager_create env r index =
     block [lock_boxes] (
     call (find_box (req_box_name r)) (\<lambda>found.
     case found of
       Some i \<Rightarrow>
         block [ignore_sigpipe, my_open env (req_pipe_name r)] (
         call (error_answer env 4 msg_create_failed) (\<lambda>m.
         block [unlock_boxes, answer_and_close env (req_pipe_name r) m 4] (ret ())))
     | None \<Rightarrow>
         call (gets server_boxes) (\<lambda>bs. call (gets size_boxes) (\<lambda>n.
         call (lift (scan_unused bs 0 n)) (\<lambda>slot.
         block [case slot of Some i \<Rightarrow> take_entry index i r | None \<Rightarrow> grow_boxes env index r] (
         call (lift (c_arg (req_box_name r))) (\<lambda>path.
         call (in_tfs (tfs_open (Some path) TFS_O_CREAT)) (\<lambda>fd_tfs.
         call (in_tfs (tfs_close fd_tfs)) (\<lambda>_.
         block [ignore_sigpipe, my_open env (req_pipe_name r)] (
         call (if fd_tfs = - 1 then
                 call (get_index index) (\<lambda>i.
                 block [upd_box i (\<lambda>b. wipe_strings (b\<lparr>box_free := 0\<rparr>))]
                   (error_answer env 4 msg_create_failed))
               else ok_answer 4) (\<lambda>m.
         block [unlock_boxes, answer_and_close env (req_pipe_name r) m 4] (ret ()))))))))))))"

section \<open>Removing a box\<close>

text \<open>
  What happens when no entry has the name, or the password is right.  Lines 278 to 310: the file is
  removed, the entry emptied and the client answered; \<open>False\<close> when the handler returns there,
  because the client does not read its pipe.
\<close>

definition remove_answer :: "env \<Rightarrow> request \<Rightarrow> nat \<Rightarrow> bool brop" where
  "remove_answer env r index =
     call (lift (c_arg (req_box_name r))) (\<lambda>path.
     call (in_tfs (tfs_unlink (Some path))) (\<lambda>tester.
     call (if tester = - 1 then error_answer env 6 msg_remove_failed
           else
             call (get_index index) (\<lambda>i.
             block [upd_box i (\<lambda>b. wipe_strings
                 (b\<lparr>box_free := 0, n_pub := 0, n_subs := 0, box_size := 0\<rparr>))]
               (ok_answer 6))) (\<lambda>m.
     call (make_line env m 6) (\<lambda>l.
     block [ignore_sigpipe] (
     call (open_pipe env (req_pipe_name r)) (\<lambda>ok.
     if \<not> ok then block [unlock_boxes] (ret False)
     else
       call (write_pipe env 0 (req_pipe_name r) l) (\<lambda>w.
       if w = Broken_pipe then block [unlock_boxes] (ret False)
       else block [unlock_boxes, my_close env (req_pipe_name r)] (ret True))))))))"

text \<open>Lines 311 to 313: \<open>pthread_cond_broadcast\<close> on the entry whose index the thread used last.\<close>

definition wake_subscribers :: "nat \<Rightarrow> unit brop" where
  "wake_subscribers index =
     call (get_index index) (\<lambda>i. call (get_box i) (\<lambda>_. ret ()))"

definition remove_rest :: "env \<Rightarrow> request \<Rightarrow> nat \<Rightarrow> unit brop" where
  "remove_rest env r index =
     call (remove_answer env r index) (\<lambda>answered. if answered then wake_subscribers index else ret ())"

definition process_manager_remove :: "env \<Rightarrow> request \<Rightarrow> nat \<Rightarrow> unit brop" where
  "process_manager_remove env r index =
     block [lock_boxes] (
     call (find_box (req_box_name r)) (\<lambda>found.
     case found of
       None \<Rightarrow> remove_rest env r index
     | Some i \<Rightarrow>
         call (get_box (int i)) (\<lambda>b.
         if box_free b = 0 then unlock_boxes
         else
           call (same_password i (req_box_password r)) (\<lambda>same.
           if \<not> same then
             block [unlock_boxes] (
             call (error_answer env 6 msg_remove_password) (\<lambda>m.
             call (make_line env m 6) (\<lambda>l.
             call (open_pipe env (req_pipe_name r)) (\<lambda>ok.
             if \<not> ok then fail ExitFailure
             else
               call (write_pipe env 0 (req_pipe_name r) l) (\<lambda>w.
               if w = Broken_pipe then fail ExitFailure else ret ())))))
           else block [set_index index (int i)] (remove_rest env r index)))))"

section \<open>Listing the boxes\<close>

definition list_entry :: "env \<Rightarrow> box \<Rightarrow> list_manager_response res" where
  "list_entry env b =
     (case strcpy_to (lr_box_name (raw_entry env)) (box_name b) of
        Inl e \<Rightarrow> Inl e
      | Inr nm \<Rightarrow>
          (case strcpy_to (lr_box_password (raw_entry env)) (box_password b) of
             Inl e \<Rightarrow> Inl e
           | Inr pw \<Rightarrow>
               Inr \<lparr>lr_code = 8, lr_last = 0, lr_box_name = nm,
                 lr_box_size = word_of_int (box_size b),
                 lr_n_pubs = ucast (word_of_int (n_pub b) :: 32 word),
                 lr_n_subs = ucast (word_of_int (n_subs b) :: 32 word),
                 lr_box_password = pw\<rparr>))"

function collect_boxes :: "env \<Rightarrow> box list \<Rightarrow> nat \<Rightarrow> nat \<Rightarrow> list_manager_response list res" where
  "collect_boxes env bs i n =
     (if i < n then
        if i < length bs then
          if box_free (bs ! i) = 1 then
            case list_entry env (bs ! i) of
              Inl e \<Rightarrow> Inl e
            | Inr x \<Rightarrow>
                (case collect_boxes env bs (Suc i) n of Inl e \<Rightarrow> Inl e | Inr xs \<Rightarrow> Inr (x # xs))
          else collect_boxes env bs (Suc i) n
        else Inl OutOfBounds
      else Inr [])"
  by pat_completeness auto
termination
  by (relation "measure (\<lambda>(e, bs, i, n). n - i)") auto

declare collect_boxes.simps [simp del]

text \<open>
  \<open>boxes_to_send\<close> has \<open>n = size_boxes\<close> elements; without boxes its first one is sent, blank, with
  whatever the other fields held.
\<close>

definition boxes_to_send :: "env \<Rightarrow> nat \<Rightarrow> list_manager_response list \<Rightarrow>
    list_manager_response list res" where
  "boxes_to_send env n entries =
     (if entries = [] then
        if n = 0 then Inl OutOfBounds
        else Inr [(raw_entry env)\<lparr>lr_code := 8, lr_box_name := replicate MAX_BOX_NAME NUL, lr_last := 1\<rparr>]
      else Inr (butlast entries @ [(last entries)\<lparr>lr_last := 1\<rparr>]))"

fun send_entries :: "env \<Rightarrow> char list \<Rightarrow> nat \<Rightarrow> list_manager_response list \<Rightarrow> unit brop" where
  "send_entries env pipe k [] = ret ()"
| "send_entries env pipe k (x # xs) =
     call (make_line env (List_response x) (lr_code x)) (\<lambda>l.
     call (write_pipe env k pipe l) (\<lambda>w.
     if w = Broken_pipe then ret () else send_entries env pipe (Suc k) xs))"

definition process_manager_list :: "env \<Rightarrow> list_manager_request \<Rightarrow> nat \<Rightarrow> unit brop" where
  "process_manager_list env r index =
     block [lock_boxes] (
     call (gets server_boxes) (\<lambda>bs. call (gets size_boxes) (\<lambda>n.
     call (lift (collect_boxes env bs 0 n)) (\<lambda>entries.
     block [unlock_boxes] (
     call (lift (boxes_to_send env n entries)) (\<lambda>xs.
     block [ignore_sigpipe] (
     call (open_pipe env (lq_pipe_name r)) (\<lambda>ok.
     if \<not> ok then ret ()
     else block [send_entries env (lq_pipe_name r) 0 xs, my_close env (lq_pipe_name r)] (ret ())))))))))"

section \<open>Locking and unlocking a box with a password\<close>

text \<open>
  The end of both handlers: \<open>tester\<close> is 1 when the password was changed, 0 when there is no such
  box and \<open>-1\<close> when the password was wrong.  The pipe is closed only after a complete write.
\<close>

definition answer_password :: "env \<Rightarrow> char list \<Rightarrow> 8 word \<Rightarrow> int \<Rightarrow> unit brop" where
  "answer_password env pipe c tester =
     call (open_pipe env pipe) (\<lambda>ok.
     if \<not> ok then ret ()
     else
       call (if tester = 1 then ok_answer c
             else if tester = 0 then error_answer env c msg_no_box
             else error_answer env c msg_password) (\<lambda>m.
       call (make_line env m c) (\<lambda>l.
       call (write_pipe env 0 pipe l) (\<lambda>w.
       if w \<noteq> Wrote MAX_LINE then ret () else call (lift (c_arg pipe)) (\<lambda>p. log_io (Closed p))))))"

definition process_manager_unlock :: "env \<Rightarrow> request \<Rightarrow> nat \<Rightarrow> unit brop" where
  "process_manager_unlock env r index =
     block [lock_boxes] (
     call (find_box (req_box_name r)) (\<lambda>found.
     call (case found of
             None \<Rightarrow> ret 0
           | Some i \<Rightarrow>
               call (same_password i (req_box_password r)) (\<lambda>same.
               if \<not> same then ret (- 1)
               else
                 block
                   [set_index index (int i),
                    upd_box (int i) (\<lambda>b. b\<lparr>box_password := replicate MAX_PASSWORD NUL\<rparr>)]
                   (ret 1))) (\<lambda>tester.
     block [unlock_boxes] (answer_password env (req_pipe_name r) 12 tester))))"

definition process_manager_lock :: "env \<Rightarrow> request_new_password \<Rightarrow> nat \<Rightarrow> unit brop" where
  "process_manager_lock env q index =
     block [lock_boxes] (
     call (find_box (req_box_name (np_request_lock q))) (\<lambda>found.
     call (case found of
             None \<Rightarrow> ret 0
           | Some i \<Rightarrow>
               call (same_password i (req_box_password (np_request_lock q))) (\<lambda>same.
               if \<not> same then ret (- 1)
               else
                 block [set_index index (int i)] (
                 call (get_box (int i)) (\<lambda>b.
                 call (lift (strcpy_to (box_password b) (np_new_password q))) (\<lambda>pw.
                 block [upd_box (int i) (\<lambda>b. b\<lparr>box_password := pw\<rparr>)] (ret 1)))))) (\<lambda>tester.
     block [unlock_boxes] (answer_password env (req_pipe_name (np_request_lock q)) 14 tester))))"

section \<open>Publishers\<close>

text \<open>\<open>x += y\<close> on an \<open>int\<close>.\<close>

definition int_add :: "int \<Rightarrow> int \<Rightarrow> int res" where
  "int_add a b = (if is_int32 (a + b) then Inr (a + b) else Inl SignedOverflow)"

text \<open>Lines 135 to 160: whether the publisher was accepted.\<close>

definition register_pub :: "env \<Rightarrow> request \<Rightarrow> nat \<Rightarrow> bool brop" where
  "register_pub env r index =
     block [lock_boxes] (
     call (find_box (req_box_name r)) (\<lambda>found.
     let refuse = block [my_open env (req_pipe_name r), my_close env (req_pipe_name r), unlock_boxes]
                    (ret False) in
     case found of
       None \<Rightarrow> refuse
     | Some i \<Rightarrow>
         call (get_box (int i)) (\<lambda>b.
         if n_pub b = 1 then
           block [unlock_boxes, my_open env (req_pipe_name r)] (
           call (lift (c_arg (req_pipe_name r))) (\<lambda>p. block [log_io (Closed p)] (ret False)))
         else
           call (same_password i (req_box_password r)) (\<lambda>same.
           if \<not> same then refuse
           else
             block
               [set_index index (int i),
                upd_box (int i) (\<lambda>b. b\<lparr>n_pub := 1\<rparr>),
                upd_box (int i) (\<lambda>b. b\<lparr>box_size := 0\<rparr>),
                unlock_boxes]
               (ret True)))))"

text \<open>
  One iteration per non-empty \<open>read\<close> from the pipe of the publisher; the list ends where the
  pipe is closed.  The result tells whether the handler goes on after its loop.  The message is
  the structure \<open>reader_stc\<close> returns, which is used as a \<open>messages_pipe\<close> whatever its code.
\<close>

fun pub_loop :: "env \<Rightarrow> char list \<Rightarrow> nat \<Rightarrow> int \<Rightarrow> char list list \<Rightarrow> bool brop" where
  "pub_loop env pipe index fd_tfs inputs =
     call (gets ending) (\<lambda>e.
     if e then block [my_close env pipe] (call (in_tfs (tfs_close fd_tfs)) (\<lambda>_. ret False))
     else
       case inputs of
         [] \<Rightarrow> ret True
       | bytes # rest \<Rightarrow>
           call (lift (case reader_stc (grants env) (bytes @ drop (length bytes) (raw_line env)) of
                         Inl e \<Rightarrow> Inl e
                       | Inr (Message m, _) \<Rightarrow> Inr (msg_message m)
                       | Inr _ \<Rightarrow> Inl Indeterminate)) (\<lambda>message.
           call (lift (c_strlen message)) (\<lambda>n.
           call (in_tfs (tfs_write fd_tfs message (size_add n 1))) (\<lambda>bytes_tfs.
           if bytes_tfs = - 1 then ret True
           else
             call (get_index index) (\<lambda>i.
             call (get_box i) (\<lambda>b.
             call (lift (int_add (box_size b) (to_int n))) (\<lambda>sz.
             block [upd_box i (\<lambda>b. b\<lparr>box_size := sz\<rparr>)]
               (pub_loop env pipe index fd_tfs rest))))))))"

definition process_pub :: "env \<Rightarrow> request \<Rightarrow> nat \<Rightarrow> char list list \<Rightarrow> unit brop" where
  "process_pub env r index inputs =
     call (register_pub env r index) (\<lambda>accepted.
     if \<not> accepted then ret ()
     else
       block [ignore_sigpipe, my_open env (req_pipe_name r)] (
       call (lift (c_arg (req_box_name r))) (\<lambda>path.
       call (in_tfs (tfs_open (Some path) TFS_O_APPEND)) (\<lambda>fd_tfs.
       if fd_tfs = - 1 then my_close env (req_pipe_name r)
       else
         call (pub_loop env (req_pipe_name r) index fd_tfs inputs) (\<lambda>go_on.
         if \<not> go_on then ret ()
         else
           call (in_tfs (tfs_close fd_tfs)) (\<lambda>_.
           block [my_close env (req_pipe_name r)] (
           call (get_index index) (\<lambda>i. upd_box i (\<lambda>b. b\<lparr>n_pub := 0\<rparr>)))))))))"

section \<open>Subscribers\<close>

text \<open>Lines 53 to 73: the handle of the file of the box, \<open>None\<close> when the subscriber is refused.\<close>

definition register_sub :: "env \<Rightarrow> request \<Rightarrow> nat \<Rightarrow> int option brop" where
  "register_sub env r index =
     block [lock_boxes] (
     call (find_box (req_box_name r)) (\<lambda>found.
     call (case found of
             None \<Rightarrow> ret False
           | Some i \<Rightarrow>
               call (same_password i (req_box_password r)) (\<lambda>same.
               if \<not> same then ret False
               else
                 block [set_index index (int i)] (
                 call (get_box (int i)) (\<lambda>b.
                 call (lift (int_add (n_subs b) 1)) (\<lambda>k.
                 block [upd_box (int i) (\<lambda>b. b\<lparr>n_subs := k\<rparr>)] (ret True)))))) (\<lambda>tester.
     block [unlock_boxes] (
     if \<not> tester then block [my_open env (req_pipe_name r), my_close env (req_pipe_name r)] (ret None)
     else
       call (lift (c_arg (req_box_name r))) (\<lambda>path.
       call (in_tfs (tfs_open (Some path) 0)) (\<lambda>fd_tfs.
       if fd_tfs = - 1 then fail ExitFailure
       else block [ignore_sigpipe, my_open env (req_pipe_name r)] (ret (Some fd_tfs))))))))"

definition lock_box :: "int \<Rightarrow> unit brop" where
  "lock_box i =
     call (get_box i) (\<lambda>b. if box_lock b then fail Deadlock else upd_box i (\<lambda>b. b\<lparr>box_lock := True\<rparr>))"

definition unlock_box :: "int \<Rightarrow> unit brop" where
  "unlock_box i =
     call (get_box i) (\<lambda>b. if box_lock b then upd_box i (\<lambda>b. b\<lparr>box_lock := False\<rparr>) else fail LockMisuse)"

definition drop_sub :: "int \<Rightarrow> unit brop" where
  "drop_sub i =
     call (get_box i) (\<lambda>b. call (lift (int_add (n_subs b) (- 1))) (\<lambda>k. upd_box i (\<lambda>b. b\<lparr>n_subs := k\<rparr>)))"

text \<open>
  What the subscriber does next: it sleeps on the condition variable of the box (the lock of the
  box is released while it does), the handler has returned, or \<open>fuel\<close> ran out.
\<close>

datatype sub_state = Waiting | Gone | Out_of_fuel

text \<open>
  Lines 99 to 124, with \<open>teste\<close> the contents of the buffer after a \<open>tfs_read\<close> of \<open>value\<close>
  bytes and \<open>message\<close> that of \<open>newmessage.message\<close>.  \<open>None\<close>: there was nothing more to read.
\<close>

fun sub_drain :: "nat \<Rightarrow> env \<Rightarrow> char list \<Rightarrow> int \<Rightarrow> int \<Rightarrow> nat \<Rightarrow> int \<Rightarrow> char list \<Rightarrow> char list \<Rightarrow>
    sub_state option brop" where
  "sub_drain 0 env pipe i fd_tfs k value teste message = ret (Some Out_of_fuel)"
| "sub_drain (Suc fuel) env pipe i fd_tfs k value teste message =
     (if value \<le> 0 then ret None
      else
        call (lift (strcpy_to message teste)) (\<lambda>msg.
        call (make_line env (Message \<lparr>msg_code = 10, msg_message = msg\<rparr>) 10) (\<lambda>l.
        call (write_pipe env k pipe l) (\<lambda>w.
        if w = Broken_pipe then
          block [drop_sub i] (
          call (in_tfs (tfs_close fd_tfs)) (\<lambda>_. block [unlock_box i] (ret (Some Gone))))
        else
          call (in_tfs (tfs_read fd_tfs 1024)) (\<lambda>r.
          if fst r = - 1 then
            block [drop_sub i, my_close env pipe] (
            call (in_tfs (tfs_close fd_tfs)) (\<lambda>_. block [unlock_box i] (ret (Some Gone))))
          else
            sub_drain fuel env pipe i fd_tfs (Suc k) (fst r) (snd r @ replicate (1024 - length (snd r)) NUL)
              (replicate 1024 NUL))))))"

text \<open>
  Lines 74 to 126 from the moment the subscriber gets the lock of the box (at the start or after
  it was woken) until it sleeps or returns.  \<open>teste\<close> and \<open>newmessage\<close> are uninitialised.
\<close>

fun sub_loop :: "nat \<Rightarrow> env \<Rightarrow> char list \<Rightarrow> nat \<Rightarrow> int \<Rightarrow> sub_state brop" where
  "sub_loop 0 env pipe index fd_tfs = ret Out_of_fuel"
| "sub_loop (Suc fuel) env pipe index fd_tfs =
     call (get_index index) (\<lambda>i.
     block [lock_box i] (
     call (in_tfs (tfs_read fd_tfs 1024)) (\<lambda>r.
     if fst r = 0 then block [unlock_box i] (ret Waiting)
     else
       call (gets ending) (\<lambda>e.
       if e then
         block [unlock_box i, my_close env pipe] (call (in_tfs (tfs_close fd_tfs)) (\<lambda>_. ret Gone))
       else if fst r = - 1 then
         block [drop_sub i, my_close env pipe] (
         call (in_tfs (tfs_close fd_tfs)) (\<lambda>_. block [unlock_box i] (ret Gone)))
       else
         call (sub_drain fuel env pipe i fd_tfs 0 (fst r)
           (snd r @ drop (length (snd r)) (raw_text env)) (raw_text env)) (\<lambda>d.
         case d of
           Some x \<Rightarrow> ret x
         | None \<Rightarrow> block [unlock_box i] (sub_loop fuel env pipe index fd_tfs))))))"

section \<open>The main loop\<close>

datatype handler = H_pub | H_sub | H_create | H_remove | H_list | H_unlock | H_lock

text \<open>\<open>None\<close>: \<open>newtask->function\<close> is left as \<open>malloc\<close> returned it.\<close>

definition select_handler :: "8 word \<Rightarrow> handler option" where
  "select_handler code_pipe =
     (if code_pipe = 1 then Some H_pub
      else if code_pipe = 2 then Some H_sub
      else if code_pipe = 3 then Some H_create
      else if code_pipe = 5 then Some H_remove
      else if code_pipe = 7 then Some H_list
      else if code_pipe = 11 then Some H_unlock
      else if code_pipe = 13 then Some H_lock
      else None)"

record task =
  function_of :: "handler option"
  request_of :: object

text \<open>Lines 519 to 548: the task made of the line that was read from the server pipe.\<close>

definition make_task :: "(nat \<Rightarrow> bool) \<Rightarrow> char list \<Rightarrow> task res" where
  "make_task gr buffer =
     (if \<not> gr 16 then Inl ExitFailure
      else case reader_stc gr buffer of
        Inl e \<Rightarrow> Inl e
      | Inr (m, _) \<Rightarrow>
          (case get_bytes 0 1 buffer of
             Inl e \<Rightarrow> Inl e
           | Inr (c, _) \<Rightarrow> Inr \<lparr>function_of = select_handler (u8_of c), request_of = m\<rparr>))"

text \<open>
  \<open>newtask->function(newtask->request, index)\<close> of \<open>thread_init\<close>: each handler casts its
  argument.  \<open>inputs\<close> is what a publisher will send; a subscriber runs until it first sleeps.
\<close>

definition run_task :: "env \<Rightarrow> nat \<Rightarrow> nat \<Rightarrow> char list list \<Rightarrow> task \<Rightarrow> unit brop" where
  "run_task env fuel index inputs t =
     (case (function_of t, request_of t) of
        (Some H_pub, Request r) \<Rightarrow> process_pub env r index inputs
      | (Some H_sub, Request r) \<Rightarrow>
          call (register_sub env r index) (\<lambda>h.
          case h of
            None \<Rightarrow> ret ()
          | Some fd_tfs \<Rightarrow>
              call (sub_loop fuel env (req_pipe_name r) index fd_tfs) (\<lambda>_. ret ()))
      | (Some H_create, Request r) \<Rightarrow> process_manager_create env r index
      | (Some H_remove, Request r) \<Rightarrow> process_manager_remove env r index
      | (Some H_list, List_request r) \<Rightarrow> process_manager_list env r index
      | (Some H_unlock, Request r) \<Rightarrow> process_manager_unlock env r index
      | (Some H_lock, New_password r) \<Rightarrow> process_manager_lock env r index
      | _ \<Rightarrow> fail Indeterminate)"

text \<open>
  Lines 493 to 514 of \<open>main\<close>, with \<open>n = atoi(argv[2])\<close>: \<open>thread_pool->index\<close> is the index of
  thread 0 in every iteration; the other ones keep the contents \<open>raw_index\<close> of their memory.
\<close>

definition start_broker :: "heap \<Rightarrow> env \<Rightarrow> (nat \<Rightarrow> int) \<Rightarrow> nat \<Rightarrow> unit brop" where
  "start_broker h env raw_index n =
     call (in_tfs (tfs_init h None)) (\<lambda>_.
     if \<not> grants env (size_mul n 144) \<or> \<not> grants env (size_mul n 16) then fail ExitFailure
     else
       modify (\<lambda>s. s\<lparr>
         server_boxes := map (\<lambda>i. (raw_box env i)\<lparr>box_free := 0, box_lock := False\<rparr>) [0 ..< n],
         size_boxes := n,
         thread_pool := map (\<lambda>i. if i = 0 then - 1 else raw_index i) [0 ..< n],
         box_size_lock := False\<rparr>))"

end
