(* ===== verification/Broker_Exec.thy ===== *)
theory Broker_Exec
  imports Broker FS_Runs
begin

text \<open>
  How the parts of the handlers run from a well-formed broker: the scans of the table, the
  strings in character arrays, the answers on the pipes of the clients.
\<close>

declare pub_loop.simps [simp del]

section \<open>Strings in arrays\<close>

lemma c_streq_arrays:
  assumes "NUL \<in> set a" and "NUL \<in> set b"
  shows "c_streq a b = Inr (c_string a = c_string b)"
proof -
  from assms obtain r q where "a = c_string a @ NUL # r" "b = c_string b @ NUL # q"
    using c_string_split by meson
  with c_streq_term [OF c_string_no_NUL c_string_no_NUL, of a r b q] show ?thesis by simp
qed

lemma c_arg_exec: "NUL \<in> set a \<Longrightarrow> c_arg a = Inr (c_string a)"
  by (simp add: c_arg_def)

lemma c_string_short: "NUL \<in> set a \<Longrightarrow> length (c_string a) < length a"
proof -
  assume "NUL \<in> set a"
  then obtain r where "a = c_string a @ NUL # r" using c_string_split by meson
  then have "length a = length (c_string a @ NUL # r)" by (rule arg_cong)
  then show ?thesis by simp
qed

text \<open>The array after a \<open>strcpy\<close> into it.\<close>

definition copied :: "char list \<Rightarrow> char list \<Rightarrow> char list" where
  "copied dst src = c_string src @ NUL # drop (Suc (length (c_string src))) dst"

lemma strcpy_to_exec:
  assumes "NUL \<in> set src" and "length (c_string src) < length dst"
  shows "strcpy_to dst src = Inr (copied dst src)"
proof -
  from assms(1) obtain r where r: "src = c_string src @ NUL # r" using c_string_split by meson
  have "c_strcpy src = Inr (c_string src @ [NUL])"
    using c_strcpy_term [OF c_string_no_NUL, of src r] r by simp
  with assms(2) show ?thesis by (simp add: strcpy_to_def copied_def)
qed

lemma copied_facts [simp]:
  "length (c_string src) < length dst \<Longrightarrow> length (copied dst src) = length dst"
  "NUL \<in> set (copied dst src)" "c_string (copied dst src) = c_string src"
  by (simp_all add: copied_def c_string_no_NUL)

lemma c_string_literal [simp]: "NUL \<notin> set u \<Longrightarrow> c_string (u @ [NUL]) = u"
  using c_string_term [of u "[]"] by simp

section \<open>Well-formed brokers\<close>

definition string_array :: "nat \<Rightarrow> char list \<Rightarrow> bool" where
  "string_array n a \<longleftrightarrow> length a = n \<and> NUL \<in> set a"

definition box_ok :: "box \<Rightarrow> bool" where
  "box_ok b \<longleftrightarrow> string_array MAX_BOX_NAME (box_name b) \<and>
     string_array MAX_PASSWORD (box_password b)"

text \<open>Between two handlers.\<close>

definition broker_inv :: "broker \<Rightarrow> bool" where
  "broker_inv s \<longleftrightarrow>
     length (server_boxes s) = size_boxes s \<and> size_boxes s < 1073741824 \<and>
     (\<forall>b \<in> set (server_boxes s). box_ok b) \<and>
     \<not> box_size_lock s \<and> fs_inv (tfs s) \<and> idle (tfs s)"

definition request_ok :: "request \<Rightarrow> bool" where
  "request_ok r \<longleftrightarrow> string_array MAX_PIPE_NAME (req_pipe_name r) \<and>
     string_array MAX_BOX_NAME (req_box_name r) \<and> string_array MAX_PASSWORD (req_box_password r)"

text \<open>The memory of the handler has the sizes of its arrays.\<close>

definition env_ok :: "env \<Rightarrow> bool" where
  "env_ok env \<longleftrightarrow> length (raw_line env) = MAX_LINE \<and> length (raw_text env) = 1024 \<and>
     length (lr_box_name (raw_entry env)) = MAX_BOX_NAME \<and>
     length (lr_box_password (raw_entry env)) = MAX_PASSWORD"

text \<open>The client keeps its pipe open for one answer.\<close>

definition pipe_ok :: "env \<Rightarrow> char list \<Rightarrow> bool" where
  "pipe_ok env a \<longleftrightarrow> can_open env (c_string a) \<and> can_close env \<and> write_answer env 0 = Wrote MAX_LINE"

abbreviation name_of :: "box \<Rightarrow> string" where
  "name_of b \<equiv> c_string (box_name b)"

abbreviation password_of :: "box \<Rightarrow> string" where
  "password_of b \<equiv> c_string (box_password b)"

definition position :: "broker \<Rightarrow> string \<Rightarrow> nat option" where
  "position s v = first_index (\<lambda>b. name_of b = v) (server_boxes s)"

lemma broker_invD:
  assumes "broker_inv s"
  shows "length (server_boxes s) = size_boxes s" "size_boxes s < 1073741824"
    "b \<in> set (server_boxes s) \<Longrightarrow> box_ok b" "\<not> box_size_lock s" "fs_inv (tfs s)" "idle (tfs s)"
  using assms by (simp_all add: broker_inv_def)

section \<open>Scans\<close>

lemma scan_boxes_exec:
  assumes "NUL \<in> set name" and "\<And>b. b \<in> set bs \<Longrightarrow> box_ok b" and "i \<le> length bs"
  shows "scan_boxes name bs i (length bs) = Inr (map_option (\<lambda>k. i + k)
    (first_index (\<lambda>b. name_of b = c_string name) (drop i bs)))"
  using assms(3)
proof (induction "length bs - i" arbitrary: i)
  case 0
  then show ?case by (subst scan_boxes.simps) simp
next
  case (Suc n)
  then have i: "i < length bs" by simp
  then have d: "drop i bs = bs ! i # drop (Suc i) bs" by (rule Cons_nth_drop_Suc [symmetric])
  have "NUL \<in> set (box_name (bs ! i))" using assms(2) [of "bs ! i"] i
    by (simp add: box_ok_def string_array_def)
  with assms(1) have e: "c_streq name (box_name (bs ! i)) = Inr (c_string name = name_of (bs ! i))"
    by (rule c_streq_arrays)
  have "scan_boxes name bs (Suc i) (length bs) = Inr (map_option (\<lambda>k. Suc i + k)
    (first_index (\<lambda>b. name_of b = c_string name) (drop (Suc i) bs)))"
    by (rule Suc.hyps(1)) (use Suc.hyps(2) i in simp_all)
  with i e show ?case
    by (subst scan_boxes.simps)
      (cases "first_index (\<lambda>b. name_of b = c_string name) (drop (Suc i) bs)"; auto simp: d)
qed

lemma find_box_exec [exec_simps]:
  assumes "broker_inv (s\<lparr>box_size_lock := False\<rparr>)" and "NUL \<in> set name"
  shows "call (find_box name) k s = k (position s (c_string name)) s"
proof -
  have "scan_boxes name (server_boxes s) 0 (length (server_boxes s)) =
    Inr (position s (c_string name))"
    using scan_boxes_exec [OF assms(2), of "server_boxes s" 0] broker_invD(3) [OF assms(1)]
    by (simp add: position_def option.map_ident)
  moreover have "length (server_boxes s) = size_boxes s" using broker_invD(1) [OF assms(1)] by simp
  ultimately show ?thesis by (simp add: find_box_def exec_simps call_def gets_def lift_def)
qed

lemma scan_unused_exec:
  assumes "i \<le> length bs"
  shows "scan_unused bs i (length bs) = Inr (map_option (\<lambda>k. i + k)
    (first_index (\<lambda>b. box_free b = 0) (drop i bs)))"
  using assms
proof (induction "length bs - i" arbitrary: i)
  case 0
  then show ?case by (subst scan_unused.simps) simp
next
  case (Suc n)
  then have i: "i < length bs" by simp
  then have d: "drop i bs = bs ! i # drop (Suc i) bs" by (rule Cons_nth_drop_Suc [symmetric])
  have "scan_unused bs (Suc i) (length bs) = Inr (map_option (\<lambda>k. Suc i + k)
    (first_index (\<lambda>b. box_free b = 0) (drop (Suc i) bs)))"
    by (rule Suc.hyps(1)) (use Suc.hyps(2) i in simp_all)
  with i show ?case
    by (subst scan_unused.simps)
      (cases "first_index (\<lambda>b. box_free b = 0) (drop (Suc i) bs)"; auto simp: d)
qed

lemma position_Some:
  assumes "position s v = Some i"
  shows "i < length (server_boxes s)" "name_of (server_boxes s ! i) = v"
    "server_boxes s ! i \<in> set (server_boxes s)"
  using first_index_SomeD [OF assms [unfolded position_def]] by simp_all

lemma position_None: "position s v = None \<longleftrightarrow> (\<forall>b \<in> set (server_boxes s). name_of b \<noteq> v)"
  by (simp add: position_def first_index_None)

section \<open>Elements of the tables\<close>

lemma get_box_exec [exec_simps]:
  "i < length (server_boxes s) \<Longrightarrow> call (get_box (int i)) k s = k (server_boxes s ! i) s"
  by (simp add: get_box_def call_def gets_def lift_def)

definition box_set :: "nat \<Rightarrow> (box \<Rightarrow> box) \<Rightarrow> broker \<Rightarrow> broker" where
  "box_set i f s = s\<lparr>server_boxes := (server_boxes s)[i := f (server_boxes s ! i)]\<rparr>"

lemma upd_box_exec [exec_simps]:
  "i < length (server_boxes s) \<Longrightarrow> upd_box (int i) f s = Inr ((), box_set i f s)"
  by (simp add: upd_box_def get_box_def call_def gets_def lift_def modify_def box_set_def)

lemma call_upd_box [exec_simps]:
  "i < length (server_boxes s) \<Longrightarrow> call (upd_box (int i) f) k s = k () (box_set i f s)"
  by (simp add: call_def upd_box_exec)

lemma get_index_exec [exec_simps]:
  "j < length (thread_pool s) \<Longrightarrow> call (get_index j) k s = k (thread_pool s ! j) s"
  by (simp add: get_index_def call_def gets_def lift_def)

lemma set_index_exec:
  "j < length (thread_pool s) \<Longrightarrow>
   call (set_index j i) k s = k () (s\<lparr>thread_pool := (thread_pool s)[j := i]\<rparr>)"
  by (simp add: set_index_def call_def gets_def lift_def modify_def)

lemma same_password_exec [exec_simps]:
  assumes "i < length (server_boxes s)" and "box_ok (server_boxes s ! i)" and "NUL \<in> set pw"
  shows "call (same_password i pw) k s = k (password_of (server_boxes s ! i) = c_string pw) s"
  using assms c_streq_arrays [of "box_password (server_boxes s ! i)" pw]
  by (simp add: same_password_def get_box_def call_def gets_def lift_def box_ok_def string_array_def)

lemma box_lock_exec [exec_simps]:
  "call lock_boxes k s = (if box_size_lock s then Inl Deadlock else k () (s\<lparr>box_size_lock := True\<rparr>))"
  "call unlock_boxes k s = (if box_size_lock s then k () (s\<lparr>box_size_lock := False\<rparr>) else Inl LockMisuse)"
  "unlock_boxes s = (if box_size_lock s then Inr ((), s\<lparr>box_size_lock := False\<rparr>) else Inl LockMisuse)"
  by (simp_all add: call_def lock_boxes_def unlock_boxes_def)

section \<open>Pipes\<close>

definition logged :: "io list \<Rightarrow> broker \<Rightarrow> broker" where
  "logged es s = s\<lparr>pipes := pipes s @ es\<rparr>"

lemma open_pipe_exec [exec_simps]:
  "NUL \<in> set a \<Longrightarrow> call (open_pipe env a) k s =
    (if can_open env (c_string a) then k True (logged [Opened (c_string a)] s) else k False s)"
  by (simp add: open_pipe_def c_arg_exec log_io_def call_def lift_def modify_def ret_def logged_def)

lemma my_open_exec [exec_simps]:
  "NUL \<in> set a \<Longrightarrow> call (my_open env a) k s =
    (if can_open env (c_string a) then k () (logged [Opened (c_string a)] s) else Inl ExitFailure)"
  by (simp add: my_open_def open_pipe_def c_arg_exec log_io_def call_def lift_def modify_def ret_def
      fail_def logged_def)

lemma my_close_exec [exec_simps]:
  "NUL \<in> set a \<Longrightarrow> my_close env a s =
    (if can_close env then Inr ((), logged [Closed (c_string a)] s) else Inl ExitFailure)"
  by (simp add: my_close_def c_arg_exec log_io_def call_def lift_def modify_def fail_def logged_def)

lemma call_my_close [exec_simps]:
  "NUL \<in> set a \<Longrightarrow> call (my_close env a) k s =
    (if can_close env then k () (logged [Closed (c_string a)] s) else Inl ExitFailure)"
  by (simp add: call_def my_close_exec)

lemma ignore_exec [exec_simps]: "call ignore_sigpipe k s = k () (s\<lparr>sigpipe_ignored := True\<rparr>)"
  by (simp add: ignore_sigpipe_def call_def modify_def)

lemma make_line_exec [exec_simps]:
  "well_formed m \<Longrightarrow> env_ok env \<Longrightarrow> c = code_of m \<Longrightarrow>
   call (make_line env m c) k s = k (line (layout m)) s"
  by (simp add: make_line_def writer_stc_exec env_ok_def call_def lift_def)

lemma write_pipe_exec [exec_simps]:
  "NUL \<in> set a \<Longrightarrow> write_answer env k = Wrote n \<Longrightarrow>
   call (write_pipe env k a l) f s = f (Wrote n) (logged [Sent (c_string a) (take n l)] s)"
  by (simp add: write_pipe_def c_arg_exec log_io_def call_def lift_def modify_def gets_def ret_def
      logged_def)

text \<open>A line that a client reads as an answer.\<close>

definition answer_line :: "8 word \<Rightarrow> 32 word \<Rightarrow> string \<Rightarrow> char list \<Rightarrow> bool" where
  "answer_line c rc text l \<longleftrightarrow> length l = MAX_LINE \<and>
     (\<exists>m. reader_stc (\<lambda>_. True) l = Inr (Response m, l) \<and> resp_code m = c \<and>
        resp_return_code m = rc \<and> NUL \<in> set (resp_error_message m) \<and>
        c_string (resp_error_message m) = text)"

lemma answer_line_layout:
  assumes "well_formed (Response m)" and "NUL \<in> set (resp_error_message m)"
  shows "answer_line (resp_code m) (resp_return_code m) (c_string (resp_error_message m))
    (line (layout (Response m)))"
  using reader_stc_exec [of "line (layout (Response m))"] reads_as_line [OF assms(1)]
    length_line [OF layout_fits [OF assms(1)]] assms(2)
  by (simp add: answer_line_def del: layout.simps)

abbreviation ok_response :: "8 word \<Rightarrow> response_manager" where
  "ok_response c \<equiv> \<lparr>resp_code = c, resp_return_code = 0, resp_error_message = replicate 1024 NUL\<rparr>"

definition error_response :: "env \<Rightarrow> 8 word \<Rightarrow> string \<Rightarrow> response_manager" where
  "error_response env c msg = \<lparr>resp_code = c, resp_return_code = - 1,
     resp_error_message = copied (raw_text env) (msg @ [NUL])\<rparr>"

lemma error_response_fields [simp]:
  "resp_code (error_response env c msg) = c" "resp_return_code (error_response env c msg) = - 1"
  "NUL \<notin> set msg \<Longrightarrow> c_string (resp_error_message (error_response env c msg)) = msg"
  "NUL \<in> set (resp_error_message (error_response env c msg))"
  by (simp_all add: error_response_def)

lemma error_response_ok:
  "env_ok env \<Longrightarrow> c \<in> set response_codes \<Longrightarrow> NUL \<notin> set msg \<Longrightarrow> length msg < 1024 \<Longrightarrow>
   well_formed (Response (error_response env c msg))"
  by (simp add: error_response_def env_ok_def)

lemma error_answer_exec [exec_simps]:
  assumes "env_ok env" and "NUL \<notin> set msg" and "length msg < 1024"
  shows "call (error_answer env c msg) k s = k (Response (error_response env c msg)) s"
proof -
  have "strcpy_to (raw_text env) (msg @ [NUL]) = Inr (copied (raw_text env) (msg @ [NUL]))"
    using assms by (intro strcpy_to_exec) (simp_all add: env_ok_def)
  then show ?thesis by (simp add: error_answer_def call_def lift_def ret_def error_response_def)
qed

lemma ok_answer_exec [exec_simps]: "call (ok_answer c) k s = k (Response (ok_response c)) s"
  by (simp add: ok_answer_def call_def ret_def)

lemma c_string_zeros [simp]: "c_string (replicate n NUL) = []"
  by (cases n) (simp_all add: c_string_def)

lemma ok_response_ok: "c \<in> set response_codes \<Longrightarrow> well_formed (Response (ok_response c))"
  by simp

lemmas messages = msg_create_failed_def msg_remove_failed_def msg_remove_password_def
  msg_no_box_def msg_password_def

lemma messages_short [simp]:
  "NUL \<notin> set msg_create_failed" "length msg_create_failed < 1024"
  "NUL \<notin> set msg_remove_failed" "length msg_remove_failed < 1024"
  "NUL \<notin> set msg_remove_password" "length msg_remove_password < 1024"
  "NUL \<notin> set msg_no_box" "length msg_no_box < 1024"
  "NUL \<notin> set msg_password" "length msg_password < 1024"
  by (simp_all add: messages)

end
