(* ===== verification/Broker_Handlers.thy ===== *)
theory Broker_Handlers
  imports Broker_Exec
begin

text \<open>
  The result of each handler of the managers, as an equation: the state in which it leaves the
  broker and what it did to the pipe of the client.
\<close>

section \<open>Answers\<close>

definition replied :: "char list \<Rightarrow> response_manager \<Rightarrow> broker \<Rightarrow> broker" where
  "replied pipe m s =
     logged [Opened (c_string pipe), Sent (c_string pipe) (line (layout (Response m))),
       Closed (c_string pipe)] s"

lemma logged_fields [simp]:
  "server_boxes (logged es s) = server_boxes s" "size_boxes (logged es s) = size_boxes s"
  "thread_pool (logged es s) = thread_pool s" "box_size_lock (logged es s) = box_size_lock s"
  "sigpipe_ignored (logged es s) = sigpipe_ignored s" "ending (logged es s) = ending s"
  "tfs (logged es s) = tfs s" "pipes (logged es s) = pipes s @ es"
  by (simp_all add: logged_def)

lemma logged_logged [simp]: "logged fs (logged es s) = logged (es @ fs) s"
  by (simp add: logged_def)

lemma logged_update [simp]:
  "(logged es s)\<lparr>box_size_lock := v\<rparr> = logged es (s\<lparr>box_size_lock := v\<rparr>)"
  "(logged es s)\<lparr>sigpipe_ignored := v\<rparr> = logged es (s\<lparr>sigpipe_ignored := v\<rparr>)"
  by (simp_all add: logged_def)

lemma replied_fields [simp]:
  "server_boxes (replied p m s) = server_boxes s" "size_boxes (replied p m s) = size_boxes s"
  "thread_pool (replied p m s) = thread_pool s" "box_size_lock (replied p m s) = box_size_lock s"
  "sigpipe_ignored (replied p m s) = sigpipe_ignored s" "tfs (replied p m s) = tfs s"
  by (simp_all add: replied_def)

lemma box_set_fields [simp]:
  "length (server_boxes (box_set i f s)) = length (server_boxes s)"
  "size_boxes (box_set i f s) = size_boxes s" "thread_pool (box_set i f s) = thread_pool s"
  "box_size_lock (box_set i f s) = box_size_lock s" "tfs (box_set i f s) = tfs s"
  "sigpipe_ignored (box_set i f s) = sigpipe_ignored s" "ending (box_set i f s) = ending s"
  "pipes (box_set i f s) = pipes s"
  "server_boxes (box_set i f s) = (server_boxes s)[i := f (server_boxes s ! i)]"
  by (simp_all add: box_set_def)

lemma box_set_box_set [simp]:
  "i < length (server_boxes s) \<Longrightarrow> box_set i g (box_set i f s) = box_set i (\<lambda>b. g (f b)) s"
  by (simp add: box_set_def)

lemma line_layout_length [simp]:
  "well_formed m \<Longrightarrow> take MAX_LINE (line (layout m)) = line (layout m)"
  using length_line [OF layout_fits] by simp

lemma inv_update [simp]:
  "broker_inv (s\<lparr>thread_pool := ts\<rparr>) = broker_inv s"
  "broker_inv (s\<lparr>sigpipe_ignored := v\<rparr>) = broker_inv s"
  "broker_inv (logged es s) = broker_inv s" "broker_inv (replied p m s) = broker_inv s"
  by (simp_all add: broker_inv_def)

lemma inv_unlocked: "broker_inv s \<Longrightarrow> s\<lparr>box_size_lock := False\<rparr> = s"
  by (auto simp: broker_inv_def intro!: broker.equality)

lemma inv_box_set:
  assumes "broker_inv s" and "i < length (server_boxes s)" and "box_ok (f (server_boxes s ! i))"
  shows "broker_inv (box_set i f s)"
  using assms set_update_subset_insert [of "server_boxes s" i "f (server_boxes s ! i)"]
  by (auto simp: broker_inv_def)

lemma position_update [simp]:
  "position (s\<lparr>box_size_lock := v\<rparr>) nm = position s nm" "position (logged es s) nm = position s nm"
  by (simp_all add: position_def)

lemma answer_and_close_exec [exec_simps]:
  assumes "well_formed (Response m)" and "env_ok env" and "NUL \<in> set pipe"
    and "write_answer env 0 = Wrote MAX_LINE" and "can_close env" and "c = resp_code m"
  shows "call (answer_and_close env pipe (Response m) c) k s =
    k () (logged [Sent (c_string pipe) (line (layout (Response m))), Closed (c_string pipe)] s)"
  using assms by (simp add: answer_and_close_def call_def [of "call _ _"] exec_simps del: layout.simps)

lemma answer_password_exec:
  assumes e: "env_ok env" "pipe_ok env pipe" and p: "NUL \<in> set pipe" and c: "c \<in> set response_codes"
  shows "answer_password env pipe c tester s = Inr ((), replied pipe
    (if tester = 1 then ok_response c
     else if tester = 0 then error_response env c msg_no_box
     else error_response env c msg_password) s)"
proof -
  have o: "can_open env (c_string pipe)" "write_answer env 0 = Wrote MAX_LINE"
    using e(2) by (simp_all add: pipe_ok_def)
  have m: "well_formed (Response (error_response env c msg_no_box))"
    "well_formed (Response (error_response env c msg_password))"
    "well_formed (Response (ok_response c))"
    using error_response_ok [OF e(1) c] ok_response_ok [OF c] by simp_all
  show ?thesis
    using o e(1) p m
    by (simp add: answer_password_def replied_def exec_simps c_arg_exec log_io_def logged_def
      del: layout.simps well_formed.simps)
qed

section \<open>Passwords\<close>

lemma box_in_table:
  assumes "broker_inv s" and "position s v = Some i"
  shows "i < length (server_boxes s)" "box_ok (server_boxes s ! i)" "name_of (server_boxes s ! i) = v"
  using position_Some [OF assms(2)] broker_invD(3) [OF assms(1)] by simp_all

definition indexed :: "nat \<Rightarrow> nat \<Rightarrow> broker \<Rightarrow> broker" where
  "indexed j i s = s\<lparr>thread_pool := (thread_pool s)[j := int i]\<rparr>"

lemma indexed_fields [simp]:
  "server_boxes (indexed j i s) = server_boxes s" "size_boxes (indexed j i s) = size_boxes s"
  "box_size_lock (indexed j i s) = box_size_lock s" "tfs (indexed j i s) = tfs s"
  "sigpipe_ignored (indexed j i s) = sigpipe_ignored s" "ending (indexed j i s) = ending s"
  "length (thread_pool (indexed j i s)) = length (thread_pool s)"
  "j < length (thread_pool s) \<Longrightarrow> thread_pool (indexed j i s) ! j = int i"
  "broker_inv (indexed j i s) = broker_inv s"
  "(indexed j i s)\<lparr>box_size_lock := v\<rparr> = indexed j i (s\<lparr>box_size_lock := v\<rparr>)"
  by (simp_all add: indexed_def)

lemma request_okD:
  assumes "request_ok r"
  shows "NUL \<in> set (req_pipe_name r)" "NUL \<in> set (req_box_name r)" "NUL \<in> set (req_box_password r)"
    "length (req_box_name r) = 32" "length (req_box_password r) = 5"
  using assms by (simp_all add: request_ok_def string_array_def max_defs)

lemma set_index_indexed [exec_simps]:
  "j < length (thread_pool s) \<Longrightarrow> call (set_index j (int i)) k s = k () (indexed j i s)"
  by (simp add: set_index_exec indexed_def)

lemma box_set_lock [simp]:
  "(box_set i f s)\<lparr>box_size_lock := v\<rparr> = box_set i f (s\<lparr>box_size_lock := v\<rparr>)"
  by (simp add: box_set_def)

text \<open>What the answer to a request that carries a password is.\<close>

definition password_reply :: "env \<Rightarrow> 8 word \<Rightarrow> broker \<Rightarrow> string \<Rightarrow> string \<Rightarrow> response_manager" where
  "password_reply env c s v pw =
     (case position s v of
        None \<Rightarrow> error_response env c msg_no_box
      | Some i \<Rightarrow> if password_of (server_boxes s ! i) = pw then ok_response c
                  else error_response env c msg_password)"

definition unlocked :: "nat \<Rightarrow> broker \<Rightarrow> string \<Rightarrow> string \<Rightarrow> broker" where
  "unlocked j s v pw =
     (case position s v of
        None \<Rightarrow> s
      | Some i \<Rightarrow> if password_of (server_boxes s ! i) = pw
                  then box_set i (\<lambda>b. b\<lparr>box_password := replicate MAX_PASSWORD NUL\<rparr>) (indexed j i s)
                  else s)"

lemma process_manager_unlock_exec:
  assumes inv: "broker_inv s" and r: "request_ok r" and e: "env_ok env" "pipe_ok env (req_pipe_name r)"
    and j: "j < length (thread_pool s)"
  shows "process_manager_unlock env r j s = Inr ((), replied (req_pipe_name r)
    (password_reply env 12 s (c_string (req_box_name r)) (c_string (req_box_password r)))
    (unlocked j s (c_string (req_box_name r)) (c_string (req_box_password r))))"
proof -
  note rd = request_okD [OF r] and l = broker_invD(4) [OF inv]
  have c: "12 \<in> set response_codes" by (simp add: response_codes_def)
  let ?v = "c_string (req_box_name r)" and ?s = "s\<lparr>box_size_lock := True\<rparr>"
  note u = inv_unlocked [OF inv]
  have f: "broker_inv (?s\<lparr>box_size_lock := False\<rparr>)" by (simp add: u inv)
  show ?thesis
  proof (cases "position s ?v")
    case None
    then show ?thesis
      using l rd
      by (simp add: u process_manager_unlock_def exec_simps find_box_exec [OF f rd(2)]
        answer_password_exec [OF e rd(1) c] password_reply_def unlocked_def)
  next
    case (Some i)
    note b = box_in_table [OF inv Some]
    then have sp: "call (same_password i (req_box_password r)) k ?s =
        k (password_of (server_boxes s ! i) = c_string (req_box_password r)) ?s" for k :: "bool \<Rightarrow> int brop"
      using rd(3) by (simp add: exec_simps)
    show ?thesis
      using l rd Some b j
      by (simp add: u process_manager_unlock_def exec_simps find_box_exec [OF f rd(2)] sp
        answer_password_exec [OF e rd(1) c] password_reply_def unlocked_def
        call_def [of "case _ of None \<Rightarrow> _ | Some x \<Rightarrow> _ x"])
  qed
qed

definition relocked :: "nat \<Rightarrow> broker \<Rightarrow> string \<Rightarrow> string \<Rightarrow> char list \<Rightarrow> broker" where
  "relocked j s v pw new =
     (case position s v of
        None \<Rightarrow> s
      | Some i \<Rightarrow> if password_of (server_boxes s ! i) = pw
                  then box_set i (\<lambda>b. b\<lparr>box_password := copied (box_password b) new\<rparr>) (indexed j i s)
                  else s)"

lemma process_manager_lock_exec:
  assumes inv: "broker_inv s" and r: "request_ok (np_request_lock q)"
    and new: "string_array MAX_PASSWORD (np_new_password q)"
    and e: "env_ok env" "pipe_ok env (req_pipe_name (np_request_lock q))"
    and j: "j < length (thread_pool s)"
  defines "v \<equiv> c_string (req_box_name (np_request_lock q))"
    and "pw \<equiv> c_string (req_box_password (np_request_lock q))"
  shows "process_manager_lock env q j s = Inr ((), replied (req_pipe_name (np_request_lock q))
    (password_reply env 14 s v pw) (relocked j s v pw (np_new_password q)))"
proof -
  note rd = request_okD [OF r] and l = broker_invD(4) [OF inv]
  have c: "14 \<in> set response_codes" by (simp add: response_codes_def)
  let ?s = "s\<lparr>box_size_lock := True\<rparr>"
  note u = inv_unlocked [OF inv]
  have f: "broker_inv (?s\<lparr>box_size_lock := False\<rparr>)" by (simp add: u inv)
  show ?thesis
  proof (cases "position s v")
    case None
    then show ?thesis
      using l rd
      by (simp add: u process_manager_lock_def exec_simps find_box_exec [OF f rd(2)]
        answer_password_exec [OF e rd(1) c] password_reply_def relocked_def v_def)
  next
    case (Some i)
    note b = box_in_table [OF inv Some]
    then have sp: "call (same_password i (req_box_password (np_request_lock q))) k ?s =
        k (password_of (server_boxes s ! i) = pw) ?s" for k :: "bool \<Rightarrow> int brop"
      using rd(3) by (simp add: exec_simps pw_def)
    have cp: "strcpy_to (box_password (server_boxes s ! i)) (np_new_password q) =
        Inr (copied (box_password (server_boxes s ! i)) (np_new_password q))"
      using new b(2) c_string_short [of "np_new_password q"]
      by (intro strcpy_to_exec) (simp_all add: string_array_def box_ok_def)
    show ?thesis
      using l rd Some b j
      by (simp add: u process_manager_lock_def exec_simps find_box_exec [OF f rd(2)] sp cp
        answer_password_exec [OF e rd(1) c] password_reply_def relocked_def v_def [symmetric]
        call_def [of "case _ of None \<Rightarrow> _ | Some x \<Rightarrow> _ x"])
        (auto simp: box_set_def)
  qed
qed

lemma unlocked_inv: "broker_inv s \<Longrightarrow> broker_inv (unlocked j s v pw)"
proof (cases "position s v")
  case (Some i)
  assume inv: "broker_inv s"
  note b = box_in_table [OF this Some]
  show ?thesis using Some inv b
    by (auto simp: unlocked_def box_ok_def string_array_def max_defs intro!: inv_box_set)
qed (simp add: unlocked_def)

lemma relocked_inv:
  assumes inv: "broker_inv s" and new: "string_array MAX_PASSWORD new"
  shows "broker_inv (relocked j s v pw new)"
proof (cases "position s v")
  case (Some i)
  note b = box_in_table [OF inv Some]
  have "length (c_string new) < MAX_PASSWORD" using c_string_short [of new] new
    by (simp add: string_array_def)
  then show ?thesis using Some inv b
    by (auto simp: relocked_def box_ok_def string_array_def intro!: inv_box_set)
qed (simp add: relocked_def inv)

end
