(* ===== verification/Broker_Boxes.thy ===== *)
theory Broker_Boxes
  imports Broker_Handlers
begin

text \<open>
  Creating, removing and listing boxes: how the handlers run, as equations over the states of the
  table and of the file system.
\<close>

section \<open>The file system under the broker\<close>

lemma in_tfs_exec:
  "m (tfs s) = Inr (a, f) \<Longrightarrow> call (in_tfs m) k s = k a (s\<lparr>tfs := f\<rparr>)"
  by (simp add: in_tfs_def call_def)

lemma call_call: "call (call m k) g s = call m (\<lambda>a. call (k a) g) s"
  by (simp add: call_def split: sum.split prod.split)

lemma in_tfs_calls:
  "tfs_open p mode (tfs s) = Inr (a, f) \<Longrightarrow> call (in_tfs (tfs_open p mode)) k s = k a (s\<lparr>tfs := f\<rparr>)"
  "tfs_close d (tfs s) = Inr (b, f) \<Longrightarrow> call (in_tfs (tfs_close d)) k' s = k' b (s\<lparr>tfs := f\<rparr>)"
  "tfs_unlink p (tfs s) = Inr (c, f) \<Longrightarrow> call (in_tfs (tfs_unlink p)) k'' s = k'' c (s\<lparr>tfs := f\<rparr>)"
  by (rule in_tfs_exec, assumption)+

lemma tfs_update [simp]:
  "server_boxes (s\<lparr>tfs := f\<rparr>) = server_boxes s"
  "box_set i g (s\<lparr>tfs := f\<rparr>) = (box_set i g s)\<lparr>tfs := f\<rparr>"
  "logged es (s\<lparr>tfs := f\<rparr>) = (logged es s)\<lparr>tfs := f\<rparr>"
  "replied p m (s\<lparr>tfs := f\<rparr>) = (replied p m s)\<lparr>tfs := f\<rparr>"
  by (simp_all add: box_set_def logged_def replied_def)

lemma inv_tfs: "broker_inv s \<Longrightarrow> fs_inv f \<Longrightarrow> idle f \<Longrightarrow> broker_inv (s\<lparr>tfs := f\<rparr>)"
  by (simp add: broker_inv_def)

lemma c_ok_name [simp]: "c_ok (Some (c_string a))"
  by (simp add: c_ok_def c_string_no_NUL)

text \<open>The lock of the table, taken at the start of the handler and given back before its end.\<close>

definition served :: "char list \<Rightarrow> response_manager \<Rightarrow> tfs_state \<Rightarrow> broker \<Rightarrow> broker" where
  "served pipe m f s = replied pipe m (s\<lparr>sigpipe_ignored := True, tfs := f\<rparr>)"

lemma served_fields [simp]:
  "server_boxes (served p m f s) = server_boxes s" "size_boxes (served p m f s) = size_boxes s"
  "thread_pool (served p m f s) = thread_pool s" "tfs (served p m f s) = f"
  by (simp_all add: served_def)

lemma served_inv: "broker_inv s \<Longrightarrow> fs_inv f \<Longrightarrow> idle f \<Longrightarrow> broker_inv (served p m f s)"
  by (simp add: served_def broker_inv_def)

section \<open>Entries of the table\<close>

definition fill :: "request \<Rightarrow> box \<Rightarrow> box" where
  "fill r b = b\<lparr>box_free := 1, box_name := copied (box_name b) (req_box_name r),
     box_password := copied (box_password b) (req_box_password r)\<rparr>"

definition blank :: "box \<Rightarrow> box" where
  "blank b = wipe_strings (b\<lparr>box_free := 0\<rparr>)"

definition emptied :: "box \<Rightarrow> box" where
  "emptied b = wipe_strings (b\<lparr>box_free := 0, n_pub := 0, n_subs := 0, box_size := 0\<rparr>)"

lemma request_short:
  assumes "request_ok r"
  shows "length (c_string (req_box_name r)) < MAX_BOX_NAME"
    "length (c_string (req_box_password r)) < MAX_PASSWORD"
  using assms c_string_short [of "req_box_name r"] c_string_short [of "req_box_password r"]
  by (simp_all add: request_ok_def string_array_def)

lemma box_ok_length:
  "box_ok b \<Longrightarrow> length (box_name b) = MAX_BOX_NAME \<and> length (box_password b) = MAX_PASSWORD"
  by (simp add: box_ok_def string_array_def)

lemma fill_ok: "request_ok r \<Longrightarrow> box_ok b \<Longrightarrow> box_ok (fill r b)"
  using request_short [of r] by (simp add: fill_def box_ok_def string_array_def)

lemma wiped_ok [simp]: "box_ok (wipe_strings b)" "box_ok (blank b)" "box_ok (emptied b)"
  by (simp_all add: wipe_strings_def blank_def emptied_def box_ok_def string_array_def max_defs)

lemma fill_fields [simp]:
  "name_of (fill r b) = c_string (req_box_name r)" "password_of (fill r b) = c_string (req_box_password r)"
  "box_free (fill r b) = 1" "box_size (fill r b) = box_size b" "n_pub (fill r b) = n_pub b"
  by (simp_all add: fill_def)

lemma take_entry_exec:
  assumes i: "i < length (server_boxes s)" and b: "box_ok (server_boxes s ! i)"
    and r: "request_ok r" and j: "j < length (thread_pool s)"
  shows "call (take_entry j i r) k s = k () (box_set i (fill r) (indexed j i s))"
proof -
  let ?b = "server_boxes s ! i"
  have c: "strcpy_to (box_name ?b) (req_box_name r) = Inr (copied (box_name ?b) (req_box_name r))"
    "strcpy_to (box_password ?b) (req_box_password r) =
      Inr (copied (box_password ?b) (req_box_password r))"
    using request_okD [OF r] request_short [OF r] box_ok_length [OF b]
    by (auto intro: strcpy_to_exec)
  have "take_entry j i r s = Inr ((), box_set i (fill r) (indexed j i s))"
    using i j c by (simp add: take_entry_def exec_simps) (simp add: box_set_def fill_def)
  then show ?thesis by (simp add: call_def)
qed

text \<open>The table after it was doubled.\<close>

definition grown :: "env \<Rightarrow> broker \<Rightarrow> broker" where
  "grown env s = s\<lparr>server_boxes := server_boxes s @
     map (\<lambda>i. (raw_box env i)\<lparr>box_free := 0, box_lock := False\<rparr>) [size_boxes s ..< 2 * size_boxes s],
     size_boxes := 2 * size_boxes s\<rparr>"

lemma grown_fields [simp]:
  "thread_pool (grown env s) = thread_pool s" "tfs (grown env s) = tfs s"
  "box_size_lock (grown env s) = box_size_lock s" "pipes (grown env s) = pipes s"
  by (simp_all add: grown_def)

lemma grow_boxes_exec:
  assumes n: "length (server_boxes s) = size_boxes s" "0 < size_boxes s" "size_boxes s < 1073741824"
    and g: "grants env (288 * size_boxes s)" and raw: "box_ok (raw_box env (size_boxes s))"
    and r: "request_ok r" and j: "j < length (thread_pool s)"
  shows "call (grow_boxes env j r) k s =
    k () (box_set (size_boxes s) (fill r) (indexed j (size_boxes s) (grown env s)))"
proof -
  let ?n = "size_boxes s"
  let ?new = "map (\<lambda>i. (raw_box env i)\<lparr>box_free := 0, box_lock := False\<rparr>) [?n ..< 2 * ?n]"
  let ?s = "s\<lparr>server_boxes := server_boxes s @ ?new\<rparr>"
  have b: "server_boxes ?s ! ?n = (raw_box env ?n)\<lparr>box_free := 0, box_lock := False\<rparr>"
    using n by (simp add: nth_append)
  then have bo: "box_ok (server_boxes ?s ! ?n)" using raw by (simp only: box_ok_def) simp
  have i: "?n < length (server_boxes ?s)" using n by simp
  have t: "call (take_entry j ?n r) k' ?s = k' () (box_set ?n (fill r) (indexed j ?n ?s))"
    for k' :: "unit \<Rightarrow> unit brop"
    using i bo r by (rule take_entry_exec) (simp add: j)
  have "grow_boxes env j r s = Inr ((), box_set ?n (fill r) (indexed j ?n (grown env s)))"
    using n g t by (simp add: grow_boxes_def exec_simps) (simp add: box_set_def indexed_def grown_def)
  then show ?thesis by (simp add: call_def)
qed

lemma grown_inv:
  assumes "broker_inv s" and "size_boxes s < 536870912"
    and "\<And>i. box_ok (raw_box env i)"
  shows "broker_inv (grown env s)"
proof -
  have "box_ok ((raw_box env i)\<lparr>box_free := 0, box_lock := False\<rparr>)" for i
    using assms(3) [of i] by (simp add: box_ok_def)
  with assms(1,2) show ?thesis by (auto simp: broker_inv_def grown_def)
qed

section \<open>Creating\<close>

text \<open>An existing name: only the client hears of the request.\<close>

lemma create_existing_exec:
  assumes inv: "broker_inv s" and r: "request_ok r" and e: "env_ok env" "pipe_ok env (req_pipe_name r)"
    and found: "position s (c_string (req_box_name r)) = Some i"
  shows "process_manager_create env r j s =
    Inr ((), served (req_pipe_name r) (error_response env 4 msg_create_failed) (tfs s) s)"
proof -
  note rd = request_okD [OF r] and l = broker_invD(4) [OF inv] and u = inv_unlocked [OF inv]
  let ?s = "s\<lparr>box_size_lock := True\<rparr>"
  have f: "broker_inv (?s\<lparr>box_size_lock := False\<rparr>)" by (simp add: u inv)
  have o: "can_open env (c_string (req_pipe_name r))" "write_answer env 0 = Wrote MAX_LINE" "can_close env"
    using e(2) by (simp_all add: pipe_ok_def)
  have m: "well_formed (Response (error_response env 4 msg_create_failed))"
    by (rule error_response_ok [OF e(1)]) (simp_all add: response_codes_def)
  have eq: "s\<lparr>box_size_lock := False, sigpipe_ignored := True\<rparr> =
      s\<lparr>sigpipe_ignored := True, tfs := tfs s\<rparr>"
    using l by (auto intro!: broker.equality)
  show ?thesis
    using l rd found o m e(1)
    by (simp add: process_manager_create_def exec_simps find_box_exec [OF f rd(2)]
        served_def replied_def eq del: layout.simps well_formed.simps)
qed

text \<open>The rest of the handler, once an entry \<open>k\<close> was taken in the table of \<open>s\<close>.\<close>

definition create_rest :: "env \<Rightarrow> request \<Rightarrow> nat \<Rightarrow> unit brop" where
  "create_rest env r index =
     call (lift (c_arg (req_box_name r))) (\<lambda>path.
     call (in_tfs (tfs_open (Some path) TFS_O_CREAT)) (\<lambda>fd_tfs.
     call (in_tfs (tfs_close fd_tfs)) (\<lambda>_.
     block [ignore_sigpipe, my_open env (req_pipe_name r)] (
     call (if fd_tfs = - 1 then
             call (get_index index) (\<lambda>i.
             block [upd_box i (\<lambda>b. wipe_strings (b\<lparr>box_free := 0\<rparr>))]
               (error_answer env 4 msg_create_failed))
           else ok_answer 4) (\<lambda>m.
     block [unlock_boxes, answer_and_close env (req_pipe_name r) m 4] (ret ()))))))"

lemma create_rest_exec:
  assumes k: "k < length (server_boxes s)" and j: "j < length (thread_pool s)"
    and ix: "thread_pool s ! j = int k" and l: "box_size_lock s"
    and r: "request_ok r" and e: "env_ok env" "pipe_ok env (req_pipe_name r)"
    and op: "tfs_open (Some (c_string (req_box_name r))) TFS_O_CREAT (tfs s) = Inr (fd, f1)"
    and cl: "tfs_close fd f1 = Inr (c, f2)"
  shows "create_rest env r j s = Inr ((),
    (if fd = - 1
     then served (req_pipe_name r) (error_response env 4 msg_create_failed) f2
       (box_set k blank (s\<lparr>box_size_lock := False\<rparr>))
     else served (req_pipe_name r) (ok_response 4) f2 (s\<lparr>box_size_lock := False\<rparr>)))"
proof -
  note rd = request_okD [OF r]
  have o: "can_open env (c_string (req_pipe_name r))" "write_answer env 0 = Wrote MAX_LINE" "can_close env"
    using e(2) by (simp_all add: pipe_ok_def)
  have m: "well_formed (Response (error_response env 4 msg_create_failed))"
    "well_formed (Response (ok_response 4))"
    by (rule error_response_ok [OF e(1)] ok_response_ok; simp add: response_codes_def)+
  have bl: "blank = (\<lambda>b. wipe_strings (b\<lparr>box_free := 0\<rparr>))" by (simp add: blank_def fun_eq_iff)
  show ?thesis
    using k j ix l rd o m e(1) op cl
    by (cases "fd = - 1")
      (simp_all add: create_rest_def exec_simps c_arg_exec in_tfs_calls served_def replied_def bl
        call_call del: layout.simps well_formed.simps)
qed

definition unused :: "broker \<Rightarrow> nat option" where
  "unused s = first_index (\<lambda>b. box_free b = 0) (server_boxes s)"

lemma unused_Some:
  assumes "unused s = Some k"
  shows "k < length (server_boxes s)" "box_free (server_boxes s ! k) = 0"
  using first_index_SomeD [OF assms [unfolded unused_def]] by simp_all

lemma scan_unused_run:
  assumes "broker_inv s"
  shows "scan_unused (server_boxes s) 0 (size_boxes s) = Inr (unused s)"
  using scan_unused_exec [of 0 "server_boxes s"] broker_invD(1) [OF assms]
  by (simp add: unused_def option.map_ident)

definition claimed :: "nat \<Rightarrow> nat \<Rightarrow> request \<Rightarrow> broker \<Rightarrow> broker" where
  "claimed k j r s = box_set k (fill r) (indexed j k s)"

text \<open>What the handler leaves, with \<open>s\<close> the state in which the entry \<open>k\<close> was taken.\<close>

definition created :: "env \<Rightarrow> request \<Rightarrow> nat \<Rightarrow> int \<Rightarrow> tfs_state \<Rightarrow> broker \<Rightarrow> broker" where
  "created env r k fd f s =
     (if fd = - 1
      then served (req_pipe_name r) (error_response env 4 msg_create_failed) f (box_set k blank s)
      else served (req_pipe_name r) (ok_response 4) f s)"

lemma create_unfold:
  "process_manager_create env r index =
     block [lock_boxes] (
     call (find_box (req_box_name r)) (\<lambda>found.
     case found of
       Some i \<Rightarrow>
         block [ignore_sigpipe, my_open env (req_pipe_name r)] (
         call (error_answer env 4 msg_create_failed) (\<lambda>m.
         block [unlock_boxes, answer_and_close env (req_pipe_name r) m 4] (ret ())))
     | None \<Rightarrow>
         call (gets server_boxes) (\<lambda>bs. call (gets size_boxes) (\<lambda>n.
         call (lift (scan_unused bs 0 n)) (\<lambda>slot.
         block [case slot of Some i \<Rightarrow> take_entry index i r | None \<Rightarrow> grow_boxes env index r]
           (create_rest env r index))))))"
  by (simp only: process_manager_create_def create_rest_def block.simps)

lemma create_new_start:
  assumes inv: "broker_inv s" and r: "request_ok r"
    and new: "position s (c_string (req_box_name r)) = None"
  shows "process_manager_create env r j s =
    call (case unused s of Some i \<Rightarrow> take_entry j i r | None \<Rightarrow> grow_boxes env j r)
      (\<lambda>_. create_rest env r j) (s\<lparr>box_size_lock := True\<rparr>)"
proof -
  note rd = request_okD [OF r] and l = broker_invD(4) [OF inv] and u = inv_unlocked [OF inv]
  have f: "broker_inv (s\<lparr>box_size_lock := True\<rparr>\<lparr>box_size_lock := False\<rparr>)" by (simp add: u inv)
  show ?thesis
    using l new by (simp add: create_unfold exec_simps find_box_exec [OF f rd(2)] scan_unused_run [OF inv])
qed

lemma create_slot_exec:
  assumes inv: "broker_inv s" and r: "request_ok r" and e: "env_ok env" "pipe_ok env (req_pipe_name r)"
    and j: "j < length (thread_pool s)"
    and new: "position s (c_string (req_box_name r)) = None" and k: "unused s = Some k"
    and op: "tfs_open (Some (c_string (req_box_name r))) TFS_O_CREAT (tfs s) = Inr (fd, f1)"
    and cl: "tfs_close fd f1 = Inr (c, f2)"
  shows "process_manager_create env r j s = Inr ((), created env r k fd f2 (claimed k j r s))"
proof -
  note ks = unused_Some [OF k] and u = inv_unlocked [OF inv]
  have b: "box_ok (server_boxes s ! k)" using broker_invD(3) [OF inv] ks(1) by simp
  let ?s = "s\<lparr>box_size_lock := True\<rparr>"
  have t: "call (take_entry j k r) k' ?s = k' () (box_set k (fill r) (indexed j k ?s))"
    for k' :: "unit \<Rightarrow> unit brop"
    by (rule take_entry_exec) (simp_all add: ks b r j)
  have "create_rest env r j (box_set k (fill r) (indexed j k ?s)) =
      Inr ((), created env r k fd f2 ((box_set k (fill r) (indexed j k ?s))\<lparr>box_size_lock := False\<rparr>))"
    unfolding created_def by (rule create_rest_exec [OF _ _ _ _ r e _ cl]) (simp_all add: ks j op)
  then show ?thesis
    unfolding create_new_start [OF inv r new] k claimed_def by (simp add: t u)
qed

lemma create_grow_exec:
  assumes inv: "broker_inv s" and r: "request_ok r" and e: "env_ok env" "pipe_ok env (req_pipe_name r)"
    and j: "j < length (thread_pool s)"
    and new: "position s (c_string (req_box_name r)) = None" and k: "unused s = None"
    and n: "0 < size_boxes s" "grants env (288 * size_boxes s)"
    and raw: "box_ok (raw_box env (size_boxes s))"
    and op: "tfs_open (Some (c_string (req_box_name r))) TFS_O_CREAT (tfs s) = Inr (fd, f1)"
    and cl: "tfs_close fd f1 = Inr (c, f2)"
  shows "process_manager_create env r j s =
    Inr ((), created env r (size_boxes s) fd f2 (claimed (size_boxes s) j r (grown env s)))"
proof -
  note u = inv_unlocked [OF inv]
  let ?n = "size_boxes s"
  let ?s = "s\<lparr>box_size_lock := True\<rparr>"
  have g: "call (grow_boxes env j r) k' ?s = k' () (box_set ?n (fill r) (indexed j ?n (grown env ?s)))"
    for k' :: "unit \<Rightarrow> unit brop"
    using grow_boxes_exec [of ?s env r j k'] broker_invD(1,2) [OF inv] n raw r j by simp
  have gs: "grown env ?s = (grown env s)\<lparr>box_size_lock := True\<rparr>" by (simp add: grown_def)
  have gu: "(grown env s)\<lparr>box_size_lock := False\<rparr> = grown env s"
    using broker_invD(4) [OF inv] by (auto intro!: broker.equality)
  have len: "?n < length (server_boxes (grown env s))"
    using broker_invD(1) [OF inv] n(1) by (simp add: grown_def)
  have "create_rest env r j (box_set ?n (fill r) (indexed j ?n (grown env ?s))) = Inr ((),
      created env r ?n fd f2 ((box_set ?n (fill r) (indexed j ?n (grown env ?s)))\<lparr>box_size_lock := False\<rparr>))"
    unfolding created_def gs by (rule create_rest_exec [OF _ _ _ _ r e _ cl]) (simp_all add: len j op)
  then show ?thesis
    unfolding create_new_start [OF inv r new] k claimed_def by (simp add: g gs gu)
qed

section \<open>Removing\<close>

lemma remove_rest_exec:
  assumes i: "i < length (server_boxes s)" and j: "j < length (thread_pool s)"
    and ix: "thread_pool s ! j = int i" and l: "box_size_lock s"
    and r: "request_ok r" and e: "env_ok env" "pipe_ok env (req_pipe_name r)"
    and un: "tfs_unlink (Some (c_string (req_box_name r))) (tfs s) = Inr (c, f)"
  shows "remove_rest env r j s = Inr ((),
    (if c = - 1
     then served (req_pipe_name r) (error_response env 6 msg_remove_failed) f (s\<lparr>box_size_lock := False\<rparr>)
     else served (req_pipe_name r) (ok_response 6) f (box_set i emptied (s\<lparr>box_size_lock := False\<rparr>))))"
proof -
  note rd = request_okD [OF r]
  have o: "can_open env (c_string (req_pipe_name r))" "write_answer env 0 = Wrote MAX_LINE" "can_close env"
    using e(2) by (simp_all add: pipe_ok_def)
  have m: "well_formed (Response (error_response env 6 msg_remove_failed))"
    "well_formed (Response (ok_response 6))"
    by (rule error_response_ok [OF e(1)] ok_response_ok; simp add: response_codes_def)+
  have em: "emptied = (\<lambda>b. wipe_strings (b\<lparr>box_free := 0, n_pub := 0, n_subs := 0, box_size := 0\<rparr>))"
    by (simp add: emptied_def fun_eq_iff)
  show ?thesis
    using i j ix l rd o m e(1) un
    by (cases "c = - 1")
      (simp_all add: remove_rest_def remove_answer_def wake_subscribers_def exec_simps c_arg_exec in_tfs_calls served_def replied_def em
        call_call del: layout.simps well_formed.simps)
qed

lemma remove_found_exec:
  assumes inv: "broker_inv s" and r: "request_ok r" and e: "env_ok env" "pipe_ok env (req_pipe_name r)"
    and j: "j < length (thread_pool s)"
    and i: "position s (c_string (req_box_name r)) = Some i" and used: "box_free (server_boxes s ! i) \<noteq> 0"
    and pw: "password_of (server_boxes s ! i) = c_string (req_box_password r)"
    and un: "tfs_unlink (Some (c_string (req_box_name r))) (tfs s) = Inr (c, f)"
  shows "process_manager_remove env r j s = Inr ((),
    (if c = - 1
     then served (req_pipe_name r) (error_response env 6 msg_remove_failed) f (indexed j i s)
     else served (req_pipe_name r) (ok_response 6) f (box_set i emptied (indexed j i s))))"
proof -
  note rd = request_okD [OF r] and l = broker_invD(4) [OF inv] and u = inv_unlocked [OF inv]
    and b = box_in_table [OF inv i]
  let ?s = "s\<lparr>box_size_lock := True\<rparr>"
  have f: "broker_inv (?s\<lparr>box_size_lock := False\<rparr>)" by (simp add: u inv)
  have rest: "remove_rest env r j (indexed j i ?s) = Inr ((),
      (if c = - 1
       then served (req_pipe_name r) (error_response env 6 msg_remove_failed) f
         ((indexed j i ?s)\<lparr>box_size_lock := False\<rparr>)
       else served (req_pipe_name r) (ok_response 6) f
         (box_set i emptied ((indexed j i ?s)\<lparr>box_size_lock := False\<rparr>))))"
    by (rule remove_rest_exec [OF _ _ _ _ r e]) (simp_all add: b j un)
  have sp: "call (same_password i (req_box_password r)) k ?s = k True ?s" for k :: "bool \<Rightarrow> unit brop"
    using b rd(3) pw by (simp add: exec_simps)
  show ?thesis
    using l used b j rest
    by (simp add: process_manager_remove_def exec_simps find_box_exec [OF f rd(2)] i sp u)
qed

lemma remove_unused_exec:
  assumes inv: "broker_inv s" and r: "request_ok r"
    and i: "position s (c_string (req_box_name r)) = Some i" and used: "box_free (server_boxes s ! i) = 0"
  shows "process_manager_remove env r j s = Inr ((), s)"
proof -
  note rd = request_okD [OF r] and l = broker_invD(4) [OF inv] and u = inv_unlocked [OF inv]
    and b = box_in_table [OF inv i]
  have f: "broker_inv (s\<lparr>box_size_lock := True\<rparr>\<lparr>box_size_lock := False\<rparr>)" by (simp add: u inv)
  show ?thesis
    using l used b by (simp add: process_manager_remove_def exec_simps find_box_exec [OF f rd(2)] i u)
qed

lemma remove_wrong_exec:
  assumes inv: "broker_inv s" and r: "request_ok r" and e: "env_ok env" "pipe_ok env (req_pipe_name r)"
    and i: "position s (c_string (req_box_name r)) = Some i" and used: "box_free (server_boxes s ! i) \<noteq> 0"
    and pw: "password_of (server_boxes s ! i) \<noteq> c_string (req_box_password r)"
  shows "process_manager_remove env r j s = Inr ((),
    logged [Opened (c_string (req_pipe_name r)), Sent (c_string (req_pipe_name r))
      (line (layout (Response (error_response env 6 msg_remove_password))))] s)"
proof -
  note rd = request_okD [OF r] and l = broker_invD(4) [OF inv] and u = inv_unlocked [OF inv]
    and b = box_in_table [OF inv i]
  let ?s = "s\<lparr>box_size_lock := True\<rparr>"
  have f: "broker_inv (?s\<lparr>box_size_lock := False\<rparr>)" by (simp add: u inv)
  have m: "well_formed (Response (error_response env 6 msg_remove_password))"
    by (rule error_response_ok [OF e(1)]) (simp_all add: response_codes_def)
  have o: "can_open env (c_string (req_pipe_name r))" "write_answer env 0 = Wrote MAX_LINE"
    using e(2) by (simp_all add: pipe_ok_def)
  have sp: "call (same_password i (req_box_password r)) k ?s = k False ?s" for k :: "bool \<Rightarrow> unit brop"
    using b rd(3) pw by (simp add: exec_simps)
  show ?thesis
    using l used b m o e(1) rd
    by (simp add: process_manager_remove_def exec_simps find_box_exec [OF f rd(2)] i sp u
      del: layout.simps well_formed.simps)
qed

text \<open>When the file cannot be removed the client gets the error, whatever the index of the thread is.\<close>

lemma remove_fails_exec:
  assumes l: "box_size_lock s" and r: "request_ok r" and e: "env_ok env" "pipe_ok env (req_pipe_name r)"
    and un: "tfs_unlink (Some (c_string (req_box_name r))) (tfs s) = Inr (- 1, f)"
  shows "remove_answer env r j s = Inr (True,
    served (req_pipe_name r) (error_response env 6 msg_remove_failed) f (s\<lparr>box_size_lock := False\<rparr>))"
proof -
  have o: "can_open env (c_string (req_pipe_name r))" "write_answer env 0 = Wrote MAX_LINE" "can_close env"
    using e(2) by (simp_all add: pipe_ok_def)
  have m: "well_formed (Response (error_response env 6 msg_remove_failed))"
    by (rule error_response_ok [OF e(1)]) (simp_all add: response_codes_def)
  show ?thesis
    using l request_okD [OF r] o m e(1) un
    by (simp add: remove_answer_def exec_simps c_arg_exec in_tfs_calls served_def replied_def call_call
      del: layout.simps well_formed.simps)
qed

lemma wake_subscribers_exec:
  assumes "j < length (thread_pool s)" and "length (server_boxes s) = size_boxes s"
  shows "wake_subscribers j s =
    (if 0 \<le> thread_pool s ! j \<and> thread_pool s ! j < int (size_boxes s) then Inr ((), s) else Inl OutOfBounds)"
  using assms by (simp add: wake_subscribers_def exec_simps get_box_def array_get_def)

text \<open>No box of that name, and no file either: the answer is sent, and then the index that the
  thread used last is taken for the box.\<close>

lemma remove_unknown_exec:
  assumes inv: "broker_inv s" and r: "request_ok r" and e: "env_ok env" "pipe_ok env (req_pipe_name r)"
    and no: "position s (c_string (req_box_name r)) = None"
    and un: "tfs_unlink (Some (c_string (req_box_name r))) (tfs s) = Inr (- 1, f)"
  defines "t \<equiv> served (req_pipe_name r) (error_response env 6 msg_remove_failed) f s"
  shows "block [lock_boxes] (call (find_box (req_box_name r)) (\<lambda>_. remove_answer env r j)) s = Inr (True, t)"
    and "process_manager_remove env r j s = wake_subscribers j t"
proof -
  note rd = request_okD [OF r] and l = broker_invD(4) [OF inv] and u = inv_unlocked [OF inv]
  let ?s = "s\<lparr>box_size_lock := True\<rparr>"
  have f: "broker_inv (?s\<lparr>box_size_lock := False\<rparr>)" by (simp add: u inv)
  have "remove_answer env r j ?s = Inr (True,
      served (req_pipe_name r) (error_response env 6 msg_remove_failed) f (?s\<lparr>box_size_lock := False\<rparr>))"
    by (rule remove_fails_exec [OF _ r e]) (simp_all add: un)
  then have a: "remove_answer env r j ?s = Inr (True, t)" by (simp add: u t_def)
  then show "block [lock_boxes] (call (find_box (req_box_name r)) (\<lambda>_. remove_answer env r j)) s = Inr (True, t)"
    using l by (simp add: exec_simps find_box_exec [OF f rd(2)])
  show "process_manager_remove env r j s = wake_subscribers j t"
    using l a by (simp add: process_manager_remove_def remove_rest_def exec_simps find_box_exec [OF f rd(2)] no)
qed

section \<open>Listing\<close>

definition entry_for :: "env \<Rightarrow> box \<Rightarrow> list_manager_response" where
  "entry_for env b = \<lparr>lr_code = 8, lr_last = 0,
     lr_box_name = copied (lr_box_name (raw_entry env)) (box_name b),
     lr_box_size = word_of_int (box_size b),
     lr_n_pubs = ucast (word_of_int (n_pub b) :: 32 word),
     lr_n_subs = ucast (word_of_int (n_subs b) :: 32 word),
     lr_box_password = copied (lr_box_password (raw_entry env)) (box_password b)\<rparr>"

lemma list_entry_exec:
  assumes "env_ok env" and b: "box_ok b"
  shows "list_entry env b = Inr (entry_for env b)"
proof -
  have "length (name_of b) < MAX_BOX_NAME" "length (password_of b) < MAX_PASSWORD"
    using b c_string_short [of "box_name b"] c_string_short [of "box_password b"]
    by (simp_all add: box_ok_def string_array_def)
  with assms have
    "strcpy_to (lr_box_name (raw_entry env)) (box_name b) =
      Inr (copied (lr_box_name (raw_entry env)) (box_name b))"
    "strcpy_to (lr_box_password (raw_entry env)) (box_password b) =
      Inr (copied (lr_box_password (raw_entry env)) (box_password b))"
    by (auto simp: env_ok_def box_ok_def string_array_def intro!: strcpy_to_exec)
  then show ?thesis by (simp add: list_entry_def entry_for_def)
qed

lemma entry_for_ok:
  assumes "env_ok env" and b: "box_ok b"
  shows "well_formed (List_response ((entry_for env b)\<lparr>lr_last := v\<rparr>))"
proof -
  have "length (name_of b) < MAX_BOX_NAME" "length (password_of b) < MAX_PASSWORD"
    using b c_string_short [of "box_name b"] c_string_short [of "box_password b"]
    by (simp_all add: box_ok_def string_array_def)
  with assms show ?thesis by (simp add: entry_for_def env_ok_def)
qed

abbreviation used_boxes :: "broker \<Rightarrow> box list" where
  "used_boxes s \<equiv> filter (\<lambda>b. box_free b = 1) (server_boxes s)"

lemma collect_boxes_exec:
  assumes "env_ok env" and "\<And>b. b \<in> set bs \<Longrightarrow> box_ok b" and "i \<le> length bs"
  shows "collect_boxes env bs i (length bs) =
    Inr (map (entry_for env) (filter (\<lambda>b. box_free b = 1) (drop i bs)))"
  using assms(3)
proof (induction "length bs - i" arbitrary: i)
  case 0
  then show ?case by (subst collect_boxes.simps) simp
next
  case (Suc n)
  then have i: "i < length bs" by simp
  then have d: "drop i bs = bs ! i # drop (Suc i) bs" by (rule Cons_nth_drop_Suc [symmetric])
  have "collect_boxes env bs (Suc i) (length bs) =
      Inr (map (entry_for env) (filter (\<lambda>b. box_free b = 1) (drop (Suc i) bs)))"
    by (rule Suc.hyps(1)) (use Suc.hyps(2) i in simp_all)
  with i list_entry_exec [OF assms(1) assms(2)] show ?case by (subst collect_boxes.simps) (simp add: d)
qed

text \<open>The last entry is marked.\<close>

fun marked :: "list_manager_response list \<Rightarrow> list_manager_response list" where
  "marked [] = []"
| "marked [x] = [x\<lparr>lr_last := 1\<rparr>]"
| "marked (x # y # xs) = x # marked (y # xs)"

lemma marked_append: "xs \<noteq> [] \<Longrightarrow> butlast xs @ [(last xs)\<lparr>lr_last := 1\<rparr>] = marked xs"
  by (induction xs rule: marked.induct) simp_all

lemma marked_from:
  "y \<in> set (marked xs) \<Longrightarrow> \<exists>x v. x \<in> set xs \<and> y = x\<lparr>lr_last := v\<rparr>"
proof (induction xs rule: marked.induct)
  case (2 x)
  then have "y = x\<lparr>lr_last := 1\<rparr>" by simp
  then show ?case by (intro exI [of _ x] exI [of _ 1]) simp
next
  case (3 x z xs)
  show ?case
  proof (cases "y = x")
    case True
    then have "y = x\<lparr>lr_last := lr_last x\<rparr>" by simp
    then show ?thesis by (intro exI [of _ x] exI [of _ "lr_last x"]) simp
  next
    case False
    with 3(2) have "y \<in> set (marked (z # xs))" by simp
    from 3(1) [OF this] show ?thesis by (elim exE conjE) (intro exI conjI, simp_all)
  qed
qed simp

definition list_lines :: "list_manager_response list \<Rightarrow> char list list" where
  "list_lines xs = map (\<lambda>x. line (layout (List_response x))) xs"

lemma send_entries_exec:
  assumes "env_ok env" and "NUL \<in> set pipe" and "\<And>n. write_answer env n = Wrote MAX_LINE"
  shows "(\<And>x. x \<in> set xs \<Longrightarrow> well_formed (List_response x)) \<Longrightarrow>
    send_entries env pipe k xs s = Inr ((), logged (map (Sent (c_string pipe)) (list_lines xs)) s)"
proof (induction xs arbitrary: k s)
  case Nil
  then show ?case by (simp add: exec_simps list_lines_def logged_def)
next
  case (Cons x xs)
  then have "well_formed (List_response x)" by simp
  with assms Cons show ?case by (simp add: exec_simps list_lines_def del: layout.simps well_formed.simps)
qed

definition no_box_entry :: "env \<Rightarrow> list_manager_response" where
  "no_box_entry env = (raw_entry env)\<lparr>lr_code := 8, lr_box_name := replicate MAX_BOX_NAME NUL, lr_last := 1\<rparr>"

definition list_answer :: "env \<Rightarrow> broker \<Rightarrow> list_manager_response list" where
  "list_answer env s =
     (if used_boxes s = [] then [no_box_entry env] else marked (map (entry_for env) (used_boxes s)))"

lemma process_manager_list_exec:
  assumes inv: "broker_inv s" and e: "env_ok env" and p: "NUL \<in> set (lq_pipe_name r)"
    and o: "can_open env (c_string (lq_pipe_name r))" "can_close env"
      "\<And>n. write_answer env n = Wrote MAX_LINE"
    and n: "0 < size_boxes s"
  shows "process_manager_list env r j s = Inr ((),
    logged ([Opened (c_string (lq_pipe_name r))] @
      map (Sent (c_string (lq_pipe_name r))) (list_lines (list_answer env s)) @
      [Closed (c_string (lq_pipe_name r))]) (s\<lparr>sigpipe_ignored := True\<rparr>))"
proof -
  note l = broker_invD(4) [OF inv] and u = inv_unlocked [OF inv]
  let ?xs = "map (entry_for env) (used_boxes s)"
  have c: "collect_boxes env (server_boxes s) 0 (size_boxes s) = Inr ?xs"
    using collect_boxes_exec [OF e broker_invD(3) [OF inv], of "server_boxes s" 0]
      broker_invD(1) [OF inv] by simp
  have b: "boxes_to_send env (size_boxes s) ?xs = Inr (list_answer env s)"
    using n marked_append [of ?xs] by (auto simp: boxes_to_send_def list_answer_def no_box_entry_def)
  have "well_formed (List_response x)" if "x \<in> set (list_answer env s)" for x
  proof (cases "used_boxes s = []")
    case True
    with that e show ?thesis by (simp add: list_answer_def no_box_entry_def env_ok_def)
  next
    case False
    with that have "x \<in> set (marked ?xs)" by (simp add: list_answer_def)
    from marked_from [OF this] obtain b v where
      b: "b \<in> set (server_boxes s)" "x = (entry_for env b)\<lparr>lr_last := v\<rparr>" by auto
    show ?thesis unfolding b(2) by (rule entry_for_ok [OF e broker_invD(3) [OF inv b(1)]])
  qed
  then have sd: "call (send_entries env (lq_pipe_name r) 0 (list_answer env s)) k t =
      k () (logged (map (Sent (c_string (lq_pipe_name r))) (list_lines (list_answer env s))) t)"
    for k :: "unit \<Rightarrow> unit brop" and t
    using send_entries_exec [OF e p o(3)] by (simp add: call_def)
  have eq: "s\<lparr>box_size_lock := False, sigpipe_ignored := True\<rparr> = s\<lparr>sigpipe_ignored := True\<rparr>"
    using l by (auto intro!: broker.equality)
  show ?thesis
    using l p o by (simp add: process_manager_list_def exec_simps c b sd eq)
qed

end
