(* ===== verification/Broker_Streams.thy ===== *)
theory Broker_Streams
  imports Broker_Boxes
begin

text \<open>
  Publishers and subscribers: what the loop of a publisher leaves in the file of the box, and what
  a subscriber sends to its client each time it gets the lock of the box.
\<close>

section \<open>Messages\<close>

text \<open>A file of messages, each ended by a zero byte.\<close>

definition stored :: "string list \<Rightarrow> char list" where
  "stored ms = concat (map (\<lambda>m. m @ [NUL]) ms)"

lemma stored_simps [simp]:
  "stored [] = []" "stored (m # ms) = m @ NUL # stored ms" "stored (ms @ ns) = stored ms @ stored ns"
  by (simp_all add: stored_def)

definition text_size :: "string list \<Rightarrow> nat" where
  "text_size ms = sum_list (map length ms)"

lemma length_stored: "length (stored ms) = text_size ms + length ms"
  by (induction ms) (simp_all add: text_size_def)

text \<open>A line from which the broker reads the message \<open>m\<close>.\<close>

definition carries :: "char list \<Rightarrow> string \<Rightarrow> bool" where
  "carries l m \<longleftrightarrow> length l = MAX_LINE \<and>
     (\<exists>c a. reads_as l = Message \<lparr>msg_code = c, msg_message = a\<rparr> \<and> string_array 1024 a \<and> c_string a = m)"

definition text_array :: "string \<Rightarrow> char list" where
  "text_array m = m @ replicate (1024 - length m) NUL"

definition message_line :: "string \<Rightarrow> char list" where
  "message_line m = line (layout (Message \<lparr>msg_code = 10, msg_message = text_array m\<rparr>))"

definition message_ok :: "string \<Rightarrow> bool" where
  "message_ok m \<longleftrightarrow> m \<noteq> [] \<and> NUL \<notin> set m \<and> length m < 1024"

lemma text_array_facts:
  assumes "NUL \<notin> set m" and "length m < 1024"
  shows "length (text_array m) = 1024" "NUL \<in> set (text_array m)" "c_string (text_array m) = m"
    "copied (replicate 1024 NUL) (text_array m) = text_array m"
proof -
  from assms(2) obtain k where k: "1024 - length m = Suc k" by (cases "1024 - length m") auto
  show "length (text_array m) = 1024" using assms(2) by (simp add: text_array_def)
  show "NUL \<in> set (text_array m)" by (simp add: text_array_def k)
  show c: "c_string (text_array m) = m" using assms(1) by (simp add: text_array_def k)
  have "1024 - Suc (length m) = k" using k by simp
  then show "copied (replicate 1024 NUL) (text_array m) = text_array m"
    using c by (simp add: copied_def text_array_def k)
qed

lemma message_line_carries: "message_ok m \<Longrightarrow> carries (message_line m) m"
  using text_array_facts [of m]
  by (auto simp: carries_def message_line_def message_ok_def string_array_def reads_as_line
    message_codes_def layout_fits simp del: layout.simps)

section \<open>Publishers\<close>

lemma in_tfs_write:
  "tfs_write d b n (tfs s) = Inr (a, f) \<Longrightarrow> call (in_tfs (tfs_write d b n)) k s = k a (s\<lparr>tfs := f\<rparr>)"
  by (rule in_tfs_exec)

lemma in_tfs_read:
  "tfs_read d n (tfs s) = Inr (a, f) \<Longrightarrow> call (in_tfs (tfs_read d n)) k s = k a (s\<lparr>tfs := f\<rparr>)"
  by (rule in_tfs_exec)

text \<open>The handle \<open>h\<close> appends to the file \<open>i\<close>.\<close>

definition appends :: "tfs_state \<Rightarrow> nat \<Rightarrow> nat \<Rightarrow> bool" where
  "appends f h i \<longleftrightarrow> fs_inv f \<and> idle f \<and> is_open f (int h) \<and> file_of f h = i \<and>
     freeinode_ts f ! i = TAKEN \<and> offset_of f h = length (contents f i)"

text \<open>Only the file \<open>i\<close> and the handle \<open>h\<close> differ.\<close>

definition only_file :: "nat \<Rightarrow> nat \<Rightarrow> tfs_state \<Rightarrow> tfs_state \<Rightarrow> bool" where
  "only_file i h f g \<longleftrightarrow> names g = names f \<and> freeinode_ts g = freeinode_ts f \<and>
     fs_params g = fs_params f \<and> same_handles h f g \<and>
     (\<forall>j. used_inode f (int j) \<longrightarrow> j \<noteq> i \<longrightarrow> contents g j = contents f j)"

lemma only_file_trans:
  assumes "only_file i h f g" and "only_file i h g g'"
  shows "only_file i h f g'"
proof -
  have "used_inode g = used_inode f"
    using assms(1) by (simp add: only_file_def used_inode_def fun_eq_iff)
  with assms show ?thesis by (simp add: only_file_def same_handles_def)
qed

lemma only_file_refl [simp]: "only_file i h f f"
  by (simp add: only_file_def same_handles_def)

lemma append_message:
  assumes a: "appends f h i" and m: "string_array 1024 buf"
    and fits: "length (contents f i) + Suc (length (c_string buf)) \<le> BLOCK_SIZE f"
    and room: "contents f i \<noteq> [] \<or> FREE \<in> set (free_blocks f)"
  shows "\<exists>g. tfs_write (int h) buf (size_add (length (c_string buf)) 1) f =
      Inr (int (Suc (length (c_string buf))), g) \<and> appends g h i \<and> only_file i h f g \<and>
    contents g i = contents f i @ c_string buf @ [NUL] \<and> (blank_after f i \<longrightarrow> blank_after g i)"
proof -
  have as: "fs_inv f" "idle f" "is_open f (int h)" "freeinode_ts f ! file_of f h = TAKEN"
    "offset_of f h = length (contents f i)" "file_of f h = i"
    using a by (simp_all add: appends_def)
  let ?n = "Suc (length (c_string buf))"
  have len: "?n \<le> length buf" "length buf = 1024"
    using m c_string_short [of buf] by (simp_all add: string_array_def)
  from m obtain q where q: "buf = c_string buf @ NUL # q"
    using c_string_split by (auto simp: string_array_def)
  have tk: "take ?n buf = c_string buf @ [NUL]" by (subst q) simp
  have bs: "BLOCK_SIZE f < size_mod" using wf_bounds [OF fs_invD(1) [OF as(1)]] by simp
  have sz: "size_add (length (c_string buf)) 1 = ?n" using len by simp
  have "?n = min ?n (BLOCK_SIZE f - offset_of f h)" using fits as(5) by simp
  from write_run [OF as(1-4) _ len(1) _ _ this] as(5,6) bs fits room obtain g where
    g: "tfs_write (int h) buf ?n f = Inr (int ?n, g)"
      "contents g i = contents f i @ take ?n buf" "offset_of g h = offset_of f h + ?n"
      "file_of g h = i" "names g = names f"
      "\<forall>j. used_inode f (int j) \<longrightarrow> j \<noteq> i \<longrightarrow> contents g j = contents f j"
      "fs_inv g" "idle g" "same_handles h f g" "is_open g (int h)" "freeinode_ts g = freeinode_ts f"
      "fs_params g = fs_params f" "blank_after f i \<longrightarrow> blank_after g i" by auto
  have "appends g h i" using g as tk by (simp add: appends_def)
  moreover have "only_file i h f g" using g by (simp add: only_file_def)
  ultimately show ?thesis using g(1,2,13) tk sz by auto
qed

lemma box_set_id [simp]: "box_set k (\<lambda>b. b) s = s"
  by (simp add: box_set_def)

definition sized :: "nat \<Rightarrow> string list \<Rightarrow> tfs_state \<Rightarrow> broker \<Rightarrow> broker" where
  "sized k ms g s = (box_set k (\<lambda>b. b\<lparr>box_size := box_size b + int (text_size ms)\<rparr>) s)\<lparr>tfs := g\<rparr>"

lemma pub_loop_exec:
  assumes "list_all2 carries ls ms"
    and "appends (tfs s) h i" and "k < length (server_boxes s)" and "j < length (thread_pool s)"
    and "thread_pool s ! j = int k" and "\<not> ending s"
    and "grants env = (\<lambda>_. True)" and "env_ok env"
    and "length (contents (tfs s) i) + length (stored ms) \<le> BLOCK_SIZE (tfs s)"
    and "contents (tfs s) i \<noteq> [] \<or> FREE \<in> set (free_blocks (tfs s))"
    and "0 \<le> box_size (server_boxes s ! k)"
    and "box_size (server_boxes s ! k) + int (text_size ms) < 2147483648"
  shows "\<exists>g. pub_loop env pipe j (int h) ls s = Inr (True, sized k ms g s) \<and> appends g h i \<and>
    only_file i h (tfs s) g \<and> contents g i = contents (tfs s) i @ stored ms \<and>
    (blank_after (tfs s) i \<longrightarrow> blank_after g i)"
  using assms
proof (induction ls ms arbitrary: s rule: list_all2_induct)
  case Nil
  then show ?case
    by (intro exI [of _ "tfs s"])
      (simp add: pub_loop.simps exec_simps sized_def text_size_def)
next
  case (Cons l ls m ms)
  from Cons.hyps(1) obtain c a where
    l: "length l = MAX_LINE" "reads_as l = Message \<lparr>msg_code = c, msg_message = a\<rparr>"
      "string_array 1024 a" "c_string a = m" by (auto simp: carries_def)
  have "length (contents (tfs s) i) + Suc (length (c_string a)) \<le> BLOCK_SIZE (tfs s)"
    using Cons.prems(8) l(4) by simp
  from append_message [OF Cons.prems(1) l(3) this Cons.prems(9)] l(4) obtain g where
    g: "tfs_write (int h) a (size_add (length m) 1) (tfs s) = Inr (int (Suc (length m)), g)"
      "appends g h i" "only_file i h (tfs s) g" "contents g i = contents (tfs s) i @ m @ [NUL]"
      "blank_after (tfs s) i \<longrightarrow> blank_after g i" by auto
  let ?t = "sized k [m] g s"
  have bytes: "l @ drop (length l) (raw_line env) = l" using l(1) Cons.prems(7) by (simp add: env_ok_def)
  have rd: "reader_stc (grants env) (l @ drop (length l) (raw_line env)) =
      Inr (Message \<lparr>msg_code = c, msg_message = a\<rparr>, l)"
    unfolding bytes Cons.prems(6) by (simp add: reader_stc_exec [OF l(1)] l(2))
  have sl: "c_strlen a = Inr (length m)"
  proof -
    from l(3) obtain q where "a = m @ NUL # q"
      using c_string_split [of a] l(4) by (auto simp: string_array_def)
    then show ?thesis using l(4) c_strlen_term [of m q] c_string_no_NUL [of a] by simp
  qed
  have "length m < 1024" using c_string_short [of a] l(3,4) by (simp add: string_array_def)
  then have ti: "to_int (length m) = int (length m)" by simp
  have ia: "int_add (box_size (server_boxes s ! k)) (int (length m)) =
      Inr (box_size (server_boxes s ! k) + int (length m))"
    using Cons.prems(10,11) by (simp add: int_add_def is_int32_def text_size_def)
  have step: "pub_loop env pipe j (int h) (l # ls) s = pub_loop env pipe j (int h) ls ?t"
    using Cons.prems(2-5) g(1) ti ia
    by (subst pub_loop.simps)
      (simp add: exec_simps rd sl in_tfs_write sized_def text_size_def, simp add: box_set_def)
  have bt: "server_boxes ?t ! k =
      (server_boxes s ! k)\<lparr>box_size := box_size (server_boxes s ! k) + int (length m)\<rparr>"
    using Cons.prems(2) by (simp add: sized_def text_size_def)
  have ps: "fs_params g = fs_params (tfs s)" using g(3) by (simp add: only_file_def)
  have "\<exists>g'. pub_loop env pipe j (int h) ls ?t = Inr (True, sized k ms g' ?t) \<and> appends g' h i \<and>
      only_file i h (tfs ?t) g' \<and> contents g' i = contents (tfs ?t) i @ stored ms \<and>
      (blank_after (tfs ?t) i \<longrightarrow> blank_after g' i)"
  proof (rule Cons.IH)
    show "appends (tfs ?t) h i" using g(2) by (simp add: sized_def)
    show "length (contents (tfs ?t) i) + length (stored ms) \<le> BLOCK_SIZE (tfs ?t)"
      using Cons.prems(8) g(4) ps by (simp add: sized_def)
    show "0 \<le> box_size (server_boxes ?t ! k)" using Cons.prems(10) bt by simp
    show "box_size (server_boxes ?t ! k) + int (text_size ms) < 2147483648"
      using Cons.prems(11) bt by (simp add: text_size_def)
  qed (use Cons.prems g(4) in \<open>simp_all add: sized_def\<close>)
  then obtain g' where g': "pub_loop env pipe j (int h) ls ?t = Inr (True, sized k ms g' ?t)"
    "appends g' h i" "only_file i h g g'" "contents g' i = contents g i @ stored ms"
    "blank_after g i \<longrightarrow> blank_after g' i" by (auto simp: sized_def)
  have "sized k ms g' ?t = sized k (m # ms) g' s"
    using Cons.prems(2) by (simp add: sized_def text_size_def add.assoc)
  with step g' g(4,5) only_file_trans [OF g(3) g'(3)] show ?case by (intro exI [of _ g']) simp
qed

text \<open>The box of the request: its entry, its password and its file.\<close>

definition names_box :: "broker \<Rightarrow> request \<Rightarrow> nat \<Rightarrow> nat \<Rightarrow> bool" where
  "names_box s r i fi \<longleftrightarrow> position s (c_string (req_box_name r)) = Some i \<and>
     password_of (server_boxes s ! i) = c_string (req_box_password r) \<and>
     lookup (tfs s) (Some (c_string (req_box_name r))) \<noteq> - 1 \<and>
     resolve (tfs s) (lookup (tfs s) (Some (c_string (req_box_name r)))) = Some (int fi)"

lemma names_boxD:
  assumes "names_box s r i fi"
  shows "position s (c_string (req_box_name r)) = Some i"
    "password_of (server_boxes s ! i) = c_string (req_box_password r)"
    "lookup (tfs s) (Some (c_string (req_box_name r))) \<noteq> - 1"
    "resolve (tfs s) (lookup (tfs s) (Some (c_string (req_box_name r)))) = Some (int fi)"
  using assms by (simp_all add: names_box_def)

lemma locked_table: "broker_inv s \<Longrightarrow> broker_inv (s\<lparr>box_size_lock := True\<rparr>\<lparr>box_size_lock := False\<rparr>)"
  by (simp add: inv_unlocked)

lemma register_pub_exec:
  assumes inv: "broker_inv s" and r: "request_ok r" and j: "j < length (thread_pool s)"
    and i: "position s (c_string (req_box_name r)) = Some i"
    and free: "n_pub (server_boxes s ! i) \<noteq> 1"
    and pw: "password_of (server_boxes s ! i) = c_string (req_box_password r)"
  shows "call (register_pub env r j) k s =
    k True (box_set i (\<lambda>b. b\<lparr>n_pub := 1, box_size := 0\<rparr>) (indexed j i s))"
proof -
  note rd = request_okD [OF r] and l = broker_invD(4) [OF inv] and u = inv_unlocked [OF inv]
    and b = box_in_table [OF inv i]
  let ?s = "s\<lparr>box_size_lock := True\<rparr>"
  have sp: "call (same_password i (req_box_password r)) kk ?s = kk True ?s" for kk :: "bool \<Rightarrow> bool brop"
    using b rd(3) pw by (simp add: exec_simps)
  have "register_pub env r j s = Inr (True, box_set i (\<lambda>b. b\<lparr>n_pub := 1, box_size := 0\<rparr>) (indexed j i s))"
    using l b j free
    by (simp add: register_pub_def exec_simps find_box_exec [OF locked_table [OF inv] rd(2)] i sp u)
  then show ?thesis by (simp add: call_def)
qed

text \<open>A refused publisher: its pipe is opened and closed.\<close>

lemma register_pub_refused:
  assumes inv: "broker_inv s" and r: "request_ok r"
    and o: "can_open env (c_string (req_pipe_name r))" "can_close env"
    and i: "position s (c_string (req_box_name r)) = Some i"
    and no: "n_pub (server_boxes s ! i) = 1 \<or>
      password_of (server_boxes s ! i) \<noteq> c_string (req_box_password r)"
  shows "register_pub env r j s = Inr (False,
    logged [Opened (c_string (req_pipe_name r)), Closed (c_string (req_pipe_name r))] s)"
proof -
  note rd = request_okD [OF r] and l = broker_invD(4) [OF inv] and u = inv_unlocked [OF inv]
    and b = box_in_table [OF inv i]
  let ?s = "s\<lparr>box_size_lock := True\<rparr>"
  have sp: "call (same_password i (req_box_password r)) kk ?s =
      kk (password_of (server_boxes s ! i) = c_string (req_box_password r)) ?s" for kk :: "bool \<Rightarrow> bool brop"
    using b rd(3) by (simp add: exec_simps)
  show ?thesis
    using l b o rd no
    by (auto simp: register_pub_def exec_simps find_box_exec [OF locked_table [OF inv] rd(2)] i sp u Let_def
      c_arg_exec log_io_def logged_def)
qed

lemma process_pub_exec:
  assumes inv: "broker_inv s" and r: "request_ok r" and j: "j < length (thread_pool s)"
    and e: "env_ok env" "grants env = (\<lambda>_. True)" "can_open env (c_string (req_pipe_name r))" "can_close env"
    and b: "names_box s r i fi" and free: "n_pub (server_boxes s ! i) \<noteq> 1" and run: "\<not> ending s"
    and slot: "FREE \<in> set (free_open_file_entries (tfs s))"
    and ls: "list_all2 carries ls ms"
    and fits: "length (contents (tfs s) fi) + length (stored ms) \<le> BLOCK_SIZE (tfs s)"
      "BLOCK_SIZE (tfs s) < 2147483648"
    and room: "contents (tfs s) fi \<noteq> [] \<or> FREE \<in> set (free_blocks (tfs s))"
  shows "\<exists>t g. process_pub env r j ls s = Inr ((), t) \<and>
    t = logged [Opened (c_string (req_pipe_name r)), Closed (c_string (req_pipe_name r))]
      (box_set i (\<lambda>b. b\<lparr>n_pub := 0, box_size := int (text_size ms)\<rparr>) (indexed j i s))
        \<lparr>sigpipe_ignored := True, tfs := g\<rparr> \<and>
    fs_inv g \<and> idle g \<and> names g = names (tfs s) \<and> fs_params g = fs_params (tfs s) \<and>
    used_inode g = used_inode (tfs s) \<and> contents g fi = contents (tfs s) fi @ stored ms \<and>
    (blank_after (tfs s) fi \<longrightarrow> blank_after g fi) \<and>
    (\<forall>d. is_open (tfs s) (int d) \<longrightarrow> is_open g (int d) \<and> offset_of g d = offset_of (tfs s) d \<and>
       file_of g d = file_of (tfs s) d) \<and>
    (\<forall>n. used_inode (tfs s) (int n) \<longrightarrow> n \<noteq> fi \<longrightarrow> contents g n = contents (tfs s) n)"
proof -
  note rd = request_okD [OF r] and bD = names_boxD [OF b] and fs = broker_invD(5,6) [OF inv]
  note bt = box_in_table [OF inv bD(1)]
  let ?p = "Some (c_string (req_box_name r))" and ?pipe = "c_string (req_pipe_name r)"
  let ?s = "logged [Opened ?pipe] ((box_set i (\<lambda>b. b\<lparr>n_pub := 1, box_size := 0\<rparr>) (indexed j i s))
    \<lparr>sigpipe_ignored := True\<rparr>)"
  from open_existing_run [OF fs c_ok_name bD(3,4) slot, of TFS_O_APPEND] obtain h f where
    f: "tfs_open ?p TFS_O_APPEND (tfs s) = Inr (int h, f)" "\<not> is_open (tfs s) (int h)"
      "is_open f (int h)" "file_of f h = fi" "names f = names (tfs s)" "fs_inv f" "idle f"
      "contents f fi = contents (tfs s) fi" "offset_of f h = length (contents (tfs s) fi)"
      "\<forall>n. n \<noteq> fi \<longrightarrow> contents f n = contents (tfs s) n" "same_handles h (tfs s) f"
      "freeinode_ts f = freeinode_ts (tfs s)" "used_inode (tfs s) (int fi)"
      "fs_params f = fs_params (tfs s)" "free_blocks f = free_blocks (tfs s)"
      "fs_data f = fs_data (tfs s)" "inode_table f = inode_table (tfs s)" by auto
  let ?t = "?s\<lparr>tfs := f\<rparr>"
  have ap: "appends (tfs ?t) h fi" using f by (simp add: appends_def used_inode_def)
  have tm: "int (text_size ms) < 2147483648"
    using fits length_stored [of ms] by simp
  have "\<exists>g. pub_loop env (req_pipe_name r) j (int h) ls ?t = Inr (True, sized i ms g ?t) \<and>
      appends g h fi \<and> only_file fi h (tfs ?t) g \<and> contents g fi = contents (tfs ?t) fi @ stored ms \<and>
      (blank_after (tfs ?t) fi \<longrightarrow> blank_after g fi)"
    by (rule pub_loop_exec [OF ls ap]) (use bt j run e fits room f tm in \<open>simp_all add: logged_def\<close>)
  then obtain g where g: "pub_loop env (req_pipe_name r) j (int h) ls ?t = Inr (True, sized i ms g ?t)"
    "appends g h fi" "only_file fi h f g" "contents g fi = contents f fi @ stored ms"
    "blank_after f fi \<longrightarrow> blank_after g fi" by auto
  have "fs_inv g" "idle g" "is_open g (int h)" using g(2) by (simp_all add: appends_def)
  from close_run [OF this] obtain g' where
    c: "tfs_close (int h) g = Inr (0, g')" "fs_inv g'" "idle g'" "names g' = names g"
      "\<forall>j. contents g' j = contents g j" "same_handles h g g'" "fs_params g' = fs_params g"
      "freeinode_ts g' = freeinode_ts g" "free_blocks g' = free_blocks g" "fs_data g' = fs_data g"
      "inode_table g' = inode_table g" by blast
  let ?u = "logged [Opened ?pipe, Closed ?pipe]
    ((box_set i (\<lambda>b. b\<lparr>n_pub := 0, box_size := int (text_size ms)\<rparr>) (indexed j i s))
      \<lparr>sigpipe_ignored := True, tfs := g'\<rparr>)"
  have bx: "b\<lparr>box_size := x, n_pub := 0\<rparr> = b\<lparr>n_pub := 0, box_size := x\<rparr>" for b :: box and x
    by (rule box.equality) simp_all
  have ex: "process_pub env r j ls s = Inr ((), ?u)"
    using rd e bt j f(1) g(1) c(1)
    by (simp add: process_pub_def register_pub_exec [OF inv r j bD(1) free bD(2)] exec_simps c_arg_exec
      in_tfs_calls call_Inr [where m = "pub_loop _ _ _ _ _"] sized_def)
      (rule broker.equality; simp add: box_set_def logged_def indexed_def bx)
  have o: "is_open g' (int d) \<and> offset_of g' d = offset_of (tfs s) d \<and> file_of g' d = file_of (tfs s) d"
    if "is_open (tfs s) (int d)" for d
  proof -
    have "d \<noteq> h" using that f(2) by auto
    with that show ?thesis
      using same_handlesD [OF f(11)] same_handlesD [of h f g] same_handlesD [OF c(6)] g(3)
      by (simp add: only_file_def)
  qed
  have "used_inode f = used_inode (tfs s)"
    using f by (simp add: used_inode_def fun_eq_iff)
  then have oth: "contents g' n = contents (tfs s) n" if "used_inode (tfs s) (int n)" "n \<noteq> fi" for n
    using that c(5) g(3) f(10) by (simp add: only_file_def)
  have n: "names g' = names (tfs s)" "fs_params g' = fs_params (tfs s)"
    "used_inode g' = used_inode (tfs s)" "contents g' fi = contents (tfs s) fi @ stored ms"
    using c g(3,4) f by (simp_all add: only_file_def used_inode_def fun_eq_iff)
  have z: "blank_after g' fi" if "blank_after (tfs s) fi"
    using that g(5) blank_after_cong [of f "tfs s" fi] blank_after_cong [of g' g fi] f(12-) c(7-) by simp
  show ?thesis
    by (intro exI [of _ ?u] exI [of _ g'] conjI allI impI ex c(2,3) n oth z)
      (auto simp: o logged_def)
qed

section \<open>Subscribers\<close>

lemma register_sub_exec:
  assumes inv: "broker_inv s" and r: "request_ok r" and j: "j < length (thread_pool s)"
    and o: "can_open env (c_string (req_pipe_name r))"
    and b: "names_box s r i fi" and k: "is_int32 (n_subs (server_boxes s ! i) + 1)"
    and op: "tfs_open (Some (c_string (req_box_name r))) 0 (tfs s) = Inr (int h, f)"
  shows "register_sub env r j s = Inr (Some (int h),
    logged [Opened (c_string (req_pipe_name r))]
      ((box_set i (\<lambda>b. b\<lparr>n_subs := n_subs b + 1\<rparr>) (indexed j i s))\<lparr>sigpipe_ignored := True, tfs := f\<rparr>))"
proof -
  note rd = request_okD [OF r] and l = broker_invD(4) [OF inv] and u = inv_unlocked [OF inv]
  note bD = names_boxD [OF b] and bt = box_in_table [OF inv names_boxD(1) [OF b]]
  let ?s = "s\<lparr>box_size_lock := True\<rparr>"
  let ?t = "box_set i (\<lambda>b. b\<lparr>n_subs := n_subs b + 1\<rparr>) (indexed j i s)"
  have sp: "call (same_password i (req_box_password r)) kk ?s = kk True ?s" for kk :: "bool \<Rightarrow> bool brop"
    using bt rd(3) bD(2) by (simp add: exec_simps)
  have ia: "int_add (n_subs (server_boxes s ! i)) 1 = Inr (n_subs (server_boxes s ! i) + 1)"
    using k by (simp add: int_add_def)
  have bs: "box_set i (\<lambda>b. b\<lparr>n_subs := n_subs (server_boxes s ! i) + 1\<rparr>) (indexed j i s) = ?t"
    by (simp add: box_set_def)
  have op': "tfs_open (Some (c_string (req_box_name r))) 0 (tfs ?t) = Inr (int h, f)" using op by simp
  show ?thesis
    using l bt j o rd op
    by (simp add: register_sub_def exec_simps call_call find_box_exec [OF locked_table [OF inv] rd(2)]
      bD(1,2) sp ia u bs c_arg_exec in_tfs_calls)
qed

lemma register_sub_refused:
  assumes inv: "broker_inv s" and r: "request_ok r"
    and o: "can_open env (c_string (req_pipe_name r))" "can_close env"
    and i: "position s (c_string (req_box_name r)) = Some i"
    and no: "password_of (server_boxes s ! i) \<noteq> c_string (req_box_password r)"
  shows "register_sub env r j s = Inr (None,
    logged [Opened (c_string (req_pipe_name r)), Closed (c_string (req_pipe_name r))] s)"
proof -
  note rd = request_okD [OF r] and l = broker_invD(4) [OF inv] and u = inv_unlocked [OF inv]
    and b = box_in_table [OF inv i]
  let ?s = "s\<lparr>box_size_lock := True\<rparr>"
  have sp: "call (same_password i (req_box_password r)) kk ?s = kk False ?s" for kk :: "bool \<Rightarrow> bool brop"
    using b rd(3) no by (simp add: exec_simps)
  show ?thesis
    using l b o rd no
    by (simp add: register_sub_def exec_simps call_call find_box_exec [OF locked_table [OF inv] rd(2)] i sp u)
qed

text \<open>The handle \<open>h\<close> reads the file \<open>i\<close>, which holds \<open>c\<close>, from the offset \<open>off\<close>; the byte that
  follows the file in its block is zero.\<close>

definition reads_file :: "tfs_state \<Rightarrow> nat \<Rightarrow> nat \<Rightarrow> char list \<Rightarrow> nat \<Rightarrow> bool" where
  "reads_file f h i c off \<longleftrightarrow> fs_inv f \<and> idle f \<and> is_open f (int h) \<and> file_of f h = i \<and>
     freeinode_ts f ! i = TAKEN \<and> contents f i = c \<and> offset_of f h = off \<and>
     length c < BLOCK_SIZE f \<and> fs_data f (read_base f h + length c) = NUL"

lemma reads_fileD:
  assumes "reads_file f h i c off"
  shows "fs_inv f" "idle f" "is_open f (int h)" "file_of f h = i" "freeinode_ts f ! i = TAKEN"
    "contents f i = c" "offset_of f h = off" "length c < BLOCK_SIZE f"
    "fs_data f (read_base f h + length c) = NUL" "i_size (inode_table f ! i) = length c"
  using assms length_contents [of f i] by (simp_all add: reads_file_def)

lemma reads_file_advanced:
  assumes "reads_file f h i c off"
  shows "reads_file (advanced f h off') h i c off'"
proof -
  note r = reads_fileD [OF assms]
  have "read_base (advanced f h off') h = read_base f h"
    using advanced_handle(2) [OF r(1,3)] by (simp add: read_base_def advanced_def)
  with r advanced_handle [OF r(1,3)] inv_advanced(1) [OF r(1)] show ?thesis
    by (simp add: reads_file_def)
qed

lemma advanced_advanced [simp]:
  assumes "reads_file f h i c off"
  shows "advanced (advanced f h a) h b = advanced f h b"
  using open_handle(2) [OF reads_fileD(1,3) [OF assms]] by (simp add: advanced_def)

lemma read_next:
  assumes f: "reads_file f h i (xs @ m @ NUL # rest) off" and m: "message_ok m"
    and off: "off = length xs \<or> Suc off = length xs \<and> last xs = NUL"
  shows "tfs_read (int h) 1024 f = Inr ((int (length m), m), advanced f h (length xs + length m))"
proof -
  note r = reads_fileD [OF f]
  show ?thesis
    by (rule read_message [OF r(1-3)]) (use r m off in \<open>simp_all add: message_ok_def\<close>)
qed

text \<open>At the zero byte that ends the file, and behind it.\<close>

lemma read_end:
  assumes f: "reads_file f h i c off" and off: "Suc off = length c" "last c = NUL"
  shows "tfs_read (int h) 1024 f = Inr ((0, []), advanced f h (length c))"
proof -
  note r = reads_fileD [OF f]
  have nn: "c \<noteq> []" using off(1) by auto
  have cs: "TFS_Prelude.slice (fs_data f) (read_base f h) (length c) = c"
    using r(6) r(10) nn r(4) by (simp add: contents_def read_base_def split: if_splits)
  have "c ! off = NUL" using off nn last_conv_nth [of c] by (metis diff_Suc_1)
  with arg_cong [OF cs, of "\<lambda>l. l ! off"] off(1) have "fs_data f (read_base f h + off) = NUL" by simp
  then have st: "read_start f h = length c" using off(1) r(7) by (simp add: read_start_def)
  have am: "read_amount f h 1024 = 1" using off(1) r by (simp add: read_amount_def)
  have bs: "read_bytes f h 1024 = []"
    using r(9) by (simp add: read_bytes_def st am slice_Suc c_string_def)
  have "read_start f h + read_amount f h 1024 \<le> BLOCK_SIZE f" using st am r(8) by simp
  from read_fits [OF r(1,3) _ this] r(4,10) nn
  have "read_base f h + read_start f h + read_amount f h 1024 \<le> fs_data_size f" by simp
  with tfs_read_exec [OF r(1-3), of 1024] r am bs st off(1) show ?thesis by simp
qed

lemma read_behind:
  assumes f: "reads_file f h i c (length c)"
  shows "tfs_read (int h) 1024 f = Inr ((0, []), f)"
proof -
  note r = reads_fileD [OF f]
  have am: "read_amount f h 1024 = 0" using r by (simp add: read_amount_def)
  with tfs_read_exec [OF r(1-3), of 1024] r show ?thesis by simp
qed

text \<open>The client reads everything it is sent.\<close>

definition reader_ok :: "env \<Rightarrow> char list \<Rightarrow> bool" where
  "reader_ok env pipe \<longleftrightarrow> env_ok env \<and> NUL \<in> set pipe \<and> (\<forall>k. write_answer env k = Wrote MAX_LINE)"

abbreviation zeros :: "char list" where
  "zeros \<equiv> replicate 1024 NUL"

definition delivered :: "char list \<Rightarrow> string list \<Rightarrow> broker \<Rightarrow> broker" where
  "delivered pipe ms s = logged (map (\<lambda>m. Sent (c_string pipe) (message_line m)) ms) s"

lemma delivered_fields [simp]:
  "tfs (delivered p ms s) = tfs s" "server_boxes (delivered p ms s) = server_boxes s"
  "thread_pool (delivered p ms s) = thread_pool s" "ending (delivered p ms s) = ending s"
  "delivered p ms (s\<lparr>tfs := f\<rparr>) = (delivered p ms s)\<lparr>tfs := f\<rparr>"
  "delivered p ms (delivered p [m] s) = delivered p (m # ms) s"
  by (simp_all add: delivered_def)

lemma send_message:
  assumes e: "reader_ok env pipe" and m: "message_ok m"
  shows "call (lift (strcpy_to zeros (text_array m))) (\<lambda>msg.
      call (make_line env (Message \<lparr>msg_code = 10, msg_message = msg\<rparr>) 10) (\<lambda>l.
      call (write_pipe env k pipe l) f)) s = f (Wrote MAX_LINE) (delivered pipe [m] s)"
proof -
  have t: "NUL \<notin> set m" "length m < 1024" using m by (simp_all add: message_ok_def)
  note ta = text_array_facts [OF t]
  have c: "strcpy_to zeros (text_array m) = Inr (text_array m)"
    using strcpy_to_exec [OF ta(2), of zeros] ta t by simp
  have w: "well_formed (Message \<lparr>msg_code = 10, msg_message = text_array m\<rparr>)"
    using ta by (simp add: message_codes_def)
  show ?thesis
    using e w by (simp add: c exec_simps reader_ok_def delivered_def message_line_def
      del: layout.simps well_formed.simps)
qed

lemma sub_drain_exec:
  assumes "reader_ok env pipe" and "\<And>x. x \<in> set (m # ms) \<Longrightarrow> message_ok x"
    and "reads_file (tfs s) h fi (xs @ stored (m # ms)) (length xs + length m)"
    and "length ms < fuel"
  shows "sub_drain (Suc fuel) env pipe i (int h) k (int (length m)) (text_array m) zeros s =
    Inr (None, (delivered pipe (m # ms) s)\<lparr>tfs := advanced (tfs s) h (length xs + length (stored (m # ms)))\<rparr>)"
  using assms
proof (induction ms arbitrary: m xs s k fuel)
  case Nil
  then have m: "message_ok m" by simp
  then have pos: "\<not> int (length m) \<le> 0" by (simp add: message_ok_def)
  from Nil.prems(4) obtain n where n: "fuel = Suc n" by (cases fuel) simp_all
  have rd: "tfs_read (int h) 1024 (tfs (delivered pipe [m] s)) =
      Inr ((0, []), advanced (tfs s) h (length xs + length (stored [m])))"
    using read_end [OF Nil.prems(3)] by simp
  show ?case
    using pos by (simp add: send_message [OF Nil.prems(1) m] in_tfs_read [OF rd] n exec_simps del: stored_simps)
next
  case (Cons m' ms)
  then have m: "message_ok m" "message_ok m'" by simp_all
  then have pos: "\<not> int (length m) \<le> 0" by (simp add: message_ok_def)
  from Cons.prems(4) obtain n where n: "fuel = Suc n" "length ms < n" by (cases fuel) simp_all
  let ?xs = "xs @ m @ [NUL]"
  have f: "reads_file (tfs s) h fi (?xs @ m' @ NUL # stored ms) (length xs + length m)"
    using Cons.prems(3) by simp
  have rd: "tfs_read (int h) 1024 (tfs (delivered pipe [m] s)) =
      Inr ((int (length m'), m'), advanced (tfs s) h (length ?xs + length m'))"
    using read_next [OF f m(2)] by simp
  let ?t = "(delivered pipe [m] s)\<lparr>tfs := advanced (tfs s) h (length ?xs + length m')\<rparr>"
  have "reads_file (tfs ?t) h fi (?xs @ stored (m' # ms)) (length ?xs + length m')"
    using reads_file_advanced [OF f] by simp
  from Cons.IH [OF Cons.prems(1) _ this n(2), of "Suc k"] Cons.prems(2)
  have "sub_drain (Suc n) env pipe i (int h) (Suc k) (int (length m')) (text_array m') zeros ?t =
    Inr (None, (delivered pipe (m' # ms) ?t)
      \<lparr>tfs := advanced (tfs ?t) h (length ?xs + length (stored (m' # ms)))\<rparr>)" by auto
  with pos show ?case
    by (simp add: send_message [OF Cons.prems(1) m(1)] in_tfs_read [OF rd] n(1) text_array_def [symmetric]
      advanced_advanced [OF f] add.assoc del: sub_drain.simps(2) add: sub_drain.simps(2) [where fuel = "Suc n"])
qed

lemma text_array_cut: "length m \<le> 1024 \<Longrightarrow> m @ drop (length m) zeros = text_array m"
  by (simp add: text_array_def)

definition box_unlocked :: "broker \<Rightarrow> nat \<Rightarrow> bool" where
  "box_unlocked s i \<longleftrightarrow> i < length (server_boxes s) \<and> \<not> box_lock (server_boxes s ! i)"

lemma lock_box_exec:
  "i < length (server_boxes s) \<Longrightarrow> \<not> box_lock (server_boxes s ! i) \<Longrightarrow>
   call (lock_box (int i)) k s = k () (box_set i (\<lambda>b. b\<lparr>box_lock := True\<rparr>) s)"
  "i < length (server_boxes s) \<Longrightarrow> box_lock (server_boxes s ! i) \<Longrightarrow>
   call (unlock_box (int i)) k s = k () (box_set i (\<lambda>b. b\<lparr>box_lock := False\<rparr>) s)"
  by (simp_all add: lock_box_def unlock_box_def call_call exec_simps)

lemma unlock_after_lock:
  assumes "box_unlocked s i"
  shows "box_set i (\<lambda>b. b\<lparr>box_lock := False\<rparr>) ((delivered p ms (box_set i (\<lambda>b. b\<lparr>box_lock := True\<rparr>) s))\<lparr>tfs := f\<rparr>) =
    (delivered p ms s)\<lparr>tfs := f\<rparr>"
proof -
  have eq: "(server_boxes s ! i)\<lparr>box_lock := False\<rparr> = server_boxes s ! i"
    using assms by (auto simp: box_unlocked_def intro!: box.equality)
  show ?thesis using assms
    by (intro broker.equality) (simp_all add: eq box_set_def delivered_def logged_def box_unlocked_def)
qed

text \<open>A subscriber with nothing to read sleeps, and nothing was sent.\<close>

lemma sub_loop_idle:
  assumes u: "box_unlocked s i" and j: "j < length (thread_pool s)" "thread_pool s ! j = int i"
    and f: "reads_file (tfs s) h fi c (length c)"
  shows "sub_loop (Suc fuel) env pipe j (int h) s = Inr (Waiting, s)"
proof -
  have rd: "tfs_read (int h) 1024 (tfs (box_set i (\<lambda>b. b\<lparr>box_lock := True\<rparr>) s)) = Inr ((0, []), tfs s)"
    using read_behind [OF f] by simp
  have b: "(server_boxes s ! i)\<lparr>box_lock := False\<rparr> = server_boxes s ! i"
    using u by (auto simp: box_unlocked_def intro!: box.equality)
  have eq: "box_set i (\<lambda>b. b\<lparr>box_lock := False\<rparr>) (box_set i (\<lambda>b. b\<lparr>box_lock := True\<rparr>) s) = s"
    using u by (simp add: box_unlocked_def box_set_def b)
  show ?thesis
    using u j eq by (simp add: exec_simps lock_box_exec in_tfs_read [OF rd] box_unlocked_def)
qed

lemma sub_loop_exec:
  assumes e: "reader_ok env pipe" and raw: "raw_text env = zeros"
    and u: "box_unlocked s i" and j: "j < length (thread_pool s)" "thread_pool s ! j = int i"
    and run: "\<not> ending s" and ms: "ms \<noteq> []" "\<And>x. x \<in> set ms \<Longrightarrow> message_ok x"
    and f: "reads_file (tfs s) h fi (xs @ stored ms) off"
    and off: "off = length xs \<or> Suc off = length xs \<and> last xs = NUL"
    and fuel: "Suc (length ms) < fuel"
  shows "sub_loop fuel env pipe j (int h) s = Inr (Waiting,
    (delivered pipe ms s)\<lparr>tfs := advanced (tfs s) h (length xs + length (stored ms))\<rparr>)"
proof -
  from ms obtain m rest where m: "ms = m # rest" by (cases ms) simp_all
  then have mo: "message_ok m" using ms by simp
  then have ml: "length m \<le> 1024" "m \<noteq> []" by (simp_all add: message_ok_def)
  from fuel m obtain n where n: "fuel = Suc (Suc n)" "length rest < n"
    by (cases fuel; cases "fuel - 1") auto
  let ?s = "box_set i (\<lambda>b. b\<lparr>box_lock := True\<rparr>) s"
  let ?f = "advanced (tfs s) h (length xs + length m)"
  let ?g = "advanced (tfs s) h (length xs + length (stored ms))"
  have fm: "reads_file (tfs s) h fi (xs @ m @ NUL # stored rest) off" using f m by simp
  have rd: "tfs_read (int h) 1024 (tfs ?s) = Inr ((int (length m), m), ?f)"
    using read_next [OF fm mo off] by simp
  have "reads_file (tfs (?s\<lparr>tfs := ?f\<rparr>)) h fi (xs @ stored (m # rest)) (length xs + length m)"
    using reads_file_advanced [OF f] m by simp
  from sub_drain_exec [OF e _ this n(2), of "int i" 0] ms m advanced_advanced [OF f]
  have dr: "sub_drain (Suc n) env pipe (int i) (int h) 0 (int (length m)) (text_array m) zeros (?s\<lparr>tfs := ?f\<rparr>)
      = Inr (None, (delivered pipe ms ?s)\<lparr>tfs := ?g\<rparr>)" by auto
  then have drc: "call (sub_drain (Suc n) env pipe (int i) (int h) 0 (int (length m)) (text_array m) zeros)
      k (?s\<lparr>tfs := ?f\<rparr>) = k None ((delivered pipe ms ?s)\<lparr>tfs := ?g\<rparr>)"
    for k :: "sub_state option \<Rightarrow> sub_state brop" by (simp add: call_def del: sub_drain.simps)
  let ?t = "(delivered pipe ms s)\<lparr>tfs := ?g\<rparr>"
  have idle: "sub_loop (Suc n) env pipe j (int h) ?t = Inr (Waiting, ?t)"
  proof (rule sub_loop_idle)
    show "reads_file (tfs ?t) h fi (xs @ stored ms) (length (xs @ stored ms))"
      using reads_file_advanced [OF f] by simp
  qed (use u j in \<open>simp_all add: box_unlocked_def\<close>)
  have ul: "call (unlock_box (int i)) k ((delivered pipe ms ?s)\<lparr>tfs := ?g\<rparr>) = k () ?t"
    for k :: "unit \<Rightarrow> sub_state brop"
    using unlock_after_lock [OF u, where p = pipe and ms = ms and f = ?g] u
    by (subst lock_box_exec(2)) (simp_all add: box_unlocked_def)
  show ?thesis
    unfolding n(1) using u j run ml idle
    by (subst sub_loop.simps)
      (simp add: exec_simps lock_box_exec in_tfs_read [OF rd] box_unlocked_def raw
        drc [unfolded text_array_def] ul del: sub_drain.simps sub_loop.simps)
qed

end
