(* ===== verification/Broker_Demo.thy ===== *)
theory Broker_Demo
  imports Broker_Streams FS_Demo
begin

text \<open>
  A small broker on which the theorems about the handlers are instantiated: two entries, the first
  of them the box \<open>/a\<close> with the password \<open>pw\<close> over the file system \<open>demo2\<close>, and clients that
  answer.
\<close>

definition array_of :: "nat \<Rightarrow> string \<Rightarrow> char list" where
  "array_of n v = v @ replicate (n - length v) NUL"

lemma array_of_facts [simp]:
  "length v < n \<Longrightarrow> NUL \<notin> set v \<Longrightarrow> string_array n (array_of n v)"
  "length v < n \<Longrightarrow> NUL \<notin> set v \<Longrightarrow> c_string (array_of n v) = v"
proof -
  assume v: "length v < n" "NUL \<notin> set v"
  then obtain k where k: "n - length v = Suc k" by (cases "n - length v") simp_all
  show "string_array n (array_of n v)" using v k by (simp add: string_array_def array_of_def)
  show "c_string (array_of n v) = v" using v k by (simp add: array_of_def)
qed

definition demo_box :: "string \<Rightarrow> string \<Rightarrow> int \<Rightarrow> box" where
  "demo_box v pw used = \<lparr>box_name = array_of 32 v, box_lock = False, n_pub = 0, n_subs = 0,
     box_free = used, box_size = 0, box_password = array_of 5 pw\<rparr>"

lemma demo_box_fields [simp]:
  "box_name (demo_box v pw u) = array_of 32 v" "box_password (demo_box v pw u) = array_of 5 pw"
  "box_free (demo_box v pw u) = u" "n_pub (demo_box v pw u) = 0" "n_subs (demo_box v pw u) = 0"
  "box_size (demo_box v pw u) = 0" "box_lock (demo_box v pw u) = False"
  by (simp_all add: demo_box_def)

lemma demo_box_ok [simp]:
  "length v < 32 \<Longrightarrow> length pw < 5 \<Longrightarrow> NUL \<notin> set v \<Longrightarrow> NUL \<notin> set pw \<Longrightarrow> box_ok (demo_box v pw u)"
  by (simp add: box_ok_def max_defs)

definition demo_broker :: "tfs_state \<Rightarrow> broker" where
  "demo_broker f = \<lparr>server_boxes = [demo_box ''/a'' ''pw'' 1, demo_box [] [] 0], size_boxes = 2,
     thread_pool = [- 1, 0], box_size_lock = False, sigpipe_ignored = False, ending = False,
     tfs = f, pipes = []\<rparr>"

lemma demo_broker_fields [simp]:
  "server_boxes (demo_broker f) = [demo_box ''/a'' ''pw'' 1, demo_box [] [] 0]"
  "size_boxes (demo_broker f) = 2" "thread_pool (demo_broker f) = [- 1, 0]"
  "\<not> box_size_lock (demo_broker f)" "tfs (demo_broker f) = f" "\<not> ending (demo_broker f)"
  "pipes (demo_broker f) = []"
  by (simp_all add: demo_broker_def)

lemma demo_broker_inv: "fs_inv f \<Longrightarrow> idle f \<Longrightarrow> broker_inv (demo_broker f)"
  by (simp add: broker_inv_def)

lemma demo_position [simp]:
  "position (demo_broker f) ''/a'' = Some 0" "position (demo_broker f) ''/b'' = None"
  "unused (demo_broker f) = Some (Suc 0)"
  by (simp_all add: position_def unused_def)

definition demo_req :: "8 word \<Rightarrow> string \<Rightarrow> string \<Rightarrow> request" where
  "demo_req c v pw = \<lparr>req_code = c, req_pipe_name = array_of 256 ''/tmp/p'',
     req_box_name = array_of 32 v, req_box_password = array_of 5 pw\<rparr>"

lemma demo_req_fields [simp]:
  "req_code (demo_req c v pw) = c" "req_pipe_name (demo_req c v pw) = array_of 256 ''/tmp/p''"
  "req_box_name (demo_req c v pw) = array_of 32 v"
  "req_box_password (demo_req c v pw) = array_of 5 pw"
  by (simp_all add: demo_req_def)

lemma demo_req_ok [simp]:
  "length v < 32 \<Longrightarrow> length pw < 5 \<Longrightarrow> NUL \<notin> set v \<Longrightarrow> NUL \<notin> set pw \<Longrightarrow> request_ok (demo_req c v pw)"
  by (simp add: request_ok_def max_defs)

definition demo_env :: env where
  "demo_env = \<lparr>can_open = (\<lambda>_. True), write_answer = (\<lambda>_. Wrote MAX_LINE), can_close = True,
     grants = (\<lambda>_. True), raw_box = (\<lambda>_. demo_box [] [] 0),
     raw_entry = \<lparr>lr_code = 0, lr_last = 0, lr_box_name = replicate 32 NUL, lr_box_size = 0,
       lr_n_pubs = 0, lr_n_subs = 0, lr_box_password = replicate 5 NUL\<rparr>,
     raw_text = zeros, raw_line = replicate MAX_LINE NUL\<rparr>"

lemma demo_env_ok [simp]: "env_ok demo_env" "pipe_ok demo_env p"
  by (simp_all add: demo_env_def env_ok_def pipe_ok_def max_defs)

lemma demo_env_fields [simp]:
  "can_open demo_env p" "can_close demo_env" "grants demo_env = (\<lambda>_. True)"
  "write_answer demo_env k = Wrote MAX_LINE" "raw_text demo_env = zeros"
  "raw_box demo_env n = demo_box [] [] 0"
  by (simp_all add: demo_env_def)

lemma demo_reader_ok [simp]: "length v < 256 \<Longrightarrow> NUL \<notin> set v \<Longrightarrow> reader_ok demo_env (array_of 256 v)"
  using array_of_facts(1) [of v 256] by (simp add: reader_ok_def string_array_def)

lemma demo_box_file:
  "lookup demo2 (Some ''/a'') = 1" "resolve demo2 1 = Some 1"
  using demo2_lookup by (simp add: path_a_def) (subst resolve_unfold, simp add: is_link_def demo2_fields)

end
