(* ===== verification/Broker_Delivery.thy ===== *)
theory Broker_Delivery
  imports Broker_Demo
begin

text \<open>
  Publishers, subscribers and the dispatch of requests: what is published reaches the file of the
  box and the subscribers, each line of the server pipe reaches the handler of its code, and what
  happens at the edges of the protocol.
\<close>

section \<open>Publishing\<close>

text \<open>A publisher's request meets a box that it may write to, and its messages fit into the file.\<close>

definition may_publish :: "env \<Rightarrow> request \<Rightarrow> nat \<Rightarrow> nat \<Rightarrow> nat \<Rightarrow> string list \<Rightarrow> broker \<Rightarrow> bool" where
  "may_publish env r j i fi ms s \<longleftrightarrow> broker_inv s \<and> request_ok r \<and> j < length (thread_pool s) \<and>
     env_ok env \<and> grants env = (\<lambda>_. True) \<and> can_open env (c_string (req_pipe_name r)) \<and> can_close env \<and>
     names_box s r i fi \<and> n_pub (server_boxes s ! i) \<noteq> 1 \<and> \<not> ending s \<and>
     FREE \<in> set (free_open_file_entries (tfs s)) \<and>
     length (contents (tfs s) fi) + length (stored ms) \<le> BLOCK_SIZE (tfs s) \<and>
     BLOCK_SIZE (tfs s) < 2147483648 \<and>
     (contents (tfs s) fi \<noteq> [] \<or> FREE \<in> set (free_blocks (tfs s)))"

lemma pub_box_ok: "box_ok b \<Longrightarrow> box_ok (b\<lparr>n_pub := x, box_size := y\<rparr>)"
  by (simp add: box_ok_def)

lemma published:
  assumes "may_publish env r j i fi ms s" and "list_all2 carries ls ms"
  shows "\<exists>t. process_pub env r j ls s = Inr ((), t) \<and> broker_inv t \<and>
    server_boxes t = (server_boxes s)[i := (server_boxes s ! i)\<lparr>n_pub := 0, box_size := int (text_size ms)\<rparr>] \<and>
    thread_pool t = (thread_pool s)[j := int i] \<and> ending t = ending s \<and> i < length (server_boxes s) \<and>
    pipes t = pipes s @ [Opened (c_string (req_pipe_name r)), Closed (c_string (req_pipe_name r))] \<and>
    names (tfs t) = names (tfs s) \<and> fs_params (tfs t) = fs_params (tfs s) \<and>
    used_inode (tfs t) = used_inode (tfs s) \<and> contents (tfs t) fi = contents (tfs s) fi @ stored ms \<and>
    (blank_after (tfs s) fi \<longrightarrow> blank_after (tfs t) fi) \<and>
    (\<forall>d. is_open (tfs s) (int d) \<longrightarrow> is_open (tfs t) (int d) \<and>
       offset_of (tfs t) d = offset_of (tfs s) d \<and> file_of (tfs t) d = file_of (tfs s) d) \<and>
    (\<forall>n. used_inode (tfs s) (int n) \<longrightarrow> n \<noteq> fi \<longrightarrow> contents (tfs t) n = contents (tfs s) n)"
proof -
  note m = assms(1) [unfolded may_publish_def]
  then have inv: "broker_inv s" and b: "names_box s r i fi" by simp_all
  note bt = box_in_table [OF inv names_boxD(1) [OF b]]
  let ?u = "logged [Opened (c_string (req_pipe_name r)), Closed (c_string (req_pipe_name r))]
      (box_set i (\<lambda>b. b\<lparr>n_pub := 0, box_size := int (text_size ms)\<rparr>) (indexed j i s))"
  from process_pub_exec [of s r j env i fi ls ms] m assms(2) obtain g where
    g: "process_pub env r j ls s = Inr ((), ?u\<lparr>sigpipe_ignored := True, tfs := g\<rparr>)"
      "fs_inv g" "idle g" "names g = names (tfs s)" "fs_params g = fs_params (tfs s)"
      "used_inode g = used_inode (tfs s)" "contents g fi = contents (tfs s) fi @ stored ms"
      "blank_after (tfs s) fi \<longrightarrow> blank_after g fi"
      "\<forall>d. is_open (tfs s) (int d) \<longrightarrow> is_open g (int d) \<and> offset_of g d = offset_of (tfs s) d \<and>
         file_of g d = file_of (tfs s) d"
      "\<forall>n. used_inode (tfs s) (int n) \<longrightarrow> n \<noteq> fi \<longrightarrow> contents g n = contents (tfs s) n"
    by blast
  have "broker_inv (box_set i (\<lambda>b. b\<lparr>n_pub := 0, box_size := int (text_size ms)\<rparr>) (indexed j i s))"
    by (rule inv_box_set) (use inv bt pub_box_ok in simp_all)
  then have "broker_inv (?u\<lparr>sigpipe_ignored := True, tfs := g\<rparr>)"
    using g(2,3) by (simp add: broker_inv_def logged_def)
  then show ?thesis
    using g bt by (intro exI [of _ "?u\<lparr>sigpipe_ignored := True, tfs := g\<rparr>"])
      (simp add: logged_def box_set_def indexed_def)
qed

text \<open>C18: A publisher's session appends its messages, each with its terminating zero, to the file of
  its box, in the order in which they arrive; every other file and box is as before, and the box
  can be published to again.  The size the table then shows for the box counts the bytes of this
  session only.\<close>

theorem publish_appends_messages:
  assumes "may_publish env r j i fi ms s" and "list_all2 carries ls ms"
  shows "\<exists>t. process_pub env r j ls s = Inr ((), t) \<and> broker_inv t \<and>
    contents (tfs t) fi = contents (tfs s) fi @ stored ms \<and> names (tfs t) = names (tfs s) \<and>
    (\<forall>n. used_inode (tfs s) (int n) \<longrightarrow> n \<noteq> fi \<longrightarrow> contents (tfs t) n = contents (tfs s) n) \<and>
    n_pub (server_boxes t ! i) = 0 \<and> box_size (server_boxes t ! i) = int (text_size ms) \<and>
    (\<forall>m. m \<noteq> i \<longrightarrow> server_boxes t ! m = server_boxes s ! m)"
proof -
  from published [OF assms] obtain t where
    t: "process_pub env r j ls s = Inr ((), t)" "broker_inv t" "i < length (server_boxes s)"
      "server_boxes t =
        (server_boxes s)[i := (server_boxes s ! i)\<lparr>n_pub := 0, box_size := int (text_size ms)\<rparr>]"
      "names (tfs t) = names (tfs s)" "contents (tfs t) fi = contents (tfs s) fi @ stored ms"
      "\<forall>n. used_inode (tfs s) (int n) \<longrightarrow> n \<noteq> fi \<longrightarrow> contents (tfs t) n = contents (tfs s) n"
    by blast
  then show ?thesis by (intro exI [of _ t]) simp
qed

lemma demo_may_publish:
  "may_publish demo_env (demo_req 1 ''/a'' ''pw'') 0 0 1 [''x''] (demo_broker demo2)"
  using demo_box_file demo_broker_inv [OF demo2_inv]
  by (simp add: may_publish_def names_box_def demo2_fields demo2_contents demo_params_def)

theorem publish_appends_messages_witness:
  "\<exists>t. process_pub demo_env (demo_req 1 ''/a'' ''pw'') 0 [message_line ''x''] (demo_broker demo2) = Inr ((), t) \<and>
    contents (tfs t) 1 = ''hix'' @ [NUL]"
proof -
  have "list_all2 carries [message_line ''x''] [''x'']"
    by (simp add: message_line_carries message_ok_def)
  from publish_appends_messages [OF demo_may_publish this] obtain t where
    "process_pub demo_env (demo_req 1 ''/a'' ''pw'') 0 [message_line ''x''] (demo_broker demo2) = Inr ((), t)"
    "contents (tfs t) 1 = contents (tfs (demo_broker demo2)) 1 @ stored [''x'']" by blast
  then show ?thesis by (intro exI [of _ t]) (simp add: demo2_contents)
qed

section \<open>Delivery\<close>

text \<open>The subscriber of the thread \<open>j\<close> on the client pipe \<open>q\<close> sleeps with the handle \<open>h\<close> at the
  end of the file \<open>fi\<close> of the box \<open>i\<close>.\<close>

definition subscribed :: "env \<Rightarrow> char list \<Rightarrow> nat \<Rightarrow> nat \<Rightarrow> nat \<Rightarrow> nat \<Rightarrow> broker \<Rightarrow> bool" where
  "subscribed env q j h i fi s \<longleftrightarrow> reader_ok env q \<and> box_unlocked s i \<and>
     j < length (thread_pool s) \<and> thread_pool s ! j = int i \<and>
     is_open (tfs s) (int h) \<and> file_of (tfs s) h = fi \<and> used_inode (tfs s) (int fi) \<and>
     offset_of (tfs s) h = length (contents (tfs s) fi)"

lemma reads_fileI:
  assumes "broker_inv s" and "is_open (tfs s) (int h)" and "file_of (tfs s) h = i"
    and "used_inode (tfs s) (int i)" and "contents (tfs s) i \<noteq> []"
    and "length (contents (tfs s) i) < BLOCK_SIZE (tfs s)" and "blank_after (tfs s) i"
  shows "reads_file (tfs s) h i (contents (tfs s) i) (offset_of (tfs s) h)"
  using assms broker_invD(5,6) [OF assms(1)] blank_after_byte [of "tfs s" h]
  by (simp add: reads_file_def read_base_def used_inode_def)

lemma delivered_pipes:
  "pipes (delivered q ms s) = pipes s @ map (Sent (c_string q)) (map message_line ms)"
  by (simp add: delivered_def logged_def comp_def)

lemma message_lines_carry:
  "(\<And>m. m \<in> set ms \<Longrightarrow> message_ok m) \<Longrightarrow> list_all2 carries (map message_line ms) ms"
  by (simp add: list.rel_map list_all2_same message_line_carries)

lemma session_delivered:
  assumes p: "may_publish env r j i fi ms s" "list_all2 carries ls ms"
    and ms: "ms \<noteq> []" "\<And>m. m \<in> set ms \<Longrightarrow> message_ok m"
    and small: "length (contents (tfs s) fi) + length (stored ms) < BLOCK_SIZE (tfs s)"
    and sub: "subscribed env' q j' h i fi s" "j' \<noteq> j"
    and zero: "raw_text env' = zeros" "blank_after (tfs s) fi" and fuel: "Suc (length ms) < fuel"
  shows "\<exists>t u ls'. process_pub env r j ls s = Inr ((), t) \<and>
    sub_loop fuel env' q j' (int h) t = Inr (Waiting, u) \<and>
    pipes u = pipes t @ map (Sent (c_string q)) ls' \<and> list_all2 carries ls' ms \<and>
    contents (tfs u) fi = contents (tfs s) fi @ stored ms \<and> subscribed env' q j' h i fi u \<and>
    blank_after (tfs u) fi"
proof -
  note sb = sub(1) [unfolded subscribed_def]
  from published [OF p] obtain t where
    t: "process_pub env r j ls s = Inr ((), t)" "broker_inv t" "i < length (server_boxes s)"
      "server_boxes t =
        (server_boxes s)[i := (server_boxes s ! i)\<lparr>n_pub := 0, box_size := int (text_size ms)\<rparr>]"
      "thread_pool t = (thread_pool s)[j := int i]" "ending t = ending s"
      "fs_params (tfs t) = fs_params (tfs s)" "used_inode (tfs t) = used_inode (tfs s)"
      "contents (tfs t) fi = contents (tfs s) fi @ stored ms"
      "blank_after (tfs s) fi \<longrightarrow> blank_after (tfs t) fi"
      "\<forall>d. is_open (tfs s) (int d) \<longrightarrow> is_open (tfs t) (int d) \<and>
         offset_of (tfs t) d = offset_of (tfs s) d \<and> file_of (tfs t) d = file_of (tfs s) d"
    by blast
  from t(11) sb have th: "is_open (tfs t) (int h)" "file_of (tfs t) h = fi"
    "offset_of (tfs t) h = length (contents (tfs s) fi)" by simp_all
  have "stored ms \<noteq> []" using ms(1) by (cases ms) simp_all
  then have rf: "reads_file (tfs t) h fi (contents (tfs s) fi @ stored ms) (length (contents (tfs s) fi))"
    using reads_fileI [OF t(2) th(1,2)] th(3) t small sb zero(2) by simp
  let ?u = "(delivered q ms t)\<lparr>tfs := advanced (tfs t) h (length (contents (tfs s) fi @ stored ms))\<rparr>"
  have un: "box_unlocked t i" using sb t by (simp add: box_unlocked_def)
  have j: "j' < length (thread_pool t)" "thread_pool t ! j' = int i" using sb t sub(2) by simp_all
  have "\<not> ending t" using p(1) t(6) by (simp add: may_publish_def)
  then have ex: "sub_loop fuel env' q j' (int h) t = Inr (Waiting, ?u)"
    using sub_loop_exec [OF _ zero(1) un j _ ms rf _ fuel] sb by simp
  have fi: "fs_inv (tfs t)" using t(2) by (rule broker_invD(5))
  have bl: "blank_after (advanced (tfs t) h k) fi" for k
    using t(10) zero(2) blank_after_cong [of "advanced (tfs t) h k" "tfs t" fi] by (simp add: advanced_def)
  have ui: "used_inode (advanced (tfs t) h k) = used_inode (tfs t)" for k
    by (simp add: used_inode_def fun_eq_iff advanced_def)
  have "subscribed env' q j' h i fi ?u"
    using sb un j th advanced_handle [OF fi th(1)] t(8,9) ui
    by (simp add: subscribed_def box_unlocked_def)
  then show ?thesis
    using t(1,9) ex message_lines_carry [of ms] ms(2) bl
    by (intro exI [of _ t] exI [of _ ?u] exI [of _ "map message_line ms"])
      (simp add: delivered_pipes del: map_map)
qed

text \<open>C6: What a publisher sends reaches the subscribers of the box, if the memory is zero that the code
  reads without having set it: the buffer \<open>teste\<close> of the subscriber and the rest of the block of the
  file.  When a publisher's session ends while a subscriber of the same box sleeps at the end of its
  file, and the subscriber then gets the lock of the box, it sends its client one line per message,
  from which the client reads exactly the messages of the session, each once and in the order in
  which they were published; then it sleeps again at the end of the file, behind which the memory is
  still zero.  (What happens without this condition is shown by \<open>first_message_unterminated\<close> and
  \<open>tfs_read_past_end\<close>.)\<close>

theorem published_messages_reach_subscriber:
  assumes p: "may_publish env r j i fi ms s" "list_all2 carries ls ms"
    and ms: "ms \<noteq> []" "\<And>m. m \<in> set ms \<Longrightarrow> message_ok m"
    and small: "length (contents (tfs s) fi) + length (stored ms) < BLOCK_SIZE (tfs s)"
    and sub: "subscribed env' q j' h i fi s" "j' \<noteq> j"
    and zero: "raw_text env' = zeros" "blank_after (tfs s) fi" and fuel: "Suc (length ms) < fuel"
  shows "\<exists>t u ls'. process_pub env r j ls s = Inr ((), t) \<and>
    sub_loop fuel env' q j' (int h) t = Inr (Waiting, u) \<and>
    pipes u = pipes t @ map (Sent (c_string q)) ls' \<and> list_all2 carries ls' ms \<and>
    contents (tfs u) fi = contents (tfs s) fi @ stored ms \<and> subscribed env' q j' h i fi u \<and>
    blank_after (tfs u) fi"
  by (rule session_delivered [OF assms])

lemma demo1_data: "88 \<le> x \<Longrightarrow> fs_data demo1 x = NUL"
proof -
  assume x: "88 \<le> x"
  have "root_base (file_inode demo0 1 TAKEN) = 0"
    by (simp add: root_base_def file_inode_def demo0_fields)
  moreover have "root_dents (file_inode demo0 1 TAKEN) = [([], - 1), ([], - 1)]"
    using inv_file_inode(2) [OF demo0_inv(1), of 1] demo0_dents
    by (simp add: demo0_fields first_free_def)
  ultimately have "fs_data demo1 x = fs_data demo0 x"
    using x by (simp add: demo1_def link_added_def entry_added_def put_dent_outside)
  also have "\<dots> = NUL"
    using x by (simp add: demo0_def init_state_def demo_params_def cleared_outside)
      (simp add: demo_heap_def)
  finally show ?thesis .
qed

lemma demo2_blank: "blank_after demo2 1"
proof -
  have "blank_after demo1 1"
    by (simp add: blank_after_def write_block_def demo1_fields first_free_def demo_params_def demo1_data)
  then have "blank_after demo2 (file_of demo1 0)"
    unfolding demo2_def using demo1_block demo1_handle
    by (intro blank_after_written [OF demo1_inv(1)]) (simp_all add: demo1_fields)
  then show ?thesis by (simp add: demo1_handle)
qed

lemma demo_subscribed:
  "subscribed demo_env (array_of 256 ''/tmp/s'') 1 0 0 1 (demo_broker demo2)"
  using demo2_handle
  by (simp add: subscribed_def box_unlocked_def demo2_contents used_inode_def demo2_fields demo_params_def)

lemma demo_message: "list_all2 carries [message_line ''x''] [''x'']" "message_ok ''x''"
  by (simp_all add: message_line_carries message_ok_def)

theorem published_messages_reach_subscriber_witness:
  "\<exists>t u l. process_pub demo_env (demo_req 1 ''/a'' ''pw'') 0 [message_line ''x''] (demo_broker demo2) = Inr ((), t) \<and>
    sub_loop 3 demo_env (array_of 256 ''/tmp/s'') 1 0 t = Inr (Waiting, u) \<and>
    pipes u = pipes t @ [Sent ''/tmp/s'' l] \<and> carries l ''x''"
proof -
  have "\<exists>t u ls'. process_pub demo_env (demo_req 1 ''/a'' ''pw'') 0 [message_line ''x''] (demo_broker demo2) =
        Inr ((), t) \<and>
      sub_loop 3 demo_env (array_of 256 ''/tmp/s'') 1 (int 0) t = Inr (Waiting, u) \<and>
      pipes u = pipes t @ map (Sent (c_string (array_of 256 ''/tmp/s''))) ls' \<and> list_all2 carries ls' [''x''] \<and>
      contents (tfs u) 1 = contents (tfs (demo_broker demo2)) 1 @ stored [''x''] \<and>
      subscribed demo_env (array_of 256 ''/tmp/s'') 1 0 0 1 u \<and> blank_after (tfs u) 1"
    by (rule published_messages_reach_subscriber
        [OF demo_may_publish demo_message(1) _ _ _ demo_subscribed])
      (simp_all add: demo_message(2) demo2_contents demo2_fields demo2_blank [simplified] demo_params_def)
  then show ?thesis by (auto simp: list_all2_Cons2)
qed

text \<open>C19: Run on the request of a new subscriber, \<open>process_sub\<close> registers the client with the box and sends
  it every message that is stored in the file of the box, from the first one on, each once and in
  order, before it sleeps; nothing in the file changes.  As the code uses memory that it has not set,
  this needs a buffer \<open>teste\<close> of zeros, and zeros in the rest of the block of the file; the theorems
  \<open>first_message_unterminated\<close> and \<open>tfs_read_past_end\<close> show what happens otherwise.\<close>

theorem subscriber_gets_stored_messages:
  assumes inv: "broker_inv s" and r: "request_ok r" and j: "j < length (thread_pool s)"
    and e: "reader_ok env (req_pipe_name r)" "raw_text env = zeros"
      "can_open env (c_string (req_pipe_name r))"
    and b: "names_box s r i fi" and k: "is_int32 (n_subs (server_boxes s ! i) + 1)"
    and u: "box_unlocked s i" "\<not> ending s" "FREE \<in> set (free_open_file_entries (tfs s))"
    and ms: "contents (tfs s) fi = stored ms" "ms \<noteq> []" "\<And>m. m \<in> set ms \<Longrightarrow> message_ok m"
    and small: "length (stored ms) < BLOCK_SIZE (tfs s)" and z: "blank_after (tfs s) fi"
    and fuel: "Suc (length ms) < fuel"
  shows "\<exists>t ls. run_task env fuel j inputs \<lparr>function_of = Some H_sub, request_of = Request r\<rparr> s = Inr ((), t) \<and>
    pipes t = pipes s @ Opened (c_string (req_pipe_name r)) # map (Sent (c_string (req_pipe_name r))) ls \<and>
    list_all2 carries ls ms \<and> contents (tfs t) fi = stored ms \<and> names (tfs t) = names (tfs s) \<and>
    n_subs (server_boxes t ! i) = n_subs (server_boxes s ! i) + 1"
proof -
  note fs = broker_invD(5,6) [OF inv] and bD = names_boxD [OF b] and bt = box_in_table [OF inv names_boxD(1) [OF b]]
  let ?q = "req_pipe_name r"
  from open_existing_run [OF fs c_ok_name bD(3,4) u(3), of 0] obtain h f where
    f: "tfs_open (Some (c_string (req_box_name r))) 0 (tfs s) = Inr (int h, f)" "is_open f (int h)"
      "file_of f h = fi" "names f = names (tfs s)" "contents f fi = contents (tfs s) fi" "offset_of f h = 0"
      "fs_inv f" "idle f" "freeinode_ts f = freeinode_ts (tfs s)" "used_inode (tfs s) (int fi)"
      "fs_params f = fs_params (tfs s)" "free_blocks f = free_blocks (tfs s)"
      "fs_data f = fs_data (tfs s)" "inode_table f = inode_table (tfs s)" by auto
  let ?s = "logged [Opened (c_string ?q)]
    ((box_set i (\<lambda>b. b\<lparr>n_subs := n_subs b + 1\<rparr>) (indexed j i s))\<lparr>sigpipe_ignored := True, tfs := f\<rparr>)"
  have rg: "register_sub env r j s = Inr (Some (int h), ?s)"
    by (rule register_sub_exec [OF inv r j e(3) b k f(1)])
  have "stored ms \<noteq> []" using ms(2) by (cases ms) simp_all
  moreover have "broker_inv (s\<lparr>tfs := f\<rparr>)" using inv f(7,8) by (simp add: broker_inv_def)
  moreover have "used_inode f (int fi)" using f(9-11) by (simp add: used_inode_def)
  moreover have "blank_after f fi" using z blank_after_cong [of f "tfs s" fi] f(11-14) by simp
  ultimately have rf: "reads_file f h fi ([] @ stored ms) 0"
    using reads_fileI [of "s\<lparr>tfs := f\<rparr>" h fi] f ms(1) small by simp
  have un: "box_unlocked ?s i" using u(1) bt by (simp add: box_unlocked_def logged_def)
  have jj: "j < length (thread_pool ?s)" "thread_pool ?s ! j = int i" "\<not> ending ?s"
    using j u(2) by (simp_all add: logged_def)
  have "reads_file (tfs ?s) h fi ([] @ stored ms) 0" using rf by (simp add: logged_def)
  from sub_loop_exec [OF e(1,2) un jj ms(2,3) this _ fuel]
  have "sub_loop fuel env ?q j (int h) ?s = Inr (Waiting,
      (delivered ?q ms ?s)\<lparr>tfs := advanced (tfs ?s) h (length (stored ms))\<rparr>)" (is "_ = Inr (_, ?t)") by simp
  then have "run_task env fuel j inputs \<lparr>function_of = Some H_sub, request_of = Request r\<rparr> s = Inr ((), ?t)"
    by (simp add: run_task_def call_def rg ret_def del: sub_loop.simps)
  moreover have "names (tfs ?t) = names (tfs s)"
    using f(4) names_cong [OF root_dents_cong(2), of "advanced f h (length (stored ms))" f]
    by (simp add: advanced_def logged_def)
  ultimately show ?thesis
    using message_lines_carry [of ms] ms f(5) bt
    by (intro exI [of _ ?t] exI [of _ "map message_line ms"])
      (simp add: delivered_pipes logged_def indexed_def del: map_map)
qed

text \<open>The small broker with two messages in the file of its box.\<close>

definition demo8 :: tfs_state where
  "demo8 = written demo1 0 [TAKEN, TAKEN, FREE] 1 (stored [''hi'', ''ok''])"

lemma demo8_facts:
  shows "fs_inv demo8" "idle demo8" "blank_after demo8 1" "contents demo8 1 = stored [''hi'', ''ok'']"
    "lookup demo8 (Some ''/a'') = 1" "resolve demo8 1 = Some 1" "fs_params demo8 = demo_params"
    "free_open_file_entries demo8 = [TAKEN, FREE]"
proof -
  let ?bs = "stored [''hi'', ''ok'']"
  have op: "is_open demo1 (int 0)" by (simp add: demo1_handle)
  have wb: "write_block demo1 (file_of demo1 0) = Some (1, [TAKEN, TAKEN, FREE])"
    by (simp add: demo1_handle demo1_block)
  have fit: "offset_of demo1 0 + length ?bs \<le> BLOCK_SIZE demo1"
    by (simp add: demo1_handle demo1_fields demo_params_def)
  show "fs_inv demo8" unfolding demo8_def by (rule inv_written(1) [OF demo1_inv(1) op wb fit])
  show "idle demo8" using demo1_inv(2) by (simp add: demo8_def)
  have "blank_after demo1 (file_of demo1 0)"
    by (simp add: demo1_handle blank_after_def write_block_def demo1_fields first_free_def
      demo_params_def demo1_data)
  then have "blank_after demo8 (file_of demo1 0)"
    unfolding demo8_def by (intro blank_after_written [OF demo1_inv(1) op wb])
      (simp_all add: demo1_handle demo1_fields)
  then show "blank_after demo8 1" by (simp add: demo1_handle)
  have "contents demo1 (Suc 0) = []" by (simp add: contents_def demo1_fields)
  then show "contents demo8 1 = ?bs"
    using contents_written [OF demo1_inv(1) op wb, of ?bs]
    by (simp add: demo1_handle demo8_def)
  have "root_dents demo8 = [(''a'', 1), ([], - 1)]"
    unfolding demo8_def using inv_written(2) [OF demo1_inv(1) op wb fit] demo1_dents by simp
  then show "lookup demo8 (Some ''/a'') = 1" by (simp add: lookup_def path_entry_def)
  have "inode_table demo8 ! 1 = \<lparr>i_node_type = T_FILE, i_size = 6, i_data_block = 1, i_count = 1\<rparr>"
    by (simp add: demo8_def written_def demo1_handle demo1_fields)
  then show "resolve demo8 1 = Some 1" by (subst resolve_unfold) (simp add: is_link_def)
  show "fs_params demo8 = demo_params" "free_open_file_entries demo8 = [TAKEN, FREE]"
    by (simp_all add: demo8_def demo1_fields)
qed

theorem subscriber_gets_stored_messages_witness:
  "\<exists>t ls. run_task demo_env 4 0 [] \<lparr>function_of = Some H_sub,
      request_of = Request (demo_req 2 ''/a'' ''pw'')\<rparr> (demo_broker demo8) = Inr ((), t) \<and>
    pipes t = Opened ''/tmp/p'' # map (Sent ''/tmp/p'') ls \<and> list_all2 carries ls [''hi'', ''ok'']"
proof -
  let ?r = "demo_req 2 ''/a'' ''pw''" let ?s = "demo_broker demo8"
  have nb: "names_box ?s ?r 0 1" using demo8_facts(5,6) by (simp add: names_box_def)
  have "\<exists>t ls. run_task demo_env 4 0 [] \<lparr>function_of = Some H_sub, request_of = Request ?r\<rparr> ?s = Inr ((), t) \<and>
      pipes t = pipes ?s @ Opened (c_string (req_pipe_name ?r)) # map (Sent (c_string (req_pipe_name ?r))) ls \<and>
      list_all2 carries ls [''hi'', ''ok''] \<and> contents (tfs t) 1 = stored [''hi'', ''ok''] \<and>
      names (tfs t) = names (tfs ?s) \<and> n_subs (server_boxes t ! 0) = n_subs (server_boxes ?s ! 0) + 1"
    by (rule subscriber_gets_stored_messages [OF demo_broker_inv [OF demo8_facts(1,2)] _ _ _ _ _ nb])
      (use demo8_facts in \<open>auto simp: box_unlocked_def is_int32_def demo_params_def message_ok_def\<close>)
  then show ?thesis by auto
qed

section \<open>The edges\<close>

text \<open>A box has one publisher at a time: while a session is running, a second publisher is turned
  away, its pipe opened and closed at once, and neither the table, the session nor the file system
  changes.\<close>

theorem second_publisher_refused:
  assumes inv: "broker_inv s" and r: "request_ok r"
    and o: "can_open env (c_string (req_pipe_name r))" "can_close env"
    and i: "position s (c_string (req_box_name r)) = Some i" "n_pub (server_boxes s ! i) = 1"
  shows "\<exists>t. process_pub env r j ls s = Inr ((), t) \<and>
    pipes t = pipes s @ [Opened (c_string (req_pipe_name r)), Closed (c_string (req_pipe_name r))] \<and>
    server_boxes t = server_boxes s \<and> thread_pool t = thread_pool s \<and> tfs t = tfs s \<and> broker_inv t"
proof -
  let ?t = "logged [Opened (c_string (req_pipe_name r)), Closed (c_string (req_pipe_name r))] s"
  have "register_pub env r j s = Inr (False, ?t)"
    using register_pub_refused [OF inv r o i(1)] i(2) by simp
  then have "process_pub env r j ls s = Inr ((), ?t)"
    by (simp add: process_pub_def call_def ret_def)
  then show ?thesis using inv by (intro exI [of _ ?t]) (simp add: logged_def broker_inv_def)
qed

definition busy_broker :: broker where
  "busy_broker = (demo_broker demo2)\<lparr>server_boxes := [(demo_box ''/a'' ''pw'' 1)\<lparr>n_pub := 1\<rparr>, demo_box [] [] 0]\<rparr>"

lemma busy_broker_facts: "broker_inv busy_broker" "position busy_broker ''/a'' = Some 0"
  "n_pub (server_boxes busy_broker ! 0) = 1"
  using demo_broker_inv [OF demo2_inv] demo_box_ok [of "''/a''" "''pw''" 1]
  by (simp_all add: busy_broker_def broker_inv_def box_ok_def position_def)

theorem second_publisher_refused_witness:
  "\<exists>t. process_pub demo_env (demo_req 1 ''/a'' ''pw'') 0 [] busy_broker = Inr ((), t) \<and>
    server_boxes t = server_boxes busy_broker \<and> tfs t = tfs busy_broker"
proof -
  from second_publisher_refused [OF busy_broker_facts(1), of "demo_req 1 ''/a'' ''pw''" demo_env 0 0 "[]"]
    busy_broker_facts(2,3) obtain t where
    "process_pub demo_env (demo_req 1 ''/a'' ''pw'') 0 [] busy_broker = Inr ((), t)"
    "server_boxes t = server_boxes busy_broker" "tfs t = tfs busy_broker" by auto
  then show ?thesis by blast
qed

text \<open>C38: The buffer into which a subscriber reads its first message is not initialised, and
  \<open>tfs_read\<close> stores no terminator: when the memory holds no zero byte, copying the message with
  \<open>strcpy\<close> reads past the end of the buffer.\<close>

theorem first_message_unterminated:
  assumes u: "box_unlocked s i" and j: "j < length (thread_pool s)" "thread_pool s ! j = int i"
    and run: "\<not> ending s" and m: "message_ok m"
    and f: "reads_file (tfs s) h fi (xs @ m @ NUL # rest) (length xs)"
    and raw: "NUL \<notin> set (raw_text env)"
  shows "sub_loop (Suc (Suc fuel)) env pipe j (int h) s = Inl OutOfBounds"
proof -
  let ?s = "box_set i (\<lambda>b. b\<lparr>box_lock := True\<rparr>) s"
  have rd: "tfs_read (int h) 1024 (tfs ?s) =
      Inr ((int (length m), m), advanced (tfs s) h (length xs + length m))"
    using read_next [OF f m] by simp
  have ne: "m \<noteq> []" "NUL \<notin> set m" using m by (simp_all add: message_ok_def)
  have open_end: "c_strcpy a = Inl OutOfBounds" if "NUL \<notin> set a" for a
    using that by (induction a) auto
  have "NUL \<notin> set (m @ drop (length m) (raw_text env))"
    using ne(2) raw by (auto dest: in_set_dropD)
  then have "strcpy_to (raw_text env) (m @ drop (length m) (raw_text env)) = Inl OutOfBounds"
    by (simp add: strcpy_to_def open_end)
  then have "call (sub_drain (Suc fuel) env pipe (int i) (int h) 0 (int (length m))
      (m @ drop (length m) (raw_text env)) (raw_text env)) k t = Inl OutOfBounds"
    for k :: "sub_state option \<Rightarrow> sub_state brop" and t
    using ne(1) by (simp add: call_def lift_def)
  then show ?thesis
    using u j run ne(1)
    by (subst sub_loop.simps)
      (simp add: exec_simps lock_box_exec in_tfs_read [OF rd] box_unlocked_def)
qed

text \<open>Two messages that the handle 1 has not read.\<close>

lemma demo_unread:
  "reads_file (snd (opened demo8 1 0)) 1 1 (stored [''hi'', ''ok'']) 0"
  "broker_inv (demo_broker (snd (opened demo8 1 0)))"
proof -
  have o: "open_file_table demo8 = [\<lparr>of_inumber = 1, of_offset = 6\<rparr>, \<lparr>of_inumber = 0, of_offset = 0\<rparr>]"
    "freeinode_ts demo8 = [TAKEN, TAKEN, FREE, FREE]"
    by (simp_all add: demo8_def written_def demo1_fields demo1_handle)
  let ?f = "snd (opened demo8 1 0)"
  have u: "used_inode demo8 (int 1)" by (simp add: used_inode_def o demo8_facts demo_params_def)
  have h: "is_open ?f (int (Suc 0))" "file_of ?f (Suc 0) = Suc 0" "offset_of ?f (Suc 0) = 0"
    using o demo8_facts(7,8) by (simp_all add: opened_def first_free_def is_open_def
      valid_file_handle_def file_of_def offset_of_def demo_params_def)
  have c: "contents ?f (Suc 0) = stored [''hi'', ''ok'']" using demo8_facts(4) by simp
  show inv: "broker_inv (demo_broker ?f)"
    using inv_opened [OF demo8_facts(1) u] demo8_facts(2) by (intro demo_broker_inv) simp_all
  have len: "i_size (inode_table demo8 ! Suc 0) = 6"
    by (simp add: demo8_def written_def demo1_handle demo1_fields)
  have u': "used_inode ?f (int (Suc 0))" "blank_after ?f (Suc 0)"
    using u demo8_facts(3) blank_after_cong [of ?f demo8 1] by (simp_all add: used_inode_def)
  show "reads_file ?f 1 1 (stored [''hi'', ''ok'']) 0"
    using reads_fileI [OF inv, of "Suc 0" "Suc 0"] h c u' demo8_facts(7)
      len by (simp add: demo_params_def)
qed

theorem first_message_unterminated_witness:
  "sub_loop 2 (demo_env\<lparr>raw_text := replicate 1024 (CHR ''z'')\<rparr>) (array_of 256 ''/tmp/s'') 1 1
    (demo_broker (snd (opened demo8 1 0))) = Inl OutOfBounds"
proof -
  let ?f = "snd (opened demo8 1 0)"
  have rf: "reads_file (tfs (demo_broker ?f)) 1 1 ([] @ ''hi'' @ NUL # stored [''ok'']) (length [])"
    using demo_unread(1) by simp
  have "sub_loop (Suc (Suc 0)) (demo_env\<lparr>raw_text := replicate 1024 (CHR ''z'')\<rparr>) (array_of 256 ''/tmp/s'') 1 (int 1)
      (demo_broker ?f) = Inl OutOfBounds"
    by (rule first_message_unterminated [OF _ _ _ _ _ rf]) (simp_all add: box_unlocked_def message_ok_def)
  then show ?thesis by (simp add: numeral_2_eq_2)
qed

section \<open>Dispatch\<close>

text \<open>The structure that a handler takes its argument for.\<close>

definition takes :: "handler \<Rightarrow> object \<Rightarrow> bool" where
  "takes h m \<longleftrightarrow>
     (case h of
        H_list \<Rightarrow> (case m of List_request r \<Rightarrow> True | _ \<Rightarrow> False)
      | H_lock \<Rightarrow> (case m of New_password r \<Rightarrow> True | _ \<Rightarrow> False)
      | _ \<Rightarrow> (case m of Request r \<Rightarrow> True | _ \<Rightarrow> False))"

lemma make_task_exec:
  assumes "length b = MAX_LINE"
  shows "make_task (\<lambda>_. True) b =
    Inr \<lparr>function_of = select_handler (u8_of (take 1 b)), request_of = reads_as b\<rparr>"
proof -
  have "get_bytes 0 1 b = Inr (take 1 b, b)"
    using assms by (simp add: get_bytes_def max_defs)
  then show ?thesis using reader_stc_exec [OF assms] by (simp add: make_task_def)
qed

text \<open>C26: Every line of the server pipe is turned into a task, and a task with a handler carries the
  structure that this handler casts its argument to.  For any other code the function pointer of
  the task is the uninitialised memory of \<open>malloc\<close>, and calling it is undefined behaviour.\<close>

theorem every_line_dispatched:
  assumes "length b = MAX_LINE"
  shows "\<exists>t. make_task (\<lambda>_. True) b = Inr t \<and>
    (case function_of t of
       Some h \<Rightarrow> takes h (request_of t)
     | None \<Rightarrow> u8_of (take 1 b) \<notin> {1, 2, 3, 5, 7, 11, 13} \<and>
         (\<forall>env fuel j inputs s. run_task env fuel j inputs t s = Inl Indeterminate))"
proof -
  have "case select_handler (u8_of (take 1 b)) of
      Some h \<Rightarrow> takes h (reads_as b)
    | None \<Rightarrow> u8_of (take 1 b) \<notin> {1, 2, 3, 5, 7, 11, 13}"
    by (simp add: select_handler_def takes_def reads_as_def Let_def code_defs)
  then show ?thesis
    unfolding make_task_exec [OF assms]
    by (simp add: run_task_def fail_def split: option.splits)
qed

theorem every_line_dispatched_witness:
  "\<exists>t. make_task (\<lambda>_. True) (replicate MAX_LINE NUL) = Inr t \<and>
    (case function_of t of
       Some h \<Rightarrow> takes h (request_of t)
     | None \<Rightarrow> u8_of (take 1 (replicate MAX_LINE NUL)) \<notin> {1, 2, 3, 5, 7, 11, 13} \<and>
         (\<forall>env fuel j inputs s. run_task env fuel j inputs t s = Inl Indeterminate))"
  by (rule every_line_dispatched) simp

text \<open>The codes of the requests and their handlers.\<close>

definition handler_codes :: "(8 word \<times> handler) list" where
  "handler_codes = [(1, H_pub), (2, H_sub), (3, H_create), (5, H_remove), (7, H_list),
     (11, H_unlock), (13, H_lock)]"

lemma requests_dispatched:
  assumes "well_formed m" and "(code_of m, h) \<in> set handler_codes"
  shows "make_task (\<lambda>_. True) (line (layout m)) = Inr \<lparr>function_of = Some h, request_of = m\<rparr>" "takes h m"
proof -
  have len: "length (line (layout m)) = MAX_LINE" by (rule length_line [OF layout_fits [OF assms(1)]])
  have c: "u8_of (take 1 (line (layout m))) = code_of m" by (simp only: take_code words_back)
  have "select_handler (code_of m) = Some h"
    using assms(2) by (auto simp: handler_codes_def select_handler_def)
  then show "make_task (\<lambda>_. True) (line (layout m)) = Inr \<lparr>function_of = Some h, request_of = m\<rparr>"
    using make_task_exec [OF len] c reads_as_line [OF assms(1)] by simp
  show "takes h m"
    using assms by (cases m) (auto simp: takes_def handler_codes_def code_defs)
qed

text \<open>A request that a client writes with \<open>writer_stc\<close> reaches the handler of its code in the
  broker, with every field as the client filled it.\<close>

theorem requests_reach_handlers:
  assumes "well_formed m" and "(code_of m, h) \<in> set handler_codes" and "length b = MAX_LINE"
  shows "\<exists>l. writer_stc m (code_of m) b = Inr ((), l) \<and> length l = MAX_LINE \<and>
    make_task (\<lambda>_. True) l = Inr \<lparr>function_of = Some h, request_of = m\<rparr> \<and> takes h m"
  using writer_stc_exec [OF assms(1,3)] requests_dispatched [OF assms(1,2)]
    length_line [OF layout_fits [OF assms(1)]] by (intro exI [of _ "line (layout m)"]) simp

theorem requests_reach_handlers_witness:
  "\<exists>l. writer_stc (Request demo_request) 3 (replicate MAX_LINE NUL) = Inr ((), l) \<and>
    make_task (\<lambda>_. True) l = Inr \<lparr>function_of = Some H_create, request_of = Request demo_request\<rparr>"
proof -
  have "\<exists>l. writer_stc (Request demo_request) (code_of (Request demo_request)) (replicate MAX_LINE NUL) =
        Inr ((), l) \<and> length l = MAX_LINE \<and>
      make_task (\<lambda>_. True) l = Inr \<lparr>function_of = Some H_create, request_of = Request demo_request\<rparr> \<and>
      takes H_create (Request demo_request)"
    by (rule requests_reach_handlers [OF demo_request_ok]) (simp_all add: handler_codes_def demo_request_def)
  then show ?thesis by (auto simp: demo_request_def)
qed

end
