(* ===== verification/Broker_Wakeup.thy ===== *)
theory Broker_Wakeup
  imports Broker_Delivery
begin

text \<open>
  The condition variable of a box, on which its subscribers sleep: one subscriber and one publisher
  of the same box, interleaved inside their loops.  The subscriber holds the lock of the box from
  its \<open>tfs_read\<close> to the \<open>my_cond_wait\<close> (lines 75 to 83 of \<open>mbroker.c\<close>), but the publisher takes no
  lock around its \<open>tfs_write\<close> and its broadcast (lines 183 to 193).
\<close>

text \<open>Where the subscriber is; \<open>Got\<close>: it has read something and leaves the loop.\<close>

datatype sub_pc =
    Locked
  | Seen_empty
  | Asleep
  | Woken
  | Got "int \<times> char list"

record box_use =
  use_broker :: broker
  use_sub :: sub_pc

inductive sub_step :: "int \<Rightarrow> box_use \<Rightarrow> box_use \<Rightarrow> bool" for fd_tfs where
  reads: "use_sub s = Locked \<Longrightarrow>
    in_tfs (tfs_read fd_tfs 1024) (use_broker s) = Inr (r, b) \<Longrightarrow>
    sub_step fd_tfs s (s\<lparr>use_broker := b, use_sub := if fst r = 0 then Seen_empty else Got r\<rparr>)"
| sleeps: "use_sub s = Seen_empty \<Longrightarrow> sub_step fd_tfs s (s\<lparr>use_sub := Asleep\<rparr>)"
| relocks: "use_sub s = Woken \<Longrightarrow> sub_step fd_tfs s (s\<lparr>use_sub := Locked\<rparr>)"

text \<open>One message: an iteration of \<open>process_pub\<close>; the broadcast wakes whoever sleeps.\<close>

inductive pub_step :: "env \<Rightarrow> char list \<Rightarrow> nat \<Rightarrow> int \<Rightarrow> box_use \<Rightarrow> box_use \<Rightarrow> bool"
    for env pipe index fd_tfs where
  publishes: "pub_loop env pipe index fd_tfs [bytes] (use_broker s) = Inr (True, b) \<Longrightarrow>
    pub_step env pipe index fd_tfs s
      (s\<lparr>use_broker := b, use_sub := if use_sub s = Asleep then Woken else use_sub s\<rparr>)"

inductive_simps sub_step_iff: "sub_step fd_tfs s t"

definition box_step :: "env \<Rightarrow> char list \<Rightarrow> nat \<Rightarrow> int \<Rightarrow> int \<Rightarrow> box_use \<Rightarrow> box_use \<Rightarrow> bool" where
  "box_step env pipe index fd_pub fd_sub s t \<longleftrightarrow>
     sub_step fd_sub s t \<or> pub_step env pipe index fd_pub s t"

text \<open>The publisher of the thread \<open>j\<close> with the handle \<open>hp\<close>, in the middle of its session.\<close>

definition publishing :: "env \<Rightarrow> nat \<Rightarrow> nat \<Rightarrow> nat \<Rightarrow> nat \<Rightarrow> string \<Rightarrow> broker \<Rightarrow> bool" where
  "publishing env j hp i fi m s \<longleftrightarrow> appends (tfs s) hp fi \<and> i < length (server_boxes s) \<and>
     j < length (thread_pool s) \<and> thread_pool s ! j = int i \<and> \<not> ending s \<and>
     grants env = (\<lambda>_. True) \<and> env_ok env \<and>
     length (contents (tfs s) fi) + length (stored [m]) \<le> BLOCK_SIZE (tfs s) \<and>
     (contents (tfs s) fi \<noteq> [] \<or> FREE \<in> set (free_blocks (tfs s))) \<and>
     0 \<le> box_size (server_boxes s ! i) \<and> box_size (server_boxes s ! i) + int (length m) < 2147483648"

lemma publishes_one:
  assumes p: "publishing env j hp i fi m s" and l: "carries l m"
  shows "\<exists>b. pub_loop env pipe j (int hp) [l] s = Inr (True, b) \<and> only_file fi hp (tfs s) (tfs b) \<and>
    contents (tfs b) fi = contents (tfs s) fi @ m @ [NUL]"
proof -
  have "list_all2 carries [l] [m]" using l by simp
  from pub_loop_exec [OF this, of s hp fi i j env pipe] p obtain g where
    g: "pub_loop env pipe j (int hp) [l] s = Inr (True, sized i [m] g s)" "only_file fi hp (tfs s) g"
      "contents g fi = contents (tfs s) fi @ stored [m]"
    by (auto simp: publishing_def text_size_def)
  then show ?thesis by (intro exI [of _ "sized i [m] g s"]) (simp add: sized_def)
qed

text \<open>C36: A message can be lost for a sleeping subscriber: the publisher does not take the lock of the
  box, so it can write and broadcast between the moment a subscriber sees that there is nothing to
  read and the moment it sleeps.  The subscriber then sleeps with an unread message in the file of
  its box, and cannot move until somebody publishes again.  (Spurious wake-ups, which POSIX allows, are not steps.)\<close>

theorem broadcast_can_be_missed:
  assumes p: "publishing env j hp i fi m s" "carries l m"
    and h: "reads_file (tfs s) h fi c (length c)" "h \<noteq> hp"
  shows "\<exists>u. (box_step env pipe j (int hp) (int h))\<^sup>*\<^sup>* \<lparr>use_broker = s, use_sub = Locked\<rparr>
      \<lparr>use_broker = u, use_sub = Asleep\<rparr> \<and>
    contents (tfs u) fi = c @ m @ [NUL] \<and> offset_of (tfs u) h = length c \<and>
    (\<nexists>v. sub_step (int h) \<lparr>use_broker = u, use_sub = Asleep\<rparr> v)"
proof -
  let ?step = "box_step env pipe j (int hp) (int h)"
  let ?s = "\<lambda>b w. \<lparr>use_broker = b, use_sub = w\<rparr>"
  from publishes_one [OF p, of pipe] obtain b where
    b: "pub_loop env pipe j (int hp) [l] s = Inr (True, b)" "only_file fi hp (tfs s) (tfs b)"
      "contents (tfs b) fi = contents (tfs s) fi @ m @ [NUL]" by blast
  have "in_tfs (tfs_read (int h) 1024) s = Inr ((0, []), s)"
    using read_behind [OF h(1)] by (simp add: in_tfs_def)
  then have "sub_step (int h) (?s s Locked) (?s s Seen_empty)"
    using sub_step.reads [of "?s s Locked" "int h" "(0, [])" s] by simp
  then have s1: "?step (?s s Locked) (?s s Seen_empty)" by (simp add: box_step_def)
  have "pub_step env pipe j (int hp) (?s s Seen_empty) (?s b Seen_empty)"
    using pub_step.publishes [of env pipe j "int hp" l "?s s Seen_empty" b] b(1) by simp
  then have s2: "?step (?s s Seen_empty) (?s b Seen_empty)" by (simp add: box_step_def)
  have "sub_step (int h) (?s b Seen_empty) (?s b Asleep)"
    using sub_step.sleeps [of "?s b Seen_empty" "int h"] by simp
  then have s3: "?step (?s b Seen_empty) (?s b Asleep)" by (simp add: box_step_def)
  have "?step\<^sup>*\<^sup>* (?s s Locked) (?s b Asleep)"
    using s1 s2 s3 by (meson converse_rtranclp_into_rtranclp rtranclp.rtrancl_refl)
  moreover have "offset_of (tfs b) h = length c"
    using same_handlesD(2) [of hp "tfs s" "tfs b" h] b(2) h reads_fileD(7) [OF h(1)]
    by (simp add: only_file_def)
  moreover have "contents (tfs b) fi = c @ m @ [NUL]" using b(3) reads_fileD(6) [OF h(1)] by simp
  moreover have "\<nexists>v. sub_step (int h) (?s b Asleep) v" by (simp add: sub_step_iff)
  ultimately show ?thesis by blast
qed

text \<open>The subscriber with the handle 0 of \<open>demo2\<close>, and a publisher with a second one.\<close>

definition demo_busy :: broker where
  "demo_busy = (demo_broker (snd (opened demo2 1 2)))\<lparr>thread_pool := [0, 0]\<rparr>"

lemma demo_busy_facts:
  "publishing demo_env 0 1 0 1 ''x'' demo_busy" "reads_file (tfs demo_busy) 0 1 ''hi'' (length ''hi'')"
proof -
  let ?f = "snd (opened demo2 1 2)"
  have u: "used_inode demo2 (int 1)" by (simp add: used_inode_def demo2_fields demo_params_def)
  have inv: "fs_inv ?f" "idle ?f" using inv_opened [OF demo2_inv(1) u] demo2_inv(2) by simp_all
  have c: "contents ?f (Suc 0) = ''hi''" using demo2_contents by simp
  have sz: "i_size (inode_table demo2 ! Suc 0) = 2" by (simp add: demo2_fields)
  have h: "is_open ?f (int (Suc 0))" "file_of ?f (Suc 0) = Suc 0" "offset_of ?f (Suc 0) = 2"
    "is_open ?f (int 0)" "file_of ?f 0 = Suc 0" "offset_of ?f 0 = 2"
    by (simp_all add: opened_def first_free_def is_open_def valid_file_handle_def file_of_def offset_of_def
      demo2_fields demo_params_def)
  have t: "freeinode_ts ?f ! Suc 0 = TAKEN" "BLOCK_SIZE ?f = 88" by (simp_all add: demo2_fields demo_params_def)
  show "publishing demo_env 0 1 0 1 ''x'' demo_busy"
    using inv h c t sz by (simp add: publishing_def demo_busy_def appends_def)
  have bl: "blank_after ?f (Suc 0)" using demo2_blank blank_after_cong [of ?f demo2 "Suc 0"] by simp
  have "broker_inv (demo_broker ?f)" by (rule demo_broker_inv [OF inv])
  from reads_fileI [OF this, of 0 "Suc 0"] h c t sz bl u
  show "reads_file (tfs demo_busy) 0 1 ''hi'' (length ''hi'')"
    by (simp add: demo_busy_def used_inode_def numeral_2_eq_2)
qed

theorem broadcast_can_be_missed_witness:
  "\<exists>u. (box_step demo_env [] 0 (int 1) (int 0))\<^sup>*\<^sup>* \<lparr>use_broker = demo_busy, use_sub = Locked\<rparr>
      \<lparr>use_broker = u, use_sub = Asleep\<rparr> \<and>
    contents (tfs u) 1 = ''hi'' @ ''x'' @ [NUL] \<and> offset_of (tfs u) 0 = length ''hi'' \<and>
    (\<nexists>v. sub_step (int 0) \<lparr>use_broker = u, use_sub = Asleep\<rparr> v)"
proof -
  have "carries (message_line ''x'') ''x''" using demo_message(1) by simp
  from broadcast_can_be_missed [OF demo_busy_facts(1) this demo_busy_facts(2)] show ?thesis by simp
qed

end
