(* ===== verification/Clients.thy ===== *)
theory Clients
  imports Broker
begin

text \<open>
  The clients of the broker: \<open>manager/manager.c\<close>, \<open>publisher/pub.c\<close> and \<open>subscriber/sub.c\<close>.  The
  state of a client is the log of what it asked of the operating system; what it reads (the answers
  on its pipe, the text on its standard input) is an argument.  An argument of the command line is
  a string; \<open>argv\<close> holds all of them, so that \<open>argc\<close> is its length.
\<close>

section \<open>The system\<close>

datatype client_io =
    Make_fifo string
  | Remove_fifo string
  | Open_fifo string
  | Close_fifo string
  | Write_fifo string "char list"
  | Print string
  | Complain string

type_synonym 'a clop = "(client_io list, 'a) oper"

text \<open>
  \<open>works e\<close>: the call succeeds; \<open>pub_write k\<close>: the answer to the \<open>k\<close>-th message a publisher
  writes; \<open>memory n\<close>: the heap has \<open>n\<close> bytes; the other components are uninitialised memory.
\<close>

record client_env =
  works :: "client_io \<Rightarrow> bool"
  pub_write :: "nat \<Rightarrow> write_result"
  memory :: "nat \<Rightarrow> bool"
  raw_request :: request
  raw_password :: "char list"
  raw_message :: "char list"
  raw_buffer :: "char list"

definition perform :: "client_env \<Rightarrow> client_io \<Rightarrow> unit clop" where
  "perform env e = (if works env e then modify (\<lambda>es. es @ [e]) else fail ExitFailure)"

definition my_mkfifo :: "client_env \<Rightarrow> string \<Rightarrow> unit clop" where
  "my_mkfifo env p = perform env (Make_fifo p)"

definition my_unlink :: "client_env \<Rightarrow> string \<Rightarrow> unit clop" where
  "my_unlink env p = perform env (Remove_fifo p)"

definition my_write :: "client_env \<Rightarrow> string \<Rightarrow> char list \<Rightarrow> unit clop" where
  "my_write env p l = perform env (Write_fifo p l)"

definition open_fifo :: "client_env \<Rightarrow> string \<Rightarrow> unit clop" where
  "open_fifo env p = perform env (Open_fifo p)"

definition close_fifo :: "client_env \<Rightarrow> string \<Rightarrow> unit clop" where
  "close_fifo env p = perform env (Close_fifo p)"

text \<open>Standard output and standard error.\<close>

definition print :: "string \<Rightarrow> unit clop" where
  "print v = modify (\<lambda>es. es @ [Print v])"

definition complain :: "string \<Rightarrow> unit clop" where
  "complain v = modify (\<lambda>es. es @ [Complain v])"

definition line_of :: "client_env \<Rightarrow> object \<Rightarrow> 8 word \<Rightarrow> char list clop" where
  "line_of env m c =
     lift (case writer_stc m c (raw_buffer env) of Inl e \<Rightarrow> Inl e | Inr (_, l) \<Rightarrow> Inr l)"

section \<open>Requests\<close>

definition arg :: "string list \<Rightarrow> nat \<Rightarrow> char list clop" where
  "arg argv i = call (lift (array_get argv (int i))) (\<lambda>v. ret (v @ [NUL]))"

text \<open>\<open>strcat(dst, src)\<close> into an array.\<close>

definition strcat_to :: "char list \<Rightarrow> char list \<Rightarrow> char list res" where
  "strcat_to dst src =
     (case c_strlen dst of
        Inl e \<Rightarrow> Inl e
      | Inr n \<Rightarrow> (case strcpy_to (drop n dst) src of Inl e \<Rightarrow> Inl e | Inr t \<Rightarrow> Inr (take n dst @ t)))"

text \<open>The name of the box with a slash in front, in an array of \<open>MAX_BOX_NAME\<close> bytes.\<close>

definition box_name_slash :: "char list \<Rightarrow> char list res" where
  "box_name_slash a =
     (case strcpy_to (replicate MAX_BOX_NAME NUL) (''/'' @ [NUL]) of
        Inl e \<Rightarrow> Inl e
      | Inr s \<Rightarrow> strcat_to s a)"

text \<open>The pipe is \<open>argv[2]\<close>, the box \<open>argv[b]\<close>.\<close>

definition fill_names :: "request \<Rightarrow> string list \<Rightarrow> nat \<Rightarrow> request clop" where
  "fill_names r argv b =
     call (arg argv 2) (\<lambda>p.
     call (lift (strcpy_to (req_pipe_name r) p)) (\<lambda>pipe.
     call (arg argv b) (\<lambda>v.
     call (lift (box_name_slash v)) (\<lambda>slash.
     call (lift (strcpy_to (req_box_name r) slash)) (\<lambda>nm.
     ret (r\<lparr>req_pipe_name := pipe, req_box_name := nm\<rparr>))))))"

definition set_password :: "request \<Rightarrow> char list \<Rightarrow> request clop" where
  "set_password r pw =
     call (lift (strcpy_to (req_box_password r) pw)) (\<lambda>a. ret (r\<lparr>req_box_password := a\<rparr>))"

text \<open>Lines 24 to 38 of \<open>pub.c\<close>, and lines 34 to 48 of \<open>sub.c\<close> with the code 2.\<close>

definition stream_request :: "8 word \<Rightarrow> client_env \<Rightarrow> string list \<Rightarrow> request clop" where
  "stream_request c env argv =
     call (fill_names ((raw_request env)\<lparr>req_code := c\<rparr>) argv 3) (\<lambda>r.
     if length argv = 4 then set_password r (replicate MAX_PASSWORD NUL)
     else call (arg argv (length argv - 1)) (\<lambda>pw. set_password r pw))"

section \<open>The publisher\<close>

text \<open>\<open>fgets\<close> with room for \<open>n\<close> bytes and a terminator: up to the end of the line.\<close>

fun fgets_bytes :: "nat \<Rightarrow> string \<Rightarrow> string \<times> string" where
  "fgets_bytes 0 input = ([], input)"
| "fgets_bytes (Suc n) [] = ([], [])"
| "fgets_bytes (Suc n) (c # input) =
     (if c = CHR 0x0A then ([c], input)
      else (c # fst (fgets_bytes n input), snd (fgets_bytes n input)))"

text \<open>Lines 58 to 60: the newline before the terminator is overwritten.\<close>

definition cut_newline :: "char list \<Rightarrow> char list res" where
  "cut_newline message =
     (case c_strlen message of
        Inl e \<Rightarrow> Inl e
      | Inr n \<Rightarrow>
          (case array_get message (int n - 1) of
             Inl e \<Rightarrow> Inl e
           | Inr c \<Rightarrow> Inr (if c = CHR 0x0A then message[n - 1 := NUL] else message)))"

lemma fgets_bytes_rest: "length (snd (fgets_bytes n input)) \<le> length input"
  by (induction n input rule: fgets_bytes.induct) auto

function publish_text :: "client_env \<Rightarrow> string \<Rightarrow> nat \<Rightarrow> string \<Rightarrow> int clop" where
  "publish_text env pipe k [] = block [close_fifo env pipe, my_unlink env pipe] (ret 0)"
| "publish_text env pipe k (c # input) =
     (let (got, rest) = fgets_bytes 1023 (c # input) in
      call (lift (cut_newline (got @ NUL # drop (Suc (length got)) (raw_message env)))) (\<lambda>message.
      call (lift (strcpy_to (raw_message env) message)) (\<lambda>m.
      call (line_of env (Message \<lparr>msg_code = 9, msg_message = m\<rparr>) 9) (\<lambda>l.
      case pub_write env k of
        Wrote n \<Rightarrow>
          block [modify (\<lambda>es. es @ [Write_fifo pipe (take n l)])] (publish_text env pipe (Suc k) rest)
      | Broken_pipe \<Rightarrow> block [close_fifo env pipe, my_unlink env pipe] (ret (- 1))
      | Write_error \<Rightarrow> publish_text env pipe (Suc k) rest))))"
  by pat_completeness auto
termination
proof (relation "measure (\<lambda>(env, pipe, k, input). length input)", goal_cases)
  case (2 env pipe k c input x got rest)
  then have "rest = snd (fgets_bytes 1023 (c # input))" by (metis snd_conv)
  also have "length \<dots> \<le> length input"
    using fgets_bytes_rest [of 1022 input] by (simp add: numeral_eq_Suc)
  finally show ?case by simp
next
  case (3 env pipe k c input x got rest)
  then have "rest = snd (fgets_bytes 1023 (c # input))" by (metis snd_conv)
  also have "length \<dots> \<le> length input"
    using fgets_bytes_rest [of 1022 input] by (simp add: numeral_eq_Suc)
  finally show ?case by simp
qed simp

text \<open>\<open>main\<close> of \<open>pub.c\<close>; with a wrong number of arguments it prints its usage and goes on.\<close>

definition pub_main :: "client_env \<Rightarrow> string list \<Rightarrow> string \<Rightarrow> int clop" where
  "pub_main env argv input =
     block [if length argv \<noteq> 4 \<and> length argv \<noteq> 5
            then complain (''usage: pub <register_pipe_name> <box_name>'' @ [CHR 0x0A]) else ret ()] (
     call (stream_request 1 env argv) (\<lambda>r.
     call (line_of env (Request r) (req_code r)) (\<lambda>l.
     call (lift (array_get argv 1)) (\<lambda>register_pipe.
     call (lift (array_get argv 2)) (\<lambda>pipe.
     block
       [my_mkfifo env pipe, open_fifo env register_pipe, my_write env register_pipe l,
        close_fifo env register_pipe, open_fifo env pipe]
       (publish_text env pipe 0 input))))))"

section \<open>The subscriber\<close>

text \<open>One iteration per non-empty \<open>read\<close>; the list ends where the pipe is closed.\<close>

fun print_messages :: "client_env \<Rightarrow> char list list \<Rightarrow> unit clop" where
  "print_messages env [] = ret ()"
| "print_messages env (bytes # rest) =
     call (lift (case reader_stc (memory env) (bytes @ replicate (MAX_LINE - length bytes) NUL) of
                   Inl e \<Rightarrow> Inl e
                 | Inr (Message m, _) \<Rightarrow> c_arg (msg_message m)
                 | Inr _ \<Rightarrow> Inl Indeterminate)) (\<lambda>v.
     block [print (v @ [CHR 0x0A])] (print_messages env rest))"

definition sub_main :: "client_env \<Rightarrow> string list \<Rightarrow> char list list \<Rightarrow> int clop" where
  "sub_main env argv inputs =
     block [if length argv \<noteq> 4 \<and> length argv \<noteq> 5
            then complain (''usage: sub <register_pipe_name> <box_name>'' @ [CHR 0x0A]) else ret ()] (
     call (stream_request 2 env argv) (\<lambda>r.
     call (line_of env (Request r) (req_code r)) (\<lambda>l.
     call (lift (array_get argv 1)) (\<lambda>register_pipe.
     call (lift (array_get argv 2)) (\<lambda>pipe_name.
     block
       [open_fifo env register_pipe, my_write env register_pipe l, close_fifo env register_pipe,
        my_mkfifo env pipe_name, open_fifo env pipe_name, print_messages env inputs,
        close_fifo env pipe_name, my_unlink env pipe_name]
       (ret (- 1)))))))"

section \<open>The manager\<close>

definition manager_request :: "client_env \<Rightarrow> object \<Rightarrow> 8 word \<Rightarrow> string \<Rightarrow> unit clop" where
  "manager_request env m code_pipe register_pipe =
     call (line_of env m code_pipe) (\<lambda>l.
     block [open_fifo env register_pipe, my_write env register_pipe l, close_fifo env register_pipe]
       (ret ()))"

text \<open>\<open>answer\<close> is what the \<open>read\<close> from the client's pipe stores.\<close>

definition manager_create_remove ::
    "client_env \<Rightarrow> object \<Rightarrow> string \<Rightarrow> string \<Rightarrow> 8 word \<Rightarrow> char list \<Rightarrow> unit clop" where
  "manager_create_remove env newrequest pipe register_pipe code_pipe answer =
     call (if code_pipe \<noteq> 13 then
             (case newrequest of
                Request r \<Rightarrow> manager_request env newrequest (req_code r) register_pipe
              | _ \<Rightarrow> fail Indeterminate)
           else
             (case newrequest of
                New_password q \<Rightarrow> manager_request env newrequest (req_code (np_request_lock q)) register_pipe
              | _ \<Rightarrow> fail Indeterminate)) (\<lambda>_.
     block [my_mkfifo env pipe, open_fifo env pipe] (
     call (lift (case reader_stc (memory env) (answer @ drop (length answer) (raw_buffer env)) of
                   Inl e \<Rightarrow> Inl e
                 | Inr (Response r, _) \<Rightarrow> Inr r
                 | Inr _ \<Rightarrow> Inl Indeterminate)) (\<lambda>r.
     block
       [if resp_return_code r = - 1
        then call (lift (c_arg (resp_error_message r))) (\<lambda>v. print (''ERROR '' @ v @ [CHR 0x0A]))
        else print (''OK'' @ [CHR 0x0A]),
        close_fifo env pipe,
        my_unlink env pipe]
       (ret ()))))"

text \<open>\<open>strcmp\<close>: bytes are compared as unsigned.\<close>

fun strcmp_sign :: "string \<Rightarrow> string \<Rightarrow> int" where
  "strcmp_sign [] [] = 0"
| "strcmp_sign [] (d # ds) = - 1"
| "strcmp_sign (c # cs) [] = 1"
| "strcmp_sign (c # cs) (d # ds) =
     (if c = d then strcmp_sign cs ds else if (of_char c :: nat) < of_char d then - 1 else 1)"

definition compare_func :: "list_manager_response \<Rightarrow> list_manager_response \<Rightarrow> int" where
  "compare_func a b = strcmp_sign (c_string (lr_box_name a)) (c_string (lr_box_name b))"

text \<open>\<open>qsort\<close> of the standard library; elements that compare equal keep their order here.\<close>

fun insert_by :: "('a \<Rightarrow> 'a \<Rightarrow> int) \<Rightarrow> 'a \<Rightarrow> 'a list \<Rightarrow> 'a list" where
  "insert_by cmp x [] = [x]"
| "insert_by cmp x (y # ys) = (if cmp x y \<le> 0 then x # y # ys else y # insert_by cmp x ys)"

fun qsort :: "('a \<Rightarrow> 'a \<Rightarrow> int) \<Rightarrow> 'a list \<Rightarrow> 'a list" where
  "qsort cmp [] = []"
| "qsort cmp (x # xs) = insert_by cmp x (qsort cmp xs)"

text \<open>
  The loop of lines 73 to 102: the entries up to the one that is marked as the last.  At the end of
  the pipe \<open>read\<close> returns 0 for ever, and the loop never ends.
\<close>

fun receive_entries :: "client_env \<Rightarrow> nat \<Rightarrow> nat \<Rightarrow> char list list \<Rightarrow> list_manager_response list res" where
  "receive_entries env slots counter [] = Inl Diverges"
| "receive_entries env slots counter (bytes # rest) =
     (case reader_stc (memory env) (bytes @ replicate (MAX_LINE - length bytes) NUL) of
        Inl e \<Rightarrow> Inl e
      | Inr (List_response r, _) \<Rightarrow>
          if lr_last r = 1 then Inr [r]
          else if Suc counter = slots then
            if memory env (size_mul (size_mul slots 2) 8) then
              (case receive_entries env (size_mul slots 2) (Suc counter) rest of
                 Inl e \<Rightarrow> Inl e | Inr rs \<Rightarrow> Inr (r # rs))
            else Inl ExitFailure
          else
            (case receive_entries env slots (Suc counter) rest of
               Inl e \<Rightarrow> Inl e | Inr rs \<Rightarrow> Inr (r # rs))
      | Inr _ \<Rightarrow> Inl Indeterminate)"

fun decimal :: "nat \<Rightarrow> string" where
  "decimal n = (if n < 10 then [char_of (48 + n)] else decimal (n div 10) @ [char_of (48 + n mod 10)])"

declare decimal.simps [simp del]

definition entry_text :: "list_manager_response \<Rightarrow> string" where
  "entry_text r = c_string (lr_box_name r) @ '' '' @ decimal (unat (lr_box_size r)) @ '' '' @
     decimal (unat (lr_n_pubs r)) @ '' '' @ decimal (unat (lr_n_subs r)) @ '' '' @
     c_string (lr_box_password r) @ [CHR 0x0A]"

text \<open>The strings of an entry end inside their arrays.\<close>

definition entry_printable :: "list_manager_response \<Rightarrow> bool" where
  "entry_printable r \<longleftrightarrow> NUL \<in> set (lr_box_name r) \<and> NUL \<in> set (lr_box_password r)"

fun print_entries :: "list_manager_response list \<Rightarrow> unit clop" where
  "print_entries [] = ret ()"
| "print_entries (r # rs) =
     (if entry_printable r then block [print (entry_text r)] (print_entries rs) else fail OutOfBounds)"

definition manager_list ::
    "client_env \<Rightarrow> list_manager_request \<Rightarrow> string \<Rightarrow> string \<Rightarrow> char list list \<Rightarrow> unit clop" where
  "manager_list env newrequest pipe register_pipe inputs =
     block
       [manager_request env (List_request newrequest) (lq_code newrequest) register_pipe,
        my_mkfifo env pipe,
        if memory env (size_mul 100 8) then ret () else fail ExitFailure,
        open_fifo env pipe] (
     call (lift (receive_entries env 100 0 inputs)) (\<lambda>entries.
     if hd (lr_box_name (last entries)) = NUL then
       block [print (''NO BOXES FOUND'' @ [CHR 0x0A]), close_fifo env pipe, my_unlink env pipe] (ret ())
     else
       block
         [close_fifo env pipe, print_entries (qsort compare_func entries), my_unlink env pipe]
         (ret ())))"

text \<open>\<open>main\<close> of \<open>manager.c\<close>: lines 119 to 155, then 156 to 164.\<close>

definition box_command :: "client_env \<Rightarrow> string list \<Rightarrow> char list \<Rightarrow> int clop" where
  "box_command env argv answer =
     call (fill_names (raw_request env) argv 4) (\<lambda>r0.
     call (if length argv = 5 then set_password r0 (replicate MAX_PASSWORD NUL)
           else call (arg argv 5) (\<lambda>pw.
             set_password (r0\<lparr>req_box_password := replicate MAX_PASSWORD NUL\<rparr>) pw)) (\<lambda>r.
     call (lift (array_get argv 1)) (\<lambda>register_pipe.
     call (lift (array_get argv 2)) (\<lambda>pipe.
     let command = argv ! 3;
       send = (\<lambda>m c. block [manager_create_remove env m pipe register_pipe c answer] (ret 0)) in
     if command = ''create'' then send (Request (r\<lparr>req_code := 3\<rparr>)) 3
     else if command = ''remove'' then send (Request (r\<lparr>req_code := 5\<rparr>)) 5
     else if command = ''unlock'' then send (Request (r\<lparr>req_code := 11\<rparr>)) 11
     else if command = ''lock'' then
       if length argv = 6 then
         call (lift (strcpy_to (raw_password env) (req_box_password r))) (\<lambda>new.
         send (New_password \<lparr>np_request_lock =
           r\<lparr>req_code := 13, req_box_password := replicate MAX_PASSWORD NUL\<rparr>, np_new_password = new\<rparr>) 13)
       else
         call (arg argv 6) (\<lambda>v. call (lift (strcpy_to (raw_password env) v)) (\<lambda>new.
         send (New_password \<lparr>np_request_lock = r\<lparr>req_code := 13\<rparr>, np_new_password = new\<rparr>) 13))
     else send (Request r) (req_code r)))))"

definition usage_text :: string where
  "usage_text = ''usage: '' @ [CHR 0x0A] @
     ''   manager <register_pipe_name> create <box_name>'' @ [CHR 0x0A] @
     ''   manager <register_pipe_name> remove <box_name>'' @ [CHR 0x0A] @
     ''   manager <register_pipe_name> list'' @ [CHR 0x0A]"

definition manager_main :: "client_env \<Rightarrow> string list \<Rightarrow> char list list \<Rightarrow> int clop" where
  "manager_main env argv inputs =
     (if length argv \<in> {5, 6, 7} then box_command env argv (concat (take 1 inputs))
      else if length argv = 4 then
        call (arg argv 2) (\<lambda>p.
        call (lift (strcpy_to (req_pipe_name (raw_request env)) p)) (\<lambda>a.
        block [manager_list env \<lparr>lq_code = 7, lq_pipe_name = a\<rparr> (argv ! 2) (argv ! 1) inputs] (ret 0)))
      else block [complain usage_text] (ret 0))"

end
