(* ===== verification/Broker_Correct.thy ===== *)
theory Broker_Correct
  imports Broker_Demo
begin

text \<open>
  What the requests of the clients do to the boxes, to the file system and to the pipes of the
  clients, for a well-formed broker between two requests; each theorem is followed by its instance
  on the small broker.
\<close>

section \<open>Answers\<close>

text \<open>The client on \<open>pipe\<close> got exactly one line, which it reads as this answer.\<close>

definition answered :: "char list \<Rightarrow> 8 word \<Rightarrow> 32 word \<Rightarrow> string \<Rightarrow> broker \<Rightarrow> broker \<Rightarrow> bool" where
  "answered pipe c rc text s t \<longleftrightarrow>
     (\<exists>l. pipes t = pipes s @ [Opened (c_string pipe), Sent (c_string pipe) l, Closed (c_string pipe)] \<and>
        answer_line c rc text l)"

lemma replied_answered:
  assumes "well_formed (Response m)" and "NUL \<in> set (resp_error_message m)" and "pipes u = pipes s"
  shows "answered pipe (resp_code m) (resp_return_code m) (c_string (resp_error_message m)) s
    (replied pipe m u)"
  using answer_line_layout [OF assms(1,2)] assms(3)
  by (auto simp: answered_def replied_def simp del: layout.simps)

lemma served_answered:
  assumes "well_formed (Response m)" and "NUL \<in> set (resp_error_message m)" and "pipes u = pipes s"
  shows "answered pipe (resp_code m) (resp_return_code m) (c_string (resp_error_message m)) s
    (served pipe m f u)"
  unfolding served_def using assms(3) by (intro replied_answered [OF assms(1,2)]) simp

lemma pipes_indexed [simp]: "pipes (indexed j i s) = pipes s"
  by (simp add: indexed_def)

lemma served_error:
  assumes "env_ok env" and "c \<in> set response_codes" and "NUL \<notin> set msg" and "length msg < 1024"
    and "pipes u = pipes s"
  shows "answered pipe c (- 1) msg s (served pipe (error_response env c msg) f u)"
  using served_answered [OF error_response_ok [OF assms(1-4)] _ assms(5), of pipe f] assms(3) by simp

lemma served_ok:
  assumes "c \<in> set response_codes" and "pipes u = pipes s"
  shows "answered pipe c 0 [] s (served pipe (ok_response c) f u)"
  using served_answered [OF ok_response_ok [OF assms(1)] _ assms(2), of pipe f] by simp

section \<open>Starting\<close>

text \<open>The broker when \<open>main\<close> reaches its loop.\<close>

definition broker_at_start :: "heap \<Rightarrow> env \<Rightarrow> (nat \<Rightarrow> int) \<Rightarrow> nat \<Rightarrow> broker \<Rightarrow> broker" where
  "broker_at_start h env raw_index n s =
     s\<lparr>tfs := init_state h tfs_default_params boot,
       server_boxes := map (\<lambda>i. (raw_box env i)\<lparr>box_free := 0, box_lock := False\<rparr>) [0 ..< n], size_boxes := n,
       thread_pool := map (\<lambda>i. if i = 0 then - 1 else raw_index i) [0 ..< n], box_size_lock := False\<rparr>"

lemma start_broker_exec:
  assumes h: "all_granted h" "blank_names h tfs_default_params" and g: "grants env = (\<lambda>_. True)"
    and n: "0 < n" "n < 1073741824" and s: "tfs s = boot"
  shows "start_broker h env raw_index n s = Inr ((), broker_at_start h env raw_index n s)"
proof -
  have "tfs_init h (Some tfs_default_params) boot = Inr (0, init_state h tfs_default_params boot)"
    using h by (intro tfs_init_exec) (simp_all add: tfs_default_params_def wf_params_def)
  then have "tfs_init h None boot = Inr (0, init_state h tfs_default_params boot)" by (simp add: tfs_init_def)
  then show ?thesis
    using s g n by (simp add: start_broker_def broker_at_start_def call_def in_tfs_def modify_def)
qed

lemma broker_at_start_inv:
  assumes "all_granted h" "blank_names h tfs_default_params" and raw: "\<And>i. box_ok (raw_box env i)" and n: "0 < n" "n < 1073741824"
  shows "broker_inv (broker_at_start h env raw_index n s)"
proof -
  have "fs_inv (init_state h tfs_default_params boot)"
    using assms(1,2) by (intro init_inv) (simp_all add: tfs_default_params_def wf_params_def)
  then show ?thesis using raw n by (auto simp: broker_at_start_def broker_inv_def box_ok_def)
qed

text \<open>\<open>main\<close> starts with a well-formed broker over an empty file system with the default
  parameters: as many boxes as its argument says, all unused, and threads of which only the first
  has the index -1 of a thread that served nothing (the others keep whatever their memory held).
  It needs the memory it asks for, names in it that are strings, and an argument whose table is
  addressable by \<open>int\<close>.\<close>

theorem start_broker_well_formed:
  assumes h: "all_granted h" "blank_names h tfs_default_params" and g: "grants env = (\<lambda>_. True)"
    and raw: "\<And>i. box_ok (raw_box env i)" and n: "0 < n" "n < 1073741824" and s: "tfs s = boot"
  shows "\<exists>t. start_broker h env raw_index n s = Inr ((), t) \<and> broker_inv t \<and> size_boxes t = n \<and>
    (\<forall>b \<in> set (server_boxes t). box_free b = 0) \<and> names (tfs t) = Map.empty \<and>
    length (thread_pool t) = n \<and> thread_pool t ! 0 = - 1 \<and>
    (\<forall>j. 0 < j \<longrightarrow> j < n \<longrightarrow> thread_pool t ! j = raw_index j)"
proof -
  have "dir_find (replicate n ([], - 1)) v = - 1" for n :: nat and v by (induction n) simp_all
  moreover have "0 < max_inode_count tfs_default_params" by (simp add: tfs_default_params_def)
  ultimately have "names (init_state h tfs_default_params boot) = Map.empty"
    using root_dents_init [OF h(2)] by (simp add: names_def fun_eq_iff)
  then show ?thesis
    using start_broker_exec [OF h g n s] broker_at_start_inv [OF h raw n, of raw_index s] n
    by (intro exI [of _ "broker_at_start h env raw_index n s"]) (simp add: broker_at_start_def)
qed

theorem start_broker_well_formed_witness:
  "\<exists>t. start_broker demo_heap demo_env (\<lambda>_. 7) 3 (demo_broker boot) = Inr ((), t) \<and> broker_inv t \<and>
    size_boxes t = 3 \<and> names (tfs t) = Map.empty"
proof -
  have "\<exists>t. start_broker demo_heap demo_env (\<lambda>_. 7) 3 (demo_broker boot) = Inr ((), t) \<and> broker_inv t \<and>
      size_boxes t = 3 \<and> (\<forall>b \<in> set (server_boxes t). box_free b = 0) \<and> names (tfs t) = Map.empty \<and>
      length (thread_pool t) = 3 \<and> thread_pool t ! 0 = - 1 \<and>
      (\<forall>j. 0 < j \<longrightarrow> j < 3 \<longrightarrow> thread_pool t ! j = 7)"
    by (rule start_broker_well_formed [OF demo_params_ok(4)])
      (simp_all add: blank_names_def demo_heap_def)
  then show ?thesis by blast
qed

section \<open>Creating\<close>

lemma claimed_facts [simp]:
  "pipes (claimed k j r s) = pipes s" "size_boxes (claimed k j r s) = size_boxes s"
  "server_boxes (claimed k j r s) = (server_boxes s)[k := fill r (server_boxes s ! k)]"
  by (simp_all add: claimed_def)

lemma claimed_inv:
  assumes "broker_inv s" and "k < length (server_boxes s)" and "request_ok r"
  shows "broker_inv (claimed k j r s)"
  using assms broker_invD(3) [OF assms(1), of "server_boxes s ! k"]
  by (auto simp: claimed_def intro!: inv_box_set fill_ok)

lemma box_created:
  assumes inv: "broker_inv s" and r: "request_ok r" and e: "env_ok env" "pipe_ok env (req_pipe_name r)"
    and j: "j < length (thread_pool s)" and v: "v = c_string (req_box_name r)"
    and new: "position s v = None" "lookup (tfs s) (Some v) = - 1" and k: "unused s = Some k"
    and path: "path_entry (Some v) = Some w" "valid_name w"
    and room: "FREE \<in> set (freeinode_ts (tfs s))" "- 1 \<in> snd ` set (root_dents (tfs s))"
      "FREE \<in> set (free_open_file_entries (tfs s))"
  shows "\<exists>t i. process_manager_create env r j s = Inr ((), t) \<and> broker_inv t \<and>
    answered (req_pipe_name r) 4 0 [] s t \<and>
    length (server_boxes t) = length (server_boxes s) \<and>
    name_of (server_boxes t ! k) = v \<and> box_free (server_boxes t ! k) = 1 \<and>
    password_of (server_boxes t ! k) = c_string (req_box_password r) \<and>
    (\<forall>m. m \<noteq> k \<longrightarrow> server_boxes t ! m = server_boxes s ! m) \<and>
    names (tfs t) = (names (tfs s))(w \<mapsto> i) \<and> contents (tfs t) i = [] \<and>
    (\<forall>n. used_inode (tfs s) (int n) \<longrightarrow> contents (tfs t) n = contents (tfs s) n) \<and>
    free_blocks (tfs t) = free_blocks (tfs s) \<and> FREE \<in> set (free_open_file_entries (tfs t)) \<and>
    server_boxes t ! k = fill r (server_boxes s ! k) \<and> (\<forall>x. is_open (tfs t) (int x) = is_open (tfs s) (int x))"
proof -
  note fs = broker_invD(5,6) [OF inv] and ks = unused_Some [OF k]
  have "has_mode TFS_O_CREAT TFS_O_CREAT" by simp
  from open_create_run [OF fs c_ok_name path(1) [unfolded v] path(2) new(2) [unfolded v] this room]
  obtain h i f where
    f: "tfs_open (Some v) TFS_O_CREAT (tfs s) = Inr (int h, f)" "is_open f (int h)"
      "contents f i = []" "names f = (names (tfs s))(w \<mapsto> i)" "fs_inv f" "idle f"
      "\<forall>n. used_inode (tfs s) (int n) \<longrightarrow> contents f n = contents (tfs s) n" "free_blocks f = free_blocks (tfs s)"
      "\<not> is_open (tfs s) (int h)" "same_handles h (tfs s) f"
    unfolding v by blast
  from close_run [OF f(5,6,2)] obtain g where
    g: "tfs_close (int h) f = Inr (0, g)" "fs_inv g" "idle g" "names g = names f"
      "\<forall>n. contents g n = contents f n" "free_blocks g = free_blocks f"
      "FREE \<in> set (free_open_file_entries g)" "\<not> is_open g (int h)" "same_handles h f g" by blast
  have o: "is_open g (int x) = is_open (tfs s) (int x)" for x
    using f(9) g(8) same_handlesD(1) [OF f(10), of x] same_handlesD(1) [OF g(9), of x] by (cases "x = h") simp_all
  let ?t = "served (req_pipe_name r) (ok_response 4) g (claimed k j r s)"
  have "process_manager_create env r j s = Inr ((), ?t)"
    using create_slot_exec [OF inv r e j _ k _ g(1)] new(1) f(1) by (simp add: v created_def)
  moreover have "broker_inv ?t" using claimed_inv [OF inv ks(1) r] g(2,3) by (rule served_inv)
  moreover have "answered (req_pipe_name r) 4 0 [] s ?t"
    by (rule served_ok) (simp_all add: response_codes_def)
  ultimately show ?thesis
    using ks(1) f g o by (intro exI [of _ ?t] exI [of _ i]) (simp add: v)
qed

text \<open>C12: A request to create a box whose name is new takes an unused entry of the table for it, with
  that name and password, adds an empty file of that name to the file system, leaves every other
  box and the contents of every other file alone, and answers 0.  It needs a name that is a path,
  a free inode, an unused directory entry and a free slot of the open file table.\<close>

theorem create_new_box:
  assumes inv: "broker_inv s" and r: "request_ok r" and e: "env_ok env" "pipe_ok env (req_pipe_name r)"
    and j: "j < length (thread_pool s)" and v: "v = c_string (req_box_name r)"
    and new: "position s v = None" "lookup (tfs s) (Some v) = - 1" and k: "unused s = Some k"
    and path: "path_entry (Some v) = Some w" "valid_name w"
    and room: "FREE \<in> set (freeinode_ts (tfs s))" "- 1 \<in> snd ` set (root_dents (tfs s))"
      "FREE \<in> set (free_open_file_entries (tfs s))"
  shows "\<exists>t i. process_manager_create env r j s = Inr ((), t) \<and> broker_inv t \<and>
    answered (req_pipe_name r) 4 0 [] s t \<and>
    length (server_boxes t) = length (server_boxes s) \<and>
    name_of (server_boxes t ! k) = v \<and> box_free (server_boxes t ! k) = 1 \<and>
    password_of (server_boxes t ! k) = c_string (req_box_password r) \<and>
    (\<forall>m. m \<noteq> k \<longrightarrow> server_boxes t ! m = server_boxes s ! m) \<and>
    names (tfs t) = (names (tfs s))(w \<mapsto> i) \<and> contents (tfs t) i = [] \<and>
    (\<forall>n. used_inode (tfs s) (int n) \<longrightarrow> contents (tfs t) n = contents (tfs s) n)"
  using box_created [OF assms] by blast

theorem create_new_box_witness:
  "\<exists>t i. process_manager_create demo_env (demo_req 3 ''/b'' ''x'') 0 (demo_broker demo2) = Inr ((), t) \<and>
    broker_inv t \<and> answered (array_of 256 ''/tmp/p'') 4 0 [] (demo_broker demo2) t \<and>
    names (tfs t) = (names demo2)(''b'' \<mapsto> i)"
  using create_new_box [of "demo_broker demo2" "demo_req 3 ''/b'' ''x''" demo_env 0 "''/b''" 1 "''b''"]
    demo2_inv
  by (simp add: demo_broker_inv path_entry_def lookup_def demo2_dents demo2_fields) blast

text \<open>C33: When the file of a new box cannot be opened, the entry that was taken is given back: it is
  unused and without name and password, no box of the requested name is in the table, the rest of the
  table and the contents of all files are as before, and the answer is -1 with the error message.  The
  names of the file system are as before too, unless there was room for the file and only a handle was
  missing: then the empty file that \<open>tfs_open\<close> created stays, without a box.\<close>

theorem create_failure_leaves_no_box:
  assumes inv: "broker_inv s" and r: "request_ok r" and e: "env_ok env" "pipe_ok env (req_pipe_name r)"
    and j: "j < length (thread_pool s)" and v: "v = c_string (req_box_name r)" "v \<noteq> []"
    and new: "position s v = None" and k: "unused s = Some k"
    and fails: "tfs_open (Some v) TFS_O_CREAT (tfs s) = Inr (- 1, f)"
  shows "\<exists>t. process_manager_create env r j s = Inr ((), t) \<and> broker_inv t \<and>
    answered (req_pipe_name r) 4 (- 1) msg_create_failed s t \<and> position t v = None \<and>
    size_boxes t = size_boxes s \<and> k < size_boxes s \<and>
    server_boxes t = (server_boxes s)[k := (server_boxes s ! k)\<lparr>box_free := 0,
      box_name := replicate MAX_BOX_NAME NUL, box_password := replicate MAX_PASSWORD NUL\<rparr>] \<and>
    (if has_room (tfs s) (Some v)
     then FREE \<notin> set (free_open_file_entries (tfs s)) \<and> (\<exists>w i. path_entry (Some v) = Some w \<and>
       names (tfs t) = (names (tfs s))(w \<mapsto> i) \<and> contents (tfs t) i = [])
     else names (tfs t) = names (tfs s)) \<and>
    (\<forall>n. used_inode (tfs s) (int n) \<longrightarrow> contents (tfs t) n = contents (tfs s) n)"
proof -
  note fs = broker_invD(5,6) [OF inv] and ks = unused_Some [OF k]
  have "c_ok (Some v)" "lookup (tfs s) (Some v) \<noteq> - 1 \<longrightarrow>
      resolve (tfs s) (lookup (tfs s) (Some v)) \<noteq> None"
    using tfs_open_link_ends [OF fs, of "Some v" TFS_O_CREAT] fails v by auto
  then have "fs_inv f \<and> idle f" using tfs_open_inv [OF fs, of "Some v" TFS_O_CREAT] fails by auto
  then have f: "fs_inv f" "idle f" by simp_all
  have c: "tfs_close (- 1) f = Inr (- 1, f)"
    using tfs_close_exec [OF f, of "- 1"] by (simp add: is_open_def valid_file_handle_def)
  let ?u = "box_set k blank (claimed k j r s)"
  let ?t = "served (req_pipe_name r) (error_response env 4 msg_create_failed) f ?u"
  have ex: "process_manager_create env r j s = Inr ((), ?t)"
    using create_slot_exec [OF inv r e j _ k _ c] new fails by (simp add: v(1) created_def)
  have "broker_inv ?u"
    by (rule inv_box_set) (use claimed_inv [OF inv ks(1) r] ks(1) in simp_all)
  then have "broker_inv ?t" using f by (rule served_inv)
  moreover have "answered (req_pipe_name r) 4 (- 1) msg_create_failed s ?t"
    by (rule served_error [OF e(1)]) (simp_all add: response_codes_def)
  moreover have "position ?t v = None"
  proof -
    have "name_of b \<noteq> v" if "b \<in> set ((server_boxes s)[k := blank x])" for b x
    proof -
      from that have "b \<in> set (server_boxes s) \<or> b = blank x"
        using set_update_subset_insert [of "server_boxes s" k "blank x"] by auto
      then show ?thesis using new v(2) by (auto simp: position_None blank_def wipe_strings_def)
    qed
    with ks(1) show ?thesis by (simp add: position_None)
  qed
  moreover have "server_boxes ?t = (server_boxes s)[k := (server_boxes s ! k)\<lparr>box_free := 0,
      box_name := replicate MAX_BOX_NAME NUL, box_password := replicate MAX_PASSWORD NUL\<rparr>]"
    using ks(1) by (simp add: box_set_def claimed_def indexed_def fill_def blank_def wipe_strings_def)
  moreover have "size_boxes ?t = size_boxes s" "k < size_boxes s" "tfs ?t = f"
    using ks(1) broker_invD(1) [OF inv] by simp_all
  moreover note open_fails [OF fs \<open>c_ok (Some v)\<close> fails]
  ultimately show ?thesis using ex by (intro exI [of _ ?t]) presburger
qed

theorem create_failure_leaves_no_box_witness:
  "\<exists>t. process_manager_create demo_env (demo_req 3 ''b'' ''x'') 0 (demo_broker demo2) = Inr ((), t) \<and>
    answered (array_of 256 ''/tmp/p'') 4 (- 1) msg_create_failed (demo_broker demo2) t \<and>
    position t ''b'' = None \<and> names (tfs t) = names demo2"
proof -
  let ?s = "demo_broker demo2"
  have "position ?s ''b'' = None" by (simp add: position_None)
  moreover have "tfs_open (Some ''b'') TFS_O_CREAT demo2 = Inr (- 1, demo2)"
    by (rule tfs_open_invalid) (simp_all add: c_ok_def path_entry_def)
  moreover have "\<not> has_room demo2 (Some ''b'')" by (simp add: has_room_def path_entry_def)
  ultimately show ?thesis
    using create_failure_leaves_no_box [of ?s "demo_req 3 ''b'' ''x''" demo_env 0 "''b''" 1 demo2] demo2_inv
    by (simp add: demo_broker_inv) blast
qed

text \<open>C32: A request to create a box that exists already is answered with -1 and the error message, and
  changes nothing: the table, the indices of the threads and the file system are as before.\<close>

theorem create_existing_refused:
  assumes inv: "broker_inv s" and r: "request_ok r" and e: "env_ok env" "pipe_ok env (req_pipe_name r)"
    and found: "position s (c_string (req_box_name r)) \<noteq> None"
  shows "\<exists>t. process_manager_create env r j s = Inr ((), t) \<and> broker_inv t \<and>
    answered (req_pipe_name r) 4 (- 1) msg_create_failed s t \<and> server_boxes t = server_boxes s \<and>
    size_boxes t = size_boxes s \<and> thread_pool t = thread_pool s \<and> tfs t = tfs s"
proof -
  from found obtain i where i: "position s (c_string (req_box_name r)) = Some i" by blast
  let ?t = "served (req_pipe_name r) (error_response env 4 msg_create_failed) (tfs s) s"
  have "broker_inv ?t" using inv broker_invD(5,6) [OF inv] by (rule served_inv)
  moreover have "answered (req_pipe_name r) 4 (- 1) msg_create_failed s ?t"
    by (rule served_error [OF e(1)]) (simp_all add: response_codes_def)
  ultimately show ?thesis
    using create_existing_exec [OF inv r e i, of j] by (intro exI [of _ ?t]) simp
qed

theorem create_existing_refused_witness:
  "\<exists>t. process_manager_create demo_env (demo_req 3 ''/a'' ''x'') 0 (demo_broker demo2) = Inr ((), t) \<and>
    answered (array_of 256 ''/tmp/p'') 4 (- 1) msg_create_failed (demo_broker demo2) t \<and> tfs t = demo2"
  using create_existing_refused [of "demo_broker demo2" "demo_req 3 ''/a'' ''x''" demo_env 0] demo2_inv
  by (simp add: demo_broker_inv) blast

text \<open>When no entry is unused the table is doubled: every old box keeps its index and its
  contents, the new box takes the first new entry and the other new ones are unused.  (The names of
  new entries are uninitialised memory; as long as they are strings the table stays well-formed.)\<close>

theorem create_doubles_table:
  assumes inv: "broker_inv s" and r: "request_ok r" and e: "env_ok env" "pipe_ok env (req_pipe_name r)"
    and j: "j < length (thread_pool s)" and v: "v = c_string (req_box_name r)"
    and new: "position s v = None" and full: "unused s = None"
    and n: "n = size_boxes s" "0 < n" "n < 536870912" "grants env (288 * n)"
    and raw: "\<And>i. box_ok (raw_box env i)"
    and op: "tfs_open (Some v) TFS_O_CREAT (tfs s) = Inr (int h, f)" "fs_inv f" "idle f"
  shows "\<exists>t. process_manager_create env r j s = Inr ((), t) \<and> broker_inv t \<and>
    answered (req_pipe_name r) 4 0 [] s t \<and> size_boxes t = 2 * n \<and>
    (\<forall>m < n. server_boxes t ! m = server_boxes s ! m) \<and>
    name_of (server_boxes t ! n) = v \<and> box_free (server_boxes t ! n) = 1 \<and>
    password_of (server_boxes t ! n) = c_string (req_box_password r) \<and>
    (\<forall>m. n < m \<longrightarrow> m < 2 * n \<longrightarrow> box_free (server_boxes t ! m) = 0)"
proof -
  obtain c g where g: "tfs_close (int h) f = Inr (c, g)" "fs_inv g" "idle g"
    using tfs_close_exec [OF op(2,3), of "int h"] inv_close(1) [OF op(2)] op(2,3)
    by (cases "is_open f (int h)") (auto simp: idle_def)
  let ?g = "grown env s"
  have ig: "broker_inv ?g" using inv _ raw by (rule grown_inv) (use n in simp)
  have len: "length (server_boxes s) = n" using broker_invD(1) [OF inv] n(1) by simp
  then have k: "n < length (server_boxes ?g)" using n by (simp add: grown_def)
  let ?t = "served (req_pipe_name r) (ok_response 4) g (claimed n j r ?g)"
  have "process_manager_create env r j s = Inr ((), ?t)"
    using create_grow_exec [OF inv r e j _ full _ _ raw _ g(1)] new n op(1) by (simp add: v created_def)
  moreover have "broker_inv ?t" using claimed_inv [OF ig k r] g(2,3) by (rule served_inv)
  moreover have "answered (req_pipe_name r) 4 0 [] s ?t"
    by (rule served_ok) (simp_all add: response_codes_def)
  moreover have "box_free (server_boxes ?t ! m) = 0" if "n < m" "m < 2 * n" for m
    using that len n(1) by (simp add: grown_def nth_append)
  moreover have "server_boxes ?t ! m = server_boxes s ! m" if "m < n" for m
    using that len by (simp add: grown_def nth_append)
  moreover have "size_boxes ?t = 2 * n" using n(1) by (simp add: grown_def)
  ultimately show ?thesis using k by (intro exI [of _ ?t]) (simp add: v)
qed

text \<open>A table with one entry, which is used.\<close>

definition full_broker :: "tfs_state \<Rightarrow> broker" where
  "full_broker f = (demo_broker f)\<lparr>server_boxes := [demo_box ''/a'' ''pw'' 1], size_boxes := 1\<rparr>"

theorem create_doubles_table_witness:
  "\<exists>t. process_manager_create demo_env (demo_req 3 ''/b'' ''x'') 0 (full_broker demo2) = Inr ((), t) \<and>
    size_boxes t = 2 \<and> server_boxes t ! 0 = demo_box ''/a'' ''pw'' 1 \<and> name_of (server_boxes t ! 1) = ''/b''"
proof -
  have p: "c_ok (Some ''/b'')" "path_entry (Some ''/b'') = Some ''b''" "valid_name ''b''"
    "lookup demo2 (Some ''/b'') = - 1" "has_mode TFS_O_CREAT TFS_O_CREAT"
    "FREE \<in> set (freeinode_ts demo2)" "- 1 \<in> snd ` set (root_dents demo2)"
    "FREE \<in> set (free_open_file_entries demo2)"
    by (simp_all add: c_ok_def path_entry_def lookup_def demo2_dents demo2_fields)
  from open_create_run [OF demo2_inv p] obtain h f where
    f: "tfs_open (Some ''/b'') TFS_O_CREAT demo2 = Inr (int h, f)" "fs_inv f" "idle f" by blast
  let ?s = "full_broker demo2" and ?r = "demo_req 3 ''/b'' ''x''"
  have inv: "broker_inv ?s" by (simp add: full_broker_def broker_inv_def demo2_inv)
  have d: "0 < length (thread_pool ?s)" "position ?s ''/b'' = None" "unused ?s = None"
    "size_boxes ?s = 1" "tfs ?s = demo2" "server_boxes ?s ! 0 = demo_box ''/a'' ''pw'' 1"
    by (simp_all add: full_broker_def position_def unused_def)
  have g: "grants demo_env n" "box_ok (raw_box demo_env i)" for n i by simp_all
  have r: "request_ok ?r" "''/b'' = c_string (req_box_name ?r)" by simp_all
  have "\<exists>t. process_manager_create demo_env ?r 0 ?s = Inr ((), t) \<and> broker_inv t \<and>
      answered (req_pipe_name ?r) 4 0 [] ?s t \<and> size_boxes t = 2 * 1 \<and>
      (\<forall>m < 1. server_boxes t ! m = server_boxes ?s ! m) \<and>
      name_of (server_boxes t ! 1) = ''/b'' \<and> box_free (server_boxes t ! 1) = 1 \<and>
      password_of (server_boxes t ! 1) = c_string (req_box_password ?r) \<and>
      (\<forall>m. 1 < m \<longrightarrow> m < 2 * 1 \<longrightarrow> box_free (server_boxes t ! m) = 0)"
    by (rule create_doubles_table [OF inv r(1) demo_env_ok d(1) r(2) d(2,3) _ _ _ g _ f(2,3),
          where n = 1]) (simp_all add: d f(1))
  then obtain t where "process_manager_create demo_env ?r 0 ?s = Inr ((), t)" "size_boxes t = 2 * 1"
    "\<forall>m < 1. server_boxes t ! m = server_boxes ?s ! m" "name_of (server_boxes t ! 1) = ''/b''"
    by blast
  then show ?thesis by (intro exI [of _ t]) (simp add: d)
qed

section \<open>Removing\<close>

text \<open>C17: Removing a box with the right password deletes exactly its name from the file system and
  answers 0; its entry of the table is marked as unused, its numbers of publishers and subscribers and
  its size are 0, its name and its password all zeros, and the rest of the table is untouched.  It
  needs a directory in which no name occurs twice.\<close>

theorem remove_deletes_box:
  assumes inv: "broker_inv s" and r: "request_ok r" and e: "env_ok env" "pipe_ok env (req_pipe_name r)"
    and j: "j < length (thread_pool s)" and v: "v = c_string (req_box_name r)"
    and i: "position s v = Some i" "box_free (server_boxes s ! i) = 1"
    and pw: "password_of (server_boxes s ! i) = c_string (req_box_password r)"
    and path: "path_entry (Some v) = Some w" "lookup (tfs s) (Some v) = int n" "unique_names (tfs s)"
  shows "\<exists>t. process_manager_remove env r j s = Inr ((), t) \<and> broker_inv t \<and>
    answered (req_pipe_name r) 6 0 [] s t \<and> names (tfs t) = (names (tfs s))(w := None) \<and>
    size_boxes t = size_boxes s \<and> i < size_boxes s \<and>
    server_boxes t = (server_boxes s)[i := (server_boxes s ! i)\<lparr>box_free := 0, n_pub := 0, n_subs := 0,
      box_size := 0, box_name := replicate MAX_BOX_NAME NUL, box_password := replicate MAX_PASSWORD NUL\<rparr>]"
proof -
  note fs = broker_invD(5,6) [OF inv] and b = box_in_table [OF inv i(1)]
  from unlink_run [OF fs _ path] obtain f where
    f: "tfs_unlink (Some v) (tfs s) = Inr (0, f)" "names f = (names (tfs s))(w := None)"
    by (auto simp: v)
  have fi: "fs_inv f" "idle f" using tfs_unlink_inv [OF fs, of "Some v"] f(1) by (auto simp: v)
  let ?u = "box_set i emptied (indexed j i s)"
  let ?t = "served (req_pipe_name r) (ok_response 6) f ?u"
  have "process_manager_remove env r j s = Inr ((), ?t)"
    using remove_found_exec [OF inv r e j i(1) [unfolded v] _ pw f(1) [unfolded v]] i(2) by simp
  moreover have "broker_inv ?u" by (rule inv_box_set) (simp_all add: inv b)
  then have "broker_inv ?t" using fi by (rule served_inv)
  moreover have "answered (req_pipe_name r) 6 0 [] s ?t"
    by (rule served_ok) (simp_all add: response_codes_def)
  ultimately show ?thesis
    using f(2) b(1) broker_invD(1) [OF inv]
    by (intro exI [of _ ?t]) (simp add: emptied_def wipe_strings_def box_set_def)
qed

theorem remove_deletes_box_witness:
  "\<exists>t. process_manager_remove demo_env (demo_req 5 ''/a'' ''pw'') 0 (demo_broker demo2) = Inr ((), t) \<and>
    broker_inv t \<and> answered (array_of 256 ''/tmp/p'') 6 0 [] (demo_broker demo2) t \<and>
    names (tfs t) = (names demo2)(''a'' := None) \<and> n_pub (server_boxes t ! 0) = 0"
proof -
  let ?s = "demo_broker demo2" let ?b = "server_boxes ?s ! 0"
  have "\<exists>t. process_manager_remove demo_env (demo_req 5 ''/a'' ''pw'') 0 ?s = Inr ((), t) \<and> broker_inv t \<and>
      answered (req_pipe_name (demo_req 5 ''/a'' ''pw'')) 6 0 [] ?s t \<and>
      names (tfs t) = (names (tfs ?s))(''a'' := None) \<and> size_boxes t = size_boxes ?s \<and> 0 < size_boxes ?s \<and>
      server_boxes t = (server_boxes ?s)[0 := ?b\<lparr>box_free := 0, n_pub := 0, n_subs := 0,
        box_size := 0, box_name := replicate MAX_BOX_NAME NUL, box_password := replicate MAX_PASSWORD NUL\<rparr>]"
    by (rule remove_deletes_box [where v = "''/a''" and n = 1])
      (use demo2_inv demo_box_file in \<open>simp_all add: demo_broker_inv path_entry_def unique_names_def demo2_dents\<close>)
  then obtain t where "process_manager_remove demo_env (demo_req 5 ''/a'' ''pw'') 0 ?s = Inr ((), t)" "broker_inv t"
      "answered (req_pipe_name (demo_req 5 ''/a'' ''pw'')) 6 0 [] ?s t"
      "names (tfs t) = (names (tfs ?s))(''a'' := None)"
      "server_boxes t = (server_boxes ?s)[0 := ?b\<lparr>box_free := 0, n_pub := 0, n_subs := 0,
        box_size := 0, box_name := replicate MAX_BOX_NAME NUL, box_password := replicate MAX_PASSWORD NUL\<rparr>]"
    by blast
  then show ?thesis by (intro exI [of _ t]) simp
qed

text \<open>C37: A request to remove an unknown box, served by a thread whose index is not one of the table
  (as the -1 that \<open>main\<close> gives the first thread): the client is told of the error, and boxes, files
  and indices are as before; but then the handler goes on to wake the subscribers of the entry with
  that index, an access out of the bounds of the table.\<close>

theorem remove_unknown_out_of_bounds:
  assumes inv: "broker_inv s" and r: "request_ok r" and e: "env_ok env" "pipe_ok env (req_pipe_name r)"
    and j: "j < length (thread_pool s)" "\<not> (0 \<le> thread_pool s ! j \<and> thread_pool s ! j < int (size_boxes s))"
    and no: "position s (c_string (req_box_name r)) = None"
      "lookup (tfs s) (Some (c_string (req_box_name r))) = - 1"
  shows "\<exists>t. block [lock_boxes] (call (find_box (req_box_name r)) (\<lambda>_. remove_answer env r j)) s = Inr (True, t) \<and>
    answered (req_pipe_name r) 6 (- 1) msg_remove_failed s t \<and> broker_inv t \<and>
    server_boxes t = server_boxes s \<and> thread_pool t = thread_pool s \<and> tfs t = tfs s \<and>
    wake_subscribers j t = Inl OutOfBounds \<and> process_manager_remove env r j s = Inl OutOfBounds"
proof -
  note un = tfs_unlink_missing [OF broker_invD(5,6) [OF inv] c_ok_name no(2)]
  let ?t = "served (req_pipe_name r) (error_response env 6 msg_remove_failed) (tfs s) s"
  have w: "wake_subscribers j ?t = Inl OutOfBounds"
    using j broker_invD(1) [OF inv] by (subst wake_subscribers_exec) auto
  moreover have "answered (req_pipe_name r) 6 (- 1) msg_remove_failed s ?t"
    by (rule served_error [OF e(1)]) (simp_all add: response_codes_def)
  moreover have "broker_inv ?t" using inv broker_invD(5,6) [OF inv] by (rule served_inv)
  ultimately show ?thesis
    using remove_unknown_exec [OF inv r e no(1) un, of j] by (intro exI [of _ ?t]) simp
qed

theorem remove_unknown_out_of_bounds_witness:
  "\<exists>t. answered (array_of 256 ''/tmp/p'') 6 (- 1) msg_remove_failed (demo_broker demo2) t \<and>
    wake_subscribers 0 t = Inl OutOfBounds \<and>
    process_manager_remove demo_env (demo_req 5 ''/b'' ''pw'') 0 (demo_broker demo2) = Inl OutOfBounds"
  using remove_unknown_out_of_bounds [of "demo_broker demo2" "demo_req 5 ''/b'' ''pw''" demo_env 0] demo2_inv
  by (simp add: demo_broker_inv lookup_def path_entry_def demo2_dents) blast

text \<open>The indices that \<open>main\<close> leaves: -1 in the first entry, what \<open>malloc\<close> returned in the others.\<close>

lemma indices_at_start:
  assumes "start_broker h env raw_index n s = Inr ((), t)" and "j < n"
  shows "thread_pool t ! j = (if j = 0 then - 1 else raw_index j)"
  using assms by (auto simp: start_broker_def call_def modify_def fail_def split: if_splits sum.splits)

section \<open>Passwords\<close>

text \<open>The argument of a handler that names a box.\<close>

definition box_task :: "handler \<Rightarrow> request \<Rightarrow> char list \<Rightarrow> task" where
  "box_task h r new = \<lparr>function_of = Some h, request_of =
     (if h = H_lock then New_password \<lparr>np_request_lock = r, np_new_password = new\<rparr> else Request r)\<rparr>"

text \<open>C22: Without the password of a box nobody changes it: a request to publish, subscribe, remove,
  lock or unlock with a wrong password leaves the table of boxes and the file system exactly as they
  were.\<close>

theorem wrong_password_changes_nothing:
  assumes inv: "broker_inv s" and r: "request_ok r" and new: "string_array MAX_PASSWORD new"
    and e: "env_ok env" "pipe_ok env (req_pipe_name r)" and j: "j < length (thread_pool s)"
    and i: "position s (c_string (req_box_name r)) = Some i" "box_free (server_boxes s ! i) = 1"
    and wrong: "password_of (server_boxes s ! i) \<noteq> c_string (req_box_password r)"
    and h: "h \<in> {H_pub, H_sub, H_remove, H_lock, H_unlock}"
  shows "\<exists>t. run_task env fuel j inputs (box_task h r new) s = Inr ((), t) \<and>
    server_boxes t = server_boxes s \<and> size_boxes t = size_boxes s \<and> tfs t = tfs s \<and> broker_inv t"
proof -
  have o: "can_open env (c_string (req_pipe_name r))" "can_close env"
    using e(2) by (simp_all add: pipe_ok_def)
  let ?l = "logged [Opened (c_string (req_pipe_name r)), Closed (c_string (req_pipe_name r))] s"
  have il: "broker_inv (logged es s)" for es using inv by simp
  consider "h = H_pub" | "h = H_sub" | "h = H_remove" | "h = H_lock" | "h = H_unlock" using h by auto
  then show ?thesis
  proof cases
    case 1
    then have "run_task env fuel j inputs (box_task h r new) s = Inr ((), ?l)"
      using register_pub_refused [OF inv r o i(1)] wrong
      by (simp add: run_task_def box_task_def process_pub_def call_def ret_def)
    with il show ?thesis by simp
  next
    case 2
    then have "run_task env fuel j inputs (box_task h r new) s = Inr ((), ?l)"
      using register_sub_refused [OF inv r o i(1) wrong]
      by (simp add: run_task_def box_task_def call_def ret_def)
    with il show ?thesis by simp
  next
    case 3
    then show ?thesis
      using remove_wrong_exec [OF inv r e i(1) _ wrong] i(2) il by (simp add: run_task_def box_task_def)
  next
    case 4
    then show ?thesis
      using process_manager_lock_exec [of s "\<lparr>np_request_lock = r, np_new_password = new\<rparr>" env j]
        inv r new e j i(1) wrong by (simp add: run_task_def box_task_def relocked_def)
  next
    case 5
    then show ?thesis
      using process_manager_unlock_exec [OF inv r e j] inv i(1) wrong
      by (simp add: run_task_def box_task_def unlocked_def)
  qed
qed

theorem wrong_password_changes_nothing_witness:
  "\<exists>t. run_task demo_env 0 0 [] (box_task H_remove (demo_req 5 ''/a'' ''no'') (array_of 5 [])) (demo_broker demo2) =
      Inr ((), t) \<and> server_boxes t = server_boxes (demo_broker demo2) \<and>
    size_boxes t = size_boxes (demo_broker demo2) \<and> tfs t = tfs (demo_broker demo2) \<and> broker_inv t"
  by (rule wrong_password_changes_nothing [where i = 0])
    (simp_all add: demo_broker_inv demo2_inv max_defs)

text \<open>C31: With the right password a box gets the new one, and nothing else in its entry, in the table or
  in the file system changes; the new password then opens the box to \<open>process_manager_unlock\<close>, which
  replaces it by zeros, so that the box has no password, and again changes nothing else.\<close>

theorem lock_then_unlock:
  assumes inv: "broker_inv s" and r: "request_ok r" and r': "request_ok r'"
    and new: "string_array MAX_PASSWORD new"
    and e: "env_ok env" "pipe_ok env (req_pipe_name r)" "pipe_ok env (req_pipe_name r')"
    and j: "j < length (thread_pool s)"
    and v: "c_string (req_box_name r) = v" "c_string (req_box_name r') = v"
    and i: "position s v = Some i" "password_of (server_boxes s ! i) = c_string (req_box_password r)"
    and pw: "c_string (req_box_password r') = c_string new"
  shows "\<exists>t u. process_manager_lock env \<lparr>np_request_lock = r, np_new_password = new\<rparr> j s = Inr ((), t) \<and>
    answered (req_pipe_name r) 14 0 [] s t \<and> i < length (server_boxes s) \<and>
    (\<exists>p. c_string p = c_string new \<and>
       server_boxes t = (server_boxes s)[i := (server_boxes s ! i)\<lparr>box_password := p\<rparr>]) \<and>
    size_boxes t = size_boxes s \<and> tfs t = tfs s \<and>
    process_manager_unlock env r' j t = Inr ((), u) \<and> answered (req_pipe_name r') 12 0 [] t u \<and>
    server_boxes u = (server_boxes s)[i := (server_boxes s ! i)\<lparr>box_password := replicate MAX_PASSWORD NUL\<rparr>] \<and>
    size_boxes u = size_boxes s \<and> tfs u = tfs s \<and> broker_inv u"
proof -
  note b = box_in_table [OF inv i(1)]
  let ?q = "\<lparr>np_request_lock = r, np_new_password = new\<rparr>"
  let ?b = "box_set i (\<lambda>b. b\<lparr>box_password := copied (box_password b) new\<rparr>) (indexed j i s)"
  let ?t = "replied (req_pipe_name r) (ok_response 14) ?b"
  have nl: "length (c_string new) < length (box_password (server_boxes s ! i))"
    using new c_string_short [of new] b(2) by (simp add: string_array_def box_ok_def)
  have lk: "process_manager_lock env ?q j s = Inr ((), ?t)"
    using process_manager_lock_exec [of s ?q env j] inv r new e j v i
    by (simp add: relocked_def password_reply_def)
  have it: "broker_inv ?t"
    using relocked_inv [OF inv new, of j v "password_of (server_boxes s ! i)"] i by (simp add: relocked_def)
  have pt: "position ?t v = Some i"
    unfolding position_def using b(1) i(1)
    by (intro first_index_SomeI) (auto simp: position_def nth_update dest!: first_index_SomeD)
  have pb: "password_of (server_boxes ?t ! i) = c_string new" using b(1) nl by simp
  have jt: "j < length (thread_pool ?t)" using j by simp
  let ?u = "replied (req_pipe_name r') (ok_response 12)
    (box_set i (\<lambda>b. b\<lparr>box_password := replicate MAX_PASSWORD NUL\<rparr>) (indexed j i ?t))"
  have ul: "process_manager_unlock env r' j ?t = Inr ((), ?u)"
    using process_manager_unlock_exec [OF it r' e(1,3) jt] pt pb pw v
    by (simp add: unlocked_def password_reply_def)
  have iu: "broker_inv ?u"
    using unlocked_inv [OF it, of j v "c_string new"] pt pb by (simp add: unlocked_def)
  have "answered (req_pipe_name r) 14 0 [] s ?t" "answered (req_pipe_name r') 12 0 [] ?t ?u"
    using replied_answered [OF ok_response_ok [of 14], of ?b s "req_pipe_name r"]
      replied_answered [OF ok_response_ok [of 12], of
        "box_set i (\<lambda>b. b\<lparr>box_password := replicate MAX_PASSWORD NUL\<rparr>) (indexed j i ?t)" ?t "req_pipe_name r'"]
    by (simp_all add: response_codes_def)
  moreover have "server_boxes ?t =
      (server_boxes s)[i := (server_boxes s ! i)\<lparr>box_password := copied (box_password (server_boxes s ! i)) new\<rparr>]"
    by (simp add: box_set_def)
  moreover have "c_string (copied (box_password (server_boxes s ! i)) new) = c_string new" using pb b(1) by simp
  moreover have "server_boxes ?u =
      (server_boxes s)[i := (server_boxes s ! i)\<lparr>box_password := replicate MAX_PASSWORD NUL\<rparr>]"
    using b(1) by (simp add: box_set_def)
  moreover have "size_boxes ?t = size_boxes s" "tfs ?t = tfs s" "size_boxes ?u = size_boxes s" "tfs ?u = tfs s"
    by simp_all
  ultimately show ?thesis using lk ul iu b(1) by blast
qed

theorem lock_then_unlock_witness:
  "\<exists>t u p. process_manager_lock demo_env
      \<lparr>np_request_lock = demo_req 13 ''/a'' ''pw'', np_new_password = array_of 5 ''new''\<rparr> 0 (demo_broker demo2) =
      Inr ((), t) \<and> c_string p = ''new'' \<and>
    server_boxes t = [(demo_box ''/a'' ''pw'' 1)\<lparr>box_password := p\<rparr>] @ tl (server_boxes (demo_broker demo2)) \<and>
    process_manager_unlock demo_env (demo_req 11 ''/a'' ''new'') 0 t = Inr ((), u) \<and>
    password_of (server_boxes u ! 0) = []"
proof -
  let ?s = "demo_broker demo2"
  have "\<exists>t u. process_manager_lock demo_env
        \<lparr>np_request_lock = demo_req 13 ''/a'' ''pw'', np_new_password = array_of 5 ''new''\<rparr> 0 ?s = Inr ((), t) \<and>
      answered (req_pipe_name (demo_req 13 ''/a'' ''pw'')) 14 0 [] ?s t \<and> 0 < length (server_boxes ?s) \<and>
      (\<exists>p. c_string p = c_string (array_of 5 ''new'') \<and>
         server_boxes t = (server_boxes ?s)[0 := (server_boxes ?s ! 0)\<lparr>box_password := p\<rparr>]) \<and>
      size_boxes t = size_boxes ?s \<and> tfs t = tfs ?s \<and>
      process_manager_unlock demo_env (demo_req 11 ''/a'' ''new'') 0 t = Inr ((), u) \<and>
      answered (req_pipe_name (demo_req 11 ''/a'' ''new'')) 12 0 [] t u \<and>
      server_boxes u = (server_boxes ?s)[0 := (server_boxes ?s ! 0)\<lparr>box_password := replicate MAX_PASSWORD NUL\<rparr>] \<and>
      size_boxes u = size_boxes ?s \<and> tfs u = tfs ?s \<and> broker_inv u"
    by (rule lock_then_unlock [where v = "''/a''"]) (simp_all add: demo_broker_inv demo2_inv max_defs)
  then obtain t u p where "process_manager_lock demo_env
        \<lparr>np_request_lock = demo_req 13 ''/a'' ''pw'', np_new_password = array_of 5 ''new''\<rparr> 0 ?s = Inr ((), t)"
      "process_manager_unlock demo_env (demo_req 11 ''/a'' ''new'') 0 t = Inr ((), u)"
      "c_string p = c_string (array_of 5 ''new'')"
      "server_boxes t = (server_boxes ?s)[0 := (server_boxes ?s ! 0)\<lparr>box_password := p\<rparr>]"
      "server_boxes u = (server_boxes ?s)[0 := (server_boxes ?s ! 0)\<lparr>box_password := replicate MAX_PASSWORD NUL\<rparr>]"
    by blast
  then show ?thesis by (intro exI [of _ t] exI [of _ u] exI [of _ p]) (simp add: demo_broker_def)
qed

section \<open>Listing\<close>

text \<open>A line from which a client reads the entry of the box \<open>b\<close>, marked if it is the last one.\<close>

definition lists_box :: "box \<Rightarrow> bool \<Rightarrow> char list \<Rightarrow> bool" where
  "lists_box b final l \<longleftrightarrow> (\<exists>e. reader_stc (\<lambda>_. True) l = Inr (List_response e, l) \<and>
     length l = MAX_LINE \<and> NUL \<in> set (lr_box_name e) \<and> NUL \<in> set (lr_box_password e) \<and>
     c_string (lr_box_name e) = name_of b \<and> uint (lr_box_size e) = box_size b \<and>
     uint (lr_n_pubs e) = n_pub b \<and> uint (lr_n_subs e) = n_subs b \<and>
     c_string (lr_box_password e) = password_of b \<and> lr_last e = (if final then 1 else 0))"

definition counters_ok :: "box \<Rightarrow> bool" where
  "counters_ok b \<longleftrightarrow> (\<forall>x \<in> {box_size b, n_pub b, n_subs b}. 0 \<le> x \<and> x < 2147483648)"

lemma marked_length [simp]: "length (marked xs) = length xs"
  by (induction xs rule: marked.induct) simp_all

lemma marked_nth:
  "k < length xs \<Longrightarrow> marked xs ! k = (if Suc k = length xs then (xs ! k)\<lparr>lr_last := 1\<rparr> else xs ! k)"
proof (induction xs arbitrary: k rule: marked.induct)
  case (3 x y xs)
  then show ?case by (cases k) simp_all
qed simp_all

lemma small_word:
  "0 \<le> x \<Longrightarrow> x < 2147483648 \<Longrightarrow> uint (word_of_int x :: 64 word) = x"
  "0 \<le> x \<Longrightarrow> x < 2147483648 \<Longrightarrow> uint (ucast (word_of_int x :: 32 word) :: 64 word) = x"
  by (simp_all add: uint_word_of_int unsigned_ucast_eq take_bit_eq_mod)

lemma entry_for_lists:
  assumes e: "env_ok env" and b: "box_ok b" "counters_ok b" and v: "v = (if final then 1 else 0)"
  shows "lists_box b final (line (layout (List_response ((entry_for env b)\<lparr>lr_last := v\<rparr>))))"
proof -
  define x where "x = (entry_for env b)\<lparr>lr_last := v\<rparr>"
  have wf: "well_formed (List_response x)" unfolding x_def by (rule entry_for_ok [OF e b(1)])
  have len: "length (line (layout (List_response x))) = MAX_LINE" by (rule length_line [OF layout_fits [OF wf]])
  have "reader_stc (\<lambda>_. True) (line (layout (List_response x))) = Inr (List_response x, line (layout (List_response x)))"
    using reader_stc_exec [OF len] by (simp only: reads_as_line [OF wf])
  moreover have "NUL \<in> set (lr_box_name x)" "NUL \<in> set (lr_box_password x)"
    "c_string (lr_box_name x) = name_of b" "c_string (lr_box_password x) = password_of b"
    "uint (lr_box_size x) = box_size b" "uint (lr_n_pubs x) = n_pub b" "uint (lr_n_subs x) = n_subs b"
    "lr_last x = (if final then 1 else 0)"
    using b(2) v by (simp_all add: x_def entry_for_def counters_ok_def small_word)
  ultimately show ?thesis
    unfolding x_def [symmetric] lists_box_def using len by (intro exI [of _ x] conjI)
qed

lemma boxes_listed:
  assumes inv: "broker_inv s" and e: "env_ok env" and p: "NUL \<in> set (lq_pipe_name r)"
    and o: "can_open env (c_string (lq_pipe_name r))" "can_close env"
      "\<And>n. write_answer env n = Wrote MAX_LINE"
    and used: "used_boxes s \<noteq> []" "\<And>b. b \<in> set (used_boxes s) \<Longrightarrow> counters_ok b"
  shows "\<exists>t ls. process_manager_list env r j s = Inr ((), t) \<and>
    pipes t = pipes s @ [Opened (c_string (lq_pipe_name r))] @
      map (Sent (c_string (lq_pipe_name r))) ls @ [Closed (c_string (lq_pipe_name r))] \<and>
    length ls = length (used_boxes s) \<and>
    (\<forall>k < length ls. lists_box (used_boxes s ! k) (Suc k = length ls) (ls ! k)) \<and>
    server_boxes t = server_boxes s \<and> size_boxes t = size_boxes s \<and> tfs t = tfs s"
proof -
  have "0 < size_boxes s" using used(1) broker_invD(1) [OF inv] by (cases "server_boxes s") auto
  note ex = process_manager_list_exec [OF inv e p o this]
  let ?ls = "list_lines (list_answer env s)" and ?c = "c_string (lq_pipe_name r)"
  let ?t = "logged ([Opened ?c] @ map (Sent ?c) ?ls @ [Closed ?c]) (s\<lparr>sigpipe_ignored := True\<rparr>)"
  have len: "length ?ls = length (used_boxes s)"
    using used(1) by (simp add: list_lines_def list_answer_def)
  have "lists_box (used_boxes s ! k) (Suc k = length ?ls) (?ls ! k)" if "k < length ?ls" for k
  proof -
    let ?b = "used_boxes s ! k" let ?v = "if Suc k = length ?ls then 1 else 0 :: 8 word"
    have k: "k < length (used_boxes s)" using that len by simp
    then have b: "?b \<in> set (used_boxes s)" by (rule nth_mem)
    then have "box_ok ?b" using broker_invD(3) [OF inv] by auto
    note lb = entry_for_lists [OF e this used(2) [OF b], of ?v "Suc k = length ?ls"]
    have z: "(entry_for env ?b)\<lparr>lr_last := 0\<rparr> = entry_for env ?b" by (simp add: entry_for_def)
    have "?ls ! k = line (layout (List_response ((entry_for env ?b)\<lparr>lr_last := ?v\<rparr>)))"
      using k used(1) len by (simp add: list_lines_def list_answer_def marked_nth z del: layout.simps)
    with lb show ?thesis by simp
  qed
  with ex len show ?thesis
    by (intro exI [of _ ?t] exI [of _ ?ls] conjI allI impI) (simp_all add: logged_def)
qed

text \<open>C23: A request to list the boxes is answered with one line per used entry of the table, in the
  order of the table; the client reads from it the name, the size, the number of publishers and
  subscribers and the password of the box, and only the last line is marked.  The handler changes
  neither the table nor the file system.\<close>

theorem list_boxes:
  assumes inv: "broker_inv s" and e: "env_ok env" and p: "NUL \<in> set (lq_pipe_name r)"
    and o: "can_open env (c_string (lq_pipe_name r))" "can_close env"
      "\<And>n. write_answer env n = Wrote MAX_LINE"
    and used: "used_boxes s \<noteq> []" "\<And>b. b \<in> set (used_boxes s) \<Longrightarrow> counters_ok b"
  shows "\<exists>t ls. process_manager_list env r j s = Inr ((), t) \<and>
    pipes t = pipes s @ [Opened (c_string (lq_pipe_name r))] @
      map (Sent (c_string (lq_pipe_name r))) ls @ [Closed (c_string (lq_pipe_name r))] \<and>
    length ls = length (used_boxes s) \<and>
    (\<forall>k < length ls. lists_box (used_boxes s ! k) (Suc k = length ls) (ls ! k)) \<and>
    server_boxes t = server_boxes s \<and> size_boxes t = size_boxes s \<and> tfs t = tfs s"
  by (rule boxes_listed [OF assms])

theorem list_boxes_witness:
  "\<exists>t ls. process_manager_list demo_env \<lparr>lq_code = 7, lq_pipe_name = array_of 256 ''/tmp/p''\<rparr> 0
      (demo_broker demo2) = Inr ((), t) \<and> length ls = 1 \<and>
    pipes t = Opened ''/tmp/p'' # map (Sent ''/tmp/p'') ls @ [Closed ''/tmp/p''] \<and>
    lists_box (demo_box ''/a'' ''pw'' 1) True (ls ! 0)"
proof -
  let ?s = "demo_broker demo2" let ?r = "\<lparr>lq_code = 7, lq_pipe_name = array_of 256 ''/tmp/p''\<rparr>"
  have n: "NUL \<in> set (array_of 256 ''/tmp/p'')"
    using array_of_facts(1) [of "''/tmp/p''" 256] by (simp add: string_array_def)
  have "\<exists>t ls. process_manager_list demo_env ?r 0 ?s = Inr ((), t) \<and>
      pipes t = pipes ?s @ [Opened (c_string (lq_pipe_name ?r))] @
        map (Sent (c_string (lq_pipe_name ?r))) ls @ [Closed (c_string (lq_pipe_name ?r))] \<and>
      length ls = length (used_boxes ?s) \<and>
      (\<forall>k < length ls. lists_box (used_boxes ?s ! k) (Suc k = length ls) (ls ! k)) \<and>
      server_boxes t = server_boxes ?s \<and> size_boxes t = size_boxes ?s \<and> tfs t = tfs ?s"
    by (rule list_boxes [OF demo_broker_inv [OF demo2_inv] demo_env_ok(1)])
      (auto simp: n counters_ok_def)
  then show ?thesis by auto
qed

end
