(* ===== verification/Client_Exec.thy ===== *)
theory Client_Exec
  imports Clients Broker_Delivery Broker_Correct "HOL-Library.Multiset"
begin

text \<open>
  How the parts of the clients run: the requests they make of their arguments, the lines a
  publisher makes of its text, the messages a subscriber prints, and the order in which the manager
  prints the boxes.
\<close>

section \<open>Requests\<close>

definition slash_array :: "string \<Rightarrow> char list" where
  "slash_array v = CHR ''/'' # v @ replicate (31 - length v) NUL"

lemma box_name_slash_exec:
  assumes "NUL \<notin> set v"
  shows "box_name_slash (v @ [NUL]) = (if length v \<le> 30 then Inr (slash_array v) else Inl OutOfBounds)"
proof -
  have s: "strcpy_to (replicate MAX_BOX_NAME NUL) (''/'' @ [NUL]) = Inr (CHR ''/'' # replicate 31 NUL)"
    by (simp add: strcpy_to_def max_defs numeral_eq_Suc)
  have "c_strcpy (v @ [NUL]) = Inr (v @ [NUL])" using c_strcpy_term [OF assms, of "[]"] by simp
  moreover have "v @ NUL # drop (Suc (length v)) (replicate 31 NUL) = v @ replicate (31 - length v) NUL"
    if "length v \<le> 30"
  proof -
    from that obtain k where "31 - length v = Suc k" by (cases "31 - length v") simp_all
    then show ?thesis by simp
  qed
  ultimately have "strcpy_to (replicate 31 NUL) (v @ [NUL]) =
      (if length v \<le> 30 then Inr (v @ replicate (31 - length v) NUL) else Inl OutOfBounds)"
    by (simp add: strcpy_to_def)
  moreover have "c_strlen (CHR ''/'' # replicate 31 NUL) = Inr (1 :: nat)"
    by (simp add: numeral_eq_Suc)
  ultimately show ?thesis
    using s by (simp add: box_name_slash_def strcat_to_def slash_array_def)
qed

lemma slash_array_facts:
  assumes "NUL \<notin> set v" and "length v \<le> 30"
  shows "length (slash_array v) = 32" "NUL \<in> set (slash_array v)" "c_string (slash_array v) = CHR ''/'' # v"
proof -
  from assms(2) obtain k where k: "31 - length v = Suc k" by (cases "31 - length v") simp_all
  show "length (slash_array v) = 32" using assms(2) by (simp add: slash_array_def)
  show "NUL \<in> set (slash_array v)" by (simp add: slash_array_def k)
  show "c_string (slash_array v) = CHR ''/'' # v"
    using assms(1) c_string_term [of "CHR ''/'' # v" "replicate k NUL"] by (simp add: slash_array_def k)
qed

text \<open>The arguments fit into the arrays of a request.\<close>

definition fits_array :: "nat \<Rightarrow> string \<Rightarrow> bool" where
  "fits_array n v \<longleftrightarrow> NUL \<notin> set v \<and> length v < n"

definition filled :: "request \<Rightarrow> string \<Rightarrow> string \<Rightarrow> request" where
  "filled r pipe v = r\<lparr>req_pipe_name := copied (req_pipe_name r) (pipe @ [NUL]),
     req_box_name := copied (req_box_name r) (slash_array v)\<rparr>"

lemma arg_exec [exec_simps]:
  "call (arg argv i) k es = (if i < length argv then k (argv ! i @ [NUL]) es else Inl OutOfBounds)"
  by (simp add: arg_def call_def lift_def array_get_def ret_def)

lemma fill_names_exec:
  assumes "request_sized r" and "2 < length argv" and "b < length argv"
    and "fits_array MAX_PIPE_NAME (argv ! 2)" and "NUL \<notin> set (argv ! b)"
  shows "call (fill_names r argv b) k es =
    (if length (argv ! b) \<le> 30 then k (filled r (argv ! 2) (argv ! b)) es else Inl OutOfBounds)"
proof -
  have p: "strcpy_to (req_pipe_name r) (argv ! 2 @ [NUL]) =
      Inr (copied (req_pipe_name r) (argv ! 2 @ [NUL]))"
    using assms(1,4) by (intro strcpy_to_exec) (simp_all add: fits_array_def request_sized_def max_defs)
  have "strcpy_to (req_box_name r) (slash_array (argv ! b)) =
      Inr (copied (req_box_name r) (slash_array (argv ! b)))" if "length (argv ! b) \<le> 30"
    using assms(1) slash_array_facts [OF assms(5) that] that
    by (intro strcpy_to_exec) (simp_all add: request_sized_def max_defs)
  then show ?thesis
    using assms(2,3) p
    by (simp add: fill_names_def call_call exec_simps box_name_slash_exec [OF assms(5)] filled_def)
qed

lemma filled_ok:
  assumes "request_sized r" and "fits_array MAX_PIPE_NAME p" and "NUL \<notin> set v" and "length v \<le> 30"
  shows "string_array MAX_PIPE_NAME (req_pipe_name (filled r p v))" "c_string (req_pipe_name (filled r p v)) = p"
    "string_array MAX_BOX_NAME (req_box_name (filled r p v))"
    "c_string (req_box_name (filled r p v)) = CHR ''/'' # v"
    "req_box_password (filled r p v) = req_box_password r" "req_code (filled r p v) = req_code r"
  using assms slash_array_facts [OF assms(3,4)]
  by (simp_all add: filled_def string_array_def fits_array_def request_sized_def max_defs)

definition with_password :: "request \<Rightarrow> string \<Rightarrow> request" where
  "with_password r pw = r\<lparr>req_box_password := copied (req_box_password r) (pw @ [NUL])\<rparr>"

lemma set_password_exec:
  assumes "length (req_box_password r) = MAX_PASSWORD" and "fits_array MAX_PASSWORD pw"
  shows "call (set_password r (pw @ [NUL])) k es = k (with_password r pw) es"
proof -
  have "strcpy_to (req_box_password r) (pw @ [NUL]) = Inr (copied (req_box_password r) (pw @ [NUL]))"
    using assms by (intro strcpy_to_exec) (simp_all add: fits_array_def max_defs)
  then show ?thesis by (simp add: set_password_def with_password_def call_call exec_simps)
qed

lemma set_no_password_exec:
  assumes "length (req_box_password r) = MAX_PASSWORD"
  shows "call (set_password r (replicate MAX_PASSWORD NUL)) k es = k (with_password r []) es"
proof -
  have "strcpy_to (req_box_password r) (replicate MAX_PASSWORD NUL) =
      Inr (copied (req_box_password r) (replicate MAX_PASSWORD NUL))"
    using assms by (intro strcpy_to_exec) (simp_all add: max_defs)
  then show ?thesis by (simp add: set_password_def with_password_def call_call exec_simps copied_def c_string_def)
qed

lemma with_password_ok:
  assumes "length (req_box_password r) = MAX_PASSWORD" and "fits_array MAX_PASSWORD pw"
  shows "string_array MAX_PASSWORD (req_box_password (with_password r pw))"
    "c_string (req_box_password (with_password r pw)) = pw"
    "req_pipe_name (with_password r pw) = req_pipe_name r" "req_box_name (with_password r pw) = req_box_name r"
    "req_code (with_password r pw) = req_code r"
  using assms by (simp_all add: with_password_def string_array_def fits_array_def max_defs)

text \<open>The password of the command line of a publisher or subscriber.\<close>

definition password_arg :: "string list \<Rightarrow> string" where
  "password_arg argv = (if length argv = 4 then [] else last argv)"

definition stream_args :: "string list \<Rightarrow> bool" where
  "stream_args argv \<longleftrightarrow> length argv \<in> {4, 5} \<and> fits_array MAX_PIPE_NAME (argv ! 2) \<and>
     NUL \<notin> set (argv ! 3) \<and> fits_array MAX_PASSWORD (password_arg argv)"

lemma stream_request_exec:
  assumes a: "stream_args argv" and raw: "request_sized (raw_request env)"
  shows "call (stream_request c env argv) k es =
    (if length (argv ! 3) \<le> 30
     then k (with_password (filled ((raw_request env)\<lparr>req_code := c\<rparr>) (argv ! 2) (argv ! 3)) (password_arg argv)) es
     else Inl OutOfBounds)"
proof -
  note s = a [unfolded stream_args_def]
  let ?r = "(raw_request env)\<lparr>req_code := c\<rparr>"
  let ?f = "filled ?r (argv ! 2) (argv ! 3)"
  have r: "request_sized ?r" using raw by (simp add: request_sized_def)
  have pw: "length (req_box_password ?f) = MAX_PASSWORD"
    using r by (simp add: filled_def request_sized_def max_defs)
  have l: "argv ! (length argv - 1) = last argv" using s by (intro last_conv_nth [symmetric]) auto
  note fill = fill_names_exec [OF r, of argv 3]
  show ?thesis
  proof (cases "length argv = 4")
    case True
    with s show ?thesis
      by (simp add: stream_request_def call_call password_arg_def fill set_no_password_exec [OF pw])
  next
    case False
    with s l show ?thesis
      by (simp add: stream_request_def call_call password_arg_def exec_simps fill
        set_password_exec [OF pw, of "last argv"])
  qed
qed

section \<open>A client on a system that works\<close>

definition client_ok :: "client_env \<Rightarrow> bool" where
  "client_ok env \<longleftrightarrow> works env = (\<lambda>_. True) \<and> memory env = (\<lambda>_. True) \<and>
     pub_write env = (\<lambda>_. Wrote MAX_LINE) \<and> request_sized (raw_request env) \<and>
     length (raw_password env) = MAX_PASSWORD \<and> length (raw_message env) = 1024 \<and>
     length (raw_buffer env) = MAX_LINE"

lemma client_okD:
  assumes "client_ok env"
  shows "works env e" "memory env n" "memory env = (\<lambda>_. True)" "pub_write env k = Wrote MAX_LINE"
    "request_sized (raw_request env)" "length (raw_password env) = MAX_PASSWORD"
    "length (raw_message env) = 1024" "length (raw_buffer env) = MAX_LINE"
  using assms by (simp_all add: client_ok_def)

lemma system_exec:
  assumes "client_ok env"
  shows "call (my_mkfifo env p) k es = k () (es @ [Make_fifo p])"
    "call (my_unlink env p) k es = k () (es @ [Remove_fifo p])"
    "call (my_write env p l) k es = k () (es @ [Write_fifo p l])"
    "call (open_fifo env p) k es = k () (es @ [Open_fifo p])"
    "call (close_fifo env p) k es = k () (es @ [Close_fifo p])"
    "call (print v) k es = k () (es @ [Print v])"
    "well_formed m \<Longrightarrow> c = code_of m \<Longrightarrow> call (line_of env m c) kk es = kk (line (layout m)) es"
  using client_okD [OF assms]
  by (simp_all add: my_mkfifo_def my_unlink_def my_write_def open_fifo_def close_fifo_def print_def
    line_of_def perform_def call_def modify_def lift_def writer_stc_exec)

section \<open>Text of a publisher\<close>

text \<open>A line of text that fits into one message.\<close>

definition typed :: "string \<Rightarrow> bool" where
  "typed m \<longleftrightarrow> NUL \<notin> set m \<and> CHR 0x0A \<notin> set m \<and> length m < 1023"

definition typed_text :: "string list \<Rightarrow> string" where
  "typed_text ms = concat (map (\<lambda>m. m @ [CHR 0x0A]) ms)"

lemma typed_text_simps [simp]:
  "typed_text [] = []" "typed_text (m # ms) = m @ CHR 0x0A # typed_text ms"
  by (simp_all add: typed_text_def)

lemma fgets_bytes_line:
  "CHR 0x0A \<notin> set m \<Longrightarrow> length m < n \<Longrightarrow>
   fgets_bytes n (m @ CHR 0x0A # rest) = (m @ [CHR 0x0A], rest)"
proof (induction m arbitrary: n)
  case Nil
  then show ?case by (cases n) simp_all
next
  case (Cons c m)
  then show ?case by (cases n) auto
qed

definition pub_message :: "client_env \<Rightarrow> string \<Rightarrow> messages_pipe" where
  "pub_message env m = \<lparr>msg_code = 9, msg_message = m @ NUL # drop (Suc (length m)) (raw_message env)\<rparr>"

definition pub_line :: "client_env \<Rightarrow> string \<Rightarrow> char list" where
  "pub_line env m = line (layout (Message (pub_message env m)))"

lemma pub_message_ok:
  assumes "client_ok env" and "typed m"
  shows "well_formed (Message (pub_message env m))"
  using assms by (simp add: pub_message_def client_ok_def typed_def message_codes_def)

lemma pub_line_carries:
  assumes "client_ok env" and "typed m"
  shows "carries (pub_line env m) m"
  using reads_as_line [OF pub_message_ok [OF assms]] length_line [OF layout_fits [OF pub_message_ok [OF assms]]] assms
  by (simp add: carries_def pub_line_def pub_message_def string_array_def client_ok_def typed_def
    del: layout.simps)

lemma pub_line_length [simp]: "client_ok env \<Longrightarrow> typed m \<Longrightarrow> length (pub_line env m) = MAX_LINE"
  using pub_line_carries [of env m] by (simp add: carries_def)

lemma cut_newline_exec:
  assumes "NUL \<notin> set m"
  shows "cut_newline (m @ CHR 0x0A # NUL # r) = Inr (m @ NUL # NUL # r)"
proof -
  have "c_strlen ((m @ [CHR 0x0A]) @ NUL # r) = Inr (length (m @ [CHR 0x0A]))"
    using assms by (intro c_strlen_term) simp
  then show ?thesis by (simp add: cut_newline_def nth_append list_update_append)
qed

lemma publish_text_line:
  assumes e: "client_ok env" and m: "typed m"
  shows "publish_text env pipe k (m @ CHR 0x0A # rest) es =
    publish_text env pipe (Suc k) rest (es @ [Write_fifo pipe (pub_line env m)])"
proof -
  note t = m [unfolded typed_def]
  obtain c cs where cs: "m @ CHR 0x0A # rest = c # cs" by (cases "m @ CHR 0x0A # rest") simp_all
  have fg: "fgets_bytes 1023 (c # cs) = (m @ [CHR 0x0A], rest)"
    unfolding cs [symmetric] using t by (intro fgets_bytes_line) simp_all
  have cut: "cut_newline (m @ CHR 0x0A # NUL # r) = Inr (m @ NUL # NUL # r)" for r
    using t by (intro cut_newline_exec) simp
  have "strcpy_to (raw_message env) (m @ NUL # r) =
      Inr (m @ NUL # drop (Suc (length m)) (raw_message env))" for r
    using strcpy_to_exec [of "m @ NUL # r" "raw_message env"] t client_okD(7) [OF e]
    by (simp add: copied_def)
  moreover have "call (line_of env (Message \<lparr>msg_code = 9,
      msg_message = m @ NUL # drop (Suc (length m)) (raw_message env)\<rparr>) 9) kk es = kk (pub_line env m) es" for kk :: "char list \<Rightarrow> int clop"
    using system_exec(7) [OF e pub_message_ok [OF e m], of 9 kk es]
    by (simp add: pub_message_def pub_line_def del: layout.simps)
  ultimately show ?thesis
    unfolding cs using e m by (simp add: fg cut exec_simps client_okD(4) [OF e])
qed

lemma publish_text_exec:
  assumes e: "client_ok env"
  shows "(\<And>m. m \<in> set ms \<Longrightarrow> typed m) \<Longrightarrow> publish_text env pipe k (typed_text ms) es =
    Inr (0, es @ map (\<lambda>m. Write_fifo pipe (pub_line env m)) ms @ [Close_fifo pipe, Remove_fifo pipe])"
proof (induction ms arbitrary: k es)
  case Nil
  then show ?case by (simp add: system_exec [OF e] exec_simps)
next
  case (Cons m ms)
  then show ?case by (simp add: publish_text_line [OF e])
qed

section \<open>Messages of a subscriber\<close>

lemma call_shift: "call (\<lambda>es. print_messages env ls (es @ xs)) k es = call (print_messages env ls) k (es @ xs)"
  by (simp add: call_def)

lemma print_messages_exec:
  assumes e: "client_ok env"
  shows "list_all2 carries ls ms \<Longrightarrow>
    call (print_messages env ls) k es = k () (es @ map (\<lambda>m. Print (m @ [CHR 0x0A])) ms)"
proof (induction ls ms arbitrary: es k rule: list_all2_induct)
  case Nil
  then show ?case by (simp add: exec_simps)
next
  case (Cons l ls m ms)
  from Cons(1) obtain c a where l: "length l = MAX_LINE" "reads_as l = Message \<lparr>msg_code = c, msg_message = a\<rparr>"
    "string_array 1024 a" "c_string a = m" by (auto simp: carries_def)
  with Cons(3) show ?case
    using reader_stc_exec [OF l(1)] c_arg_exec [of a]
    by (simp add: client_okD(3) [OF e] call_call call_shift exec_simps system_exec(6) [OF e] string_array_def)
qed

section \<open>The order of the list\<close>

text \<open>What \<open>qsort\<close> needs of the function it is given.\<close>

locale qsort_order =
  fixes cmp :: "'a \<Rightarrow> 'a \<Rightarrow> int"
  assumes cmp_total: "cmp a b \<le> 0 \<or> cmp b a \<le> 0"
    and cmp_trans: "cmp a b \<le> 0 \<Longrightarrow> cmp b c \<le> 0 \<Longrightarrow> cmp a c \<le> 0"
begin

abbreviation ordered :: "'a list \<Rightarrow> bool" where
  "ordered \<equiv> sorted_wrt (\<lambda>a b. cmp a b \<le> 0)"

lemma set_insert_by [simp]: "set (insert_by cmp x ys) = insert x (set ys)"
  by (induction ys) auto

lemma ordered_insert_by: "ordered ys \<Longrightarrow> ordered (insert_by cmp x ys)"
proof (induction ys)
  case (Cons y ys)
  then have y: "\<forall>z \<in> set ys. cmp y z \<le> 0" by simp
  show ?case
  proof (cases "cmp x y \<le> 0")
    case True
    with y have "\<forall>z \<in> set ys. cmp x z \<le> 0" using cmp_trans by blast
    with True Cons.prems show ?thesis by simp
  next
    case False
    then have "cmp y x \<le> 0" using cmp_total [of x y] by simp
    with False Cons show ?thesis by simp
  qed
qed simp

lemma ordered_qsort: "ordered (qsort cmp xs)"
  by (induction xs) (simp_all add: ordered_insert_by)

end

lemma mset_insert_by: "mset (insert_by cmp x ys) = add_mset x (mset ys)"
  by (induction ys) auto

lemma mset_qsort [simp]: "mset (qsort cmp xs) = mset xs"
  by (induction xs) (simp_all add: mset_insert_by)

lemma qsort_map: "qsort cmp (map f xs) = map f (qsort (\<lambda>a b. cmp (f a) (f b)) xs)"
proof -
  have "insert_by cmp (f x) (map f ys) = map f (insert_by (\<lambda>a b. cmp (f a) (f b)) x ys)" for x ys
    by (induction ys) simp_all
  then show ?thesis by (induction xs) simp_all
qed

lemma strcmp_total: "strcmp_sign a b \<le> 0 \<or> strcmp_sign b a \<le> 0"
  by (induction a b rule: strcmp_sign.induct) auto

lemma strcmp_trans: "strcmp_sign a b \<le> 0 \<Longrightarrow> strcmp_sign b c \<le> 0 \<Longrightarrow> strcmp_sign a c \<le> 0"
proof (induction a b arbitrary: c rule: strcmp_sign.induct)
  case (2 d ds)
  then show ?case by (cases c) simp_all
next
  case (4 x xs y ys)
  then obtain z zs where c: "c = z # zs" by (cases c) simp_all
  show ?case
  proof (cases "x = y \<and> y = z")
    case True
    with 4 have "strcmp_sign xs zs \<le> 0" unfolding c by simp
    with True show ?thesis by (simp add: c)
  next
    case False
    have "x \<noteq> y \<Longrightarrow> (of_char x :: nat) < of_char y" "y \<noteq> z \<Longrightarrow> (of_char y :: nat) < of_char z"
      using 4(2,3) unfolding c by (simp_all split: if_splits)
    with False have "(of_char x :: nat) < of_char z" by (cases "x = y"; cases "y = z") simp_all
    then show ?thesis by (auto simp: c)
  qed
qed simp_all

interpretation by_name: qsort_order compare_func
  by unfold_locales (auto simp: compare_func_def strcmp_total intro: strcmp_trans)

section \<open>The list of the boxes\<close>

definition box_text :: "box \<Rightarrow> string" where
  "box_text b = name_of b @ '' '' @ decimal (nat (box_size b)) @ '' '' @ decimal (nat (n_pub b)) @ '' '' @
     decimal (nat (n_subs b)) @ '' '' @ password_of b @ [CHR 0x0A]"

text \<open>The entry that the manager reads from a line.\<close>

definition entry_in :: "char list \<Rightarrow> list_manager_response \<Rightarrow> bool" where
  "entry_in l e \<longleftrightarrow> length l = MAX_LINE \<and> reads_as l = List_response e"

lemma receive_entries_exec:
  assumes e: "client_ok env"
  shows "list_all2 entry_in ls rs \<Longrightarrow> rs \<noteq> [] \<Longrightarrow> \<forall>r \<in> set (butlast rs). lr_last r \<noteq> 1 \<Longrightarrow>
    lr_last (last rs) = 1 \<Longrightarrow> receive_entries env slots counter ls = Inr rs"
proof (induction ls rs arbitrary: slots counter rule: list_all2_induct)
  case (Cons l ls r rs)
  then have l: "length l = MAX_LINE" "reads_as l = List_response r" by (simp_all add: entry_in_def)
  have m: "memory env = (\<lambda>_. True)" using e by (simp add: client_ok_def)
  note rd = reader_stc_exec [OF l(1), unfolded l(2)]
  show ?case
  proof (cases "rs = []")
    case True
    with Cons rd l m show ?thesis by simp
  next
    case False
    with Cons rd l m show ?thesis by (simp split: if_splits)
  qed
qed simp

lemma print_entries_exec:
  assumes e: "client_ok env"
  shows "(\<And>r. r \<in> set rs \<Longrightarrow> entry_printable r) \<Longrightarrow>
    print_entries rs es = Inr ((), es @ map (\<lambda>r. Print (entry_text r)) rs)"
  by (induction rs arbitrary: es) (simp_all add: exec_simps system_exec [OF e])

end
