(* ===== verification/Client_Correct.thy ===== *)
theory Client_Correct
  imports Client_Exec
begin

text \<open>
  The clients and the broker together: what is typed at a publisher is printed by the subscribers,
  what the manager asks for happens in the broker, and what the broker answers is printed.
\<close>

section \<open>Small clients\<close>

definition demo_client :: client_env where
  "demo_client = \<lparr>works = (\<lambda>_. True), pub_write = (\<lambda>_. Wrote MAX_LINE), memory = (\<lambda>_. True),
     raw_request = \<lparr>req_code = 0, req_pipe_name = replicate 256 NUL, req_box_name = replicate 32 NUL,
       req_box_password = replicate 5 NUL\<rparr>,
     raw_password = replicate 5 NUL, raw_message = zeros, raw_buffer = replicate MAX_LINE NUL\<rparr>"

lemma demo_client_ok [simp]: "client_ok demo_client"
  by (simp add: client_ok_def demo_client_def request_sized_def max_defs)

section \<open>Publishers and subscribers\<close>

lemma call_ret_id: "call m ret es = m es"
  by (simp add: call_def ret_def split: sum.split)

lemma stream_request_ok:
  assumes e: "client_ok env" and a: "stream_args argv" "length (argv ! 3) \<le> 30"
  shows "\<exists>r. (\<forall>es. stream_request c env argv es = Inr (r, es)) \<and> request_ok r \<and> req_code r = c \<and>
    c_string (req_pipe_name r) = argv ! 2 \<and> c_string (req_box_name r) = CHR ''/'' # argv ! 3 \<and>
    c_string (req_box_password r) = password_arg argv"
proof -
  note s = a(1) [unfolded stream_args_def] and raw = client_okD(5) [OF e]
  let ?r = "(raw_request env)\<lparr>req_code := c\<rparr>"
  have r: "request_sized ?r" using raw by (simp add: request_sized_def)
  note f = filled_ok [OF r, of "argv ! 2" "argv ! 3"]
  have pw: "length (req_box_password (filled ?r (argv ! 2) (argv ! 3))) = MAX_PASSWORD"
    using r by (simp add: filled_def request_sized_def max_defs)
  note w = with_password_ok [OF pw, of "password_arg argv"]
  have x: "stream_request c env argv es =
      Inr (with_password (filled ?r (argv ! 2) (argv ! 3)) (password_arg argv), es)" for es
    using stream_request_exec [OF a(1) raw, of c ret es] a(2) by (simp add: call_ret_id ret_def)
  show ?thesis
    using s a(2) f w
    by (intro exI [of _ "with_password (filled ?r (argv ! 2) (argv ! 3)) (password_arg argv)"])
      (simp add: x request_ok_def)
qed

lemma request_ok_sized: "request_ok r \<Longrightarrow> request_sized r"
  by (simp add: request_ok_def request_sized_def string_array_def)

lemma request_well_formed:
  "request_ok r \<Longrightarrow> req_code r \<in> {1, 2, 3, 5, 11} \<Longrightarrow> well_formed (Request r)"
  using request_ok_sized [of r] by (auto simp: code_defs)

lemma request_task:
  assumes "request_ok r" and "(req_code r, h) \<in> set handler_codes" and "req_code r \<in> {1, 2, 3, 5, 11}"
  shows "make_task (\<lambda>_. True) (line (layout (Request r))) =
    Inr \<lparr>function_of = Some h, request_of = Request r\<rparr>"
  using requests_dispatched [OF request_well_formed [OF assms(1,3)], of h] assms(2) by simp

lemma publisher_session:
  assumes e: "client_ok env" and a: "stream_args argv" "length (argv ! 3) \<le> 30"
    and ms: "\<And>m. m \<in> set ms \<Longrightarrow> typed m"
  shows "\<exists>r l ls. pub_main env argv (typed_text ms) [] = Inr (0,
      [Make_fifo (argv ! 2), Open_fifo (argv ! 1), Write_fifo (argv ! 1) l, Close_fifo (argv ! 1),
       Open_fifo (argv ! 2)] @ map (Write_fifo (argv ! 2)) ls @
      [Close_fifo (argv ! 2), Remove_fifo (argv ! 2)]) \<and>
    make_task (\<lambda>_. True) l = Inr \<lparr>function_of = Some H_pub, request_of = Request r\<rparr> \<and>
    request_ok r \<and> c_string (req_pipe_name r) = argv ! 2 \<and>
    c_string (req_box_name r) = CHR ''/'' # argv ! 3 \<and>
    c_string (req_box_password r) = password_arg argv \<and> list_all2 carries ls ms"
proof -
  from stream_request_ok [OF e a, of 1] obtain r where
    r: "\<And>es. stream_request 1 env argv es = Inr (r, es)" "request_ok r" "req_code r = 1"
      "c_string (req_pipe_name r) = argv ! 2" "c_string (req_box_name r) = CHR ''/'' # argv ! 3"
      "c_string (req_box_password r) = password_arg argv" by blast
  have wf: "well_formed (Request r)" using r(2,3) by (intro request_well_formed) simp_all
  have len: "length argv = 4 \<or> length argv = 5" using a(1) by (auto simp: stream_args_def)
  have "pub_main env argv (typed_text ms) [] = Inr (0,
      [Make_fifo (argv ! 2), Open_fifo (argv ! 1), Write_fifo (argv ! 1) (line (layout (Request r))),
       Close_fifo (argv ! 1), Open_fifo (argv ! 2)] @ map (Write_fifo (argv ! 2)) (map (pub_line env) ms) @
      [Close_fifo (argv ! 2), Remove_fifo (argv ! 2)])"
    using len wf
    by (auto simp: pub_main_def exec_simps r(1) system_exec [OF e] publish_text_exec [OF e ms] comp_def
      simp del: layout.simps well_formed.simps)
  moreover have "list_all2 carries (map (pub_line env) ms) ms"
    using pub_line_carries [OF e ms] by (simp add: list.rel_map list_all2_same)
  moreover have "make_task (\<lambda>_. True) (line (layout (Request r))) =
      Inr \<lparr>function_of = Some H_pub, request_of = Request r\<rparr>"
    using r(2,3) by (intro request_task) (simp_all add: handler_codes_def)
  ultimately show ?thesis using r(2,4-6) by blast
qed

lemma demo_args [simp]:
  "stream_args [''pub'', ''/tmp/r'', ''/tmp/p'', ''a'', ''pw'']"
  "password_arg [''pub'', ''/tmp/r'', ''/tmp/p'', ''a'', ''pw''] = ''pw''"
  "stream_args [''sub'', ''/tmp/r'', ''/tmp/s'', ''a'', ''pw'']"
  by (simp_all add: stream_args_def password_arg_def fits_array_def max_defs)

lemma subscriber_prints:
  assumes e: "client_ok env" and a: "stream_args argv" "length (argv ! 3) \<le> 30"
    and ls: "list_all2 carries ls ms"
  shows "\<exists>r l. sub_main env argv ls [] = Inr (- 1,
      [Open_fifo (argv ! 1), Write_fifo (argv ! 1) l, Close_fifo (argv ! 1), Make_fifo (argv ! 2),
       Open_fifo (argv ! 2)] @ map (\<lambda>m. Print (m @ [CHR 0x0A])) ms @
      [Close_fifo (argv ! 2), Remove_fifo (argv ! 2)]) \<and>
    make_task (\<lambda>_. True) l = Inr \<lparr>function_of = Some H_sub, request_of = Request r\<rparr> \<and>
    request_ok r \<and> c_string (req_pipe_name r) = argv ! 2 \<and>
    c_string (req_box_name r) = CHR ''/'' # argv ! 3 \<and>
    c_string (req_box_password r) = password_arg argv"
proof -
  from stream_request_ok [OF e a, of 2] obtain r where
    r: "\<And>es. stream_request 2 env argv es = Inr (r, es)" "request_ok r" "req_code r = 2"
      "c_string (req_pipe_name r) = argv ! 2" "c_string (req_box_name r) = CHR ''/'' # argv ! 3"
      "c_string (req_box_password r) = password_arg argv" by blast
  have wf: "well_formed (Request r)" using r(2,3) by (intro request_well_formed) simp_all
  have len: "length argv = 4 \<or> length argv = 5" using a(1) by (auto simp: stream_args_def)
  have "sub_main env argv ls [] = Inr (- 1,
      [Open_fifo (argv ! 1), Write_fifo (argv ! 1) (line (layout (Request r))), Close_fifo (argv ! 1),
       Make_fifo (argv ! 2), Open_fifo (argv ! 2)] @ map (\<lambda>m. Print (m @ [CHR 0x0A])) ms @
      [Close_fifo (argv ! 2), Remove_fifo (argv ! 2)])"
    using len wf
    by (auto simp: sub_main_def exec_simps r(1) system_exec [OF e] print_messages_exec [OF e ls]
      simp del: layout.simps well_formed.simps)
  moreover have "make_task (\<lambda>_. True) (line (layout (Request r))) =
      Inr \<lparr>function_of = Some H_sub, request_of = Request r\<rparr>"
    using r(2,3) by (intro request_task) (simp_all add: handler_codes_def)
  ultimately show ?thesis using r(2,4-6) by blast
qed

text \<open>C2: From the keyboard of the publisher to the screen of the subscriber: the lines of text that
  are typed at a publisher reach, through its pipe, the handler in the broker, the file of the box
  and the handler of a waiting subscriber, the subscriber's terminal, which prints each of them
  once and in the order in which they were typed.  The text has to be lines of 1 to 1022
  characters, the client pipes and the system calls have to work, the box must exist with the password
  that the publisher gives and without another publisher, its file and the open file table must have
  room, and the memory that the broker reads without having set it must be zero: the buffer
  \<open>teste\<close> of the subscriber's handler and the rest of the block of the file (see
  \<open>first_message_unterminated\<close> and \<open>tfs_read_past_end\<close> for what happens otherwise).\<close>

theorem typed_messages_are_printed:
  assumes p: "client_ok cp" "stream_args argv" "length (argv ! 3) \<le> 30"
    and c: "client_ok cs" "stream_args argv'" "length (argv' ! 3) \<le> 30"
    and ms: "ms \<noteq> []" "\<And>m. m \<in> set ms \<Longrightarrow> typed m \<and> m \<noteq> []"
    and b: "\<And>r. request_ok r \<Longrightarrow> c_string (req_pipe_name r) = argv ! 2 \<Longrightarrow>
      c_string (req_box_name r) = CHR ''/'' # argv ! 3 \<Longrightarrow>
      c_string (req_box_password r) = password_arg argv \<Longrightarrow> may_publish env r j i fi ms s"
    and small: "length (contents (tfs s) fi) + length (stored ms) < BLOCK_SIZE (tfs s)"
    and sub: "subscribed env' q j' h i fi s" "j' \<noteq> j"
    and zero: "raw_text env' = zeros" "blank_after (tfs s) fi" and fuel: "Suc (length ms) < fuel"
  shows "\<exists>registered l ls t u ls' printed task. 
    pub_main cp argv (typed_text ms) [] = Inr (0, registered @ map (Write_fifo (argv ! 2)) ls @
      [Close_fifo (argv ! 2), Remove_fifo (argv ! 2)]) \<and>
    Write_fifo (argv ! 1) l \<in> set registered \<and> make_task (\<lambda>_. True) l = Inr task \<and>
    run_task env fuel j ls task s = Inr ((), t) \<and>
    sub_loop fuel env' q j' (int h) t = Inr (Waiting, u) \<and>
    pipes u = pipes t @ map (Sent (c_string q)) ls' \<and>
    sub_main cs argv' ls' [] = Inr (- 1, printed) \<and>
    [e \<leftarrow> printed. \<exists>v. e = Print v] = map (\<lambda>m. Print (m @ [CHR 0x0A])) ms"
proof -
  have ty: "\<And>m. m \<in> set ms \<Longrightarrow> typed m" using ms(2) by blast
  from publisher_session [OF p ty] obtain r l ls where
    r: "pub_main cp argv (typed_text ms) [] = Inr (0,
        [Make_fifo (argv ! 2), Open_fifo (argv ! 1), Write_fifo (argv ! 1) l, Close_fifo (argv ! 1),
         Open_fifo (argv ! 2)] @ map (Write_fifo (argv ! 2)) ls @
        [Close_fifo (argv ! 2), Remove_fifo (argv ! 2)])"
      "make_task (\<lambda>_. True) l = Inr \<lparr>function_of = Some H_pub, request_of = Request r\<rparr>"
      "request_ok r" "c_string (req_pipe_name r) = argv ! 2" "c_string (req_box_name r) = CHR ''/'' # argv ! 3"
      "c_string (req_box_password r) = password_arg argv" "list_all2 carries ls ms" by blast
  have mo: "message_ok m" if "m \<in> set ms" for m
    using ms(2) [OF that] by (simp add: message_ok_def typed_def)
  from session_delivered [OF b [OF r(3-6)] r(7) ms(1) mo small sub zero fuel] obtain t u ls' where
    t: "process_pub env r j ls s = Inr ((), t)" "sub_loop fuel env' q j' (int h) t = Inr (Waiting, u)"
      "pipes u = pipes t @ map (Sent (c_string q)) ls'" "list_all2 carries ls' ms" by blast
  from subscriber_prints [OF c t(4)] obtain l' where
    sm: "sub_main cs argv' ls' [] = Inr (- 1,
      [Open_fifo (argv' ! 1), Write_fifo (argv' ! 1) l', Close_fifo (argv' ! 1), Make_fifo (argv' ! 2),
       Open_fifo (argv' ! 2)] @ map (\<lambda>m. Print (m @ [CHR 0x0A])) ms @
      [Close_fifo (argv' ! 2), Remove_fifo (argv' ! 2)])" by blast
  have run: "run_task env fuel j ls \<lparr>function_of = Some H_pub, request_of = Request r\<rparr> s = Inr ((), t)"
    using t(1) by (simp add: run_task_def)
  show ?thesis
    using r(1,2) run t(2,3) sm
    by (intro exI [of _ "[Make_fifo (argv ! 2), Open_fifo (argv ! 1), Write_fifo (argv ! 1) l,
          Close_fifo (argv ! 1), Open_fifo (argv ! 2)]"] exI [of _ l] exI [of _ ls] exI [of _ t]
        exI [of _ u] exI [of _ ls'] exI conjI) (assumption | simp add: filter_map comp_def)+
qed

theorem typed_messages_are_printed_witness:
  "\<exists>t u ls ls' task printed.
    run_task demo_env 3 0 ls task (demo_broker demo2) = Inr ((), t) \<and>
    sub_loop 3 demo_env (array_of 256 ''/tmp/s'') 1 0 t = Inr (Waiting, u) \<and>
    pipes u = pipes t @ map (Sent ''/tmp/s'') ls' \<and>
    sub_main demo_client [''sub'', ''/tmp/r'', ''/tmp/s'', ''a'', ''pw''] ls' [] = Inr (- 1, printed) \<and>
    [e \<leftarrow> printed. \<exists>v. e = Print v] = [Print (''x'' @ [CHR 0x0A])]"
proof -
  let ?p = "[''pub'', ''/tmp/r'', ''/tmp/p'', ''a'', ''pw'']" and ?s = "[''sub'', ''/tmp/r'', ''/tmp/s'', ''a'', ''pw'']"
  have b: "may_publish demo_env r 0 0 1 [''x''] (demo_broker demo2)"
    if "request_ok r" "c_string (req_pipe_name r) = ?p ! 2" "c_string (req_box_name r) = CHR ''/'' # ?p ! 3"
      "c_string (req_box_password r) = password_arg ?p" for r
    using demo_may_publish that by (simp add: may_publish_def names_box_def)
  have "\<exists>registered l ls t u ls' printed task.
      pub_main demo_client ?p (typed_text [''x'']) [] = Inr (0, registered @ map (Write_fifo (?p ! 2)) ls @
        [Close_fifo (?p ! 2), Remove_fifo (?p ! 2)]) \<and>
      Write_fifo (?p ! 1) l \<in> set registered \<and> make_task (\<lambda>_. True) l = Inr task \<and>
      run_task demo_env 3 0 ls task (demo_broker demo2) = Inr ((), t) \<and>
      sub_loop 3 demo_env (array_of 256 ''/tmp/s'') 1 (int 0) t = Inr (Waiting, u) \<and>
      pipes u = pipes t @ map (Sent (c_string (array_of 256 ''/tmp/s''))) ls' \<and>
      sub_main demo_client ?s ls' [] = Inr (- 1, printed) \<and>
      [e \<leftarrow> printed. \<exists>v. e = Print v] = map (\<lambda>m. Print (m @ [CHR 0x0A])) [''x'']"
    by (rule typed_messages_are_printed [OF demo_client_ok demo_args(1) _ demo_client_ok demo_args(3) _ _ _ b _
        demo_subscribed])
      (simp_all add: typed_def demo2_contents demo2_fields demo2_blank [simplified] demo_params_def)
  then obtain ls t u ls' printed task where
    "run_task demo_env 3 0 ls task (demo_broker demo2) = Inr ((), t)"
    "sub_loop 3 demo_env (array_of 256 ''/tmp/s'') 1 (int 0) t = Inr (Waiting, u)"
    "pipes u = pipes t @ map (Sent (c_string (array_of 256 ''/tmp/s''))) ls'"
    "sub_main demo_client ?s ls' [] = Inr (- 1, printed)"
    "[e \<leftarrow> printed. \<exists>v. e = Print v] = map (\<lambda>m. Print (m @ [CHR 0x0A])) [''x'']" by blast
  then show ?thesis
    by (intro exI [of _ t] exI [of _ u] exI [of _ ls] exI [of _ ls'] exI [of _ task] exI [of _ printed]) simp
qed

text \<open>The clients copy their arguments with \<open>strcpy\<close> and \<open>strcat\<close> without a test of the length:
  a box name of more than 30 characters is written past the end of a local array.\<close>

theorem long_box_name_overflows:
  assumes "stream_args argv" and "request_sized (raw_request env)" and "30 < length (argv ! 3)"
  shows "pub_main env argv input [] = Inl OutOfBounds \<and> sub_main env argv inputs [] = Inl OutOfBounds"
proof -
  have "length argv = 4 \<or> length argv = 5" using assms(1) by (auto simp: stream_args_def)
  then show ?thesis
    using assms(3) by (auto simp: pub_main_def sub_main_def call_ret stream_request_exec [OF assms(1,2)])
qed

theorem long_box_name_overflows_witness:
  "pub_main demo_client [''pub'', ''/tmp/r'', ''/tmp/p'', replicate 31 (CHR ''a'')] [] [] = Inl OutOfBounds \<and>
   sub_main demo_client [''pub'', ''/tmp/r'', ''/tmp/p'', replicate 31 (CHR ''a'')] [] [] = Inl OutOfBounds"
  by (rule long_box_name_overflows)
    (simp_all add: stream_args_def password_arg_def fits_array_def demo_client_def request_sized_def max_defs)

section \<open>The manager\<close>

definition box_args :: "string list \<Rightarrow> bool" where
  "box_args argv \<longleftrightarrow> length argv \<in> {5, 6} \<and> fits_array MAX_PIPE_NAME (argv ! 2) \<and>
     NUL \<notin> set (argv ! 4) \<and> length (argv ! 4) \<le> 30 \<and>
     (length argv = 6 \<longrightarrow> fits_array MAX_PASSWORD (argv ! 5))"

definition box_password_arg :: "string list \<Rightarrow> string" where
  "box_password_arg argv = (if length argv = 5 then [] else argv ! 5)"

definition box_codes :: "(string \<times> 8 word) list" where
  "box_codes = [(''create'', 3), (''remove'', 5), (''unlock'', 11)]"

definition answer_text :: "32 word \<Rightarrow> string \<Rightarrow> string" where
  "answer_text rc v = (if rc = - 1 then ''ERROR '' @ v @ [CHR 0x0A] else ''OK'' @ [CHR 0x0A])"

text \<open>The request of a command line with a box and its password.\<close>

lemma box_request:
  assumes e: "client_ok env" and a: "box_args argv"
  shows "\<exists>r. request_ok r \<and> c_string (req_pipe_name r) = argv ! 2 \<and>
    c_string (req_box_name r) = CHR ''/'' # argv ! 4 \<and> c_string (req_box_password r) = box_password_arg argv \<and>
    (\<forall>k es. call (fill_names (raw_request env) argv 4) (\<lambda>r0.
       call (if length argv = 5 then set_password r0 (replicate MAX_PASSWORD NUL)
             else call (arg argv 5) (\<lambda>pw.
               set_password (r0\<lparr>req_box_password := replicate MAX_PASSWORD NUL\<rparr>) pw)) k) es = (k r es :: fault + int \<times> client_io list))"
proof -
  note s = a [unfolded box_args_def] and raw = client_okD(5) [OF e]
  let ?f = "filled (raw_request env) (argv ! 2) (argv ! 4)"
  let ?z = "?f\<lparr>req_box_password := replicate MAX_PASSWORD NUL\<rparr>"
  note f = filled_ok [OF raw, of "argv ! 2" "argv ! 4"]
  have pw: "length (req_box_password ?f) = MAX_PASSWORD" "length (req_box_password ?z) = MAX_PASSWORD"
    using raw by (simp_all add: filled_def request_sized_def max_defs)
  have no: "fits_array MAX_PASSWORD []" by (simp add: fits_array_def max_defs)
  show ?thesis
  proof (cases "length argv = 5")
    case True
    with s f with_password_ok [OF pw(1) no] show ?thesis
      by (intro exI [of _ "with_password ?f []"])
        (simp add: request_ok_def box_password_arg_def fill_names_exec [OF raw] set_no_password_exec [OF pw(1)])
  next
    case False
    with s f with_password_ok [OF pw(2), of "argv ! 5"] show ?thesis
      by (intro exI [of _ "with_password ?z (argv ! 5)"])
        (simp add: request_ok_def box_password_arg_def
          fill_names_exec [OF raw] call_call exec_simps set_password_exec [OF pw(2)])
  qed
qed

lemma manager_create_remove_exec:
  assumes e: "client_ok env" and r: "request_ok r" "req_code r \<in> {3, 5, 11}"
    and l: "answer_line a rc v l"
  shows "call (manager_create_remove env (Request r) pipe reg (req_code r) l) k es = k () (es @
    [Open_fifo reg, Write_fifo reg (line (layout (Request r))), Close_fifo reg, Make_fifo pipe, Open_fifo pipe,
     Print (answer_text rc v), Close_fifo pipe, Remove_fifo pipe])"
proof -
  have wf: "well_formed (Request r)" using r by (intro request_well_formed) auto
  from l obtain m where m: "length l = MAX_LINE" "reader_stc (\<lambda>_. True) l = Inr (Response m, l)"
    "resp_return_code m = rc" "NUL \<in> set (resp_error_message m)" "c_string (resp_error_message m) = v"
    by (auto simp: answer_line_def)
  have t: "c_arg (resp_error_message m) = Inr v" using m(4,5) by (simp add: c_arg_exec)
  show ?thesis
    using r(2) m wf t
    by (auto simp: manager_create_remove_def manager_request_def call_call exec_simps system_exec [OF e]
      client_okD(3,8) [OF e] answer_text_def simp del: layout.simps well_formed.simps)
qed

lemma box_command_exec:
  assumes e: "client_ok env" and a: "box_args argv" and c: "(argv ! 3, c) \<in> set box_codes"
  shows "\<exists>r. request_ok r \<and> req_code r = c \<and> c_string (req_pipe_name r) = argv ! 2 \<and>
    c_string (req_box_name r) = CHR ''/'' # argv ! 4 \<and> c_string (req_box_password r) = box_password_arg argv \<and>
    (\<forall>a rc v l. answer_line a rc v l \<longrightarrow> manager_main env argv [l] [] = Inr (0,
      [Open_fifo (argv ! 1), Write_fifo (argv ! 1) (line (layout (Request r))), Close_fifo (argv ! 1),
       Make_fifo (argv ! 2), Open_fifo (argv ! 2), Print (answer_text rc v), Close_fifo (argv ! 2),
       Remove_fifo (argv ! 2)]))"
proof -
  from box_request [OF e a] obtain r0 where
    r: "request_ok r0" "c_string (req_pipe_name r0) = argv ! 2" "c_string (req_box_name r0) = CHR ''/'' # argv ! 4"
      "c_string (req_box_password r0) = box_password_arg argv"
      "\<And>k es. call (fill_names (raw_request env) argv 4) (\<lambda>r0.
         call (if length argv = 5 then set_password r0 (replicate MAX_PASSWORD NUL)
               else call (arg argv 5) (\<lambda>pw.
                 set_password (r0\<lparr>req_box_password := replicate MAX_PASSWORD NUL\<rparr>) pw)) k) es =
        (k r0 es :: fault + int \<times> client_io list)" by blast
  let ?r = "r0\<lparr>req_code := c\<rparr>"
  have ro: "request_ok ?r" using r(1) by (simp add: request_ok_def)
  have len: "length argv = 5 \<or> length argv = 6" using a by (auto simp: box_args_def)
  have cc: "argv ! 3 = ''create'' \<and> c = 3 \<or> argv ! 3 = ''remove'' \<and> c = 5 \<or> argv ! 3 = ''unlock'' \<and> c = 11"
    using c by (auto simp: box_codes_def)
  then have "req_code ?r \<in> {3, 5, 11}" by auto
  then have "manager_main env argv [l] [] = Inr (0,
      [Open_fifo (argv ! 1), Write_fifo (argv ! 1) (line (layout (Request ?r))), Close_fifo (argv ! 1),
       Make_fifo (argv ! 2), Open_fifo (argv ! 2), Print (answer_text rc v), Close_fifo (argv ! 2),
       Remove_fifo (argv ! 2)])" if "answer_line a rc v l" for a rc v l
    using cc len manager_create_remove_exec [OF e ro _ that, of "argv ! 2" "argv ! 1" "\<lambda>_. ret 0" "[]"]
    by (auto simp: manager_main_def box_command_def r(5) exec_simps Let_def ret_def simp del: layout.simps)
  then show ?thesis using r ro by (intro exI [of _ ?r]) simp
qed

text \<open>C8: The manager's command \<open>create\<close>, from the command line to the answer on the screen: its
  request reaches the handler in the broker, which takes an entry of the table for a box of that
  name and password and adds an empty file of that name to the file system; the manager reads the
  line that the broker sends it, and prints \<open>OK\<close>.\<close>

theorem manager_creates_box:
  assumes m: "client_ok env'" "box_args argv" "argv ! 3 = ''create''"
    and inv: "broker_inv s" and e: "env_ok env" "can_open env (argv ! 2)" "can_close env"
      "write_answer env 0 = Wrote MAX_LINE"
    and j: "j < length (thread_pool s)" and v: "v = CHR ''/'' # argv ! 4"
    and new: "position s v = None" "lookup (tfs s) (Some v) = - 1" and k: "unused s = Some k"
    and path: "path_entry (Some v) = Some w" "valid_name w"
    and room: "FREE \<in> set (freeinode_ts (tfs s))" "- 1 \<in> snd ` set (root_dents (tfs s))"
      "FREE \<in> set (free_open_file_entries (tfs s))"
  shows "\<exists>sent answer task t i. manager_main env' argv [answer] [] = Inr (0,
      [Open_fifo (argv ! 1), Write_fifo (argv ! 1) sent, Close_fifo (argv ! 1), Make_fifo (argv ! 2),
       Open_fifo (argv ! 2), Print (''OK'' @ [CHR 0x0A]), Close_fifo (argv ! 2), Remove_fifo (argv ! 2)]) \<and>
    make_task (\<lambda>_. True) sent = Inr task \<and> run_task env fuel j inputs task s = Inr ((), t) \<and>
    pipes t = pipes s @ [Opened (argv ! 2), Sent (argv ! 2) answer, Closed (argv ! 2)] \<and>
    name_of (server_boxes t ! k) = v \<and> password_of (server_boxes t ! k) = box_password_arg argv \<and>
    box_free (server_boxes t ! k) = 1 \<and>
    names (tfs t) = (names (tfs s))(w \<mapsto> i) \<and> contents (tfs t) i = [] \<and> broker_inv t"
proof -
  have "(argv ! 3, 3) \<in> set box_codes" using m(3) by (simp add: box_codes_def)
  from box_command_exec [OF m(1,2) this] obtain r where
    r: "request_ok r" "req_code r = 3" "c_string (req_pipe_name r) = argv ! 2" "c_string (req_box_name r) = v"
      "c_string (req_box_password r) = box_password_arg argv"
      "\<And>a rc v l. answer_line a rc v l \<Longrightarrow> manager_main env' argv [l] [] = Inr (0,
        [Open_fifo (argv ! 1), Write_fifo (argv ! 1) (line (layout (Request r))), Close_fifo (argv ! 1),
         Make_fifo (argv ! 2), Open_fifo (argv ! 2), Print (answer_text rc v), Close_fifo (argv ! 2),
         Remove_fifo (argv ! 2)])" unfolding v by blast
  have "pipe_ok env (req_pipe_name r)" using e r(3) by (simp add: pipe_ok_def)
  from box_created [OF inv r(1) e(1) this j r(4) [symmetric] new k path room] obtain t i where
    t: "process_manager_create env r j s = Inr ((), t)" "broker_inv t" "answered (req_pipe_name r) 4 0 [] s t"
      "name_of (server_boxes t ! k) = v" "box_free (server_boxes t ! k) = 1"
      "password_of (server_boxes t ! k) = c_string (req_box_password r)"
      "names (tfs t) = (names (tfs s))(w \<mapsto> i)" "contents (tfs t) i = []" by blast
  from t(3) r(3) obtain l where
    l: "pipes t = pipes s @ [Opened (argv ! 2), Sent (argv ! 2) l, Closed (argv ! 2)]" "answer_line 4 0 [] l"
    by (auto simp: answered_def)
  have "make_task (\<lambda>_. True) (line (layout (Request r))) =
      Inr \<lparr>function_of = Some H_create, request_of = Request r\<rparr>"
    using r(1,2) by (intro request_task) (simp_all add: handler_codes_def)
  moreover have "run_task env fuel j inputs \<lparr>function_of = Some H_create, request_of = Request r\<rparr> s = Inr ((), t)"
    using t(1) by (simp add: run_task_def)
  moreover have "manager_main env' argv [l] [] = Inr (0,
      [Open_fifo (argv ! 1), Write_fifo (argv ! 1) (line (layout (Request r))), Close_fifo (argv ! 1),
       Make_fifo (argv ! 2), Open_fifo (argv ! 2), Print (''OK'' @ [CHR 0x0A]), Close_fifo (argv ! 2),
       Remove_fifo (argv ! 2)])"
    using r(6) [OF l(2)] by (simp add: answer_text_def)
  ultimately show ?thesis using l(1) t(2,4-8) r(5) by metis
qed

theorem manager_creates_box_witness:
  "\<exists>sent answer task t. manager_main demo_client [''manager'', ''/tmp/r'', ''/tmp/p'', ''create'', ''b''] [answer] [] =
      Inr (0, [Open_fifo ''/tmp/r'', Write_fifo ''/tmp/r'' sent, Close_fifo ''/tmp/r'', Make_fifo ''/tmp/p'',
        Open_fifo ''/tmp/p'', Print (''OK'' @ [CHR 0x0A]), Close_fifo ''/tmp/p'', Remove_fifo ''/tmp/p'']) \<and>
    make_task (\<lambda>_. True) sent = Inr task \<and>
    run_task demo_env 0 0 [] task (demo_broker demo2) = Inr ((), t) \<and>
    name_of (server_boxes t ! 1) = ''/b''"
proof -
  let ?a = "[''manager'', ''/tmp/r'', ''/tmp/p'', ''create'', ''b'']"
  have a: "box_args ?a" by (simp add: box_args_def fits_array_def max_defs)
  have "\<exists>sent answer task t i. manager_main demo_client ?a [answer] [] = Inr (0,
        [Open_fifo (?a ! 1), Write_fifo (?a ! 1) sent, Close_fifo (?a ! 1), Make_fifo (?a ! 2),
         Open_fifo (?a ! 2), Print (''OK'' @ [CHR 0x0A]), Close_fifo (?a ! 2), Remove_fifo (?a ! 2)]) \<and>
      make_task (\<lambda>_. True) sent = Inr task \<and> run_task demo_env 0 0 [] task (demo_broker demo2) = Inr ((), t) \<and>
      pipes t = pipes (demo_broker demo2) @ [Opened (?a ! 2), Sent (?a ! 2) answer, Closed (?a ! 2)] \<and>
      name_of (server_boxes t ! 1) = ''/b'' \<and> password_of (server_boxes t ! 1) = box_password_arg ?a \<and>
      box_free (server_boxes t ! 1) = 1 \<and>
      names (tfs t) = (names (tfs (demo_broker demo2)))(''b'' \<mapsto> i) \<and> contents (tfs t) i = [] \<and> broker_inv t"
    by (rule manager_creates_box [OF demo_client_ok a])
      (simp_all add: demo_broker_inv demo2_inv path_entry_def valid_name_def lookup_def demo2_dents demo2_fields)
  then obtain sent answer task t where
    "manager_main demo_client ?a [answer] [] = Inr (0,
        [Open_fifo (?a ! 1), Write_fifo (?a ! 1) sent, Close_fifo (?a ! 1), Make_fifo (?a ! 2),
         Open_fifo (?a ! 2), Print (''OK'' @ [CHR 0x0A]), Close_fifo (?a ! 2), Remove_fifo (?a ! 2)])"
    "make_task (\<lambda>_. True) sent = Inr task" "run_task demo_env 0 0 [] task (demo_broker demo2) = Inr ((), t)"
    "name_of (server_boxes t ! 1) = ''/b''" by blast
  then show ?thesis by (intro exI [of _ sent] exI [of _ answer] exI [of _ task] exI [of _ t]) simp
qed

section \<open>The list\<close>

text \<open>The boxes in the order in which \<open>compare_func\<close> sorts the entries the manager receives.\<close>

lemma listed_entries:
  assumes e: "client_ok env" and ls: "\<And>k. k < n \<Longrightarrow> lists_box (bs ! k) (Suc k = n) (ls ! k)"
    and len: "length ls = n" "length bs = n" "0 < n"
  shows "\<exists>rs xs. receive_entries env slots counter ls = Inr rs \<and>
    c_string (lr_box_name (last rs)) = name_of (last bs) \<and> NUL \<in> set (lr_box_name (last rs)) \<and>
    (\<forall>r \<in> set (qsort compare_func rs). entry_printable r) \<and>
    map entry_text (qsort compare_func rs) = map box_text xs \<and> mset xs = mset bs \<and>
    sorted_wrt (\<lambda>a b. strcmp_sign (name_of a) (name_of b) \<le> 0) xs"
proof -
  have "\<forall>k. \<exists>x. k < n \<longrightarrow> entry_in (ls ! k) x \<and> entry_printable x \<and>
      c_string (lr_box_name x) = name_of (bs ! k) \<and> entry_text x = box_text (bs ! k) \<and>
      lr_last x = (if Suc k = n then 1 else 0)"
  proof
    fix k
    show "\<exists>x. k < n \<longrightarrow> entry_in (ls ! k) x \<and> entry_printable x \<and>
      c_string (lr_box_name x) = name_of (bs ! k) \<and> entry_text x = box_text (bs ! k) \<and>
      lr_last x = (if Suc k = n then 1 else 0)"
    proof (cases "k < n")
      case True
      from ls [OF True] obtain x where x: "reader_stc (\<lambda>_. True) (ls ! k) = Inr (List_response x, ls ! k)"
        "length (ls ! k) = MAX_LINE" "NUL \<in> set (lr_box_name x)" "NUL \<in> set (lr_box_password x)"
        "c_string (lr_box_name x) = name_of (bs ! k)" "uint (lr_box_size x) = box_size (bs ! k)"
        "uint (lr_n_pubs x) = n_pub (bs ! k)" "uint (lr_n_subs x) = n_subs (bs ! k)"
        "c_string (lr_box_password x) = password_of (bs ! k)" "lr_last x = (if Suc k = n then 1 else 0)"
        by (auto simp: lists_box_def)
      have "unat (lr_box_size x) = nat (box_size (bs ! k))" "unat (lr_n_pubs x) = nat (n_pub (bs ! k))"
        "unat (lr_n_subs x) = nat (n_subs (bs ! k))"
        by (simp_all only: x(6-8) [symmetric] unat_eq_nat_uint)
      with x reader_stc_exec [OF x(2)] show ?thesis
        by (intro exI [of _ x]) (simp add: entry_in_def entry_printable_def entry_text_def box_text_def)
    qed simp
  qed
  from choice [OF this] obtain f where "\<forall>k. k < n \<longrightarrow> entry_in (ls ! k) (f k) \<and> entry_printable (f k) \<and>
      c_string (lr_box_name (f k)) = name_of (bs ! k) \<and> entry_text (f k) = box_text (bs ! k) \<and>
      lr_last (f k) = (if Suc k = n then 1 else 0)" ..
  then have f: "\<And>k. k < n \<Longrightarrow> entry_in (ls ! k) (f k)" "\<And>k. k < n \<Longrightarrow> entry_printable (f k)"
    "\<And>k. k < n \<Longrightarrow> c_string (lr_box_name (f k)) = name_of (bs ! k)"
    "\<And>k. k < n \<Longrightarrow> entry_text (f k) = box_text (bs ! k)"
    "\<And>k. k < n \<Longrightarrow> lr_last (f k) = (if Suc k = n then 1 else 0)" by simp_all
  obtain m where m: "n = Suc m" using len(3) by (cases n) simp_all
  let ?rs = "map f [0 ..< n]"
  define ix where "ix = qsort (\<lambda>a b. compare_func (f a) (f b)) [0 ..< n]"
  have mi: "mset ix = mset [0 ..< n]" by (simp only: ix_def mset_qsort)
  then have si: "set ix = {0 ..< n}" by (metis atLeastLessThan_upt set_mset_mset)
  have q: "qsort compare_func ?rs = map f ix" by (simp only: qsort_map ix_def)
  let ?xs = "map (nth bs) ix"
  have "receive_entries env slots counter ls = Inr ?rs"
  proof (rule receive_entries_exec [OF e])
    show "list_all2 entry_in ls ?rs" using f(1) len(1) by (simp add: list_all2_conv_all_nth)
  qed (auto simp: m f(5))
  moreover have "sorted_wrt (\<lambda>a b. compare_func a b \<le> 0) (map f ix)"
    using by_name.ordered_qsort [of ?rs] by (simp only: q)
  then have "sorted_wrt (\<lambda>a b. strcmp_sign (name_of a) (name_of b) \<le> 0) ?xs"
    unfolding sorted_wrt_map
    by (rule sorted_wrt_mono_rel [rotated]) (simp add: si compare_func_def f(3))
  moreover have "mset ?xs = mset bs"
  proof -
    have "mset ?xs = image_mset (nth bs) (mset ix)" by (rule mset_map)
    also have "\<dots> = mset (map (nth bs) [0 ..< n])" by (simp only: mi mset_map)
    also have "map (nth bs) [0 ..< n] = bs" using len(2) map_nth [of bs] by simp
    finally show ?thesis .
  qed
  moreover have "map entry_text (map f ix) = map box_text ?xs" using f(4) si by simp
  moreover have "bs \<noteq> []" using len(2,3) by auto
  then have lb: "last bs = bs ! m" using len(2) by (simp add: last_conv_nth m)
  have "c_string (lr_box_name (last ?rs)) = name_of (last bs)" "NUL \<in> set (lr_box_name (last ?rs))"
    using f(2,3) [of m] lb by (simp_all add: m entry_printable_def)
  ultimately show ?thesis
    using f(2) si unfolding q by (intro exI [of _ ?rs] exI [of _ ?xs]) (simp add: q)
qed

lemma printed_like:
  assumes "client_ok env" and "\<forall>r \<in> set rs. entry_printable r" and "map entry_text rs = map box_text bs"
  shows "print_entries rs es = Inr ((), es @ map (\<lambda>b. Print (box_text b)) bs)"
proof -
  have "map (\<lambda>r. Print (entry_text r)) rs = map Print (map entry_text rs)" by simp
  also have "\<dots> = map (\<lambda>b. Print (box_text b)) bs" by (simp only: assms(3)) simp
  finally show ?thesis using print_entries_exec [OF assms(1), of rs es] assms(2) by simp
qed

text \<open>C10: The manager's command \<open>list\<close>: its request reaches the handler in the broker, and from the
  lines of the answer the manager prints one line per used box, with its name, size, numbers of
  publishers and subscribers and its password, in the order of the names; every used box is printed
  exactly once.\<close>

theorem manager_prints_sorted_list:
  assumes m: "client_ok env'" "length argv = 4" "fits_array MAX_PIPE_NAME (argv ! 2)"
    and inv: "broker_inv s" and e: "env_ok env" "can_open env (argv ! 2)" "can_close env"
      "\<And>n. write_answer env n = Wrote MAX_LINE"
    and used: "used_boxes s \<noteq> []" "\<And>b. b \<in> set (used_boxes s) \<Longrightarrow> counters_ok b \<and> name_of b \<noteq> []"
  shows "\<exists>sent task t ls bs. manager_main env' argv ls [] = Inr (0,
      [Open_fifo (argv ! 1), Write_fifo (argv ! 1) sent, Close_fifo (argv ! 1), Make_fifo (argv ! 2),
       Open_fifo (argv ! 2), Close_fifo (argv ! 2)] @ map (\<lambda>b. Print (box_text b)) bs @ [Remove_fifo (argv ! 2)]) \<and>
    make_task (\<lambda>_. True) sent = Inr task \<and> run_task env fuel j inputs task s = Inr ((), t) \<and>
    pipes t = pipes s @ [Opened (argv ! 2)] @ map (Sent (argv ! 2)) ls @ [Closed (argv ! 2)] \<and>
    mset bs = mset (used_boxes s) \<and> sorted_wrt (\<lambda>a b. strcmp_sign (name_of a) (name_of b) \<le> 0) bs"
proof -
  define a where "a = copied (req_pipe_name (raw_request env')) (argv ! 2 @ [NUL])"
  have raw: "length (req_pipe_name (raw_request env')) = MAX_PIPE_NAME"
    using client_okD(5) [OF m(1)] by (simp add: request_sized_def)
  have cp: "strcpy_to (req_pipe_name (raw_request env')) (argv ! 2 @ [NUL]) = Inr a"
    using raw m(3) unfolding a_def by (intro strcpy_to_exec) (simp_all add: fits_array_def)
  have a: "length a = MAX_PIPE_NAME" "NUL \<in> set a" "c_string a = argv ! 2"
    using raw m(3) by (simp_all add: a_def fits_array_def)
  let ?q = "\<lparr>lq_code = 7, lq_pipe_name = a\<rparr>"
  have wf: "well_formed (List_request ?q)" using a by (simp add: max_defs)
  from boxes_listed [OF inv e(1), of ?q j] a e(2-4) used obtain t ls where
    t: "process_manager_list env ?q j s = Inr ((), t)"
      "pipes t = pipes s @ [Opened (argv ! 2)] @ map (Sent (argv ! 2)) ls @ [Closed (argv ! 2)]"
      "length ls = length (used_boxes s)"
      "\<And>k. k < length ls \<Longrightarrow> lists_box (used_boxes s ! k) (Suc k = length ls) (ls ! k)" by auto
  have "0 < length ls" using t(3) used(1) by simp
  from listed_entries [OF m(1) t(4) refl t(3) [symmetric] this, of 100 0] obtain rs xs where
    r: "receive_entries env' 100 0 ls = Inr rs" "c_string (lr_box_name (last rs)) = name_of (last (used_boxes s))"
      "NUL \<in> set (lr_box_name (last rs))" "\<forall>r \<in> set (qsort compare_func rs). entry_printable r"
      "map entry_text (qsort compare_func rs) = map box_text xs" "mset xs = mset (used_boxes s)"
      "sorted_wrt (\<lambda>a b. strcmp_sign (name_of a) (name_of b) \<le> 0) xs" by blast
  have "name_of (last (used_boxes s)) \<noteq> []" using used(2) [OF last_in_set [OF used(1)]] by simp
  then have ne: "hd (lr_box_name (last rs)) \<noteq> NUL"
    using r(2,3) by (cases "lr_box_name (last rs)") (auto simp: c_string_def)
  have pe: "print_entries (qsort compare_func rs) es = Inr ((), es @ map (\<lambda>b. Print (box_text b)) xs)" for es
    by (rule printed_like [OF m(1)]) (use r(4,5) in \<open>simp_all\<close>)
  have "manager_main env' argv ls [] = Inr (0,
      [Open_fifo (argv ! 1), Write_fifo (argv ! 1) (line (layout (List_request ?q))), Close_fifo (argv ! 1),
       Make_fifo (argv ! 2), Open_fifo (argv ! 2), Close_fifo (argv ! 2)] @ map (\<lambda>b. Print (box_text b)) xs @
      [Remove_fifo (argv ! 2)])"
    using m(2) wf r(1) ne cp
    by (simp add: manager_main_def manager_list_def manager_request_def call_call exec_simps
      system_exec [OF m(1)] client_okD(2) [OF m(1)] pe del: layout.simps well_formed.simps)
  moreover have "make_task (\<lambda>_. True) (line (layout (List_request ?q))) =
      Inr \<lparr>function_of = Some H_list, request_of = List_request ?q\<rparr>"
    by (rule requests_dispatched [OF wf]) (simp add: handler_codes_def)
  moreover have "run_task env fuel j inputs \<lparr>function_of = Some H_list, request_of = List_request ?q\<rparr> s = Inr ((), t)"
    using t(1) by (simp add: run_task_def)
  ultimately show ?thesis using t(2) r(6,7) by blast
qed

theorem manager_prints_sorted_list_witness:
  "\<exists>sent task t ls bs. manager_main demo_client [''manager'', ''/tmp/r'', ''/tmp/p'', ''list''] ls [] = Inr (0,
      [Open_fifo ''/tmp/r'', Write_fifo ''/tmp/r'' sent, Close_fifo ''/tmp/r'', Make_fifo ''/tmp/p'',
       Open_fifo ''/tmp/p'', Close_fifo ''/tmp/p''] @ map (\<lambda>b. Print (box_text b)) bs @ [Remove_fifo ''/tmp/p'']) \<and>
    make_task (\<lambda>_. True) sent = Inr task \<and> run_task demo_env 0 0 [] task (demo_broker demo2) = Inr ((), t) \<and>
    mset bs = {#demo_box ''/a'' ''pw'' 1#}"
proof -
  let ?a = "[''manager'', ''/tmp/r'', ''/tmp/p'', ''list'']" and ?s = "demo_broker demo2"
  have "\<exists>sent task t ls bs. manager_main demo_client ?a ls [] = Inr (0,
        [Open_fifo (?a ! 1), Write_fifo (?a ! 1) sent, Close_fifo (?a ! 1), Make_fifo (?a ! 2),
         Open_fifo (?a ! 2), Close_fifo (?a ! 2)] @ map (\<lambda>b. Print (box_text b)) bs @ [Remove_fifo (?a ! 2)]) \<and>
      make_task (\<lambda>_. True) sent = Inr task \<and> run_task demo_env 0 0 [] task ?s = Inr ((), t) \<and>
      pipes t = pipes ?s @ [Opened (?a ! 2)] @ map (Sent (?a ! 2)) ls @ [Closed (?a ! 2)] \<and>
      mset bs = mset (used_boxes ?s) \<and> sorted_wrt (\<lambda>a b. strcmp_sign (name_of a) (name_of b) \<le> 0) bs"
    by (rule manager_prints_sorted_list [OF demo_client_ok _ _ demo_broker_inv [OF demo2_inv]])
      (auto simp: fits_array_def max_defs counters_ok_def)
  then obtain sent task t ls bs where
    "manager_main demo_client ?a ls [] = Inr (0,
        [Open_fifo (?a ! 1), Write_fifo (?a ! 1) sent, Close_fifo (?a ! 1), Make_fifo (?a ! 2),
         Open_fifo (?a ! 2), Close_fifo (?a ! 2)] @ map (\<lambda>b. Print (box_text b)) bs @ [Remove_fifo (?a ! 2)])"
    "make_task (\<lambda>_. True) sent = Inr task" "run_task demo_env 0 0 [] task ?s = Inr ((), t)"
    "mset bs = mset (used_boxes ?s)" by blast
  then show ?thesis
    by (intro exI [of _ sent] exI [of _ task] exI [of _ t] exI [of _ ls] exI [of _ bs]) simp
qed

end
