(* ===== verification/Server.thy ===== *)
theory Server
  imports Broker_Delivery PCQ
begin

text \<open>
  The broker with its task queue, and the main loop of \<open>mbroker.c\<close>, which turns the lines of the
  server pipe into tasks and puts them into the queue.  The threads that take them out are in
  \<open>Broker_Threads\<close>.
\<close>

record server =
  the_broker :: broker
  task_queue :: "task pc_queue"

definition in_broker :: "(broker, 'a) oper \<Rightarrow> (server, 'a) oper" where
  "in_broker m s =
     (case m (the_broker s) of Inl e \<Rightarrow> Inl e | Inr (a, b) \<Rightarrow> Inr (a, s\<lparr>the_broker := b\<rparr>))"

definition in_queue :: "(task pc_queue, 'a) oper \<Rightarrow> (server, 'a) oper" where
  "in_queue m s =
     (case m (task_queue s) of Inl e \<Rightarrow> Inl e | Inr (a, q) \<Rightarrow> Inr (a, s\<lparr>task_queue := q\<rparr>))"

text \<open>
  Lines 516 to 553, when \<open>pcq_enqueue\<close> does not wait: \<open>works\<close> tells whether opening, reading and
  closing the server pipe succeed, \<open>bytes\<close> is what \<open>read\<close> stores in the buffer.
\<close>

definition main_iteration :: "bool \<Rightarrow> (nat \<Rightarrow> bool) \<Rightarrow> char list \<Rightarrow> char list \<Rightarrow> (server, unit) oper" where
  "main_iteration works gr raw bytes =
     block [if works then ret () else fail ExitFailure] (
     call (lift (make_task gr (bytes @ drop (length bytes) raw))) (\<lambda>newtask.
     in_queue (enqueue_section newtask)))"

text \<open>The task of a line.\<close>

definition task_of :: "char list \<Rightarrow> task" where
  "task_of b = \<lparr>function_of = select_handler (u8_of (take 1 b)), request_of = reads_as b\<rparr>"

text \<open>An iteration of the main loop, in terms of the list that the queue holds.\<close>

lemma main_iteration_list:
  assumes w: "pcq_wf (task_queue s)" and room: "pcq_current_size (task_queue s) \<noteq> pcq_capacity (task_queue s)"
    and l: "length raw = MAX_LINE" "length bytes \<le> MAX_LINE"
    and m: "main_iteration True (\<lambda>_. True) raw bytes s = Inr ((), t)"
  defines "b \<equiv> bytes @ drop (length bytes) raw"
  shows "pcq_wf (task_queue t)" "the_broker t = the_broker s"
    "pcq_list (task_queue t) = pcq_list (task_queue s) @ [task_of b]"
proof -
  let ?q = "task_queue s"
  from w room have "length (pcq_list ?q) < pcq_capacity ?q"
    using length_pcq_list [of ?q] by (simp add: pcq_wf_def)
  from pcq.enq_law [OF w this, of "task_of b"] obtain q where
    q: "enqueue_section (task_of b) ?q = Inr ((), q)" "pcq_wf q" "pcq_list q = pcq_list ?q @ [task_of b]"
    by blast
  have "length b = MAX_LINE" using l by (simp add: b_def)
  then have "make_task (\<lambda>_. True) b = Inr (task_of b)" using make_task_exec by (simp add: task_of_def)
  with m q have "t = s\<lparr>task_queue := q\<rparr>"
    unfolding main_iteration_def b_def by (simp add: exec_simps in_queue_def)
  with q show "pcq_wf (task_queue t)" "the_broker t = the_broker s"
    "pcq_list (task_queue t) = pcq_list ?q @ [task_of b]" by simp_all
qed

text \<open>A small server, and a line with a request to unlock its box.\<close>

definition demo_server :: server where
  "demo_server = \<lparr>the_broker = demo_broker demo2, task_queue = \<lparr>
     pcq_buffer = replicate 2 \<lparr>function_of = None, request_of = Request (demo_req 0 [] [])\<rparr>,
     pcq_capacity = 1, pcq_current_size = 0, pcq_head = 0, pcq_tail = 0\<rparr>\<rparr>"

lemma demo_server_queue: "pcq_wf (task_queue demo_server)" "pcq_list (task_queue demo_server) = []"
  "the_broker demo_server = demo_broker demo2" "pcq_current_size (task_queue demo_server) = 0"
  "pcq_capacity (task_queue demo_server) = 1"
  by (simp_all add: demo_server_def pcq_wf_def pcq_list_def)

abbreviation demo_line :: "char list" where
  "demo_line \<equiv> line (layout (Request (demo_req 11 ''/a'' ''pw'')))"

lemma demo_request_task:
  "length demo_line = MAX_LINE"
  "task_of demo_line = \<lparr>function_of = Some H_unlock, request_of = Request (demo_req 11 ''/a'' ''pw'')\<rparr>"
proof -
  have "request_sized (demo_req 11 ''/a'' ''pw'')"
    using demo_req_ok [of "''/a''" "''pw''" 11] by (simp add: request_ok_def request_sized_def string_array_def)
  then have wf: "well_formed (Request (demo_req 11 ''/a'' ''pw''))" by (simp add: code_defs)
  show len: "length demo_line = MAX_LINE" by (rule length_line [OF layout_fits [OF wf]])
  have "make_task (\<lambda>_. True) demo_line =
      Inr \<lparr>function_of = Some H_unlock, request_of = Request (demo_req 11 ''/a'' ''pw'')\<rparr>"
    by (rule requests_dispatched [OF wf]) (simp add: handler_codes_def)
  moreover have "make_task (\<lambda>_. True) demo_line = Inr (task_of demo_line)"
    by (simp only: make_task_exec [OF len] task_of_def)
  ultimately show "task_of demo_line =
      \<lparr>function_of = Some H_unlock, request_of = Request (demo_req 11 ''/a'' ''pw'')\<rparr>"
    by (simp only: sum.inject)
qed

end
