(* ===== verification/Shutdown.thy ===== *)
theory Shutdown
  imports Broker_Wakeup Client_Correct Server
begin

text \<open>
  The handlers of \<open>SIGINT\<close>: \<open>end_program_ctrlC\<close> of \<open>mbroker.c\<close> and \<open>getCTRLC\<close> of \<open>sub.c\<close>.  Both end
  their process with \<open>exit(0)\<close>; their result here is that exit status.  The handler of the broker
  runs in one thread while the others go on until the process ends, so that the state it leaves is
  one in which their next steps happen.  Freed memory is an empty array: every access to it is a
  fault.
\<close>

section \<open>The broker\<close>

text \<open>\<open>announces\<close> and \<open>unlinks\<close>: writing the announcement and unlinking the server pipe succeed.\<close>

definition end_program_ctrlC :: "bool \<Rightarrow> bool \<Rightarrow> (server, int) oper" where
  "end_program_ctrlC announces unlinks =
     block
       [if announces then ret () else fail ExitFailure,
        in_broker (modify (\<lambda>b. b\<lparr>ending := True\<rparr>))] (
     call (in_broker (in_tfs tfs_destroy)) (\<lambda>_.
     block
       [in_queue (modify (\<lambda>q. q\<lparr>pcq_buffer := []\<rparr>)),
        in_broker (modify (\<lambda>b. b\<lparr>thread_pool := []\<rparr>)),
        in_broker (modify (\<lambda>b. b\<lparr>server_boxes := []\<rparr>)),
        if unlinks then ret () else fail ExitFailure]
       (ret 0)))"

definition shut_down :: "broker \<Rightarrow> broker" where
  "shut_down b = b\<lparr>ending := True, tfs := destroyed (tfs b), thread_pool := [], server_boxes := []\<rparr>"

lemma end_program_exec:
  assumes "broker_inv (the_broker s)"
  shows "\<exists>t. end_program_ctrlC True True s = Inr (0, t) \<and> the_broker t = shut_down (the_broker s)"
proof -
  from assms have "tfs_destroy (tfs (the_broker s)) = Inr (0, destroyed (tfs (the_broker s)))"
    using tfs_destroy_exec [OF fs_invD(1)] by (simp add: broker_inv_def)
  then show ?thesis
    by (simp add: end_program_ctrlC_def exec_simps in_broker_def in_tfs_def in_queue_def shut_down_def)
qed

text \<open>What the other threads do next.\<close>

lemma find_box_shut_down:
  assumes "0 < size_boxes s"
  shows "call (find_box nm) k (shut_down s) = Inl OutOfBounds"
  using assms by (simp add: find_box_def exec_simps shut_down_def scan_boxes.simps [of nm "[]" 0])

lemma handler_shut_down:
  assumes t: "function_of t = Some h" "takes h (request_of t)"
    and s: "broker_inv s" "0 < size_boxes s"
  shows "run_task env fuel j inputs t (shut_down s) = Inl OutOfBounds"
proof -
  have n: "\<not> box_size_lock (shut_down s)" using s(1) by (simp add: shut_down_def broker_inv_def)
  have e: "(shut_down s)\<lparr>box_size_lock := True\<rparr> = shut_down (s\<lparr>box_size_lock := True\<rparr>)"
    by (simp add: shut_down_def)
  have f: "call (find_box nm) k ((shut_down s)\<lparr>box_size_lock := True\<rparr>) = Inl OutOfBounds"
    for nm and k :: "nat option \<Rightarrow> 'x brop"
    unfolding e by (rule find_box_shut_down) (simp add: s(2))
  have c: "collect_boxes env [] 0 (size_boxes s) = Inl OutOfBounds"
    using s(2) by (simp add: collect_boxes.simps [of env "[]" 0])
  have b: "server_boxes (shut_down s) = []" "size_boxes (shut_down s) = size_boxes s"
    by (simp_all add: shut_down_def)
  have r: "call (register_pub env q i) k (shut_down s) = Inl OutOfBounds"
    "call (register_sub env q i) k' (shut_down s) = Inl OutOfBounds"
    for q i and k :: "bool \<Rightarrow> unit brop" and k' :: "int option \<Rightarrow> unit brop"
    by (simp_all add: register_pub_def register_sub_def exec_simps call_call n f)
  show ?thesis
    using t
    by (cases h; cases "request_of t")
      (simp_all add: takes_def run_task_def process_pub_def process_manager_create_def
        process_manager_remove_def process_manager_list_def process_manager_unlock_def
        process_manager_lock_def exec_simps n f b c r)
qed

lemma close_shut_down: "in_tfs (tfs_close h) (shut_down s) = Inl LockMisuse"
  by (simp add: in_tfs_def tfs_close_def get_open_file_entry_def my_r_lock_def call_def shut_down_def
    destroyed_def)

lemma publisher_shut_down:
  assumes "NUL \<in> set pipe" and "can_close env"
  shows "pub_loop env pipe j fd_tfs inputs (shut_down b) = Inl LockMisuse"
proof -
  let ?b = "b\<lparr>pipes := pipes b @ [Closed (c_string pipe)]\<rparr>"
  have e: "ending (shut_down b)" by (simp add: shut_down_def)
  have "my_close env pipe (shut_down b) = Inr ((), shut_down ?b)"
    using assms by (simp add: my_close_def exec_simps c_arg_def log_io_def) (simp add: shut_down_def)
  then show ?thesis
    using e close_shut_down by (subst pub_loop.simps) (simp add: exec_simps call_Inl)
qed

text \<open>C34: Ctrl-C in the broker is not an orderly end.  The handler of the signal destroys the file system
  and frees the table of boxes and the threads' table before the process ends, while the other threads go
  on: a request that one of them starts to serve then reads the freed table, and a publisher's
  handler that sees \<open>status == END\<close>, the flag that is meant to end it, closes its handle in the
  destroyed file system.  Both are undefined behaviour.\<close>

theorem shutdown_pulls_memory_away:
  assumes s: "broker_inv (the_broker s)" "0 < size_boxes (the_broker s)"
    and t: "function_of t = Some h" "takes h (request_of t)"
    and pipe: "NUL \<in> set pipe" "can_close env"
  shows "\<exists>u. end_program_ctrlC True True s = Inr (0, u) \<and> ending (the_broker u) \<and>
    run_task env fuel j inputs t (the_broker u) = Inl OutOfBounds \<and>
    pub_loop env pipe j fd_tfs inputs (the_broker u) = Inl LockMisuse"
proof -
  from end_program_exec [OF s(1)] obtain u where
    u: "end_program_ctrlC True True s = Inr (0, u)" "the_broker u = shut_down (the_broker s)" by blast
  have "pub_loop env pipe j fd_tfs inputs (shut_down (the_broker s)) = Inl LockMisuse"
    using publisher_shut_down [OF pipe] .
  with u handler_shut_down [OF t s] show ?thesis by (auto simp: shut_down_def)
qed

theorem shutdown_pulls_memory_away_witness:
  "\<exists>u. end_program_ctrlC True True demo_server = Inr (0, u) \<and> ending (the_broker u) \<and>
    run_task demo_env 0 0 [] \<lparr>function_of = Some H_unlock, request_of = Request (demo_req 11 ''/a'' ''pw'')\<rparr>
      (the_broker u) = Inl OutOfBounds \<and>
    pub_loop demo_env [NUL] 0 0 [] (the_broker u) = Inl LockMisuse"
proof (rule shutdown_pulls_memory_away [of _ _ H_unlock])
  show "broker_inv (the_broker demo_server)"
    using demo_broker_inv [OF demo2_inv] by (simp only: demo_server_queue)
qed (simp_all add: demo_server_queue takes_def demo_env_def)

text \<open>The locks that \<open>state_destroy\<close> destroys, in its order.\<close>

definition destroyed_locks :: "tfs_state \<Rightarrow> lock_id list" where
  "destroyed_locks s = map (L_inode \<circ> int) [0 ..< INODE_TABLE_SIZE s] @
     map (L_file \<circ> int) [0 ..< MAX_OPEN_FILES s] @ [L_inode_table, L_dir_table, L_data_table, L_file_table]"

lemma destroy_held:
  assumes "l \<in> set ls" and "locks s l \<noteq> Unlocked" and "\<And>x. x \<in> set ls \<Longrightarrow> lock_exists s x"
  shows "block (map rwlock_destroy ls) k s = Inl LockMisuse"
  using assms
proof (induction ls arbitrary: s)
  case (Cons x ls)
  show ?case
  proof (cases "locks s x = Unlocked")
    case True
    have "lock_exists (set_lock x Destroyed s) y = lock_exists s y" for y by (cases y) (simp_all add: set_lock_def)
    with Cons True have "block (map rwlock_destroy ls) k (set_lock x Destroyed s) = Inl LockMisuse"
      by (intro Cons.IH) (auto simp: set_lock_def)
    moreover have "rwlock_destroy x s = Inr ((), set_lock x Destroyed s)"
      using Cons.prems(3) True by (simp add: rwlock_destroy_def)
    ultimately show ?thesis by (simp add: exec_simps)
  next
    case False
    with Cons.prems show ?thesis by (simp add: call_def rwlock_destroy_def)
  qed
qed simp

lemma destroyed_locks_exist:
  assumes "tfs_wf s" and "l \<in> set (destroyed_locks s)"
  shows "lock_exists s l"
  using assms by (auto simp: destroyed_locks_def wf_simps)

lemma state_destroy_held:
  assumes "tfs_wf s" and "l \<in> set (destroyed_locks s)" and "locks s l \<noteq> Unlocked"
  shows "tfs_destroy s = Inl LockMisuse"
proof -
  have "state_destroy s = block (map rwlock_destroy (destroyed_locks s))
      (block [modify (\<lambda>s. s\<lparr>lock_file_len := 0, inode_table_set := False, inode_table := [],
          lock_inode_len := 0, freeinode_ts := [], fs_data_size := 0, free_blocks := [],
          open_file_table := [], free_open_file_entries := []\<rparr>)] (ret 0)) s"
    by (simp add: state_destroy_def destroyed_locks_def exec_simps block_append comp_def)
  also have "\<dots> = Inl LockMisuse"
    by (rule destroy_held [OF assms(2,3)]) (rule destroyed_locks_exist [OF assms(1)])
  finally show ?thesis by (simp add: tfs_destroy_def exec_simps)
qed

text \<open>Ctrl-C while a thread is inside a call of the file system: whichever lock of it is held, the
  handler of the signal destroys a lock that is held, which is undefined behaviour.\<close>

lemma shutdown_during_call:
  assumes "tfs_wf (tfs (the_broker s))" and "l \<in> set (destroyed_locks (tfs (the_broker s)))"
    and "locks (tfs (the_broker s)) l \<noteq> Unlocked"
  shows "end_program_ctrlC True unlinks s = Inl LockMisuse"
  using state_destroy_held [OF assms]
  by (simp add: end_program_ctrlC_def exec_simps in_broker_def in_tfs_def)

section \<open>The subscriber\<close>

text \<open>\<open>snprintf\<close> of the counter, which has at most 10 digits, fits the buffer of 100 bytes.\<close>

definition getCTRLC :: "client_env \<Rightarrow> string \<Rightarrow> nat \<Rightarrow> int clop" where
  "getCTRLC env pipe_name counter =
     block
       [perform env (Print (decimal counter)), close_fifo env pipe_name, my_unlink env pipe_name]
       (ret 0)"

text \<open>\<open>main\<close> of \<open>sub.c\<close> up to a \<open>SIGINT\<close> that arrives while it waits for more than the lines \<open>inputs\<close>;
  \<open>counter\<close> is the number of iterations of its loop.\<close>

definition sub_interrupted :: "client_env \<Rightarrow> string list \<Rightarrow> char list list \<Rightarrow> int clop" where
  "sub_interrupted env argv inputs =
     block [if length argv \<noteq> 4 \<and> length argv \<noteq> 5
            then complain (''usage: sub <register_pipe_name> <box_name>'' @ [CHR 0x0A]) else ret ()] (
     call (stream_request 2 env argv) (\<lambda>r.
     call (line_of env (Request r) (req_code r)) (\<lambda>l.
     call (lift (array_get argv 1)) (\<lambda>register_pipe.
     call (lift (array_get argv 2)) (\<lambda>pipe_name.
     block
       [open_fifo env register_pipe, my_write env register_pipe l, close_fifo env register_pipe,
        my_mkfifo env pipe_name, open_fifo env pipe_name, print_messages env inputs]
       (getCTRLC env pipe_name (length inputs)))))))"

text \<open>Ctrl-C in a subscriber that has received \<open>n\<close> messages: each of them was printed, then their
  number \<open>n\<close> in decimal, and the subscriber closes and removes its pipe and ends with status 0.\<close>

theorem interrupted_subscriber_counts:
  assumes e: "client_ok env" and a: "stream_args argv" "length (argv ! 3) \<le> 30"
    and ls: "list_all2 carries ls ms" and small: "length ms < 2147483648"
  shows "\<exists>l. sub_interrupted env argv ls [] = Inr (0,
      [Open_fifo (argv ! 1), Write_fifo (argv ! 1) l, Close_fifo (argv ! 1), Make_fifo (argv ! 2),
       Open_fifo (argv ! 2)] @ map (\<lambda>m. Print (m @ [CHR 0x0A])) ms @
      [Print (decimal (length ms)), Close_fifo (argv ! 2), Remove_fifo (argv ! 2)])"
proof -
  from stream_request_ok [OF e a, of 2] obtain r where
    r: "\<And>es. stream_request 2 env argv es = Inr (r, es)" "request_ok r" "req_code r = 2" by blast
  have wf: "well_formed (Request r)" using r(2,3) by (intro request_well_formed) simp_all
  have len: "length argv = 4 \<or> length argv = 5" using a(1) by (auto simp: stream_args_def)
  have n: "length ls = length ms" using ls by (rule list_all2_lengthD)
  have p: "call (perform env (Print v)) k es = k () (es @ [Print v])" for v es and k :: "unit \<Rightarrow> int clop"
    using client_okD(1) [OF e] by (simp add: perform_def call_def modify_def)
  show ?thesis
    using len wf
    by (intro exI [of _ "line (layout (Request r))"])
      (auto simp: sub_interrupted_def getCTRLC_def exec_simps r(1) system_exec [OF e] p n
        print_messages_exec [OF e ls] simp del: layout.simps well_formed.simps)
qed

lemma decimal_one: "decimal (Suc 0) = ''1''"
  by code_simp

theorem interrupted_subscriber_counts_witness:
  "\<exists>l. sub_interrupted demo_client [''sub'', ''/tmp/r'', ''/tmp/s'', ''a'', ''pw''] [message_line ''x''] [] = Inr (0,
      [Open_fifo ''/tmp/r'', Write_fifo ''/tmp/r'' l, Close_fifo ''/tmp/r'', Make_fifo ''/tmp/s'',
       Open_fifo ''/tmp/s'', Print (''x'' @ [CHR 0x0A]), Print ''1'', Close_fifo ''/tmp/s'', Remove_fifo ''/tmp/s''])"
  using interrupted_subscriber_counts [OF demo_client_ok demo_args(3), of "[message_line ''x'']" "[''x'']"]
    demo_message(1)
  by (simp add: decimal_one)

end
