(* ===== verification/TFS_Triples.thy ===== *)
theory TFS_Triples
  imports TFS_Prelude
begin

text \<open>
  Partial correctness of operations: \<open>leads P m Q\<close> when every execution of \<open>m\<close> that starts in a
  state with \<open>P\<close> and returns ends in a state with \<open>Q\<close>.  The rules in \<open>leads_intros\<close> follow the
  sequencing combinators; those of a component's operations are added where they are proved, so
  that the triple of a handler is found by \<open>rule leads_intros\<close>, repeated.
\<close>

named_theorems leads_intros \<open>triples of combinators and operations\<close>

definition leads :: "('s \<Rightarrow> bool) \<Rightarrow> ('s, 'a) oper \<Rightarrow> ('s \<Rightarrow> bool) \<Rightarrow> bool" where
  "leads P m Q \<longleftrightarrow> (\<forall>s a t. P s \<longrightarrow> m s = Inr (a, t) \<longrightarrow> Q t)"

lemma leadsI: "(\<And>s a t. P s \<Longrightarrow> m s = Inr (a, t) \<Longrightarrow> Q t) \<Longrightarrow> leads P m Q"
  by (auto simp: leads_def)

lemma leadsD: "leads P m Q \<Longrightarrow> P s \<Longrightarrow> m s = Inr (a, t) \<Longrightarrow> Q t"
  by (auto simp: leads_def)

lemma leads_ret [leads_intros]: "leads P (ret a) P"
  by (simp add: leads_def exec_simps)

lemma leads_fail [leads_intros]: "leads P (fail e) Q"
  by (simp add: leads_def exec_simps)

lemma leads_gets [leads_intros]: "leads P (gets f) P"
  by (simp add: leads_def exec_simps)

lemma leads_modify: "(\<And>s. P s \<Longrightarrow> Q (f s)) \<Longrightarrow> leads P (modify f) Q"
  by (simp add: leads_def exec_simps)

lemma leads_lift [leads_intros]: "leads P (lift r) P"
  by (cases r) (simp_all add: leads_def exec_simps)

lemma leads_call: "leads P m R \<Longrightarrow> (\<And>a. leads R (k a) Q) \<Longrightarrow> leads P (call m k) Q"
  by (fastforce simp: leads_def elim: call_eq_InrE)

lemma leads_call_lift: "(\<And>a. r = Inr a \<Longrightarrow> leads P (k a) Q) \<Longrightarrow> leads P (call (lift r) k) Q"
  by (cases r) (simp_all add: leads_def exec_simps)

text \<open>From one state, while the steps are known exactly.\<close>

lemma leads_exact:
  "m s = Inr (a, s') \<Longrightarrow> leads (\<lambda>u. u = s') (k a) Q \<Longrightarrow> leads (\<lambda>u. u = s) (call m k) Q"
  by (simp add: leads_def exec_simps)

lemma leads_call_state:
  "(\<And>s. P s \<Longrightarrow> m s = Inr (f s, s)) \<Longrightarrow> (\<And>s0. P s0 \<Longrightarrow> leads P (k (f s0)) Q) \<Longrightarrow> leads P (call m k) Q"
  by (auto simp: leads_def exec_simps)

lemma leads_block_Nil [leads_intros]: "leads P k Q \<Longrightarrow> leads P (block [] k) Q"
  by simp

lemma leads_block_Cons [leads_intros]:
  "leads P m R \<Longrightarrow> leads R (block ms k) Q \<Longrightarrow> leads P (block (m # ms) k) Q"
  by (simp add: leads_call)

lemma leads_if [leads_intros]:
  "(c \<Longrightarrow> leads P m Q) \<Longrightarrow> (\<not> c \<Longrightarrow> leads P n Q) \<Longrightarrow> leads P (if c then m else n) Q"
  by simp

lemma leads_option [leads_intros]:
  "(x = None \<Longrightarrow> leads P m Q) \<Longrightarrow> (\<And>y. x = Some y \<Longrightarrow> leads P (n y) Q) \<Longrightarrow>
    leads P (case x of None \<Rightarrow> m | Some y \<Rightarrow> n y) Q"
  by (cases x) simp_all

lemma leads_weaken: "leads P' m Q' \<Longrightarrow> (\<And>s. P s \<Longrightarrow> P' s) \<Longrightarrow> (\<And>s. Q' s \<Longrightarrow> Q s) \<Longrightarrow> leads P m Q"
  unfolding leads_def by blast

lemma leads_conj: "leads P m Q \<Longrightarrow> leads P' m Q' \<Longrightarrow> leads (\<lambda>s. P s \<and> P' s) m (\<lambda>s. Q s \<and> Q' s)"
  by (auto simp: leads_def)

end
