(* ===== verification/FS_Effects.thy ===== *)
theory FS_Effects
  imports FS_Runs TFS_Triples
begin

text \<open>
  What a call that returns has changed, without any assumption on its arguments: the invariant
  holds again, every lock is released, and of the handles only the one of the call differs.
\<close>

text \<open>All calls but \<open>tfs_open\<close> and \<open>tfs_close\<close>: the open handles stay open.\<close>

definition fs_kept :: "tfs_state \<Rightarrow> bool" where
  "fs_kept s \<longleftrightarrow> fs_inv s \<and> idle s"

lemma fs_keptD: "fs_kept s \<Longrightarrow> fs_inv s" "fs_kept s \<Longrightarrow> idle s"
  by (simp_all add: fs_kept_def)

lemma same_open_handles: "same_open s t \<Longrightarrow> same_handles h s t"
  by (rule same_handlesI) (simp_all add: same_open_def)

lemma same_open_self:
  assumes "same_open s t"
  shows "is_open t d = is_open s d" "offset_of t h = offset_of s h" "file_of t h = file_of s h"
    "fs_params t = fs_params s"
  using assms by (simp_all add: same_open_def is_open_def valid_file_handle_def offset_of_def file_of_def)

lemma tfs_open_effect:
  assumes k: "fs_kept s" and p: "c_ok p" and op: "tfs_open p mode s = Inr (r, t)"
  shows "fs_kept t" "fs_params t = fs_params s"
    "r = - 1 \<and> same_open s t \<or>
      (\<exists>h. r = int h \<and> \<not> is_open s (int h) \<and> is_open t (int h) \<and> offset_of t h \<le> BLOCK_SIZE t \<and>
        same_handles h s t)"
proof -
  note inv = fs_keptD [OF k]
  have "lookup s p \<noteq> - 1 \<Longrightarrow> resolve s (lookup s p) \<noteq> None"
    using tfs_open_link_ends(2) [OF inv p, of mode] op by auto
  from tfs_open_inv [OF inv p this, of mode] op show "fs_kept t" by (simp add: fs_kept_def)
  have "fs_params t = fs_params s \<and> (r = - 1 \<and> same_open s t \<or>
      (\<exists>h. r = int h \<and> \<not> is_open s (int h) \<and> is_open t (int h) \<and> offset_of t h \<le> BLOCK_SIZE t \<and>
        same_handles h s t))"
    using tfs_open_cases [OF inv p op]
  proof (elim disjE exE conjE)
    fix u i off assume u: "(r, t) = opened u i off" "r \<noteq> - 1" "tfs_wf u" "off \<le> BLOCK_SIZE u" "same_open s u"
    then have eq: "r = fst (opened u i off)" "t = snd (opened u i off)" by (simp_all flip: u(1))
    from u(2) eq opened_handle [OF u(3), of i off] obtain h where
      h: "r = int h" "is_open t (int h)" "offset_of t h = off" "first_free (free_open_file_entries u) = Some h"
      by metis
    have "free_open_file_entries u ! h = FREE" using first_free_Some [OF h(4)] by simp
    then have "\<not> is_open s (int h)" using u(5) by (simp add: same_open_def is_open_def)
    moreover have "same_handles h s t"
      by (rule same_handlesI) (use u(5) eq(2) h(4) in \<open>simp_all add: same_open_def opened_def\<close>)
    moreover have "fs_params t = fs_params s" using u(5) eq(2) by (simp add: same_open_def)
    ultimately show ?thesis using h u(4) eq(2) by auto
  qed (simp add: same_open_def)
  then show "fs_params t = fs_params s"
    "r = - 1 \<and> same_open s t \<or>
      (\<exists>h. r = int h \<and> \<not> is_open s (int h) \<and> is_open t (int h) \<and> offset_of t h \<le> BLOCK_SIZE t \<and>
        same_handles h s t)" by blast+
qed

lemma tfs_close_effect:
  assumes k: "fs_kept s" and c: "tfs_close d s = Inr (r, t)"
  shows "fs_kept t" "fs_params t = fs_params s" "d \<noteq> int h \<Longrightarrow> is_open t (int h) = is_open s (int h)"
    "offset_of t h = offset_of s h" "file_of t h = file_of s h"
proof -
  note inv = fs_keptD [OF k]
  have t: "t = (if is_open s d then s\<lparr>free_open_file_entries := (free_open_file_entries s)[nat d := FREE]\<rparr> else s)"
    using c tfs_close_exec [OF inv, of d] by (simp split: if_splits)
  show "fs_kept t" using inv inv_close(1) [OF inv(1), of "nat d"] by (simp add: t fs_kept_def)
  show "fs_params t = fs_params s" "offset_of t h = offset_of s h" "file_of t h = file_of s h"
    by (simp_all add: t offset_of_def file_of_def)
  show "is_open t (int h) = is_open s (int h)" if "d \<noteq> int h"
  proof (cases "is_open s d")
    case True
    then have "nat d \<noteq> h" using that by (auto simp: is_open_def valid_file_handle_def)
    then show ?thesis by (simp add: t is_open_def valid_file_handle_def)
  qed (simp add: t)
qed

lemma tfs_unlink_effect:
  assumes k: "fs_kept s" and p: "c_ok p" and u: "tfs_unlink p s = Inr (r, t)"
  shows "fs_kept t" "same_open s t"
proof -
  note inv = fs_keptD [OF k]
  show "fs_kept t" using tfs_unlink_inv [OF inv p] u by (simp add: fs_kept_def)
  show "same_open s t"
  proof (cases "lookup s p = - 1")
    case True
    with tfs_unlink_missing [OF inv p] u show ?thesis by simp
  next
    case False
    from tfs_unlink_exec [OF inv p False] u obtain i k where "t = unlinked s i k" by auto
    then show ?thesis by (simp add: same_open_def unlinked_def Let_def)
  qed
qed

lemma tfs_write_effect':
  assumes k: "fs_kept s" and op: "is_open s (int h)" and off: "offset_of s h \<le> BLOCK_SIZE s"
    and len: "len \<le> length buffer" "len + BLOCK_SIZE s < size_mod"
    and w: "tfs_write (int h) buffer len s = Inr (r, t)"
  shows "fs_kept t" "fs_params t = fs_params s" "is_open t (int h)" "offset_of t h \<le> BLOCK_SIZE t"
    "same_handles h s t"
proof -
  note inv = fs_keptD [OF k]
  have small: "len + offset_of s h < size_mod" using off len by simp
  from tfs_write_effect [OF inv op off small len(1)] w show "fs_kept t" "is_open t (int h)"
      "offset_of t h \<le> BLOCK_SIZE t"
    by (auto simp: fs_kept_def)
  have "t = s \<or> (\<exists>b fb bs. t = written s h fb b bs)"
    using w tfs_write_exec [OF inv op off small len(1)] by (auto split: if_splits option.splits prod.splits)
  then show "fs_params t = fs_params s" "same_handles h s t"
    by (auto intro!: same_handlesI simp: written_def)
qed

lemma wf_advanced [simp]: "tfs_wf (advanced s h off) = tfs_wf s"
  by (simp add: tfs_wf_def advanced_def)

text \<open>A read moves the offset of its handle, whatever it is.\<close>

lemma tfs_read_effect:
  assumes k: "fs_kept s" and op: "is_open s (int h)" and r: "tfs_read (int h) len s = Inr (a, t)"
  shows "\<exists>off. t = advanced s h off"
proof -
  note inv = fs_keptD(1) [OF k] and idle = fs_keptD(2) [OF k]
  define i where "i = file_of s h"
  define nd where "nd = inode_table s ! i"
  define s1 where "s1 = set_lock (L_file (int h)) (ReadLocked (Suc 0))
    (set_lock (L_inode (int i)) (ReadLocked (Suc 0)) s)"
  define M where "M = (\<lambda>u. \<exists>off. u = advanced s1 h off)"
  define E where "E = (\<lambda>u. \<exists>off. u = advanced s h off)"
  have wf: "tfs_wf s" using inv by (rule fs_invD)
  note oh = open_handle [OF inv op, folded i_def]
  have le: "lock_exists s (L_inode (int i))" "lock_exists s (L_file (int h))"
    using oh(1,5) wf by (simp_all add: wf_simps)
  have wf1: "tfs_wf s1" using wf by (simp add: s1_def)
  have get: "inode_get (int i) s1 = Inr (int i, s1)"
    by (rule inode_get_exec [OF wf1]) (use idle oh(5) in \<open>simp_all add: s1_def valid_inumber_def\<close>)
  have rf: "read_file (int h) s = Inr (handle s h, s)" using oh(2) by (simp add: exec_simps)
  have ri: "read_inode (int i) s1 = Inr (nd, s1)" using oh(6) by (simp add: exec_simps s1_def nd_def)
  have locked: "block [my_r_lock (L_inode (int i)), my_r_lock (L_file (int h))] k s = k s1"
    for k :: "(int \<times> char list) fsop"
    using le idle by (simp add: exec_simps lock_simps s1_def)
  have rel: "leads M (block [my_unlock (L_inode (int i)), my_unlock (L_file (int h))] (ret b)) E"
    for b :: "int \<times> char list"
    unfolding M_def E_def using le idle
    by (intro leadsI) (auto simp: exec_simps lock_simps s1_def set_lock_commute)
  have up: "leads M (upd_file (int h) (\<lambda>fe. fe\<lparr>of_offset := g fe\<rparr>)) M" for g
    unfolding M_def using oh(2) by (intro leadsI) (auto simp: exec_simps advanced_def s1_def)
  have rd: "leads M (read_file (int h)) M" "leads M (mem_read x n) M" for x n
    by (auto intro!: leadsI simp: read_file_def mem_read_def lift_def gets_def call_def split: if_splits sum.splits)
  have dat: "leads M (data_block_get b) M" for b
  proof (rule leadsI)
    fix u x v assume u: "M u" "data_block_get b u = Inr (x, v)"
    then have ready: "data_ready u" using wf1 idle by (auto simp: M_def s1_def)
    have "valid_block_number u b"
      using u(2) ready
      by (cases "valid_block_number u b")
        (simp_all add: data_block_get_def exec_simps lock_simps valid_block_number_def always_assert_def)
    with data_block_get_exec [OF ready] u show "M v" by simp
  qed
  have "M s1" unfolding M_def by (metis advanced_same)
  have goe: "get_open_file_entry (int h) s = Inr (Some (int h), s)"
    using op wf idle by (simp add: get_open_file_entry_exec)
  have lk: "leads (\<lambda>u. u = s1) k Q \<Longrightarrow>
      leads (\<lambda>u. u = s) (block [my_r_lock (L_inode (int i)), my_r_lock (L_file (int h))] k) Q"
    for k :: "(int \<times> char list) fsop" and Q
    using locked [of k] by (auto simp: leads_def)
  have "leads (\<lambda>u. u = s) (tfs_read (int h) len) E"
    unfolding tfs_read_def Let_def
    apply (rule leads_exact, rule goe, simp only: option.case, rule leads_exact, rule rf, unfold oh(3), rule lk,
      rule leads_exact, rule get, rule leads_exact, rule ri)
    apply (rule leads_weaken [of M _ E])
    apply (intro leads_if rel leads_call [OF rd(1)] leads_call [OF rd(2)] leads_call [OF dat]
      leads_call [OF leads_gets] leads_call [OF leads_lift] leads_block_Cons [OF up]
      leads_block_Cons [OF leads_if [OF up leads_ret]] leads_block_Nil)
    using \<open>M s1\<close> by simp_all
  then show ?thesis using r by (auto simp: leads_def E_def)
qed

lemma tfs_read_effect':
  assumes k: "fs_kept s" and r: "tfs_read d len s = Inr (a, t)"
  shows "fs_kept t" "fs_params t = fs_params s" "is_open t e = is_open s e"
    "d \<noteq> int h \<Longrightarrow> offset_of t h = offset_of s h" "file_of t h = file_of s h"
proof -
  note inv = fs_keptD [OF k]
  have "\<exists>n off. t = s \<or> d = int n \<and> t = advanced s n off"
  proof (cases "is_open s d")
    case True
    then obtain n where n: "d = int n" by (rule is_open_nat)
    with tfs_read_effect [OF k] True r show ?thesis by blast
  next
    case False
    with tfs_read_closed [OF inv False] r show ?thesis by simp
  qed
  then obtain n off where t: "t = s \<or> d = int n \<and> t = advanced s n off" by blast
  show "fs_kept t" using t k inv_advanced(1) [OF inv(1)] by (auto simp: fs_kept_def)
  show "fs_params t = fs_params s" "is_open t e = is_open s e"
    using t by (auto simp: advanced_def is_open_def valid_file_handle_def)
  show "d \<noteq> int h \<Longrightarrow> offset_of t h = offset_of s h" using t by (auto simp: advanced_def offset_of_def)
  show "file_of t h = file_of s h"
    using t by (cases "n < length (open_file_table s)")
      (auto simp: advanced_def file_of_def nth_update list_update_beyond)
qed

end
