(* ===== verification/Broker_Triples.thy ===== *)
theory Broker_Triples
  imports Broker_Delivery FS_Effects
begin

text \<open>
  What a handler leaves alone.  \<open>busy g H j s0 L x s\<close> relates the state \<open>s0\<close> in which the thread \<open>j\<close>
  starts an operation to a later state \<open>s\<close>: the table and the file system are well-formed, the lock
  of the table is held (\<open>x\<close>) or free, the other threads' entries, the locks of the boxes, the parts
  \<open>g\<close> of them and the handles \<open>H\<close> of other threads are as they were.  The rules in \<open>leads_intros\<close>
  find for each operation of the broker that it keeps \<open>busy\<close>, in every environment.
\<close>

definition table_ok :: "broker \<Rightarrow> bool" where
  "table_ok s \<longleftrightarrow> length (server_boxes s) = size_boxes s \<and> size_boxes s < 2147483648 \<and>
     (\<forall>b \<in> set (server_boxes s). box_ok b)"

definition same_handle :: "tfs_state \<Rightarrow> tfs_state \<Rightarrow> nat \<Rightarrow> bool" where
  "same_handle f g h \<longleftrightarrow> is_open g (int h) = is_open f (int h) \<and> offset_of g h = offset_of f h \<and>
     file_of g h = file_of f h"

text \<open>The boxes whose lock is held.\<close>

definition locked_boxes :: "broker \<Rightarrow> nat set" where
  "locked_boxes s = {i. i < length (server_boxes s) \<and> box_lock (server_boxes s ! i)}"

lemma locked_boxes_cong: "server_boxes t = server_boxes s \<Longrightarrow> locked_boxes t = locked_boxes s"
  by (simp add: locked_boxes_def)

definition busy :: "(box \<Rightarrow> 'o) \<Rightarrow> nat set \<Rightarrow> nat \<Rightarrow> broker \<Rightarrow> nat set \<Rightarrow> bool \<Rightarrow> broker \<Rightarrow> bool" where
  "busy g H j s0 L x s \<longleftrightarrow> table_ok s \<and> fs_kept (tfs s) \<and> box_size_lock s = x \<and>
     length (thread_pool s) = length (thread_pool s0) \<and>
     (\<forall>k. k \<noteq> j \<longrightarrow> thread_pool s ! k = thread_pool s0 ! k) \<and>
     length (server_boxes s0) \<le> length (server_boxes s) \<and>
     (\<forall>i < length (server_boxes s0). g (server_boxes s ! i) = g (server_boxes s0 ! i)) \<and>
     locked_boxes s = L \<and> ending s = ending s0 \<and> fs_params (tfs s) = fs_params (tfs s0) \<and>
     (\<forall>h \<in> H. is_open (tfs s) (int h) \<and> same_handle (tfs s0) (tfs s) h)"

lemma busy_start:
  assumes "table_ok s" and "fs_kept (tfs s)" and "box_size_lock s = x"
    and "\<And>h. h \<in> H \<Longrightarrow> is_open (tfs s) (int h)"
  shows "busy g H j s (locked_boxes s) x s"
  using assms by (simp add: busy_def same_handle_def)

lemma busyD:
  assumes "busy g H j s0 L x s"
  shows "table_ok s" "fs_kept (tfs s)" "box_size_lock s = x"
    "length (thread_pool s) = length (thread_pool s0)" "k \<noteq> j \<Longrightarrow> thread_pool s ! k = thread_pool s0 ! k"
    "length (server_boxes s0) \<le> length (server_boxes s)"
    "i < length (server_boxes s0) \<Longrightarrow> g (server_boxes s ! i) = g (server_boxes s0 ! i)"
    "locked_boxes s = L" "ending s = ending s0" "fs_params (tfs s) = fs_params (tfs s0)"
    "h \<in> H \<Longrightarrow> is_open (tfs s) (int h)" "h \<in> H \<Longrightarrow> same_handle (tfs s0) (tfs s) h"
  using assms by (simp_all add: busy_def)

section \<open>Building blocks\<close>

text \<open>Changes of the other fields.\<close>

lemma busy_fields [simp]:
  "busy g H j s0 L x (s\<lparr>pipes := ps\<rparr>) = busy g H j s0 L x s"
  "busy g H j s0 L x (s\<lparr>sigpipe_ignored := ig\<rparr>) = busy g H j s0 L x s"
  "busy g H j s0 L x (s\<lparr>box_size_lock := l\<rparr>) = (x = l \<and> busy g H j s0 L (box_size_lock s) s)"
  by (auto simp: busy_def table_ok_def locked_boxes_def)

lemmas leads_calls [leads_intros] =
  leads_call [where m = "call m k" for m k] leads_call [where m = "if c then m else n" for c m n]
  leads_call [where m = "case x of None \<Rightarrow> m | Some y \<Rightarrow> n y" for x m n]
  leads_call [where m = "gets f" for f] leads_call_lift

lemma leads_unit_ops [leads_intros]:
  "leads (busy g H j s0 L x) (log_io e) (busy g H j s0 L x)"
  "leads (busy g H j s0 L x) ignore_sigpipe (busy g H j s0 L x)"
  by (simp_all add: log_io_def ignore_sigpipe_def leads_modify)

lemma leads_box_locks [leads_intros]:
  "leads (busy g H j s0 L False) lock_boxes (busy g H j s0 L True)"
  "leads (busy g H j s0 L True) unlock_boxes (busy g H j s0 L False)"
  by (auto intro!: leadsI simp: lock_boxes_def unlock_boxes_def dest: busyD(3) split: if_splits)

lemma leads_write_result [leads_intros]:
  "(\<And>n. leads P (m n) Q) \<Longrightarrow> leads P m' Q \<Longrightarrow> leads P m'' Q \<Longrightarrow>
    leads P (case w of Wrote n \<Rightarrow> m n | Broken_pipe \<Rightarrow> m' | Write_error \<Rightarrow> m'') Q"
  by (cases w) simp_all

lemma leads_pipes [leads_intros]:
  "leads (busy g H j s0 L x) (open_pipe env nm) (busy g H j s0 L x)"
  "leads (busy g H j s0 L x) (my_close env nm) (busy g H j s0 L x)"
  "leads (busy g H j s0 L x) (write_pipe env k nm l) (busy g H j s0 L x)"
  "leads (busy g H j s0 L x) (make_line env m c) (busy g H j s0 L x)"
  unfolding open_pipe_def my_close_def write_pipe_def make_line_def
  by (rule leads_intros)+

lemmas leads_call_pipes [leads_intros] =
  leads_call [OF leads_pipes(1)] leads_call [OF leads_pipes(3)] leads_call [OF leads_pipes(4)]

lemma leads_my_open [leads_intros]: "leads (busy g H j s0 L x) (my_open env nm) (busy g H j s0 L x)"
  unfolding my_open_def by (rule leads_intros)+

lemma leads_answers [leads_intros]:
  "leads (busy g H j s0 L x) (error_answer env c msg) (busy g H j s0 L x)"
  "leads (busy g H j s0 L x) (ok_answer c) (busy g H j s0 L x)"
  unfolding error_answer_def ok_answer_def by (rule leads_intros)+

lemmas leads_call_answers [leads_intros] = leads_call [OF leads_answers(1)] leads_call [OF leads_answers(2)]

text \<open>The table.\<close>

lemma leads_find_box [leads_intros]:
  "(\<And>i. leads (busy g H j s0 L x) (k i) Q) \<Longrightarrow> leads (busy g H j s0 L x) (call (find_box nm) k) Q"
  unfolding find_box_def by (rule leads_intros | assumption)+

lemma get_box_exec': "get_box i s = Inr (b, t) \<Longrightarrow>
    t = s \<and> 0 \<le> i \<and> nat i < length (server_boxes s) \<and> b = server_boxes s ! nat i"
  by (auto simp: get_box_def call_def gets_def lift_def array_get_def split: sum.splits if_splits)

lemma leads_get_box [leads_intros]:
  assumes "\<And>b. box_ok b \<Longrightarrow> leads (busy g H j s0 L x) (k b) Q"
  shows "leads (busy g H j s0 L x) (call (get_box i) k) Q"
proof (rule leadsI)
  fix s a t assume s: "busy g H j s0 L x s" and "call (get_box i) k s = Inr (a, t)"
  then obtain b u where "get_box i s = Inr (b, u)" "k b u = Inr (a, t)" by (auto elim: call_eq_InrE)
  moreover from this(1) have "u = s" "box_ok b"
    using busyD(1) [OF s] by (auto dest!: get_box_exec' simp: table_ok_def)
  ultimately show "Q t" using assms s by (auto dest: leadsD)
qed

lemma leads_upd_box:
  assumes "\<And>b. box_ok b \<Longrightarrow> box_ok (f b) \<and> g (f b) = g b \<and> box_lock (f b) = box_lock b"
  shows "leads (busy g H j s0 L x) (upd_box i f) (busy g H j s0 L x)"
proof (rule leadsI)
  fix s a t assume b: "busy g H j s0 L x s" and u: "upd_box i f s = Inr (a, t)"
  let ?i = "nat i" and ?bs = "server_boxes s"
  from u have t: "t = s\<lparr>server_boxes := ?bs[?i := f (?bs ! ?i)]\<rparr>" "?i < length ?bs"
    by (auto simp: upd_box_def modify_def elim!: call_eq_InrE dest!: get_box_exec')
  have "\<forall>b \<in> set ?bs. box_ok b" using busyD(1) [OF b] by (simp add: table_ok_def)
  then have f: "box_ok (f (?bs ! ?i))" "g (f (?bs ! ?i)) = g (?bs ! ?i)"
    "box_lock (f (?bs ! ?i)) = box_lock (?bs ! ?i)"
    using assms [of "?bs ! ?i"] t(2) by simp_all
  have "table_ok t" using busyD(1) [OF b] f(1) by (auto simp: t table_ok_def dest: set_update_subset_insert [THEN subsetD])
  then show "busy g H j s0 L x t"
    using b f(2,3) t(2) by (auto simp: busy_def t nth_list_update locked_boxes_def)
qed

lemma leads_set_index [leads_intros]: "leads (busy g H j s0 L x) (set_index j i) (busy g H j s0 L x)"
  by (rule leadsI) (auto simp: set_index_def busy_def table_ok_def locked_boxes_def call_def gets_def lift_def modify_def
    array_set_def split: sum.splits if_splits)

lemma leads_get_index [leads_intros]:
  "(\<And>i. leads (busy g H j s0 L x) (k i) Q) \<Longrightarrow> leads (busy g H j s0 L x) (call (get_index j') k) Q"
  unfolding get_index_def by (rule leads_intros | assumption)+

lemma leads_same_password [leads_intros]:
  "(\<And>e. leads (busy g H j s0 L x) (k e) Q) \<Longrightarrow> leads (busy g H j s0 L x) (call (same_password i pw) k) Q"
  unfolding same_password_def by (rule leads_intros | assumption)+

text \<open>Strings that were copied fill their array and are terminated.\<close>

lemma strcpy_to_result:
  assumes "strcpy_to dst src = Inr a"
  shows "length a = length dst" "NUL \<in> set a"
proof -
  from assms obtain bs where bs: "c_strcpy src = Inr bs" "length bs \<le> length dst"
    "a = bs @ drop (length bs) dst" by (auto simp: strcpy_to_def split: sum.splits if_splits)
  then show "length a = length dst" by simp
  have "NUL \<in> set bs" using bs(1) by (induction src arbitrary: bs) (auto split: if_splits sum.splits)
  then show "NUL \<in> set a" using bs(3) by simp
qed

text \<open>The file system.\<close>

lemma c_arg_result: "c_arg a = Inr p \<Longrightarrow> NUL \<notin> set p"
  by (auto simp: c_arg_def c_string_no_NUL split: if_splits)

lemma busy_tfs:
  assumes "busy g H j s0 L x s" and "fs_kept f" and "fs_params f = fs_params (tfs s)"
    and "\<And>h. h \<in> H \<Longrightarrow> same_handle (tfs s) f h"
  shows "busy g H j s0 L x (s\<lparr>tfs := f\<rparr>)"
  using assms locked_boxes_cong [of "s\<lparr>tfs := f\<rparr>" s]
  by (auto simp: busy_def table_ok_def same_handle_def)

lemma leads_tfs:
  assumes "\<And>s r f. busy g H j s0 L x s \<Longrightarrow> m (tfs s) = Inr (r, f) \<Longrightarrow>
      fs_kept f \<and> fs_params f = fs_params (tfs s) \<and> (\<forall>h \<in> H. same_handle (tfs s) f h) \<and> ok r"
    and "\<And>r. ok r \<Longrightarrow> leads (busy g H j s0 L x) (k r) Q"
  shows "leads (busy g H j s0 L x) (call (in_tfs m) k) Q"
proof (rule leadsI)
  fix s a t assume s: "busy g H j s0 L x s" and c: "call (in_tfs m) k s = Inr (a, t)"
  then obtain r f where f: "m (tfs s) = Inr (r, f)" "k r (s\<lparr>tfs := f\<rparr>) = Inr (a, t)"
    by (auto simp: in_tfs_def call_def split: sum.splits)
  from assms(1) [OF s f(1)] have "busy g H j s0 L x (s\<lparr>tfs := f\<rparr>)" "ok r"
    using busy_tfs [OF s] by blast+
  with assms(2) f(2) show "Q t" by (auto dest: leadsD)
qed

lemma leads_tfs_open [leads_intros]:
  assumes p: "NUL \<notin> set p"
    and k: "\<And>fd. \<forall>h \<in> H. fd \<noteq> int h \<Longrightarrow> leads (busy g H j s0 L x) (k fd) Q"
  shows "leads (busy g H j s0 L x) (call (in_tfs (tfs_open (Some p) mode)) k) Q"
proof (rule leads_tfs [OF _ k])
  fix s r f assume s: "busy g H j s0 L x s" and f: "tfs_open (Some p) mode (tfs s) = Inr (r, f)"
  have ok: "c_ok (Some p)" using p by (simp add: c_ok_def)
  note e = tfs_open_effect [OF busyD(2) [OF s] ok f]
  have "same_handle (tfs s) f h \<and> r \<noteq> int h" if h: "h \<in> H" for h
  proof (cases "r = - 1")
    case True
    with e(3) show ?thesis by (auto simp: same_handle_def same_open_self)
  next
    case False
    with e(3) obtain n where n: "r = int n" "\<not> is_open (tfs s) (int n)" "same_handles n (tfs s) f" by blast
    with busyD(11) [OF s h] have "h \<noteq> n" by auto
    with n show ?thesis by (simp add: same_handle_def same_handlesD [OF n(3)])
  qed
  with e(1,2) show "fs_kept f \<and> fs_params f = fs_params (tfs s) \<and> (\<forall>h \<in> H. same_handle (tfs s) f h) \<and>
      (\<forall>h \<in> H. r \<noteq> int h)" by blast
qed

lemma leads_tfs_close [leads_intros]:
  assumes k: "\<And>r. leads (busy g H j s0 L x) (k r) Q" and fd: "\<forall>h \<in> H. fd \<noteq> int h"
  shows "leads (busy g H j s0 L x) (call (in_tfs (tfs_close fd)) k) Q"
proof (rule leads_tfs [where ok = "\<lambda>_. True"])
  fix s r f assume s: "busy g H j s0 L x s" and f: "tfs_close fd (tfs s) = Inr (r, f)"
  note e = tfs_close_effect [OF busyD(2) [OF s] f]
  have "same_handle (tfs s) f h" if "h \<in> H" for h
    using that fd e(3) [of h] by (simp add: same_handle_def e(4,5))
  with e(1,2) show "fs_kept f \<and> fs_params f = fs_params (tfs s) \<and> (\<forall>h \<in> H. same_handle (tfs s) f h) \<and> True"
    by blast
qed (rule k)

lemma leads_tfs_unlink [leads_intros]:
  assumes k: "\<And>r. leads (busy g H j s0 L x) (k r) Q" and p: "NUL \<notin> set p"
  shows "leads (busy g H j s0 L x) (call (in_tfs (tfs_unlink (Some p))) k) Q"
proof (rule leads_tfs [where ok = "\<lambda>_. True"])
  fix s r f assume s: "busy g H j s0 L x s" and f: "tfs_unlink (Some p) (tfs s) = Inr (r, f)"
  have ok: "c_ok (Some p)" using p by (simp add: c_ok_def)
  note e = tfs_unlink_effect [OF busyD(2) [OF s] ok f]
  show "fs_kept f \<and> fs_params f = fs_params (tfs s) \<and> (\<forall>h \<in> H. same_handle (tfs s) f h) \<and> True"
    using e(1) same_open_self [OF e(2)] by (simp add: same_handle_def)
qed (rule k)

section \<open>Handlers that keep the number of publishers\<close>

lemmas box_updates = box_ok_def string_array_def wipe_strings_def max_defs

lemma leads_strcpy_box [leads_intros]:
  assumes "\<And>a. length a = length d \<Longrightarrow> NUL \<in> set a \<Longrightarrow> leads P (k a) Q"
  shows "leads P (call (lift (strcpy_to d u)) k) Q"
  using assms strcpy_to_result by (blast intro: leads_call_lift)

lemma leads_take_entry [leads_intros]:
  "leads (busy n_pub H j s0 L x) (take_entry j i r) (busy n_pub H j s0 L x)"
  unfolding take_entry_def
  by (rule leads_intros leads_upd_box | simp add: box_updates)+

lemma take_entry_size:
  "take_entry j i r (s\<lparr>size_boxes := m\<rparr>) =
     (case take_entry j i r s of Inl e \<Rightarrow> Inl e | Inr (a, t) \<Rightarrow> Inr (a, t\<lparr>size_boxes := m\<rparr>))"
  by (simp add: take_entry_def set_index_def upd_box_def get_box_def call_def gets_def lift_def modify_def
    ret_def split: sum.split)

lemma leads_grow_boxes [leads_intros]:
  assumes fresh: "\<And>i. box_ok (raw_box env i)"
  shows "leads (busy n_pub H j s0 L x) (grow_boxes env j r) (busy n_pub H j s0 L x)"
proof (rule leadsI)
  fix s a t assume s: "busy n_pub H j s0 L x s" and g: "grow_boxes env j r s = Inr (a, t)"
  let ?n = "size_boxes s"
  let ?new = "map (\<lambda>i. (raw_box env i)\<lparr>box_free := 0, box_lock := False\<rparr>) [?n ..< 2 * ?n]"
  let ?u = "s\<lparr>server_boxes := server_boxes s @ ?new\<rparr>"
  from g have n: "2 * ?n < 2147483648" by (auto simp: grow_boxes_def exec_simps split: if_splits)
  from g have "take_entry j ?n r (?u\<lparr>size_boxes := 2 * ?n\<rparr>) = Inr ((), t)"
    by (auto simp: grow_boxes_def exec_simps take_entry_size split: if_splits elim!: call_eq_InrE)
  moreover have "\<forall>b \<in> set ?new. box_ok b" using fresh by (auto simp: box_ok_def)
  then have "busy n_pub H j s0 L x (?u\<lparr>size_boxes := 2 * ?n\<rparr>)"
    using s n by (auto simp: busy_def table_ok_def nth_append locked_boxes_def)
  ultimately show "busy n_pub H j s0 L x t" by (rule leadsD [OF leads_take_entry, rotated])
qed

lemma leads_answer_and_close [leads_intros]:
  "leads (busy g H j s0 L x) (answer_and_close env pipe m c) (busy g H j s0 L x)"
  unfolding answer_and_close_def by (rule leads_intros)+

lemma leads_create:
  assumes fresh: "\<And>i. box_ok (raw_box env i)"
  shows "leads (busy n_pub H j s0 L False) (process_manager_create env r j) (busy n_pub H j s0 L False)"
  unfolding process_manager_create_def
  by (rule leads_intros leads_upd_box fresh | assumption | erule c_arg_result | simp add: box_updates)+

lemma leads_answer_password [leads_intros]:
  "leads (busy g H j s0 L x) (answer_password env pipe c tester) (busy g H j s0 L x)"
  unfolding answer_password_def by (rule leads_intros)+

lemma leads_unlock:
  "leads (busy n_pub H j s0 L False) (process_manager_unlock env r j) (busy n_pub H j s0 L False)"
  unfolding process_manager_unlock_def
  by (rule leads_intros leads_upd_box | simp add: box_updates)+

lemma leads_lock:
  "leads (busy n_pub H j s0 L False) (process_manager_lock env q j) (busy n_pub H j s0 L False)"
  unfolding process_manager_lock_def
  by (rule leads_intros leads_upd_box | simp add: box_updates)+

lemma leads_send_entries [leads_intros]:
  "leads (busy g H j s0 L x) (send_entries env pipe k xs) (busy g H j s0 L x)"
proof (induction xs arbitrary: k)
  case (Cons y ys)
  show ?case by (simp only: send_entries.simps, (rule leads_intros Cons.IH)+)
qed (simp add: leads_ret)

lemma leads_list:
  "leads (busy n_pub H j s0 L False) (process_manager_list env r j) (busy n_pub H j s0 L False)"
  unfolding process_manager_list_def by (rule leads_intros)+

section \<open>Removing a box\<close>

definition nothing :: "box \<Rightarrow> unit" where
  "nothing b = ()"

lemma leads_remove_answer [leads_intros]:
  "leads (busy nothing H j s0 L True) (remove_answer env r j) (busy nothing H j s0 L False)"
  unfolding remove_answer_def
  by (rule leads_intros leads_upd_box | assumption | erule c_arg_result | simp add: box_updates nothing_def)+

lemma leads_remove_rest [leads_intros]:
  "leads (busy nothing H j s0 L True) (remove_rest env r j) (busy nothing H j s0 L False)"
  unfolding remove_rest_def wake_subscribers_def by (rule leads_call [OF leads_remove_answer] leads_intros)+

lemma leads_remove:
  "leads (busy nothing H j s0 L False) (process_manager_remove env r j) (busy nothing H j s0 L False)"
  unfolding process_manager_remove_def
  by (rule leads_intros leads_upd_box | simp add: box_updates)+

section \<open>The lock of a box\<close>

lemma table_ok_upd:
  assumes "table_ok s" and "i < length (server_boxes s)" and "box_ok b"
  shows "table_ok (s\<lparr>server_boxes := (server_boxes s)[i := b]\<rparr>)"
  using assms by (auto simp: table_ok_def dest: set_update_subset_insert [THEN subsetD])

lemma table_okD: "table_ok s \<Longrightarrow> i < length (server_boxes s) \<Longrightarrow> box_ok (server_boxes s ! i)"
  by (simp add: table_ok_def)

lemma busy_set_lock:
  assumes b: "busy n_pub H j s0 L x s" and i: "i < length (server_boxes s)"
  shows "busy n_pub H j s0 (if v then insert i L else L - {i}) x
    (s\<lparr>server_boxes := (server_boxes s)[i := (server_boxes s ! i)\<lparr>box_lock := v\<rparr>]\<rparr>)"
proof -
  let ?t = "s\<lparr>server_boxes := (server_boxes s)[i := (server_boxes s ! i)\<lparr>box_lock := v\<rparr>]\<rparr>"
  have "table_ok ?t"
    using table_ok_upd [OF busyD(1) [OF b] i] table_okD [OF busyD(1) [OF b] i] by (simp add: box_ok_def)
  moreover have "locked_boxes ?t = (if v then insert i L else L - {i})"
    using busyD(8) [OF b] i by (auto simp: locked_boxes_def nth_list_update)
  moreover have "n_pub ((server_boxes s)[i := (server_boxes s ! i)\<lparr>box_lock := v\<rparr>] ! k) =
      n_pub (server_boxes s ! k)" for k
    using i by (cases "k = i") simp_all
  ultimately show ?thesis using b by (simp add: busy_def)
qed

lemma leads_lock_box:
  "leads (busy n_pub H j s0 L x) (lock_box i) (\<lambda>t. 0 \<le> i \<and> nat i \<notin> L \<and>
     busy n_pub H j s0 (insert (nat i) L) x t)"
proof (rule leadsI)
  fix s a t assume s: "busy n_pub H j s0 L x s" and l: "lock_box i s = Inr (a, t)"
  from l have t: "0 \<le> i" "nat i < length (server_boxes s)" "\<not> box_lock (server_boxes s ! nat i)"
    "t = s\<lparr>server_boxes := (server_boxes s)[nat i := (server_boxes s ! nat i)\<lparr>box_lock := True\<rparr>]\<rparr>"
    by (auto simp: lock_box_def upd_box_def modify_def fail_def split: if_splits
        elim!: call_eq_InrE dest!: get_box_exec')
  moreover have "nat i \<notin> L" using t(3) busyD(8) [OF s] by (auto simp: locked_boxes_def)
  ultimately show "0 \<le> i \<and> nat i \<notin> L \<and> busy n_pub H j s0 (insert (nat i) L) x t"
    using busy_set_lock [OF s t(2), of True] by simp
qed

lemma leads_unlock_box:
  "leads (busy n_pub H j s0 L x) (unlock_box i) (busy n_pub H j s0 (L - {nat i}) x)"
proof (rule leadsI)
  fix s a t assume s: "busy n_pub H j s0 L x s" and l: "unlock_box i s = Inr (a, t)"
  from l have "nat i < length (server_boxes s)"
    "t = s\<lparr>server_boxes := (server_boxes s)[nat i := (server_boxes s ! nat i)\<lparr>box_lock := False\<rparr>]\<rparr>"
    by (auto simp: unlock_box_def upd_box_def modify_def fail_def split: if_splits
        elim!: call_eq_InrE dest!: get_box_exec')
  with busy_set_lock [OF s, of "nat i" False] show "busy n_pub H j s0 (L - {nat i}) x t" by simp
qed

lemma busy_nothing: "busy g H j s0 L x s \<Longrightarrow> busy nothing H j s0 L x s"
  by (simp add: busy_def nothing_def)

section \<open>Results\<close>

text \<open>\<open>yields P m R\<close>: from a state with \<open>P\<close>, a result \<open>a\<close> and the state after it are in \<open>R\<close>.\<close>

definition yields :: "('s \<Rightarrow> bool) \<Rightarrow> ('s, 'a) oper \<Rightarrow> ('a \<Rightarrow> 's \<Rightarrow> bool) \<Rightarrow> bool" where
  "yields P m R \<longleftrightarrow> (\<forall>s a t. P s \<longrightarrow> m s = Inr (a, t) \<longrightarrow> R a t)"

lemma yieldsI: "(\<And>s a t. P s \<Longrightarrow> m s = Inr (a, t) \<Longrightarrow> R a t) \<Longrightarrow> yields P m R"
  by (auto simp: yields_def)

lemma yieldsD: "yields P m R \<Longrightarrow> P s \<Longrightarrow> m s = Inr (a, t) \<Longrightarrow> R a t"
  by (auto simp: yields_def)

lemma yields_ret: "(\<And>s. P s \<Longrightarrow> R a s) \<Longrightarrow> yields P (ret a) R"
  by (simp add: yields_def ret_def)

lemma yields_fail: "yields P (fail e) R"
  by (simp add: yields_def fail_def)

lemma yields_call: "yields P m R \<Longrightarrow> (\<And>a. yields (R a) (k a) R') \<Longrightarrow> yields P (call m k) R'"
  by (fastforce simp: yields_def elim: call_eq_InrE)

lemma yields_leads: "leads P m Q \<Longrightarrow> (\<And>a. yields Q (k a) R) \<Longrightarrow> yields P (call m k) R"
  by (fastforce simp: yields_def leads_def elim: call_eq_InrE)

lemma yields_call_lift: "(\<And>a. r = Inr a \<Longrightarrow> yields P (k a) R) \<Longrightarrow> yields P (call (lift r) k) R"
  by (cases r) (simp_all add: yields_def exec_simps)

lemma yields_block: "leads P m Q \<Longrightarrow> yields Q (block ms k) R \<Longrightarrow> yields P (block (m # ms) k) R"
  by (simp add: yields_leads)

lemma yields_block_Nil: "yields P k R \<Longrightarrow> yields P (block [] k) R"
  by simp

lemma yields_if: "(c \<Longrightarrow> yields P m R) \<Longrightarrow> (\<not> c \<Longrightarrow> yields P n R) \<Longrightarrow> yields P (if c then m else n) R"
  by simp

lemma yields_weaken: "yields P' m R' \<Longrightarrow> (\<And>s. P s \<Longrightarrow> P' s) \<Longrightarrow> (\<And>a s. R' a s \<Longrightarrow> R a s) \<Longrightarrow> yields P m R"
  unfolding yields_def by blast

lemma leads_op: "leads P (call m ret) Q \<Longrightarrow> leads P m Q"
  by (auto simp: leads_def call_def ret_def split: sum.split)

end
