(* ===== verification/Broker_Threads.thy ===== *)
theory Broker_Threads
  imports Broker_Triples Server
begin

text \<open>
  The broker with all its threads at work: every thread is between two of the points at which
  others can interfere with it, and one step takes it to the next.  A handler of a manager's request
  is one step, as it holds the lock of the table from its first access to the last; the handler of
  a publisher is split at the end of its registration, after the opening of its box, and after each
  message; that of a subscriber also at every \<open>tfs_read\<close> and where it sleeps.  The parts make
  up the handlers of \<open>Broker\<close> (\<open>process_pub_parts\<close>, \<open>pub_loop_parts\<close>, \<open>register_sub_parts\<close>), and so do
  the steps of one thread alone (\<open>Threads_Handlers\<close>).
\<close>

section \<open>The parts of process_pub\<close>

text \<open>Lines 161 to 167: the file of the box, \<open>-1\<close> when it cannot be opened.\<close>

definition pub_open :: "env \<Rightarrow> request \<Rightarrow> int brop" where
  "pub_open env r =
     block [ignore_sigpipe, my_open env (req_pipe_name r)] (
     call (lift (c_arg (req_box_name r))) (\<lambda>path. in_tfs (tfs_open (Some path) TFS_O_APPEND)))"

text \<open>Lines 179 to 194 for a \<open>read\<close> that returned \<open>bytes\<close>: whether the loop goes on.\<close>

definition pub_message :: "env \<Rightarrow> nat \<Rightarrow> int \<Rightarrow> char list \<Rightarrow> bool brop" where
  "pub_message env index fd_tfs bytes =
     call (lift (case reader_stc (grants env) (bytes @ drop (length bytes) (raw_line env)) of
                   Inl e \<Rightarrow> Inl e
                 | Inr (Message m, _) \<Rightarrow> Inr (msg_message m)
                 | Inr _ \<Rightarrow> Inl Indeterminate)) (\<lambda>message.
     call (lift (c_strlen message)) (\<lambda>n.
     call (in_tfs (tfs_write fd_tfs message (size_add n 1))) (\<lambda>bytes_tfs.
     if bytes_tfs = - 1 then ret False
     else
       call (get_index index) (\<lambda>i.
       call (get_box i) (\<lambda>b.
       call (lift (int_add (box_size b) (to_int n))) (\<lambda>sz.
       block [upd_box i (\<lambda>b. b\<lparr>box_size := sz\<rparr>)] (ret True)))))))"

text \<open>Lines 197 to 200.\<close>

definition pub_end :: "env \<Rightarrow> char list \<Rightarrow> nat \<Rightarrow> int \<Rightarrow> unit brop" where
  "pub_end env pipe index fd_tfs =
     call (in_tfs (tfs_close fd_tfs)) (\<lambda>_.
     block [my_close env pipe] (
     call (get_index index) (\<lambda>i. upd_box i (\<lambda>b. b\<lparr>n_pub := 0\<rparr>))))"

lemma process_pub_parts:
  "process_pub env r index inputs =
     call (register_pub env r index) (\<lambda>accepted.
     if \<not> accepted then ret ()
     else
       call (pub_open env r) (\<lambda>fd_tfs.
       if fd_tfs = - 1 then my_close env (req_pipe_name r)
       else
         call (pub_loop env (req_pipe_name r) index fd_tfs inputs) (\<lambda>go_on.
         if \<not> go_on then ret () else pub_end env (req_pipe_name r) index fd_tfs)))"
  unfolding process_pub_def pub_open_def pub_end_def
  by (rule ext) (simp add: call_def split: sum.split)

lemma pub_loop_parts:
  "pub_loop env pipe index fd_tfs (bytes # rest) =
     call (gets ending) (\<lambda>e.
     if e then block [my_close env pipe] (call (in_tfs (tfs_close fd_tfs)) (\<lambda>_. ret False))
     else
       call (pub_message env index fd_tfs bytes) (\<lambda>go_on.
       if go_on then pub_loop env pipe index fd_tfs rest else ret True))"
  by (rule ext, subst pub_loop.simps)
    (simp add: pub_message_def call_def ret_def split: sum.split)

section \<open>The parts of process_sub\<close>

text \<open>Lines 53 to 65: whether the subscriber was accepted.\<close>

definition sub_register :: "request \<Rightarrow> nat \<Rightarrow> bool brop" where
  "sub_register r index =
     block [lock_boxes] (
     call (find_box (req_box_name r)) (\<lambda>found.
     call (case found of
             None \<Rightarrow> ret False
           | Some i \<Rightarrow>
               call (same_password i (req_box_password r)) (\<lambda>same.
               if \<not> same then ret False
               else
                 block [set_index index (int i)] (
                 call (get_box (int i)) (\<lambda>b.
                 call (lift (int_add (n_subs b) 1)) (\<lambda>k.
                 block [upd_box (int i) (\<lambda>b. b\<lparr>n_subs := k\<rparr>)] (ret True)))))) (\<lambda>tester.
     block [unlock_boxes] (ret tester))))"

text \<open>Lines 66 to 73, for a subscriber that was refused and for one that was accepted.\<close>

definition sub_refuse :: "env \<Rightarrow> request \<Rightarrow> unit brop" where
  "sub_refuse env r = block [my_open env (req_pipe_name r), my_close env (req_pipe_name r)] (ret ())"

definition sub_open :: "env \<Rightarrow> request \<Rightarrow> int brop" where
  "sub_open env r =
     call (lift (c_arg (req_box_name r))) (\<lambda>path.
     call (in_tfs (tfs_open (Some path) 0)) (\<lambda>fd_tfs.
     if fd_tfs = - 1 then fail ExitFailure
     else block [ignore_sigpipe, my_open env (req_pipe_name r)] (ret fd_tfs)))"

lemma register_sub_parts:
  "register_sub env r index =
     call (sub_register r index) (\<lambda>accepted.
     if \<not> accepted then call (sub_refuse env r) (\<lambda>_. ret None)
     else call (sub_open env r) (\<lambda>fd_tfs. ret (Some fd_tfs)))"
  unfolding register_sub_def sub_register_def sub_refuse_def sub_open_def
  by (rule ext) (simp add: call_def ret_def fail_def split: sum.split)

section \<open>What a thread is doing\<close>

text \<open>
  \<open>Idle\<close>: it waits for a task; \<open>Registered_pub\<close>, \<open>Registered_sub\<close>: the lock of the table was
  released, the box is not open yet; \<open>Publishing\<close>: it waits for a line of its client;
  \<open>Entering\<close>: it wants the lock of its box (first, after its messages, or when it was woken);
  \<open>Seen_nothing\<close>: \<open>tfs_read\<close> has returned 0; \<open>Sleeping\<close>: it waits on the condition variable;
  \<open>Draining\<close>: it has read \<open>value\<close> bytes into \<open>teste\<close>; \<open>Ended\<close>: the thread has returned.
\<close>

datatype activity =
    Idle
  | Registered_pub request
  | Publishing "char list" int
  | Registered_sub request
  | Entering "char list" int
  | Seen_nothing "char list" int
  | Sleeping "char list" int
  | Draining "char list" int int "char list" "char list"
  | Ended

text \<open>The end of a handler, and the test of \<open>thread_init\<close>.\<close>

definition finished :: "activity brop" where
  "finished = call (gets ending) (\<lambda>e. ret (if e then Ended else Idle))"

text \<open>The first step with a new task.\<close>

definition start_task :: "env \<Rightarrow> nat \<Rightarrow> task \<Rightarrow> activity brop" where
  "start_task env index t =
     (case (function_of t, request_of t) of
        (Some H_pub, Request r) \<Rightarrow>
          call (register_pub env r index) (\<lambda>accepted.
          if accepted then ret (Registered_pub r) else finished)
      | (Some H_sub, Request r) \<Rightarrow>
          call (sub_register r index) (\<lambda>accepted.
          if accepted then ret (Registered_sub r) else block [sub_refuse env r] finished)
      | (Some H_pub, _) \<Rightarrow> fail Indeterminate
      | (Some H_sub, _) \<Rightarrow> fail Indeterminate
      | _ \<Rightarrow> block [run_task env 0 index [] t] finished)"

text \<open>
  Lines 75 to 98: the lock of the box (while another thread holds it, there is no step), one
  \<open>tfs_read\<close>, and what follows it.
\<close>

definition sub_read :: "env \<Rightarrow> char list \<Rightarrow> nat \<Rightarrow> int \<Rightarrow> activity brop" where
  "sub_read env pipe index fd_tfs =
     call (get_index index) (\<lambda>i.
     block [lock_box i] (
     call (in_tfs (tfs_read fd_tfs 1024)) (\<lambda>r.
     if fst r = 0 then ret (Seen_nothing pipe fd_tfs)
     else
       call (gets ending) (\<lambda>e.
       if e then
         block [unlock_box i, my_close env pipe] (call (in_tfs (tfs_close fd_tfs)) (\<lambda>_. finished))
       else if fst r = - 1 then
         block [drop_sub i, my_close env pipe] (
         call (in_tfs (tfs_close fd_tfs)) (\<lambda>_. block [unlock_box i] finished))
       else
         ret (Draining pipe fd_tfs (fst r) (snd r @ drop (length (snd r)) (raw_text env)) (raw_text env))))))"

text \<open>\<open>my_cond_wait\<close> releases the lock of the box.\<close>

definition sub_sleep :: "char list \<Rightarrow> nat \<Rightarrow> int \<Rightarrow> activity brop" where
  "sub_sleep pipe index fd_tfs =
     call (get_index index) (\<lambda>i. block [unlock_box i] (ret (Sleeping pipe fd_tfs)))"

text \<open>Lines 99 to 125: one iteration, or the end of the loop.\<close>

definition sub_send :: "env \<Rightarrow> char list \<Rightarrow> nat \<Rightarrow> int \<Rightarrow> int \<Rightarrow> char list \<Rightarrow> char list \<Rightarrow> activity brop" where
  "sub_send env pipe index fd_tfs value teste message =
     call (get_index index) (\<lambda>i.
     if value \<le> 0 then block [unlock_box i] (ret (Entering pipe fd_tfs))
     else
       call (lift (strcpy_to message teste)) (\<lambda>msg.
       call (make_line env (Message \<lparr>msg_code = 10, msg_message = msg\<rparr>) 10) (\<lambda>l.
       call (write_pipe env 0 pipe l) (\<lambda>w.
       if w = Broken_pipe then
         block [drop_sub i] (
         call (in_tfs (tfs_close fd_tfs)) (\<lambda>_. block [unlock_box i] finished))
       else
         call (in_tfs (tfs_read fd_tfs 1024)) (\<lambda>r.
         if fst r = - 1 then
           block [drop_sub i, my_close env pipe] (
           call (in_tfs (tfs_close fd_tfs)) (\<lambda>_. block [unlock_box i] finished))
         else
           ret (Draining pipe fd_tfs (fst r) (snd r @ replicate (1024 - length (snd r)) NUL)
             (replicate 1024 NUL)))))))"

text \<open>
  The next step of a thread that has a task; \<open>input\<close> is what a publisher's \<open>read\<close> returns, \<open>None\<close>
  at the end of its pipe.
\<close>

fun continue_task :: "env \<Rightarrow> nat \<Rightarrow> char list option \<Rightarrow> activity \<Rightarrow> activity brop" where
  "continue_task env index input (Registered_pub r) =
     call (pub_open env r) (\<lambda>fd_tfs.
     if fd_tfs = - 1 then block [my_close env (req_pipe_name r)] finished
     else ret (Publishing (req_pipe_name r) fd_tfs))"
| "continue_task env index input (Publishing pipe fd_tfs) =
     call (gets ending) (\<lambda>e.
     if e then block [my_close env pipe] (call (in_tfs (tfs_close fd_tfs)) (\<lambda>_. finished))
     else
       case input of
         None \<Rightarrow> block [pub_end env pipe index fd_tfs] finished
       | Some bytes \<Rightarrow>
           call (pub_message env index fd_tfs bytes) (\<lambda>go_on.
           if go_on then ret (Publishing pipe fd_tfs)
           else block [pub_end env pipe index fd_tfs] finished))"
| "continue_task env index input (Registered_sub r) =
     call (sub_open env r) (\<lambda>fd_tfs. ret (Entering (req_pipe_name r) fd_tfs))"
| "continue_task env index input (Entering pipe fd_tfs) = sub_read env pipe index fd_tfs"
| "continue_task env index input (Seen_nothing pipe fd_tfs) = sub_sleep pipe index fd_tfs"
| "continue_task env index input (Draining pipe fd_tfs value teste message) =
     sub_send env pipe index fd_tfs value teste message"
| "continue_task env index input Idle = fail Indeterminate"
| "continue_task env index input (Sleeping pipe fd_tfs) = fail Indeterminate"
| "continue_task env index input Ended = fail Indeterminate"

section \<open>The broker and its threads\<close>

record cluster =
  the_server :: server
  doing :: "nat \<Rightarrow> activity"

abbreviation cluster_broker :: "cluster \<Rightarrow> broker" where
  "cluster_broker c \<equiv> the_broker (the_server c)"

datatype label =
    Line "char list"
  | Take nat task
  | Go nat "char list option"
  | Wake nat

text \<open>
  The environments \<open>E\<close> are those in which steps happen.  A sleeping thread can wake at any time:
  when somebody broadcasts on its condition variable, and spuriously, which POSIX allows.
\<close>

inductive cluster_step :: "env set \<Rightarrow> cluster \<Rightarrow> label \<Rightarrow> cluster \<Rightarrow> bool" for E where
  line: "pcq_current_size (task_queue (the_server c)) \<noteq> pcq_capacity (task_queue (the_server c)) \<Longrightarrow>
    length raw = MAX_LINE \<Longrightarrow> length bytes \<le> MAX_LINE \<Longrightarrow>
    main_iteration True (\<lambda>_. True) raw bytes (the_server c) = Inr ((), s) \<Longrightarrow>
    cluster_step E c (Line (bytes @ drop (length bytes) raw)) (c\<lparr>the_server := s\<rparr>)"
| takes: "env \<in> E \<Longrightarrow> doing c j = Idle \<Longrightarrow> j < length (thread_pool (cluster_broker c)) \<Longrightarrow>
    pcq_current_size (task_queue (the_server c)) \<noteq> 0 \<Longrightarrow>
    call (in_queue dequeue_section) (\<lambda>t. call (in_broker (start_task env j t)) (\<lambda>a. ret (t, a)))
      (the_server c) = Inr ((t, a), s) \<Longrightarrow>
    cluster_step E c (Take j t) \<lparr>the_server = s, doing = (doing c)(j := a)\<rparr>"
| goes: "env \<in> E \<Longrightarrow> (case input of None \<Rightarrow> True | Some bytes \<Rightarrow> length bytes \<le> MAX_LINE) \<Longrightarrow>
    in_broker (continue_task env j input (doing c j)) (the_server c) = Inr (a, s) \<Longrightarrow>
    cluster_step E c (Go j input) \<lparr>the_server = s, doing = (doing c)(j := a)\<rparr>"
| wakes: "doing c j = Sleeping pipe fd_tfs \<Longrightarrow>
    cluster_step E c (Wake j) (c\<lparr>doing := (doing c)(j := Entering pipe fd_tfs)\<rparr>)"

inductive cluster_run :: "env set \<Rightarrow> cluster \<Rightarrow> label list \<Rightarrow> cluster \<Rightarrow> bool" for E c where
  nil: "cluster_run E c [] c"
| snoc: "cluster_run E c ls d \<Longrightarrow> cluster_step E d l e \<Longrightarrow> cluster_run E c (ls @ [l]) e"

inductive_cases cluster_stepE: "cluster_step E c l d"

end
