(* ===== verification/Threads_Steps.thy ===== *)
theory Threads_Steps
  imports Broker_Threads
begin

text \<open>
  The steps of one thread, each as a triple: the handles of the other threads and their entries
  are as they were, the thread's own handle stays open, and the lock of its box is taken and
  released as its activity says.
\<close>

section \<open>Handles\<close>

definition own_handle :: "nat set \<Rightarrow> int \<Rightarrow> broker \<Rightarrow> bool" where
  "own_handle H fd s \<longleftrightarrow> is_open (tfs s) fd \<and> (\<forall>h \<in> H. fd \<noteq> int h)"

definition in_block :: "int \<Rightarrow> broker \<Rightarrow> bool" where
  "in_block fd s \<longleftrightarrow> offset_of (tfs s) (nat fd) \<le> BLOCK_SIZE (tfs s)"

lemma yields_tfs:
  assumes "\<And>s r f. busy g H j s0 L x s \<Longrightarrow> m (tfs s) = Inr (r, f) \<Longrightarrow> P s \<Longrightarrow>
      fs_kept f \<and> fs_params f = fs_params (tfs s) \<and> (\<forall>h \<in> H. same_handle (tfs s) f h) \<and> R r (s\<lparr>tfs := f\<rparr>)"
  shows "yields (\<lambda>s. busy g H j s0 L x s \<and> P s) (in_tfs m) (\<lambda>r t. busy g H j s0 L x t \<and> R r t)"
proof (rule yieldsI)
  fix s a t assume s: "busy g H j s0 L x s \<and> P s" and "in_tfs m s = Inr (a, t)"
  then obtain f where f: "m (tfs s) = Inr (a, f)" "t = s\<lparr>tfs := f\<rparr>" by (auto simp: in_tfs_def split: sum.splits)
  from assms [OF _ f(1)] s busy_tfs [of g H j s0 L x s f] f(2) show "busy g H j s0 L x t \<and> R a t" by blast
qed

lemma yields_open:
  assumes "NUL \<notin> set p"
  shows "yields (busy g H j s0 L x) (in_tfs (tfs_open (Some p) mode))
    (\<lambda>fd t. busy g H j s0 L x t \<and> (fd = - 1 \<or> own_handle H fd t \<and> in_block fd t))"
proof -
  have "yields (\<lambda>s. busy g H j s0 L x s \<and> True) (in_tfs (tfs_open (Some p) mode))
    (\<lambda>fd t. busy g H j s0 L x t \<and> (fd = - 1 \<or> own_handle H fd t \<and> in_block fd t))"
  proof (rule yields_tfs)
    fix s r f assume s: "busy g H j s0 L x s" and f: "tfs_open (Some p) mode (tfs s) = Inr (r, f)"
    have ok: "c_ok (Some p)" using assms by (simp add: c_ok_def)
    note e = tfs_open_effect [OF busyD(2) [OF s] ok f]
    have "(\<forall>h \<in> H. same_handle (tfs s) f h) \<and>
        (r = - 1 \<or> own_handle H r (s\<lparr>tfs := f\<rparr>) \<and> in_block r (s\<lparr>tfs := f\<rparr>))"
    proof (cases "r = - 1")
      case True
      with e(3) show ?thesis by (auto simp: same_handle_def same_open_self)
    next
      case False
      with e(3) obtain n where n: "r = int n" "\<not> is_open (tfs s) (int n)" "is_open f (int n)"
        "offset_of f n \<le> BLOCK_SIZE f" "same_handles n (tfs s) f" by blast
      have "n \<notin> H" using n(2) busyD(11) [OF s] by auto
      then have "h \<noteq> n" if "h \<in> H" for h using that by auto
      with n \<open>n \<notin> H\<close> show ?thesis
        by (auto simp: same_handle_def same_handlesD [OF n(5)] own_handle_def in_block_def)
    qed
    with e(1,2) show "fs_kept f \<and> fs_params f = fs_params (tfs s) \<and> (\<forall>h \<in> H. same_handle (tfs s) f h) \<and>
        (r = - 1 \<or> own_handle H r (s\<lparr>tfs := f\<rparr>) \<and> in_block r (s\<lparr>tfs := f\<rparr>))" by simp
  qed
  then show ?thesis by simp
qed

lemma yields_read:
  "yields (\<lambda>s. busy g H j s0 L x s \<and> own_handle H fd s) (in_tfs (tfs_read fd n))
    (\<lambda>r t. busy g H j s0 L x t \<and> own_handle H fd t)"
proof (rule yields_tfs)
  fix s r f assume s: "busy g H j s0 L x s" and f: "tfs_read fd n (tfs s) = Inr (r, f)" and o: "own_handle H fd s"
  note e = tfs_read_effect' [OF busyD(2) [OF s] f]
  from e o show "fs_kept f \<and> fs_params f = fs_params (tfs s) \<and> (\<forall>h \<in> H. same_handle (tfs s) f h) \<and>
      own_handle H fd (s\<lparr>tfs := f\<rparr>)"
    by (auto simp: same_handle_def own_handle_def)
qed

lemma yields_write:
  assumes "len \<le> length buffer" and "length buffer = 1024"
  shows "yields (\<lambda>s. busy g H j s0 L x s \<and> own_handle H fd s \<and> in_block fd s) (in_tfs (tfs_write fd buffer len))
    (\<lambda>r t. busy g H j s0 L x t \<and> own_handle H fd t \<and> in_block fd t)"
proof (rule yields_tfs)
  fix s r f assume s: "busy g H j s0 L x s" and f: "tfs_write fd buffer len (tfs s) = Inr (r, f)"
    and o: "own_handle H fd s \<and> in_block fd s"
  then obtain h where h: "fd = int h" by (auto simp: own_handle_def elim: is_open_nat)
  have b: "len + BLOCK_SIZE (tfs s) < size_mod"
    using wf_bounds [OF fs_invD(1) [OF fs_keptD(1) [OF busyD(2) [OF s]]]] assms by simp
  from o h have "is_open (tfs s) (int h)" "offset_of (tfs s) h \<le> BLOCK_SIZE (tfs s)"
    by (simp_all add: own_handle_def in_block_def)
  note e = tfs_write_effect' [OF busyD(2) [OF s] this assms(1) b f [unfolded h]]
  have "h \<notin> H" using o h by (auto simp: own_handle_def)
  then have "same_handle (tfs s) f k" if "k \<in> H" for k
    using that same_handlesD [OF e(5), of k] by (auto simp: same_handle_def)
  with e o h show "fs_kept f \<and> fs_params f = fs_params (tfs s) \<and> (\<forall>h \<in> H. same_handle (tfs s) f h) \<and>
      own_handle H fd (s\<lparr>tfs := f\<rparr>) \<and> in_block fd (s\<lparr>tfs := f\<rparr>)"
    by (simp add: own_handle_def in_block_def)
qed

text \<open>Operations that do not touch the file system.\<close>

definition keeps_tfs :: "'a brop \<Rightarrow> bool" where
  "keeps_tfs m \<longleftrightarrow> (\<forall>s a t. m s = Inr (a, t) \<longrightarrow> tfs t = tfs s)"

lemma keeps_tfs_ops [intro]:
  "keeps_tfs ignore_sigpipe" "keeps_tfs (my_open env nm)" "keeps_tfs (make_line env m c)"
  "keeps_tfs (write_pipe env k nm l)" "keeps_tfs (upd_box i f)" "keeps_tfs (lock_box i)"
  "keeps_tfs (unlock_box i)"
proof -
  have c: "keeps_tfs (log_io e)" "keeps_tfs (upd_box i f)" for e i f
    by (auto simp: keeps_tfs_def log_io_def upd_box_def modify_def elim!: call_eq_InrE dest!: get_box_exec')
  show "keeps_tfs ignore_sigpipe" by (simp add: keeps_tfs_def ignore_sigpipe_def modify_def)
  show "keeps_tfs (make_line env m c)"
    by (simp add: keeps_tfs_def make_line_def lift_def split: sum.split)
  show "keeps_tfs (my_open env nm)"
    using c(1) by (auto simp: keeps_tfs_def my_open_def open_pipe_def lift_def ret_def fail_def
      split: sum.splits if_splits elim!: call_eq_InrE)
  show "keeps_tfs (write_pipe env k nm l)"
    using c(1) by (auto simp: keeps_tfs_def write_pipe_def gets_def lift_def ret_def fail_def
      split: sum.splits if_splits write_result.splits elim!: call_eq_InrE)
  show "keeps_tfs (upd_box i f)" by (rule c)
  show "keeps_tfs (lock_box i)" "keeps_tfs (unlock_box i)"
    using c(2) by (auto simp: keeps_tfs_def lock_box_def unlock_box_def fail_def split: if_splits
      elim!: call_eq_InrE dest!: get_box_exec')
qed

lemma leads_own:
  assumes "leads P m Q" and "keeps_tfs m"
  shows "leads (\<lambda>s. P s \<and> own_handle H fd s) m (\<lambda>s. Q s \<and> own_handle H fd s)"
    and "leads (\<lambda>s. P s \<and> own_handle H fd s \<and> in_block fd s) m (\<lambda>s. Q s \<and> own_handle H fd s \<and> in_block fd s)"
  using assms by (auto simp: leads_def keeps_tfs_def own_handle_def in_block_def)

section \<open>Publishers\<close>

lemma leads_close:
  "\<forall>h \<in> H. fd \<noteq> int h \<Longrightarrow> leads (busy g H j s0 L x) (in_tfs (tfs_close fd)) (busy g H j s0 L x)"
  by (rule leads_op) (rule leads_tfs_close leads_ret | assumption)+

lemma yields_pub_open:
  "yields (busy g H j s0 L x) (pub_open env r)
    (\<lambda>fd t. busy g H j s0 L x t \<and> (fd = - 1 \<or> own_handle H fd t \<and> in_block fd t))"
proof -
  have "yields (busy g H j s0 L x)
      (call (lift (c_arg (req_box_name r))) (\<lambda>path. in_tfs (tfs_open (Some path) TFS_O_APPEND)))
      (\<lambda>fd t. busy g H j s0 L x t \<and> (fd = - 1 \<or> own_handle H fd t \<and> in_block fd t))"
  proof (cases "c_arg (req_box_name r)")
    case (Inr p)
    then show ?thesis
      using yields_open [OF c_arg_result [OF Inr]] by (simp add: yields_def exec_simps)
  qed (simp add: yields_def exec_simps)
  then show ?thesis
    unfolding pub_open_def
    by (intro yields_block [OF leads_unit_ops(2)] yields_block [OF leads_my_open] yields_block_Nil)
qed

lemma leads_pub_end:
  assumes "\<forall>h \<in> H. fd \<noteq> int h"
  shows "leads (busy nothing H j s0 L x) (pub_end env pipe k fd) (busy nothing H j s0 L x)"
  unfolding pub_end_def
  by (rule leads_intros leads_upd_box assms | simp add: box_updates nothing_def)+

lemma read_message_array:
  assumes "reader_stc gr l = Inr (Message m, l')"
  shows "length (msg_message m) = 1024"
proof -
  from assms obtain c l1 where "reader_stc_message gr c l1 = Inr (m, l')"
    by (auto simp: reader_stc_def Let_def ret_def split: if_splits elim!: call_eq_InrE)
  then show ?thesis
    by (auto simp: reader_stc_message_def ret_def get_bytes_def split: if_splits elim!: call_eq_InrE)
qed

lemma c_strlen_less: "c_strlen a = Inr n \<Longrightarrow> n < length a"
  by (induction a arbitrary: n) (auto split: if_splits sum.splits)

lemma yields_pub_message:
  "yields (\<lambda>s. busy n_pub H j s0 L x s \<and> own_handle H fd s \<and> in_block fd s) (pub_message env k fd bytes)
    (\<lambda>_ t. busy n_pub H j s0 L x t \<and> own_handle H fd t \<and> in_block fd t)"
proof (rule yieldsI)
  let ?P = "\<lambda>s. busy n_pub H j s0 L x s \<and> own_handle H fd s \<and> in_block fd s"
  fix s go t assume P: "?P s" and r: "pub_message env k fd bytes s = Inr (go, t)"
  let ?read = "reader_stc (grants env) (bytes @ drop (length bytes) (raw_line env))"
  from r obtain message n v s1 where m: "(case ?read of Inl e \<Rightarrow> Inl e
      | Inr (Message m, _) \<Rightarrow> Inr (msg_message m) | Inr _ \<Rightarrow> Inl Indeterminate) = Inr message"
    and n: "c_strlen message = Inr n"
    and w: "in_tfs (tfs_write fd message (size_add n 1)) s = Inr (v, s1)"
    and rest: "(if v = - 1 then ret False
      else call (get_index k) (\<lambda>i. call (get_box i) (\<lambda>b.
        call (lift (int_add (box_size b) (to_int n))) (\<lambda>sz.
        block [upd_box i (\<lambda>b. b\<lparr>box_size := sz\<rparr>)] (ret True))))) s1 = Inr (go, t)"
    by (auto simp: pub_message_def lift_def split: sum.splits elim!: call_eq_InrE)
  from m have len: "length message = 1024"
    by (auto split: sum.splits object.splits dest: read_message_array)
  then have "size_add n 1 \<le> length message" using c_strlen_less [OF n] by simp
  from yieldsD [OF yields_write [OF this len] P w] have s1: "?P s1" .
  have "leads ?P (upd_box i (\<lambda>b. b\<lparr>box_size := sz\<rparr>)) ?P" for i sz
    by (rule leads_own(2) [OF leads_upd_box]) (auto simp: box_updates)
  note upd = leadsD [OF this s1]
  from rest have "t = s1 \<or> (\<exists>i sz. upd_box i (\<lambda>b. b\<lparr>box_size := sz\<rparr>) s1 = Inr ((), t))"
    by (auto simp: ret_def get_index_def gets_def lift_def split: if_splits sum.splits
        elim!: call_eq_InrE dest!: get_box_exec')
  then show "?P t" using s1 upd by blast
qed

section \<open>Subscribers\<close>

lemma yields_finished: "yields P finished (\<lambda>a t. (a = Idle \<or> a = Ended) \<and> P t)"
  by (simp add: yields_def finished_def call_def gets_def ret_def)

text \<open>The handle an activity uses; the activities that hold the lock of their box; those that have one.\<close>

fun handle_in :: "activity \<Rightarrow> int option" where
  "handle_in (Publishing pipe fd) = Some fd"
| "handle_in (Entering pipe fd) = Some fd"
| "handle_in (Seen_nothing pipe fd) = Some fd"
| "handle_in (Sleeping pipe fd) = Some fd"
| "handle_in (Draining pipe fd v te me) = Some fd"
| "handle_in a = None"

fun holds_lock :: "activity \<Rightarrow> bool" where
  "holds_lock (Seen_nothing pipe fd) = True"
| "holds_lock (Draining pipe fd v te me) = True"
| "holds_lock a = False"

fun has_box :: "activity \<Rightarrow> bool" where
  "has_box Idle = False"
| "has_box Ended = False"
| "has_box a = True"

fun publishes :: "activity \<Rightarrow> bool" where
  "publishes (Registered_pub r) = True"
| "publishes (Publishing pipe fd) = True"
| "publishes a = False"

text \<open>
  What holds after a step of the thread \<open>k\<close>, whose box is \<open>i\<close>, while other threads hold the locks of
  the boxes \<open>L\<close>.
\<close>

definition after_step :: "(box \<Rightarrow> 'o) \<Rightarrow> nat set \<Rightarrow> nat \<Rightarrow> broker \<Rightarrow> nat set \<Rightarrow> nat \<Rightarrow> activity \<Rightarrow> broker \<Rightarrow> bool" where
  "after_step g H j s0 L i a t \<longleftrightarrow> busy g H j s0 (if holds_lock a then insert i L else L) False t \<and>
     (holds_lock a \<longrightarrow> i \<notin> L) \<and> (\<forall>fd. handle_in a = Some fd \<longrightarrow> own_handle H fd t) \<and>
     (\<forall>p fd. a = Publishing p fd \<longrightarrow> in_block fd t)"

lemma after_finished:
  "yields (busy g H j s0 L False) finished (after_step g H j s0 L i)"
  by (rule yields_weaken [OF yields_finished [of "busy g H j s0 L False"]]) (auto simp: after_step_def)

lemma yields_get_index:
  assumes "k \<noteq> j" and "k < length (thread_pool s0)" and "thread_pool s0 ! k = int i"
    and "yields (\<lambda>s. busy g H j s0 L x s \<and> P s) (m (int i)) R"
  shows "yields (\<lambda>s. busy g H j s0 L x s \<and> P s) (call (get_index k) m) R"
proof (rule yieldsI)
  fix s a t assume s: "busy g H j s0 L x s \<and> P s" and r: "call (get_index k) m s = Inr (a, t)"
  have "get_index k s = Inr (int i, s)"
    using s assms(1-3) busyD(4,5) [of g H j s0 L x s] by (simp add: get_index_def exec_simps array_get_def)
  with r yieldsD [OF assms(4) s] show "R a t" by (simp add: exec_simps)
qed

text \<open>The end of a subscriber that holds the lock of its box.\<close>

lemma leads_drop_sub: "leads (busy n_pub H j s0 L x) (drop_sub i) (busy n_pub H j s0 L x)"
  unfolding drop_sub_def
  by (rule leads_intros leads_upd_box | simp add: box_updates)+

lemma yields_give_up:
  assumes "i \<notin> L" and "\<forall>h \<in> H. fd \<noteq> int h"
  shows "yields (busy n_pub H j s0 (insert i L) False)
    (call (in_tfs (tfs_close fd)) (\<lambda>_. block [unlock_box (int i)] finished)) (after_step n_pub H j s0 L i)"
proof -
  have "leads (busy n_pub H j s0 (insert i L) False) (unlock_box (int i)) (busy n_pub H j s0 L False)"
    using leads_unlock_box [of H j s0 "insert i L" False "int i"] assms(1) by simp
  note un = this
  show ?thesis
    by (intro yields_leads [OF leads_close [OF assms(2)]] yields_block [OF un] yields_block_Nil after_finished)
qed

lemma own_apart: "own_handle H fd s \<Longrightarrow> \<forall>h \<in> H. fd \<noteq> int h"
  by (simp add: own_handle_def)

lemma yields_own:
  assumes "\<forall>h \<in> H. fd \<noteq> int h \<Longrightarrow> yields (\<lambda>s. P s \<and> own_handle H fd s) m R"
  shows "yields (\<lambda>s. P s \<and> own_handle H fd s) m R"
  using assms by (auto simp: yields_def own_handle_def)

lemma yields_sub_read:
  assumes k: "k \<noteq> j" "k < length (thread_pool s0)" "thread_pool s0 ! k = int i"
  shows "yields (\<lambda>s. busy n_pub H j s0 L False s \<and> own_handle H fd s) (sub_read env pipe k fd)
    (after_step n_pub H j s0 L i)"
proof -
  let ?B = "busy n_pub H j s0 L False" and ?B' = "busy n_pub H j s0 (insert i L) False"
  let ?O = "own_handle H fd"
  have lk: "leads (\<lambda>s. ?B s \<and> ?O s) (lock_box (int i)) (\<lambda>s. (i \<notin> L \<and> ?B' s) \<and> ?O s)"
    using leads_own(1) [OF leads_lock_box [of H j s0 L False "int i"] keeps_tfs_ops(6), of H fd]
    by simp
  have "yields (\<lambda>s. ?B' s \<and> ?O s) (in_tfs (tfs_read fd 1024)) (\<lambda>r s. ?B' s \<and> ?O s)"
    by (rule yields_read)
  then have rd: "yields (\<lambda>s. (i \<notin> L \<and> ?B' s) \<and> ?O s) (in_tfs (tfs_read fd 1024)) (\<lambda>r s. i \<notin> L \<and> ?B' s \<and> ?O s)"
    unfolding yields_def by blast
  have un: "leads ?B' (unlock_box (int i)) ?B" if "i \<notin> L"
    using leads_unlock_box [of H j s0 "insert i L" False "int i"] that by simp
  have rest: "yields (\<lambda>s. i \<notin> L \<and> ?B' s \<and> ?O s)
      (if fst r = 0 then ret (Seen_nothing pipe fd)
       else call (gets ending) (\<lambda>e.
         if e then
           block [unlock_box (int i), my_close env pipe] (call (in_tfs (tfs_close fd)) (\<lambda>_. finished))
         else if fst r = - 1 then
           block [drop_sub (int i), my_close env pipe] (
           call (in_tfs (tfs_close fd)) (\<lambda>_. block [unlock_box (int i)] finished))
         else ret (Draining pipe fd (fst r) (snd r @ drop (length (snd r)) (raw_text env)) (raw_text env))))
      (after_step n_pub H j s0 L i)" (is "yields _ ?m _") for r :: "int \<times> char list"
  proof (rule yieldsI)
    fix s a t assume s: "i \<notin> L \<and> ?B' s \<and> ?O s" and m: "?m s = Inr (a, t)"
    have h: "\<forall>h \<in> H. fd \<noteq> int h" using s own_apart by blast
    have e: "yields ?B' (block [unlock_box (int i), my_close env pipe]
        (call (in_tfs (tfs_close fd)) (\<lambda>_. finished))) (after_step n_pub H j s0 L i)"
      using s by (intro yields_block [OF un] yields_block [OF leads_pipes(2)] yields_block_Nil
        yields_leads [OF leads_close [OF h]] after_finished) simp
    have g: "yields ?B' (block [drop_sub (int i), my_close env pipe] (
        call (in_tfs (tfs_close fd)) (\<lambda>_. block [unlock_box (int i)] finished))) (after_step n_pub H j s0 L i)"
      using s by (intro yields_block [OF leads_drop_sub] yields_block [OF leads_pipes(2)] yields_block_Nil
        yields_give_up h) simp
    have b: "?B' s" using s by simp
    show "after_step n_pub H j s0 L i a t"
    proof (cases "fst r = 0 \<or> \<not> ending s \<and> fst r \<noteq> - 1")
      case True
      then show ?thesis using s m by (auto simp: exec_simps after_step_def split: if_splits)
    next
      case False
      then show ?thesis
        using m yieldsD [OF e b] yieldsD [OF g b] by (simp add: exec_simps split: if_splits)
    qed
  qed
  show ?thesis
    unfolding sub_read_def
    by (rule yields_get_index [OF k]) (intro yields_block [OF lk] yields_block_Nil yields_call [OF rd] rest)
qed

lemma yields_sub_sleep:
  assumes k: "k \<noteq> j" "k < length (thread_pool s0)" "thread_pool s0 ! k = int i" and i: "i \<notin> L"
  shows "yields (\<lambda>s. busy n_pub H j s0 (insert i L) False s \<and> own_handle H fd s) (sub_sleep pipe k fd)
    (after_step n_pub H j s0 L i)"
proof -
  have "leads (\<lambda>s. busy n_pub H j s0 (insert i L) False s \<and> own_handle H fd s) (unlock_box (int i))
      (\<lambda>s. busy n_pub H j s0 L False s \<and> own_handle H fd s)"
    using leads_own(1) [OF leads_unlock_box [of H j s0 "insert i L" False "int i"] keeps_tfs_ops(7), of H fd] i
    by simp
  note un = this
  show ?thesis
    unfolding sub_sleep_def
    by (intro yields_get_index [OF k] yields_block [OF un] yields_block_Nil yields_ret) (simp_all add: after_step_def)
qed

lemma yields_sub_send:
  assumes k: "k \<noteq> j" "k < length (thread_pool s0)" "thread_pool s0 ! k = int i" and i: "i \<notin> L"
  shows "yields (\<lambda>s. busy n_pub H j s0 (insert i L) False s \<and> own_handle H fd s)
    (sub_send env pipe k fd value teste message) (after_step n_pub H j s0 L i)"
proof -
  let ?B = "busy n_pub H j s0 L False" and ?B' = "busy n_pub H j s0 (insert i L) False"
  let ?O = "own_handle H fd"
  have un: "leads ?B' (unlock_box (int i)) ?B"
    using leads_unlock_box [of H j s0 "insert i L" False "int i"] i by simp
  note uno = leads_own(1) [OF un keeps_tfs_ops(7), of H fd]
  have rest: "yields (\<lambda>s. ?B' s \<and> ?O s)
      (if fst r = - 1 then
         block [drop_sub (int i), my_close env pipe] (
         call (in_tfs (tfs_close fd)) (\<lambda>_. block [unlock_box (int i)] finished))
       else ret (Draining pipe fd (fst r) (snd r @ replicate (1024 - length (snd r)) NUL) (replicate 1024 NUL)))
      (after_step n_pub H j s0 L i)" (is "yields _ ?m _") for r :: "int \<times> char list"
  proof (rule yieldsI)
    fix s a t assume s: "?B' s \<and> ?O s" and m: "?m s = Inr (a, t)"
    have h: "\<forall>h \<in> H. fd \<noteq> int h" using s own_apart by blast
    have g: "yields ?B' (block [drop_sub (int i), my_close env pipe] (
        call (in_tfs (tfs_close fd)) (\<lambda>_. block [unlock_box (int i)] finished))) (after_step n_pub H j s0 L i)"
      using i by (intro yields_block [OF leads_drop_sub] yields_block [OF leads_pipes(2)] yields_block_Nil
        yields_give_up h)
    from s have "?B' s" by simp
    note g = yieldsD [OF g this]
    show "after_step n_pub H j s0 L i a t"
    proof (cases "fst r = - 1")
      case True
      with g m show ?thesis by simp
    next
      case False
      with s m i show ?thesis by (auto simp: exec_simps after_step_def)
    qed
  qed
  have wrote: "yields (\<lambda>s. ?B' s \<and> ?O s)
      (if w = Broken_pipe then
         block [drop_sub (int i)] (call (in_tfs (tfs_close fd)) (\<lambda>_. block [unlock_box (int i)] finished))
       else call (in_tfs (tfs_read fd 1024)) (\<lambda>r.
         if fst r = - 1 then
           block [drop_sub (int i), my_close env pipe] (
           call (in_tfs (tfs_close fd)) (\<lambda>_. block [unlock_box (int i)] finished))
         else ret (Draining pipe fd (fst r) (snd r @ replicate (1024 - length (snd r)) NUL) (replicate 1024 NUL))))
      (after_step n_pub H j s0 L i)" for w
  proof (cases "w = Broken_pipe")
    case True
    have "yields ?B' (block [drop_sub (int i)] (
        call (in_tfs (tfs_close fd)) (\<lambda>_. block [unlock_box (int i)] finished))) (after_step n_pub H j s0 L i)"
      if "\<forall>h \<in> H. fd \<noteq> int h"
      using i that by (intro yields_block [OF leads_drop_sub] yields_block_Nil yields_give_up)
    with True show ?thesis by (auto simp: yields_def own_handle_def simp del: block.simps)
  next
    case False
    then show ?thesis by (simp only: if_False) (rule yields_call [OF yields_read rest])
  qed
  have "yields (\<lambda>s. ?B' s \<and> ?O s) (call (lift (strcpy_to message teste)) (\<lambda>msg.
      call (make_line env (Message \<lparr>msg_code = 10, msg_message = msg\<rparr>) 10) (\<lambda>l.
      call (write_pipe env 0 pipe l) (\<lambda>w.
      if w = Broken_pipe then
        block [drop_sub (int i)] (call (in_tfs (tfs_close fd)) (\<lambda>_. block [unlock_box (int i)] finished))
      else call (in_tfs (tfs_read fd 1024)) (\<lambda>r.
        if fst r = - 1 then
          block [drop_sub (int i), my_close env pipe] (
          call (in_tfs (tfs_close fd)) (\<lambda>_. block [unlock_box (int i)] finished))
        else ret (Draining pipe fd (fst r) (snd r @ replicate (1024 - length (snd r)) NUL)
          (replicate 1024 NUL))))))) (after_step n_pub H j s0 L i)"
    by (rule yields_leads [OF leads_lift] yields_leads [OF leads_own(1) [OF leads_pipes(4) keeps_tfs_ops(3)]]
      yields_leads [OF leads_own(1) [OF leads_pipes(3) keeps_tfs_ops(4)]] wrote)+
  moreover have "yields (\<lambda>s. ?B' s \<and> ?O s) (block [unlock_box (int i)] (ret (Entering pipe fd)))
      (after_step n_pub H j s0 L i)"
    by (intro yields_block [OF uno] yields_block_Nil yields_ret) (simp add: after_step_def)
  ultimately show ?thesis
    unfolding sub_send_def by (intro yields_get_index [OF k] yields_if)
qed

section \<open>Registration\<close>

lemma leads_sub_register:
  "leads (busy n_pub H j s0 L False) (sub_register r j) (busy n_pub H j s0 L False)"
  unfolding sub_register_def
  by (rule leads_intros leads_upd_box | simp add: box_updates)+

lemma yields_sub_open:
  "yields (busy g H j s0 L x) (sub_open env r) (\<lambda>fd t. busy g H j s0 L x t \<and> own_handle H fd t)"
proof -
  have "yields (busy g H j s0 L x) (call (in_tfs (tfs_open (Some p) 0)) (\<lambda>fd_tfs.
      if fd_tfs = - 1 then fail ExitFailure
      else block [ignore_sigpipe, my_open env (req_pipe_name r)] (ret fd_tfs)))
      (\<lambda>fd t. busy g H j s0 L x t \<and> own_handle H fd t)" if "NUL \<notin> set p" for p
  proof (rule yields_call [OF yields_open [OF that]])
    fix fd
    have "yields (\<lambda>t. busy g H j s0 L x t \<and> own_handle H fd t)
        (block [ignore_sigpipe, my_open env (req_pipe_name r)] (ret fd))
        (\<lambda>fd t. busy g H j s0 L x t \<and> own_handle H fd t)"
      by (intro yields_block [OF leads_own(1) [OF leads_unit_ops(2) keeps_tfs_ops(1)]]
        yields_block [OF leads_own(1) [OF leads_my_open keeps_tfs_ops(2)]] yields_block_Nil yields_ret)
    then show "yields (\<lambda>t. busy g H j s0 L x t \<and> (fd = - 1 \<or> own_handle H fd t \<and> in_block fd t))
        (if fd = - 1 then fail ExitFailure
         else block [ignore_sigpipe, my_open env (req_pipe_name r)] (ret fd))
        (\<lambda>fd t. busy g H j s0 L x t \<and> own_handle H fd t)"
      by (intro yields_if yields_fail) (rule yields_weaken, assumption, auto)
  qed
  then have "yields (busy g H j s0 L x) (call (lift (c_arg (req_box_name r))) (\<lambda>p.
      call (in_tfs (tfs_open (Some p) 0)) (\<lambda>fd_tfs.
      if fd_tfs = - 1 then fail ExitFailure
      else block [ignore_sigpipe, my_open env (req_pipe_name r)] (ret fd_tfs))))
      (\<lambda>fd t. busy g H j s0 L x t \<and> own_handle H fd t)"
    by (rule yields_call_lift) (erule c_arg_result)
  then show ?thesis unfolding sub_open_def .
qed

lemma leads_register_pub:
  "leads (busy nothing H j s0 L False) (register_pub env r j) (busy nothing H j s0 L False)"
  unfolding register_pub_def Let_def
  by (rule leads_intros leads_upd_box | simp add: box_updates nothing_def)+

end
