(* ===== verification/Threads_Invariant.thy ===== *)
theory Threads_Invariant
  imports Threads_Steps
begin

text \<open>
  The invariant of the broker with its threads: the table and the file system are well-formed, every
  thread that serves a publisher or a subscriber has a box and a handle of its own, and the locks of
  the boxes are held by exactly the subscribers that are between \<open>tfs_read\<close> and the release.
\<close>

definition others_handles :: "cluster \<Rightarrow> nat \<Rightarrow> nat set" where
  "others_handles c j = {h. \<exists>k. k \<noteq> j \<and> handle_in (doing c k) = Some (int h)}"

definition others_locks :: "cluster \<Rightarrow> nat \<Rightarrow> nat set" where
  "others_locks c j =
     {i. \<exists>k. k \<noteq> j \<and> holds_lock (doing c k) \<and> thread_pool (cluster_broker c) ! k = int i}"

definition cluster_inv :: "cluster \<Rightarrow> bool" where
  "cluster_inv c \<longleftrightarrow> pcq_wf (task_queue (the_server c)) \<and> table_ok (cluster_broker c) \<and>
     fs_kept (tfs (cluster_broker c)) \<and> \<not> box_size_lock (cluster_broker c) \<and>
     (\<forall>j. has_box (doing c j) \<longrightarrow> j < length (thread_pool (cluster_broker c)) \<and>
       (\<exists>i < length (server_boxes (cluster_broker c)). thread_pool (cluster_broker c) ! j = int i)) \<and>
     (\<forall>j fd. handle_in (doing c j) = Some fd \<longrightarrow> own_handle (others_handles c j) fd (cluster_broker c)) \<and>
     (\<forall>j p fd. doing c j = Publishing p fd \<longrightarrow> in_block fd (cluster_broker c)) \<and>
     (\<forall>j i. holds_lock (doing c j) \<longrightarrow> thread_pool (cluster_broker c) ! j = int i \<longrightarrow> i \<notin> others_locks c j) \<and>
     locked_boxes (cluster_broker c) =
       {i. \<exists>j. holds_lock (doing c j) \<and> thread_pool (cluster_broker c) ! j = int i}"

lemma cluster_invD:
  assumes "cluster_inv c"
  shows "pcq_wf (task_queue (the_server c))" "table_ok (cluster_broker c)" "fs_kept (tfs (cluster_broker c))"
    "\<not> box_size_lock (cluster_broker c)"
    "has_box (doing c j) \<Longrightarrow> j < length (thread_pool (cluster_broker c))"
    "has_box (doing c j) \<Longrightarrow> \<exists>i < length (server_boxes (cluster_broker c)). thread_pool (cluster_broker c) ! j = int i"
    "handle_in (doing c j) = Some fd \<Longrightarrow> own_handle (others_handles c j) fd (cluster_broker c)"
    "doing c j = Publishing p fd \<Longrightarrow> in_block fd (cluster_broker c)"
    "holds_lock (doing c j) \<Longrightarrow> thread_pool (cluster_broker c) ! j = int i \<Longrightarrow> i \<notin> others_locks c j"
    "locked_boxes (cluster_broker c) =
       {i. \<exists>j. holds_lock (doing c j) \<and> thread_pool (cluster_broker c) ! j = int i}"
  using assms by (auto simp: cluster_inv_def)

text \<open>The state from which a step of the thread \<open>j\<close> starts.\<close>

lemma others_open:
  assumes "cluster_inv c" and "h \<in> others_handles c j"
  shows "is_open (tfs (cluster_broker c)) (int h)"
  using assms cluster_invD(7) [OF assms(1)] by (auto simp: others_handles_def own_handle_def)

lemma locked_split:
  assumes "cluster_inv c"
  shows "locked_boxes (cluster_broker c) =
    (if holds_lock (doing c j) then {i. thread_pool (cluster_broker c) ! j = int i} else {}) \<union> others_locks c j"
  unfolding cluster_invD(10) [OF assms] others_locks_def by auto

lemma step_start:
  assumes "cluster_inv c"
  shows "busy g (others_handles c j) J (cluster_broker c) (locked_boxes (cluster_broker c)) False (cluster_broker c)"
  by (rule busy_start) (use cluster_invD(2-4) [OF assms] others_open [OF assms] in simp_all)

lemma has_boxI: "handle_in a = Some fd \<Longrightarrow> has_box a" "holds_lock a \<Longrightarrow> has_box a"
  by (cases a; simp)+

text \<open>A step of the thread \<open>j\<close>, which ends in the activity \<open>a\<close> with the box \<open>i\<close>.\<close>

text \<open>The handles and the locks of the other threads are not those of the step.\<close>

lemma others_keep_handles:
  assumes c: "cluster_inv c" and b: "busy nothing (others_handles c j) J (cluster_broker c) L False t"
    and h: "\<And>fd. handle_in a = Some fd \<Longrightarrow> own_handle (others_handles c j) fd t"
    and k: "k \<noteq> j" "handle_in (doing c k) = Some fd"
    and d: "doing d = (doing c)(j := a)"
  shows "own_handle (others_handles d k) fd t \<and> (\<forall>p. doing c k = Publishing p fd \<longrightarrow> in_block fd t)"
proof -
  note ok = cluster_invD(7) [OF c k(2)]
  then obtain n where n: "fd = int n" by (auto simp: own_handle_def elim: is_open_nat)
  then have H: "n \<in> others_handles c j" using k by (auto simp: others_handles_def)
  note sh = busyD(11) [OF b H] busyD(12) [OF b H]
  have "\<forall>m \<in> others_handles d k. fd \<noteq> int m"
  proof
    fix m assume "m \<in> others_handles d k"
    then obtain k' where k': "k' \<noteq> k" "handle_in (((doing c)(j := a)) k') = Some (int m)" by (auto simp: others_handles_def d)
    show "fd \<noteq> int m"
    proof (cases "k' = j")
      case True
      with k' h have "own_handle (others_handles c j) (int m) t" by simp
      with H n show ?thesis by (auto simp: own_handle_def)
    next
      case False
      with k' ok show ?thesis by (auto simp: own_handle_def others_handles_def)
    qed
  qed
  moreover have "in_block fd t" if "doing c k = Publishing p fd" for p
    using cluster_invD(8) [OF c that] sh(2) busyD(10) [OF b] n by (simp add: in_block_def same_handle_def)
  ultimately show ?thesis using sh(1) n by (auto simp: own_handle_def)
qed

lemma others_keep_locks:
  assumes c: "cluster_inv c" and tp: "\<And>k. k \<noteq> j \<Longrightarrow> has_box (doing c k) \<Longrightarrow> thread_pool t ! k = thread_pool (cluster_broker c) ! k"
    and l: "holds_lock a \<Longrightarrow> i \<notin> others_locks c j \<and> thread_pool t ! j = int i"
    and d: "doing d = (doing c)(j := a)" "cluster_broker d = t"
    and k: "holds_lock (doing d k)" "thread_pool t ! k = int n"
  shows "n \<notin> others_locks d k"
proof (cases "k = j")
  case True
  have "others_locks d j = others_locks c j" using tp has_boxI(2) d by (auto simp: others_locks_def)
  with True k l d show ?thesis by auto
next
  case False
  with k d have k: "holds_lock (doing c k)" "thread_pool (cluster_broker c) ! k = int n" using tp has_boxI(2) by auto
  then have no: "n \<notin> others_locks c k" and mine: "n \<in> others_locks c j"
    using cluster_invD(9) [OF c] False by (auto simp: others_locks_def)
  show ?thesis
  proof
    assume "n \<in> others_locks d k"
    then obtain k' where k': "k' \<noteq> k" "holds_lock (((doing c)(j := a)) k')" "thread_pool t ! k' = int n"
      by (auto simp: others_locks_def d)
    show False
    proof (cases "k' = j")
      case True
      with k' l mine show False by auto
    next
      case f: False
      with k' have "n \<in> others_locks c k" using tp [OF f] has_boxI(2) by (auto simp: others_locks_def)
      with no show False ..
    qed
  qed
qed

lemma thread_step_inv:
  assumes c: "cluster_inv c" and s: "after_step nothing (others_handles c j) J (cluster_broker c) (others_locks c j) i a t"
    and J: "J = j \<or> J = length (thread_pool (cluster_broker c))"
    and a: "has_box a \<Longrightarrow> j < length (thread_pool (cluster_broker c)) \<and> i < length (server_boxes t) \<and>
      thread_pool t ! j = int i"
  shows "cluster_inv \<lparr>the_server = (the_server c)\<lparr>the_broker := t\<rparr>, doing = (doing c)(j := a)\<rparr>" (is "cluster_inv ?d")
proof -
  let ?b = "cluster_broker c" and ?O = "others_locks c j"
  note D = cluster_invD [OF c]
  from s have b: "busy nothing (others_handles c j) J ?b (if holds_lock a then insert i ?O else ?O) False t"
    and l: "holds_lock a \<longrightarrow> i \<notin> ?O" and h: "\<And>fd. handle_in a = Some fd \<Longrightarrow> own_handle (others_handles c j) fd t"
    and p: "\<And>p fd. a = Publishing p fd \<Longrightarrow> in_block fd t" by (simp_all add: after_step_def)
  note B = busyD [OF b]
  have other: "own_handle (others_handles ?d k) fd t \<and> (\<forall>p. doing c k = Publishing p fd \<longrightarrow> in_block fd t)"
    if "k \<noteq> j" "handle_in (doing c k) = Some fd" for k fd
    by (rule others_keep_handles [OF c b _ that, of a ?d]) (use h in simp_all)
  have tp: "thread_pool t ! k = thread_pool ?b ! k" if "k \<noteq> j" "has_box (doing c k)" for k
    using B(5) [of k] that J D(5) [of k] by auto
  have "others_handles ?d j = others_handles c j" by (auto simp: others_handles_def)
  then have own: "own_handle (others_handles ?d k) fd t" if "handle_in (doing ?d k) = Some fd" for k fd
    using that h other by (cases "k = j") auto
  have box: "k < length (thread_pool t) \<and> (\<exists>i < length (server_boxes t). thread_pool t ! k = int i)"
    if "has_box (doing ?d k)" for k
  proof (cases "k = j")
    case False
    with that have "has_box (doing c k)" by simp
    with D(5,6) [OF this] tp [OF False] B(4,6) show ?thesis by force
  qed (use a that B(4) in auto)
  have pub: "in_block fd t" if "doing ?d k = Publishing p fd" for k p fd
    using that p other [of k fd] by (cases "k = j") auto
  have ex: "n \<notin> others_locks ?d k" if "holds_lock (doing ?d k)" "thread_pool t ! k = int n" for k n
    by (rule others_keep_locks [OF c tp _ _ _ that]) (use a l has_boxI(2) in auto)
  have "locked_boxes t = {n. \<exists>k. holds_lock (doing ?d k) \<and> thread_pool t ! k = int n}"
    unfolding B(8) using a has_boxI(2) [of a] tp has_boxI(2)
    by (auto simp: others_locks_def)
  with B(1-3) D(1) own box pub ex show ?thesis by (simp add: cluster_inv_def)
qed

section \<open>The next step of a thread\<close>

text \<open>A thread that has a box: its entry, and the locks before the step.\<close>

lemma step_box:
  assumes c: "cluster_inv c" and h: "has_box (doing c j)"
  obtains i where "i < length (server_boxes (cluster_broker c))" "j < length (thread_pool (cluster_broker c))"
    "thread_pool (cluster_broker c) ! j = int i"
    "locked_boxes (cluster_broker c) =
      (if holds_lock (doing c j) then insert i (others_locks c j) else others_locks c j)"
    "holds_lock (doing c j) \<Longrightarrow> i \<notin> others_locks c j"
proof -
  from cluster_invD(5,6) [OF c h] obtain i where i: "i < length (server_boxes (cluster_broker c))"
    "j < length (thread_pool (cluster_broker c))" "thread_pool (cluster_broker c) ! j = int i" by blast
  have "{n. thread_pool (cluster_broker c) ! j = int n} = {i}" using i(3) by auto
  then have "locked_boxes (cluster_broker c) =
      (if holds_lock (doing c j) then insert i (others_locks c j) else others_locks c j)"
    using locked_split [OF c, of j] by simp
  with i cluster_invD(9) [OF c, of j i] that show ?thesis by blast
qed

text \<open>All activities but the end of a publisher keep the numbers of publishers.\<close>

definition pub_ends :: "activity \<Rightarrow> activity \<Rightarrow> bool" where
  "pub_ends a a' \<longleftrightarrow> (\<exists>p fd. a = Publishing p fd) \<and> \<not> publishes a'"

lemma after_nothing: "after_step g H j s0 L i a t \<Longrightarrow> after_step nothing H j s0 L i a t"
  by (auto simp: after_step_def dest: busy_nothing)

lemma yields_publishing:
  assumes k: "\<forall>h \<in> H. fd \<noteq> int h"
  shows "yields (\<lambda>s. busy n_pub H j s0 L False s \<and> own_handle H fd s \<and> in_block fd s)
    (continue_task env k input (Publishing pipe fd))
    (\<lambda>a t. after_step nothing H j s0 L i a t \<and> (publishes a \<longrightarrow> after_step n_pub H j s0 L i a t))"
proof -
  let ?B = "\<lambda>s. busy n_pub H j s0 L False s \<and> own_handle H fd s \<and> in_block fd s"
  let ?N = "busy nothing H j s0 L False"
  let ?R = "\<lambda>a t. after_step nothing H j s0 L i a t \<and> (publishes a \<longrightarrow> after_step n_pub H j s0 L i a t)"
  have fin: "yields ?N finished ?R"
    by (rule yields_weaken [OF yields_finished [of ?N]]) (auto simp: after_step_def)
  have "yields ?N (block [my_close env pipe] (call (in_tfs (tfs_close fd)) (\<lambda>_. finished))) ?R"
    by (intro yields_block [OF leads_pipes(2)] yields_block_Nil yields_leads [OF leads_close [OF k]] fin)
  then have e: "yields ?B (block [my_close env pipe] (call (in_tfs (tfs_close fd)) (\<lambda>_. finished))) ?R"
    by (rule yields_weaken) (auto dest: busy_nothing)
  have "yields ?N (block [pub_end env pipe k fd] finished) ?R"
    by (intro yields_block [OF leads_pub_end [OF assms]] yields_block_Nil fin)
  then have d: "yields ?B (block [pub_end env pipe k fd] finished) ?R"
    by (rule yields_weaken) (auto dest: busy_nothing)
  have r: "yields ?B (ret (Publishing pipe fd)) ?R"
    by (rule yields_ret) (auto simp: after_step_def dest: busy_nothing)
  have m: "yields ?B (call (pub_message env k fd bytes) (\<lambda>go_on.
      if go_on then ret (Publishing pipe fd) else block [pub_end env pipe k fd] finished)) ?R" for bytes
    by (intro yields_call [OF yields_pub_message] yields_if r d)
  show ?thesis
    by (cases input; simp only: continue_task.simps option.case;
      intro yields_leads [OF leads_gets] yields_if e d m)
qed

lemma continue_after:
  assumes c: "cluster_inv c" and h: "has_box (doing c j)"
    and r: "continue_task env j input (doing c j) (cluster_broker c) = Inr (a, t)"
  obtains i where "thread_pool (cluster_broker c) ! j = int i" "i < length (server_boxes (cluster_broker c))"
    "j < length (thread_pool (cluster_broker c))"
    "after_step nothing (others_handles c j) (length (thread_pool (cluster_broker c))) (cluster_broker c)
      (others_locks c j) i a t"
    "\<not> pub_ends (doing c j) a \<Longrightarrow>
      after_step n_pub (others_handles c j) (length (thread_pool (cluster_broker c))) (cluster_broker c)
        (others_locks c j) i a t"
proof -
  let ?b = "cluster_broker c" and ?H = "others_handles c j" and ?O = "others_locks c j"
  let ?N = "length (thread_pool ?b)"
  from step_box [OF c h] obtain i where i: "i < length (server_boxes ?b)" "j < ?N" "thread_pool ?b ! j = int i"
    "locked_boxes ?b = (if holds_lock (doing c j) then insert i ?O else ?O)"
    "holds_lock (doing c j) \<Longrightarrow> i \<notin> ?O" by blast
  have start: "busy n_pub ?H ?N ?b (if holds_lock (doing c j) then insert i ?O else ?O) False ?b"
    using step_start [OF c, of n_pub j ?N] by (simp only: i(4))
  have k: "j \<noteq> ?N" using i(2) by simp
  let ?B = "busy n_pub ?H ?N ?b"
  have own: "own_handle ?H fd ?b" if "handle_in (doing c j) = Some fd" for fd
    using cluster_invD(7) [OF c that] .
  have "after_step nothing ?H ?N ?b ?O i a t \<and> (\<not> pub_ends (doing c j) a \<longrightarrow> after_step n_pub ?H ?N ?b ?O i a t)"
  proof (cases "doing c j")
    case (Registered_pub q)
    have "yields (?B ?O False) (continue_task env j input (Registered_pub q)) (after_step n_pub ?H ?N ?b ?O i)"
      unfolding continue_task.simps
    proof (rule yields_call [OF yields_pub_open], rule yields_if)
      fix fd :: int assume "fd = - 1"
      show "yields (\<lambda>s. ?B ?O False s \<and> (fd = - 1 \<or> own_handle ?H fd s \<and> in_block fd s))
          (block [my_close env (req_pipe_name q)] finished) (after_step n_pub ?H ?N ?b ?O i)"
        by (rule yields_weaken [of "?B ?O False" _ "after_step n_pub ?H ?N ?b ?O i"])
          (intro yields_block [OF leads_pipes(2)] yields_block_Nil after_finished, simp_all)
    next
      fix fd :: int assume "fd \<noteq> - 1"
      then show "yields (\<lambda>s. ?B ?O False s \<and> (fd = - 1 \<or> own_handle ?H fd s \<and> in_block fd s))
          (ret (Publishing (req_pipe_name q) fd)) (after_step n_pub ?H ?N ?b ?O i)"
        by (intro yields_ret) (auto simp: after_step_def)
    qed
    with r start Registered_pub show ?thesis by (auto dest: yieldsD after_nothing)
  next
    case (Publishing p fd)
    have "?B ?O False ?b \<and> own_handle ?H fd ?b \<and> in_block fd ?b"
      using start own cluster_invD(8) [OF c] Publishing by simp
    moreover have "\<forall>h \<in> ?H. fd \<noteq> int h" using own Publishing own_apart by simp
    ultimately show ?thesis
      using r Publishing yieldsD [OF yields_publishing] by (fastforce simp: pub_ends_def)
  next
    case (Registered_sub q)
    have "yields (?B ?O False) (continue_task env j input (Registered_sub q)) (after_step n_pub ?H ?N ?b ?O i)"
      unfolding continue_task.simps
      by (rule yields_call [OF yields_sub_open], rule yields_ret) (simp add: after_step_def)
    with r start Registered_sub show ?thesis by (auto dest: yieldsD after_nothing)
  next
    case (Entering p fd)
    with r i start own yieldsD [OF yields_sub_read [OF k i(2,3)]] show ?thesis by (fastforce dest: after_nothing)
  next
    case (Seen_nothing p fd)
    with r i start own yieldsD [OF yields_sub_sleep [OF k i(2,3)]] show ?thesis by (fastforce dest: after_nothing)
  next
    case (Draining p fd v te me)
    with r i start own yieldsD [OF yields_sub_send [OF k i(2,3)]] show ?thesis by (fastforce dest: after_nothing)
  qed (use r h in \<open>simp_all add: fail_def\<close>)
  with i that show ?thesis by blast
qed

section \<open>The first step with a task\<close>

lemma find_box_state: "find_box nm s = Inr (x, t) \<Longrightarrow> t = s"
  by (auto simp: find_box_def gets_def lift_def split: sum.splits elim!: call_eq_InrE)

lemma scan_boxes_less: "scan_boxes nm bs i n = Inr (Some k) \<Longrightarrow> k < length bs"
  by (induction nm bs i n rule: scan_boxes.induct)
    (subst (asm) (2) scan_boxes.simps, auto split: if_splits sum.splits)

lemma find_box_less: "find_box nm s = Inr (Some k, t) \<Longrightarrow> t = s \<and> k < length (server_boxes s)"
  by (auto simp: find_box_def gets_def lift_def split: sum.splits elim!: call_eq_InrE dest: scan_boxes_less)

lemma same_password_state: "same_password i pw s = Inr (x, t) \<Longrightarrow> t = s"
  by (auto simp: same_password_def lift_def split: sum.splits elim!: call_eq_InrE dest!: get_box_exec')

lemma set_index_result:
  "set_index j v s = Inr (x, t) \<Longrightarrow> j < length (thread_pool s) \<and> t = s\<lparr>thread_pool := (thread_pool s)[j := v]\<rparr>"
  by (auto simp: set_index_def gets_def lift_def modify_def array_set_def split: sum.splits if_splits elim!: call_eq_InrE)

lemma upd_box_result:
  "upd_box i f s = Inr (x, t) \<Longrightarrow> nat i < length (server_boxes s) \<and>
    t = s\<lparr>server_boxes := (server_boxes s)[nat i := f (server_boxes s ! nat i)]\<rparr>"
  by (auto simp: upd_box_def modify_def elim!: call_eq_InrE dest!: get_box_exec')

lemmas op_results = find_box_state same_password_state set_index_result upd_box_result get_box_exec'

text \<open>An accepted publisher is the first of its box.\<close>

lemma register_pub_result:
  assumes "register_pub env r j s = Inr (True, t)"
  obtains i where "i < length (server_boxes s)" "j < length (thread_pool s)" "n_pub (server_boxes s ! i) \<noteq> 1"
    "thread_pool t = (thread_pool s)[j := int i]"
    "server_boxes t = (server_boxes s)[i := (server_boxes s ! i)\<lparr>n_pub := 1, box_size := 0\<rparr>]"
proof -
  have "\<exists>i < length (server_boxes s). j < length (thread_pool s) \<and> n_pub (server_boxes s ! i) \<noteq> 1 \<and>
    thread_pool t = (thread_pool s)[j := int i] \<and>
    server_boxes t = (server_boxes s)[i := (server_boxes s ! i)\<lparr>n_pub := 1, box_size := 0\<rparr>]"
    using assms
    by (auto simp: register_pub_def Let_def lock_boxes_def unlock_boxes_def ret_def lift_def
      split: if_splits option.splits sum.splits elim!: call_eq_InrE dest!: op_results) blast+
  with that show ?thesis by blast
qed

lemma pipes_keep_boxes:
  "my_open env nm s = Inr (x, t) \<Longrightarrow> server_boxes t = server_boxes s"
  "my_close env nm s = Inr (x, t) \<Longrightarrow> server_boxes t = server_boxes s"
  "log_io e s = Inr (x, t) \<Longrightarrow> server_boxes t = server_boxes s"
proof -
  have l: "log_io e s = Inr (x, t) \<Longrightarrow> server_boxes t = server_boxes s" for e s t and x :: unit
    by (auto simp: log_io_def modify_def)
  show "log_io e s = Inr (x, t) \<Longrightarrow> server_boxes t = server_boxes s" by (rule l)
  show "my_open env nm s = Inr (x, t) \<Longrightarrow> server_boxes t = server_boxes s"
    "my_close env nm s = Inr (x, t) \<Longrightarrow> server_boxes t = server_boxes s"
    by (auto simp: my_open_def my_close_def open_pipe_def lift_def ret_def fail_def split: sum.splits if_splits
      elim!: call_eq_InrE dest!: l)
qed

lemma register_pub_refuses:
  "register_pub env r j s = Inr (False, t) \<Longrightarrow> server_boxes t = server_boxes s"
  by (auto simp: register_pub_def Let_def lock_boxes_def unlock_boxes_def ret_def lift_def
      split: if_splits option.splits sum.splits elim!: call_eq_InrE dest!: op_results pipes_keep_boxes)

lemma sub_register_result:
  assumes "sub_register r j s = Inr (True, t)"
  obtains i where "i < length (server_boxes t)" "j < length (thread_pool s)" "thread_pool t = (thread_pool s)[j := int i]"
proof -
  have "\<exists>i < length (server_boxes t). j < length (thread_pool s) \<and> thread_pool t = (thread_pool s)[j := int i]"
    using assms
    by (auto simp: sub_register_def lock_boxes_def unlock_boxes_def ret_def lift_def
      split: if_splits option.splits sum.splits elim!: call_eq_InrE dest!: op_results) blast+
  with that show ?thesis by blast
qed

lemma busy_trans:
  assumes "busy g H j s0 L x s" and "busy g H j s L' x' t"
  shows "busy g H j s0 L' x' t"
  using assms by (simp add: busy_def same_handle_def) blast

lemma leads_nothing:
  assumes "\<And>s0. leads (busy n_pub H j s0 L x) m (busy n_pub H j s0 L x')"
  shows "leads (busy nothing H j s0 L x) m (busy nothing H j s0 L x')"
proof (rule leadsI)
  fix s a t assume s: "busy nothing H j s0 L x s" and m: "m s = Inr (a, t)"
  have "busy n_pub H j s L x s"
    using busy_start [OF busyD(1-3,11) [OF s]] busyD(8) [OF s] by simp
  from leadsD [OF assms this m] have "busy nothing H j s L x' t" by (rule busy_nothing)
  with s show "busy nothing H j s0 L x' t" by (rule busy_trans)
qed

text \<open>The handlers of the manager's requests.\<close>

lemma leads_run_task:
  assumes "\<And>i. box_ok (raw_box env i)" and "function_of t \<notin> {Some H_pub, Some H_sub}"
  shows "leads (busy nothing H j s0 L False) (run_task env 0 j [] t) (busy nothing H j s0 L False)"
    and "function_of t \<noteq> Some H_remove \<Longrightarrow>
      leads (busy n_pub H j s0 L False) (run_task env 0 j [] t) (busy n_pub H j s0 L False)"
proof -
  show p: "leads (busy n_pub H j s0 L False) (run_task env 0 j [] t) (busy n_pub H j s0 L False)"
    if "function_of t \<noteq> Some H_remove" for s0
    using assms(2) that
    by (cases "function_of t"; cases "the (function_of t)"; cases "request_of t")
      (simp_all add: run_task_def leads_create [OF assms(1)] leads_list leads_lock leads_unlock leads_fail)
  have rm: "leads (busy nothing H j s0 L False) (run_task env 0 j [] t) (busy nothing H j s0 L False)"
    if "function_of t = Some H_remove"
    using that by (cases "request_of t") (simp_all add: run_task_def leads_remove leads_fail)
  show "leads (busy nothing H j s0 L False) (run_task env 0 j [] t) (busy nothing H j s0 L False)"
    by (cases "function_of t = Some H_remove") (simp_all add: rm leads_nothing p)
qed

definition fresh_memory :: "env \<Rightarrow> bool" where
  "fresh_memory env \<longleftrightarrow> (\<forall>i. box_ok (raw_box env i))"

text \<open>What a thread does with a task that it has taken.\<close>

lemma start_task_cases:
  assumes r: "start_task env j t s = Inr (a, u)"
  obtains
    (published) q where "function_of t = Some H_pub" "request_of t = Request q"
      "register_pub env q j s = Inr (True, u)" "a = Registered_pub q"
  | (not_published) q v where "function_of t = Some H_pub" "request_of t = Request q"
      "register_pub env q j s = Inr (False, v)" "finished v = Inr (a, u)"
  | (subscribed) q where "function_of t = Some H_sub" "request_of t = Request q"
      "sub_register q j s = Inr (True, u)" "a = Registered_sub q"
  | (not_subscribed) q v w where "function_of t = Some H_sub" "request_of t = Request q"
      "sub_register q j s = Inr (False, v)" "sub_refuse env q v = Inr ((), w)" "finished w = Inr (a, u)"
  | (managed) v where "function_of t \<notin> {Some H_pub, Some H_sub}"
      "run_task env 0 j [] t s = Inr ((), v)" "finished v = Inr (a, u)"
proof (cases "function_of t = Some H_pub \<or> function_of t = Some H_sub")
  case False
  with r obtain v where "run_task env 0 j [] t s = Inr ((), v)" "finished v = Inr (a, u)"
    by (auto simp: start_task_def split: option.splits handler.splits elim!: call_eq_InrE)
  with False managed show ?thesis by simp
next
  case True
  with r obtain q where q: "request_of t = Request q"
    by (cases "request_of t") (auto simp: start_task_def fail_def)
  show ?thesis
  proof (cases "function_of t = Some H_pub")
    case True
    with r q obtain acc v where v: "register_pub env q j s = Inr (acc, v)"
      "(if acc then ret (Registered_pub q) else finished) v = Inr (a, u)"
      by (auto simp: start_task_def elim: call_eq_InrE)
    with True q published not_published show ?thesis by (cases acc) (auto simp: ret_def)
  next
    case False
    with \<open>function_of t = Some H_pub \<or> function_of t = Some H_sub\<close> r q obtain acc v where
      v: "sub_register q j s = Inr (acc, v)"
        "(if acc then ret (Registered_sub q) else block [sub_refuse env q] finished) v = Inr (a, u)"
      by (auto simp: start_task_def elim: call_eq_InrE)
    from False \<open>function_of t = Some H_pub \<or> function_of t = Some H_sub\<close> q v subscribed not_subscribed
    show ?thesis by (cases acc) (auto simp: ret_def elim!: call_eq_InrE)
  qed
qed

lemma start_after:
  assumes c: "cluster_inv c" and e: "fresh_memory env" and d: "doing c j = Idle"
    and r: "start_task env j t (cluster_broker c) = Inr (a, u)"
  shows "\<exists>i. after_step nothing (others_handles c j) j (cluster_broker c) (others_locks c j) i a u \<and>
    (has_box a \<longrightarrow> j < length (thread_pool (cluster_broker c)) \<and> i < length (server_boxes u) \<and>
      thread_pool u ! j = int i) \<and>
    (function_of t \<noteq> Some H_remove \<longrightarrow> \<not> publishes a \<longrightarrow>
      after_step n_pub (others_handles c j) j (cluster_broker c) (others_locks c j) i a u) \<and>
    (publishes a \<longrightarrow> i < length (server_boxes (cluster_broker c)) \<and> n_pub (server_boxes (cluster_broker c) ! i) \<noteq> 1 \<and>
      server_boxes u = (server_boxes (cluster_broker c))
        [i := (server_boxes (cluster_broker c) ! i)\<lparr>n_pub := 1, box_size := 0\<rparr>])"
proof -
  let ?b = "cluster_broker c" and ?H = "others_handles c j" and ?O = "others_locks c j"
  let ?A = "\<lambda>g i. after_step g ?H j ?b ?O i a u"
  have "locked_boxes ?b = ?O" using locked_split [OF c, of j] d by simp
  then have b: "busy nothing ?H j ?b ?O False ?b" "busy n_pub ?H j ?b ?O False ?b"
    using step_start [OF c, of nothing j j] step_start [OF c, of n_pub j j] by simp_all
  have fin: "after_step n_pub ?H j ?b ?O 0 a u \<and> after_step nothing ?H j ?b ?O 0 a u \<and> \<not> has_box a \<and> \<not> publishes a"
    if "finished v = Inr (a, u)" "busy n_pub ?H j ?b ?O False v" for v
  proof -
    from yieldsD [OF yields_finished [of "busy n_pub ?H j ?b ?O False"] that(2,1)] have "a = Idle \<or> a = Ended" "busy n_pub ?H j ?b ?O False u"
      by simp_all
    then show ?thesis by (auto simp: after_step_def dest: busy_nothing)
  qed
  show ?thesis
    using r
  proof (cases rule: start_task_cases)
    case (published q)
    obtain i where i: "i < length (server_boxes ?b)" "j < length (thread_pool ?b)"
      "n_pub (server_boxes ?b ! i) \<noteq> 1" "thread_pool u = (thread_pool ?b)[j := int i]"
      "server_boxes u = (server_boxes ?b)[i := (server_boxes ?b ! i)\<lparr>n_pub := 1, box_size := 0\<rparr>]"
      using published(3) by (auto elim: register_pub_result)
    have "busy nothing ?H j ?b ?O False u" by (rule leadsD [OF leads_register_pub b(1) published(3)])
    with i published(4) show ?thesis by (intro exI [of _ i]) (simp add: after_step_def)
  next
    case (not_published q v)
    have "busy nothing ?H j ?b ?O False v" by (rule leadsD [OF leads_register_pub b(1) not_published(3)])
    moreover have "server_boxes v = server_boxes ?b" using not_published(3) by (auto dest: register_pub_refuses)
    ultimately have "busy n_pub ?H j ?b ?O False v" by (simp add: busy_def)
    with fin not_published(4) show ?thesis by auto
  next
    case (subscribed q)
    obtain i where i: "i < length (server_boxes u)" "j < length (thread_pool ?b)"
      "thread_pool u = (thread_pool ?b)[j := int i]" using subscribed(3) by (auto elim: sub_register_result)
    have "busy n_pub ?H j ?b ?O False u" by (rule leadsD [OF leads_sub_register b(2) subscribed(3)])
    with i subscribed(4) show ?thesis by (intro exI [of _ i]) (auto simp: after_step_def dest: busy_nothing)
  next
    case (not_subscribed q v w)
    have "leads (busy n_pub ?H j ?b ?O False) (sub_refuse env q) (busy n_pub ?H j ?b ?O False)"
      unfolding sub_refuse_def by (rule leads_intros)+
    from leadsD [OF this leadsD [OF leads_sub_register b(2) not_subscribed(3)] not_subscribed(4)] fin not_subscribed(5)
    show ?thesis by auto
  next
    case (managed v)
    have box: "\<And>i. box_ok (raw_box env i)" using e by (simp add: fresh_memory_def)
    have n: "busy nothing ?H j ?b ?O False v" by (rule leadsD [OF leads_run_task(1) [OF box managed(1)] b(1) managed(2)])
    have p: "busy n_pub ?H j ?b ?O False v" if "function_of t \<noteq> Some H_remove"
      by (rule leadsD [OF leads_run_task(2) [OF box managed(1) that] b(2) managed(2)])
    have "after_step nothing ?H j ?b ?O 0 a u \<and> \<not> has_box a \<and> \<not> publishes a"
      using yieldsD [OF yields_finished [of "busy nothing ?H j ?b ?O False"] n managed(3)]
      by (auto simp: after_step_def)
    with fin [OF managed(3) p] show ?thesis by blast
  qed
qed

end
