(* ===== verification/Threads_Start.thy ===== *)
theory Threads_Start
  imports Threads_Invariant Broker_Correct
begin

text \<open>
  The states in which the broker with its threads starts, steps that it can always take, and a small
  execution: a box is created and a publisher registers with it.
\<close>

section \<open>From the start of the program\<close>

text \<open>
  The state that \<open>main\<close> reaches before its loop; every thread waits for a task.  \<open>pcq_create\<close> leaves
  three fields of the queue as \<open>malloc\<close> returned them: they have to be 0.
\<close>

definition started :: "nat \<Rightarrow> cluster \<Rightarrow> bool" where
  "started n c \<longleftrightarrow> (\<exists>h env raw_index s raw q. all_granted h \<and> grants env = (\<lambda>_. True) \<and> fresh_memory env \<and>
     0 < n \<and> n < 1073741824 \<and> tfs s = boot \<and> blank_names h tfs_default_params \<and>
     start_broker h env raw_index n s = Inr ((), cluster_broker c) \<and>
     pcq_current_size q = 0 \<and> pcq_head q = 0 \<and> pcq_tail q = 0 \<and>
     pcq_create True raw n q = Inr (0, task_queue (the_server c)) \<and> doing c = (\<lambda>_. Idle))"

lemma started_inv:
  assumes "started n c"
  shows "cluster_inv c" "pcq_list (task_queue (the_server c)) = []"
    "pcq_capacity (task_queue (the_server c)) = n"
proof -
  let ?b = "cluster_broker c" and ?q = "task_queue (the_server c)"
  from assms obtain h env raw_index s raw q where
    h: "all_granted h" "blank_names h tfs_default_params" "grants env = (\<lambda>_. True)" "fresh_memory env"
      "0 < n" "n < 1073741824" "tfs s = boot" and b: "start_broker h env raw_index n s = Inr ((), ?b)"
    and q: "pcq_current_size q = 0" "pcq_head q = 0" "pcq_tail q = 0" "pcq_create True raw n q = Inr (0, ?q)"
    and d: "doing c = (\<lambda>_. Idle)" by (auto simp: started_def)
  have box: "\<And>i. box_ok (raw_box env i)" using h(4) by (simp add: fresh_memory_def)
  from start_broker_exec [OF h(1-3,5-7)] b
  have b': "?b = broker_at_start h env raw_index n s" by auto
  then have bs: "server_boxes ?b = map (\<lambda>i. (raw_box env i)\<lparr>box_free := 0, box_lock := False\<rparr>) [0 ..< n]"
    by (simp add: broker_at_start_def)
  from broker_at_start_inv [OF h(1,2) box h(5,6)] b' have inv: "broker_inv ?b" by simp
  have q': "?q = q\<lparr>pcq_capacity := n, pcq_buffer := map raw [0 ..< 2 * n]\<rparr>"
    using q(4) pcq_create_exec [of n raw q] h(5,6) by simp
  have qw: "pcq_wf ?q" unfolding q' using h(5,6) q(1-3) by (intro pcq_create_wf) simp_all
  then show "pcq_list ?q = []" using length_pcq_list [OF qw] q(1) q' by simp
  show "pcq_capacity ?q = n" by (simp add: q')
  have "table_ok ?b" using broker_invD(1-3) [OF inv] by (simp add: table_ok_def)
  moreover have "locked_boxes ?b = {}" by (auto simp: locked_boxes_def bs)
  ultimately show "cluster_inv c"
    using broker_invD(4-6) [OF inv] qw by (simp add: cluster_inv_def d fs_kept_def)
qed

section \<open>Steps that can be taken\<close>

lemma line_happens:
  assumes w: "pcq_wf (task_queue (the_server c))"
    and room: "length (pcq_list (task_queue (the_server c))) < pcq_capacity (task_queue (the_server c))"
    and b: "length b = MAX_LINE"
  obtains q where "cluster_step E c (Line b) (c\<lparr>the_server := (the_server c)\<lparr>task_queue := q\<rparr>\<rparr>)"
    "pcq_wf q" "pcq_list q = pcq_list (task_queue (the_server c)) @ [task_of b]"
    "pcq_capacity q = pcq_capacity (task_queue (the_server c))"
proof -
  from pcq.enq_law [OF w room, of "task_of b"] obtain q where
    q: "enqueue_section (task_of b) (task_queue (the_server c)) = Inr ((), q)" "pcq_wf q"
      "pcq_list q = pcq_list (task_queue (the_server c)) @ [task_of b]"
      "pcq_capacity q = pcq_capacity (task_queue (the_server c))" by blast
  have "main_iteration True (\<lambda>_. True) b b (the_server c) = Inr ((), (the_server c)\<lparr>task_queue := q\<rparr>)"
    unfolding main_iteration_def using make_task_exec [OF b] q(1)
    by (simp add: exec_simps in_queue_def task_of_def)
  from cluster_step.line [OF _ b _ this, of E] room length_pcq_list [OF w] b q(2-) that show ?thesis by simp
qed

lemma take_happens:
  assumes w: "pcq_wf (task_queue (the_server c))" and t: "pcq_list (task_queue (the_server c)) = t # ts"
    and j: "doing c j = Idle" "j < length (thread_pool (cluster_broker c))" and e: "env \<in> E"
    and s: "start_task env j t (cluster_broker c) = Inr (a, u)"
  obtains q where "cluster_step E c (Take j t)
      \<lparr>the_server = (the_server c)\<lparr>task_queue := q, the_broker := u\<rparr>, doing = (doing c)(j := a)\<rparr>"
    "pcq_wf q" "pcq_list q = ts" "pcq_capacity q = pcq_capacity (task_queue (the_server c))"
proof -
  from pcq.deq_law [OF w] t obtain q where
    q: "dequeue_section (task_queue (the_server c)) = Inr (t, q)" "pcq_wf q" "pcq_list q = ts"
      "pcq_capacity q = pcq_capacity (task_queue (the_server c))" by auto
  have "call (in_queue dequeue_section) (\<lambda>t. call (in_broker (start_task env j t)) (\<lambda>a. ret (t, a))) (the_server c) =
      Inr ((t, a), (the_server c)\<lparr>task_queue := q, the_broker := u\<rparr>)"
    using q(1) s by (simp add: call_def in_queue_def in_broker_def ret_def)
  moreover have "pcq_current_size (task_queue (the_server c)) \<noteq> 0" using pcq_list_Nil [OF w] t by simp
  ultimately show ?thesis using cluster_step.takes [OF e j] q(2-) that by blast
qed

lemma cluster_run_trans:
  "cluster_run E d ks e \<Longrightarrow> cluster_run E c ls d \<Longrightarrow> cluster_run E c (ls @ ks) e"
proof (induction rule: cluster_run.induct)
  case (snoc ks d l e)
  then show ?case using cluster_run.snoc [of E c "ls @ ks" d l e] by simp
qed simp

text \<open>A request that arrives while the queue is empty and is taken by an idle thread.\<close>

lemma request_happens:
  assumes w: "pcq_wf (task_queue (the_server c))" "pcq_list (task_queue (the_server c)) = []"
      "0 < pcq_capacity (task_queue (the_server c))" and b: "length b = MAX_LINE"
    and j: "doing c j = Idle" "j < length (thread_pool (cluster_broker c))" and e: "env \<in> E"
    and s: "start_task env j (task_of b) (cluster_broker c) = Inr (a, u)"
  obtains d where "cluster_run E c [Line b, Take j (task_of b)] d" "cluster_broker d = u" "doing d = (doing c)(j := a)"
    "pcq_wf (task_queue (the_server d))" "pcq_list (task_queue (the_server d)) = []"
    "pcq_capacity (task_queue (the_server d)) = pcq_capacity (task_queue (the_server c))"
proof -
  from line_happens [OF w(1) _ b, of E] w(2,3) obtain q where
    q: "cluster_step E c (Line b) (c\<lparr>the_server := (the_server c)\<lparr>task_queue := q\<rparr>\<rparr>)" "pcq_wf q"
      "pcq_list q = [task_of b]" "pcq_capacity q = pcq_capacity (task_queue (the_server c))" by auto
  let ?d = "c\<lparr>the_server := (the_server c)\<lparr>task_queue := q\<rparr>\<rparr>"
  from q(2,3) j s have "pcq_wf (task_queue (the_server ?d))" "pcq_list (task_queue (the_server ?d)) = [task_of b]"
    "doing ?d j = Idle" "j < length (thread_pool (cluster_broker ?d))"
    "start_task env j (task_of b) (cluster_broker ?d) = Inr (a, u)" by simp_all
  from take_happens [OF this(1-4) e this(5)] obtain q' where
    q': "cluster_step E ?d (Take j (task_of b))
      \<lparr>the_server = (the_server ?d)\<lparr>task_queue := q', the_broker := u\<rparr>, doing = (doing ?d)(j := a)\<rparr>"
      "pcq_wf q'" "pcq_list q' = []" "pcq_capacity q' = pcq_capacity q" by auto
  from cluster_run.snoc [OF cluster_run.snoc [OF cluster_run.nil q(1)] q'(1)] q'(2-) q(4)
  show ?thesis
    by (intro that [of "\<lparr>the_server = (the_server ?d)\<lparr>task_queue := q', the_broker := u\<rparr>, doing = (doing ?d)(j := a)\<rparr>"])
      (simp_all del: fun_upd_apply)
qed

section \<open>A small execution\<close>

definition started_broker :: broker where
  "started_broker = broker_at_start demo_heap demo_env (\<lambda>_. 7) 3 (demo_broker boot)"

definition started_cluster :: cluster where
  "started_cluster = \<lparr>the_server = \<lparr>the_broker = started_broker, task_queue = \<lparr>
       pcq_buffer = replicate 6 \<lparr>function_of = None, request_of = Request (demo_req 0 [] [])\<rparr>,
       pcq_capacity = 3, pcq_current_size = 0, pcq_head = 0, pcq_tail = 0\<rparr>\<rparr>, doing = (\<lambda>_. Idle)\<rparr>"

lemma demo_fresh [simp]: "fresh_memory demo_env"
  by (simp add: fresh_memory_def)

lemma demo_heap_blank: "all_granted demo_heap" "blank_names demo_heap tfs_default_params"
  using demo_params_ok(4) by (simp_all add: blank_names_def demo_heap_def)

lemma started_demo: "started 3 started_cluster"
proof -
  let ?t = "\<lparr>function_of = None, request_of = Request (demo_req 0 [] [])\<rparr>"
  let ?q = "\<lparr>pcq_buffer = [], pcq_capacity = 0, pcq_current_size = 0, pcq_head = 0, pcq_tail = 0\<rparr>"
  have q: "pcq_create True (\<lambda>_. ?t) 3 ?q = Inr (0, task_queue (the_server started_cluster))"
    using pcq_create_exec [of 3 "\<lambda>_. ?t" ?q] by (simp add: started_cluster_def map_replicate_const)
  have b: "start_broker demo_heap demo_env (\<lambda>_. 7) 3 (demo_broker boot) = Inr ((), cluster_broker started_cluster)"
    using start_broker_exec [OF demo_heap_blank, of demo_env 3 "demo_broker boot" "\<lambda>_. 7"]
    by (simp add: started_cluster_def started_broker_def)
  show ?thesis
    unfolding started_def
    by (intro exI [of _ demo_heap] exI [of _ demo_env] exI [of _ "\<lambda>_. 7"] exI [of _ "demo_broker boot"]
        exI [of _ "\<lambda>_. ?t"] exI [of _ ?q] conjI demo_heap_blank b q) (simp_all add: started_cluster_def)
qed

text \<open>The lines of the two clients, and what the threads do with them.\<close>

abbreviation create_request :: request where
  "create_request \<equiv> demo_req 3 ''/a'' ''pw''"

abbreviation publish_request :: request where
  "publish_request \<equiv> demo_req 1 ''/a'' ''pw''"

definition line_of :: "request \<Rightarrow> char list" where
  "line_of r = line (layout (Request r))"

lemma line_of_task:
  assumes "(c, h) \<in> set handler_codes" and "well_formed (Request (demo_req c ''/a'' ''pw''))"
  shows "length (line_of (demo_req c ''/a'' ''pw'')) = MAX_LINE"
    "task_of (line_of (demo_req c ''/a'' ''pw'')) =
      \<lparr>function_of = Some h, request_of = Request (demo_req c ''/a'' ''pw'')\<rparr>"
proof -
  show len: "length (line_of (demo_req c ''/a'' ''pw'')) = MAX_LINE"
    unfolding line_of_def by (rule length_line [OF layout_fits [OF assms(2)]])
  have "make_task (\<lambda>_. True) (line_of (demo_req c ''/a'' ''pw'')) =
      Inr \<lparr>function_of = Some h, request_of = Request (demo_req c ''/a'' ''pw'')\<rparr>"
    unfolding line_of_def using assms(1) by (intro requests_dispatched [OF assms(2)]) simp
  moreover have "make_task (\<lambda>_. True) (line_of (demo_req c ''/a'' ''pw'')) =
      Inr (task_of (line_of (demo_req c ''/a'' ''pw'')))"
    by (simp only: make_task_exec [OF len] task_of_def)
  ultimately show "task_of (line_of (demo_req c ''/a'' ''pw'')) =
      \<lparr>function_of = Some h, request_of = Request (demo_req c ''/a'' ''pw'')\<rparr>"
    by (simp only: sum.inject)
qed

lemma demo_lines:
  "length (line_of create_request) = MAX_LINE" "length (line_of publish_request) = MAX_LINE"
  "task_of (line_of create_request) = \<lparr>function_of = Some H_create, request_of = Request create_request\<rparr>"
  "task_of (line_of publish_request) = \<lparr>function_of = Some H_pub, request_of = Request publish_request\<rparr>"
proof -
  have "request_sized (demo_req c ''/a'' ''pw'')" for c
    using demo_req_ok [of "''/a''" "''pw''" c] by (simp add: request_ok_def request_sized_def string_array_def)
  then have wf: "well_formed (Request (demo_req 3 ''/a'' ''pw''))" "well_formed (Request (demo_req 1 ''/a'' ''pw''))"
    by (simp_all add: code_defs)
  show "length (line_of create_request) = MAX_LINE" "length (line_of publish_request) = MAX_LINE"
    "task_of (line_of create_request) = \<lparr>function_of = Some H_create, request_of = Request create_request\<rparr>"
    "task_of (line_of publish_request) = \<lparr>function_of = Some H_pub, request_of = Request publish_request\<rparr>"
    using line_of_task [OF _ wf(1), of H_create] line_of_task [OF _ wf(2), of H_pub]
    by (simp_all add: handler_codes_def)
qed

lemma started_broker_facts:
  "server_boxes started_broker = replicate 3 (demo_box [] [] 0)" "length (thread_pool started_broker) = 3"
  "tfs started_broker = init_state demo_heap tfs_default_params boot" "\<not> ending started_broker"
  "broker_inv started_broker"
proof -
  have "(demo_box [] [] 0)\<lparr>box_free := 0, box_lock := False\<rparr> = demo_box [] [] 0"
    by (intro box.equality) simp_all
  then show "server_boxes started_broker = replicate 3 (demo_box [] [] 0)"
    by (simp add: started_broker_def broker_at_start_def map_replicate_const)
  show "broker_inv started_broker"
    unfolding started_broker_def by (rule broker_at_start_inv [OF demo_heap_blank]) simp_all
qed (simp_all add: started_broker_def broker_at_start_def)

text \<open>The broker once the box exists.\<close>

definition box_ready :: "broker \<Rightarrow> bool" where
  "box_ready t \<longleftrightarrow> broker_inv t \<and> \<not> ending t \<and> length (thread_pool t) = 3 \<and> length (server_boxes t) = 3 \<and>
     position t ''/a'' = Some 0 \<and> password_of (server_boxes t ! 0) = ''pw'' \<and>
     n_pub (server_boxes t ! 0) = 0 \<and> n_subs (server_boxes t ! 0) = 0 \<and>
     (\<exists>i. names (tfs t) ''a'' = Some i \<and> contents (tfs t) i = []) \<and>
     FREE \<in> set (free_blocks (tfs t)) \<and> FREE \<in> set (free_open_file_entries (tfs t)) \<and>
     (\<forall>x. \<not> is_open (tfs t) (int x)) \<and> BLOCK_SIZE (tfs t) = 1024 \<and> MAX_OPEN_FILES (tfs t) = 16"

lemma box_is_created:
  "\<exists>t. run_task demo_env 0 0 [] (task_of (line_of create_request)) started_broker = Inr ((), t) \<and> box_ready t"
proof -
  let ?s = started_broker and ?f = "init_state demo_heap tfs_default_params boot"
  note s = started_broker_facts
  have p: "position ?s ''/a'' = None" by (simp add: position_None s(1))
  have u: "unused ?s = Some 0" by (simp add: unused_def s(1) numeral_3_eq_3)
  have d: "root_dents ?f = replicate 23 ([], - 1)"
    using root_dents_init [OF demo_heap_blank(2)] by (simp add: tfs_default_params_def)
  have "dir_find (replicate n ([], - 1)) v = - 1" for n :: nat and v by (induction n) simp_all
  then have l: "lookup (tfs ?s) (Some ''/a'') = - 1" by (simp add: lookup_def path_entry_def s(3) d)
  have room: "FREE \<in> set (freeinode_ts (tfs ?s))" "- 1 \<in> snd ` set (root_dents (tfs ?s))"
    "FREE \<in> set (free_open_file_entries (tfs ?s))"
    by (simp_all add: s(3) d, simp_all add: init_state_def fresh_state_def tfs_default_params_def in_set_conv_nth)
      (force intro: exI [of _ 1])
  have "\<exists>t i. process_manager_create demo_env create_request 0 ?s = Inr ((), t) \<and> broker_inv t \<and>
    answered (req_pipe_name create_request) 4 0 [] ?s t \<and>
    length (server_boxes t) = length (server_boxes ?s) \<and>
    name_of (server_boxes t ! 0) = ''/a'' \<and> box_free (server_boxes t ! 0) = 1 \<and>
    password_of (server_boxes t ! 0) = c_string (req_box_password create_request) \<and>
    (\<forall>m. m \<noteq> 0 \<longrightarrow> server_boxes t ! m = server_boxes ?s ! m) \<and>
    names (tfs t) = (names (tfs ?s))(''a'' \<mapsto> i) \<and> contents (tfs t) i = [] \<and>
    (\<forall>n. used_inode (tfs ?s) (int n) \<longrightarrow> contents (tfs t) n = contents (tfs ?s) n) \<and>
    free_blocks (tfs t) = free_blocks (tfs ?s) \<and> FREE \<in> set (free_open_file_entries (tfs t)) \<and>
    server_boxes t ! 0 = fill create_request (server_boxes ?s ! 0) \<and>
    (\<forall>x. is_open (tfs t) (int x) = is_open (tfs ?s) (int x))"
    by (rule box_created [OF s(5) _ _ _ _ _ p l u _ _ room]) (simp_all add: s(2) path_entry_def)
  then obtain t where t: "process_manager_create demo_env create_request 0 ?s = Inr ((), t)" "broker_inv t"
    "length (server_boxes t) = 3" "name_of (server_boxes t ! 0) = ''/a''" "password_of (server_boxes t ! 0) = ''pw''"
    "\<exists>i. names (tfs t) ''a'' = Some i \<and> contents (tfs t) i = []"
    "free_blocks (tfs t) = free_blocks (tfs ?s)" "FREE \<in> set (free_open_file_entries (tfs t))"
    "n_subs (server_boxes t ! 0) = 0" "\<And>x. is_open (tfs t) (int x) = is_open (tfs ?s) (int x)"
    by (auto simp: s(1) fill_def)
  have "busy n_pub {} 0 ?s (locked_boxes ?s) False ?s"
    by (rule busy_start) (use broker_invD [OF s(5)] in \<open>simp_all add: table_ok_def fs_kept_def\<close>)
  from busyD(4,7,9,10) [OF leadsD [OF leads_create this t(1)]] s(1-4)
  have "length (thread_pool t) = 3" "n_pub (server_boxes t ! 0) = 0" "\<not> ending t" "BLOCK_SIZE (tfs t) = 1024"
    "MAX_OPEN_FILES (tfs t) = 16"
    by (simp_all add: tfs_default_params_def)
  moreover have "\<not> is_open (tfs t) (int x)" for x
    unfolding t(10) by (simp add: is_open_def valid_file_handle_def s(3))
  moreover have "position t ''/a'' = Some 0"
    using t(3,4) by (cases "server_boxes t") (simp_all add: position_def)
  moreover have "FREE \<in> set (free_blocks (tfs ?s))"
    by (simp add: s(3)) (simp add: init_state_def fresh_state_def tfs_default_params_def in_set_conv_nth; force intro: exI [of _ 1])
  ultimately show ?thesis using t(1-3,5-) by (auto simp: demo_lines run_task_def box_ready_def)
qed

text \<open>The state once the publisher is registered: the broker after the creation of the box, and the entry.\<close>

lemma demo_publisher:
  "\<exists>d t. cluster_run {demo_env} started_cluster [Line (line_of create_request), Take 0 (task_of (line_of create_request)),
      Line (line_of publish_request), Take 1 (task_of (line_of publish_request))] d \<and>
    doing d = (\<lambda>_. Idle)(0 := Idle, 1 := Registered_pub publish_request) \<and> pcq_list (task_queue (the_server d)) = [] \<and>
    cluster_broker d = box_set 0 (\<lambda>b. b\<lparr>n_pub := 1, box_size := 0\<rparr>) (indexed 1 0 t) \<and>
    box_ready t \<and> pcq_capacity (task_queue (the_server d)) = 3"
proof -
  let ?E = "{demo_env}" and ?c = started_cluster
  note i = started_inv [OF started_demo]
  from box_is_created obtain t where tr: "run_task demo_env 0 0 [] (task_of (line_of create_request)) started_broker = Inr ((), t)"
    and ready: "box_ready t" by blast
  note t = ready [unfolded box_ready_def]
  have len: "length (thread_pool t) = 3" using t by simp
  have b: "cluster_broker ?c = started_broker" "doing ?c = (\<lambda>_. Idle)" by (simp_all add: started_cluster_def)
  have "start_task demo_env 0 (task_of (line_of create_request)) started_broker = Inr (Idle, t)"
    using tr t by (simp add: start_task_def demo_lines call_Inr finished_def call_gets ret_def)
  with request_happens [OF cluster_invD(1) [OF i(1)] i(2) _ demo_lines(1), of 0 demo_env ?E Idle t] i(3) b
    started_broker_facts(2) obtain d where
    d: "cluster_run ?E ?c [Line (line_of create_request), Take 0 (task_of (line_of create_request))] d"
      "cluster_broker d = t" "doing d = (\<lambda>_. Idle)(0 := Idle)" "pcq_wf (task_queue (the_server d))"
      "pcq_list (task_queue (the_server d)) = []" "pcq_capacity (task_queue (the_server d)) = 3"
    by (auto simp del: fun_upd_apply)
  let ?u = "box_set 0 (\<lambda>b. b\<lparr>n_pub := 1, box_size := 0\<rparr>) (indexed 1 0 t)"
  have "start_task demo_env 1 (task_of (line_of publish_request)) t = Inr (Registered_pub publish_request, ?u)"
    using register_pub_exec [of t publish_request 1 0 demo_env
        "\<lambda>accepted. if accepted then ret (Registered_pub publish_request) else finished"] t
    by (simp add: start_task_def demo_lines ret_def)
  with request_happens [OF d(4,5) _ demo_lines(2), of 1 demo_env ?E] d(2,3,6) len
  obtain e where e: "cluster_run ?E d [Line (line_of publish_request), Take 1 (task_of (line_of publish_request))] e"
    "doing e = (\<lambda>_. Idle)(0 := Idle, 1 := Registered_pub publish_request)" "pcq_list (task_queue (the_server e)) = []"
    "cluster_broker e = ?u" "pcq_capacity (task_queue (the_server e)) = 3"
    by (auto simp del: fun_upd_apply simp: fun_upd_same fun_upd_other)
  from cluster_run_trans [OF e(1) d(1)] e(2-) ready show ?thesis
    by (intro exI [of _ e] exI [of _ t]) (simp del: fun_upd_apply)
qed

lemma demo_threads:
  "\<exists>d. cluster_run {demo_env} started_cluster [Line (line_of create_request), Take 0 (task_of (line_of create_request)),
      Line (line_of publish_request), Take 1 (task_of (line_of publish_request))] d \<and>
    doing d 0 = Idle \<and> doing d 1 = Registered_pub publish_request \<and> pcq_list (task_queue (the_server d)) = []"
  using demo_publisher by fastforce

end
