(* ===== verification/Threads_Correct.thy ===== *)
theory Threads_Correct
  imports Threads_Start
begin

text \<open>
  Properties of the broker with all its threads: the invariant in every reachable state, the order
  in which requests are taken.
\<close>

section \<open>Steps keep the invariant\<close>

lemma cluster_inv_queue:
  assumes "cluster_inv c" and "the_broker s = cluster_broker c" and "pcq_wf (task_queue s)"
  shows "cluster_inv (c\<lparr>the_server := s\<rparr>)"
  using assms by (simp add: cluster_inv_def others_handles_def others_locks_def)

text \<open>A thread takes the oldest task and does its first step with it.\<close>

lemma take_step:
  assumes w: "pcq_wf (task_queue s)" and ne: "pcq_current_size (task_queue s) \<noteq> 0"
    and t: "call (in_queue dequeue_section) (\<lambda>t. call (in_broker (start_task env j t)) (\<lambda>a. ret (t, a))) s =
      Inr ((t, a), u)"
  shows "pcq_wf (task_queue u)" "pcq_list (task_queue s) = t # pcq_list (task_queue u)"
    "start_task env j t (the_broker s) = Inr (a, the_broker u)"
proof -
  from ne have "pcq_list (task_queue s) \<noteq> []" using pcq_list_Nil [OF w] by simp
  from pcq.deq_law [OF w this] this obtain q where
    q: "dequeue_section (task_queue s) = Inr (hd (pcq_list (task_queue s)), q)" "pcq_wf q"
      "pcq_list (task_queue s) = hd (pcq_list (task_queue s)) # pcq_list q" by (auto simp: list.expand)
  with t have "start_task env j t (the_broker s) = Inr (a, the_broker u) \<and> task_queue u = q \<and>
      t = hd (pcq_list (task_queue s))"
    by (auto simp: call_def in_queue_def in_broker_def ret_def split: sum.splits)
  with q show "pcq_wf (task_queue u)" "pcq_list (task_queue s) = t # pcq_list (task_queue u)"
    "start_task env j t (the_broker s) = Inr (a, the_broker u)" by auto
qed

lemma after_box:
  assumes "after_step g H J b L i a t" and "has_box a"
  shows "i < length (server_boxes b) \<Longrightarrow> i < length (server_boxes t)"
  using assms busyD(6) by (fastforce simp: after_step_def)

lemma in_broker_result: "in_broker m s = Inr (a, t) \<Longrightarrow> m (the_broker s) = Inr (a, the_broker t) \<and> s\<lparr>the_broker := the_broker t\<rparr> = t"
  by (auto simp: in_broker_def split: sum.splits)

lemma cluster_step_inv:
  assumes E: "\<And>env. env \<in> E \<Longrightarrow> fresh_memory env" and c: "cluster_inv c" and s: "cluster_step E c l d"
  shows "cluster_inv d"
  using s
proof cases
  case (line raw bytes s)
  note q = main_iteration_list [OF cluster_invD(1) [OF c] line(3-6)]
  show ?thesis unfolding line(2) by (rule cluster_inv_queue [OF c q(2,1)])
next
  case (takes env j t a s)
  note t = take_step [OF cluster_invD(1) [OF c] takes(6,7)]
  let ?c = "c\<lparr>the_server := (the_server c)\<lparr>task_queue := task_queue s\<rparr>\<rparr>"
  have c': "cluster_inv ?c" using t(1) by (intro cluster_inv_queue [OF c]) simp_all
  from start_after [OF c', of env j t a "the_broker s"] E takes t(3) obtain i where
    i: "after_step nothing (others_handles ?c j) j (cluster_broker ?c) (others_locks ?c j) i a (the_broker s)"
      "has_box a \<longrightarrow> j < length (thread_pool (cluster_broker ?c)) \<and> i < length (server_boxes (the_broker s)) \<and>
        thread_pool (the_broker s) ! j = int i" by auto
  have "(the_server c)\<lparr>task_queue := task_queue s, the_broker := the_broker s\<rparr> = s"
    by (rule server.equality) simp_all
  with thread_step_inv [OF c' i(1)] i(2) takes(2) show ?thesis by simp
next
  case (goes env input j a s)
  note r = in_broker_result [OF goes(5)]
  have h: "has_box (doing c j)" using r by (cases "doing c j") (auto simp: fail_def)
  from continue_after [OF c h] r obtain i where
    i: "thread_pool (cluster_broker c) ! j = int i" "i < length (server_boxes (cluster_broker c))"
      "j < length (thread_pool (cluster_broker c))"
      "after_step nothing (others_handles c j) (length (thread_pool (cluster_broker c))) (cluster_broker c)
        (others_locks c j) i a (the_broker s)" by metis
  then have "thread_pool (the_broker s) ! j = int i" using busyD(5) [of nothing] by (auto simp: after_step_def)
  with thread_step_inv [OF c i(4)] i after_box [OF i(4)] r goes show ?thesis by simp
next
  case (wakes j pipe fd)
  from step_box [OF c, of j] wakes obtain i where
    i: "i < length (server_boxes (cluster_broker c))" "j < length (thread_pool (cluster_broker c))"
      "thread_pool (cluster_broker c) ! j = int i" "locked_boxes (cluster_broker c) = others_locks c j" by auto
  have "after_step nothing (others_handles c j) j (cluster_broker c) (others_locks c j) i (Entering pipe fd)
      (cluster_broker c)"
    using step_start [OF c, of nothing j j] cluster_invD(7) [OF c, of j fd] wakes i(4) by (simp add: after_step_def)
  moreover have "\<lparr>the_server = the_server c, doing = (doing c)(j := Entering pipe fd)\<rparr> = d"
    using wakes(2) by (intro cluster.equality) simp_all
  ultimately show ?thesis using thread_step_inv [OF c] i by fastforce
qed

lemma cluster_run_inv:
  assumes E: "\<And>env. env \<in> E \<Longrightarrow> fresh_memory env" and "cluster_run E c ls d" and "cluster_inv c"
  shows "cluster_inv d"
  using assms(2,3) by (induction rule: cluster_run.induct) (auto intro: cluster_step_inv [OF E])

section \<open>Every reachable state\<close>

text \<open>C5: Whatever its clients do, and however its threads interleave, the broker that \<open>main\<close> starts
  stays well-formed: its table and its file system keep their invariants, no lock of either is left
  held, every thread that serves a publisher or a subscriber has an open handle that no other
  thread uses, and no two subscribers are at the same time between the \<open>tfs_read\<close> and the release
  of the lock of the same box.\<close>

theorem threads_keep_broker_well_formed:
  assumes "started n c" and "cluster_run E c ls d" and "\<And>env. env \<in> E \<Longrightarrow> fresh_memory env"
  shows "table_ok (cluster_broker d) \<and> fs_inv (tfs (cluster_broker d)) \<and> idle (tfs (cluster_broker d)) \<and>
    \<not> box_size_lock (cluster_broker d) \<and>
    (\<forall>j fd. handle_in (doing d j) = Some fd \<longrightarrow> is_open (tfs (cluster_broker d)) fd) \<and>
    (\<forall>j k fd. handle_in (doing d j) = Some fd \<longrightarrow> handle_in (doing d k) = Some fd \<longrightarrow> j = k) \<and>
    (\<forall>j k. holds_lock (doing d j) \<longrightarrow> holds_lock (doing d k) \<longrightarrow>
      thread_pool (cluster_broker d) ! j = thread_pool (cluster_broker d) ! k \<longrightarrow> j = k)"
proof -
  have d: "cluster_inv d" by (rule cluster_run_inv [OF assms(3,2) started_inv(1) [OF assms(1)]])
  have h: "j = k \<and> is_open (tfs (cluster_broker d)) fd"
    if "handle_in (doing d j) = Some fd" "handle_in (doing d k) = Some fd" for j k fd
  proof -
    note o = cluster_invD(7) [OF d that(1)]
    then obtain m where "fd = int m" by (auto simp: own_handle_def elim: is_open_nat)
    with o that show ?thesis by (auto simp: own_handle_def others_handles_def)
  qed
  have l: "j = k" if hl: "holds_lock (doing d j)" "holds_lock (doing d k)"
    "thread_pool (cluster_broker d) ! j = thread_pool (cluster_broker d) ! k" for j k
  proof (rule ccontr)
    assume "j \<noteq> k"
    from cluster_invD(6) [OF d has_boxI(2) [OF hl(1)]] obtain i where
      i: "thread_pool (cluster_broker d) ! j = int i" by blast
    with hl \<open>j \<noteq> k\<close> have "i \<in> others_locks d j" unfolding others_locks_def by force
    with cluster_invD(9) [OF d hl(1) i] show False ..
  qed
  from h l cluster_invD(2-4) [OF d] show ?thesis by (simp add: fs_kept_def)
qed

theorem threads_keep_broker_well_formed_witness:
  "\<exists>d. cluster_run {demo_env} started_cluster [Line (line_of create_request), Take 0 (task_of (line_of create_request)),
      Line (line_of publish_request), Take 1 (task_of (line_of publish_request))] d \<and>
    doing d 1 = Registered_pub publish_request \<and> table_ok (cluster_broker d) \<and> fs_inv (tfs (cluster_broker d)) \<and>
    idle (tfs (cluster_broker d)) \<and> \<not> box_size_lock (cluster_broker d)"
proof -
  from demo_threads obtain d where d: "cluster_run {demo_env} started_cluster [Line (line_of create_request),
      Take 0 (task_of (line_of create_request)), Line (line_of publish_request), Take 1 (task_of (line_of publish_request))] d"
    "doing d 1 = Registered_pub publish_request" by blast
  from threads_keep_broker_well_formed [OF started_demo d(1)] d show ?thesis by (intro exI [of _ d]) simp
qed

section \<open>The order of requests\<close>

fun lines_in :: "label list \<Rightarrow> task list" where
  "lines_in [] = []"
| "lines_in (Line b # ls) = task_of b # lines_in ls"
| "lines_in (l # ls) = lines_in ls"

fun tasks_in :: "label list \<Rightarrow> task list" where
  "tasks_in [] = []"
| "tasks_in (Take j t # ls) = t # tasks_in ls"
| "tasks_in (l # ls) = tasks_in ls"

lemma labels_append [simp]:
  "lines_in (ls @ ks) = lines_in ls @ lines_in ks" "tasks_in (ls @ ks) = tasks_in ls @ tasks_in ks"
  by (induction ls rule: lines_in.induct; simp) (induction ls rule: tasks_in.induct; simp)

text \<open>C11: The threads take the requests in the order in which they arrived, each exactly once: the tasks
  that were taken and those that wait in the queue are, in this order, the tasks made of the lines
  that were read from the server pipe, while any number of handlers are at work.\<close>

theorem requests_taken_in_order:
  assumes "started n c" and "cluster_run E c ls d"
  shows "lines_in ls = tasks_in ls @ pcq_list (task_queue (the_server d)) \<and>
    length (pcq_list (task_queue (the_server d))) \<le> pcq_capacity (task_queue (the_server d))"
proof -
  have "cluster_run E c ls d \<Longrightarrow> lines_in ls = tasks_in ls @ pcq_list (task_queue (the_server d)) \<and>
    pcq_wf (task_queue (the_server d))"
  proof (induction rule: cluster_run.induct)
    case nil
    then show ?case using started_inv [OF assms(1)] cluster_invD(1) by simp
  next
    case (snoc ls d l e)
    then have w: "pcq_wf (task_queue (the_server d))" by simp
    from snoc(2) show ?case
    proof cases
      case (line raw bytes s)
      then show ?thesis using main_iteration_list [OF w line(3-6)] snoc.IH by simp
    next
      case (takes env j t a s)
      then show ?thesis using take_step [OF w takes(6,7)] snoc.IH by simp
    next
      case (goes env input j a s)
      have "task_queue s = task_queue (the_server d)"
        using goes(5) by (auto simp: in_broker_def split: sum.splits)
      with goes snoc.IH show ?thesis by simp
    qed (use snoc.IH in simp)
  qed
  with assms(2) have r: "lines_in ls = tasks_in ls @ pcq_list (task_queue (the_server d))"
    "pcq_wf (task_queue (the_server d))" by simp_all
  from r(2) have "length (pcq_list (task_queue (the_server d))) \<le> pcq_capacity (task_queue (the_server d))"
    using length_pcq_list [OF r(2)] by (simp add: pcq_wf_def)
  with r(1) show ?thesis ..
qed

theorem requests_taken_in_order_witness:
  "\<exists>d. cluster_run {demo_env} started_cluster [Line (line_of create_request), Take 0 (task_of (line_of create_request)),
      Line (line_of publish_request), Take 1 (task_of (line_of publish_request))] d \<and>
    [task_of (line_of create_request), task_of (line_of publish_request)] =
      [task_of (line_of create_request), task_of (line_of publish_request)] @ pcq_list (task_queue (the_server d))"
proof -
  from demo_threads obtain d where d: "cluster_run {demo_env} started_cluster [Line (line_of create_request),
      Take 0 (task_of (line_of create_request)), Line (line_of publish_request), Take 1 (task_of (line_of publish_request))] d"
    by blast
  from requests_taken_in_order [OF started_demo d] d show ?thesis by (intro exI [of _ d]) simp
qed

end
