(* ===== verification/Threads_Publishers.thy ===== *)
theory Threads_Publishers
  imports Threads_Correct
begin

text \<open>
  One publisher per box, for the broker with all its threads: the number of publishers of an entry is
  raised by the registration of one publisher and reset at its end only, as long as no box is removed.
\<close>

section \<open>A publisher changes only the entry of its box\<close>

definition elsewhere :: "nat \<Rightarrow> broker \<Rightarrow> broker \<Rightarrow> bool" where
  "elsewhere i s t \<longleftrightarrow> thread_pool t = thread_pool s \<and> (\<forall>n. n \<noteq> i \<longrightarrow> server_boxes t ! n = server_boxes s ! n)"

lemma elsewhere_refl [simp]: "elsewhere i s s"
  by (simp add: elsewhere_def)

lemma elsewhere_trans: "elsewhere i s t \<Longrightarrow> elsewhere i t u \<Longrightarrow> elsewhere i s u"
  by (simp add: elsewhere_def)

lemma elsewhere_ops:
  "in_tfs m s = Inr (x, t) \<Longrightarrow> elsewhere i s t" "my_close env p s = Inr (y, t) \<Longrightarrow> elsewhere i s t"
  "upd_box (int i) f s = Inr (y, t) \<Longrightarrow> elsewhere i s t" "finished s = Inr (a, t) \<Longrightarrow> elsewhere i s t"
proof -
  show "in_tfs m s = Inr (x, t) \<Longrightarrow> elsewhere i s t"
    by (auto simp: in_tfs_def elsewhere_def split: sum.splits)
  show "my_close env p s = Inr (y, t) \<Longrightarrow> elsewhere i s t"
    by (auto simp: elsewhere_def my_close_def log_io_def modify_def lift_def ret_def fail_def split: sum.splits if_splits
      elim!: call_eq_InrE)
  show "upd_box (int i) f s = Inr (y, t) \<Longrightarrow> elsewhere i s t"
    by (auto simp: elsewhere_def dest!: upd_box_result)
  show "finished s = Inr (a, t) \<Longrightarrow> elsewhere i s t"
    by (auto simp: finished_def gets_def ret_def elim!: call_eq_InrE)
qed

lemma get_index_own:
  "get_index j s = Inr (k, t) \<Longrightarrow> thread_pool s ! j = int i \<Longrightarrow> k = int i \<and> t = s"
  by (auto simp: get_index_def gets_def lift_def array_get_def split: sum.splits if_splits elim!: call_eq_InrE)

lemma pub_message_elsewhere:
  assumes r: "pub_message env j fd bytes s = Inr (go, t)" and j: "thread_pool s ! j = int i"
  shows "elsewhere i s t"
proof -
  let ?read = "reader_stc (grants env) (bytes @ drop (length bytes) (raw_line env))"
  from r obtain message n v s1 where w: "in_tfs (tfs_write fd message (size_add n 1)) s = Inr (v, s1)"
    and rest: "(if v = - 1 then ret False
      else call (get_index j) (\<lambda>i. call (get_box i) (\<lambda>b.
        call (lift (int_add (box_size b) (to_int n))) (\<lambda>sz.
        block [upd_box i (\<lambda>b. b\<lparr>box_size := sz\<rparr>)] (ret True))))) s1 = Inr (go, t)"
    by (auto simp: pub_message_def lift_def split: sum.splits elim!: call_eq_InrE)
  note s1 = elsewhere_ops(1) [OF w, of i]
  with j have j1: "thread_pool s1 ! j = int i" by (simp add: elsewhere_def)
  from rest have "t = s1 \<or> (\<exists>sz. upd_box (int i) (\<lambda>b. b\<lparr>box_size := sz\<rparr>) s1 = Inr ((), t))"
    by (auto simp: ret_def lift_def split: if_splits sum.splits
        elim!: call_eq_InrE dest!: get_box_exec' get_index_own [OF _ j1])
  with s1 show ?thesis by (auto intro: elsewhere_trans elsewhere_ops(3))
qed

lemma pub_end_elsewhere:
  assumes "pub_end env p j fd s = Inr (x, t)" and j: "thread_pool s ! j = int i"
  shows "elsewhere i s t"
proof -
  from assms(1) obtain a s1 s2 k s3 where r: "in_tfs (tfs_close fd) s = Inr (a, s1)" "my_close env p s1 = Inr ((), s2)"
    "get_index j s2 = Inr (k, s3)" "upd_box k (\<lambda>b. b\<lparr>n_pub := 0\<rparr>) s3 = Inr (x, t)"
    by (auto simp: pub_end_def elim!: call_eq_InrE)
  note e = elsewhere_trans [OF elsewhere_ops(1) [OF r(1)] elsewhere_ops(2) [OF r(2)], of i]
  with j have "thread_pool s2 ! j = int i" by (simp add: elsewhere_def)
  with get_index_own [OF r(3)] r(4) have "upd_box (int i) (\<lambda>b. b\<lparr>n_pub := 0\<rparr>) s2 = Inr ((), t)" by simp
  from elsewhere_trans [OF e elsewhere_ops(3) [OF this]] show ?thesis .
qed

lemma publishing_elsewhere:
  assumes r: "continue_task env j input (Publishing p fd) s = Inr (a, t)" and j: "thread_pool s ! j = int i"
  shows "elsewhere i s t"
proof -
  have ends: "elsewhere i s t" if k: "block [pub_end env p j fd] finished s' = Inr (a, t)" and e: "elsewhere i s s'" for s'
  proof -
    from k obtain u where u: "pub_end env p j fd s' = Inr ((), u)" "finished u = Inr (a, t)"
      by (auto elim!: call_eq_InrE)
    have "thread_pool s' ! j = int i" using e j by (simp add: elsewhere_def)
    from elsewhere_trans [OF e pub_end_elsewhere [OF u(1) this]] elsewhere_ops(4) [OF u(2)] show ?thesis
      by (rule elsewhere_trans)
  qed
  have stops: "elsewhere i s t"
    if k: "block [my_close env p] (call (in_tfs (tfs_close fd)) (\<lambda>_. finished)) s = Inr (a, t)"
  proof -
    from k obtain u x v where u: "my_close env p s = Inr ((), u)" "in_tfs (tfs_close fd) u = Inr (x, v)"
      "finished v = Inr (a, t)" by (auto elim!: call_eq_InrE)
    from elsewhere_trans [OF elsewhere_trans [OF elsewhere_ops(2) [OF u(1)] elsewhere_ops(1) [OF u(2)]]
        elsewhere_ops(4) [OF u(3)]] show ?thesis .
  qed
  show ?thesis
  proof (cases "ending s")
    case True
    with r stops show ?thesis by (simp add: call_gets del: block.simps)
  next
    case False
    show ?thesis
    proof (cases input)
      case None
      with r False ends [of s] show ?thesis by (simp add: call_gets del: block.simps)
    next
      case (Some bytes)
      with r False obtain go u where u: "pub_message env j fd bytes s = Inr (go, u)"
        "(if go then ret (Publishing p fd) else block [pub_end env p j fd] finished) u = Inr (a, t)"
        by (auto simp: call_gets simp del: block.simps elim!: call_eq_InrE)
      have "elsewhere i s u" by (rule pub_message_elsewhere [OF u(1) j])
      with u(2) ends [of u] show ?thesis by (auto simp: ret_def simp del: block.simps split: if_splits)
    qed
  qed
qed

text \<open>Only a registration makes a publisher.\<close>

lemma finished_result: "finished s = Inr (a, t) \<Longrightarrow> a = Idle \<or> a = Ended"
  by (auto simp: finished_def gets_def ret_def elim!: call_eq_InrE split: if_splits)

lemma publishes_before:
  assumes "continue_task env j input b s = Inr (a, t)" and "publishes a"
  shows "publishes b"
  using assms
  by (cases b)
    (auto simp: sub_read_def sub_sleep_def sub_send_def ret_def fail_def split: if_splits
      elim!: call_eq_InrE dest!: finished_result)

section \<open>The invariant\<close>

definition sole_publishers :: "cluster \<Rightarrow> bool" where
  "sole_publishers c \<longleftrightarrow> (\<forall>j i. publishes (doing c j) \<longrightarrow> thread_pool (cluster_broker c) ! j = int i \<longrightarrow>
     n_pub (server_boxes (cluster_broker c) ! i) = 1 \<and>
     (\<forall>k. k \<noteq> j \<longrightarrow> publishes (doing c k) \<longrightarrow> thread_pool (cluster_broker c) ! k \<noteq> int i))"

lemma sole_publishersD:
  assumes "sole_publishers c" and "publishes (doing c j)" and "thread_pool (cluster_broker c) ! j = int i"
  shows "n_pub (server_boxes (cluster_broker c) ! i) = 1"
    "k \<noteq> j \<Longrightarrow> publishes (doing c k) \<Longrightarrow> thread_pool (cluster_broker c) ! k \<noteq> int i"
  using assms unfolding sole_publishers_def by blast+

lemma publishes_has_box: "publishes a \<Longrightarrow> has_box a"
  by (cases a) simp_all

text \<open>
  A step of the thread \<open>j\<close> with the box \<open>i\<close>: it leaves the numbers of publishers of the other boxes alone,
  and that of its own unless it was the publisher; if it now publishes, no other thread did.
\<close>

lemma sole_step:
  assumes c: "cluster_inv c" and p: "sole_publishers c"
    and pool: "\<And>k. k \<noteq> j \<Longrightarrow> publishes (doing c k) \<Longrightarrow> thread_pool t ! k = thread_pool (cluster_broker c) ! k"
    and others: "\<And>k n. k \<noteq> j \<Longrightarrow> publishes (doing c k) \<Longrightarrow> thread_pool (cluster_broker c) ! k = int n \<Longrightarrow>
      n < length (server_boxes (cluster_broker c)) \<Longrightarrow>
      n_pub (server_boxes t ! n) = n_pub (server_boxes (cluster_broker c) ! n)"
    and own: "publishes a \<Longrightarrow> thread_pool t ! j = int i \<and> n_pub (server_boxes t ! i) = 1 \<and>
      (\<forall>k. k \<noteq> j \<longrightarrow> publishes (doing c k) \<longrightarrow> thread_pool (cluster_broker c) ! k \<noteq> int i)"
  shows "sole_publishers \<lparr>the_server = (the_server c)\<lparr>the_broker := t\<rparr>, doing = (doing c)(j := a)\<rparr>" (is "sole_publishers ?d")
  unfolding sole_publishers_def
proof (intro allI impI)
  fix k n assume k: "publishes (doing ?d k)" "thread_pool (cluster_broker ?d) ! k = int n"
  show "n_pub (server_boxes (cluster_broker ?d) ! n) = 1 \<and>
    (\<forall>k'. k' \<noteq> k \<longrightarrow> publishes (doing ?d k') \<longrightarrow> thread_pool (cluster_broker ?d) ! k' \<noteq> int n)"
  proof (cases "k = j")
    case True
    with k have a: "publishes a" "thread_pool t ! j = int n" by simp_all
    from own [OF a(1)] a(2) have n: "n = i" by simp
    have "thread_pool t ! k' \<noteq> int n" if "k' \<noteq> j" "publishes (doing c k')" for k'
      using own [OF a(1)] pool [OF that] that n by simp
    with own [OF a(1)] n True show ?thesis by simp
  next
    case False
    with k have f: "publishes (doing c k)" "thread_pool (cluster_broker c) ! k = int n" using pool by auto
    with cluster_invD(6) [OF c publishes_has_box] have "n < length (server_boxes (cluster_broker c))" by fastforce
    note n = others [OF False f this] sole_publishersD [OF p f]
    have "thread_pool t ! k' \<noteq> int n" if "k' \<noteq> k" "publishes (doing ?d k')" for k'
    proof (cases "k' = j")
      case True
      with that own have "thread_pool t ! k' = int i" "thread_pool (cluster_broker c) ! k \<noteq> int i"
        using False f(1) by simp_all
      with f(2) show ?thesis by simp
    next
      case other: False
      with that n(3) [of k'] pool [OF other] show ?thesis by simp
    qed
    with n(1,2) show ?thesis by simp
  qed
qed

lemma sole_takes:
  assumes c: "cluster_inv c" and p: "sole_publishers c" and e: "fresh_memory env" and d: "doing c j = Idle"
    and r: "start_task env j t (cluster_broker c) = Inr (a, u)" and nr: "function_of t \<noteq> Some H_remove"
  shows "sole_publishers \<lparr>the_server = (the_server c)\<lparr>the_broker := u\<rparr>, doing = (doing c)(j := a)\<rparr>"
proof -
  let ?b = "cluster_broker c"
  from start_after [OF c e d r] nr obtain i where
    i: "after_step nothing (others_handles c j) j ?b (others_locks c j) i a u"
      "has_box a \<longrightarrow> thread_pool u ! j = int i"
      "\<not> publishes a \<longrightarrow> after_step n_pub (others_handles c j) j ?b (others_locks c j) i a u"
      "publishes a \<longrightarrow> i < length (server_boxes ?b) \<and> n_pub (server_boxes ?b ! i) \<noteq> 1 \<and>
        server_boxes u = (server_boxes ?b)[i := (server_boxes ?b ! i)\<lparr>n_pub := 1, box_size := 0\<rparr>]" by auto
  show ?thesis
  proof (rule sole_step [OF c p, where i = i])
    show "thread_pool u ! k = thread_pool ?b ! k" if "k \<noteq> j" for k
      using i(1) that busyD(5) by (fastforce simp: after_step_def)
  next
    fix k n assume k: "k \<noteq> j" "publishes (doing c k)" "thread_pool ?b ! k = int n" and n: "n < length (server_boxes ?b)"
    have "n_pub (server_boxes ?b ! n) = 1" using sole_publishersD(1) [OF p k(2,3)] by simp
    with i(4) have "publishes a \<Longrightarrow> n \<noteq> i" by auto
    with i(3,4) n show "n_pub (server_boxes u ! n) = n_pub (server_boxes ?b ! n)"
      using busyD(7) [of n_pub] by (cases "publishes a") (fastforce simp: after_step_def)+
  next
    assume a: "publishes a"
    then have "thread_pool ?b ! k \<noteq> int i" if "publishes (doing c k)" for k
      using i(4) sole_publishersD(1) [OF p that, of i] by auto
    with a i(2,4) publishes_has_box [OF a] show "thread_pool u ! j = int i \<and> n_pub (server_boxes u ! i) = 1 \<and>
        (\<forall>k. k \<noteq> j \<longrightarrow> publishes (doing c k) \<longrightarrow> thread_pool ?b ! k \<noteq> int i)" by simp
  qed
qed

lemma sole_goes:
  assumes c: "cluster_inv c" and p: "sole_publishers c"
    and r: "continue_task env j input (doing c j) (cluster_broker c) = Inr (a, u)"
  shows "sole_publishers \<lparr>the_server = (the_server c)\<lparr>the_broker := u\<rparr>, doing = (doing c)(j := a)\<rparr>"
proof -
  let ?b = "cluster_broker c"
  have h: "has_box (doing c j)" using r by (cases "doing c j") (auto simp: fail_def)
  from continue_after [OF c h r] obtain i where
    i: "thread_pool ?b ! j = int i" "i < length (server_boxes ?b)" "j < length (thread_pool ?b)"
      "after_step nothing (others_handles c j) (length (thread_pool ?b)) ?b (others_locks c j) i a u"
      "\<not> pub_ends (doing c j) a \<Longrightarrow>
        after_step n_pub (others_handles c j) (length (thread_pool ?b)) ?b (others_locks c j) i a u" by metis
  have pool: "thread_pool u ! k = thread_pool ?b ! k" if "has_box (doing c k)" for k
    using i(4) cluster_invD(5) [OF c that] busyD(5) by (fastforce simp: after_step_def)
  have kept: "n_pub (server_boxes u ! n) = n_pub (server_boxes ?b ! n)"
    if "\<not> pub_ends (doing c j) a" "n < length (server_boxes ?b)" for n
    using i(5) [OF that(1)] that(2) busyD(7) [of n_pub] by (fastforce simp: after_step_def)
  show ?thesis
  proof (rule sole_step [OF c p, where i = i])
    show "thread_pool u ! k = thread_pool ?b ! k" if "publishes (doing c k)" for k
      using that pool publishes_has_box by blast
  next
    fix k n assume k: "k \<noteq> j" "publishes (doing c k)" "thread_pool ?b ! k = int n" and n: "n < length (server_boxes ?b)"
    show "n_pub (server_boxes u ! n) = n_pub (server_boxes ?b ! n)"
    proof (cases "pub_ends (doing c j) a")
      case True
      then obtain q fd where q: "doing c j = Publishing q fd" by (auto simp: pub_ends_def)
      with k sole_publishersD(2) [OF p k(2,3), of j] i(1) have "n \<noteq> i" by auto
      moreover have "elsewhere i ?b u" using publishing_elsewhere [OF _ i(1)] r q by fastforce
      ultimately show ?thesis by (simp add: elsewhere_def)
    qed (use kept n in simp)
  next
    assume a: "publishes a"
    with r publishes_before have b: "publishes (doing c j)" by blast
    have "\<not> pub_ends (doing c j) a" using a by (simp add: pub_ends_def)
    with kept i pool [OF h] sole_publishersD [OF p b i(1)]
    show "thread_pool u ! j = int i \<and> n_pub (server_boxes u ! i) = 1 \<and>
        (\<forall>k. k \<noteq> j \<longrightarrow> publishes (doing c k) \<longrightarrow> thread_pool ?b ! k \<noteq> int i)" by simp
  qed
qed

lemma sole_publishers_step:
  assumes E: "\<And>env. env \<in> E \<Longrightarrow> fresh_memory env" and c: "cluster_inv c" and p: "sole_publishers c"
    and s: "cluster_step E c l d" and l: "\<And>j t. l = Take j t \<Longrightarrow> function_of t \<noteq> Some H_remove"
  shows "sole_publishers d"
  using s
proof cases
  case (line raw bytes s)
  have "the_broker s = cluster_broker c" by (rule main_iteration_list(2) [OF cluster_invD(1) [OF c] line(3-6)])
  with p line(2) show ?thesis by (simp add: sole_publishers_def)
next
  case (takes env j t a s)
  note t = take_step [OF cluster_invD(1) [OF c] takes(6,7)]
  let ?c = "c\<lparr>the_server := (the_server c)\<lparr>task_queue := task_queue s\<rparr>\<rparr>"
  have c': "cluster_inv ?c" using t(1) by (intro cluster_inv_queue [OF c]) simp_all
  have p': "sole_publishers ?c" using p by (simp add: sole_publishers_def)
  from sole_takes [OF c' p' E [OF takes(3)], of j t a "the_broker s"] takes(4) t(3) l [OF takes(1)]
  have "sole_publishers \<lparr>the_server = (the_server ?c)\<lparr>the_broker := the_broker s\<rparr>, doing = (doing ?c)(j := a)\<rparr>" by simp
  moreover have "(the_server c)\<lparr>task_queue := task_queue s, the_broker := the_broker s\<rparr> = s"
    by (rule server.equality) simp_all
  ultimately show ?thesis using takes(2) by simp
next
  case (goes env input j a s)
  note r = in_broker_result [OF goes(5)]
  from sole_goes [OF c p conjunct1 [OF r]] r goes(2) show ?thesis by simp
next
  case (wakes j pipe fd)
  then show ?thesis using p by (auto simp: sole_publishers_def split: if_splits)
qed

text \<open>C9: As long as no box is removed, every box has at most one publisher, however the threads
  interleave: the entries of the threads that serve a publisher are pairwise different, and the
  number of publishers of each of them, which the list of boxes shows, is 1.\<close>

theorem one_publisher_per_box:
  assumes "started n c" and "cluster_run E c ls d" and "\<And>env. env \<in> E \<Longrightarrow> fresh_memory env"
    and "\<And>j t. Take j t \<in> set ls \<Longrightarrow> function_of t \<noteq> Some H_remove"
  shows "\<forall>j. publishes (doing d j) \<longrightarrow>
    (\<exists>i < length (server_boxes (cluster_broker d)). thread_pool (cluster_broker d) ! j = int i \<and>
      n_pub (server_boxes (cluster_broker d) ! i) = 1 \<and>
      (\<forall>k. publishes (doing d k) \<longrightarrow> thread_pool (cluster_broker d) ! k = int i \<longrightarrow> k = j))"
proof -
  have "cluster_run E c ls d \<Longrightarrow> (\<forall>j t. Take j t \<in> set ls \<longrightarrow> function_of t \<noteq> Some H_remove) \<Longrightarrow>
    cluster_inv d \<and> sole_publishers d"
  proof (induction rule: cluster_run.induct)
    case nil
    then show ?case using started_inv(1) [OF assms(1)] assms(1)
      by (auto simp: started_def sole_publishers_def)
  next
    case (snoc ls d l e)
    then have d: "cluster_inv d" "sole_publishers d" by auto
    from cluster_step_inv [OF assms(3) d(1) snoc.hyps(2)] sole_publishers_step [OF assms(3) d snoc.hyps(2)] snoc.prems
    show ?case by auto
  qed
  with assms(2,4) have d: "cluster_inv d" "sole_publishers d" by auto
  show ?thesis
  proof (intro allI impI)
    fix j assume j: "publishes (doing d j)"
    from cluster_invD(6) [OF d(1) publishes_has_box [OF j]] obtain i where
      i: "i < length (server_boxes (cluster_broker d))" "thread_pool (cluster_broker d) ! j = int i" by blast
    with sole_publishersD [OF d(2) j i(2)] show "\<exists>i < length (server_boxes (cluster_broker d)).
        thread_pool (cluster_broker d) ! j = int i \<and> n_pub (server_boxes (cluster_broker d) ! i) = 1 \<and>
        (\<forall>k. publishes (doing d k) \<longrightarrow> thread_pool (cluster_broker d) ! k = int i \<longrightarrow> k = j)" by blast
  qed
qed

theorem one_publisher_per_box_witness:
  "\<exists>d i. cluster_run {demo_env} started_cluster [Line (line_of create_request), Take 0 (task_of (line_of create_request)),
      Line (line_of publish_request), Take 1 (task_of (line_of publish_request))] d \<and>
    publishes (doing d 1) \<and> thread_pool (cluster_broker d) ! 1 = int i \<and>
    n_pub (server_boxes (cluster_broker d) ! i) = 1 \<and>
    (\<forall>k. publishes (doing d k) \<longrightarrow> thread_pool (cluster_broker d) ! k = int i \<longrightarrow> k = 1)"
proof -
  from demo_threads obtain d where d: "cluster_run {demo_env} started_cluster [Line (line_of create_request),
      Take 0 (task_of (line_of create_request)), Line (line_of publish_request), Take 1 (task_of (line_of publish_request))] d"
    "doing d 1 = Registered_pub publish_request" by blast
  have p: "publishes (doing d 1)" unfolding d(2) by simp
  have "\<forall>j. publishes (doing d j) \<longrightarrow>
    (\<exists>i < length (server_boxes (cluster_broker d)). thread_pool (cluster_broker d) ! j = int i \<and>
      n_pub (server_boxes (cluster_broker d) ! i) = 1 \<and>
      (\<forall>k. publishes (doing d k) \<longrightarrow> thread_pool (cluster_broker d) ! k = int i \<longrightarrow> k = j))"
    by (rule one_publisher_per_box [OF started_demo d(1)]) (auto simp: demo_lines)
  with p d(1) show ?thesis by blast
qed

end
