(* ===== verification/FS_Spare.thy ===== *)
theory FS_Spare
  imports FS_Effects
begin

text \<open>
  The bytes of the data blocks that belong to no contents: those of free blocks, and those behind the
  end of a file in its block.  They stay zero, as long as no file is deleted or truncated.
\<close>

section \<open>Spare bytes\<close>

definition spare :: "tfs_state \<Rightarrow> nat \<Rightarrow> nat \<Rightarrow> bool" where
  "spare s b x \<longleftrightarrow> b < DATA_BLOCKS s \<and> x < BLOCK_SIZE s \<and>
     (free_blocks s ! b = FREE \<or> (\<exists>i. i \<noteq> 0 \<and> holds_block s i \<and> nat (block_of s i) = b \<and> i_size (inode_table s ! i) \<le> x))"

definition spare_zero :: "tfs_state \<Rightarrow> bool" where
  "spare_zero s \<longleftrightarrow> (\<forall>b x. spare s b x \<longrightarrow> fs_data s (b * BLOCK_SIZE s + x) = NUL)"

lemma spare_zeroD: "spare_zero s \<Longrightarrow> spare s b x \<Longrightarrow> fs_data s (b * BLOCK_SIZE s + x) = NUL"
  by (simp add: spare_zero_def)

lemma spare_zero_step:
  assumes "spare_zero s" and "fs_params t = fs_params s"
    and "\<And>b x. spare t b x \<Longrightarrow> spare s b x \<and> fs_data t (b * BLOCK_SIZE s + x) = fs_data s (b * BLOCK_SIZE s + x)"
  shows "spare_zero t"
  using assms unfolding spare_zero_def by simp

text \<open>Calls that leave blocks and inodes alone.\<close>

lemma spare_zero_cong:
  assumes "spare_zero s" and "inode_table t = inode_table s" and "fs_data t = fs_data s" and "fs_params t = fs_params s"
    and "free_blocks t = free_blocks s" and "freeinode_ts t = freeinode_ts s"
  shows "spare_zero t"
  using assms by (simp add: spare_zero_def spare_def holds_block_def)

lemma spare_zero_opened: "spare_zero s \<Longrightarrow> spare_zero (snd (opened s i off))"
  by (erule spare_zero_cong) (simp_all add: opened_def split: option.split)

lemma spare_zero_advanced: "spare_zero s \<Longrightarrow> spare_zero (advanced s h off)"
  by (erule spare_zero_cong) (simp_all add: advanced_def)

lemma spare_zero_file_inode:
  assumes c: "spare_zero s" and i: "fs_inv s" "first_free (freeinode_ts s) = Some i"
  shows "spare_zero (file_inode s i st)"
proof (rule spare_zero_step [OF c])
  fix b x assume b: "spare (file_inode s i st) b x"
  have "holds_block s k \<and> inode_table (file_inode s i st) ! k = inode_table s ! k" if "holds_block (file_inode s i st) k" for k
    using that fresh_inode(2) [OF i] fs_invD(1) [OF i(1)]
    by (cases "k = i") (auto simp: holds_block_def file_inode_def wf_simps)
  with b have "spare s b x" by (auto simp: spare_def)
  then show "spare s b x \<and> fs_data (file_inode s i st) (b * BLOCK_SIZE s + x) = fs_data s (b * BLOCK_SIZE s + x)" by simp
qed simp

lemma spare_not_root:
  assumes "fs_inv s" and "spare s b x"
  shows "b \<noteq> nat (block_of s 0)"
proof
  note w = fs_invD [OF assms(1)]
  assume b: "b = nat (block_of s 0)"
  then have "free_blocks s ! b = TAKEN" using w(2) by (simp add: root_ok_def)
  with assms(2) b obtain i where i: "i \<noteq> 0" "holds_block s i" "nat (block_of s i) = nat (block_of s 0)"
    by (auto simp: spare_def)
  from i(1,2) have "block_of s i \<noteq> block_of s 0" using block_of_not_root [OF w(5,2)] by simp
  moreover have "0 \<le> block_of s i" "0 \<le> block_of s 0"
    using w(2,5) i(2) by (simp_all add: blocks_inv_def valid_block_number_def root_ok_def)
  ultimately show False using i(3) by (simp add: nat_eq_iff2)
qed

lemma spare_zero_link_added:
  assumes c: "spare_zero s" and inv: "fs_inv s"
  shows "spare_zero (link_added s v d)"
proof (cases "valid_name v \<and> (\<exists>k. first_index (\<lambda>e. snd e = - 1) (root_dents s) = Some k)")
  case False
  then have "link_added s v d = s" by (auto simp: link_added_def entry_added_def split: option.split)
  with c show ?thesis by simp
next
  case True
  then obtain k where v: "valid_name v" and k: "first_index (\<lambda>e. snd e = - 1) (root_dents s) = Some k" by blast
  let ?m = "put_dent (fs_data s) (root_base s) k v d"
  have t: "link_added s v d = s\<lparr>fs_data := ?m\<rparr>" using v k by (simp add: link_added_def entry_added_def)
  have kl: "k < MAX_DIR_ENTRIES s" using first_index_SomeD [OF k] by simp
  show ?thesis
  proof (rule spare_zero_step [OF c])
    fix b x assume "spare (link_added s v d) b x"
    then have b: "spare s b x" by (simp add: t spare_def holds_block_def)
    have "x < BLOCK_SIZE s" using b by (simp add: spare_def)
    with block_disjoint [OF spare_not_root [OF inv b], of "BLOCK_SIZE s" "b * BLOCK_SIZE s + x"]
    have "b * BLOCK_SIZE s + x < root_base s \<or> root_base s + BLOCK_SIZE s \<le> b * BLOCK_SIZE s + x"
      by (simp add: root_base_block)
    then have "b * BLOCK_SIZE s + x < root_base s + 44 * k \<or> root_base s + 44 * k + 44 \<le> b * BLOCK_SIZE s + x"
      using entry_in_block [OF kl] by linarith
    with put_dent_outside [of v "b * BLOCK_SIZE s + x" "root_base s" k "fs_data s" d] v b
    show "spare s b x \<and> fs_data (link_added s v d) (b * BLOCK_SIZE s + x) = fs_data s (b * BLOCK_SIZE s + x)"
      by (auto simp: t valid_name_def)
  qed (simp add: t)
qed

lemma spare_zero_written:
  assumes c: "spare_zero s" and inv: "fs_inv s" and op: "is_open s (int h)" and live: "freeinode_ts s ! file_of s h = TAKEN"
    and wb: "write_block s (file_of s h) = Some (b, fb)" and fit: "offset_of s h + length bs \<le> BLOCK_SIZE s" and ne: "bs \<noteq> []"
  shows "spare_zero (written s h fb b bs)"
proof (rule spare_zero_step [OF c])
  let ?t = "written s h fb b bs" and ?i = "file_of s h"
  note oh = open_handle [OF inv op] and wv = write_block_valid [OF inv op wb] and wi = written_inode [OF inv op]
  fix b' x assume sp: "spare ?t b' x"
  then have x: "b' < DATA_BLOCKS s" "x < BLOCK_SIZE s" by (simp_all add: spare_def)
  have other: "fs_data ?t (b' * BLOCK_SIZE s + x) = fs_data s (b' * BLOCK_SIZE s + x)" if "b' \<noteq> b"
  proof -
    have "b' * BLOCK_SIZE s + x < b * BLOCK_SIZE s \<or> b * BLOCK_SIZE s + BLOCK_SIZE s \<le> b' * BLOCK_SIZE s + x"
      using block_disjoint [OF that, of "BLOCK_SIZE s" "b' * BLOCK_SIZE s + x"] x(2) by simp
    then show ?thesis using fit by (auto simp: written_def store_outside)
  qed
  have free: "free_blocks s ! b' = FREE \<and> b' \<noteq> b" if "fb ! b' = FREE"
    using that wv(6) [OF live] wb by (cases "b' = b") (auto simp: write_block_def split: if_splits option.splits)
  from sp consider "fb ! b' = FREE" | i where "i \<noteq> 0" "holds_block ?t i" "nat (block_of ?t i) = b'" "i_size (inode_table ?t ! i) \<le> x"
    by (auto simp: spare_def written_def)
  then show "spare s b' x \<and> fs_data ?t (b' * BLOCK_SIZE s + x) = fs_data s (b' * BLOCK_SIZE s + x)"
  proof cases
    case 1
    with free other x show ?thesis by (simp add: spare_def)
  next
    case (2 i)
    show ?thesis
    proof (cases "i = ?i")
      case True
      with 2 wi(1) [of fb b bs] have b: "b' = b" "i_size (inode_table s ! ?i) \<le> x" "offset_of s h + length bs \<le> x" by simp_all
      have "spare s b' x"
      proof (cases "i_size (inode_table s ! ?i) = 0")
        case True
        with wb have "first_free (free_blocks s) = Some b" by (auto simp: write_block_def)
        with x b first_free_Some show ?thesis by (auto simp: spare_def)
      next
        case False
        with wb have "nat (block_of s ?i) = b" by (auto simp: write_block_def)
        with False live oh(4,5) x b show ?thesis by (auto simp: spare_def holds_block_def)
      qed
      with b show ?thesis by (simp add: written_def store_outside)
    next
      case False
      with 2 wi(2) have h: "holds_block s i" "nat (block_of s i) = b'" "i_size (inode_table s ! i) \<le> x"
        by (simp_all add: holds_block_def)
      have "0 \<le> block_of s i" using fs_invD(5) [OF inv] h(1) by (simp add: blocks_inv_def valid_block_number_def)
      with wv(5) [OF h(1) live False] h(2) have "b' \<noteq> b" by auto
      with other h x 2(1) show ?thesis by (auto simp: spare_def)
    qed
  qed
qed simp

text \<open>The byte that follows a file in its block.\<close>

lemma spare_zero_next_byte:
  assumes c: "spare_zero s" and inv: "fs_inv s" and op: "is_open s (int h)" and live: "freeinode_ts s ! file_of s h = TAKEN"
    and "contents s (file_of s h) \<noteq> []" and "length (contents s (file_of s h)) < BLOCK_SIZE s"
  shows "fs_data s (read_base s h + length (contents s (file_of s h))) = NUL"
proof -
  let ?i = "file_of s h"
  note oh = open_handle [OF inv op]
  have sz: "0 < i_size (inode_table s ! ?i)" using assms(5) by (simp add: contents_def split: if_splits)
  from oh(7) [OF this] have "nat (block_of s ?i) < DATA_BLOCKS s" by (auto simp: valid_block_number_def)
  with sz live oh(4,5) assms(6) have "spare s (nat (block_of s ?i)) (i_size (inode_table s ! ?i))"
    by (auto simp: spare_def holds_block_def)
  from spare_zeroD [OF c this] show ?thesis by (simp add: read_base_def)
qed

text \<open>After the start of the file system, in memory that is zero.\<close>

lemma spare_zero_init:
  assumes "\<And>x. raw_byte h x = NUL" and "0 < max_inode_count p"
  shows "spare_zero (init_state h p s)"
  unfolding spare_zero_def
proof (intro allI impI)
  fix b x assume sp: "spare (init_state h p s) b x"
  have "\<not> holds_block (init_state h p s) i" if "i \<noteq> 0" for i
    using that init_taken [of i "max_inode_count p"] by (auto simp: holds_block_def)
  with sp have b: "b < max_block_count p" "(replicate (max_block_count p) FREE)[0 := TAKEN] ! b = FREE"
    by (auto simp: spare_def)
  have "b \<noteq> 0" using b by (intro notI) simp
  then have "44 * (block_size p div 44) \<le> b * block_size p + x" by (cases b) (simp_all add: trans_le_add1)
  from cleared_outside [OF this] assms(1)
  show "fs_data (init_state h p s) (b * BLOCK_SIZE (init_state h p s) + x) = NUL" by simp
qed

end
