(* ===== verification/FS_Files.thy ===== *)
theory FS_Files
  imports FS_Spare
begin

text \<open>
  What a call that returns does to the files that have names, without any assumption on its
  arguments: which files it leaves alone, where a handle leads, and what a write at the end of a
  file appends.
\<close>

section \<open>Files that are left alone\<close>

text \<open>A file that was written message by message: it ends with a zero byte unless its block is full.\<close>

definition whole :: "nat \<Rightarrow> char list \<Rightarrow> bool" where
  "whole n c \<longleftrightarrow> c = [] \<or> last c = NUL \<or> length c = n"

lemma whole_Nil [simp]: "whole n []"
  by (simp add: whole_def)

text \<open>No two names lead to the same file, none to a symbolic link, and all files are whole.\<close>

definition tidy :: "tfs_state \<Rightarrow> bool" where
  "tidy s \<longleftrightarrow> (\<forall>v w i. names s v = Some i \<longrightarrow> names s w = Some i \<longrightarrow> v = w) \<and>
     (\<forall>v i. names s v = Some i \<longrightarrow> \<not> is_link s (int i)) \<and>
     (\<forall>v i. names s v = Some i \<longrightarrow> whole (BLOCK_SIZE s) (contents s i))"

lemma tidyD:
  assumes "tidy s"
  shows "names s v = Some i \<Longrightarrow> names s w = Some i \<Longrightarrow> v = w" "names s v = Some i \<Longrightarrow> \<not> is_link s (int i)"
    "names s v = Some i \<Longrightarrow> whole (BLOCK_SIZE s) (contents s i)"
  using assms unfolding tidy_def by blast+

text \<open>All names lead where they led; the files outside \<open>W\<close> hold what they held.\<close>

definition files_kept :: "nat set \<Rightarrow> tfs_state \<Rightarrow> tfs_state \<Rightarrow> bool" where
  "files_kept W s t \<longleftrightarrow> fs_params t = fs_params s \<and> (tidy s \<longrightarrow> tidy t) \<and> (spare_zero s \<longrightarrow> spare_zero t) \<and>
     (\<forall>v i. names s v = Some i \<longrightarrow> names t v = Some i \<and> (i \<notin> W \<longrightarrow> contents t i = contents s i))"

lemma files_keptD:
  assumes "files_kept W s t"
  shows "tidy s \<Longrightarrow> tidy t" "names s v = Some i \<Longrightarrow> names t v = Some i"
    "names s v = Some i \<Longrightarrow> i \<notin> W \<Longrightarrow> contents t i = contents s i" "spare_zero s \<Longrightarrow> spare_zero t"
    "fs_params t = fs_params s"
  using assms unfolding files_kept_def by blast+

lemma files_kept_refl [simp]: "files_kept W s s"
  by (simp add: files_kept_def)

lemma files_kept_trans: "files_kept W s t \<Longrightarrow> files_kept W t u \<Longrightarrow> files_kept W s u"
  unfolding files_kept_def by metis

text \<open>Calls that change no name.\<close>

lemma files_keptI:
  assumes "names t = names s" and "fs_params t = fs_params s" and "spare_zero s \<Longrightarrow> spare_zero t"
    and "\<And>v i. names s v = Some i \<Longrightarrow> (if i \<in> W then whole (BLOCK_SIZE s) (contents t i) else contents t i = contents s i) \<and>
      i_node_type (inode_table t ! i) = i_node_type (inode_table s ! i)"
  shows "files_kept W s t"
proof -
  have "tidy t" if s: "tidy s"
  proof -
    have "\<not> is_link t (int i) \<and> whole (BLOCK_SIZE s) (contents t i)" if "names s v = Some i" for v i
      using tidyD(2,3) [OF s that] assms(4) [OF that] by (auto simp: is_link_def split: if_splits)
    with tidyD(1) [OF s] show ?thesis unfolding tidy_def assms(1,2) by blast
  qed
  with assms show ?thesis by (auto simp: files_kept_def split: if_splits)
qed

section \<open>Opening\<close>

lemma files_kept_opened: "files_kept {} s u \<Longrightarrow> files_kept {} s (snd (opened u i off))"
proof (erule files_kept_trans)
  show "files_kept {} u (snd (opened u i off))" by (rule files_keptI) (simp_all add: spare_zero_opened)
qed

text \<open>A new file: its inode belongs to no name yet.\<close>

lemma fresh_unnamed:
  assumes "fs_inv s" and "first_free (freeinode_ts s) = Some i"
  shows "names s v \<noteq> Some i"
proof
  assume "names s v = Some i"
  from names_used [OF assms(1) this] fresh_inode [OF assms] show False by (simp add: used_inode_def)
qed

lemma files_kept_new:
  assumes inv: "fs_inv s" and i: "first_free (freeinode_ts s) = Some i"
  shows "files_kept {} s (file_inode s i st)"
proof (rule files_keptI)
  show "names (file_inode s i st) = names s" by (rule names_cong [OF inv_file_inode(2) [OF inv i]])
  show "spare_zero s \<Longrightarrow> spare_zero (file_inode s i st)" by (rule spare_zero_file_inode [OF _ inv i])
  fix v j assume "names s v = Some j"
  with fresh_unnamed [OF inv i] have "j \<noteq> i" by blast
  then show "(if j \<in> {} then whole (BLOCK_SIZE s) (contents (file_inode s i st) j)
        else contents (file_inode s i st) j = contents s j) \<and>
      i_node_type (inode_table (file_inode s i st) ! j) = i_node_type (inode_table s ! j)"
    using contents_file_inode by (simp add: file_inode_def)
qed simp

lemma files_kept_link_added:
  assumes inv: "fs_inv s" and i: "first_free (freeinode_ts s) = Some i"
    and r: "link_result s v = 0" and new: "names s v = None"
  shows "files_kept {} s (link_added (file_inode s i TAKEN) v (int i))" (is "files_kept _ _ ?t")
    and "names (link_added (file_inode s i TAKEN) v (int i)) v = Some i"
    and "contents (link_added (file_inode s i TAKEN) v (int i)) i = []"
proof -
  let ?u = "file_inode s i TAKEN"
  note fi = fresh_inode [OF inv i] and fu = file_inode_used [OF inv i] and iu = inv_file_inode [OF inv i]
  have small: "i < 2147483648" using fi(2) fs_invD(1) [OF inv] wf_bounds(2) [of s] by simp
  have n: "names ?t = (names s)(v \<mapsto> i)"
    using names_link_added [of ?u v i] r small iu(2) new names_cong [OF iu(2)] by (simp add: link_result_def)
  then show "names ?t v = Some i" by simp
  have tab: "inode_table ?t = inode_table ?u"
    by (simp add: link_added_def entry_added_def split: option.split)
  show c: "contents ?t i = []" using fu(2) tab by (simp add: contents_def)
  have ps: "fs_params ?t = fs_params s"
    by (simp add: link_added_def entry_added_def split: option.split)
  have z: "spare_zero ?t" if "spare_zero s"
    by (rule spare_zero_link_added [OF spare_zero_file_inode [OF that inv i] iu(1)])
  have old: "contents ?t j = contents s j \<and> is_link ?t (int j) = is_link s (int j)" if "names s w = Some j" for w j
  proof -
    have u: "used_inode s (int j)" by (rule names_used [OF inv that])
    have ne: "j \<noteq> i" using u fi(3) by (auto simp: used_inode_def)
    have "0 < j" "j < INODE_TABLE_SIZE ?u" "freeinode_ts ?u ! j = TAKEN"
      using u ne by (simp_all add: used_inode_def) (simp add: file_inode_def)
    with iu(1) have "contents ?t j = contents s j" using contents_file_inode [OF ne] by simp
    moreover have "inode_table ?u ! j = inode_table s ! j" using ne by (simp add: file_inode_def)
    ultimately show ?thesis by (simp add: is_link_def tab)
  qed
  have "\<not> is_link ?t (int i)" using fu(4) by (simp add: is_link_def tab)
  with old c tidyD(3) [of s] have "tidy ?t" if "tidy s"
    unfolding tidy_def n ps using fresh_unnamed [OF inv i] new tidyD [OF that] by (auto split: if_splits)
  with old z show "files_kept {} s ?t"
    unfolding files_kept_def n ps using new by auto
qed

lemma tfs_open_files:
  assumes k: "fs_kept s" and f: "tidy s" and p: "c_ok p" and m: "\<not> has_mode mode TFS_O_TRUNC"
    and op: "tfs_open p mode s = Inr (r, t)"
  shows "files_kept {} s t"
    and "r \<noteq> - 1 \<Longrightarrow> \<exists>v i. path_entry p = Some v \<and> names t v = Some i \<and> file_of t (nat r) = i \<and>
      offset_of t (nat r) = (if has_mode mode TFS_O_APPEND then length (contents t i) else 0)"
proof -
  note inv = fs_keptD [OF k]
  have "files_kept {} s t \<and> (r \<noteq> - 1 \<longrightarrow> (\<exists>v i. path_entry p = Some v \<and> names t v = Some i \<and> file_of t (nat r) = i \<and>
      offset_of t (nat r) = (if has_mode mode TFS_O_APPEND then length (contents t i) else 0)))"
  proof (cases "lookup s p = - 1")
    case False
    with lookup_names [OF inv(1), of p] obtain v i where v: "path_entry p = Some v" "names s v = Some i" "lookup s p = int i"
      by (auto split: option.splits)
    have rs: "resolve s (lookup s p) = Some (int i)"
      using tidyD(2) [OF f v(2)] by (subst resolve_unfold) (simp add: v(3))
    have rt: "(r, t) = opened s i (start_offset s i mode)"
      using tfs_open_existing_exec [OF inv p False rs, of mode] op m by (simp add: truncated_def)
    then have t: "t = snd (opened s i (start_offset s i mode))" "r = fst (opened s i (start_offset s i mode))"
      by (simp_all flip: rt)
    have "files_kept {} s t" unfolding t(1) by (rule files_kept_opened) simp
    moreover have "\<exists>v i. path_entry p = Some v \<and> names t v = Some i \<and> file_of t (nat r) = i \<and>
      offset_of t (nat r) = (if has_mode mode TFS_O_APPEND then length (contents t i) else 0)" if "r \<noteq> - 1"
    proof -
      from that t have "fst (opened s i (start_offset s i mode)) \<noteq> - 1" by simp
      from opened_handle [OF fs_invD(1) [OF inv(1)] this] obtain h where
        "r = int h" "file_of t h = i" "offset_of t h = start_offset s i mode" unfolding t by metis
      then have "file_of t (nat r) = i" "offset_of t (nat r) = start_offset s i mode" by simp_all
      moreover have "names t v = Some i" "length (contents t i) = i_size (inode_table s ! i)" using v(2) by (simp_all add: t(1))
      ultimately show ?thesis using v(1) m unfolding start_offset_def truncated_def by auto
    qed
    ultimately show ?thesis by blast
  next
    case absent: True
    show ?thesis
    proof (cases "path_entry p = None \<or> \<not> has_mode mode TFS_O_CREAT \<or> first_free (freeinode_ts s) = None")
      case True
      then have "tfs_open p mode s = Inr (- 1, s)"
        using tfs_open_invalid [OF p] tfs_open_absent [OF inv p absent] by (cases "path_entry p = None") auto
      with op show ?thesis by simp
    next
      case False
      then obtain v i where v: "path_entry p = Some v" "has_mode mode TFS_O_CREAT"
        "first_free (freeinode_ts s) = Some i" by auto
      note ex = tfs_open_create_exec [OF inv p v(1) absent v(2,3)]
      show ?thesis
      proof (cases "link_result s v = 0")
        case False
        with ex op files_kept_new [OF inv(1) v(3), of FREE] show ?thesis by simp
      next
        case True
        let ?u = "link_added (file_inode s i TAKEN) v (int i)"
        note la = files_kept_link_added [OF inv(1) v(3) True names_lookup_None [OF v(1) absent]]
        have rt: "(r, t) = opened ?u i 0" using ex op True by simp
        then have t: "t = snd (opened ?u i 0)" "r = fst (opened ?u i 0)" by (simp_all flip: rt)
        have wf: "tfs_wf ?u"
          using inv_link_added [OF inv_file_inode(1) [OF inv(1) v(3)] file_inode_used(1) [OF inv(1) v(3)]]
            file_inode_used(3,5) [OF inv(1) v(3)] by (simp add: fs_invD(1))
        have "files_kept {} s t" unfolding t(1) by (rule files_kept_opened) (rule la(1))
        moreover have "\<exists>v i. path_entry p = Some v \<and> names t v = Some i \<and> file_of t (nat r) = i \<and>
          offset_of t (nat r) = (if has_mode mode TFS_O_APPEND then length (contents t i) else 0)" if "r \<noteq> - 1"
        proof -
          from that t have "fst (opened ?u i 0) \<noteq> - 1" by simp
          from opened_handle [OF wf this] obtain h where "r = int h" "file_of t h = i" "offset_of t h = 0"
            unfolding t by metis
          then have "file_of t (nat r) = i" "offset_of t (nat r) = 0" by simp_all
          moreover have "names t v = Some i" "length (contents t i) = 0"
            using la(2) arg_cong [OF la(3), of length] by (simp_all add: t)
          ultimately show ?thesis using v(1) by auto
        qed
        ultimately show ?thesis by blast
      qed
    qed
  qed
  then show "files_kept {} s t"
    and "r \<noteq> - 1 \<Longrightarrow> \<exists>v i. path_entry p = Some v \<and> names t v = Some i \<and> file_of t (nat r) = i \<and>
      offset_of t (nat r) = (if has_mode mode TFS_O_APPEND then length (contents t i) else 0)" by blast+
qed

section \<open>Closing, reading and writing\<close>

lemma tfs_close_files:
  assumes k: "fs_kept s" and c: "tfs_close d s = Inr (r, t)"
  shows "files_kept {} s t"
proof -
  note inv = fs_keptD [OF k]
  have t: "t = (if is_open s d then s\<lparr>free_open_file_entries := (free_open_file_entries s)[nat d := FREE]\<rparr> else s)"
    using c tfs_close_exec [OF inv, of d] by (simp split: if_splits)
  have tab: "inode_table t = inode_table s" "fs_params t = fs_params s" by (simp_all add: t)
  have z: "spare_zero t" if "spare_zero s" by (rule spare_zero_cong [OF that]) (simp_all add: t)
  have "names t = names s" by (rule names_cong, rule root_dents_cong(2)) (simp_all add: t)
  moreover have "contents t j = contents s j" for j by (rule contents_cong) (simp_all add: t)
  ultimately show ?thesis using tab z by (intro files_keptI) simp_all
qed

lemma files_kept_advanced: "files_kept {} s (advanced s h off)"
proof (rule files_keptI)
  show "names (advanced s h off) = names s" by simp
  have "inode_table (advanced s h off) = inode_table s" by (simp add: advanced_def)
  then show "(if i \<in> {} then whole (BLOCK_SIZE s) (contents (advanced s h off) i)
        else contents (advanced s h off) i = contents s i) \<and>
      i_node_type (inode_table (advanced s h off) ! i) = i_node_type (inode_table s ! i)" for i by simp
qed (simp_all add: spare_zero_advanced, simp add: advanced_def)

lemma tfs_read_files:
  assumes k: "fs_kept s" and r: "tfs_read d len s = Inr (a, t)"
  shows "files_kept {} s t"
proof (cases "is_open s d")
  case True
  then obtain n where n: "d = int n" by (rule is_open_nat)
  with tfs_read_effect [OF k] True r show ?thesis using files_kept_advanced by blast
next
  case False
  with tfs_read_closed [OF fs_keptD [OF k] False] r show ?thesis by simp
qed

text \<open>A write at the end of a file appends what fits the block, or fails and changes nothing.\<close>

lemma tfs_write_appends:
  assumes k: "fs_kept s" and op: "is_open s (int h)" and n: "names s v = Some (file_of s h)"
    and off: "offset_of s h = length (contents s (file_of s h))"
    and len: "len \<le> length buffer" "len + BLOCK_SIZE s < size_mod" and z: "take len buffer = bs @ [NUL]"
    and w: "tfs_write (int h) buffer len s = Inr (r, t)"
  shows "files_kept {file_of s h} s t" "file_of t h = file_of s h"
    "offset_of t h = length (contents t (file_of s h))"
    "contents t (file_of s h) = (if r = - 1 then contents s (file_of s h)
      else take (BLOCK_SIZE s) (contents s (file_of s h) @ bs @ [NUL]))"
proof -
  note inv = fs_keptD [OF k]
  let ?i = "file_of s h" and ?c = "contents s (file_of s h)"
  note oh = open_handle [OF inv(1) op]
  have u: "used_inode s (int ?i)" by (rule names_used [OF inv(1) n])
  have sz: "length ?c \<le> BLOCK_SIZE s"
    using fs_invD(6) [OF inv(1)] u oh(5) by (simp add: sizes_inv_def used_inode_def)
  then have ob: "offset_of s h \<le> BLOCK_SIZE s" and small: "len + offset_of s h < size_mod" using off len(2) by simp_all
  note ex = tfs_write_exec [OF inv op ob small len(1)]
  define m where "m = write_amount s h len"
  have m: "m = min len (BLOCK_SIZE s - length ?c)" using off small sz by (simp add: m_def write_amount_def)
  have "files_kept {?i} s t \<and> file_of t h = ?i \<and> offset_of t h = length (contents t ?i) \<and>
    contents t ?i = (if r = - 1 then ?c else take (BLOCK_SIZE s) (?c @ take len buffer))"
  proof (cases "m = 0")
    case True
    then have "r = 0" "t = s" using ex w by (simp_all add: m_def)
    moreover have "len = 0 \<or> length ?c = BLOCK_SIZE s" using True m sz by auto
    ultimately show ?thesis
      using sz off by auto
  next
    case False
    show ?thesis
    proof (cases "write_block s ?i")
      case None
      then have "r = - 1" "t = s" using ex w False by (simp_all add: m_def)
      then show ?thesis using off by simp_all
    next
      case (Some bf)
      then obtain b fb where wb: "write_block s ?i = Some (b, fb)" by (cases bf) auto
      let ?bs = "take m buffer"
      have t: "r = int m" "t = written s h fb b ?bs" using ex w False wb by (simp_all add: m_def)
      have lb: "length ?bs = m" and ne: "?bs \<noteq> []" using len(1) m False by auto
      have fit: "offset_of s h + length ?bs \<le> BLOCK_SIZE s" using lb m off sz by simp
      have c: "contents t ?i = ?c @ ?bs"
        using contents_written [OF inv(1) op wb _ ne] off by (simp add: t(2))
      have "?c @ ?bs = take (BLOCK_SIZE s) (?c @ take len buffer)" using m sz by (simp add: min_def)
      note ow = offset_written [OF inv(1) op, of fb b ?bs]
      from \<open>?c @ ?bs = _\<close> c t(1)
      have "contents t ?i = (if r = - 1 then ?c else take (BLOCK_SIZE s) (?c @ take len buffer))" by simp
      moreover have "file_of t h = ?i" using ow by (simp add: t(2))
      moreover have "offset_of t h = length (contents t ?i)" using ow(1) off lb unfolding c by (simp add: t(2))
      moreover have "files_kept {?i} s t"
      proof (rule files_keptI)
        show "fs_params t = fs_params s" by (simp add: t(2))
        have live: "freeinode_ts s ! ?i = TAKEN" using u by (simp add: used_inode_def)
        show "spare_zero t" if "spare_zero s"
          unfolding t(2) by (rule spare_zero_written [OF that inv(1) op live wb fit ne])
        show "names t = names s" unfolding t(2) by (rule names_cong) (rule inv_written(2) [OF inv(1) op wb fit])
        fix w j assume j: "names s w = Some j"
        have uj: "used_inode s (int j)" by (rule names_used [OF inv(1) j])
        have "contents t j = contents s j" if "j \<noteq> ?i"
          unfolding t(2) using uj u that
          by (intro contents_written_other [OF inv(1) op _ wb fit]) (simp_all add: used_inode_def)
        moreover have "i_node_type (inode_table t ! j) = i_node_type (inode_table s ! j)"
          using written_inode [OF inv(1) op] by (cases "j = ?i") (simp_all add: t(2))
        moreover have "whole (BLOCK_SIZE s) (contents t ?i)"
          using \<open>?c @ ?bs = _\<close> c z sz by (auto simp: whole_def min_def)
        ultimately show "(if j \<in> {?i} then whole (BLOCK_SIZE s) (contents t j) else contents t j = contents s j) \<and>
            i_node_type (inode_table t ! j) = i_node_type (inode_table s ! j)" by simp
      qed
      ultimately show ?thesis by blast
    qed
  qed
  then show "files_kept {?i} s t" "file_of t h = ?i" "offset_of t h = length (contents t ?i)"
    "contents t ?i = (if r = - 1 then ?c else take (BLOCK_SIZE s) (?c @ bs @ [NUL]))"
    unfolding z by blast+
qed

end
