(* ===== verification/Broker_Files.thy ===== *)
theory Broker_Files
  imports Threads_Invariant FS_Files
begin

text \<open>
  What the handlers and their parts do to the files of the boxes and to the names of the entries:
  all but those that create a box or store a message leave both alone.
\<close>

section \<open>States with the same files\<close>

text \<open>What is followed of an entry: its name and whether it is in use.\<close>

definition key :: "box \<Rightarrow> string \<times> int" where
  "key b = (name_of b, box_free b)"

definition calm :: "(box list \<Rightarrow> 'k) \<Rightarrow> broker \<Rightarrow> broker \<Rightarrow> bool" where
  "calm g s0 s \<longleftrightarrow> fs_kept (tfs s) \<and> tidy (tfs s) \<and> files_kept {} (tfs s0) (tfs s) \<and>
     g (server_boxes s) = g (server_boxes s0)"

abbreviation keys :: "box list \<Rightarrow> (string \<times> int) list" where
  "keys bs \<equiv> map key bs"

lemma calmD:
  assumes "calm g s0 s"
  shows "fs_kept (tfs s)" "tidy (tfs s)" "files_kept {} (tfs s0) (tfs s)" "g (server_boxes s) = g (server_boxes s0)"
  using assms by (simp_all add: calm_def)

lemma calm_start: "fs_kept (tfs s) \<Longrightarrow> tidy (tfs s) \<Longrightarrow> calm g s s"
  by (simp add: calm_def)

text \<open>
  A predicate that does not depend on the log of the pipes, on what is done with \<open>SIGPIPE\<close> and on the
  lock of the table: it survives all operations on pipes.
\<close>

definition ignores_io :: "(broker \<Rightarrow> bool) \<Rightarrow> bool" where
  "ignores_io P \<longleftrightarrow> (\<forall>s ps ig l. P (s\<lparr>pipes := ps\<rparr>) = P s \<and> P (s\<lparr>sigpipe_ignored := ig\<rparr>) = P s \<and>
     P (s\<lparr>box_size_lock := l\<rparr>) = P s)"

lemma io_units:
  assumes "ignores_io P"
  shows "leads P lock_boxes P" "leads P unlock_boxes P" "leads P (log_io e) P" "leads P ignore_sigpipe P"
  using assms by (auto intro!: leadsI simp: ignores_io_def lock_boxes_def unlock_boxes_def log_io_def
    ignore_sigpipe_def modify_def split: if_splits)

lemma io_pipes:
  assumes "ignores_io P"
  shows "leads P (open_pipe env nm) P" "leads P (my_close env nm) P" "leads P (write_pipe env k nm l) P"
    "leads P (make_line env m c) P" "leads P (my_open env nm) P" "leads P (error_answer env c msg) P"
    "leads P (ok_answer c) P"
proof -
  note u = io_units [OF assms]
  show o: "leads P (open_pipe env nm) P" "leads P (my_close env nm) P" "leads P (write_pipe env k nm l) P"
    "leads P (make_line env m c) P" "leads P (error_answer env c msg) P" "leads P (ok_answer c) P"
    unfolding open_pipe_def my_close_def write_pipe_def make_line_def error_answer_def ok_answer_def
    by (rule leads_intros u)+
  show "leads P (my_open env nm) P" unfolding my_open_def by (rule leads_intros leads_call [OF o(1)])+
qed

lemma io_answer:
  assumes "ignores_io P"
  shows "leads P (answer_and_close env pipe m c) P"
  unfolding answer_and_close_def
  by (rule leads_intros io_pipes [OF assms] leads_call [OF io_pipes(3) [OF assms]] leads_call [OF io_pipes(4) [OF assms]])+

lemma calm_ignores_io: "ignores_io (calm g s0)"
  by (simp add: ignores_io_def calm_def)

lemmas calm_io [leads_intros] =
  io_units [OF calm_ignores_io] io_pipes [OF calm_ignores_io] io_answer [OF calm_ignores_io]

lemmas calm_call_io [leads_intros] =
  io_pipes(1,3,4,6,7) [OF calm_ignores_io, THEN leads_call]

lemma calm_reads [leads_intros]:
  "(\<And>i. leads (calm g s0) (kf i) Q) \<Longrightarrow> leads (calm g s0) (call (find_box nm) kf) Q"
  "(\<And>b. leads (calm g s0) (kb b) Q) \<Longrightarrow> leads (calm g s0) (call (get_box i) kb) Q"
  "(\<And>n. leads (calm g s0) (ki n) Q) \<Longrightarrow> leads (calm g s0) (call (get_index j) ki) Q"
  "(\<And>e. leads (calm g s0) (ke e) Q) \<Longrightarrow> leads (calm g s0) (call (same_password i' pw) ke) Q"
proof -
  have b: "leads (calm g s0) (call (get_box i) k) Q" if "\<And>b. leads (calm g s0) (k b) Q" for k :: "box \<Rightarrow> 'z brop" and i Q
    unfolding get_box_def by (rule leads_intros that)+
  show "(\<And>i. leads (calm g s0) (kf i) Q) \<Longrightarrow> leads (calm g s0) (call (find_box nm) kf) Q"
    unfolding find_box_def by (rule leads_intros | assumption)+
  show "(\<And>b. leads (calm g s0) (kb b) Q) \<Longrightarrow> leads (calm g s0) (call (get_box i) kb) Q" by (rule b)
  show "(\<And>n. leads (calm g s0) (ki n) Q) \<Longrightarrow> leads (calm g s0) (call (get_index j) ki) Q"
    unfolding get_index_def by (rule leads_intros | assumption)+
  show "(\<And>e. leads (calm g s0) (ke e) Q) \<Longrightarrow> leads (calm g s0) (call (same_password i' pw) ke) Q"
    unfolding same_password_def by (rule leads_intros b | assumption)+
qed

lemma calm_set_index [leads_intros]: "leads (calm g s0) (set_index j i) (calm g s0)"
  by (rule leadsI) (auto simp: calm_def set_index_def call_def gets_def lift_def modify_def split: sum.splits)

lemma calm_upd_box:
  assumes "\<And>b. key (f b) = key b"
  shows "leads (calm keys s0) (upd_box i f) (calm keys s0)"
proof (rule leadsI)
  fix s a t assume s: "calm keys s0 s" and u: "upd_box i f s = Inr (a, t)"
  from u have t: "t = s\<lparr>server_boxes := (server_boxes s)[nat i := f (server_boxes s ! nat i)]\<rparr>"
    "nat i < length (server_boxes s)"
    by (auto simp: upd_box_def modify_def elim!: call_eq_InrE dest!: get_box_exec')
  have "keys (server_boxes t) = keys (server_boxes s)"
    using t(2) by (simp add: t(1) map_update assms list_update_same_conv)
  with s t show "calm keys s0 t" by (simp add: calm_def)
qed

lemma calm_upd_any: "leads (calm (\<lambda>_. ()) s0) (upd_box i f) (calm (\<lambda>_. ()) s0)"
  by (rule leadsI)
    (auto simp: calm_def upd_box_def modify_def elim!: call_eq_InrE dest!: get_box_exec')

text \<open>The calls of TecnicoFS.\<close>

lemma calm_tfs:
  assumes "\<And>s r f. calm g s0 s \<Longrightarrow> m (tfs s) = Inr (r, f) \<Longrightarrow> fs_kept f \<and> files_kept {} (tfs s) f"
  shows "leads (calm g s0) (in_tfs m) (calm g s0)"
proof (rule leadsI)
  fix s a t assume s: "calm g s0 s" and "in_tfs m s = Inr (a, t)"
  then obtain f where f: "m (tfs s) = Inr (a, f)" "t = s\<lparr>tfs := f\<rparr>" by (auto simp: in_tfs_def split: sum.splits)
  from assms [OF s f(1)] have k: "fs_kept f" "files_kept {} (tfs s) f" by simp_all
  from files_kept_trans [OF calmD(3) [OF s] k(2)] files_keptD(1) [OF k(2) calmD(2) [OF s]] k(1) calmD(4) [OF s]
  show "calm g s0 t" by (simp add: calm_def f(2))
qed

lemma calm_open:
  assumes "NUL \<notin> set p" and "\<not> has_mode mode TFS_O_TRUNC"
  shows "leads (calm g s0) (in_tfs (tfs_open (Some p) mode)) (calm g s0)"
proof (rule calm_tfs)
  fix s r f assume s: "calm g s0 s" and f: "tfs_open (Some p) mode (tfs s) = Inr (r, f)"
  have ok: "c_ok (Some p)" using assms(1) by (simp add: c_ok_def)
  from tfs_open_effect(1) [OF calmD(1) [OF s] ok f] tfs_open_files(1) [OF calmD(1,2) [OF s] ok assms(2) f]
  show "fs_kept f \<and> files_kept {} (tfs s) f" ..
qed

lemma calm_open_arg [leads_intros]:
  assumes "\<And>fd. leads (calm g s0) (k fd) Q" and "\<not> has_mode mode TFS_O_TRUNC"
  shows "leads (calm g s0) (call (lift (c_arg a)) (\<lambda>p. call (in_tfs (tfs_open (Some p) mode)) k)) Q"
    "leads (calm g s0) (call (lift (c_arg a)) (\<lambda>p. in_tfs (tfs_open (Some p) mode))) (calm g s0)"
  by (rule leads_call_lift leads_call calm_open assms | erule c_arg_result)+

lemma calm_close [leads_intros]: "leads (calm g s0) (in_tfs (tfs_close fd)) (calm g s0)"
proof (rule calm_tfs)
  fix s r f assume s: "calm g s0 s" and f: "tfs_close fd (tfs s) = Inr (r, f)"
  from tfs_close_effect(1) [OF calmD(1) [OF s] f] tfs_close_files [OF calmD(1) [OF s] f]
  show "fs_kept f \<and> files_kept {} (tfs s) f" ..
qed

lemma calm_read [leads_intros]: "leads (calm g s0) (in_tfs (tfs_read fd n)) (calm g s0)"
proof (rule calm_tfs)
  fix s r f assume s: "calm g s0 s" and f: "tfs_read fd n (tfs s) = Inr (r, f)"
  from tfs_read_effect'(1) [OF calmD(1) [OF s] f] tfs_read_files [OF calmD(1) [OF s] f]
  show "fs_kept f \<and> files_kept {} (tfs s) f" ..
qed

lemmas calm_calls [leads_intros] = leads_call [OF calm_close] leads_call [OF calm_read]

section \<open>Handlers and parts that are calm\<close>

lemma calm_finished [leads_intros]: "leads (calm g s0) finished (calm g s0)"
  unfolding finished_def by (rule leads_intros)+

lemma calm_send_entries [leads_intros]: "leads (calm g s0) (send_entries env pipe k xs) (calm g s0)"
proof (induction xs arbitrary: k)
  case (Cons y ys)
  show ?case by (simp only: send_entries.simps, (rule leads_intros Cons.IH)+)
qed (simp add: leads_ret)

lemma calm_manager [leads_intros]:
  "leads (calm g s0) (process_manager_list env q j) (calm g s0)"
  "leads (calm keys s0) (process_manager_unlock env r j) (calm keys s0)"
  "leads (calm keys s0) (process_manager_lock env np j) (calm keys s0)"
proof -
  have a: "leads (calm g s0) (answer_password env pipe c tester) (calm g s0)" for c tester pipe and g :: "box list \<Rightarrow> 'y"
    unfolding answer_password_def by (rule leads_intros)+
  have pw: "key (b\<lparr>box_password := pw\<rparr>) = key b" for b pw by (simp add: key_def)
  show "leads (calm g s0) (process_manager_list env q j) (calm g s0)"
    unfolding process_manager_list_def by (rule leads_intros)+
  show "leads (calm keys s0) (process_manager_unlock env r j) (calm keys s0)"
    unfolding process_manager_unlock_def by (rule leads_intros a calm_upd_box pw)+
  show "leads (calm keys s0) (process_manager_lock env np j) (calm keys s0)"
    unfolding process_manager_lock_def by (rule leads_intros a calm_upd_box pw)+
qed

lemma calm_box_lock [leads_intros]:
  "leads (calm keys s0) (lock_box i) (calm keys s0)" "leads (calm keys s0) (unlock_box i) (calm keys s0)"
  "leads (calm keys s0) (drop_sub i) (calm keys s0)"
  unfolding lock_box_def unlock_box_def drop_sub_def
  by (rule leads_intros calm_upd_box | simp add: key_def)+

lemma calm_publisher [leads_intros]:
  "leads (calm keys s0) (register_pub env r j) (calm keys s0)"
  "leads (calm keys s0) (pub_end env pipe j fd) (calm keys s0)"
  "leads (calm g s0) (pub_open env r) (calm g s0)"
  unfolding register_pub_def pub_end_def pub_open_def Let_def
  by (rule leads_intros calm_upd_box modes(9) | simp add: key_def)+

lemma calm_subscriber [leads_intros]:
  "leads (calm keys s0) (sub_register r j) (calm keys s0)" "leads (calm keys s0) (sub_refuse env r) (calm keys s0)"
  "leads (calm g s0) (sub_open env r) (calm g s0)" "leads (calm keys s0) (sub_read env pipe j fd) (calm keys s0)"
  "leads (calm keys s0) (sub_sleep pipe j fd) (calm keys s0)"
  "leads (calm keys s0) (sub_send env pipe j fd v te me) (calm keys s0)"
  unfolding sub_register_def sub_refuse_def sub_open_def sub_read_def sub_sleep_def sub_send_def
  by (rule leads_intros calm_upd_box modes(10) | simp add: key_def)+

text \<open>Every step but the storing of a message.\<close>

lemma calm_continue:
  assumes "\<And>p fd bytes. b = Publishing p fd \<Longrightarrow> input = Some bytes \<Longrightarrow> False"
  shows "leads (calm keys s0) (continue_task env j input b) (calm keys s0)"
proof (cases b)
  case (Publishing p fd)
  then have "input = None" using assms by (cases input) auto
  with Publishing show ?thesis by (simp only: continue_task.simps option.case) (rule leads_intros)+
qed (simp only: continue_task.simps, (rule leads_intros leads_call [OF calm_publisher(3)] leads_call [OF calm_subscriber(3)])+)+

section \<open>Publishers\<close>

lemma c_streq_True: "c_streq x y = Inr True \<Longrightarrow> c_string x = c_string y"
  by (induction x y rule: c_streq.induct) (auto simp: c_string_def split: if_splits)

lemma scan_boxes_name: "scan_boxes nm bs i n = Inr (Some k) \<Longrightarrow> c_string nm = name_of (bs ! k)"
  by (induction nm bs i n rule: scan_boxes.induct)
    (subst (asm) (2) scan_boxes.simps, auto split: if_splits sum.splits dest: c_streq_True)

lemma find_box_name:
  "find_box nm s = Inr (x, t) \<Longrightarrow> t = s \<and> (\<forall>k. x = Some k \<longrightarrow> c_string nm = name_of (server_boxes s ! k))"
  by (auto simp: find_box_def gets_def lift_def split: sum.splits elim!: call_eq_InrE dest: scan_boxes_name)

text \<open>A publisher that was accepted has an entry with the name it asked for.\<close>

lemma register_pub_name:
  assumes "register_pub env r j s = Inr (True, t)" and "thread_pool t ! j = int i"
  shows "name_of (server_boxes s ! i) = c_string (req_box_name r)"
proof -
  have "\<exists>k. j < length (thread_pool s) \<and> thread_pool t = (thread_pool s)[j := int k] \<and>
      c_string (req_box_name r) = name_of (server_boxes s ! k)"
    using assms(1)
    by (auto simp: register_pub_def Let_def lock_boxes_def unlock_boxes_def ret_def lift_def
      split: if_splits option.splits sum.splits
      elim!: call_eq_InrE dest!: find_box_name same_password_state set_index_result upd_box_result get_box_exec') blast+
  then show ?thesis using assms(2) by auto
qed

text \<open>Its handle leads to the file of that name, at its end.\<close>

lemma pub_open_file:
  assumes s: "fs_kept (tfs s)" "tidy (tfs s)" and r: "pub_open env r s = Inr (fd, t)" and fd: "fd \<noteq> - 1"
  shows "\<exists>v i. path_entry (Some (c_string (req_box_name r))) = Some v \<and> names (tfs t) v = Some i \<and>
    file_of (tfs t) (nat fd) = i \<and> offset_of (tfs t) (nat fd) = length (contents (tfs t) i)"
proof -
  from r have u: "tfs_open (Some (c_string (req_box_name r))) TFS_O_APPEND (tfs s) = Inr (fd, tfs t)"
    by (auto simp: pub_open_def lift_def c_arg_def in_tfs_def ignore_sigpipe_def modify_def keeps_tfs_ops(2) [unfolded keeps_tfs_def]
      split: sum.splits if_splits elim!: call_eq_InrE)
  from tfs_open_files(2) [OF s _ _ u fd] show ?thesis by (auto simp: c_ok_def c_string_no_NUL)
qed

text \<open>The message of a line, as the thread reads it.\<close>

lemma c_strlen_string: "c_strlen a = Inr n \<Longrightarrow> n = length (c_string a) \<and> take (Suc n) a = c_string a @ [NUL]"
  by (induction a arbitrary: n) (auto simp: c_string_def split: if_splits sum.splits)

lemma pub_message_file:
  assumes k: "fs_kept (tfs s)" "tidy (tfs s)" and op: "is_open (tfs s) (int h)" and n: "names (tfs s) v = Some (file_of (tfs s) h)"
    and off: "offset_of (tfs s) h = length (contents (tfs s) (file_of (tfs s) h))"
    and r: "pub_message env j (int h) bytes s = Inr (go, t)"
  obtains m l where "reader_stc (grants env) (bytes @ drop (length bytes) (raw_line env)) = Inr (Message m, l)"
    "files_kept {file_of (tfs s) h} (tfs s) (tfs t)" "file_of (tfs t) h = file_of (tfs s) h"
    "offset_of (tfs t) h = length (contents (tfs t) (file_of (tfs s) h))"
    "contents (tfs t) (file_of (tfs s) h) = (if go then take (BLOCK_SIZE (tfs s))
       (contents (tfs s) (file_of (tfs s) h) @ c_string (msg_message m) @ [NUL]) else contents (tfs s) (file_of (tfs s) h))"
    "fs_kept (tfs t)" "keys (server_boxes t) = keys (server_boxes s)"
proof -
  let ?read = "reader_stc (grants env) (bytes @ drop (length bytes) (raw_line env))" and ?i = "file_of (tfs s) h"
  from r obtain message len w s1 where m: "(case ?read of Inl e \<Rightarrow> Inl e
      | Inr (Message m, _) \<Rightarrow> Inr (msg_message m) | Inr _ \<Rightarrow> Inl Indeterminate) = Inr message"
    and len: "c_strlen message = Inr len"
    and w: "in_tfs (tfs_write (int h) message (size_add len 1)) s = Inr (w, s1)"
    and rest: "(if w = - 1 then ret False
      else call (get_index j) (\<lambda>i. call (get_box i) (\<lambda>b.
        call (lift (int_add (box_size b) (to_int len))) (\<lambda>sz.
        block [upd_box i (\<lambda>b. b\<lparr>box_size := sz\<rparr>)] (ret True))))) s1 = Inr (go, t)"
    by (auto simp: pub_message_def lift_def split: sum.splits elim!: call_eq_InrE)
  from m obtain msg l where ml: "?read = Inr (Message msg, l)" "message = msg_message msg"
    by (auto split: sum.splits object.splits)
  have lm: "length message = 1024" using read_message_array [OF ml(1)] ml(2) by simp
  then have sl: "size_add len 1 = Suc len" using c_strlen_less [OF len] by simp
  from w obtain f where f: "tfs_write (int h) message (Suc len) (tfs s) = Inr (w, f)" "s1 = s\<lparr>tfs := f\<rparr>"
    unfolding sl by (auto simp: in_tfs_def split: sum.splits)
  have le: "Suc len \<le> length message" using c_strlen_less [OF len] by simp
  have sm: "Suc len + BLOCK_SIZE (tfs s) < size_mod"
    using wf_bounds [OF fs_invD(1) [OF fs_keptD(1) [OF k(1)]]] lm le by simp
  have tk: "take (Suc len) message = c_string (msg_message msg) @ [NUL]"
    using conjunct2 [OF c_strlen_string [OF len]] unfolding ml(2) .
  note a = tfs_write_appends [OF k(1) op n off le sm tk f(1)]
  have ob: "offset_of (tfs s) h \<le> BLOCK_SIZE (tfs s)"
    using fs_invD(6) [OF fs_keptD(1) [OF k(1)]] names_used [OF fs_keptD(1) [OF k(1)] n] off
    by (simp add: sizes_inv_def used_inode_def)
  note kf = tfs_write_effect'(1) [OF k(1) op ob le sm f(1)]
  have kk: "key (b\<lparr>box_size := sz\<rparr>) = key b" for b sz by (simp add: key_def)
  have "(go \<longleftrightarrow> w \<noteq> - 1) \<and> tfs t = f \<and> keys (server_boxes t) = keys (server_boxes s)"
    using rest
    by (auto simp: f(2) ret_def get_index_def gets_def lift_def map_update kk list_update_same_conv split: if_splits sum.splits
        elim!: call_eq_InrE dest!: get_box_exec' upd_box_result)
  then show ?thesis
    using that [OF ml(1)] a kf by (cases "w = - 1") simp_all
qed

end
