(* ===== verification/Broker_Creates.thy ===== *)
theory Broker_Creates
  imports Broker_Files
begin

text \<open>
  The creation of a box while other threads are at work: which entry gets the name, and that no
  name is given twice.
\<close>

section \<open>Entries\<close>

text \<open>No name is used twice, and an entry that is not in use has none.\<close>

definition entries_ok :: "(string \<times> int) list \<Rightarrow> bool" where
  "entries_ok ks \<longleftrightarrow> (\<forall>i < length ks. \<forall>j < length ks. fst (ks ! i) = fst (ks ! j) \<longrightarrow> fst (ks ! i) \<noteq> [] \<longrightarrow> i = j) \<and>
     (\<forall>i < length ks. snd (ks ! i) = 0 \<longrightarrow> fst (ks ! i) = [])"

text \<open>What the creation of a box with the name \<open>v\<close> does to them; \<open>new\<close> are the entries of a doubled table.\<close>

definition entry_taken :: "string \<Rightarrow> (string \<times> int) list \<Rightarrow> (string \<times> int) list \<Rightarrow> bool" where
  "entry_taken v ks ks' \<longleftrightarrow> ks' = ks \<or>
     (\<exists>n i x. i < length ks + n \<and> snd ((ks @ replicate n ([], 0)) ! i) = 0 \<and> v \<notin> fst ` set ks \<and>
        ks' = (ks @ replicate n ([], 0))[i := x] \<and> (x = (v, 1) \<or> x = ([], 0)))"

lemma entry_taken_ok:
  assumes ok: "entries_ok ks" and t: "entry_taken v ks ks'"
  shows "entries_ok ks'" "length ks \<le> length ks'"
    "i < length ks \<Longrightarrow> fst (ks ! i) \<noteq> [] \<Longrightarrow> ks' ! i = ks ! i"
proof -
  have "entries_ok ks' \<and> length ks \<le> length ks' \<and> (\<forall>i < length ks. fst (ks ! i) \<noteq> [] \<longrightarrow> ks' ! i = ks ! i)"
  proof (cases "ks' = ks")
    case True
    with ok show ?thesis by simp
  next
    case False
    with t obtain n k x where k: "k < length ks + n" "snd ((ks @ replicate n ([], 0)) ! k) = 0" "v \<notin> fst ` set ks"
      "ks' = (ks @ replicate n ([], 0))[k := x]" "x = (v, 1) \<or> x = ([], 0)" by (auto simp: entry_taken_def)
    have at: "ks' ! i = (if i = k then x else if i < length ks then ks ! i else ([], 0))" if "i < length ks + n" for i
      using that k(4) by (auto simp: nth_append)
    have len: "length ks' = length ks + n" by (simp add: k(4))
    have unused: "fst (ks ! k) = []" if "k < length ks"
      using ok k(2) that by (simp add: entries_ok_def nth_append)
    have v: "fst (ks ! i) \<noteq> v" if "i < length ks" for i using k(3) that by (force simp: in_set_conv_nth)
    have one: "i = j" if "i < length ks" "j < length ks" "fst (ks ! i) = fst (ks ! j)" "fst (ks ! i) \<noteq> []" for i j
      using ok that by (simp add: entries_ok_def)
    have nil: "fst (ks ! i) = []" if "i < length ks" "snd (ks ! i) = 0" for i
      using ok that by (simp add: entries_ok_def)
    have "entries_ok ks'"
      unfolding entries_ok_def len
    proof (intro conjI allI impI)
      fix i j assume "i < length ks + n" "j < length ks + n" "fst (ks' ! i) = fst (ks' ! j)" "fst (ks' ! i) \<noteq> []"
      then show "i = j" using at one v [of i] v [of j] k(5) by (auto split: if_splits)
    next
      fix i assume "i < length ks + n" "snd (ks' ! i) = 0"
      then show "fst (ks' ! i) = []" using at nil k(5) by (auto split: if_splits)
    qed
    moreover have "ks' ! i = ks ! i" if "i < length ks" "fst (ks ! i) \<noteq> []" for i
      using at [of i] that unused by auto
    ultimately show ?thesis by (simp add: len)
  qed
  then show "entries_ok ks'" "length ks \<le> length ks'" "i < length ks \<Longrightarrow> fst (ks ! i) \<noteq> [] \<Longrightarrow> ks' ! i = ks ! i"
    by blast+
qed

section \<open>The handler\<close>

text \<open>The entries are among \<open>S\<close>, and the thread \<open>j\<close> has noted the index \<open>i\<close>.\<close>

definition noted :: "(string \<times> int) list set \<Rightarrow> nat \<Rightarrow> nat \<Rightarrow> broker \<Rightarrow> bool" where
  "noted S j i s \<longleftrightarrow> keys (server_boxes s) \<in> S \<and> j < length (thread_pool s) \<and> thread_pool s ! j = int i"

lemma noted_ignores_io: "ignores_io (noted S j i)"
  by (simp add: ignores_io_def noted_def)

lemmas noted_io = io_units [OF noted_ignores_io] io_pipes [OF noted_ignores_io] io_answer [OF noted_ignores_io]

lemma noted_tfs: "leads (noted S j i) (in_tfs m) (noted S j i)"
  by (rule leadsI) (auto simp: noted_def in_tfs_def split: sum.splits)

lemma noted_get_index: "leads (noted S j i) (k (int i)) Q \<Longrightarrow> leads (noted S j i) (call (get_index j) k) Q"
  by (rule leads_call_state [where f = "\<lambda>s. thread_pool s ! j"])
    (auto simp: noted_def get_index_def exec_simps array_get_def leads_def)

lemma strcpy_to_string: "strcpy_to dst src = Inr a \<Longrightarrow> c_string a = c_string src"
proof -
  have "c_strcpy src = Inr bs \<Longrightarrow> c_string (bs @ r) = c_string src" for bs r
    by (induction src arbitrary: bs) (auto simp: c_string_def split: if_splits sum.splits)
  then show "strcpy_to dst src = Inr a \<Longrightarrow> c_string a = c_string src"
    by (auto simp: strcpy_to_def split: sum.splits if_splits)
qed

lemma take_entry_keys:
  assumes "take_entry j i r s = Inr ((), t)"
  shows "i < length (server_boxes s)" "noted {(keys (server_boxes s))[i := (c_string (req_box_name r), 1)]} j i t"
proof -
  have "i < length (server_boxes s) \<and> noted {(keys (server_boxes s))[i := (c_string (req_box_name r), 1)]} j i t"
    using assms
    by (auto simp: take_entry_def noted_def ret_def lift_def key_def map_update strcpy_to_string
      split: sum.splits elim!: call_eq_InrE dest!: set_index_result upd_box_result get_box_exec')
  then show "i < length (server_boxes s)" "noted {(keys (server_boxes s))[i := (c_string (req_box_name r), 1)]} j i t"
    by simp_all
qed

lemma grow_boxes_keys:
  assumes g: "grow_boxes env j r s = Inr ((), t)" and len: "length (server_boxes s) = size_boxes s"
    and raw: "\<And>i. name_of (raw_box env i) = []"
  shows "\<exists>n. size_boxes s < size_boxes s + n \<and>
    noted {(keys (server_boxes s) @ replicate n ([], 0))[size_boxes s := (c_string (req_box_name r), 1)]} j (size_boxes s) t"
proof -
  let ?n = "size_boxes s"
  let ?new = "map (\<lambda>i. (raw_box env i)\<lparr>box_free := 0, box_lock := False\<rparr>) [?n ..< 2 * ?n]"
  let ?u = "s\<lparr>server_boxes := server_boxes s @ ?new\<rparr>"
  from g obtain u where u: "take_entry j ?n r ?u = Inr ((), u)" "t = u\<lparr>size_boxes := 2 * ?n\<rparr>"
    by (auto simp: grow_boxes_def exec_simps modify_def ret_def split: if_splits elim!: call_eq_InrE)
  note k = take_entry_keys [OF u(1)]
  have "keys ?new = replicate ?n ([], 0)"
    by (rule nth_equalityI) (simp_all add: key_def raw)
  with k(2) have "noted {(keys (server_boxes s) @ replicate ?n ([], 0))[?n := (c_string (req_box_name r), 1)]} j ?n t"
    by (simp add: u(2) noted_def)
  moreover have "?n < ?n + ?n" using k(1) len by simp
  ultimately show ?thesis by blast
qed

lemma noted_subset: "noted S j i s \<Longrightarrow> S \<subseteq> S' \<Longrightarrow> noted S' j i s"
  by (auto simp: noted_def)

text \<open>
  The handler after the entry was taken (lines 367 to 395): it is given back when the file could
  not be created.
\<close>

definition create_end :: "env \<Rightarrow> request \<Rightarrow> nat \<Rightarrow> unit brop" where
  "create_end env r index =
     call (lift (c_arg (req_box_name r))) (\<lambda>path.
     call (in_tfs (tfs_open (Some path) TFS_O_CREAT)) (\<lambda>fd_tfs.
     call (in_tfs (tfs_close fd_tfs)) (\<lambda>_.
     block [ignore_sigpipe, my_open env (req_pipe_name r)] (
     call (if fd_tfs = - 1 then
             call (get_index index) (\<lambda>i.
             block [upd_box i (\<lambda>b. wipe_strings (b\<lparr>box_free := 0\<rparr>))]
               (error_answer env 4 msg_create_failed))
           else ok_answer 4) (\<lambda>m.
     block [unlock_boxes, answer_and_close env (req_pipe_name r) m 4] (ret ()))))))"

lemma create_parts:
  "process_manager_create env r index =
     block [lock_boxes] (
     call (find_box (req_box_name r)) (\<lambda>found.
     case found of
       Some i \<Rightarrow>
         block [ignore_sigpipe, my_open env (req_pipe_name r)] (
         call (error_answer env 4 msg_create_failed) (\<lambda>m.
         block [unlock_boxes, answer_and_close env (req_pipe_name r) m 4] (ret ())))
     | None \<Rightarrow>
         call (gets server_boxes) (\<lambda>bs. call (gets size_boxes) (\<lambda>n.
         call (lift (scan_unused bs 0 n)) (\<lambda>slot.
         block [case slot of Some i \<Rightarrow> take_entry index i r | None \<Rightarrow> grow_boxes env index r]
           (create_end env r index))))))"
  unfolding process_manager_create_def create_end_def ..

lemma noted_end: "leads (noted {ks} j i) (create_end env r j) (noted {ks, ks[i := ([], 0)]} j i)"
proof -
  have wiped: "key (wipe_strings (b\<lparr>box_free := 0\<rparr>)) = ([], 0)" for b
    by (simp add: key_def wipe_strings_def)
  have "leads (noted {ks} j i) (upd_box (int i) (\<lambda>b. wipe_strings (b\<lparr>box_free := 0\<rparr>))) (noted {ks, ks[i := ([], 0)]} j i)"
    by (rule leadsI) (auto simp: noted_def map_update wiped dest!: upd_box_result)
  note w = this
  have ok: "leads (noted {ks} j i) (ok_answer 4) (noted {ks, ks[i := ([], 0)]} j i)"
    by (rule leads_weaken [OF noted_io(11)], assumption, erule noted_subset) simp
  show ?thesis
    unfolding create_end_def
    by (rule leads_call_lift leads_call [OF noted_tfs] leads_block_Cons leads_block_Nil leads_if w ok
      noted_get_index noted_io leads_ret | rule leads_call)+
qed

lemma lock_find:
  assumes "block [lock_boxes] (call (find_box nm) k) s = Inr (a, t)"
  obtains s1 found where "lock_boxes s = Inr ((), s1)" "find_box nm s1 = Inr (found, s1)" "k found s1 = Inr (a, t)"
proof -
  from assms obtain s1 found s2 where r: "lock_boxes s = Inr ((), s1)" "find_box nm s1 = Inr (found, s2)"
    "k found s2 = Inr (a, t)" by (auto elim!: call_eq_InrE)
  with find_box_state [OF r(2)] that show ?thesis by simp
qed

lemma create_entries:
  assumes c: "process_manager_create env r j s = Inr ((), t)" and ok: "table_ok s"
    and raw: "\<And>i. name_of (raw_box env i) = []"
  shows "entry_taken (c_string (req_box_name r)) (keys (server_boxes s)) (keys (server_boxes t))"
proof -
  let ?v = "c_string (req_box_name r)" and ?ks = "keys (server_boxes s)"
  obtain s1 found where l: "lock_boxes s = Inr ((), s1)"
    and f: "find_box (req_box_name r) s1 = Inr (found, s1)"
    and rest: "(case found of
       Some i \<Rightarrow>
         block [ignore_sigpipe, my_open env (req_pipe_name r)] (
         call (error_answer env 4 msg_create_failed) (\<lambda>m.
         block [unlock_boxes, answer_and_close env (req_pipe_name r) m 4] (ret ())))
     | None \<Rightarrow>
         call (gets server_boxes) (\<lambda>bs. call (gets size_boxes) (\<lambda>n.
         call (lift (scan_unused bs 0 n)) (\<lambda>slot.
         block [case slot of Some i \<Rightarrow> take_entry j i r | None \<Rightarrow> grow_boxes env j r]
           (create_end env r j))))) s1 = Inr ((), t)"
    by (rule lock_find [OF c [unfolded create_parts]])
  from l have s1: "server_boxes s1 = server_boxes s" "size_boxes s1 = size_boxes s"
    by (auto simp: lock_boxes_def split: if_splits)
  note T = ok [unfolded table_ok_def]
  show ?thesis
  proof (cases found)
    case (Some k)
    define P where "P = (\<lambda>u :: broker. keys (server_boxes u) = ?ks)"
    have io: "ignores_io P" by (simp add: ignores_io_def P_def)
    have "leads P (block [ignore_sigpipe, my_open env (req_pipe_name r)] (
         call (error_answer env 4 msg_create_failed) (\<lambda>m.
         block [unlock_boxes, answer_and_close env (req_pipe_name r) m 4] (ret ())))) P"
      by (rule leads_block_Cons leads_block_Nil io_units [OF io] io_pipes [OF io] io_answer [OF io] leads_ret | rule leads_call)+
    from leadsD [OF this _ rest [unfolded Some option.case]] s1 have "P t" by (simp add: P_def)
    then show ?thesis by (simp add: entry_taken_def P_def)
  next
    case None
    from rest None s1 obtain slot u where slot: "scan_unused (server_boxes s) 0 (size_boxes s) = Inr slot"
      and u: "(case slot of Some i \<Rightarrow> take_entry j i r | None \<Rightarrow> grow_boxes env j r) s1 = Inr ((), u)"
      and run: "create_end env r j u = Inr ((), t)"
      by (auto simp: call_gets lift_def elim!: call_eq_InrE split: sum.splits)
    from run obtain path where p: "c_arg (req_box_name r) = Inr path"
      by (auto simp: create_end_def lift_def elim!: call_eq_InrE split: sum.splits)
    have v: "?v \<notin> fst ` set ?ks"
    proof -
      from p have nul: "NUL \<in> set (req_box_name r)" by (auto simp: c_arg_def split: if_splits)
      from f None s1 T scan_boxes_exec [OF nul, of "server_boxes s" 0]
      have "first_index (\<lambda>b. name_of b = ?v) (server_boxes s) = None"
        by (auto simp: find_box_def call_gets lift_def)
      then show ?thesis by (auto simp: first_index_None key_def)
    qed
    have "\<exists>n i. i < length ?ks + n \<and> snd ((?ks @ replicate n ([], 0)) ! i) = 0 \<and>
        noted {(?ks @ replicate n ([], 0))[i := (?v, 1)]} j i u"
    proof (cases slot)
      case (Some i)
      with slot T scan_unused_exec [of 0 "server_boxes s"]
      have i: "first_index (\<lambda>b. box_free b = 0) (server_boxes s) = Some i"
        by (simp add: option.map_ident)
      from u Some s1 take_entry_keys [of j i r s1 u] have "noted {?ks[i := (?v, 1)]} j i u" by simp
      with first_index_SomeD [OF i] show ?thesis by (intro exI [of _ 0] exI [of _ i]) (simp add: key_def)
    next
      case no: None
      from u no s1 T grow_boxes_keys [OF _ _ raw, of j r s1 u] obtain n where
        n: "size_boxes s < size_boxes s + n" "noted {(?ks @ replicate n ([], 0))[size_boxes s := (?v, 1)]} j (size_boxes s) u"
        by auto
      with T show ?thesis by (intro exI [of _ n] exI [of _ "size_boxes s"]) (simp add: nth_append)
    qed
    then obtain n i where n: "i < length ?ks + n" "snd ((?ks @ replicate n ([], 0)) ! i) = 0"
      "noted {(?ks @ replicate n ([], 0))[i := (?v, 1)]} j i u" by blast
    from leadsD [OF noted_end n(3) run]
    have "keys (server_boxes t) = (?ks @ replicate n ([], 0))[i := (?v, 1)] \<or>
        keys (server_boxes t) = (?ks @ replicate n ([], 0))[i := ([], 0)]" by (auto simp: noted_def)
    with n(1,2) v show ?thesis unfolding entry_taken_def by blast
  qed
qed

text \<open>The files: no name is lost, and every file keeps its contents.\<close>

lemma calm_create: "leads (calm (\<lambda>_. ()) s0) (process_manager_create env r j) (calm (\<lambda>_. ()) s0)"
proof -
  have t: "leads (calm (\<lambda>_. ()) s0) (take_entry j i r) (calm (\<lambda>_. ()) s0)" for i
    unfolding take_entry_def by (rule leads_intros calm_upd_any)+
  have m: "leads (calm (\<lambda>_. ()) s0) (modify f) (calm (\<lambda>_. ()) s0)" if "\<And>s. tfs (f s) = tfs s" for f
    using that by (intro leads_modify) (simp add: calm_def)
  have g: "leads (calm (\<lambda>_. ()) s0) (grow_boxes env j r) (calm (\<lambda>_. ()) s0)"
    unfolding grow_boxes_def by (rule leads_intros t m | simp)+
  show ?thesis
    unfolding process_manager_create_def
    by (rule leads_intros calm_upd_any t g modes(2) leads_call_lift)+
qed

end
