(* ===== verification/Threads_Files.thy ===== *)
theory Threads_Files
  imports Threads_Publishers Broker_Creates
begin

text \<open>
  What the steps of the threads do to the files of the boxes: every publisher writes at the end of the
  file of its box, nobody else writes to that file, and every other step leaves all files alone.
\<close>

section \<open>The invariant\<close>

text \<open>The handle \<open>fd\<close> leads to the file with the path \<open>v\<close>, at its end.\<close>

definition at_file_end :: "tfs_state \<Rightarrow> string \<Rightarrow> int \<Rightarrow> bool" where
  "at_file_end f v fd \<longleftrightarrow> (\<exists>w k. path_entry (Some v) = Some w \<and> names f w = Some k \<and> file_of f (nat fd) = k \<and>
     offset_of f (nat fd) = length (contents f k))"

definition storage_inv :: "cluster \<Rightarrow> bool" where
  "storage_inv c \<longleftrightarrow> tidy (tfs (cluster_broker c)) \<and> entries_ok (keys (server_boxes (cluster_broker c))) \<and>
     (\<forall>j r i. doing c j = Registered_pub r \<longrightarrow> thread_pool (cluster_broker c) ! j = int i \<longrightarrow>
       c_string (req_box_name r) \<noteq> [] \<longrightarrow> name_of (server_boxes (cluster_broker c) ! i) = c_string (req_box_name r)) \<and>
     (\<forall>j p fd i. doing c j = Publishing p fd \<longrightarrow> thread_pool (cluster_broker c) ! j = int i \<longrightarrow>
       at_file_end (tfs (cluster_broker c)) (name_of (server_boxes (cluster_broker c) ! i)) fd)"

lemma storage_invD:
  assumes "storage_inv c"
  shows "tidy (tfs (cluster_broker c))" "entries_ok (keys (server_boxes (cluster_broker c)))"
    "doing c j = Registered_pub r \<Longrightarrow> thread_pool (cluster_broker c) ! j = int i \<Longrightarrow>
       c_string (req_box_name r) \<noteq> [] \<Longrightarrow> name_of (server_boxes (cluster_broker c) ! i) = c_string (req_box_name r)"
    "doing c j = Publishing p fd \<Longrightarrow> thread_pool (cluster_broker c) ! j = int i \<Longrightarrow>
       at_file_end (tfs (cluster_broker c)) (name_of (server_boxes (cluster_broker c) ! i)) fd"
  using assms unfolding storage_inv_def by blast+

lemma path_entry_inj: "path_entry (Some v) = Some w \<Longrightarrow> v = CHR ''/'' # w"
  by (cases v) (auto simp: path_entry_def split: if_splits)

lemma key_name: "i < length bs \<Longrightarrow> fst (keys bs ! i) = name_of (bs ! i)"
  by (simp add: key_def)

text \<open>Two publishers write to different files.\<close>

lemma publishers_apart:
  assumes c: "cluster_inv c" and p: "sole_publishers c" and s: "storage_inv c"
    and j: "doing c j = Publishing q fd" and k: "doing c k = Publishing q' fd'" and ne: "k \<noteq> j"
  shows "file_of (tfs (cluster_broker c)) (nat fd') \<noteq> file_of (tfs (cluster_broker c)) (nat fd)"
proof
  let ?b = "cluster_broker c" and ?f = "tfs (cluster_broker c)"
  assume eq: "file_of ?f (nat fd') = file_of ?f (nat fd)"
  from cluster_invD(6) [OF c, of j] cluster_invD(6) [OF c, of k] j k obtain a b where
    a: "a < length (server_boxes ?b)" "thread_pool ?b ! j = int a" and
    b: "b < length (server_boxes ?b)" "thread_pool ?b ! k = int b" by auto
  from storage_invD(4) [OF s j a(2)] storage_invD(4) [OF s k b(2)] eq tidyD(1) [OF storage_invD(1) [OF s]]
  obtain w where "path_entry (Some (name_of (server_boxes ?b ! a))) = Some w"
    "path_entry (Some (name_of (server_boxes ?b ! b))) = Some w" unfolding at_file_end_def by metis
  then have "name_of (server_boxes ?b ! a) = CHR ''/'' # w" "name_of (server_boxes ?b ! b) = CHR ''/'' # w"
    using path_entry_inj by blast+
  with storage_invD(2) [OF s] a(1) b(1) have "a = b" by (simp add: entries_ok_def key_name del: nth_map)
  with sole_publishersD(2) [OF p, of j a k] j k a(2) b(2) ne show False by simp
qed

section \<open>Steps\<close>

lemma storage_step:
  assumes c: "cluster_inv c" and s: "storage_inv c"
    and after: "after_step nothing (others_handles c j) J (cluster_broker c) L i0 a t"
    and J: "J = j \<or> J = length (thread_pool (cluster_broker c))"
    and files: "files_kept W (tfs (cluster_broker c)) (tfs t)"
    and apart: "\<And>k q fd. k \<noteq> j \<Longrightarrow> doing c k = Publishing q fd \<Longrightarrow> file_of (tfs (cluster_broker c)) (nat fd) \<notin> W"
    and taken: "entry_taken v (keys (server_boxes (cluster_broker c))) (keys (server_boxes t))"
    and reg: "\<And>r i. a = Registered_pub r \<Longrightarrow> thread_pool t ! j = int i \<Longrightarrow> c_string (req_box_name r) \<noteq> [] \<Longrightarrow>
      name_of (server_boxes t ! i) = c_string (req_box_name r)"
    and pub: "\<And>p fd i. a = Publishing p fd \<Longrightarrow> thread_pool t ! j = int i \<Longrightarrow> at_file_end (tfs t) (name_of (server_boxes t ! i)) fd"
  shows "storage_inv \<lparr>the_server = (the_server c)\<lparr>the_broker := t\<rparr>, doing = (doing c)(j := a)\<rparr>" (is "storage_inv ?d")
proof -
  let ?b = "cluster_broker c"
  note e = entry_taken_ok [OF storage_invD(2) [OF s] taken]
  from after have bz: "busy nothing (others_handles c j) J ?b (if holds_lock a then insert i0 L else L) False t"
    by (simp add: after_step_def)
  have pool: "thread_pool t ! k = thread_pool ?b ! k" if "k \<noteq> j" "has_box (doing c k)" for k
    using busyD(5) [OF bz, of k] that J cluster_invD(5) [OF c that(2)] by auto
  have same: "name_of (server_boxes t ! i) = name_of (server_boxes ?b ! i)"
    if i: "i < length (server_boxes ?b)" and ne: "name_of (server_boxes ?b ! i) \<noteq> []" for i
    using e(3) [of i] e(2) key_name [OF i] key_name [of i "server_boxes t"] i ne by (simp del: nth_map)
  have r: "name_of (server_boxes t ! i) = c_string (req_box_name r)"
    if k: "k \<noteq> j" "doing c k = Registered_pub r" "thread_pool t ! k = int i" "c_string (req_box_name r) \<noteq> []" for k r i
  proof -
    have i: "thread_pool ?b ! k = int i" using pool k by simp
    from cluster_invD(6) [OF c, of k] k i have "i < length (server_boxes ?b)" by auto
    with storage_invD(3) [OF s k(2) i k(4)] same k(4) show ?thesis by simp
  qed
  have q: "at_file_end (tfs t) (name_of (server_boxes t ! i)) fd"
    if k: "k \<noteq> j" "doing c k = Publishing p fd" "thread_pool t ! k = int i" for k p fd i
  proof -
    have i: "thread_pool ?b ! k = int i" using pool k by simp
    from cluster_invD(6) [OF c, of k] k i have il: "i < length (server_boxes ?b)" by auto
    from storage_invD(4) [OF s k(2) i] obtain w m where
      w: "path_entry (Some (name_of (server_boxes ?b ! i))) = Some w" "names (tfs ?b) w = Some m"
        "file_of (tfs ?b) (nat fd) = m" "offset_of (tfs ?b) (nat fd) = length (contents (tfs ?b) m)"
      by (auto simp: at_file_end_def)
    have "name_of (server_boxes ?b ! i) \<noteq> []" using path_entry_inj [OF w(1)] by simp
    note nm = same [OF il this]
    from cluster_invD(7) [OF c, of k fd] k(2) obtain h where h: "fd = int h"
      by (auto simp: own_handle_def elim: is_open_nat)
    then have "h \<in> others_handles c j" using k by (auto simp: others_handles_def)
    note sh = busyD(12) [OF bz this]
    have n: "contents (tfs t) m = contents (tfs ?b) m" "names (tfs t) w = Some m"
      using files_keptD(2,3) [OF files w(2)] apart [OF k(1,2)] w(3) by simp_all
    have "length (contents (tfs t) m) = length (contents (tfs ?b) m)" by (simp only: n(1))
    with n(2) w sh nm h show ?thesis by (simp add: at_file_end_def same_handle_def)
  qed
  have "tidy (tfs t)" using files_keptD(1) [OF files storage_invD(1) [OF s]] .
  with e(1) r q reg pub show ?thesis by (auto simp: storage_inv_def)
qed

text \<open>The first step with a task: it creates a box, or leaves the files and the names alone.\<close>

lemma calm_storage:
  assumes "calm keys s t"
  shows "files_kept {} (tfs s) (tfs t)" "entry_taken v (keys (server_boxes s)) (keys (server_boxes t))"
  using calmD [OF assms] by (simp_all add: entry_taken_def)

lemma start_effect:
  assumes r: "start_task env j t s = Inr (a, u)" and nr: "function_of t \<noteq> Some H_remove"
    and f: "fs_kept (tfs s)" "tidy (tfs s)" and ok: "table_ok s" and raw: "\<And>i. name_of (raw_box env i) = []"
  shows "files_kept {} (tfs s) (tfs u) \<and> (\<exists>v. entry_taken v (keys (server_boxes s)) (keys (server_boxes u))) \<and>
    (\<forall>q i. a = Registered_pub q \<longrightarrow> thread_pool u ! j = int i \<longrightarrow>
      name_of (server_boxes u ! i) = c_string (req_box_name q)) \<and> (\<forall>p fd. a \<noteq> Publishing p fd)"
proof -
  note st = calm_start [OF f, of keys]
  have fin: "calm keys s u \<Longrightarrow> (a = Idle \<or> a = Ended) \<Longrightarrow> ?thesis" using calm_storage by blast
  show ?thesis
    using r
  proof (cases rule: start_task_cases)
    case (published q)
    note c = leadsD [OF calm_publisher(1) st published(3)]
    have "name_of (server_boxes u ! i) = c_string (req_box_name q)" if "thread_pool u ! j = int i" for i
    proof -
      from register_pub_result [OF published(3)] obtain k where k: "k < length (server_boxes s)"
        "j < length (thread_pool s)" "thread_pool u = (thread_pool s)[j := int k]" by metis
      with that have "k = i" by simp
      with k calmD(4) [OF c] key_name [of i "server_boxes s"] key_name [of i "server_boxes u"] map_eq_imp_length_eq
      have "name_of (server_boxes u ! i) = name_of (server_boxes s ! i)" by (metis (no_types, lifting))
      with register_pub_name [OF published(3) that] show ?thesis by simp
    qed
    with calm_storage [OF c] published(4) show ?thesis by blast
  next
    case (not_published q v)
    from leadsD [OF calm_finished leadsD [OF calm_publisher(1) st not_published(3)] not_published(4)]
      finished_result [OF not_published(4)] fin show ?thesis by blast
  next
    case (subscribed q)
    from calm_storage [OF leadsD [OF calm_subscriber(1) st subscribed(3)]] subscribed(4) show ?thesis by blast
  next
    case (not_subscribed q v w)
    from leadsD [OF calm_finished leadsD [OF calm_subscriber(2) leadsD [OF calm_subscriber(1) st not_subscribed(3)]
        not_subscribed(4)] not_subscribed(5)] finished_result [OF not_subscribed(5)] fin
    show ?thesis by blast
  next
    case (managed v)
    show ?thesis
    proof (cases "function_of t = Some H_create")
      case True
      with managed(2) obtain q where v: "process_manager_create env q j s = Inr ((), v)"
        by (cases "request_of t") (auto simp: run_task_def fail_def)
      have "calm (\<lambda>_. ()) s s" by (rule calm_start [OF f])
      from leadsD [OF calm_create this v] have c: "files_kept {} (tfs s) (tfs v)" by (rule calmD(3))
      have "u = v" "a = Idle \<or> a = Ended"
        using managed(3) by (auto simp: finished_def gets_def ret_def elim!: call_eq_InrE split: if_splits)
      with c create_entries [OF v ok raw] show ?thesis by blast
    next
      case False
      have "leads (calm keys s) (run_task env 0 j [] t) (calm keys s)"
      proof (cases "function_of t")
        case (Some h)
        with False nr managed(1) show ?thesis
          by (cases h; cases "request_of t") (simp_all add: run_task_def calm_manager leads_fail)
      qed (simp add: run_task_def leads_fail)
      from leadsD [OF calm_finished leadsD [OF this st managed(2)] managed(3)] finished_result [OF managed(3)] fin
      show ?thesis by blast
    qed
  qed
qed

text \<open>The next steps.\<close>

lemma continue_result:
  assumes "continue_task env j input b s = Inr (a, t)"
  shows "a \<noteq> Registered_pub r"
    "a = Publishing p fd \<Longrightarrow> (\<exists>q. b = Registered_pub q \<and> pub_open env q s = Inr (fd, t) \<and> fd \<noteq> - 1) \<or>
      (\<exists>bytes. b = Publishing p fd \<and> input = Some bytes \<and> pub_message env j fd bytes s = Inr (True, t))"
proof -
  show "a \<noteq> Registered_pub r"
    using assms
    by (cases b) (auto simp: sub_read_def sub_sleep_def sub_send_def ret_def fail_def split: if_splits option.splits
      elim!: call_eq_InrE dest!: finished_result)
  assume "a = Publishing p fd"
  with assms publishes_before [OF assms] consider q where "b = Registered_pub q" | q k where "b = Publishing q k"
    by (cases b) auto
  then show "(\<exists>q. b = Registered_pub q \<and> pub_open env q s = Inr (fd, t) \<and> fd \<noteq> - 1) \<or>
      (\<exists>bytes. b = Publishing p fd \<and> input = Some bytes \<and> pub_message env j fd bytes s = Inr (True, t))"
  proof cases
    case 1
    with assms \<open>a = _\<close> show ?thesis
      by (auto simp: ret_def split: if_splits elim!: call_eq_InrE dest!: finished_result)
  next
    case 2
    with assms \<open>a = _\<close> show ?thesis
      by (auto simp: ret_def call_gets split: if_splits option.splits elim!: call_eq_InrE dest!: finished_result)
  qed
qed

text \<open>A message: the file of the box grows, and nothing else changes.\<close>

definition message_stored :: "env \<Rightarrow> char list \<Rightarrow> nat \<Rightarrow> tfs_state \<Rightarrow> tfs_state \<Rightarrow> bool" where
  "message_stored env bytes i f g \<longleftrightarrow> (\<exists>m l. reader_stc (grants env) (bytes @ drop (length bytes) (raw_line env)) = Inr (Message m, l) \<and>
     contents g i = take (BLOCK_SIZE f) (contents f i @ c_string (msg_message m) @ [NUL]))"

lemma publish_effect:
  assumes k: "fs_kept (tfs s)" "tidy (tfs s)" and op: "is_open (tfs s) fd" and e: "at_file_end (tfs s) v fd"
    and r: "continue_task env j (Some bytes) (Publishing p fd) s = Inr (a, t)"
  shows "files_kept {file_of (tfs s) (nat fd)} (tfs s) (tfs t) \<and> keys (server_boxes t) = keys (server_boxes s) \<and>
    (\<exists>zs. contents (tfs t) (file_of (tfs s) (nat fd)) = contents (tfs s) (file_of (tfs s) (nat fd)) @ zs) \<and>
    (a = Publishing p fd \<longrightarrow> at_file_end (tfs t) v fd \<and> message_stored env bytes (file_of (tfs s) (nat fd)) (tfs s) (tfs t))"
proof -
  from op obtain h where h: "fd = int h" by (rule is_open_nat)
  let ?i = "file_of (tfs s) h" and ?c = "contents (tfs s) (file_of (tfs s) h)"
  from e h obtain w where w: "path_entry (Some v) = Some w" "names (tfs s) w = Some ?i" "offset_of (tfs s) h = length ?c"
    by (auto simp: at_file_end_def simp del: length_contents)
  have sz: "length ?c \<le> BLOCK_SIZE (tfs s)"
    using fs_invD(6) [OF fs_keptD(1) [OF k(1)]] names_used [OF fs_keptD(1) [OF k(1)] w(2)]
    by (simp add: sizes_inv_def used_inode_def)
  have quiet: "files_kept W (tfs s) (tfs t)" "keys (server_boxes t) = keys (server_boxes s)"
    if "calm keys u t" "files_kept W (tfs s) (tfs u)" "keys (server_boxes u) = keys (server_boxes s)" for u W
  proof -
    have "files_kept W (tfs u) (tfs t)" using calmD(3) [OF that(1)] unfolding files_kept_def by blast
    from files_kept_trans [OF that(2) this] show "files_kept W (tfs s) (tfs t)" .
    show "keys (server_boxes t) = keys (server_boxes s)" using calmD(4) [OF that(1)] that(3) by simp
  qed
  have ends: ?thesis
    if m: "block ms finished u = Inr (a, t)" "\<And>m. m \<in> set ms \<Longrightarrow> leads (calm keys u) m (calm keys u)"
      and u: "files_kept {?i} (tfs s) (tfs u)" "keys (server_boxes u) = keys (server_boxes s)" "contents (tfs u) ?i = ?c"
        "fs_kept (tfs u)" for ms u
  proof -
    have "leads (calm keys u) (block ms finished) (calm keys u)"
      using m(2) by (induction ms) (auto intro!: leads_block_Cons leads_block_Nil calm_finished simp del: block.simps)
    from leadsD [OF this calm_start m(1)] u(4) files_keptD(1) [OF u(1) k(2)] have c: "calm keys u t" by blast
    have "names (tfs u) w = Some ?i" by (rule files_keptD(2) [OF u(1) w(2)])
    from files_keptD(3) [OF calmD(3) [OF c] this] u(3) have "contents (tfs t) ?i = ?c" by simp
    moreover have "a \<noteq> Publishing p fd"
      using m(1) by (induction ms arbitrary: u) (auto elim!: call_eq_InrE dest!: finished_result)
    ultimately show ?thesis using quiet [OF c u(1,2)] by (simp add: h)
  qed
  show ?thesis
  proof (cases "ending s")
    case True
    have "block [my_close env p, call (in_tfs (tfs_close fd)) (\<lambda>_. ret ())] finished s = Inr (a, t)"
      using r True by (simp add: call_gets) (auto simp: call_def ret_def split: sum.splits)
    then show ?thesis
      by (rule ends) (use k in \<open>auto intro: calm_io leads_call [OF calm_close] leads_ret\<close>)
  next
    case False
    with r h obtain go u where u: "pub_message env j (int h) bytes s = Inr (go, u)"
      "(if go then ret (Publishing p fd) else block [pub_end env p j fd] finished) u = Inr (a, t)"
      by (auto simp: call_gets simp del: block.simps elim!: call_eq_InrE)
    obtain m l where m: "reader_stc (grants env) (bytes @ drop (length bytes) (raw_line env)) = Inr (Message m, l)"
      "files_kept {?i} (tfs s) (tfs u)" "file_of (tfs u) h = ?i" "offset_of (tfs u) h = length (contents (tfs u) ?i)"
      "contents (tfs u) ?i = (if go then take (BLOCK_SIZE (tfs s)) (?c @ c_string (msg_message m) @ [NUL]) else ?c)"
      "fs_kept (tfs u)" "keys (server_boxes u) = keys (server_boxes s)"
      by (rule pub_message_file [OF k op [unfolded h] w(2,3) u(1)])
    show ?thesis
    proof (cases go)
      case True
      with u(2) have a: "a = Publishing p fd" "t = u" by (simp_all add: ret_def)
      from files_keptD(2) [OF m(2) w(2)] w(1) m(3,4) h have "at_file_end (tfs t) v fd" unfolding at_file_end_def a(2) by auto
      moreover have "contents (tfs t) ?i = ?c @ take (BLOCK_SIZE (tfs s) - length ?c) (c_string (msg_message m) @ [NUL])"
        using m(5) True sz by (simp add: a(2))
      ultimately show ?thesis using m True by (auto simp: a h message_stored_def)
    next
      case False
      show ?thesis
      proof (rule ends)
        show "block [pub_end env p j fd] finished u = Inr (a, t)" using u(2) False by simp
      qed (use m False in \<open>auto intro: calm_publisher\<close>)
    qed
  qed
qed

section \<open>Every step\<close>

text \<open>No name is lost, files only grow, and the bytes behind them stay zero.\<close>

definition only_grows :: "tfs_state \<Rightarrow> tfs_state \<Rightarrow> bool" where
  "only_grows f g \<longleftrightarrow> fs_params g = fs_params f \<and> (spare_zero f \<longrightarrow> spare_zero g) \<and> (\<forall>w k. names f w = Some k \<longrightarrow> names g w = Some k \<and> (\<exists>zs. contents g k = contents f k @ zs))"

lemma only_growsD:
  assumes "only_grows f g"
  shows "fs_params g = fs_params f" "spare_zero f \<Longrightarrow> spare_zero g" "names f w = Some k \<Longrightarrow> names g w = Some k"
    "names f w = Some k \<Longrightarrow> \<exists>zs. contents g k = contents f k @ zs"
  using assms unfolding only_grows_def by blast+

lemma only_grows_refl [simp]: "only_grows f f"
  by (simp add: only_grows_def)

lemma only_grows_trans: "only_grows f g \<Longrightarrow> only_grows g h \<Longrightarrow> only_grows f h"
  unfolding only_grows_def by fastforce

lemma files_kept_grows: "files_kept {} f g \<Longrightarrow> only_grows f g"
  by (simp add: files_kept_def only_grows_def)

lemma files_kept_grows_one:
  "files_kept {k} f g \<Longrightarrow> contents g k = contents f k @ zs \<Longrightarrow> only_grows f g"
  unfolding files_kept_def only_grows_def by (metis append_Nil2 singletonD)

text \<open>Fresh memory, and entries without a name in a table that is doubled.\<close>

definition blank_memory :: "env \<Rightarrow> bool" where
  "blank_memory env \<longleftrightarrow> fresh_memory env \<and> (\<forall>i. name_of (raw_box env i) = [])"

lemma storage_takes:
  assumes e: "blank_memory env" and c: "cluster_inv c" and s: "storage_inv c" and j: "doing c j = Idle"
    and r: "start_task env j t (cluster_broker c) = Inr (a, u)" and nr: "function_of t \<noteq> Some H_remove"
  shows "storage_inv \<lparr>the_server = (the_server c)\<lparr>the_broker := u\<rparr>, doing = (doing c)(j := a)\<rparr> \<and>
    only_grows (tfs (cluster_broker c)) (tfs u)"
proof -
  from e have m: "fresh_memory env" "\<And>i. name_of (raw_box env i) = []" by (simp_all add: blank_memory_def)
  from start_after [OF c m(1) j r] obtain i where
    i: "after_step nothing (others_handles c j) j (cluster_broker c) (others_locks c j) i a u" by blast
  from start_effect [OF r nr cluster_invD(3) [OF c] storage_invD(1) [OF s] cluster_invD(2) [OF c] m(2)] obtain v where
    v: "files_kept {} (tfs (cluster_broker c)) (tfs u)"
      "entry_taken v (keys (server_boxes (cluster_broker c))) (keys (server_boxes u))"
      "\<And>q i. a = Registered_pub q \<Longrightarrow> thread_pool u ! j = int i \<Longrightarrow>
        name_of (server_boxes u ! i) = c_string (req_box_name q)" "\<And>p fd. a \<noteq> Publishing p fd" by blast
  have "storage_inv \<lparr>the_server = (the_server c)\<lparr>the_broker := u\<rparr>, doing = (doing c)(j := a)\<rparr>"
    by (rule storage_step [OF c s i _ v(1) _ v(2)]) (use v(3,4) in simp_all)
  with files_kept_grows [OF v(1)] show ?thesis by simp
qed

lemma storage_goes:
  assumes c: "cluster_inv c" and p: "sole_publishers c" and s: "storage_inv c"
    and r: "continue_task env j input (doing c j) (cluster_broker c) = Inr (a, u)"
  shows "storage_inv \<lparr>the_server = (the_server c)\<lparr>the_broker := u\<rparr>, doing = (doing c)(j := a)\<rparr> \<and>
    only_grows (tfs (cluster_broker c)) (tfs u)"
proof -
  let ?b = "cluster_broker c" and ?d = "\<lparr>the_server = (the_server c)\<lparr>the_broker := u\<rparr>, doing = (doing c)(j := a)\<rparr>"
  have h: "has_box (doing c j)" using r by (cases "doing c j") (auto simp: fail_def)
  from continue_after [OF c h r] obtain i where
    i: "thread_pool ?b ! j = int i" "i < length (server_boxes ?b)" "j < length (thread_pool ?b)"
      "after_step nothing (others_handles c j) (length (thread_pool ?b)) ?b (others_locks c j) i a u" by metis
  have tp: "thread_pool u ! j = int i"
    using i busyD(5) [of nothing] by (auto simp: after_step_def)
  note k = cluster_invD(3) [OF c] storage_invD(1) [OF s]
  have same: "name_of (server_boxes u ! i) = name_of (server_boxes ?b ! i)"
    if "keys (server_boxes u) = keys (server_boxes ?b)"
    using key_name [OF i(2)] key_name [of i "server_boxes u"] map_eq_imp_length_eq [OF that] that i(2)
    by (simp del: nth_map)
  show ?thesis
  proof (cases "\<exists>q fd bytes. doing c j = Publishing q fd \<and> input = Some bytes")
    case True
    then obtain q fd bytes where q: "doing c j = Publishing q fd" "input = Some bytes" by blast
    have op: "is_open (tfs ?b) fd" using cluster_invD(7) [OF c, of j fd] q(1) by (simp add: own_handle_def)
    from publish_effect [OF k op storage_invD(4) [OF s q(1) i(1)]] r q obtain zs where
      e: "files_kept {file_of (tfs ?b) (nat fd)} (tfs ?b) (tfs u)" "keys (server_boxes u) = keys (server_boxes ?b)"
        "contents (tfs u) (file_of (tfs ?b) (nat fd)) = contents (tfs ?b) (file_of (tfs ?b) (nat fd)) @ zs"
        "a = Publishing q fd \<Longrightarrow> at_file_end (tfs u) (name_of (server_boxes ?b ! i)) fd" by (metis (no_types, lifting))
    have "storage_inv ?d"
    proof (rule storage_step [OF c s i(4) _ e(1)])
      show "file_of (tfs ?b) (nat fd') \<notin> {file_of (tfs ?b) (nat fd)}" if "k \<noteq> j" "doing c k = Publishing q' fd'" for k q' fd'
        using publishers_apart [OF c p s q(1) that(2,1)] by simp
      show "entry_taken [] (keys (server_boxes ?b)) (keys (server_boxes u))" using e(2) by (simp add: entry_taken_def)
      show "name_of (server_boxes u ! n) = c_string (req_box_name r')" if "a = Registered_pub r'" for n r'
        using continue_result(1) [OF r] that by blast
      show "at_file_end (tfs u) (name_of (server_boxes u ! n)) fd'" if a: "a = Publishing p' fd'" "thread_pool u ! j = int n" for p' fd' n
      proof -
        have "n = i" using a(2) tp by simp
        moreover from continue_result(2) [OF r a(1)] q(1) have "p' = q" "fd' = fd" by auto
        ultimately show ?thesis using e(4) a(1) same [OF e(2)] by simp
      qed
    qed simp
    with files_kept_grows_one [OF e(1,3)] show ?thesis by simp
  next
    case False
    then have "leads (calm keys ?b) (continue_task env j input (doing c j)) (calm keys ?b)"
      by (intro calm_continue) blast
    from leadsD [OF this calm_start [OF k] r] have cm: "calm keys ?b u" .
    note e = calm_storage [OF cm]
    have "storage_inv ?d"
    proof (rule storage_step [OF c s i(4) _ e(1) _ e(2)])
      show "name_of (server_boxes u ! n) = c_string (req_box_name r')" if "a = Registered_pub r'" for n r'
        using continue_result(1) [OF r] that by blast
      show "at_file_end (tfs u) (name_of (server_boxes u ! n)) fd" if a: "a = Publishing p' fd" "thread_pool u ! j = int n" for p' fd n
      proof -
        from continue_result(2) [OF r a(1)] False obtain q where
          q: "doing c j = Registered_pub q" "pub_open env q ?b = Inr (fd, u)" "fd \<noteq> - 1" by blast
        from pub_open_file [OF k q(2,3)] have f: "at_file_end (tfs u) (c_string (req_box_name q)) fd"
          by (auto simp: at_file_end_def)
        then have "c_string (req_box_name q) \<noteq> []" by (auto simp: at_file_end_def dest: path_entry_inj)
        from storage_invD(3) [OF s q(1) i(1) this] same calmD(4) [OF cm] f tp a(2) show ?thesis by simp
      qed
    qed simp_all
    with files_kept_grows [OF e(1)] show ?thesis by simp
  qed
qed

lemma storage_cluster_step:
  assumes E: "\<And>env. env \<in> E \<Longrightarrow> blank_memory env" and c: "cluster_inv c" and p: "sole_publishers c" and i: "storage_inv c"
    and s: "cluster_step E c l d" and l: "\<And>j t. l = Take j t \<Longrightarrow> function_of t \<noteq> Some H_remove"
  shows "storage_inv d \<and> only_grows (tfs (cluster_broker c)) (tfs (cluster_broker d))"
  using s
proof cases
  case (line raw bytes s)
  have "the_broker s = cluster_broker c" by (rule main_iteration_list(2) [OF cluster_invD(1) [OF c] line(3-6)])
  with i line(2) show ?thesis by (simp add: storage_inv_def)
next
  case (takes env j t a s)
  note t = take_step [OF cluster_invD(1) [OF c] takes(6,7)]
  let ?c = "c\<lparr>the_server := (the_server c)\<lparr>task_queue := task_queue s\<rparr>\<rparr>"
  have c': "cluster_inv ?c" using t(1) by (intro cluster_inv_queue [OF c]) simp_all
  have i': "storage_inv ?c" using i by (simp add: storage_inv_def)
  have "(the_server c)\<lparr>task_queue := task_queue s, the_broker := the_broker s\<rparr> = s"
    by (rule server.equality) simp_all
  with storage_takes [OF E [OF takes(3)] c' i', of j t a "the_broker s"] takes t(3) l show ?thesis by simp
next
  case (goes env input j a s)
  note r = in_broker_result [OF goes(5)]
  from storage_goes [OF c p i conjunct1 [OF r]] conjunct2 [OF r] goes(2) show ?thesis by simp
next
  case (wakes j pipe fd)
  then show ?thesis using i by (auto simp: storage_inv_def split: if_splits)
qed

text \<open>An execution in which no box is removed.\<close>

lemma storage_run:
  assumes E: "\<And>env. env \<in> E \<Longrightarrow> blank_memory env" and r: "cluster_run E c ls d"
    and c: "cluster_inv c" "sole_publishers c" "storage_inv c"
    and l: "\<And>j t. Take j t \<in> set ls \<Longrightarrow> function_of t \<noteq> Some H_remove"
  shows "cluster_inv d \<and> sole_publishers d \<and> storage_inv d \<and> only_grows (tfs (cluster_broker c)) (tfs (cluster_broker d))"
  using r l
proof (induction rule: cluster_run.induct)
  case nil
  then show ?case using c by simp
next
  case (snoc ls d l e)
  then have d: "cluster_inv d" "sole_publishers d" "storage_inv d" and
    g: "only_grows (tfs (cluster_broker c)) (tfs (cluster_broker d))" by auto
  have F: "fresh_memory env" if "env \<in> E" for env using E [OF that] by (simp add: blank_memory_def)
  have k: "function_of t \<noteq> Some H_remove" if "l = Take j t" for j t using snoc.prems [of j t] that by simp
  have "cluster_inv e" by (rule cluster_step_inv [OF _ d(1) snoc.hyps(2)]) (rule F)
  moreover have "sole_publishers e" by (rule sole_publishers_step [OF _ d(1,2) snoc.hyps(2)]) (erule F, erule k)
  moreover have "storage_inv e \<and> only_grows (tfs (cluster_broker d)) (tfs (cluster_broker e))"
    by (rule storage_cluster_step [OF _ d snoc.hyps(2)]) (erule E, erule k)
  ultimately show ?case using only_grows_trans [OF g] by blast
qed

section \<open>The start\<close>

lemma started_storage:
  assumes "started n c" and "\<And>b. b \<in> set (server_boxes (cluster_broker c)) \<Longrightarrow> name_of b = []"
  shows "storage_inv c" "sole_publishers c"
proof -
  let ?b = "cluster_broker c"
  from assms(1) obtain h env raw_index s where
    h: "all_granted h" "blank_names h tfs_default_params" "grants env = (\<lambda>_. True)"
      "0 < n" "n < 1073741824" "tfs s = boot" and b: "start_broker h env raw_index n s = Inr ((), ?b)"
    and d: "doing c = (\<lambda>_. Idle)" by (auto simp: started_def)
  from start_broker_exec [OF h] b have "?b = broker_at_start h env raw_index n s" by auto
  then have f: "tfs ?b = init_state h tfs_default_params boot" by (simp add: broker_at_start_def)
  have "dir_find (replicate k ([], - 1)) v = - 1" for k :: nat and v by (induction k) simp_all
  then have "names (tfs ?b) = Map.empty"
    unfolding f names_def using root_dents_init [OF h(2)] by (simp add: tfs_default_params_def fun_eq_iff)
  then show "storage_inv c"
    using assms(2) d by (simp add: storage_inv_def tidy_def entries_ok_def key_def)
  show "sole_publishers c" by (simp add: sole_publishers_def d)
qed

end
