(* ===== verification/Threads_Sessions.thy ===== *)
theory Threads_Sessions
  imports Threads_Correct
begin

text \<open>
  Executions seen from one thread that serves one client, with what this thread does with pipes while
  the others do anything.
\<close>

section \<open>A session\<close>

fun thread_of :: "label \<Rightarrow> nat option" where
  "thread_of (Line b) = None"
| "thread_of (Take j t) = Some j"
| "thread_of (Go j input) = Some j"
| "thread_of (Wake j) = Some j"

text \<open>
  An execution in which the thread \<open>j\<close> serves one client; \<open>es\<close> is what it does with pipes, and the other
  threads do anything.
\<close>

inductive session :: "env set \<Rightarrow> nat \<Rightarrow> cluster \<Rightarrow> label list \<Rightarrow> io list \<Rightarrow> cluster \<Rightarrow> bool" for E j c where
  none: "session E j c [] [] c"
| others: "session E j c ls es d \<Longrightarrow> cluster_step E d l e \<Longrightarrow> thread_of l \<noteq> Some j \<Longrightarrow> session E j c (ls @ [l]) es e"
| own: "session E j c ls es d \<Longrightarrow> cluster_step E d l e \<Longrightarrow> l = Wake j \<or> (\<exists>input. l = Go j input) \<Longrightarrow>
    pipes (cluster_broker e) = pipes (cluster_broker d) @ new \<Longrightarrow> session E j c (ls @ [l]) (es @ new) e"

lemma session_run: "session E j c ls es d \<Longrightarrow> cluster_run E c ls d"
  by (induction rule: session.induct) (auto intro: cluster_run.intros)

text \<open>The log of a broker only grows.\<close>

definition appends_to :: "io list \<Rightarrow> broker \<Rightarrow> bool" where
  "appends_to es s \<longleftrightarrow> (\<exists>new. pipes s = es @ new)"

lemma appends_io [leads_intros]:
  "leads (appends_to es) (log_io e) (appends_to es)" "leads (appends_to es) (in_tfs x) (appends_to es)"
  "leads (appends_to es) (upd_box i g) (appends_to es)" "leads (appends_to es) ignore_sigpipe (appends_to es)"
proof -
  show "leads (appends_to es) (log_io e) (appends_to es)"
    by (rule leadsI) (auto simp: appends_to_def log_io_def modify_def)
  show "leads (appends_to es) (in_tfs x) (appends_to es)"
    by (rule leadsI) (auto simp: appends_to_def in_tfs_def split: sum.splits)
  show "leads (appends_to es) (upd_box i g) (appends_to es)"
    by (rule leadsI) (auto simp: appends_to_def upd_box_def modify_def elim!: call_eq_InrE dest!: get_box_exec')
  show "leads (appends_to es) ignore_sigpipe (appends_to es)"
    by (rule leadsI) (auto simp: appends_to_def ignore_sigpipe_def modify_def)
qed

lemma appends_reads [leads_intros]:
  "(\<And>b. leads (appends_to es) (kb b) Q) \<Longrightarrow> leads (appends_to es) (call (get_box i) kb) Q"
  "(\<And>n. leads (appends_to es) (ki n) Q) \<Longrightarrow> leads (appends_to es) (call (get_index j) ki) Q"
  unfolding get_box_def get_index_def by (rule leads_intros | assumption)+

lemma appends_pipes [leads_intros]:
  "leads (appends_to es) (open_pipe env nm) (appends_to es)" "leads (appends_to es) (my_close env nm) (appends_to es)"
  "leads (appends_to es) (write_pipe env k nm l) (appends_to es)" "leads (appends_to es) (make_line env m c) (appends_to es)"
  unfolding open_pipe_def my_close_def write_pipe_def make_line_def by (rule leads_intros)+

lemma appends_more [leads_intros]:
  "leads (appends_to es) (my_open env nm) (appends_to es)" "leads (appends_to es) finished (appends_to es)"
  "leads (appends_to es) (lock_box i) (appends_to es)" "leads (appends_to es) (unlock_box i) (appends_to es)"
  "leads (appends_to es) (drop_sub i) (appends_to es)"
proof -
  show "leads (appends_to es) (my_open env nm) (appends_to es)"
    unfolding my_open_def by (rule leads_intros leads_call [OF appends_pipes(1)])+
  show "leads (appends_to es) finished (appends_to es)" unfolding finished_def by (rule leads_intros)+
  show "leads (appends_to es) (lock_box i) (appends_to es)" "leads (appends_to es) (unlock_box i) (appends_to es)"
    "leads (appends_to es) (drop_sub i) (appends_to es)"
    unfolding lock_box_def unlock_box_def drop_sub_def by (rule leads_intros)+
qed

lemmas appends_calls = appends_io(2) [THEN leads_call] appends_pipes(3,4) [THEN leads_call]

lemma continue_appends:
  "leads (appends_to es) (continue_task env j input a) (appends_to es)"
proof -
  have p: "leads (appends_to es) (pub_message env j fd bytes) (appends_to es)" for fd bytes
    unfolding pub_message_def by (rule leads_intros appends_calls)+
  have e: "leads (appends_to es) (pub_end env pipe j fd) (appends_to es)" for pipe fd
    unfolding pub_end_def by (rule leads_intros appends_calls)+
  have o: "leads (appends_to es) (pub_open env r) (appends_to es)" "leads (appends_to es) (sub_open env r) (appends_to es)" for r
    unfolding pub_open_def sub_open_def by (rule leads_intros appends_calls leads_call_lift)+
  show ?thesis
    by (cases a; simp only: continue_task.simps; (simp only: sub_read_def sub_sleep_def sub_send_def)?;
      (rule leads_intros appends_calls leads_call [OF p] leads_call [OF o(1)] leads_call [OF o(2)] e | (cases input; simp only: option.case))+)
qed

text \<open>Every execution in which the thread takes no new task is a session of it.\<close>

lemma run_is_session:
  assumes "cluster_run E c ls d" and "\<And>t. Take j t \<notin> set ls"
  shows "\<exists>es. session E j c ls es d"
  using assms
proof (induction rule: cluster_run.induct)
  case nil
  show ?case using session.none by blast
next
  case (snoc ls d l e)
  then obtain es where s: "session E j c ls es d" by auto
  show ?case
  proof (cases "thread_of l = Some j")
    case False
    from session.others [OF s snoc.hyps(2) this] show ?thesis by blast
  next
    case True
    with snoc.prems have l: "l = Wake j \<or> (\<exists>input. l = Go j input)" by (cases l) auto
    have "\<exists>new. pipes (cluster_broker e) = pipes (cluster_broker d) @ new"
      using snoc.hyps(2)
    proof cases
      case (goes env input i a s)
      from in_broker_result [OF goes(5)] have r: "continue_task env i input (doing d i) (cluster_broker d) = Inr (a, the_broker s)" ..
      have "appends_to (pipes (cluster_broker d)) (cluster_broker d)" by (simp add: appends_to_def)
      from leadsD [OF continue_appends this r] show ?thesis by (simp add: goes(2) appends_to_def)
    qed (use l in auto)
    then obtain new where "pipes (cluster_broker e) = pipes (cluster_broker d) @ new" ..
    from session.own [OF s snoc.hyps(2) l this] show ?thesis by blast
  qed
qed

text \<open>When the others do nothing, the session has all that is done with pipes.\<close>

lemma session_alone:
  assumes "session E j c ls es d" and "\<And>l. l \<in> set ls \<Longrightarrow> thread_of l = Some j"
  shows "pipes (cluster_broker d) = pipes (cluster_broker c) @ es"
  using assms by (induction rule: session.induct) auto

end
