(* ===== verification/Threads_Handlers.thy ===== *)
theory Threads_Handlers
  imports Threads_Start
begin

text \<open>
  The steps of a thread against the handlers as they are written in \<open>Broker\<close>: a thread that nobody
  interrupts does exactly what the handler of its task does.
\<close>

section \<open>Publishers and managers\<close>

lemma call_assoc: "call (call m k) l = call m (\<lambda>a. call (k a) l)"
  by (rule ext) (simp add: call_def split: sum.split)

lemma call_If: "call (if c then m else n) k = (if c then call m k else call n k)"
  by simp

lemma call_ret_fun: "call (ret a) k = k a"
  by (rule ext) (simp add: exec_simps)

text \<open>The steps of a publisher until its client closes the pipe, with the lines that it sends.\<close>

fun pub_messages :: "env \<Rightarrow> nat \<Rightarrow> char list list \<Rightarrow> activity \<Rightarrow> activity brop" where
  "pub_messages env j [] (Publishing pipe fd) = continue_task env j None (Publishing pipe fd)"
| "pub_messages env j (bytes # rest) (Publishing pipe fd) =
     call (continue_task env j (Some bytes) (Publishing pipe fd)) (pub_messages env j rest)"
| "pub_messages env j inputs a = ret a"

text \<open>All steps of a thread with a task that is not a subscriber's.\<close>

definition task_alone :: "env \<Rightarrow> nat \<Rightarrow> char list list \<Rightarrow> task \<Rightarrow> activity brop" where
  "task_alone env j inputs t =
     call (start_task env j t) (\<lambda>a.
     case a of
       Registered_pub r \<Rightarrow> call (continue_task env j None a) (pub_messages env j inputs)
     | _ \<Rightarrow> ret a)"

lemma pub_messages_ended: "a = Idle \<or> a = Ended \<Longrightarrow> pub_messages env j inputs a = ret a"
  by (cases inputs) auto

lemma call_finished:
  assumes "\<And>a. a = Idle \<or> a = Ended \<Longrightarrow> k a = ret a"
  shows "call finished k = finished"
  using assms by (intro ext) (simp add: finished_def exec_simps ret_def split: if_splits)

lemma pub_messages_loop:
  "pub_messages env j inputs (Publishing pipe fd) =
     call (pub_loop env pipe j fd inputs) (\<lambda>go_on.
     if go_on then block [pub_end env pipe j fd] finished else finished)"
proof (induction inputs)
  case Nil
  show ?case
    by (rule ext, subst pub_loop.simps)
      (simp add: exec_simps call_assoc call_If call_ret_fun)
next
  case (Cons bytes rest)
  show ?case
    unfolding pub_messages.simps(2) continue_task.simps(2) pub_loop_parts option.case
    by (simp add: call_assoc call_If call_ret_fun Cons.IH call_finished [OF pub_messages_ended]
      cong: if_cong)
qed

lemma call_finished_case:
  "call finished (\<lambda>a. case a of Registered_pub r \<Rightarrow> k r a | _ \<Rightarrow> ret a) = finished"
  by (rule call_finished) auto

lemma if_flip: "(if \<not> c then x else y) = (if c then y else x)"
  by simp

text \<open>A thread that nobody interrupts, with any task but a subscriber's, does in its steps what the
  handler of the task does when it runs from its first line to its last: the same result or the
  same fault in every state of the broker, for every list of lines that a publisher's client sends;
  after it, the thread waits for a task or, after the shutdown, has ended.\<close>

lemma handler_is_its_steps:
  assumes "function_of t \<noteq> Some H_sub"
  shows "block [run_task env fuel j inputs t] finished = task_alone env j inputs t"
proof (cases "\<exists>r. function_of t = Some H_pub \<and> request_of t = Request r")
  case True
  then obtain r where r: "function_of t = Some H_pub" "request_of t = Request r" by blast
  let ?loop = "\<lambda>fd. call (pub_loop env (req_pipe_name r) j fd inputs) (\<lambda>go_on.
    if \<not> go_on then finished else block [pub_end env (req_pipe_name r) j fd] finished)"
  have "call (continue_task env j None (Registered_pub r)) (pub_messages env j inputs) =
      call (pub_open env r) (\<lambda>fd.
      if fd = - 1 then block [my_close env (req_pipe_name r)] finished else ?loop fd)"
    by (simp add: call_assoc call_If call_ret_fun pub_messages_loop call_finished [OF pub_messages_ended] if_flip
      cong: if_cong)
  with r show ?thesis
    by (simp add: task_alone_def start_task_def run_task_def process_pub_parts call_assoc call_If call_ret_fun
      call_finished_case if_flip cong: if_cong)
next
  case False
  have bad: "call (fail Indeterminate) k = (fail Indeterminate :: activity brop)" for k :: "'z \<Rightarrow> activity brop"
    by (rule ext) (simp add: exec_simps fail_def)
  from False assms show ?thesis
    by (cases "function_of t"; cases "the (function_of t)"; cases "request_of t")
      (simp_all add: task_alone_def start_task_def run_task_def call_assoc call_finished_case bad)
qed

section \<open>Subscribers\<close>

text \<open>The steps of one thread, while the others wait.\<close>

inductive steps :: "env set \<Rightarrow> nat \<Rightarrow> activity \<Rightarrow> broker \<Rightarrow> nat \<Rightarrow> activity \<Rightarrow> broker \<Rightarrow> bool" for E j where
  none: "steps E j a s 0 a s"
| one: "env \<in> E \<Longrightarrow> continue_task env j None a s = Inr (b, t) \<Longrightarrow> steps E j b t n d u \<Longrightarrow>
    steps E j a s (Suc n) d u"

lemma steps_cluster:
  assumes "steps E j a s n b t" and "doing c j = a" and "cluster_broker c = s"
  shows "cluster_run E c (replicate n (Go j None))
    \<lparr>the_server = (the_server c)\<lparr>the_broker := t\<rparr>, doing = (doing c)(j := b)\<rparr>"
  using assms
proof (induction arbitrary: c rule: steps.induct)
  case (none a s)
  then have "\<lparr>the_server = (the_server c)\<lparr>the_broker := s\<rparr>, doing = (doing c)(j := a)\<rparr> = c"
    by (intro cluster.equality server.equality) auto
  then show ?case by (simp only: replicate_0 cluster_run.nil)
next
  case (one env a s b t n d u)
  let ?d = "\<lparr>the_server = (the_server c)\<lparr>the_broker := t\<rparr>, doing = (doing c)(j := b)\<rparr>"
  have "in_broker (continue_task env j None (doing c j)) (the_server c) = Inr (b, (the_server c)\<lparr>the_broker := t\<rparr>)"
    unfolding in_broker_def one.prems using one.hyps(2) by simp
  from cluster_step.goes [OF one.hyps(1) _ this] have "cluster_step E c (Go j None) ?d" by simp
  from cluster_run.snoc [OF cluster_run.nil this] have "cluster_run E c [Go j None] ?d" by simp
  from cluster_run_trans [OF _ this] one.IH [of ?d] show ?case by (simp del: fun_upd_apply add: fun_upd_same)
qed

text \<open>The environment in which the \<open>k\<close>-th write of a handler happens.\<close>

definition at_write :: "env \<Rightarrow> nat \<Rightarrow> env" where
  "at_write env k = env\<lparr>write_answer := \<lambda>n. write_answer env (n + k)\<rparr>"

lemma at_write_ops [simp]:
  "write_pipe (at_write env k) 0 = write_pipe env k" "make_line (at_write env k) = make_line env"
  "my_close (at_write env k) = my_close env" "raw_text (at_write env k) = raw_text env"
  by (auto simp: at_write_def write_pipe_def make_line_def my_close_def fun_eq_iff)

definition keeps_pool :: "'a brop \<Rightarrow> bool" where
  "keeps_pool m \<longleftrightarrow> (\<forall>s a t. m s = Inr (a, t) \<longrightarrow> thread_pool t = thread_pool s)"

lemma keeps_poolD: "keeps_pool m \<Longrightarrow> m s = Inr (a, t) \<Longrightarrow> thread_pool t = thread_pool s"
  by (auto simp: keeps_pool_def)

lemma keeps_pool_ops [intro]:
  "keeps_pool (lift r)" "keeps_pool (in_tfs m)" "keeps_pool (make_line env m' c)" "keeps_pool (write_pipe env k nm l)"
  "keeps_pool (lock_box i)" "keeps_pool (unlock_box i)"
proof -
  have u: "keeps_pool (upd_box i f)" "keeps_pool (log_io e)" for i f e
    by (auto simp: keeps_pool_def log_io_def modify_def dest!: upd_box_result)
  show "keeps_pool (lift r)" for r :: "'a res" by (auto simp: keeps_pool_def lift_def split: sum.splits)
  show "keeps_pool (in_tfs m)" by (auto simp: keeps_pool_def in_tfs_def split: sum.splits)
  show "keeps_pool (make_line env m' c)" by (auto simp: keeps_pool_def make_line_def lift_def split: sum.splits)
  show "keeps_pool (write_pipe env k nm l)"
    by (auto simp: keeps_pool_def write_pipe_def gets_def lift_def ret_def fail_def
      split: sum.splits if_splits write_result.splits elim!: call_eq_InrE dest!: keeps_poolD [OF u(2)])
  show "keeps_pool (lock_box i)" "keeps_pool (unlock_box i)"
    by (auto simp: keeps_pool_def lock_box_def unlock_box_def fail_def split: if_splits
      elim!: call_eq_InrE dest!: get_box_exec' keeps_poolD [OF u(1)])
qed

lemma get_index_state: "get_index j s = Inr (i, t) \<Longrightarrow> t = s"
  by (auto simp: get_index_def gets_def lift_def split: sum.splits elim!: call_eq_InrE)

lemma get_index_pool: "get_index j s = Inr (i, s') \<Longrightarrow> thread_pool t = thread_pool s \<Longrightarrow> get_index j t = Inr (i, t)"
  by (auto simp: get_index_def gets_def call_def lift_def split: sum.splits)

text \<open>How a handler that returns ends.\<close>

abbreviation at_end :: "broker \<Rightarrow> activity" where
  "at_end t \<equiv> (if ending t then Ended else Idle)"

lemma finished_exec: "finished t = Inr (at_end t, t)"
  by (simp add: finished_def exec_simps ret_def)

lemma drain_steps:
  assumes E: "\<And>k. at_write env k \<in> E"
  shows "sub_drain fuel env pipe i fd k len teste message s = Inr (d, t) \<Longrightarrow> get_index j s = Inr (i, s) \<Longrightarrow>
    d \<noteq> Some Out_of_fuel \<Longrightarrow>
    (d = None \<longrightarrow> (\<exists>n v te me. v \<le> 0 \<and> thread_pool t = thread_pool s \<and>
      steps E j (Draining pipe fd len teste message) s n (Draining pipe fd v te me) t)) \<and>
    (\<forall>x. d = Some x \<longrightarrow> x = Gone \<and> (\<exists>n. steps E j (Draining pipe fd len teste message) s n (at_end t) t))"
proof (induction fuel arbitrary: k len teste message s)
  case 0
  then show ?case by (simp add: ret_def)
next
  case (Suc fuel)
  let ?D = "Draining pipe fd len teste message"
  note get = Suc.prems(2)
  show ?case
  proof (cases "len \<le> 0")
    case True
    with Suc.prems(1) have "d = None" "t = s" by (simp_all add: ret_def)
    with True show ?thesis using steps.none by fastforce
  next
    case False
    let ?next = "\<lambda>r :: int \<times> char list.
      Draining pipe fd (fst r) (snd r @ replicate (1024 - length (snd r)) NUL) (replicate 1024 NUL)"
    from Suc.prems(1) False obtain msg l w s0 s1 where
      m: "lift (strcpy_to message teste) s = Inr (msg, s)"
      and l: "make_line env (Message \<lparr>msg_code = 10, msg_message = msg\<rparr>) 10 s = Inr (l, s0)"
      and w: "write_pipe env k pipe l s0 = Inr (w, s1)"
      and rest: "(if w = Broken_pipe then
          block [drop_sub i] (call (in_tfs (tfs_close fd)) (\<lambda>_. block [unlock_box i] (ret (Some Gone))))
        else
          call (in_tfs (tfs_read fd 1024)) (\<lambda>r.
          if fst r = - 1 then
            block [drop_sub i, my_close env pipe] (
            call (in_tfs (tfs_close fd)) (\<lambda>_. block [unlock_box i] (ret (Some Gone))))
          else
            sub_drain fuel env pipe i fd (Suc k) (fst r) (snd r @ replicate (1024 - length (snd r)) NUL)
              (replicate 1024 NUL))) s1 = Inr (d, t)"
      by (auto simp: lift_def split: sum.splits elim!: call_eq_InrE)
    have step: "continue_task (at_write env k) j None ?D s =
      (if w = Broken_pipe then
          block [drop_sub i] (call (in_tfs (tfs_close fd)) (\<lambda>_. block [unlock_box i] finished))
        else
          call (in_tfs (tfs_read fd 1024)) (\<lambda>r.
          if fst r = - 1 then
            block [drop_sub i, my_close env pipe] (
            call (in_tfs (tfs_close fd)) (\<lambda>_. block [unlock_box i] finished))
          else ret (?next r))) s1"
      using False by (simp add: sub_send_def call_Inr get m l w cong: if_cong)
    have "(\<exists>r s2. continue_task (at_write env k) j None ?D s = Inr (?next r, s2) \<and> thread_pool s2 = thread_pool s1 \<and>
        sub_drain fuel env pipe i fd (Suc k) (fst r) (snd r @ replicate (1024 - length (snd r)) NUL)
          (replicate 1024 NUL) s2 = Inr (d, t)) \<or>
      d = Some Gone \<and> continue_task (at_write env k) j None ?D s = Inr (at_end t, t)"
      unfolding step using rest
      by (auto simp: exec_simps ret_def finished_exec split: if_splits elim!: call_eq_InrE
        dest: keeps_poolD [OF keeps_pool_ops(2)])
    then show ?thesis
    proof (elim disjE exE conjE)
      fix r s2
      assume r: "continue_task (at_write env k) j None ?D s = Inr (?next r, s2)" "thread_pool s2 = thread_pool s1"
        "sub_drain fuel env pipe i fd (Suc k) (fst r) (snd r @ replicate (1024 - length (snd r)) NUL)
          (replicate 1024 NUL) s2 = Inr (d, t)"
      have p: "thread_pool s2 = thread_pool s"
        using r(2) keeps_poolD [OF keeps_pool_ops(3) l] keeps_poolD [OF keeps_pool_ops(4) w] by simp
      from Suc.IH [OF r(3) get_index_pool [OF get p] Suc.prems(3)] p show ?thesis
        using steps.one [OF E r(1)] by metis
    next
      assume "d = Some Gone" and "continue_task (at_write env k) j None ?D s = Inr (at_end t, t)"
      then show ?thesis using steps.one [OF E _ steps.none] by blast
    qed
  qed
qed

lemma steps_trans: "steps E j a s n b t \<Longrightarrow> steps E j b t m d u \<Longrightarrow> steps E j a s (n + m) d u"
  by (induction rule: steps.induct) (auto intro: steps.one)

lemma loop_steps:
  assumes E: "\<And>k. at_write env k \<in> E"
  shows "sub_loop fuel env pipe j fd s = Inr (x, t) \<Longrightarrow> x \<noteq> Out_of_fuel \<Longrightarrow>
    \<exists>n. steps E j (Entering pipe fd) s n (if x = Waiting then Sleeping pipe fd else at_end t) t"
proof (induction fuel arbitrary: s)
  case 0
  then show ?case by (simp add: ret_def)
next
  case (Suc fuel)
  let ?text = "\<lambda>r :: int \<times> char list. snd r @ drop (length (snd r)) (raw_text env)"
  from Suc.prems(1) obtain i s0 s1 r s2 where
    g0: "get_index j s = Inr (i, s0)" and k: "lock_box i s0 = Inr ((), s1)"
    and rd: "in_tfs (tfs_read fd 1024) s1 = Inr (r, s2)"
    and rest: "(if fst r = 0 then block [unlock_box i] (ret Waiting)
      else call (gets ending) (\<lambda>e.
        if e then
          block [unlock_box i, my_close env pipe] (call (in_tfs (tfs_close fd)) (\<lambda>_. ret Gone))
        else if fst r = - 1 then
          block [drop_sub i, my_close env pipe] (
          call (in_tfs (tfs_close fd)) (\<lambda>_. block [unlock_box i] (ret Gone)))
        else
          call (sub_drain fuel env pipe i fd 0 (fst r) (?text r) (raw_text env)) (\<lambda>d.
          case d of
            Some x \<Rightarrow> ret x
          | None \<Rightarrow> block [unlock_box i] (sub_loop fuel env pipe j fd)))) s2 = Inr (x, t)"
    by (auto elim!: call_eq_InrE)
  from get_index_state [OF g0] g0 k have get: "get_index j s = Inr (i, s)" and k: "lock_box i s = Inr ((), s1)"
    by simp_all
  have p: "thread_pool s2 = thread_pool s"
    using keeps_poolD [OF keeps_pool_ops(2) rd] keeps_poolD [OF keeps_pool_ops(5) k] by simp
  note get2 = get_index_pool [OF get p]
  have step: "continue_task (at_write env 0) j None (Entering pipe fd) s =
     (if fst r = 0 then ret (Seen_nothing pipe fd)
      else call (gets ending) (\<lambda>e.
        if e then
          block [unlock_box i, my_close env pipe] (call (in_tfs (tfs_close fd)) (\<lambda>_. finished))
        else if fst r = - 1 then
          block [drop_sub i, my_close env pipe] (
          call (in_tfs (tfs_close fd)) (\<lambda>_. block [unlock_box i] finished))
        else ret (Draining pipe fd (fst r) (?text r) (raw_text env)))) s2"
    by (simp add: sub_read_def call_Inr get k rd cong: if_cong)
  consider (empty) "fst r = 0" | (gone) "fst r \<noteq> 0" "ending s2 \<or> fst r = - 1"
    | (line) "fst r \<noteq> 0" "\<not> ending s2" "fst r \<noteq> - 1" by blast
  then show ?case
  proof cases
    case empty
    with step have "continue_task (at_write env 0) j None (Entering pipe fd) s = Inr (Seen_nothing pipe fd, s2)"
      by (simp add: ret_def)
    moreover from rest empty have "continue_task (at_write env 0) j None (Seen_nothing pipe fd) s2 =
        Inr (Sleeping pipe fd, t)" "x = Waiting"
      by (auto simp: sub_sleep_def call_Inr get2 ret_def exec_simps elim!: call_eq_InrE)
    ultimately show ?thesis using steps.one [OF E _ steps.one [OF E _ steps.none]] by fastforce
  next
    case gone
    with rest step have "continue_task (at_write env 0) j None (Entering pipe fd) s = Inr (at_end t, t)" "x = Gone"
      by (auto simp: exec_simps ret_def finished_exec split: if_splits elim!: call_eq_InrE)
    then show ?thesis using steps.one [OF E _ steps.none] by fastforce
  next
    case line
    with step have first: "continue_task (at_write env 0) j None (Entering pipe fd) s =
        Inr (Draining pipe fd (fst r) (?text r) (raw_text env), s2)" by (simp add: exec_simps ret_def)
    from rest line obtain d s3 where d: "sub_drain fuel env pipe i fd 0 (fst r) (?text r) (raw_text env) s2 = Inr (d, s3)"
      "(case d of Some x \<Rightarrow> ret x | None \<Rightarrow> block [unlock_box i] (sub_loop fuel env pipe j fd)) s3 = Inr (x, t)"
      by (auto simp: exec_simps simp del: block.simps elim!: call_eq_InrE)
    then have "d \<noteq> Some Out_of_fuel" using Suc.prems(2) by (auto simp: ret_def)
    note drained = drain_steps [OF E d(1) get2 this]
    show ?thesis
    proof (cases d)
      case (Some y)
      with d(2) drained show ?thesis using steps.one [OF E first] by (fastforce simp: ret_def)
    next
      case None
      with drained obtain n v te me where n: "v \<le> 0" "thread_pool s3 = thread_pool s2"
        "steps E j (Draining pipe fd (fst r) (?text r) (raw_text env)) s2 n (Draining pipe fd v te me) s3" by blast
      from d(2) None obtain s4 where s4: "unlock_box i s3 = Inr ((), s4)" "sub_loop fuel env pipe j fd s4 = Inr (x, t)"
        by (auto elim!: call_eq_InrE)
      have "continue_task (at_write env 0) j None (Draining pipe fd v te me) s3 = Inr (Entering pipe fd, s4)"
        using n(1) s4(1) by (simp add: sub_send_def call_Inr get_index_pool [OF get2 n(2)] exec_simps ret_def)
      from Suc.IH [OF s4(2) Suc.prems(2)] steps_trans [OF n(3) steps.one [OF E this]] show ?thesis
        using steps.one [OF E first] by blast
    qed
  qed
qed

text \<open>A subscriber that nobody interrupts does in its steps what \<open>process_sub\<close> does from the moment
  it gets the lock of its box to the moment it sleeps, or returns: whatever the result of the loop,
  the broker with its threads can reach the same state by steps of this thread only, and the thread
  then sleeps, or waits for a task, or has ended.\<close>

lemma subscriber_is_its_steps:
  assumes "doing c j = Entering pipe fd" and "sub_loop fuel env pipe j fd (cluster_broker c) = Inr (x, t)"
    and "x \<noteq> Out_of_fuel" and "\<And>k. at_write env k \<in> E"
  shows "\<exists>n. cluster_run E c (replicate n (Go j None))
    \<lparr>the_server = (the_server c)\<lparr>the_broker := t\<rparr>,
     doing = (doing c)(j := (if x = Waiting then Sleeping pipe fd else if ending t then Ended else Idle))\<rparr>"
  using loop_steps [OF assms(4,2,3)] steps_cluster [OF _ assms(1) refl] by blast

end
