(* ===== verification/Threads_Serving.thy ===== *)
theory Threads_Serving
  imports Threads_Files Threads_Sessions Threads_Handlers
begin

text \<open>
  The thread of a subscriber, step by step: where it is in the file of its box, and which messages it
  has sent.
\<close>

section \<open>Messages in a file\<close>

lemma stored_cut:
  assumes "stored ms = c @ zs" and "c = [] \<or> last c = NUL" and "\<And>m. m \<in> set ms \<Longrightarrow> NUL \<notin> set m"
  shows "\<exists>n. c = stored (take n ms) \<and> zs = stored (drop n ms)"
  using assms
proof (induction ms arbitrary: c)
  case Nil
  then show ?case by simp
next
  case (Cons m ms)
  show ?case
  proof (cases "c = []")
    case True
    with Cons.prems(1) show ?thesis by (intro exI [of _ 0]) simp
  next
    case False
    with Cons.prems(2) obtain b where b: "c = b @ [NUL]" by (metis append_butlast_last_id)
    have m: "NUL \<notin> set m" using Cons.prems(3) by simp
    from Cons.prems(1) b have eq: "m @ NUL # stored ms = b @ NUL # zs" by simp
    then consider us where "m = b @ us" "us @ NUL # stored ms = NUL # zs" | us where "m @ us = b" "NUL # stored ms = us @ NUL # zs"
      by (auto simp: append_eq_append_conv2)
    then show ?thesis
    proof cases
      case 1
      with m have "us = []" by (cases us) auto
      with 1 b show ?thesis by (intro exI [of _ 1]) simp
    next
      case 2
      show ?thesis
      proof (cases us)
        case Nil
        with 2 b show ?thesis by (intro exI [of _ 1]) simp
      next
        case (Cons x xs)
        with 2 have x: "stored ms = (xs @ [NUL]) @ zs" "c = m @ NUL # (xs @ [NUL])" by (simp_all add: b)
        from Cons.IH [OF x(1)] Cons.prems(3) obtain n where "xs @ [NUL] = stored (take n ms)" "zs = stored (drop n ms)" by auto
        with x show ?thesis by (intro exI [of _ "Suc n"]) simp
      qed
    qed
  qed
qed

text \<open>The files that hold the messages \<open>ms\<close> and have room for more.\<close>

definition holds :: "tfs_state \<Rightarrow> nat \<Rightarrow> string list \<Rightarrow> bool" where
  "holds f k ms \<longleftrightarrow> contents f k = stored ms \<and> length (stored ms) < BLOCK_SIZE f \<and> (\<forall>m \<in> set ms. message_ok m)"

lemma holdsD:
  assumes "holds f k ms"
  shows "contents f k = stored ms" "length (stored ms) < BLOCK_SIZE f" "m \<in> set ms \<Longrightarrow> message_ok m"
  using assms by (simp_all add: holds_def)

lemma stored_Nil [simp]: "stored ms = [] \<longleftrightarrow> ms = []"
  by (cases ms) simp_all

lemma stored_last: "ms \<noteq> [] \<Longrightarrow> last (stored ms) = NUL"
  by (induction ms) (auto simp: stored_def)

text \<open>What such a file held before.\<close>

lemma holds_before:
  assumes h: "holds g k ms" and f: "tidy f" "names f w = Some k" and g: "only_grows f g"
  shows "\<exists>n. holds f k (take n ms)"
proof -
  from only_growsD(4) [OF g f(2)] obtain zs where zs: "contents g k = contents f k @ zs" by blast
  have len: "length (contents f k) < BLOCK_SIZE f"
    using arg_cong [OF trans [OF zs [symmetric] holdsD(1) [OF h]], of length] holdsD(2) [OF h] only_growsD(1) [OF g]
    by simp
  with tidyD(3) [OF f] have "contents f k = [] \<or> last (contents f k) = NUL" by (auto simp: whole_def)
  moreover have "NUL \<notin> set m" if "m \<in> set ms" for m using holdsD(3) [OF h that] by (simp add: message_ok_def)
  ultimately obtain n where "contents f k = stored (take n ms)"
    using stored_cut [of ms "contents f k" zs] holdsD(1) [OF h] zs by metis
  with len holdsD(3) [OF h] show ?thesis by (intro exI [of _ n]) (auto simp: holds_def dest: in_set_takeD)
qed

section \<open>Reads\<close>

definition at_file :: "tfs_state \<Rightarrow> nat \<Rightarrow> nat \<Rightarrow> nat \<Rightarrow> bool" where
  "at_file f h k off \<longleftrightarrow> fs_kept f \<and> spare_zero f \<and> is_open f (int h) \<and> file_of f h = k \<and> freeinode_ts f ! k = TAKEN \<and>
     offset_of f h = off"

lemma at_file_reads:
  assumes "at_file f h k off" and "holds f k ms" and "ms \<noteq> []"
  shows "reads_file f h k (stored ms) off"
proof -
  note a = assms(1) [unfolded at_file_def]
  have i: "fs_inv f" "idle f" using a fs_keptD by blast+
  have "contents f (file_of f h) \<noteq> []" using a holdsD(1) [OF assms(2)] assms(3) by simp
  moreover have "contents f (file_of f h) = stored ms" using a holdsD(1) [OF assms(2)] by simp
  ultimately have "fs_data f (read_base f h + length (stored ms)) = NUL"
    using spare_zero_next_byte [OF _ i(1), of h] a holdsD(2) [OF assms(2)] by (simp del: length_contents)
  with a i holdsD(1,2) [OF assms(2)] show ?thesis by (simp add: reads_file_def)
qed

text \<open>Nothing to read, at the end of the file or before the zero byte that ends it.\<close>

lemma read_nothing:
  assumes a: "at_file f h k off" and h: "holds f k ms" and off: "off = length (stored ms) \<or> ms \<noteq> [] \<and> Suc off = length (stored ms)"
  shows "\<exists>g. tfs_read (int h) 1024 f = Inr ((0, []), g) \<and> offset_of g h = length (stored ms) \<and> file_of g h = k"
proof (cases "ms = []")
  case True
  note d = a [unfolded at_file_def]
  have i: "fs_inv f" "idle f" using d fs_keptD by blast+
  have "i_size (inode_table f ! k) = 0" using arg_cong [OF holdsD(1) [OF h], of length] True by simp
  then have am: "read_amount f h 1024 = 0" using d by (simp add: read_amount_def)
  have "i_size (inode_table f ! file_of f h) = 0" "offset_of f h = 0" using \<open>i_size _ = 0\<close> d off True by auto
  with tfs_read_exec [OF i, of h 1024] d am True show ?thesis by auto
next
  case False
  note r = at_file_reads [OF a h False]
  show ?thesis
  proof (cases "off = length (stored ms)")
    case True
    with read_behind r reads_fileD(4,7) [OF r] show ?thesis by auto
  next
    case f: False
    with off have "Suc off = length (stored ms)" by simp
    from read_end [OF r this stored_last [OF False]] advanced_handle(1,2) [OF reads_fileD(1,3) [OF r]] reads_fileD(4) [OF r] show ?thesis by auto
  qed
qed

lemma read_one:
  assumes a: "at_file f h k off" and h: "holds f k (sent @ m # rest)"
    and off: "off = length (stored sent) \<or> sent \<noteq> [] \<and> Suc off = length (stored sent)"
  shows "\<exists>g. tfs_read (int h) 1024 f = Inr ((int (length m), m), g) \<and> offset_of g h = length (stored sent) + length m \<and>
    file_of g h = k"
proof -
  from at_file_reads [OF a h] have r: "reads_file f h k (stored sent @ m @ NUL # stored rest) off" by simp
  have m: "message_ok m" using holdsD(3) [OF h] by simp
  from off stored_last have "off = length (stored sent) \<or> Suc off = length (stored sent) \<and> last (stored sent) = NUL" by blast
  from read_next [OF r m this] advanced_handle(1,2) [OF reads_fileD(1,3) [OF r]] reads_fileD(4) [OF r] show ?thesis by auto
qed

section \<open>The steps of a subscriber\<close>

text \<open>What was written to pipes.\<close>

definition sends :: "io list \<Rightarrow> io list" where
  "sends es = filter (\<lambda>e. case e of Sent p l \<Rightarrow> True | _ \<Rightarrow> False) es"

lemma sends_simps [simp]:
  "sends [] = []" "sends (es @ fs) = sends es @ sends fs" "sends (Opened p # es) = sends es"
  "sends (Closed p # es) = sends es" "sends (Sent p l # es) = Sent p l # sends es"
  by (simp_all add: sends_def)

definition message_sent :: "char list \<Rightarrow> string \<Rightarrow> io" where
  "message_sent pipe m = Sent (c_string pipe) (message_line m)"

text \<open>
  A thread that has sent the messages \<open>sent\<close> of the file that holds \<open>ms\<close>: its handle is behind them, or,
  with the next message in its buffer, behind the text of that one.
\<close>

fun serving :: "char list \<Rightarrow> nat \<Rightarrow> string list \<Rightarrow> string list \<Rightarrow> tfs_state \<Rightarrow> activity \<Rightarrow> bool" where
  "serving p h ms sent f (Entering q fd) \<longleftrightarrow> q = p \<and> fd = int h \<and> offset_of f h = length (stored sent)"
| "serving p h ms sent f (Seen_nothing q fd) \<longleftrightarrow> q = p \<and> fd = int h \<and> offset_of f h = length (stored sent)"
| "serving p h ms sent f (Sleeping q fd) \<longleftrightarrow> q = p \<and> fd = int h \<and> offset_of f h = length (stored sent)"
| "serving p h ms sent f (Draining q fd v teste message) \<longleftrightarrow> q = p \<and> fd = int h \<and> message = zeros \<and>
     (v = 0 \<and> offset_of f h = length (stored sent) \<or>
      (\<exists>m rest. ms = sent @ m # rest \<and> v = int (length m) \<and> teste = text_array m \<and>
         offset_of f h = length (stored sent) + length m))"
| "serving p h ms sent f Idle \<longleftrightarrow> True"
| "serving p h ms sent f Ended \<longleftrightarrow> True"
| "serving p h ms sent f a \<longleftrightarrow> False"

text \<open>Operations that write to no pipe.\<close>

definition silent :: "io list \<Rightarrow> broker \<Rightarrow> bool" where
  "silent es s \<longleftrightarrow> sends (pipes s) = es"

lemma silent_ops [leads_intros]:
  "leads (silent es) (my_close env p) (silent es)" "leads (silent es) (in_tfs x) (silent es)"
  "leads (silent es) (upd_box i g) (silent es)" "leads (silent es) (lock_box i) (silent es)"
  "leads (silent es) (unlock_box i) (silent es)" "leads (silent es) (drop_sub i) (silent es)"
  "leads (silent es) finished (silent es)"
proof -
  have b: "leads (silent es) (upd_box i g) (silent es)" for i g
    by (rule leadsI) (auto simp: silent_def upd_box_def modify_def elim!: call_eq_InrE dest!: get_box_exec')
  show "leads (silent es) (my_close env p) (silent es)"
    by (rule leadsI) (auto simp: silent_def my_close_def log_io_def modify_def lift_def ret_def fail_def
      split: sum.splits if_splits elim!: call_eq_InrE)
  show "leads (silent es) (in_tfs x) (silent es)"
    by (rule leadsI) (auto simp: silent_def in_tfs_def split: sum.splits)
  show "leads (silent es) (upd_box i g) (silent es)" by (rule b)
  have g: "leads (silent es) (call (get_box i) k) (silent es)" if "\<And>b. leads (silent es) (k b) (silent es)" for i k
    unfolding get_box_def by (rule leads_intros that)+
  show "leads (silent es) (lock_box i) (silent es)" "leads (silent es) (unlock_box i) (silent es)"
    "leads (silent es) (drop_sub i) (silent es)"
    unfolding lock_box_def unlock_box_def drop_sub_def by (rule leads_intros b g)+
  show "leads (silent es) finished (silent es)" unfolding finished_def by (rule leads_intros)+
qed

lemma silentD: "leads (silent es) m (silent es) \<Longrightarrow> m s = Inr (a, t) \<Longrightarrow> sends (pipes s) = es \<Longrightarrow> sends (pipes t) = es"
  by (auto simp: silent_def dest: leadsD)

lemma ends_idle: "block ms finished s = Inr (a, t) \<Longrightarrow> serving p h xs sent f a"
  by (induction ms arbitrary: s) (auto elim!: call_eq_InrE dest!: finished_result)

lemma in_tfs_read_eq:
  "call (in_tfs (tfs_read d n)) k s = r \<Longrightarrow> tfs_read d n (tfs s) = Inr (a, f) \<Longrightarrow> k a (s\<lparr>tfs := f\<rparr>) = r"
  by (simp add: in_tfs_read)

lemma at_file_tfs: "at_file (tfs s) h k off \<Longrightarrow> tfs s' = tfs s \<Longrightarrow> at_file (tfs s') h k off"
  by simp

lemma sub_read_serves:
  assumes a: "at_file (tfs s) h k (length (stored sent))" and ms: "holds (tfs s) k ms" "ms = sent @ rest"
    and raw: "raw_text env = zeros" and r: "sub_read env p j (int h) s = Inr (a, t)"
  shows "serving p h ms sent (tfs t) a \<and> sends (pipes t) = sends (pipes s) \<and> (handle_in a \<noteq> None \<longrightarrow> file_of (tfs t) h = k)"
proof -
  let ?k = "\<lambda>i. call (in_tfs (tfs_read (int h) 1024)) (\<lambda>r.
     if fst r = 0 then ret (Seen_nothing p (int h))
     else
       call (gets ending) (\<lambda>e.
       if e then
         block [unlock_box i, my_close env p] (call (in_tfs (tfs_close (int h))) (\<lambda>_. finished))
       else if fst r = - 1 then
         block [drop_sub i, my_close env p] (
         call (in_tfs (tfs_close (int h))) (\<lambda>_. block [unlock_box i] finished))
       else
         ret (Draining p (int h) (fst r) (snd r @ drop (length (snd r)) (raw_text env)) (raw_text env))))"
  from r obtain i s0 where i: "get_index j s = Inr (i, s0)" "block [lock_box i] (?k i) s0 = Inr (a, t)"
    unfolding sub_read_def by (rule call_eq_InrE)
  from i(2) get_index_state [OF i(1)] obtain s1 where l: "lock_box i s = Inr ((), s1)" and k: "?k i s1 = Inr (a, t)"
    by (simp only: block.simps) (erule call_eq_InrE, simp)
  have s1: "tfs s1 = tfs s" using l keeps_tfs_ops(6) by (auto simp: keeps_tfs_def)
  have p1: "sends (pipes s1) = sends (pipes s)" by (rule silentD [OF silent_ops(4) l]) simp
  show ?thesis
  proof (cases rest)
    case Nil
    with read_nothing [OF a ms(1)] ms(2) obtain g where
      g: "tfs_read (int h) 1024 (tfs s1) = Inr ((0, []), g)" "offset_of g h = length (stored sent)" "file_of g h = k" by (auto simp: s1)
    from in_tfs_read_eq [OF k g(1)] have "a = Seen_nothing p (int h)" "t = s1\<lparr>tfs := g\<rparr>" by (simp_all add: ret_def)
    with g(2,3) p1 show ?thesis by simp
  next
    case (Cons m rest')
    with read_one [OF a, of sent m rest'] ms obtain g where
      g: "tfs_read (int h) 1024 (tfs s1) = Inr ((int (length m), m), g)" "offset_of g h = length (stored sent) + length m"
      "file_of g h = k" by (auto simp: s1)
    have m: "m \<noteq> []" "length m < 1024" using holdsD(3) [OF ms(1), of m] ms(2) Cons by (simp_all add: message_ok_def)
    let ?s = "s1\<lparr>tfs := g\<rparr>"
    show ?thesis
    proof (cases "ending ?s")
      case True
      with in_tfs_read_eq [OF k g(1)] m
      have e: "block [unlock_box i, my_close env p] (call (in_tfs (tfs_close (int h))) (\<lambda>_. finished)) ?s = Inr (a, t)"
        by (simp add: call_gets del: block.simps)
      have "leads (silent es) (block [unlock_box i, my_close env p] (call (in_tfs (tfs_close (int h))) (\<lambda>_. finished))) (silent es)" for es
        by (rule leads_intros leads_call [OF silent_ops(2)])+
      from silentD [OF this e] p1 have "sends (pipes t) = sends (pipes s)" by simp
      moreover have "serving p h ms sent (tfs t) a \<and> handle_in a = None"
        using e by (auto elim!: call_eq_InrE dest!: finished_result)
      ultimately show ?thesis by simp
    next
      case False
      with in_tfs_read_eq [OF k g(1)] m raw
      have "a = Draining p (int h) (int (length m)) (text_array m) zeros" "t = ?s"
        by (simp_all add: call_gets ret_def text_array_def)
      with g(2,3) p1 Cons ms(2) show ?thesis by simp
    qed
  qed
qed

lemma sub_sleep_serves:
  assumes r: "sub_sleep p j (int h) s = Inr (a, t)" and off: "offset_of (tfs s) h = length (stored sent)"
  shows "serving p h ms sent (tfs t) a \<and> sends (pipes t) = sends (pipes s) \<and> tfs t = tfs s"
proof -
  from r obtain i where u: "unlock_box i s = Inr ((), t)" "a = Sleeping p (int h)"
    by (auto simp: sub_sleep_def ret_def elim!: call_eq_InrE dest!: get_index_state)
  from u(1) keeps_tfs_ops(7) have "tfs t = tfs s" by (auto simp: keeps_tfs_def)
  moreover have "sends (pipes t) = sends (pipes s)" by (rule silentD [OF silent_ops(5) u(1)]) simp
  ultimately show ?thesis using u(2) off by simp
qed

text \<open>The answers of the client's end of the pipe: it takes the whole line, or it is closed.\<close>

definition healthy :: "env \<Rightarrow> bool" where
  "healthy env \<longleftrightarrow> blank_memory env \<and> env_ok env \<and> raw_text env = zeros \<and>
     (\<forall>k. write_answer env k = Wrote MAX_LINE \<or> write_answer env k = Broken_pipe)"

lemma line_sent:
  assumes e: "healthy env" and m: "message_ok m"
    and r: "call (lift (strcpy_to zeros (text_array m))) (\<lambda>msg.
      call (make_line env (Message \<lparr>msg_code = 10, msg_message = msg\<rparr>) 10) (\<lambda>l.
      call (write_pipe env k pipe l) f)) s = Inr (a, t)"
  shows "f (Wrote MAX_LINE) (logged [message_sent pipe m] s) = Inr (a, t) \<or> f Broken_pipe s = Inr (a, t)"
proof -
  have mo: "NUL \<notin> set m" "length m < 1024" using m by (simp_all add: message_ok_def)
  note ta = text_array_facts [OF mo]
  have c: "strcpy_to zeros (text_array m) = Inr (text_array m)"
    using strcpy_to_exec [OF ta(2), of zeros] ta mo by simp
  have w: "well_formed (Message \<lparr>msg_code = 10, msg_message = text_array m\<rparr>)"
    using ta by (simp add: message_codes_def)
  have len: "length (message_line m) = MAX_LINE" using message_line_carries [OF m] by (simp add: carries_def)
  from r w e have "call (write_pipe env k pipe (message_line m)) f s = Inr (a, t)"
    by (simp add: c exec_simps healthy_def message_line_def del: layout.simps well_formed.simps)
  then obtain x s1 where x: "write_pipe env k pipe (message_line m) s = Inr (x, s1)" "f x s1 = Inr (a, t)"
    by (rule call_eq_InrE)
  from x(1) have "x = Wrote MAX_LINE \<and> s1 = logged [message_sent pipe m] s \<or> x = Broken_pipe \<and> s1 = s"
  proof (cases "write_answer env k = Broken_pipe")
    case True
    with x(1) show ?thesis
      by (auto simp: write_pipe_def lift_def gets_def ret_def fail_def elim!: call_eq_InrE split: if_splits sum.splits)
  next
    case False
    with e have "write_answer env k = Wrote MAX_LINE" by (auto simp: healthy_def)
    with x(1) len show ?thesis
      by (auto simp: write_pipe_def c_arg_def lift_def gets_def log_io_def modify_def ret_def logged_def message_sent_def
        elim!: call_eq_InrE split: if_splits)
  qed
  with x(2) show ?thesis by auto
qed

text \<open>The subscriber's pipe was closed: the thread gives up its place and its handle.\<close>

lemma sub_gone:
  assumes "block [drop_sub i] (call (in_tfs (tfs_close fd)) (\<lambda>_. block [unlock_box i] finished)) s = Inr (a, t)"
  shows "serving p h ms sent (tfs t) a \<and> sends (pipes t) = sends (pipes s) \<and> handle_in a = None"
proof -
  have "leads (silent es) (block [drop_sub i] (call (in_tfs (tfs_close fd)) (\<lambda>_. block [unlock_box i] finished))) (silent es)" for es
    by (rule leads_intros leads_call [OF silent_ops(2)])+
  from silentD [OF this assms] have "sends (pipes t) = sends (pipes s)" by simp
  with assms show ?thesis by (auto elim!: call_eq_InrE dest!: finished_result)
qed

text \<open>What follows a message that was sent: the read of the next one.\<close>

lemma sub_next:
  assumes a: "at_file (tfs s) h k off" and ms: "holds (tfs s) k (sent @ rest)"
    and off: "sent \<noteq> []" "Suc off = length (stored sent)"
    and r: "call (in_tfs (tfs_read (int h) 1024)) (\<lambda>r. if fst r = - 1 then gone
      else ret (Draining p (int h) (fst r) (snd r @ replicate (1024 - length (snd r)) NUL) zeros)) s = Inr (a, t)"
  shows "serving p h (sent @ rest) sent (tfs t) a \<and> pipes t = pipes s \<and> file_of (tfs t) h = k"
proof (cases rest)
  case Nil
  with read_nothing [OF a ms] off obtain g where
    g: "tfs_read (int h) 1024 (tfs s) = Inr ((0, []), g)" "offset_of g h = length (stored sent)" "file_of g h = k" by auto
  from in_tfs_read_eq [OF r g(1)] have "a = Draining p (int h) 0 zeros zeros" "t = s\<lparr>tfs := g\<rparr>" by (simp_all add: ret_def)
  with g(2,3) show ?thesis by simp
next
  case (Cons m rest')
  from read_one [OF a, of sent m rest'] ms Cons off obtain g where
    g: "tfs_read (int h) 1024 (tfs s) = Inr ((int (length m), m), g)"
      "offset_of g h = length (stored sent) + length m" "file_of g h = k" by auto
  from in_tfs_read_eq [OF r g(1)] have "a = Draining p (int h) (int (length m)) (text_array m) zeros" "t = s\<lparr>tfs := g\<rparr>"
    by (simp_all add: ret_def text_array_def)
  with g(2,3) Cons show ?thesis by simp
qed

lemma sub_send_serves:
  assumes e: "healthy env" and a: "at_file (tfs s) h k (offset_of (tfs s) h)" and ms: "holds (tfs s) k ms" "ms = sent @ rest"
    and d: "serving p h ms sent (tfs s) (Draining q fd v teste message)"
    and r: "sub_send env q j fd v teste message s = Inr (a, t)"
  shows "\<exists>new. serving p h ms (sent @ new) (tfs t) a \<and> (\<exists>rest'. ms = (sent @ new) @ rest') \<and>
    sends (pipes t) = sends (pipes s) @ map (message_sent p) new \<and> (handle_in a \<noteq> None \<longrightarrow> file_of (tfs t) h = k)"
proof -
  from d have q: "q = p" "fd = int h" "message = zeros" by simp_all
  from r obtain i s0 where i: "get_index j s = Inr (i, s0)" "(if v \<le> 0 then block [unlock_box i] (ret (Entering q fd))
     else
       call (lift (strcpy_to message teste)) (\<lambda>msg.
       call (make_line env (Message \<lparr>msg_code = 10, msg_message = msg\<rparr>) 10) (\<lambda>l.
       call (write_pipe env 0 q l) (\<lambda>w.
       if w = Broken_pipe then
         block [drop_sub i] (
         call (in_tfs (tfs_close fd)) (\<lambda>_. block [unlock_box i] finished))
       else
         call (in_tfs (tfs_read fd 1024)) (\<lambda>r.
         if fst r = - 1 then
           block [drop_sub i, my_close env q] (
           call (in_tfs (tfs_close fd)) (\<lambda>_. block [unlock_box i] finished))
         else
           ret (Draining q fd (fst r) (snd r @ replicate (1024 - length (snd r)) NUL)
             (replicate 1024 NUL))))))) s0 = Inr (a, t)"
    unfolding sub_send_def by (rule call_eq_InrE)
  note k = i(2) [unfolded get_index_state [OF i(1)] q]
  show ?thesis
  proof (cases "v \<le> 0")
    case True
    with d have v: "offset_of (tfs s) h = length (stored sent)" using holdsD(3) [OF ms(1)] by (auto simp: message_ok_def)
    from k True obtain u where u: "unlock_box i s = Inr ((), u)" "a = Entering p (int h)" "t = u"
      by (auto simp: ret_def elim!: call_eq_InrE)
    from u(1) keeps_tfs_ops(7) have "tfs u = tfs s" by (auto simp: keeps_tfs_def)
    moreover have "sends (pipes u) = sends (pipes s)" by (rule silentD [OF silent_ops(5) u(1)]) simp
    moreover have "file_of (tfs s) h = k" using a by (simp add: at_file_def)
    ultimately show ?thesis using u v ms(2) by (intro exI [of _ "[]"]) simp
  next
    case False
    with d obtain m rest' where m: "ms = (sent @ [m]) @ rest'" "teste = text_array m"
      "Suc (offset_of (tfs s) h) = length (stored (sent @ [m]))" by auto
    have mo: "message_ok m" using holdsD(3) [OF ms(1), of m] m(1) by simp
    let ?s = "logged [message_sent p m] s"
    have tf: "tfs ?s = tfs s" by (simp add: logged_def)
    from line_sent [OF e mo k [unfolded if_not_P [OF False] m(2)]]
    consider "block [drop_sub i] (call (in_tfs (tfs_close (int h))) (\<lambda>_. block [unlock_box i] finished)) s = Inr (a, t)"
      | "call (in_tfs (tfs_read (int h) 1024)) (\<lambda>r.
         if fst r = - 1 then
           block [drop_sub i, my_close env p] (
           call (in_tfs (tfs_close (int h))) (\<lambda>_. block [unlock_box i] finished))
         else
           ret (Draining p (int h) (fst r) (snd r @ replicate (1024 - length (snd r)) NUL) zeros)) ?s = Inr (a, t)"
      by (auto simp only: if_True if_False write_result.distinct simp_thms)
    then show ?thesis
    proof cases
      case 1
      from sub_gone [OF 1] ms(2) show ?thesis by (intro exI [of _ "[]"]) simp
    next
      case 2
      from sub_next [OF a [folded tf] ms(1) [folded tf, unfolded m(1)] _ m(3) [folded tf] 2] m(1) show ?thesis
        by (intro exI [of _ "[m]"]) (simp add: logged_def message_sent_def)
    qed
  qed
qed

end
