(* ===== verification/Threads_Demo.thy ===== *)
theory Threads_Demo
  imports Threads_Files Threads_Sessions
begin

text \<open>
  The execution of \<open>Threads_Start\<close> goes on: the publisher opens its box and sends a message; a
  subscriber registers with the box and opens it.
\<close>

lemma go_step:
  assumes "env \<in> E" and "case input of None \<Rightarrow> True | Some bytes \<Rightarrow> length bytes \<le> MAX_LINE"
    and "continue_task env j input (doing c j) (cluster_broker c) = Inr (a, t)"
  shows "cluster_step E c (Go j input) \<lparr>the_server = (the_server c)\<lparr>the_broker := t\<rparr>, doing = (doing c)(j := a)\<rparr>"
  by (rule cluster_step.goes [OF assms(1,2)]) (simp add: in_broker_def assms(3))

lemma pub_open_exec:
  assumes "tfs_open (Some (c_string (req_box_name r))) TFS_O_APPEND (tfs s) = Inr (fd, f)"
    and "NUL \<in> set (req_box_name r)" "NUL \<in> set (req_pipe_name r)" "can_open env (c_string (req_pipe_name r))"
  shows "\<exists>es. pub_open env r s = Inr (fd, logged es (s\<lparr>sigpipe_ignored := True, tfs := f\<rparr>))"
proof -
  have "pub_open env r s = Inr (fd, logged [Opened (c_string (req_pipe_name r))] (s\<lparr>sigpipe_ignored := True, tfs := f\<rparr>))"
    using assms by (simp add: pub_open_def exec_simps c_arg_exec in_tfs_def logged_def)
  then show ?thesis by blast
qed

lemma pub_loop_Nil: "pub_loop env p j fd [] s = Inr (True, t) \<Longrightarrow> t = s"
  by (auto simp: pub_loop.simps gets_def ret_def elim!: call_eq_InrE split: if_splits)

lemma pub_loop_single:
  assumes "pub_loop env p j fd [bytes] s = Inr (True, t)" and "\<not> ending s"
  obtains go where "pub_message env j fd bytes s = Inr (go, t)"
proof -
  let ?k = "\<lambda>go_on. if go_on then pub_loop env p j fd [] else ret True"
  from assms have "call (pub_message env j fd bytes) ?k s = Inr (True, t)"
    by (simp only: pub_loop_parts call_gets if_False)
  then obtain go u where u: "pub_message env j fd bytes s = Inr (go, u)" "?k go u = Inr (True, t)" by (rule call_eq_InrE)
  from u(2) have "u = t" by (auto simp: ret_def dest: pub_loop_Nil split: if_splits)
  with u(1) that show ?thesis by simp
qed

lemma demo_blank: "b \<in> set (server_boxes (cluster_broker started_cluster)) \<Longrightarrow> name_of b = []"
  by (auto simp: started_cluster_def started_broker_facts)

lemma demo_memory [simp]: "blank_memory demo_env"
  by (simp add: blank_memory_def)

text \<open>The invariants hold in the states of the execution.\<close>

lemma demo_run:
  assumes "cluster_run {demo_env} started_cluster ls d" and "\<And>j t. Take j t \<in> set ls \<Longrightarrow> function_of t \<noteq> Some H_remove"
  shows "cluster_inv d" "sole_publishers d" "storage_inv d"
    "only_grows (tfs (cluster_broker started_cluster)) (tfs (cluster_broker d))"
proof -
  have "cluster_inv d \<and> sole_publishers d \<and> storage_inv d \<and>
      only_grows (tfs (cluster_broker started_cluster)) (tfs (cluster_broker d))"
    by (rule storage_run [OF _ assms(1) started_inv(1) [OF started_demo] started_storage(2,1) [OF started_demo demo_blank] assms(2)])
      simp_all
  then show "cluster_inv d" "sole_publishers d" "storage_inv d"
    "only_grows (tfs (cluster_broker started_cluster)) (tfs (cluster_broker d))" by simp_all
qed

lemma demo_kept:
  assumes "cluster_run {demo_env} started_cluster ls d" and "\<And>j t. Take j t \<in> set ls \<Longrightarrow>
    t = task_of (line_of create_request) \<or> t = task_of (line_of publish_request)"
  shows "cluster_inv d" "storage_inv d"
proof -
  have "function_of t \<noteq> Some H_remove" if "Take j t \<in> set ls" for j t
    using assms(2) [OF that] by (auto simp: demo_lines)
  then show "cluster_inv d" "storage_inv d" by (blast intro: demo_run [OF assms(1)])+
qed

text \<open>A file that a name leads to is found by \<open>tfs_open\<close>.\<close>

lemma found:
  assumes "fs_inv f" and "tidy f" and "names f ''a'' = Some i"
  shows "lookup f (Some ''/a'') = int i" "resolve f (lookup f (Some ''/a'')) = Some (int i)"
proof -
  show l: "lookup f (Some ''/a'') = int i"
    using lookup_names [OF assms(1), of "Some ''/a''"] assms(3) by (simp add: path_entry_def)
  show "resolve f (lookup f (Some ''/a'')) = Some (int i)"
    using tidyD(2) [OF assms(2,3)] by (subst resolve_unfold) (simp add: l)
qed

section \<open>The publisher has opened its box\<close>

abbreviation opened_labels :: "label list" where
  "opened_labels \<equiv> [Line (line_of create_request), Take 0 (task_of (line_of create_request)),
     Line (line_of publish_request), Take 1 (task_of (line_of publish_request)), Go 1 None]"

abbreviation demo_pipe :: "char list" where
  "demo_pipe \<equiv> req_pipe_name publish_request"

text \<open>The publisher has the handle \<open>h\<close> of the file \<open>i\<close> of its box, which holds \<open>ms\<close>.\<close>

definition box_open :: "nat \<Rightarrow> nat \<Rightarrow> string list \<Rightarrow> cluster \<Rightarrow> bool" where
  "box_open h i ms d \<longleftrightarrow> doing d = (\<lambda>_. Idle)(0 := Idle, 1 := Publishing demo_pipe (int h)) \<and>
     pcq_list (task_queue (the_server d)) = [] \<and> pcq_capacity (task_queue (the_server d)) = 3 \<and>
     \<not> ending (cluster_broker d) \<and> length (thread_pool (cluster_broker d)) = 3 \<and> thread_pool (cluster_broker d) ! 1 = 0 \<and>
     size_boxes (cluster_broker d) = 3 \<and> length (server_boxes (cluster_broker d)) = 3 \<and>
     name_of (server_boxes (cluster_broker d) ! 0) = ''/a'' \<and> password_of (server_boxes (cluster_broker d) ! 0) = ''pw'' \<and>
     n_subs (server_boxes (cluster_broker d) ! 0) = 0 \<and> box_size (server_boxes (cluster_broker d) ! 0) = int (text_size ms) \<and>
     appends (tfs (cluster_broker d)) h i \<and> names (tfs (cluster_broker d)) ''a'' = Some i \<and>
     contents (tfs (cluster_broker d)) i = stored ms \<and> (ms = [] \<longrightarrow> FREE \<in> set (free_blocks (tfs (cluster_broker d)))) \<and>
     (\<forall>x. x \<noteq> h \<longrightarrow> \<not> is_open (tfs (cluster_broker d)) (int x)) \<and>
     BLOCK_SIZE (tfs (cluster_broker d)) = 1024 \<and> MAX_OPEN_FILES (tfs (cluster_broker d)) = 16"

lemma demo_opened:
  "\<exists>d h i. cluster_run {demo_env} started_cluster opened_labels d \<and> box_open h i [] d"
proof -
  let ?E = "{demo_env}" and ?ls = "[Line (line_of create_request), Take 0 (task_of (line_of create_request)),
      Line (line_of publish_request), Take 1 (task_of (line_of publish_request))]"
  from demo_publisher obtain c t where c: "cluster_run ?E started_cluster ?ls c"
    "doing c = (\<lambda>_. Idle)(0 := Idle, 1 := Registered_pub publish_request)" "pcq_list (task_queue (the_server c)) = []"
    "cluster_broker c = box_set 0 (\<lambda>b. b\<lparr>n_pub := 1, box_size := 0\<rparr>) (indexed 1 0 t)"
    "box_ready t" "pcq_capacity (task_queue (the_server c)) = 3" by blast
  note t = c(5) [unfolded box_ready_def]
  then obtain i where i: "names (tfs t) ''a'' = Some i" "contents (tfs t) i = []" by blast
  let ?u = "cluster_broker c"
  have u: "tfs ?u = tfs t" "\<not> ending ?u" "thread_pool ?u ! 1 = 0" "length (thread_pool ?u) = 3"
    "name_of (server_boxes ?u ! 0) = ''/a''" "length (server_boxes ?u) = 3" "box_size (server_boxes ?u ! 0) = 0"
    "password_of (server_boxes ?u ! 0) = ''pw''" "n_subs (server_boxes ?u ! 0) = 0" "size_boxes ?u = 3"
    using t position_Some(2) [of t "''/a''" 0] broker_invD(1) [of t] by (simp_all add: c(4) box_set_def indexed_def)
  have r: "cluster_inv c" "storage_inv c"
    by (rule demo_kept [OF c(1)], auto)+
  have inv: "tidy (tfs t)" "fs_inv (tfs t)" "idle (tfs t)"
    using storage_invD(1) [OF r(2)] cluster_invD(3) [OF r(1)] u(1) by (simp_all add: fs_kept_def)
  note fd = found [OF inv(2,1) i(1)]
  have empty: "i_size (inode_table (tfs t) ! i) = 0" using arg_cong [OF i(2), of length] by simp
  from open_existing_run [OF inv(2,3) _ _ fd(2), of TFS_O_APPEND] t fd(1) obtain h f where
    f: "tfs_open (Some ''/a'') TFS_O_APPEND (tfs t) = Inr (int h, f)" "is_open f (int h)" "file_of f h = i"
      "names f = names (tfs t)" "contents f i = []" "offset_of f h = 0" "fs_inv f" "idle f" "freeinode_ts f = freeinode_ts (tfs t)"
      "used_inode (tfs t) (int i)" "fs_params f = fs_params (tfs t)" "free_blocks f = free_blocks (tfs t)" "same_handles h (tfs t) f"
    using i(2) empty by (auto simp: c_ok_def)
  from pub_open_exec [of publish_request ?u "int h" f demo_env] f(1) u(1) obtain es where
    o: "pub_open demo_env publish_request ?u = Inr (int h, logged es (?u\<lparr>sigpipe_ignored := True, tfs := f\<rparr>))"
    using request_okD [OF demo_req_ok, of "''/a''" "''pw''" 1] by auto
  let ?v = "logged es (?u\<lparr>sigpipe_ignored := True, tfs := f\<rparr>)"
  let ?d = "\<lparr>the_server = (the_server c)\<lparr>the_broker := ?v\<rparr>, doing = (doing c)(1 := Publishing demo_pipe (int h))\<rparr>"
  have "cluster_step ?E c (Go 1 None) ?d"
  proof (rule go_step)
    show "continue_task demo_env 1 None (doing c 1) ?u = Inr (Publishing demo_pipe (int h), ?v)"
      unfolding c(2) fun_upd_same continue_task.simps call_def o by (simp add: ret_def)
  qed simp_all
  from cluster_run.snoc [OF c(1) this] have "cluster_run ?E started_cluster opened_labels ?d" by simp
  moreover have "box_open h i [] ?d"
    unfolding box_open_def using c(2,3,6) u t i f same_handlesD(1) [OF f(13)]
    by (simp add: logged_def appends_def used_inode_def fun_upd_twist text_size_def)
  ultimately show ?thesis by blast
qed

section \<open>A message has arrived\<close>

abbreviation sent_label :: label where
  "sent_label \<equiv> Go 1 (Some (message_line ''x''))"

lemma demo_sends:
  assumes inv: "cluster_inv d" "storage_inv d" and b: "box_open h i [] d"
  shows "\<exists>e. cluster_step {demo_env} d sent_label e \<and> box_open h i [''x''] e"
proof -
  note o = b [unfolded box_open_def]
  let ?v = "cluster_broker d"
  have v: "0 < length (server_boxes ?v)" "1 < length (thread_pool ?v)" "thread_pool ?v ! 1 = int 0" "\<not> ending ?v"
    using o by simp_all
  have "\<exists>g. pub_loop demo_env demo_pipe 1 (int h) [message_line ''x''] ?v = Inr (True, sized 0 [''x''] g ?v) \<and>
      appends g h i \<and> only_file i h (tfs ?v) g \<and> contents g i = contents (tfs ?v) i @ stored [''x''] \<and>
      (blank_after (tfs ?v) i \<longrightarrow> blank_after g i)"
    by (rule pub_loop_exec [OF demo_message(1) _ v]) (use o in \<open>simp_all add: text_size_def del: length_contents\<close>)
  then obtain g where g: "pub_loop demo_env demo_pipe 1 (int h) [message_line ''x''] ?v = Inr (True, sized 0 [''x''] g ?v)"
    "appends g h i" "only_file i h (tfs ?v) g" "contents g i = contents (tfs ?v) i @ stored [''x'']" by blast
  from g(1) obtain go where m: "pub_message demo_env 1 (int h) (message_line ''x'') ?v = Inr (go, sized 0 [''x''] g ?v)"
    by (rule pub_loop_single [OF _ v(4)])
  define w where "w = sized 0 [''x''] g ?v"
  note m = m [folded w_def]
  have tf: "tfs w = g" by (simp add: w_def sized_def)
  have ap: "is_open (tfs ?v) (int h)" "names (tfs ?v) ''a'' = Some (file_of (tfs ?v) h)"
    "offset_of (tfs ?v) h = length (contents (tfs ?v) (file_of (tfs ?v) h))" "file_of (tfs ?v) h = i"
    using o by (simp_all add: appends_def del: length_contents)
  have "contents (tfs w) i = (if go then contents (tfs w) i else contents (tfs ?v) i)"
    by (rule pub_message_file [OF cluster_invD(3) [OF inv(1)] storage_invD(1) [OF inv(2)] ap(1-3) m]) (auto simp: ap(4))
  then have "\<not> go \<Longrightarrow> length (contents g i) = length (contents (tfs ?v) i)" by (simp only: if_False tf)
  with arg_cong [OF g(4), of length] have go by (cases go) (simp_all del: length_contents)
  let ?e = "\<lparr>the_server = (the_server d)\<lparr>the_broker := w\<rparr>, doing = (doing d)(1 := Publishing demo_pipe (int h))\<rparr>"
  have lm: "length (message_line ''x'') = MAX_LINE" using demo_message(1) by (simp add: carries_def)
  have c: "continue_task demo_env 1 (Some (message_line ''x'')) (Publishing demo_pipe (int h)) ?v =
      Inr (Publishing demo_pipe (int h), w)" using m v(4) \<open>go\<close> by (simp add: call_gets call_Inr ret_def)
  have dd: "doing d 1 = Publishing demo_pipe (int h)" using o by simp
  from c have c': "continue_task demo_env 1 (Some (message_line ''x'')) (doing d 1) ?v =
      Inr (Publishing demo_pipe (int h), w)" by (simp only: dd)
  have "cluster_step {demo_env} d sent_label ?e"
    by (rule go_step [OF _ _ c']) (use lm in simp_all)
  moreover have "box_open h i [''x''] ?e"
    unfolding box_open_def using o g(2-4) same_handlesD(1) [of h "tfs ?v" g]
    by (simp add: w_def sized_def only_file_def box_set_def text_size_def fun_upd_twist)
  ultimately show ?thesis by blast
qed

lemma demo_message_sent:
  "\<exists>d d' h i. cluster_run {demo_env} started_cluster opened_labels d \<and> box_open h i [] d \<and>
    cluster_step {demo_env} d sent_label d' \<and> box_open h i [''x''] d'"
proof -
  from demo_opened obtain d h i where d: "cluster_run {demo_env} started_cluster opened_labels d" "box_open h i [] d" by blast
  have "cluster_inv d" "storage_inv d" by (rule demo_kept [OF d(1)], auto)+
  from demo_sends [OF this d(2)] d show ?thesis by blast
qed

section \<open>A subscriber has opened the box\<close>

abbreviation subscribe_request :: request where
  "subscribe_request \<equiv> demo_req 2 ''/a'' ''pw''"

lemma subscribe_line:
  "length (line_of subscribe_request) = MAX_LINE"
  "task_of (line_of subscribe_request) = \<lparr>function_of = Some H_sub, request_of = Request subscribe_request\<rparr>"
proof -
  have "request_sized subscribe_request"
    using demo_req_ok [of "''/a''" "''pw''" 2] by (simp add: request_ok_def request_sized_def string_array_def)
  then have wf: "well_formed (Request subscribe_request)" by (simp add: code_defs)
  show "length (line_of subscribe_request) = MAX_LINE"
    "task_of (line_of subscribe_request) = \<lparr>function_of = Some H_sub, request_of = Request subscribe_request\<rparr>"
    using line_of_task [OF _ wf, of H_sub] by (simp_all add: handler_codes_def)
qed

abbreviation subscribe_labels :: "label list" where
  "subscribe_labels \<equiv> [Line (line_of subscribe_request), Take 2 (task_of (line_of subscribe_request))]"

lemma demo_free_handle:
  assumes b: "box_open h i ms d" and inv: "fs_inv (tfs (cluster_broker d))"
  shows "FREE \<in> set (free_open_file_entries (tfs (cluster_broker d)))"
proof -
  note o = b [unfolded box_open_def]
  obtain x where x: "x \<noteq> h" "x < 16" by (cases "h = 0") (auto intro: that [of 1] that [of 0])
  with o have "\<not> is_open (tfs (cluster_broker d)) (int x)" by simp
  with x o have "free_open_file_entries (tfs (cluster_broker d)) ! x = FREE"
    by (cases "free_open_file_entries (tfs (cluster_broker d)) ! x") (auto simp: is_open_def valid_file_handle_def)
  moreover have "length (free_open_file_entries (tfs (cluster_broker d))) = 16"
    using fs_invD(1) [OF inv] o by (simp add: wf_simps)
  ultimately show ?thesis using x(2) by (metis nth_mem)
qed

lemma demo_accepted:
  assumes inv: "cluster_inv d" "storage_inv d" and b: "box_open h i ms d"
  shows "\<exists>k f es u. sub_register subscribe_request 2 (cluster_broker d) = Inr (True, u) \<and>
    sub_open demo_env subscribe_request u = Inr (int k, logged es
      ((box_set 0 (\<lambda>b. b\<lparr>n_subs := n_subs b + 1\<rparr>) (indexed 2 0 (cluster_broker d)))\<lparr>sigpipe_ignored := True, tfs := f\<rparr>)) \<and>
    names f = names (tfs (cluster_broker d)) \<and> contents f i = contents (tfs (cluster_broker d)) i \<and>
    is_open f (int k) \<and> file_of f k = i \<and> offset_of f k = 0 \<and> fs_params f = fs_params (tfs (cluster_broker d)) \<and>
    freeinode_ts f = freeinode_ts (tfs (cluster_broker d))"
proof -
  let ?v = "cluster_broker d"
  note o = b [unfolded box_open_def] and t = cluster_invD(2) [OF inv(1), unfolded table_ok_def]
  have k: "fs_inv (tfs ?v)" "idle (tfs ?v)" using fs_keptD [OF cluster_invD(3) [OF inv(1)]] by simp_all
  have bi: "broker_inv ?v" using k t o cluster_invD(4) [OF inv(1)] by (simp add: broker_inv_def)
  have p: "position ?v ''/a'' = Some 0" using o by (cases "server_boxes ?v") (simp_all add: position_def)
  have fd: "lookup (tfs ?v) (Some ''/a'') = int i" "resolve (tfs ?v) (lookup (tfs ?v) (Some ''/a'')) = Some (int i)"
    using found [OF k(1) storage_invD(1) [OF inv(2)]] o by simp_all
  from open_existing_run [OF k _ _ fd(2) demo_free_handle [OF b k(1)], of 0] fd(1) obtain x f where
    f: "tfs_open (Some ''/a'') 0 (tfs ?v) = Inr (int x, f)" "is_open f (int x)" "file_of f x = i" "names f = names (tfs ?v)"
      "contents f i = contents (tfs ?v) i" "offset_of f x = 0" "fs_params f = fs_params (tfs ?v)"
      "freeinode_ts f = freeinode_ts (tfs ?v)" by (auto simp: c_ok_def simp del: length_contents)
  let ?t = "logged [Opened ''/tmp/p''] ((box_set 0 (\<lambda>b. b\<lparr>n_subs := n_subs b + 1\<rparr>) (indexed 2 0 ?v))\<lparr>sigpipe_ignored := True, tfs := f\<rparr>)"
  have "register_sub demo_env subscribe_request 2 ?v = Inr (Some (int x), ?t)"
  proof -
    have nb: "names_box ?v subscribe_request 0 i" using o p fd by (simp add: names_box_def)
    have "register_sub demo_env subscribe_request 2 ?v = Inr (Some (int x),
      logged [Opened (c_string (req_pipe_name subscribe_request))]
      ((box_set 0 (\<lambda>b. b\<lparr>n_subs := n_subs b + 1\<rparr>) (indexed 2 0 ?v))\<lparr>sigpipe_ignored := True, tfs := f\<rparr>))"
      by (rule register_sub_exec [OF bi _ _ _ nb]) (use o f(1) in \<open>simp_all add: is_int32_def\<close>)
    then show ?thesis by simp
  qed
  then have "call (sub_register subscribe_request 2) (\<lambda>accepted.
     if \<not> accepted then call (sub_refuse demo_env subscribe_request) (\<lambda>_. ret None)
     else call (sub_open demo_env subscribe_request) (\<lambda>fd_tfs. ret (Some fd_tfs))) ?v = Inr (Some (int x), ?t)"
    by (simp only: register_sub_parts)
  then obtain acc u where u: "sub_register subscribe_request 2 ?v = Inr (acc, u)"
    "(if \<not> acc then call (sub_refuse demo_env subscribe_request) (\<lambda>_. ret None)
     else call (sub_open demo_env subscribe_request) (\<lambda>fd_tfs. ret (Some fd_tfs))) u = Inr (Some (int x), ?t)"
    by (rule call_eq_InrE)
  have acc: acc
  proof (rule ccontr)
    assume "\<not> acc"
    with u(2) have "call (sub_refuse demo_env subscribe_request) (\<lambda>_. ret None) u = Inr (Some (int x), ?t)" by simp
    then show False by (rule call_eq_InrE) (simp add: ret_def)
  qed
  with u(2) have "call (sub_open demo_env subscribe_request) (\<lambda>fd_tfs. ret (Some fd_tfs)) u = Inr (Some (int x), ?t)" by simp
  then have "sub_open demo_env subscribe_request u = Inr (int x, ?t)" by (rule call_eq_InrE) (simp add: ret_def)
  moreover have "sub_register subscribe_request 2 ?v = Inr (True, u)" using u(1) acc by simp
  ultimately show ?thesis using f(2-) by blast
qed

lemma demo_subscribes:
  assumes inv: "cluster_inv e" "storage_inv e" and b: "box_open h i ms e"
  shows "\<exists>u d k. cluster_run {demo_env} e subscribe_labels u \<and> doing u 2 = Registered_sub subscribe_request \<and>
    cluster_step {demo_env} u (Go 2 None) d \<and> doing d 2 = Entering demo_pipe (int k) \<and>
    names (tfs (cluster_broker d)) ''a'' = Some i \<and> contents (tfs (cluster_broker d)) i = stored ms \<and>
    is_open (tfs (cluster_broker d)) (int k) \<and> file_of (tfs (cluster_broker d)) k = i \<and>
    offset_of (tfs (cluster_broker d)) k = 0 \<and> freeinode_ts (tfs (cluster_broker d)) ! i = TAKEN \<and>
    BLOCK_SIZE (tfs (cluster_broker d)) = 1024 \<and> \<not> ending (cluster_broker d) \<and>
    box_unlocked (cluster_broker d) 0 \<and> length (thread_pool (cluster_broker d)) = 3 \<and> thread_pool (cluster_broker d) ! 2 = 0"
proof -
  note o = b [unfolded box_open_def]
  let ?v = "cluster_broker e"
  from demo_accepted [OF assms] obtain k f es u where u: "sub_register subscribe_request 2 ?v = Inr (True, u)"
    "sub_open demo_env subscribe_request u = Inr (int k, logged es
      ((box_set 0 (\<lambda>b. b\<lparr>n_subs := n_subs b + 1\<rparr>) (indexed 2 0 ?v))\<lparr>sigpipe_ignored := True, tfs := f\<rparr>))"
    "names f = names (tfs ?v)" "contents f i = contents (tfs ?v) i" "is_open f (int k)" "file_of f k = i" "offset_of f k = 0"
    "fs_params f = fs_params (tfs ?v)" "freeinode_ts f = freeinode_ts (tfs ?v)" by blast
  let ?w = "logged es ((box_set 0 (\<lambda>b. b\<lparr>n_subs := n_subs b + 1\<rparr>) (indexed 2 0 ?v))\<lparr>sigpipe_ignored := True, tfs := f\<rparr>)"
  have st: "start_task demo_env 2 (task_of (line_of subscribe_request)) ?v = Inr (Registered_sub subscribe_request, u)"
    by (simp add: start_task_def subscribe_line(2) call_def u(1) ret_def)
  obtain d where d: "cluster_run {demo_env} e subscribe_labels d" "cluster_broker d = u"
    "doing d = (doing e)(2 := Registered_sub subscribe_request)"
    by (rule request_happens [OF cluster_invD(1) [OF inv(1)] _ _ subscribe_line(1) _ _ _ st, of "{demo_env}"])
      (use o in \<open>simp_all\<close>)
  let ?d = "\<lparr>the_server = (the_server d)\<lparr>the_broker := ?w\<rparr>, doing = (doing d)(2 := Entering demo_pipe (int k))\<rparr>"
  have c: "continue_task demo_env 2 None (doing d 2) (cluster_broker d) = Inr (Entering demo_pipe (int k), ?w)"
    unfolding d(2,3) fun_upd_same continue_task.simps call_def u(2) by (simp add: ret_def)
  have g: "cluster_step {demo_env} d (Go 2 None) ?d" by (rule go_step [OF _ _ c]) simp_all
  have "box_lock (server_boxes ?v ! 0) = False"
    using cluster_invD(10) [OF inv(1)] o by (auto simp: locked_boxes_def split: if_splits)
  then have "box_unlocked ?w 0" using o by (simp add: box_unlocked_def logged_def box_set_def indexed_def)
  moreover have "freeinode_ts (tfs ?v) ! i = TAKEN" using o by (simp add: appends_def)
  ultimately show ?thesis
    using d(1,3) g u(3-) o
    by (intro exI [of _ d] exI [of _ ?d] exI [of _ k]) (simp add: logged_def box_set_def indexed_def)
qed

end
