(* ===== verification/Threads_Storage.thy ===== *)
theory Threads_Storage
  imports Threads_Demo
begin

text \<open>What publishers store while other threads are at work is never lost or changed.\<close>

text \<open>C3: A message that a publisher sent is appended to the file of its box and is never lost or changed
  there, however the threads interleave, as long as no box is removed: after the step in which the
  thread \<open>j\<close> reads the line of the message, the file holds what it held and then the message with
  its terminator (cut off where the block of the file ends), and in every later state the file of
  that name still begins with this.  The memory that the broker gets is supposed to be cleared where it
  keeps the names of boxes.\<close>

theorem stored_messages_stay:
  assumes "started n c" and "\<And>b. b \<in> set (server_boxes (cluster_broker c)) \<Longrightarrow> name_of b = []"
    and "\<And>env. env \<in> E \<Longrightarrow> blank_memory env" and "\<And>k t. Take k t \<in> set (ls @ ks) \<Longrightarrow> function_of t \<noteq> Some H_remove"
    and "cluster_run E c ls d" and "doing d j = Publishing p fd"
    and "cluster_step E d (Go j (Some bytes)) d'" and "doing d' j = Publishing p fd"
    and "cluster_run E d' ks e"
  shows "\<exists>env \<in> E. \<exists>m l i w k zs. reader_stc (grants env) (bytes @ drop (length bytes) (raw_line env)) = Inr (Message m, l) \<and>
    thread_pool (cluster_broker d) ! j = int i \<and>
    path_entry (Some (name_of (server_boxes (cluster_broker d) ! i))) = Some w \<and>
    names (tfs (cluster_broker d)) w = Some k \<and> names (tfs (cluster_broker e)) w = Some k \<and>
    contents (tfs (cluster_broker e)) k = take (BLOCK_SIZE (tfs (cluster_broker d)))
      (contents (tfs (cluster_broker d)) k @ c_string (msg_message m) @ [NUL]) @ zs"
proof -
  note c = started_inv(1) [OF assms(1)] started_storage(2,1) [OF assms(1,2)]
  from storage_run [OF assms(3,5) c] assms(4) have d: "cluster_inv d" "sole_publishers d" "storage_inv d" by auto
  have "cluster_run E d [Go j (Some bytes)] d'" using cluster_run.snoc [OF cluster_run.nil assms(7)] by simp
  from storage_run [OF assms(3) this d] have d': "cluster_inv d'" "sole_publishers d'" "storage_inv d'"
    "only_grows (tfs (cluster_broker d)) (tfs (cluster_broker d'))" by auto
  from storage_run [OF assms(3,9) d'(1-3)] assms(4) have e: "only_grows (tfs (cluster_broker d')) (tfs (cluster_broker e))" by auto
  from assms(7,8) obtain env s where s: "env \<in> E" "in_broker (continue_task env j (Some bytes) (doing d j)) (the_server d) = Inr (Publishing p fd, s)"
    "the_server d' = s" by (cases rule: cluster_step.cases) auto
  from in_broker_result [OF s(2)] s(3) assms(6)
  have r: "continue_task env j (Some bytes) (Publishing p fd) (cluster_broker d) = Inr (Publishing p fd, cluster_broker d')" by simp
  from cluster_invD(6) [OF d(1), of j] assms(6) obtain i where i: "thread_pool (cluster_broker d) ! j = int i" by auto
  note a = storage_invD(4) [OF d(3) assms(6) i]
  then obtain w k where w: "path_entry (Some (name_of (server_boxes (cluster_broker d) ! i))) = Some w"
    "names (tfs (cluster_broker d)) w = Some k" "file_of (tfs (cluster_broker d)) (nat fd) = k"
    by (auto simp: at_file_end_def)
  have "is_open (tfs (cluster_broker d)) fd" using cluster_invD(7) [OF d(1), of j fd] assms(6) by (simp add: own_handle_def)
  from publish_effect [OF cluster_invD(3) [OF d(1)] storage_invD(1) [OF d(3)] this a r]
  have "message_stored env bytes k (tfs (cluster_broker d)) (tfs (cluster_broker d'))" by (simp add: w(3))
  then obtain m l where m: "reader_stc (grants env) (bytes @ drop (length bytes) (raw_line env)) = Inr (Message m, l)"
    "contents (tfs (cluster_broker d')) k = take (BLOCK_SIZE (tfs (cluster_broker d)))
      (contents (tfs (cluster_broker d)) k @ c_string (msg_message m) @ [NUL])" by (auto simp: message_stored_def)
  from d'(4) w(2) have "names (tfs (cluster_broker d')) w = Some k" by (simp add: only_grows_def)
  with e obtain zs where "names (tfs (cluster_broker e)) w = Some k"
    "contents (tfs (cluster_broker e)) k = contents (tfs (cluster_broker d')) k @ zs" unfolding only_grows_def by blast
  with m i w s(1) show ?thesis by (metis (no_types, lifting))
qed

theorem stored_messages_stay_witness:
  "\<exists>d d' k zs. cluster_run {demo_env} started_cluster [Line (line_of create_request), Take 0 (task_of (line_of create_request)),
      Line (line_of publish_request), Take 1 (task_of (line_of publish_request)), Go 1 None] d \<and>
    cluster_step {demo_env} d (Go 1 (Some (message_line ''x''))) d' \<and>
    names (tfs (cluster_broker d')) ''a'' = Some k \<and> contents (tfs (cluster_broker d')) k = ''x'' @ NUL # zs"
proof -
  from demo_message_sent obtain d d' h i where run: "cluster_run {demo_env} started_cluster [Line (line_of create_request),
      Take 0 (task_of (line_of create_request)), Line (line_of publish_request), Take 1 (task_of (line_of publish_request)), Go 1 None] d"
    "cluster_step {demo_env} d (Go 1 (Some (message_line ''x''))) d'" and o: "box_open h i [] d" "box_open h i [''x''] d'" by blast
  note o = o [unfolded box_open_def]
  have d: "doing d 1 = Publishing demo_pipe (int h)" "doing d' 1 = Publishing demo_pipe (int h)"
    "thread_pool (cluster_broker d) ! 1 = 0" "name_of (server_boxes (cluster_broker d) ! 0) = ''/a''"
    "names (tfs (cluster_broker d)) ''a'' = Some i" "contents (tfs (cluster_broker d)) i = []"
    "BLOCK_SIZE (tfs (cluster_broker d)) = 1024" using o by simp_all
  have "\<exists>env \<in> {demo_env}. \<exists>m l i w k zs.
    reader_stc (grants env) (message_line ''x'' @ drop (length (message_line ''x'')) (raw_line env)) = Inr (Message m, l) \<and>
    thread_pool (cluster_broker d) ! 1 = int i \<and>
    path_entry (Some (name_of (server_boxes (cluster_broker d) ! i))) = Some w \<and>
    names (tfs (cluster_broker d)) w = Some k \<and> names (tfs (cluster_broker d')) w = Some k \<and>
    contents (tfs (cluster_broker d')) k = take (BLOCK_SIZE (tfs (cluster_broker d)))
      (contents (tfs (cluster_broker d)) k @ c_string (msg_message m) @ [NUL]) @ zs"
    by (rule stored_messages_stay [OF started_demo _ _ _ run(1) d(1) run(2) d(2) cluster_run.nil])
      (auto simp: started_cluster_def started_broker_facts blank_memory_def demo_lines)
  then obtain m l k zs where m: "reader_stc (grants demo_env) (message_line ''x'' @ drop (length (message_line ''x'')) (raw_line demo_env)) =
      Inr (Message m, l)" "names (tfs (cluster_broker d)) ''a'' = Some k" "names (tfs (cluster_broker d')) ''a'' = Some k"
    "contents (tfs (cluster_broker d')) k = take (BLOCK_SIZE (tfs (cluster_broker d)))
      (contents (tfs (cluster_broker d)) k @ c_string (msg_message m) @ [NUL]) @ zs"
    using d(3,4) by (auto simp: path_entry_def)
  from demo_message(1) obtain c a where l: "length (message_line ''x'') = MAX_LINE"
    "reads_as (message_line ''x'') = Message \<lparr>msg_code = c, msg_message = a\<rparr>" "c_string a = ''x''"
    by (auto simp: carries_def)
  have "c_string (msg_message m) = ''x''"
  proof -
    have "message_line ''x'' @ drop (length (message_line ''x'')) (raw_line demo_env) = message_line ''x''"
      using l(1) demo_env_ok(1) by (simp add: env_ok_def)
    with m(1) l(3) show ?thesis by (simp add: reader_stc_exec [OF l(1)] l(2)) auto
  qed
  with m(2-) d(5-) have "contents (tfs (cluster_broker d')) k = ''x'' @ NUL # zs" by (simp del: length_contents)
  with run m(3) show ?thesis by blast
qed

end
