(* ===== verification/Threads_Delivery.thy ===== *)
theory Threads_Delivery
  imports Threads_Serving Threads_Storage
begin

text \<open>
  What the subscribers get while publishers and other subscribers are at work: every subscriber is
  sent the messages of the file of its box, each once and in their order.
\<close>

section \<open>Steps of a session\<close>

lemma others_step:
  assumes E: "\<And>env. env \<in> E \<Longrightarrow> fresh_memory env" and c: "cluster_inv c" and s: "cluster_step E c l d"
    and l: "thread_of l \<noteq> Some j"
  shows "doing d j = doing c j" "handle_in (doing c j) = Some (int h) \<Longrightarrow> same_handle (tfs (cluster_broker c)) (tfs (cluster_broker d)) h"
proof -
  have self: "same_handle f f h" for f by (simp add: same_handle_def)
  have "doing d j = doing c j \<and> (handle_in (doing c j) = Some (int h) \<longrightarrow>
      same_handle (tfs (cluster_broker c)) (tfs (cluster_broker d)) h)"
    using s
  proof cases
    case (line raw bytes s)
    have "the_broker s = cluster_broker c" by (rule main_iteration_list(2) [OF cluster_invD(1) [OF c] line(3-6)])
    with line(2) self show ?thesis by simp
  next
    case (takes env i t a s)
    note t = take_step [OF cluster_invD(1) [OF c] takes(6,7)]
    let ?c = "c\<lparr>the_server := (the_server c)\<lparr>task_queue := task_queue s\<rparr>\<rparr>"
    have c': "cluster_inv ?c" using t(1) by (intro cluster_inv_queue [OF c]) simp_all
    have j: "i \<noteq> j" using l takes(1) by auto
    from start_after [OF c', of env i t a "the_broker s"] E takes t(3) obtain n where
      "after_step nothing (others_handles ?c i) i (cluster_broker ?c) (others_locks ?c i) n a (the_broker s)" by auto
    then have "same_handle (tfs (cluster_broker c)) (tfs (the_broker s)) h" if "h \<in> others_handles c i"
      using that busyD(12) by (fastforce simp: after_step_def others_handles_def)
    moreover have "h \<in> others_handles c i" if "handle_in (doing c j) = Some (int h)"
      using that j by (auto simp: others_handles_def)
    ultimately show ?thesis using takes(2) j by simp
  next
    case (goes env input i a s)
    have j: "i \<noteq> j" using l goes(1) by auto
    note r = in_broker_result [OF goes(5)]
    have h: "has_box (doing c i)" using r by (cases "doing c i") (auto simp: fail_def)
    from continue_after [OF c h] r obtain n where
      "after_step nothing (others_handles c i) (length (thread_pool (cluster_broker c))) (cluster_broker c)
        (others_locks c i) n a (the_broker s)" by metis
    then have "same_handle (tfs (cluster_broker c)) (tfs (the_broker s)) h" if "h \<in> others_handles c i"
      using that busyD(12) by (fastforce simp: after_step_def)
    moreover have "h \<in> others_handles c i" if "handle_in (doing c j) = Some (int h)"
      using that j by (auto simp: others_handles_def)
    ultimately show ?thesis using goes(2) j by simp
  next
    case (wakes i pipe fd)
    with l self show ?thesis by auto
  qed
  then show "doing d j = doing c j" "handle_in (doing c j) = Some (int h) \<Longrightarrow>
    same_handle (tfs (cluster_broker c)) (tfs (cluster_broker d)) h" by simp_all
qed

lemma serving_more: "serving p h ms sent f a \<Longrightarrow> serving p h (ms @ xs) sent f a"
  by (cases a) auto

lemma serving_same: "same_handle f g h \<Longrightarrow> serving p h ms sent g a = serving p h ms sent f a"
  by (cases a) (auto simp: same_handle_def)

lemma serving_handle: "serving p h ms sent f a \<Longrightarrow> handle_in a \<noteq> None \<Longrightarrow> handle_in a = Some (int h)"
  by (cases a) auto

lemma own_step:
  assumes E: "\<And>env. env \<in> E \<Longrightarrow> healthy env" and c: "cluster_inv c" "storage_inv c" "spare_zero (tfs (cluster_broker c))"
    and n: "names (tfs (cluster_broker c)) w = Some k"
    and f: "handle_in (doing c j) \<noteq> None \<Longrightarrow> file_of (tfs (cluster_broker c)) h = k"
    and ms: "holds (tfs (cluster_broker c)) k ms" "ms = sent @ rest"
    and v: "serving p h ms sent (tfs (cluster_broker c)) (doing c j)"
    and s: "cluster_step E c l d" and l: "l = Wake j \<or> (\<exists>input. l = Go j input)"
    and new: "pipes (cluster_broker d) = pipes (cluster_broker c) @ es"
  shows "\<exists>new rest'. serving p h ms (sent @ new) (tfs (cluster_broker d)) (doing d j) \<and> ms = (sent @ new) @ rest' \<and>
      sends es = map (message_sent p) new \<and>
      (handle_in (doing d j) \<noteq> None \<longrightarrow> file_of (tfs (cluster_broker d)) h = k)"
  using s
proof cases
  case (wakes i pipe fd)
  with l v f new ms(2) show ?thesis by (intro exI [of _ "[]"] exI [of _ rest]) auto
next
  case (goes env input i a s)
  with l have i: "i = j" by auto
  let ?b = "cluster_broker c" and ?t = "the_broker s"
  from in_broker_result [OF goes(5)] i have r: "continue_task env j input (doing c j) ?b = Inr (a, ?t)" by simp
  have at: "at_file (tfs ?b) h k (offset_of (tfs ?b) h)" if "handle_in (doing c j) \<noteq> None"
  proof -
    from serving_handle [OF v that] have hh: "handle_in (doing c j) = Some (int h)" .
    from cluster_invD(7) [OF c(1) hh] have "is_open (tfs ?b) (int h)" by (simp add: own_handle_def)
    moreover have "freeinode_ts (tfs ?b) ! k = TAKEN"
      using names_used [OF fs_keptD(1) [OF cluster_invD(3) [OF c(1)]] n] by (simp add: used_inode_def)
    ultimately show ?thesis using cluster_invD(3) [OF c(1)] c(3) f [OF that] by (simp add: at_file_def)
  qed
  have e: "healthy env" "raw_text env = zeros" using E [OF goes(3)] by (simp_all add: healthy_def)
  have "\<exists>new rest'. serving p h ms (sent @ new) (tfs ?t) a \<and> ms = (sent @ new) @ rest' \<and>
      sends (pipes ?t) = sends (pipes ?b) @ map (message_sent p) new \<and> (handle_in a \<noteq> None \<longrightarrow> file_of (tfs ?t) h = k)"
  proof (cases "doing c j")
    case (Entering q fd)
    with v have q: "q = p" "fd = int h" "offset_of (tfs ?b) h = length (stored sent)" by simp_all
    from at Entering q(3) have a: "at_file (tfs ?b) h k (length (stored sent))" by simp
    from r Entering q have "sub_read env p j (int h) ?b = Inr (a, ?t)" by simp
    from sub_read_serves [OF a ms e(2) this] ms(2) show ?thesis by (intro exI [of _ "[]"] exI [of _ rest]) simp
  next
    case (Seen_nothing q fd)
    with v have q: "q = p" "fd = int h" "offset_of (tfs ?b) h = length (stored sent)" by simp_all
    from r Seen_nothing q have "sub_sleep p j (int h) ?b = Inr (a, ?t)" by simp
    from sub_sleep_serves [OF this q(3), of ms] f Seen_nothing ms(2) show ?thesis
      by (intro exI [of _ "[]"] exI [of _ rest]) auto
  next
    case (Draining q fd x teste message)
    with r have s: "sub_send env q j fd x teste message ?b = Inr (a, ?t)" by simp
    from at Draining have a: "at_file (tfs ?b) h k (offset_of (tfs ?b) h)" by simp
    from sub_send_serves [OF e(1) a ms v [unfolded Draining] s] show ?thesis by blast
  qed (use r v in \<open>simp_all add: fail_def\<close>)
  moreover have "d = \<lparr>the_server = s, doing = (doing c)(j := a)\<rparr>" using goes(2) i by simp
  ultimately show ?thesis using new by (auto simp del: fun_upd_apply simp: fun_upd_same)
qed (use l in auto)

text \<open>
  The thread \<open>j\<close> has sent the messages in \<open>es\<close>, which are the first ones of those that the file holds.
\<close>

definition served :: "char list \<Rightarrow> nat \<Rightarrow> nat \<Rightarrow> string list \<Rightarrow> io list \<Rightarrow> cluster \<Rightarrow> nat \<Rightarrow> bool" where
  "served p h k ms es c j \<longleftrightarrow> (\<exists>sent rest. ms = sent @ rest \<and> sends es = map (message_sent p) sent \<and>
     serving p h ms sent (tfs (cluster_broker c)) (doing c j) \<and>
     (handle_in (doing c j) \<noteq> None \<longrightarrow> file_of (tfs (cluster_broker c)) h = k))"

lemma served_more: "served p h k ms es c j \<Longrightarrow> served p h k (ms @ xs) es c j"
  unfolding served_def using serving_more by (metis append.assoc)

text \<open>A step of another thread.\<close>

lemma served_others:
  assumes v: "served p h k ms es c j" and E: "\<And>env. env \<in> E \<Longrightarrow> fresh_memory env" and c: "cluster_inv c"
    and s: "cluster_step E c l d" "thread_of l \<noteq> Some j"
  shows "served p h k ms es d j"
proof -
  from v obtain sent rest where i: "ms = sent @ rest" "sends es = map (message_sent p) sent"
    "serving p h ms sent (tfs (cluster_broker c)) (doing c j)"
    "handle_in (doing c j) \<noteq> None \<longrightarrow> file_of (tfs (cluster_broker c)) h = k" by (auto simp: served_def)
  have j: "doing d j = doing c j" by (rule others_step(1) [OF E c s])
  have "serving p h ms sent (tfs (cluster_broker d)) (doing d j) \<and>
      (handle_in (doing d j) \<noteq> None \<longrightarrow> file_of (tfs (cluster_broker d)) h = k)"
  proof (cases "handle_in (doing c j) = None")
    case True
    with i(3) show ?thesis unfolding j by (cases "doing c j") auto
  next
    case False
    have sh: "same_handle (tfs (cluster_broker c)) (tfs (cluster_broker d)) h"
      by (rule others_step(2) [OF E c s serving_handle [OF i(3) False]])
    from sh i(4) False have "file_of (tfs (cluster_broker d)) h = k" by (simp add: same_handle_def)
    with i(3) serving_same [OF sh] show ?thesis unfolding j by simp
  qed
  with i(1,2) show ?thesis by (auto simp: served_def)
qed

text \<open>A step of the thread itself.\<close>

lemma served_own:
  assumes v: "served p h k ms es0 c j" and E: "\<And>env. env \<in> E \<Longrightarrow> healthy env"
    and c: "cluster_inv c" "storage_inv c" "spare_zero (tfs (cluster_broker c))"
    and n: "names (tfs (cluster_broker c)) w = Some k" and ms: "holds (tfs (cluster_broker c)) k ms"
    and s: "cluster_step E c l d" and l: "l = Wake j \<or> (\<exists>input. l = Go j input)"
    and new: "pipes (cluster_broker d) = pipes (cluster_broker c) @ es"
  shows "served p h k ms (es0 @ es) d j"
proof -
  from v obtain sent rest where i: "ms = sent @ rest" "sends es0 = map (message_sent p) sent"
    "serving p h ms sent (tfs (cluster_broker c)) (doing c j)"
    "handle_in (doing c j) \<noteq> None \<longrightarrow> file_of (tfs (cluster_broker c)) h = k" by (auto simp: served_def)
  from own_step [OF E c n _ ms i(1,3) s l new] i(4) obtain ys rest' where
    "serving p h ms (sent @ ys) (tfs (cluster_broker d)) (doing d j)" "ms = (sent @ ys) @ rest'"
    "sends es = map (message_sent p) ys" "handle_in (doing d j) \<noteq> None \<longrightarrow> file_of (tfs (cluster_broker d)) h = k" by blast
  moreover have "sends (es0 @ es) = map (message_sent p) (sent @ ys)" using i(2) calculation(3) by simp
  ultimately show ?thesis unfolding served_def by blast
qed

text \<open>What holds before the last step of a session, in which the file still held fewer messages.\<close>

lemma before_step:
  assumes B: "\<forall>env \<in> E. blank_memory env"
    and c: "cluster_inv c" "sole_publishers c" "storage_inv c" and n: "names (tfs (cluster_broker c)) w = Some k"
    and s: "cluster_run E c ls d" "cluster_step E d l e"
    and r: "\<forall>i t. Take i t \<in> set (ls @ [l]) \<longrightarrow> function_of t \<noteq> Some H_remove" and ms: "holds (tfs (cluster_broker e)) k ms"
  shows "cluster_inv d" "storage_inv d" "spare_zero (tfs (cluster_broker c)) \<Longrightarrow> spare_zero (tfs (cluster_broker d))"
    "names (tfs (cluster_broker d)) w = Some k" "\<exists>m. holds (tfs (cluster_broker d)) k (take m ms)"
proof -
  have d: "cluster_inv d \<and> sole_publishers d \<and> storage_inv d \<and> only_grows (tfs (cluster_broker c)) (tfs (cluster_broker d))"
    by (rule storage_run [OF _ s(1) c]) (use B r in auto)
  have g: "only_grows (tfs (cluster_broker d)) (tfs (cluster_broker e))"
    using storage_cluster_step [OF _ _ _ _ s(2)] d B r by auto
  from d n show n': "names (tfs (cluster_broker d)) w = Some k" using only_growsD(3) by blast
  from d show "cluster_inv d" "storage_inv d" "spare_zero (tfs (cluster_broker c)) \<Longrightarrow> spare_zero (tfs (cluster_broker d))"
    using only_growsD(2) by blast+
  from holds_before [OF ms _ n' g] d storage_invD(1) show "\<exists>m. holds (tfs (cluster_broker d)) k (take m ms)" by blast
qed

lemma session_serves:
  assumes E: "\<And>env. env \<in> E \<Longrightarrow> healthy env"
    and c: "cluster_inv c" "sole_publishers c" "storage_inv c" "spare_zero (tfs (cluster_broker c))"
    and n: "names (tfs (cluster_broker c)) w = Some k" and d: "doing c j = Entering p (int h)"
    and f: "file_of (tfs (cluster_broker c)) h = k" "offset_of (tfs (cluster_broker c)) h = 0"
    and s: "session E j c ls es e" and l: "\<And>j t. Take j t \<in> set ls \<Longrightarrow> function_of t \<noteq> Some H_remove"
    and ms: "holds (tfs (cluster_broker e)) k ms"
  shows "served p h k ms es e j"
  using s l ms
proof (induction arbitrary: ms rule: session.induct)
  case none
  then show ?case using d f by (auto simp: served_def)
next
  case (others ls es d' l e)
  have B: "blank_memory env" "fresh_memory env" if "env \<in> E" for env
    using E [OF that] by (simp_all add: healthy_def blank_memory_def)
  have "\<forall>env \<in> E. blank_memory env" "\<forall>i t. Take i t \<in> set (ls @ [l]) \<longrightarrow> function_of t \<noteq> Some H_remove"
    using B others.prems(1) by blast+
  note b = before_step [OF this(1) c(1-3) n session_run [OF others.hyps(1)] others.hyps(2) this(2) others.prems(2)]
  from b(5) obtain m where m: "holds (tfs (cluster_broker d')) k (take m ms)" by blast
  have "served p h k (take m ms) es d' j" by (rule others.IH [OF _ m]) (use others.prems(1) in auto)
  from served_more [OF served_others [OF this B(2) b(1) others.hyps(2,3)], of "drop m ms"] show ?case by simp
next
  case (own ls es d' l e new)
  have "\<forall>env \<in> E. blank_memory env" "\<forall>i t. Take i t \<in> set (ls @ [l]) \<longrightarrow> function_of t \<noteq> Some H_remove"
    using E own.prems(1) by (auto simp: healthy_def)
  note b = before_step [OF this(1) c(1-3) n session_run [OF own.hyps(1)] own.hyps(2) this(2) own.prems(2)]
  from b(5) obtain m where m: "holds (tfs (cluster_broker d')) k (take m ms)" by blast
  have "served p h k (take m ms) es d' j" by (rule own.IH [OF _ m]) (use own.prems(1) in auto)
  from served_more [OF served_own [OF this E b(1,2) b(3) [OF c(4)] b(4) m own.hyps(2-4)], of "drop m ms"] show ?case by simp
qed

section \<open>Delivery\<close>

lemma sub_open_file:
  assumes s: "fs_kept (tfs s)" "tidy (tfs s)" and r: "sub_open env r s = Inr (fd, t)"
  shows "\<exists>v i. path_entry (Some (c_string (req_box_name r))) = Some v \<and> names (tfs t) v = Some i \<and>
    file_of (tfs t) (nat fd) = i \<and> offset_of (tfs t) (nat fd) = 0"
proof -
  from r have u: "tfs_open (Some (c_string (req_box_name r))) 0 (tfs s) = Inr (fd, tfs t) \<and> fd \<noteq> - 1"
    by (auto simp: sub_open_def lift_def c_arg_def in_tfs_def ignore_sigpipe_def modify_def fail_def ret_def
      keeps_tfs_ops(2) [unfolded keeps_tfs_def] split: sum.splits if_splits elim!: call_eq_InrE)
  from tfs_open_files(2) [OF s _ _ conjunct1 [OF u]] u show ?thesis by (auto simp: c_ok_def c_string_no_NUL)
qed

text \<open>C4: Every subscriber is sent the messages of its box in the order in which they are stored, none twice and
  none left out, while any number of publishers and other subscribers of any boxes are at work:
  from the moment when the thread \<open>j\<close> opens the box for its subscriber on, the lines that it writes to
  the pipe carry a prefix of the messages that the file of the box holds.  This needs that no box is
  removed, that the file holds messages that are not empty and is not full, that the clients read whole
  lines or have closed their pipe, and memory that is cleared: without the latter the code sends what is
  not a message (\<open>first_message_unterminated\<close>, \<open>tfs_read_past_end\<close>).\<close>

theorem subscribers_get_messages_in_order:
  assumes "started n c" and "\<And>b. b \<in> set (server_boxes (cluster_broker c)) \<Longrightarrow> name_of b = []"
    and "spare_zero (tfs (cluster_broker c))" and "\<And>env. env \<in> E \<Longrightarrow> healthy env"
    and "\<And>i t. Take i t \<in> set (ls @ ks) \<Longrightarrow> function_of t \<noteq> Some H_remove"
    and "cluster_run E c ls d" and "doing d j = Registered_sub r" and "cluster_step E d (Go j input) d'"
    and "session E j d' ks es e"
    and "path_entry (Some (c_string (req_box_name r))) = Some w" and "names (tfs (cluster_broker e)) w = Some k"
    and "holds (tfs (cluster_broker e)) k ms"
  shows "\<exists>sent rest. ms = sent @ rest \<and> sends es = map (message_sent (req_pipe_name r)) sent"
proof -
  have B: "blank_memory env" if "env \<in> E" for env using assms(4) [OF that] by (simp add: healthy_def)
  note c = started_inv(1) [OF assms(1)] started_storage(2,1) [OF assms(1,2)]
  have d: "cluster_inv d \<and> sole_publishers d \<and> storage_inv d \<and> only_grows (tfs (cluster_broker c)) (tfs (cluster_broker d))"
    by (rule storage_run [OF B assms(6) c]) (use assms(5) in auto)
  have run: "cluster_run E d [Go j input] d'" using cluster_run.snoc [OF cluster_run.nil assms(8)] by simp
  have d': "cluster_inv d' \<and> sole_publishers d' \<and> storage_inv d' \<and> only_grows (tfs (cluster_broker d)) (tfs (cluster_broker d'))"
    by (rule storage_run [OF B run]) (use d in auto)
  have z: "spare_zero (tfs (cluster_broker d'))" using assms(3) d d' only_growsD(2) by blast
  from assms(8) obtain env a s where s: "in_broker (continue_task env j input (doing d j)) (the_server d) = Inr (a, s)"
    "d' = \<lparr>the_server = s, doing = (doing d)(j := a)\<rparr>" by (cases rule: cluster_step.cases) auto
  from in_broker_result [OF s(1)] assms(7) obtain fd where
    o: "sub_open env r (cluster_broker d) = Inr (fd, the_broker s)" "a = Entering (req_pipe_name r) fd"
    by (auto simp: ret_def elim!: call_eq_InrE)
  have a: "doing d' j = Entering (req_pipe_name r) fd" and b: "cluster_broker d' = the_broker s" by (simp_all add: s(2) o(2))
  from cluster_invD(7) [of d' j fd] d' a obtain h where h: "fd = int h" by (auto simp: own_handle_def elim: is_open_nat)
  from sub_open_file [OF cluster_invD(3) storage_invD(1) o(1)] d assms(10) h obtain i where
    i: "names (tfs (cluster_broker d')) w = Some i" "file_of (tfs (cluster_broker d')) h = i" "offset_of (tfs (cluster_broker d')) h = 0"
    unfolding b by auto
  have "cluster_inv e \<and> sole_publishers e \<and> storage_inv e \<and> only_grows (tfs (cluster_broker d')) (tfs (cluster_broker e))"
    by (rule storage_run [OF B session_run [OF assms(9)]]) (use d' assms(5) in auto)
  with only_growsD(3) i(1) assms(11) have k: "i = k" by fastforce
  have "served (req_pipe_name r) h k ms es e j"
    by (rule session_serves [OF assms(4) _ _ _ z i(1) [unfolded k] a [unfolded h] i(2) [unfolded k] i(3) assms(9) _ assms(12)])
      (use d' assms(5) in auto)
  then show ?thesis unfolding served_def by blast
qed

lemma started_demo_zero: "spare_zero (tfs (cluster_broker started_cluster))"
proof -
  have "spare_zero (init_state demo_heap tfs_default_params boot)"
    by (rule spare_zero_init) (simp_all add: demo_heap_def tfs_default_params_def)
  then show ?thesis by (simp add: started_cluster_def started_broker_facts)
qed

lemma demo_healthy [simp]: "healthy demo_env"
  by (simp add: healthy_def)

lemma demo_write [simp]: "at_write demo_env k = demo_env"
  by (simp add: at_write_def demo_env_def)

text \<open>The run of the thread that serves the subscriber, alone.\<close>

lemma demo_served:
  assumes a: "doing d 2 = Entering demo_pipe (int k)" and f: "at_file (tfs (cluster_broker d)) k i 0"
    and c: "contents (tfs (cluster_broker d)) i = stored [''x'']" "BLOCK_SIZE (tfs (cluster_broker d)) = 1024"
    and b: "\<not> ending (cluster_broker d)" "box_unlocked (cluster_broker d) 0" "length (thread_pool (cluster_broker d)) = 3"
      "thread_pool (cluster_broker d) ! 2 = 0"
  shows "\<exists>n es e. session {demo_env} 2 d (replicate n (Go 2 None)) es e \<and> es = [message_sent demo_pipe ''x''] \<and>
    contents (tfs (cluster_broker e)) i = stored [''x''] \<and> BLOCK_SIZE (tfs (cluster_broker e)) = 1024 \<and>
    names (tfs (cluster_broker e)) = names (tfs (cluster_broker d))"
proof -
  let ?v = "cluster_broker d" and ?ms = "[''x'']"
  let ?t = "(delivered demo_pipe ?ms ?v)\<lparr>tfs := advanced (tfs ?v) k (length ([] :: string) + length (stored ?ms))\<rparr>"
  have h: "holds (tfs ?v) i ?ms" using c demo_message(2) by (simp add: holds_def del: length_contents)
  have r: "reads_file (tfs ?v) k i ([] @ stored ?ms) 0" using at_file_reads [OF f h] by simp
  have l: "sub_loop 3 demo_env demo_pipe 2 (int k) ?v = Inr (Waiting, ?t)"
    by (rule sub_loop_exec [OF _ _ b(2) _ _ b(1) _ _ r]) (use b demo_message(2) in simp_all)
  have "\<exists>n. steps {demo_env} 2 (Entering demo_pipe (int k)) ?v n (if Waiting = Waiting then Sleeping demo_pipe (int k) else at_end ?t) ?t"
    by (rule loop_steps [OF _ l]) simp_all
  then obtain n e where e: "cluster_run {demo_env} d (replicate n (Go 2 None)) e" "cluster_broker e = ?t"
    using steps_cluster [OF _ a refl] by fastforce
  from run_is_session [OF e(1), of 2] obtain es where es: "session {demo_env} 2 d (replicate n (Go 2 None)) es e" by auto
  from session_alone [OF es] e(2) have "es = [message_sent demo_pipe ''x'']"
    by (auto simp: delivered_pipes message_sent_def split: if_splits)
  moreover have "contents (tfs (cluster_broker e)) i = stored ?ms" using c by (simp add: e(2))
  moreover have "names (tfs (cluster_broker e)) = names (tfs ?v)" by (simp add: e(2))
  moreover have "BLOCK_SIZE (tfs (cluster_broker e)) = 1024" using c by (simp add: e(2) advanced_def)
  ultimately show ?thesis using es by blast
qed

theorem subscribers_get_messages_in_order_witness:
  "\<exists>d d' n e. cluster_run {demo_env} started_cluster ((opened_labels @ [sent_label]) @ subscribe_labels) d \<and>
    doing d 2 = Registered_sub subscribe_request \<and> cluster_step {demo_env} d (Go 2 None) d' \<and>
    session {demo_env} 2 d' (replicate n (Go 2 None)) [message_sent demo_pipe ''x''] e \<and>
    (\<exists>sent rest. [''x''] = sent @ rest \<and> sends [message_sent demo_pipe ''x''] = map (message_sent demo_pipe) sent)"
proof -
  from demo_message_sent obtain a b h i where a: "cluster_run {demo_env} started_cluster opened_labels a"
    "cluster_step {demo_env} a sent_label b" and o: "box_open h i [''x''] b" by blast
  from cluster_run.snoc [OF a] have b: "cluster_run {demo_env} started_cluster (opened_labels @ [sent_label]) b" .
  have "cluster_inv b" "storage_inv b" by (rule demo_kept [OF b], auto)+
  from demo_subscribes [OF this o] obtain u d k where u: "cluster_run {demo_env} b subscribe_labels u"
    "doing u 2 = Registered_sub subscribe_request" "cluster_step {demo_env} u (Go 2 None) d"
    and d: "doing d 2 = Entering demo_pipe (int k)" "names (tfs (cluster_broker d)) ''a'' = Some i"
    "contents (tfs (cluster_broker d)) i = stored [''x'']"
    "is_open (tfs (cluster_broker d)) (int k)" "file_of (tfs (cluster_broker d)) k = i"
    "offset_of (tfs (cluster_broker d)) k = 0" "freeinode_ts (tfs (cluster_broker d)) ! i = TAKEN"
    "BLOCK_SIZE (tfs (cluster_broker d)) = 1024" "\<not> ending (cluster_broker d)"
    "box_unlocked (cluster_broker d) 0" "length (thread_pool (cluster_broker d)) = 3" "thread_pool (cluster_broker d) ! 2 = 0"
    by blast
  from cluster_run_trans [OF u(1) b]
  have ru: "cluster_run {demo_env} started_cluster ((opened_labels @ [sent_label]) @ subscribe_labels) u" .
  have T: "function_of t \<noteq> Some H_remove" if "Take j t \<in> set (((opened_labels @ [sent_label]) @ subscribe_labels) @ ks)"
    "\<And>i t. Take i t \<notin> set ks" for j t and ks :: "label list"
    using that by (auto simp: demo_lines subscribe_line)
  have "only_grows (tfs (cluster_broker started_cluster)) (tfs (cluster_broker d))" "fs_kept (tfs (cluster_broker d))"
    using demo_run(1,4) [OF cluster_run.snoc [OF ru u(3)] T [of _ _ "[Go 2 None]"]] cluster_invD(3) by auto
  with only_growsD(2) started_demo_zero d(4-7) have f: "at_file (tfs (cluster_broker d)) k i 0" by (simp add: at_file_def)
  from demo_served [OF d(1) f d(3,8-12)] obtain n e where
    e: "session {demo_env} 2 d (replicate n (Go 2 None)) [message_sent demo_pipe ''x''] e"
      "contents (tfs (cluster_broker e)) i = stored [''x'']" "BLOCK_SIZE (tfs (cluster_broker e)) = 1024"
      "names (tfs (cluster_broker e)) = names (tfs (cluster_broker d))" by blast
  have p: "path_entry (Some (c_string (req_box_name subscribe_request))) = Some ''a''" by (simp add: path_entry_def)
  have na: "names (tfs (cluster_broker e)) ''a'' = Some i" using e(4) d(2) by simp
  have ho: "holds (tfs (cluster_broker e)) i [''x'']" using e(2,3) demo_message(2) by (simp add: holds_def del: length_contents)
  have "\<exists>sent rest. [''x''] = sent @ rest \<and>
      sends [message_sent demo_pipe ''x''] = map (message_sent (req_pipe_name subscribe_request)) sent"
    by (rule subscribers_get_messages_in_order [OF started_demo _ started_demo_zero _ _ ru u(2,3) e(1) p na ho])
      (auto simp: demo_blank demo_lines subscribe_line)
  then show ?thesis using ru u e by auto
qed

end
