(* ===== verification/Broker_Main.thy ===== *)
theory Broker_Main
  imports Broker_Correct Clients
begin

text \<open>
  The command line of the broker: \<open>main\<close> takes the name of its pipe and the number of its threads, which
  is also the size of the table of boxes and of the queue.
\<close>

section \<open>The number of threads\<close>

text \<open>\<open>atoi\<close> skips white space, takes a sign and digits; a number outside \<open>int\<close> is undefined.\<close>

definition is_space :: "char \<Rightarrow> bool" where
  "is_space c \<longleftrightarrow> c = CHR '' '' \<or> c \<in> {CHR 0x09, CHR 0x0A, CHR 0x0B, CHR 0x0C, CHR 0x0D}"

definition is_digit :: "char \<Rightarrow> bool" where
  "is_digit c \<longleftrightarrow> 48 \<le> (of_char c :: nat) \<and> (of_char c :: nat) \<le> 57"

fun digits_value :: "nat \<Rightarrow> string \<Rightarrow> nat" where
  "digits_value acc [] = acc"
| "digits_value acc (c # cs) = (if is_digit c then digits_value (10 * acc + (of_char c - 48)) cs else acc)"

definition atoi :: "string \<Rightarrow> int res" where
  "atoi text =
     (let t = dropWhile is_space text;
          n = (if t \<noteq> [] \<and> hd t = CHR ''-'' then - int (digits_value 0 (tl t))
               else if t \<noteq> [] \<and> hd t = CHR ''+'' then int (digits_value 0 (tl t))
               else int (digits_value 0 t)) in
      if - 2147483648 \<le> n \<and> n < 2147483648 then Inr n else Inl SignedOverflow)"

section \<open>The start of main\<close>

text \<open>
  The conversion to \<open>unsigned int\<close> makes a negative number a large one for \<open>malloc\<close>; \<open>int index[n]\<close> is
  undefined unless the number is positive.
\<close>

definition main_start :: "heap \<Rightarrow> env \<Rightarrow> (nat \<Rightarrow> int) \<Rightarrow> string list \<Rightarrow> unit brop" where
  "main_start h env raw_index argv =
     (if length argv \<noteq> 3 then fail ExitFailure
      else
        call (lift (atoi (argv ! 2))) (\<lambda>a.
        let n = unat (word_of_int a :: 32 word) in
        if a \<le> 0 \<and> grants env (size_mul n 144) \<and> grants env (size_mul n 16) then
          call (in_tfs (tfs_init h None)) (\<lambda>_. fail OutOfBounds)
        else start_broker h env raw_index n))"

section \<open>What the broker starts with\<close>

lemma digits_value_append:
  "\<forall>c \<in> set xs. is_digit c \<Longrightarrow> digits_value a (xs @ ys) = digits_value (digits_value a xs) ys"
  by (induction xs arbitrary: a) simp_all

lemma digit_char: "d < 10 \<Longrightarrow> is_digit (char_of (48 + d)) \<and> (of_char (char_of (48 + d)) :: nat) = 48 + d"
  for d :: nat
  by (simp add: is_digit_def)

lemma decimal_digits: "(\<forall>c \<in> set (decimal n). is_digit c) \<and> digits_value 0 (decimal n) = n \<and> decimal n \<noteq> []"
proof (induction n rule: decimal.induct)
  case (1 n)
  show ?case
  proof (cases "n < 10")
    case True
    then show ?thesis using digit_char [of n] by (simp add: decimal.simps [of n])
  next
    case False
    have "n mod 10 < 10" by simp
    from 1 [OF False] digit_char [OF this] False show ?thesis
      by (simp add: decimal.simps [of n] digits_value_append)
  qed
qed

text \<open>\<open>atoi\<close> reads back what \<open>printf("%d")\<close> writes.\<close>

lemma atoi_decimal:
  assumes "n < 2147483648"
  shows "atoi (decimal n) = Inr (int n)"
proof -
  note d = decimal_digits [of n]
  then obtain c cs where c: "decimal n = c # cs" by (cases "decimal n") auto
  with d have "is_digit c" by simp
  then have "\<not> is_space c" "c \<noteq> CHR ''-''" "c \<noteq> CHR ''+''" by (auto simp: is_digit_def is_space_def)
  moreover have "digits_value 0 (c # cs) = n" using d unfolding c by blast
  ultimately show ?thesis using c assms by (simp add: atoi_def)
qed

text \<open>With another number of arguments than two the broker exits before it has done anything.\<close>

lemma main_usage: "length argv \<noteq> 3 \<Longrightarrow> main_start h env raw_index argv s = Inl ExitFailure"
  by (simp add: main_start_def exec_simps)

lemma main_starts:
  assumes "length argv = 3" and "argv ! 2 = decimal n" and "0 < n" and "n < 2147483648"
  shows "main_start h env raw_index argv = start_broker h env raw_index n"
proof
  fix s
  have "unat (word_of_int (int n) :: 32 word) = n" using assms(4) by (simp add: unat_of_nat take_bit_nat_eq_self)
  with assms show "main_start h env raw_index argv s = start_broker h env raw_index n s"
    by (simp add: main_start_def atoi_decimal exec_simps)
qed

text \<open>Nothing that is not a positive number starts a broker, text that is no number among it.\<close>

lemma main_needs_threads:
  assumes "length argv = 3" and "atoi (argv ! 2) = Inr a" and "a \<le> 0"
  shows "\<exists>e. main_start h env raw_index argv s = Inl e"
  using assms by (cases "tfs_init h None (tfs s)")
    (auto simp: main_start_def start_broker_def exec_simps call_def in_tfs_def Let_def split: sum.splits)

lemma set_tl_subset: "set (tl xs) \<subseteq> set xs"
  by (cases xs) auto

lemma no_number_is_zero: "t \<noteq> [] \<Longrightarrow> \<forall>c \<in> set t. \<not> is_digit c \<Longrightarrow> atoi t = Inr 0"
proof -
  assume d: "\<forall>c \<in> set t. \<not> is_digit c"
  have z: "digits_value 0 x = 0" if "\<forall>c \<in> set x. \<not> is_digit c" for x
    using that by (cases x) simp_all
  have s: "set (dropWhile is_space t) \<subseteq> set t" by (rule set_dropWhileD [THEN subsetI])
  then have "digits_value 0 (dropWhile is_space t) = 0" using d by (intro z) auto
  moreover have "set (tl (dropWhile is_space t)) \<subseteq> set (dropWhile is_space t)"
    by (rule set_tl_subset)
  with d s have "digits_value 0 (tl (dropWhile is_space t)) = 0" by (intro z) blast
  ultimately show ?thesis by (simp add: atoi_def Let_def)
qed

end
