(* ===== verification/Checked_Calls.thy ===== *)
theory Checked_Calls
  imports TFS_Prelude
begin

text \<open>
  The wrappers of \<open>utils/safety_mechanisms.c\<close> that are not part of an operation of their own
  elsewhere: what each does with the answer of the call that it wraps.  \<open>Broker\<close> and \<open>PCQ_Threads\<close>
  model the locks with the answer 0, and this theory says what becomes of the other answers.
\<close>

section \<open>The wrappers\<close>

definition my_read :: "int \<Rightarrow> ('s, unit) oper" where
  "my_read answer = (if answer < 0 then fail ExitFailure else ret ())"

definition my_mutex_init :: "int \<Rightarrow> ('s, unit) oper" where
  "my_mutex_init answer = (if answer = - 1 then fail ExitFailure else ret ())"

definition my_mutex_lock :: "int \<Rightarrow> ('s, unit) oper" where
  "my_mutex_lock answer = (if answer = - 1 then fail ExitFailure else ret ())"

definition my_mutex_unlock :: "int \<Rightarrow> ('s, unit) oper" where
  "my_mutex_unlock answer = (if answer = - 1 then fail ExitFailure else ret ())"

definition my_mutex_destroy :: "int \<Rightarrow> ('s, unit) oper" where
  "my_mutex_destroy answer = (if answer = - 1 then fail ExitFailure else ret ())"

definition my_cond_init :: "int \<Rightarrow> ('s, unit) oper" where
  "my_cond_init answer = (if answer = - 1 then fail ExitFailure else ret ())"

definition my_cond_signal :: "int \<Rightarrow> ('s, unit) oper" where
  "my_cond_signal answer = (if answer = - 1 then fail ExitFailure else ret ())"

definition my_cond_wait :: "int \<Rightarrow> ('s, unit) oper" where
  "my_cond_wait answer = (if answer = - 1 then fail ExitFailure else ret ())"

definition my_cond_destroy :: "int \<Rightarrow> ('s, unit) oper" where
  "my_cond_destroy answer = (if answer = - 1 then fail ExitFailure else ret ())"

lemmas pthread_wrappers = my_mutex_init_def my_mutex_lock_def my_mutex_unlock_def my_mutex_destroy_def
  my_cond_init_def my_cond_signal_def my_cond_wait_def my_cond_destroy_def

section \<open>Errors\<close>

text \<open>\<open>read\<close> answers -1 when it fails, and the wrapper ends the program; a short line is not an error.\<close>

lemma my_read_exec [exec_simps]: "my_read answer s = (if answer < 0 then Inl ExitFailure else Inr ((), s))"
  by (simp add: my_read_def ret_def fail_def)

text \<open>
  A function of pthreads answers 0, or the positive number of an error; it never answers -1.  So the
  wrappers let every error pass: a thread whose \<open>pthread_mutex_lock\<close> failed goes on without the lock.
\<close>

lemma pthread_errors_pass:
  assumes "0 \<le> answer" and "m \<in> {my_mutex_init, my_mutex_lock, my_mutex_unlock, my_mutex_destroy,
    my_cond_init, my_cond_signal, my_cond_wait, my_cond_destroy}"
  shows "m answer s = Inr ((), s)"
  using assms by (auto simp: pthread_wrappers ret_def)

text \<open>A block between a lock and its release runs whatever the lock answered.\<close>

lemma unlocked_section_runs:
  assumes "0 \<le> answer" and "0 \<le> answer'" and "m s = Inr (a, t)"
  shows "block [my_mutex_lock answer] (call m (\<lambda>a. block [my_mutex_unlock answer'] (ret a))) s = Inr (a, t)"
  using assms by (simp add: exec_simps pthread_wrappers)

end
