(* ===== verification/Logging.thy ===== *)
theory Logging
  imports TFS_Prelude
begin

text \<open>
  \<open>utils/logging.h\<close>, \<open>utils/logging.c\<close> and the assertion of \<open>utils/betterassert.h\<close> (that of
  \<open>fs/betterassert.h\<close>, which TecnicoFS uses, is \<open>always_assert\<close>).  The state is the global level and what
  was written to \<open>stderr\<close>; the text of a line is what its format gives.
\<close>

section \<open>Levels and lines\<close>

datatype log_level_t = LOG_QUIET | LOG_NORMAL | LOG_VERBOSE

datatype log_tag = Info_tag | Panic_tag | Warn_tag | Log_tag | Debug_tag

text \<open>Where a macro is used: \<open>__FILE__\<close>, \<open>__LINE__\<close> and \<open>__func__\<close>.\<close>

record place =
  in_file :: string
  at_line :: nat
  in_func :: string

record log_line =
  tag :: log_tag
  place :: place
  message :: string

record log_state =
  g_level :: log_level_t
  err_lines :: "log_line list"

type_synonym 'a logop = "(log_state, 'a) oper"

definition set_log_level :: "log_level_t \<Rightarrow> unit logop" where
  "set_log_level level = modify (\<lambda>s. s\<lparr>g_level := level\<rparr>)"

text \<open>What \<open>logging.c\<close> starts with.\<close>

definition log_start :: log_state where
  "log_start = \<lparr>g_level = LOG_QUIET, err_lines = []\<rparr>"

text \<open>\<open>snprintf\<close> into \<open>buf[2048]\<close> keeps 2047 characters, and \<open>fprintf\<close> writes them.\<close>

definition print_line :: "log_tag \<Rightarrow> place \<Rightarrow> string \<Rightarrow> unit logop" where
  "print_line t p msg = modify (\<lambda>s. s\<lparr>err_lines := err_lines s @
     [\<lparr>tag = t, place = p, message = take 2047 msg\<rparr>]\<rparr>)"

section \<open>The macros\<close>

definition INFO :: "place \<Rightarrow> string \<Rightarrow> unit logop" where
  "INFO p msg = print_line Info_tag p msg"

definition PANIC :: "place \<Rightarrow> string \<Rightarrow> unit logop" where
  "PANIC p msg = block [print_line Panic_tag p msg] (fail ExitFailure)"

definition WARN :: "place \<Rightarrow> string \<Rightarrow> unit logop" where
  "WARN p msg = call (gets g_level) (\<lambda>l.
     if l = LOG_NORMAL \<or> l = LOG_VERBOSE then print_line Warn_tag p msg else ret ())"

definition LOG :: "place \<Rightarrow> string \<Rightarrow> unit logop" where
  "LOG p msg = call (gets g_level) (\<lambda>l.
     if l = LOG_NORMAL \<or> l = LOG_VERBOSE then print_line Log_tag p msg else ret ())"

definition DEBUG :: "place \<Rightarrow> string \<Rightarrow> unit logop" where
  "DEBUG p msg = call (gets g_level) (\<lambda>l.
     if l = LOG_VERBOSE then print_line Debug_tag p msg else ret ())"

definition logged_assert :: "bool \<Rightarrow> place \<Rightarrow> string \<Rightarrow> unit logop" where
  "logged_assert c p msg = (if \<not> c then PANIC p msg else ret ())"

lemmas log_defs = set_log_level_def print_line_def INFO_def PANIC_def WARN_def LOG_def DEBUG_def logged_assert_def

section \<open>What is written\<close>

fun verbosity :: "log_level_t \<Rightarrow> nat" where
  "verbosity LOG_QUIET = 0"
| "verbosity LOG_NORMAL = 1"
| "verbosity LOG_VERBOSE = 2"

fun threshold :: "log_tag \<Rightarrow> nat" where
  "threshold Info_tag = 0"
| "threshold Panic_tag = 0"
| "threshold Warn_tag = 1"
| "threshold Log_tag = 1"
| "threshold Debug_tag = 2"

fun macro :: "log_tag \<Rightarrow> place \<Rightarrow> string \<Rightarrow> unit logop" where
  "macro Info_tag = INFO"
| "macro Panic_tag = PANIC"
| "macro Warn_tag = WARN"
| "macro Log_tag = LOG"
| "macro Debug_tag = DEBUG"

text \<open>
  A macro other than \<open>PANIC\<close> returns, leaves the level alone, and writes its line exactly when the level
  reaches that of the macro; \<open>PANIC\<close> ends the program.
\<close>

lemma macro_exec:
  "t \<noteq> Panic_tag \<Longrightarrow> macro t p msg s = Inr ((), s\<lparr>err_lines := err_lines s @
     (if threshold t \<le> verbosity (g_level s) then [\<lparr>tag = t, place = p, message = take 2047 msg\<rparr>] else [])\<rparr>)"
  by (cases t; cases "g_level s") (simp_all add: exec_simps log_defs)

lemma panic_ends: "PANIC p msg s = Inl ExitFailure"
  by (simp add: exec_simps log_defs)

lemma logged_assert_exec: "logged_assert c p msg s = (if c then Inr ((), s) else Inl ExitFailure)"
  by (simp add: logged_assert_def panic_ends exec_simps)

text \<open>No file of the program calls \<open>set_log_level\<close>: warnings and the like are never written.\<close>

lemma silent_at_start: "t \<in> {Warn_tag, Log_tag, Debug_tag} \<Longrightarrow> macro t p msg log_start = Inr ((), log_start)"
  using macro_exec [of t p msg log_start] by (auto simp: log_start_def)

text \<open>A higher level only adds lines.\<close>

lemma level_adds_lines:
  assumes "verbosity (g_level s) \<le> verbosity (g_level s')" and "macro t p msg s = Inr ((), u)"
    and "err_lines u \<noteq> err_lines s"
  shows "\<exists>u'. macro t p msg s' = Inr ((), u') \<and> err_lines u' \<noteq> err_lines s'"
proof -
  have "t \<noteq> Panic_tag" using assms(2) panic_ends by auto
  with assms show ?thesis using macro_exec [of t p msg s] macro_exec [of t p msg s']
    by (auto split: if_splits)
qed

end
