(* ===== verification/FS_Tests.thy ===== *)
theory FS_Tests
  imports FS_Files
begin

text \<open>
  Two of the repository's own tests, as programs on the model: \<open>tests/test1.c\<close>, which passes, and
  \<open>tests/t1_2_5_clear_data_blocks.c\<close>, which was written for a \<open>tfs_read\<close> that also returns the zero
  byte of a string, and stops at its first comparison.
\<close>

section \<open>The programs\<close>

definition c_assert :: "bool \<Rightarrow> unit fsop" where
  "c_assert c = (if c then ret () else fail (Panic ''assertion failed''))"

text \<open>\<open>assert(m != -1)\<close> for a call \<open>m\<close>, whose result goes on.\<close>

definition assert_ok :: "int fsop \<Rightarrow> (int \<Rightarrow> 'a fsop) \<Rightarrow> 'a fsop" where
  "assert_ok m k = call m (\<lambda>r. block [c_assert (r \<noteq> - 1)] (k r))"

definition file_contents :: string where
  "file_contents = ''AAA!'' @ [NUL]"

definition test1 :: "heap \<Rightarrow> int fsop" where
  "test1 hp =
     assert_ok (tfs_init hp None) (\<lambda>_.
     assert_ok (tfs_open (Some ''/f1'') TFS_O_CREAT) (\<lambda>f.
     call (tfs_write f ''AAA!'' 4) (\<lambda>r.
     block [c_assert (r = 4)] (
     assert_ok (tfs_close f) (\<lambda>_.
     assert_ok (tfs_open (Some ''/f1'') 0) (\<lambda>f.
     call (tfs_read f 39) (\<lambda>(r, bytes).
     block [c_assert (r = 4), c_assert (c_string (take (nat r) bytes @ [NUL]) = ''AAA!'')] (
     assert_ok (tfs_close f) (\<lambda>_. ret 0)))))))))"

text \<open>The comparison is of the five bytes that were read.\<close>

definition assert_contents_ok :: "cstr \<Rightarrow> unit fsop" where
  "assert_contents_ok path =
     assert_ok (tfs_open path 0) (\<lambda>f.
     call (tfs_read f 5) (\<lambda>(r, buffer).
     block [c_assert (r = 5), c_assert (buffer = file_contents)] (
     assert_ok (tfs_close f) (\<lambda>_. ret ()))))"

definition write_contents :: "cstr \<Rightarrow> unit fsop" where
  "write_contents path =
     assert_ok (tfs_open path 0) (\<lambda>f.
     call (tfs_write f file_contents 5) (\<lambda>r.
     block [c_assert (r = 5)] (
     assert_ok (tfs_close f) (\<lambda>_. ret ()))))"

definition create_closed :: "cstr \<Rightarrow> unit fsop" where
  "create_closed path = assert_ok (tfs_open path TFS_O_CREAT) (\<lambda>f. assert_ok (tfs_close f) (\<lambda>_. ret ()))"

definition create_without_room :: "cstr \<Rightarrow> unit fsop" where
  "create_without_room path =
     assert_ok (tfs_open path TFS_O_CREAT) (\<lambda>f.
     call (tfs_write f file_contents 5) (\<lambda>r.
     block [c_assert (r = - 1)] (
     assert_ok (tfs_close f) (\<lambda>_. ret ()))))"

definition clear_data_blocks :: "heap \<Rightarrow> int fsop" where
  "clear_data_blocks hp =
     assert_ok (tfs_init hp (Some (tfs_default_params\<lparr>max_inode_count := 4, max_block_count := 2\<rparr>))) (\<lambda>_.
     block
       [create_closed (Some ''/f1''), write_contents (Some ''/f1''), assert_contents_ok (Some ''/f1'')] (
     assert_ok (tfs_link (Some ''/f1'') (Some ''/l1'')) (\<lambda>_.
     block [create_without_room (Some ''/f2'')] (
     assert_ok (tfs_unlink (Some ''/f1'')) (\<lambda>_.
     block [create_without_room (Some ''/f3'')] (
     assert_ok (tfs_unlink (Some ''/l1'')) (\<lambda>_.
     block
       [create_closed (Some ''/f4''), write_contents (Some ''/f4''), assert_contents_ok (Some ''/f4'')] (
     assert_ok tfs_destroy (\<lambda>_. ret 0)))))))))"

section \<open>Their steps\<close>

lemma assert_exec [exec_simps]:
  "c_assert c s = (if c then Inr ((), s) else Inl (Panic ''assertion failed''))"
  by (simp add: c_assert_def exec_simps)

lemma assert_ok_exec [exec_simps]: "m s = Inr (r, t) \<Longrightarrow> r \<noteq> - 1 \<Longrightarrow> assert_ok m k s = k r t"
  by (simp add: assert_ok_def exec_simps)

text \<open>A closed file of a name, and room for a handle.\<close>

definition stored_file :: "tfs_params \<Rightarrow> string \<Rightarrow> string \<Rightarrow> tfs_state \<Rightarrow> bool" where
  "stored_file p v c s \<longleftrightarrow> fs_inv s \<and> idle s \<and> fs_params s = p \<and> FREE \<in> set (free_open_file_entries s) \<and>
     (\<exists>i. names s v = Some i \<and> \<not> is_link s (int i) \<and> contents s i = c)"

lemma stored_file_opens:
  assumes f: "stored_file p v c s" and q: "c_ok q" "path_entry q = Some v"
  shows "\<exists>h t. tfs_open q 0 s = Inr (int h, t) \<and> fs_inv t \<and> idle t \<and> fs_params t = p \<and> is_open t (int h) \<and>
    offset_of t h = 0 \<and> freeinode_ts t ! file_of t h = TAKEN \<and> names t v = Some (file_of t h) \<and>
    contents t (file_of t h) = c \<and> \<not> is_link t (int (file_of t h)) \<and> free_blocks t = free_blocks s"
proof -
  from f obtain i where i: "fs_inv s" "idle s" "fs_params s = p" "FREE \<in> set (free_open_file_entries s)"
    "names s v = Some i" "\<not> is_link s (int i)" "contents s i = c" by (auto simp: stored_file_def)
  have l: "lookup s q = int i" by (simp add: lookup_names [OF i(1)] q(2) i(5))
  then have r: "resolve s (lookup s q) = Some (int i)" by (subst resolve_unfold) (simp add: i(6))
  have "lookup s q \<noteq> - 1" by (simp add: l)
  from open_existing_run [OF i(1,2) q(1) this r i(4), of 0] obtain h t where
    "tfs_open q 0 s = Inr (int h, t)" "is_open t (int h)" "file_of t h = i" "names t = names s"
    "contents t i = contents s i" "offset_of t h = 0" "fs_inv t" "idle t" "freeinode_ts t = freeinode_ts s"
    "used_inode s (int i)" "fs_params t = fs_params s" "free_blocks t = free_blocks s" "inode_table t = inode_table s"
    by auto
  then show ?thesis using i by (intro exI [of _ h] exI [of _ t]) (simp add: used_inode_def is_link_def)
qed

lemma stored_file_closes:
  assumes "fs_inv s" and "idle s" and "fs_params s = p" and "is_open s (int h)" and "names s v = Some i"
    and "\<not> is_link s (int i)" and "contents s i = c"
  shows "\<exists>t. tfs_close (int h) s = Inr (0, t) \<and> stored_file p v c t \<and> free_blocks t = free_blocks s"
proof -
  from close_run [OF assms(1,2,4)] obtain t where
    "tfs_close (int h) s = Inr (0, t)" "fs_inv t" "idle t" "names t = names s" "\<forall>j. contents t j = contents s j"
    "fs_params t = fs_params s" "free_blocks t = free_blocks s" "inode_table t = inode_table s"
    "FREE \<in> set (free_open_file_entries t)" by blast
  then show ?thesis using assms by (intro exI [of _ t]) (simp add: stored_file_def is_link_def)
qed

text \<open>Writing to the start of an empty file, with a free block.\<close>

lemma first_write:
  assumes s: "fs_inv s" "idle s" "is_open s (int h)" "freeinode_ts s ! file_of s h = TAKEN"
    and e: "offset_of s h = 0" "contents s (file_of s h) = []" "names s v = Some (file_of s h)"
      "\<not> is_link s (int (file_of s h))"
    and room: "FREE \<in> set (free_blocks s)" and bs: "bs \<noteq> []" "length bs = n" "n \<le> BLOCK_SIZE s" "n < size_mod"
  shows "\<exists>t. tfs_write (int h) bs n s = Inr (int n, t) \<and> fs_inv t \<and> idle t \<and>
    fs_params t = fs_params s \<and> is_open t (int h) \<and> names t v = Some (file_of s h) \<and>
    contents t (file_of s h) = bs \<and> \<not> is_link t (int (file_of s h))"
proof -
  have m: "n = min n (BLOCK_SIZE s - offset_of s h)" using bs(3) e(1) by simp
  from write_run [OF s _ _ _ _ m, of bs] e bs room obtain t where t:
    "tfs_write (int h) bs n s = Inr (int n, t)" "contents t (file_of s h) = bs"
    "names t = names s" "fs_inv t" "idle t" "is_open t (int h)" "fs_params t = fs_params s" by auto
  have "offset_of s h \<le> BLOCK_SIZE s" "n + offset_of s h < size_mod" "n \<le> length bs" using e(1) bs by simp_all
  from tfs_write_exec [OF s(1-3) this] t(1) bs obtain fb b where
    "t = written s h fb b bs" by (auto split: if_splits option.splits prod.splits)
  then have "i_node_type (inode_table t ! file_of s h) = i_node_type (inode_table s ! file_of s h)"
    using written_inode [OF s(1,3)] by simp
  with t e(3,4) show ?thesis by (intro exI [of _ t]) (simp add: is_link_def)
qed

section \<open>The first steps of every test\<close>

definition test_params :: "tfs_params \<Rightarrow> bool" where
  "test_params p \<longleftrightarrow> wf_params p \<and> 2 \<le> max_inode_count p \<and> 2 \<le> max_block_count p \<and>
     1 \<le> max_open_files_count p \<and> 44 \<le> block_size p"

lemma default_test_params: "test_params tfs_default_params"
  "test_params (tfs_default_params\<lparr>max_inode_count := 4, max_block_count := 2\<rparr>)"
  by (simp_all add: test_params_def tfs_default_params_def wf_params_def)

lemma free_in_replicate: "2 \<le> n \<Longrightarrow> FREE \<in> set ((replicate n FREE)[0 := TAKEN])"
  by (cases n; cases "n - 1") auto

text \<open>A new file system, and a handle to a new file in it.\<close>

lemma init_and_create:
  assumes "all_granted hp" and "blank_names hp p" and p: "test_params p"
    and q: "c_ok q" "path_entry q = Some v" "valid_name v"
  shows "\<exists>s h t. tfs_init hp (Some p) boot = Inr (0, s) \<and> tfs_open q TFS_O_CREAT s = Inr (int h, t) \<and>
    fs_inv t \<and> idle t \<and> fs_params t = p \<and> is_open t (int h) \<and> offset_of t h = 0 \<and>
    freeinode_ts t ! file_of t h = TAKEN \<and> names t v = Some (file_of t h) \<and> contents t (file_of t h) = [] \<and>
    \<not> is_link t (int (file_of t h)) \<and> FREE \<in> set (free_blocks t)"
proof -
  let ?s = "init_state hp p boot"
  have w: "wf_params p" "0 < max_inode_count p" "0 < max_block_count p"
    using p by (simp_all add: test_params_def)
  have i: "tfs_init hp (Some p) boot = Inr (0, ?s)"
    by (rule tfs_init_exec) (use assms(1) w in \<open>simp_all\<close>)
  have "idle boot" by (simp add: idle_def boot_def)
  then have k: "fs_inv ?s" "idle ?s" using init_inv [OF w(1) assms(2) w(2,3)] by simp_all
  have d: "root_dents ?s = replicate (block_size p div 44) ([], - 1)"
    using assms(2) w(2) by (rule root_dents_init)
  have "0 < block_size p div 44" using p by (simp add: test_params_def div_greater_zero_iff)
  then have r: "- 1 \<in> snd ` set (root_dents ?s)" by (simp add: d)
  have n: "names ?s x = None" for x
  proof -
    have "dir_find (replicate k ([], - 1)) x = - 1" for k by (induction k) simp_all
    then have "dir_find (root_dents ?s) x = - 1" by (simp add: d)
    then show ?thesis by (simp add: names_def)
  qed
  have l: "lookup ?s q = - 1" by (simp add: lookup_names [OF k(1)] q(2) n)
  have f: "FREE \<in> set (freeinode_ts ?s)" "FREE \<in> set (free_open_file_entries ?s)" "FREE \<in> set (free_blocks ?s)"
    "fs_params ?s = p" using p by (simp_all add: test_params_def free_in_replicate)
  from open_create_run [OF k q l _ f(1) r f(2), of TFS_O_CREAT] obtain h j t where t:
    "tfs_open q TFS_O_CREAT ?s = Inr (int h, t)" "is_open t (int h)" "file_of t h = j" "offset_of t h = 0"
    "freeinode_ts t ! j = TAKEN" "contents t j = []" "names t = (names ?s)(v \<mapsto> j)" "fs_inv t" "idle t"
    "free_blocks t = free_blocks ?s" by auto
  have "tidy ?s" by (simp add: tidy_def n)
  moreover have "fs_kept ?s" using k by (simp add: fs_kept_def)
  ultimately have "files_kept {} ?s t" using tfs_open_files(1) [OF _ _ q(1) _ t(1)] by simp
  with \<open>tidy ?s\<close> have "tidy t" "fs_params t = p" using f(4) by (simp_all add: files_keptD)
  with t have "\<not> is_link t (int j)" using tidyD(2) [of t v j] by simp
  with t i f \<open>fs_params t = p\<close> show ?thesis by (intro exI [of _ ?s] exI [of _ h] exI [of _ t]) simp
qed

section \<open>What the tests do\<close>

text \<open>
  The comparison of the tests fails on the very file that they wrote: \<open>tfs_read\<close> returns the four
  characters before the zero byte, and \<open>sizeof(buffer)\<close> is five.
\<close>

lemma contents_never_ok:
  assumes f: "stored_file p v file_contents s" and q: "c_ok q" "path_entry q = Some v" and big: "5 < block_size p"
  shows "assert_contents_ok q s = Inl (Panic ''assertion failed'')"
proof -
  from stored_file_opens [OF f q] obtain h t where t: "tfs_open q 0 s = Inr (int h, t)"
    "fs_inv t" "idle t" "fs_params t = p" "is_open t (int h)" "offset_of t h = 0"
    "freeinode_ts t ! file_of t h = TAKEN" "contents t (file_of t h) = file_contents" by blast
  have "contents t (file_of t h) = [] @ ''AAA!'' @ NUL # []" using t(8) by (simp add: file_contents_def)
  from read_message [OF t(2,3,5,7) this, of 5] t(4,6,8) big
  have "tfs_read (int h) 5 t = Inr ((4, ''AAA!''), advanced t h 4)"
    by (simp add: file_contents_def eval_nat_numeral del: length_contents)
  with t(1) show ?thesis by (simp add: assert_contents_ok_def exec_simps)
qed

lemma contents_written_ok:
  assumes f: "stored_file p v [] s" and q: "c_ok q" "path_entry q = Some v" and big: "5 < block_size p"
    and room: "FREE \<in> set (free_blocks s)"
  shows "\<exists>t. write_contents q s = Inr ((), t) \<and> stored_file p v file_contents t"
proof -
  from stored_file_opens [OF f q] obtain h t where t: "tfs_open q 0 s = Inr (int h, t)"
    "fs_inv t" "idle t" "fs_params t = p" "is_open t (int h)" "offset_of t h = 0"
    "freeinode_ts t ! file_of t h = TAKEN" "names t v = Some (file_of t h)" "contents t (file_of t h) = []"
    "\<not> is_link t (int (file_of t h))" "free_blocks t = free_blocks s" by blast
  have l: "length file_contents = 5" by (simp add: file_contents_def)
  from first_write [OF t(2,3,5,7,6,9,8,10), of file_contents 5] t(4,11) room big l obtain u where u:
    "tfs_write (int h) file_contents 5 t = Inr (5, u)" "fs_inv u" "idle u" "fs_params u = p" "is_open u (int h)"
    "names u v = Some (file_of t h)" "contents u (file_of t h) = file_contents" "\<not> is_link u (int (file_of t h))"
    by (auto simp: file_contents_def)
  from stored_file_closes [OF u(2-6,8,7)] obtain x where "tfs_close (int h) u = Inr (0, x)"
    "stored_file p v file_contents x" by blast
  with t(1) u(1) show ?thesis by (simp add: write_contents_def exec_simps)
qed

text \<open>The sanity check of \<open>t1_2_5_clear_data_blocks\<close> stops the program.\<close>

lemma f1_name: "c_ok (Some ''/f1'')" "path_entry (Some ''/f1'') = Some ''f1''" "valid_name ''f1''"
  by (simp_all add: c_ok_def path_entry_def valid_name_def)

theorem clear_data_blocks_stops:
  assumes "all_granted hp" and "blank_names hp tfs_default_params"
  shows "clear_data_blocks hp boot = Inl (Panic ''assertion failed'')"
proof -
  let ?p = "tfs_default_params\<lparr>max_inode_count := 4, max_block_count := 2\<rparr>"
  have "blank_names hp ?p" using assms(2) by (simp add: blank_names_def)
  from init_and_create [OF assms(1) this default_test_params(2) f1_name] obtain s h t where t:
    "tfs_init hp (Some ?p) boot = Inr (0, s)" "tfs_open (Some ''/f1'') TFS_O_CREAT s = Inr (int h, t)"
    "fs_inv t" "idle t" "fs_params t = ?p" "is_open t (int h)" "names t ''f1'' = Some (file_of t h)"
    "contents t (file_of t h) = []" "\<not> is_link t (int (file_of t h))" "FREE \<in> set (free_blocks t)" by blast
  from stored_file_closes [OF t(3-6,7,9,8)] obtain u where u: "tfs_close (int h) t = Inr (0, u)"
    "stored_file ?p ''f1'' [] u" "free_blocks u = free_blocks t" by blast
  have big: "5 < block_size ?p" by (simp add: tfs_default_params_def)
  from contents_written_ok [OF u(2) f1_name(1,2) big] t(10) u(3) obtain x where
    x: "write_contents (Some ''/f1'') u = Inr ((), x)" "stored_file ?p ''f1'' file_contents x" by auto
  show ?thesis using t(1,2) u(1) x(1) contents_never_ok [OF x(2) f1_name(1,2) big]
    by (simp add: clear_data_blocks_def create_closed_def exec_simps)
qed

text \<open>\<open>test1\<close> writes the string without its zero byte, and finds it.\<close>

lemma stored_read:
  assumes t: "fs_inv t" "idle t" "is_open t (int h)" "freeinode_ts t ! file_of t h = TAKEN"
    and c: "contents t (file_of t h) = c" "offset_of t h = 0" "c \<noteq> []" "NUL \<notin> set c" "length c \<le> len"
  shows "\<exists>u. tfs_read (int h) len t = Inr ((int (length c), c), u) \<and> fs_inv u \<and> idle u \<and> is_open u (int h)"
proof -
  have "tfs_read (int h) len t = Inr ((int (length c), c), advanced t h (length c))"
  proof -
    have "c ! 0 \<noteq> NUL" using c(3,4) by (cases c) auto
    moreover have "i_size (inode_table t ! file_of t h) = length c" using c(1) length_contents by metis
    then have "read_amount t h len \<noteq> 0" using c(2,3,5) by (cases c) (auto simp: read_amount_def)
    ultimately show ?thesis using read_string_exec [OF t, of c len] c by (simp add: c_string_all)
  qed
  moreover have "idle (advanced t h (length c))" using t(2) by (simp add: advanced_def)
  ultimately show ?thesis using t inv_advanced(1) [OF t(1)] advanced_handle(3) [OF t(1,3)] by blast
qed

theorem test1_passes:
  assumes "all_granted hp" and "blank_names hp tfs_default_params"
  shows "\<exists>t. test1 hp boot = Inr (0, t)"
proof -
  let ?p = tfs_default_params
  from init_and_create [OF assms default_test_params(1) f1_name] obtain s h t where t:
    "tfs_init hp (Some ?p) boot = Inr (0, s)" "tfs_open (Some ''/f1'') TFS_O_CREAT s = Inr (int h, t)"
    "fs_inv t" "idle t" "fs_params t = ?p" "is_open t (int h)" "offset_of t h = 0" "freeinode_ts t ! file_of t h = TAKEN"
    "names t ''f1'' = Some (file_of t h)" "contents t (file_of t h) = []" "\<not> is_link t (int (file_of t h))"
    "FREE \<in> set (free_blocks t)" by blast
  from first_write [OF t(3,4,6,8,7,10,9,11,12), of "''AAA!''" 4] t(5) obtain u where u:
    "tfs_write (int h) ''AAA!'' 4 t = Inr (4, u)" "fs_inv u" "idle u" "fs_params u = ?p" "is_open u (int h)"
    "names u ''f1'' = Some (file_of t h)" "contents u (file_of t h) = ''AAA!''" "\<not> is_link u (int (file_of t h))"
    by (auto simp: tfs_default_params_def)
  from stored_file_closes [OF u(2-5,6,8,7)] obtain x where x: "tfs_close (int h) u = Inr (0, x)"
    "stored_file ?p ''f1'' ''AAA!'' x" by blast
  from stored_file_opens [OF x(2) f1_name(1,2)] obtain g y where y: "tfs_open (Some ''/f1'') 0 x = Inr (int g, y)"
    "fs_inv y" "idle y" "is_open y (int g)" "offset_of y g = 0" "freeinode_ts y ! file_of y g = TAKEN"
    "contents y (file_of y g) = ''AAA!''" by blast
  from stored_read [OF y(2-4,6,7,5), of 39] obtain z where z: "tfs_read (int g) 39 y = Inr ((4, ''AAA!''), z)"
    "fs_inv z" "idle z" "is_open z (int g)" by auto
  from close_run [OF z(2-4)] obtain w where "tfs_close (int g) z = Inr (0, w)" by blast
  moreover have "tfs_init hp None boot = Inr (0, s)" using t(1) by (simp add: tfs_init_def)
  ultimately show ?thesis using t(2) u(1) x(1) y(1) z(1)
    by (simp add: test1_def exec_simps c_string_def)
qed

end
