(* ===== verification/Spec2Isabelle.thy ===== *)
theory Spec2Isabelle
  imports FS_Correct PCQ_Correct Shutdown Threads_Delivery Broker_Main Checked_Calls
    Logging FS_Tests
begin

text \<open>
  TecnicoFS and its message broker.

  \<^bold>\<open>The program.\<close>  The broker \<open>mbroker\<close> keeps named boxes of messages for its clients.  A manager
  creates, removes, lists, locks and unlocks boxes; a publisher appends messages to a box; a
  subscriber gets the messages of a box, the old ones and the ones that follow.  The parts are:

    \<^item> TecnicoFS (\<open>fs/state.c\<close>, \<open>fs/operations.c\<close>), a file system in memory with one directory,
      files of at most one block, hard and symbolic links; every box has a file in it;
    \<^item> the task queue (\<open>producer-consumer/\<close>) between the main loop of the broker and its threads;
    \<^item> the wire protocol (\<open>utils/pipeflow.h\<close>, \<open>writer_stc.c\<close>, \<open>reader_stc.c\<close>): lines of \<open>MAX_LINE\<close>
      bytes on named pipes;
    \<^item> the broker (\<open>mbroker/mbroker.c\<close>): the table of boxes and one handler per request;
    \<^item> the clients \<open>manager/manager.c\<close>, \<open>publisher/pub.c\<close>, \<open>subscriber/sub.c\<close>.

  A client writes a request to the server pipe; the main loop makes a task of it and puts it into
  the queue; a thread takes it out and calls its handler; the handler works on the table and the
  file system and answers on the pipe of the client.

  \<^bold>\<open>How code is modelled\<close> (theory \<open>TFS_Prelude\<close>).  A function of the source is an operation
  \<open>'s \<Rightarrow> fault + 'a \<times> 's\<close> on an explicit state.  A fault is what ends an execution before it
  returns: a failed assertion, \<open>exit\<close>, a deadlock with oneself, a recursion that never returns, and
  the undefined behaviours of C, among them every access outside an array.  \<open>call\<close> and \<open>block\<close>
  sequence operations; the lemmas in \<open>exec_simps\<close> run them.  \<open>size_t\<close> wraps at 2^64, signed
  overflow is a fault, flags and protocol fields are words; a character array is the list of its
  bytes, and a string function that runs off its end faults.  Memory that the code does not
  initialise is a parameter.  Structures are records with the fields of the source.

  \<^bold>\<open>TecnicoFS.\<close>  \<open>FS_State\<close> has the tables, the memory of the data blocks and the locks of
  \<open>state.c\<close> with every function on them (directory entries are read and written in the bytes of the
  block, as the code does), \<open>FS_Operations\<close> the API of \<open>operations.c\<close>.  \<open>FS_Tables\<close> runs the functions
  on the tables, \<open>FS_Directory\<close> those on directory entries against the abstract list \<open>root_dents\<close>,
  \<open>FS_Invariant\<close> states the invariant \<open>fs_inv\<close> (tables of the right sizes, every entry of the directory a file
  that exists and has at least as many links, sizes within a block, no block shared, handles to
  files only).  \<open>FS_Paths\<close>, \<open>FS_Api\<close>, \<open>FS_Links\<close>, \<open>FS_Open\<close>, \<open>FS_Data\<close>, \<open>FS_Init\<close> give for each call the
  exact result and next state and that the invariant survives; \<open>FS_Contents\<close> and \<open>FS_Names\<close> abstract
  a state to the contents of its files, the map from names to inodes and, as the directory can hold a name
  twice, the entries of each name (\<open>entries_of\<close>); \<open>FS_Reach\<close> defines the
  states that calls can reach and proves that all of them are well-formed; \<open>FS_Runs\<close> is the library
  that the broker uses; \<open>FS_Demo\<close> has a small file system; \<open>FS_Correct\<close> has the properties.  \<open>FS_Tests\<close> runs two of the
  tests of the repository: \<open>test1\<close> passes, and \<open>t1_2_5_clear_data_blocks\<close> stops at its first comparison.

  \<^bold>\<open>The task queue.\<close>  \<open>PCQ\<close> has the array and its critical sections, and the locale \<open>fifo\<close>, what a
  user of the queue relies on, interpreted on the code's operations.  \<open>PCQ_Threads\<close> is a step
  relation for any number of threads, with the mutexes and condition variables of the source: its
  invariants give mutual exclusion, an order of the locks and that some thread can always move.
  \<open>PCQ_Correct\<close> has the properties.

  \<^bold>\<open>The protocol.\<close>  \<open>Protocol\<close> has the structures, the writers and the readers.  The locale
  \<open>wire_codec\<close> is the contract between the two, interpreted on \<open>writer_stc\<close> and \<open>reader_stc\<close>.

  \<^bold>\<open>The broker.\<close>  \<open>Broker\<close> has the globals, every handler and the dispatch.  The record \<open>env\<close> holds
  what the operating system answers (which pipes can be opened, what a write returns, how much
  memory there is); the log \<open>pipes\<close> records what was done to the pipes of the clients.  A handler is
  one execution; the loop of a publisher consumes the list of lines that its client sends; the loop
  of a subscriber (\<open>sub_loop\<close>) runs from the moment it gets the lock of its box to the moment it
  sleeps on the condition variable.  \<open>Broker_Exec\<close> runs the parts of the handlers from a well-formed
  broker (\<open>broker_inv\<close>), \<open>Broker_Handlers\<close>, \<open>Broker_Boxes\<close> and \<open>Broker_Streams\<close> the handlers;
  \<open>Broker_Demo\<close> is a small broker; \<open>Broker_Correct\<close> has what requests do to the boxes, and
  \<open>Broker_Delivery\<close> what is delivered to whom, and the dispatch of requests; \<open>Broker_Main\<close> reads the
  command line of the broker; \<open>Broker_Wakeup\<close> interleaves a publisher and a
  subscriber of one box.  \<open>Server\<close> joins the
  broker and the queue and has the main loop, which makes a task of every line; in which order tasks
  are taken by threads is in \<open>Threads_Correct\<close>.

  \<^bold>\<open>The threads of the broker.\<close>  \<open>Broker_Threads\<close> cuts the handlers where other threads can come
  between: every thread has an \<open>activity\<close> (it waits for a task, waits for a line of its publisher,
  wants the lock of its box, holds it after a \<open>tfs_read\<close>, sleeps, has ended), and a step relation
  interleaves the main loop and any number of threads.  A step is what happens under one lock, or
  one call of TecnicoFS with what the thread does alone after it; a handler of the manager is one step, as it
  holds \<open>box_size_lock\<close>.  A thread that needs a lock that is held has no step.  \<open>TFS_Triples\<close> is a
  calculus of partial correctness (\<open>leads\<close>, and \<open>yields\<close> for results), \<open>FS_Effects\<close> and \<open>Broker_Triples\<close> give
  the triples of the calls of TecnicoFS and of the parts of every handler: what they leave alone
  (handles, entries and locks of the other threads).  \<open>Threads_Steps\<close> has the triples of the steps,
  \<open>Threads_Invariant\<close> the invariant \<open>cluster_inv\<close> of the whole, \<open>Threads_Start\<close> the initial states
  and a small execution.  \<open>Threads_Correct\<close> proves the invariant for every execution from the start
  of \<open>main\<close> and the order in which requests are taken, \<open>Threads_Publishers\<close> that a box has one
  publisher, \<open>Threads_Storage\<close> that no message is lost or changed once it is stored, and
  \<open>Threads_Delivery\<close> that every subscriber is sent the messages of its box in their order, each once,
  whatever the other threads do meanwhile.  Both rest on \<open>Threads_Files\<close>, which follows the files of the
  boxes through every execution, as \<open>FS_Files\<close>, \<open>FS_Spare\<close> (the bytes behind the files stay zero),
  \<open>Broker_Files\<close> and \<open>Broker_Creates\<close> do through the calls of TecnicoFS and through the handlers;
  \<open>Threads_Serving\<close> has the steps of a subscriber, \<open>Threads_Sessions\<close> looks at an execution from one of its threads, with what this thread writes to
  pipes, and \<open>Threads_Demo\<close> goes on with the execution of \<open>Threads_Start\<close>.  \<open>Threads_Handlers\<close> connects the two translations of the
  streaming handlers: the steps of a thread which nobody interrupts compose to the handler of \<open>Broker\<close>, so
  that the theorems about these hold for such executions.

  \<^bold>\<open>The clients.\<close>  \<open>Clients\<close> has the three programs; their state is the log of their system calls.
  \<open>Client_Exec\<close> runs them; the locale \<open>qsort_order\<close> is what \<open>qsort\<close> needs of its comparison,
  interpreted on \<open>compare_func\<close>.  \<open>Client_Correct\<close> joins clients and broker: what is typed at a
  publisher is printed by a subscriber, and the commands of the manager do in the broker what they
  say.

  \<^bold>\<open>Signals.\<close>  \<open>Shutdown\<close> has the handlers of \<open>SIGINT\<close> of the broker and of the subscriber, and what the
  other threads of the broker meet after the former.

  \<^bold>\<open>The rest of utils.\<close>  \<open>Checked_Calls\<close> has the wrappers of \<open>safety_mechanisms.c\<close> that check the answers of
  pthreads and of \<open>read\<close>, and proves that no error of pthreads is ever noticed; the other wrappers are in
  the theories that use them.  \<open>Logging\<close> has the macros of \<open>logging.h\<close>, the level that selects them
  and the assertion of \<open>utils/betterassert.h\<close>; no other file of the program calls them.

  \<^bold>\<open>Fuel and termination.\<close>  The recursion of \<open>get_path_recursive\<close> may be endless: it is a
  \<open>partial_function\<close> whose value tells so, and \<open>tfs_open_diverges_iff\<close> says when.  The loops of a
  subscriber have fuel; the theorems about them ask for more than one unit per message plus one,
  and then the loop reaches its sleep.  Every other loop terminates by a measure.

  \<^bold>\<open>Assumptions.\<close>  What a theorem needs of the environment is in its hypotheses: a client that reads its
  pipe (\<open>pipe_ok\<close>, \<open>reader_ok\<close>), memory for the requests (\<open>grants\<close>), a zeroed buffer \<open>teste\<close> and zeroed
  memory behind a file (\<open>blank_after\<close>, which \<open>tfs_read\<close> needs because it may look one byte past the end).
  The last two are faults of the code: \<open>first_message_unterminated\<close> and \<open>tfs_read_past_end\<close> show what
  happens without them.  Some calls are described for a directory in which no name occurs twice
  (\<open>unique_names\<close>), which the code does not ensure: \<open>tfs_link_duplicates_name\<close> shows how a name gets a
  second entry.  \<open>stale_handle_reaches_new_file\<close>, \<open>pcq_lost_wakeup\<close>,
  \<open>broadcast_can_be_missed\<close>, \<open>remove_unknown_out_of_bounds\<close> and \<open>every_line_dispatched\<close> and
  \<open>shutdown_pulls_memory_away\<close> show other faults.

  \<^bold>\<open>Not modelled.\<close>  The points in the middle of a function where a signal can arrive (\<open>SIGPIPE\<close> is
  modelled as far as a write to a closed pipe ends a process that did not install a handler); accesses to one
  entry of the table by two threads without a common lock (\<open>n_subs\<close> is raised under
  \<open>box_size_lock\<close> and lowered under the lock of the box; \<open>n_pub\<close> and \<open>box_size\<close> of a publisher are
  written without one): they are steps of their own, not data races; what a subscriber is sent once its box was removed
  or is full; reads from a pipe that fail; the busy loop \<open>insert_delay\<close>; the tests that \<open>FS_Tests\<close> does not run.  Uninitialised
  arrays of one handler share their contents \<open>raw_text\<close> and \<open>raw_entry\<close> in \<open>env\<close>.  Of \<open>qsort\<close> the
  model fixes the order of entries with equal names, which the standard leaves open.
\<close>

end
